(* ===== verification/Go_Prelude.thy ===== *)
theory Go_Prelude
  imports Main "HOL-Library.Word"
begin

unbundle bit_operations_syntax

text \<open>
  Shared vocabulary of the development: the fragment of Go and of its standard
  library that the modelled code relies on.

  \<^item> bytes are \<open>8 word\<close>; a Go \<open>string\<close> is a HOL \<open>string\<close> (one \<open>char\<close> per byte),
    a \<open>[]byte\<close> is a list of bytes, and \<open>str_bytes\<close> / \<open>bytes_str\<close> convert;
  \<^item> \<open>encoding/binary.BigEndian\<close> on 16, 32 and 64 bits;
  \<^item> errors as values (\<open>go_error\<close>), run-time panics as the error \<open>Panic\<close>;
  \<^item> a connection (\<open>conn\<close>) with its unread input, its output so far and the number of
    writes the peer still accepts; \<open>io.ReadFull\<close> and \<open>Write\<close> on it;
  \<^item> the functions of \<open>strings\<close> and \<open>strconv\<close> the code calls.  \<open>strings.ToLower\<close>
    and \<open>strings.TrimSpace\<close> are modelled on ASCII, which is what host names, schemes
    and URLs of this program are made of.
\<close>

named_theorems byte_simps "conversions between bytes, characters and words"
named_theorems conn_simps "reading from and writing to a connection"

section \<open>Bytes and characters\<close>

type_synonym byte = "8 word"
type_synonym bytes = "byte list"
type_synonym u16 = "16 word"
type_synonym u32 = "32 word"
type_synonym u64 = "64 word"

definition byte_of_char :: "char \<Rightarrow> byte" where
  "byte_of_char c = of_nat (of_char c)"

definition char_of_byte :: "byte \<Rightarrow> char" where
  "char_of_byte b = char_of (unat b)"

definition str_bytes :: "string \<Rightarrow> bytes" where
  "str_bytes s = map byte_of_char s"

definition bytes_str :: "bytes \<Rightarrow> string" where
  "bytes_str b = map char_of_byte b"

definition code :: "char \<Rightarrow> nat" where
  "code c = of_char c"

text \<open>Big-endian integers, as \<open>encoding/binary\<close> reads and writes them.\<close>

definition be16 :: "byte \<Rightarrow> byte \<Rightarrow> u16" where
  "be16 b0 b1 = push_bit 8 (ucast b0) OR ucast b1"

definition put16 :: "u16 \<Rightarrow> bytes" where
  "put16 w = [ucast (drop_bit 8 w), ucast w]"

definition be32 :: "byte \<Rightarrow> byte \<Rightarrow> byte \<Rightarrow> byte \<Rightarrow> u32" where
  "be32 b0 b1 b2 b3 =
     push_bit 24 (ucast b0) OR push_bit 16 (ucast b1) OR push_bit 8 (ucast b2) OR ucast b3"

definition put32 :: "u32 \<Rightarrow> bytes" where
  "put32 w = [ucast (drop_bit 24 w), ucast (drop_bit 16 w), ucast (drop_bit 8 w), ucast w]"

definition be64 :: "u32 \<Rightarrow> u32 \<Rightarrow> u64" where
  "be64 hi lo = push_bit 32 (ucast hi) OR ucast lo"

definition put64 :: "u64 \<Rightarrow> bytes" where
  "put64 w = put32 (ucast (drop_bit 32 w)) @ put32 (ucast w)"

text \<open>\<open>Uint16\<close>, \<open>Uint32\<close> and \<open>Uint64\<close> index the slice and panic when it is too short.\<close>

fun get16 :: "bytes \<Rightarrow> u16 option" where
  "get16 (b0 # b1 # _) = Some (be16 b0 b1)"
| "get16 _ = None"

fun get32 :: "bytes \<Rightarrow> u32 option" where
  "get32 (b0 # b1 # b2 # b3 # _) = Some (be32 b0 b1 b2 b3)"
| "get32 _ = None"

fun get64 :: "bytes \<Rightarrow> u64 option" where
  "get64 (b0 # b1 # b2 # b3 # b4 # b5 # b6 # b7 # _) =
     Some (be64 (be32 b0 b1 b2 b3) (be32 b4 b5 b6 b7))"
| "get64 _ = None"

section \<open>Errors, results and connections\<close>

datatype go_error =
    EOF
  | ErrUnexpectedEOF
  | ErrWrite
  | ErrMsg string
  | Panic string

type_synonym 'a result = "go_error + 'a"

definition is_panic :: "'a result \<Rightarrow> bool" where
  "is_panic r = (case r of Inl (Panic _) \<Rightarrow> True | _ \<Rightarrow> False)"

text \<open>
  One end of a connection: what can still be read before the peer closes its side,
  what has been written, and how many more calls of \<open>Write\<close> succeed (\<open>None\<close>: all).
\<close>

record conn =
  rd :: bytes
  wr :: bytes
  wleft :: "nat option"

text \<open>\<open>io.ReadFull\<close> into a buffer of \<open>n\<close> bytes.\<close>

definition read_full :: "nat \<Rightarrow> conn \<Rightarrow> bytes result \<times> conn" where
  "read_full n c =
     (if n \<le> length (rd c) then (Inr (take n (rd c)), c\<lparr>rd := drop n (rd c)\<rparr>)
      else (Inl (if rd c = [] then EOF else ErrUnexpectedEOF), c\<lparr>rd := []\<rparr>))"

text \<open>\<open>Write\<close>: all or nothing; after the last accepted write every call fails.\<close>

definition conn_write :: "bytes \<Rightarrow> conn \<Rightarrow> go_error option \<times> conn" where
  "conn_write b c =
     (case wleft c of
        None \<Rightarrow> (None, c\<lparr>wr := wr c @ b\<rparr>)
      | Some 0 \<Rightarrow> (Some ErrWrite, c)
      | Some (Suc n) \<Rightarrow> (None, c\<lparr>wr := wr c @ b, wleft := Some n\<rparr>))"

definition open_conn :: "bytes \<Rightarrow> conn" where
  "open_conn input = \<lparr>rd = input, wr = [], wleft = None\<rparr>"

text \<open>
  Code that reads and writes a connection and returns at the first error is written with
  these combinators; \<open>io_relabel\<close> replaces the error of a call by the caller's own.
\<close>

type_synonym 'a io = "conn \<Rightarrow> 'a result \<times> conn"

definition io_ret :: "'a \<Rightarrow> 'a io" where
  "io_ret x c = (Inr x, c)"

definition io_fail :: "go_error \<Rightarrow> 'a io" where
  "io_fail e c = (Inl e, c)"

definition io_bind :: "'a io \<Rightarrow> ('a \<Rightarrow> 'b io) \<Rightarrow> 'b io" where
  "io_bind m f c = (case m c of (Inl e, c') \<Rightarrow> (Inl e, c') | (Inr x, c') \<Rightarrow> f x c')"

definition io_relabel :: "string \<Rightarrow> 'a io \<Rightarrow> 'a io" where
  "io_relabel msg m c = (case m c of (Inl e, c') \<Rightarrow> (Inl (ErrMsg msg), c') | r \<Rightarrow> r)"

definition io_write :: "bytes \<Rightarrow> unit io" where
  "io_write b c = (case conn_write b c of (Some e, c') \<Rightarrow> (Inl e, c') | (None, c') \<Rightarrow> (Inr (), c'))"

text \<open>A write whose error is ignored.\<close>

definition io_write_ignore :: "bytes \<Rightarrow> unit io" where
  "io_write_ignore b c = (Inr (), snd (conn_write b c))"

section \<open>The package strings\<close>

definition is_upper :: "char \<Rightarrow> bool" where
  "is_upper c = (65 \<le> code c \<and> code c \<le> 90)"

definition is_lower :: "char \<Rightarrow> bool" where
  "is_lower c = (97 \<le> code c \<and> code c \<le> 122)"

definition is_digit :: "char \<Rightarrow> bool" where
  "is_digit c = (48 \<le> code c \<and> code c \<le> 57)"

definition is_space :: "char \<Rightarrow> bool" where
  "is_space c = (code c = 32 \<or> (9 \<le> code c \<and> code c \<le> 13))"

definition lower_char :: "char \<Rightarrow> char" where
  "lower_char c = (if is_upper c then char_of (code c + 32) else c)"

definition to_lower :: "string \<Rightarrow> string" where
  "to_lower s = map lower_char s"

definition trim_left :: "(char \<Rightarrow> bool) \<Rightarrow> string \<Rightarrow> string" where
  "trim_left p s = dropWhile p s"

definition trim_right :: "(char \<Rightarrow> bool) \<Rightarrow> string \<Rightarrow> string" where
  "trim_right p s = rev (dropWhile p (rev s))"

definition trim_space :: "string \<Rightarrow> string" where
  "trim_space s = trim_right is_space (trim_left is_space s)"

definition has_prefix :: "string \<Rightarrow> string \<Rightarrow> bool" where
  "has_prefix s p = (take (length p) s = p)"

definition has_suffix :: "string \<Rightarrow> string \<Rightarrow> bool" where
  "has_suffix s p = (length p \<le> length s \<and> drop (length s - length p) s = p)"

definition trim_suffix :: "string \<Rightarrow> string \<Rightarrow> string" where
  "trim_suffix s p = (if has_suffix s p then take (length s - length p) s else s)"

fun index_byte :: "char \<Rightarrow> string \<Rightarrow> nat option" where
  "index_byte c [] = None"
| "index_byte c (x # xs) = (if x = c then Some 0 else map_option Suc (index_byte c xs))"

fun last_index_byte :: "char \<Rightarrow> string \<Rightarrow> nat option" where
  "last_index_byte c [] = None"
| "last_index_byte c (x # xs) =
     (case last_index_byte c xs of
        Some i \<Rightarrow> Some (Suc i)
      | None \<Rightarrow> if x = c then Some 0 else None)"

text \<open>\<open>strings.Split\<close> on a one-byte separator: never empty.\<close>

fun split_on :: "char \<Rightarrow> string \<Rightarrow> string list" where
  "split_on c [] = [[]]"
| "split_on c (x # xs) =
     (if x = c then [] # split_on c xs
      else (case split_on c xs of
              [] \<Rightarrow> [[x]]
            | y # ys \<Rightarrow> (x # y) # ys))"

fun join_with :: "string \<Rightarrow> string list \<Rightarrow> string" where
  "join_with sep [] = []"
| "join_with sep [x] = x"
| "join_with sep (x # y # ys) = x @ sep @ join_with sep (y # ys)"

fun contains_str :: "string \<Rightarrow> string \<Rightarrow> bool" where
  "contains_str [] p = (p = [])"
| "contains_str (x # xs) p = (has_prefix (x # xs) p \<or> contains_str xs p)"

definition cut_byte :: "char \<Rightarrow> string \<Rightarrow> (string \<times> string) option" where
  "cut_byte c s = map_option (\<lambda>i. (take i s, drop (Suc i) s)) (index_byte c s)"

section \<open>The package strconv\<close>

definition digit_char :: "nat \<Rightarrow> char" where
  "digit_char d = char_of (48 + d)"

definition digit_val :: "char \<Rightarrow> nat" where
  "digit_val c = code c - 48"

fun show_nat :: "nat \<Rightarrow> string" where
  "show_nat n = (if n < 10 then [digit_char n] else show_nat (n div 10) @ [digit_char (n mod 10)])"

declare show_nat.simps [simp del]

text \<open>\<open>Itoa\<close> / \<open>FormatInt\<close>.\<close>

definition show_int :: "int \<Rightarrow> string" where
  "show_int i = (if i < 0 then CHR ''-'' # show_nat (nat (- i)) else show_nat (nat i))"

definition digits_val :: "string \<Rightarrow> nat" where
  "digits_val s = foldl (\<lambda>a c. a * 10 + digit_val c) 0 s"

text \<open>\<open>ParseUint(s, 10, bits)\<close>: \<open>None\<close> for a syntax or a range error.\<close>

definition parse_uint :: "nat \<Rightarrow> string \<Rightarrow> nat option" where
  "parse_uint bits s =
     (if s = [] \<or> \<not> list_all is_digit s then None
      else if 2 ^ bits \<le> digits_val s then None else Some (digits_val s))"

text \<open>\<open>Atoi\<close> on a 64-bit \<open>int\<close>: an optional sign, then digits.\<close>

definition atoi :: "string \<Rightarrow> int option" where
  "atoi s =
     (let (neg, t) = (case s of [] \<Rightarrow> (False, []) | c # cs \<Rightarrow>
            if c = CHR ''-'' then (True, cs) else if c = CHR ''+'' then (False, cs)
            else (False, s))
      in if t = [] \<or> \<not> list_all is_digit t then None
         else let v = int (digits_val t) in
           if neg then (if v \<le> 2 ^ 63 then Some (- v) else None)
           else (if v < 2 ^ 63 then Some v else None))"

section \<open>Signed 64-bit integers\<close>

text \<open>Go's \<open>int\<close> and \<open>int64\<close>: results are reduced to the signed range, and division cuts towards
  zero.\<close>

definition i64 :: "int \<Rightarrow> int" where
  "i64 x = (x + 2 ^ 63) mod 2 ^ 64 - 2 ^ 63"

definition quot64 :: "int \<Rightarrow> int \<Rightarrow> int" where
  "quot64 a b = i64 (sgn a * sgn b * (\<bar>a\<bar> div \<bar>b\<bar>))"

section \<open>Queries\<close>

text \<open>\<open>url.QueryUnescape\<close>: \<open>None\<close> for a malformed escape.\<close>

definition hex_digit :: "char \<Rightarrow> nat option" where
  "hex_digit c =
     (if is_digit c then Some (code c - 48)
      else if 97 \<le> code c \<and> code c \<le> 102 then Some (code c - 87)
      else if 65 \<le> code c \<and> code c \<le> 70 then Some (code c - 55)
      else None)"

fun query_unescape :: "string \<Rightarrow> string option" where
  "query_unescape [] = Some []"
| "query_unescape (c # cs) =
     (if c = CHR ''%'' then
        (case cs of
           a # b # r \<Rightarrow>
             (case (hex_digit a, hex_digit b) of
                (Some x, Some y) \<Rightarrow> map_option ((#) (char_of (16 * x + y))) (query_unescape r)
              | _ \<Rightarrow> None)
         | _ \<Rightarrow> None)
      else map_option ((#) (if c = CHR ''+'' then CHR '' '' else c)) (query_unescape cs))"

text \<open>\<open>url.ParseQuery\<close>: the pairs that could be read, in order, and whether something was wrong.
  Parts that hold a semicolon or a malformed escape are dropped and reported.\<close>

definition query_pair :: "string \<Rightarrow> (string \<times> string) option option" where
  "query_pair part =
     (if CHR '';'' \<in> set part then None
      else if part = [] then Some None
      else
        let (k, v) = (case cut_byte CHR ''='' part of None \<Rightarrow> (part, []) | Some kv \<Rightarrow> kv) in
        case (query_unescape k, query_unescape v) of
          (Some k', Some v') \<Rightarrow> Some (Some (k', v'))
        | _ \<Rightarrow> None)"

definition ParseQuery :: "string \<Rightarrow> (string \<times> string) list \<times> bool" where
  "ParseQuery q =
     (let ps = map query_pair (split_on CHR ''&'' q)
      in (concat (map (\<lambda>p. case p of Some (Some kv) \<Rightarrow> [kv] | _ \<Rightarrow> []) ps), None \<in> set ps))"

text \<open>\<open>Values.Get\<close>: the first value of the key, empty when there is none.\<close>

definition query_get :: "string \<Rightarrow> (string \<times> string) list \<Rightarrow> string" where
  "query_get k kvs = (case map_of kvs k of Some v \<Rightarrow> v | None \<Rightarrow> [])"

text \<open>The fields of a \<open>url.URL\<close> the code reads; \<open>url.Parse\<close> itself is not modelled, functions
  that call it take its result.\<close>

record url =
  u_Scheme :: string
  u_Opaque :: string
  u_hasUser :: bool
  u_User :: string
  u_Pass :: string
  u_Host :: string
  u_Path :: string
  u_RawQuery :: string
  u_Fragment :: string

text \<open>\<open>URL.Hostname\<close>: without an optional numeric port and without brackets.\<close>

definition strip_brackets :: "string \<Rightarrow> string" where
  "strip_brackets h =
     (if h \<noteq> [] \<and> hd h = CHR ''['' \<and> last h = CHR '']'' then butlast (tl h) else h)"

definition u_Hostname :: "url \<Rightarrow> string" where
  "u_Hostname u =
     strip_brackets
      (case last_index_byte CHR '':'' (u_Host u) of
         None \<Rightarrow> u_Host u
       | Some i \<Rightarrow> if list_all is_digit (drop (Suc i) (u_Host u)) then take i (u_Host u) else u_Host u)"

definition u_Query :: "url \<Rightarrow> string \<Rightarrow> string" where
  "u_Query u k = query_get k (fst (ParseQuery (u_RawQuery u)))"

section \<open>Removing duplicates the way the code does\<close>

text \<open>
  The idiom \<open>seen := map[...]struct{}{}; if exists {continue}; seen[key] = ...; append\<close>,
  with the keys already seen as the first argument.
\<close>

fun uniq_by :: "('a \<Rightarrow> 'k) \<Rightarrow> 'k list \<Rightarrow> 'a list \<Rightarrow> 'a list" where
  "uniq_by key seen [] = []"
| "uniq_by key seen (x # xs) =
     (if key x \<in> set seen then uniq_by key seen xs
      else x # uniq_by key (key x # seen) xs)"

section \<open>Lemmas\<close>

subsection \<open>Bytes\<close>

lemma unat_byte_less [simp]: "unat (b :: byte) < 256"
  using unsigned_less [where 'a = nat and w = b] by simp

lemma unat_byte_le [simp]: "unat (b :: byte) \<le> 255"
  using unat_byte_less [of b] by linarith

lemma char_of_byte_of_char [simp, byte_simps]: "char_of_byte (byte_of_char c) = c"
  by (simp add: char_of_byte_def byte_of_char_def unat_of_nat)

lemma byte_of_char_of_byte [simp, byte_simps]: "byte_of_char (char_of_byte b) = b"
  by (simp add: char_of_byte_def byte_of_char_def)

lemma bytes_str_bytes [simp, byte_simps]: "bytes_str (str_bytes s) = s"
  by (induction s) (simp_all add: bytes_str_def str_bytes_def)

lemma str_bytes_str [simp, byte_simps]: "str_bytes (bytes_str b) = b"
  by (induction b) (simp_all add: bytes_str_def str_bytes_def)

lemma length_str_bytes [simp]: "length (str_bytes s) = length s"
  by (simp add: str_bytes_def)

lemma length_bytes_str [simp]: "length (bytes_str b) = length b"
  by (simp add: bytes_str_def)

lemma str_bytes_append [simp]: "str_bytes (s @ t) = str_bytes s @ str_bytes t"
  by (simp add: str_bytes_def)

lemma bytes_str_append [simp]: "bytes_str (s @ t) = bytes_str s @ bytes_str t"
  by (simp add: bytes_str_def)

lemma bytes_str_Nil [simp]: "bytes_str [] = []"
  by (simp add: bytes_str_def)

lemma code_less_256 [simp]: "code c < 256"
  by (simp add: code_def)

subsection \<open>Big-endian round trips\<close>

lemma be16_put16 [simp, byte_simps]: "be16 (ucast (drop_bit 8 w)) (ucast w) = w"
  unfolding be16_def by (rule bit_word_eqI) (auto simp: bit_simps)

lemma byte_bit_high [simp]: "8 \<le> n \<Longrightarrow> \<not> bit (b :: byte) n"
  by (simp add: bit_word_def not_le impossible_bit)

lemma put16_be16 [simp, byte_simps]: "put16 (be16 a b) = [a, b]"
  unfolding put16_def be16_def by (auto intro!: bit_word_eqI simp: bit_simps)

lemma be32_put32 [simp, byte_simps]:
  "be32 (ucast (drop_bit 24 w)) (ucast (drop_bit 16 w)) (ucast (drop_bit 8 w)) (ucast w) = w"
  unfolding be32_def
proof (rule bit_word_eqI)
  fix n assume "n < LENGTH(32)"
  then consider "n < 8" | "8 \<le> n" "n < 16" | "16 \<le> n" "n < 24" | "24 \<le> n" "n < 32"
    by fastforce
  then show "bit (push_bit 24 (ucast (ucast (drop_bit 24 w) :: byte) :: u32) OR
      push_bit 16 (ucast (ucast (drop_bit 16 w) :: byte)) OR
      push_bit 8 (ucast (ucast (drop_bit 8 w) :: byte)) OR ucast (ucast w :: byte)) n = bit w n"
    by cases (auto simp: bit_simps)
qed

lemma get16_put16 [simp, byte_simps]: "get16 (put16 w @ r) = Some w"
  by (simp add: put16_def)

lemma get32_put32 [simp, byte_simps]: "get32 (put32 w @ r) = Some w"
  by (simp add: put32_def)

lemma be64_put64: "be64 (ucast (drop_bit 32 w)) (ucast w) = w"
  unfolding be64_def by (rule bit_word_eqI) (auto simp: bit_simps)

lemma get64_put64 [simp, byte_simps]: "get64 (put64 w @ r) = Some w"
  by (simp add: put64_def put32_def be64_put64)

lemma length_put [simp]: "length (put16 w) = 2" "length (put32 v) = 4" "length (put64 u) = 8"
  by (simp_all add: put16_def put32_def put64_def)

lemma unat_ucast_byte: "unat (ucast (b :: byte) :: u16) = unat b"
  by (simp add: unsigned_ucast_eq take_bit_nat_eq_self order_less_le_trans [OF unat_byte_less])

lemma unat_push_byte: "unat (push_bit 8 (ucast (a :: byte) :: u16)) = unat a * 256"
proof -
  have "unat a * 256 < 65536" using unat_byte_less [of a] by linarith
  then show ?thesis
    unfolding unsigned_push_bit_eq unat_ucast_byte by (simp add: push_bit_eq_mult take_bit_eq_mod)
qed

lemma unat_be16: "unat (be16 a b) = unat a * 256 + unat b"
proof -
  have "push_bit 8 (ucast a :: u16) AND ucast b = 0"
    by (rule bit_word_eqI) (auto simp: bit_simps)
  then have "be16 a b = push_bit 8 (ucast a) + ucast b"
    unfolding be16_def by (simp add: disjunctive_add_eq_or)
  moreover have "unat a * 256 + unat b < 65536"
    using unat_byte_less [of a] unat_byte_less [of b] by linarith
  ultimately show ?thesis
    by (simp only: unat_plus_if_size word_size unat_push_byte unat_ucast_byte) simp
qed

subsection \<open>Connections\<close>

lemma read_full_ok [simp, conn_simps]:
  "rd c = xs @ ys \<Longrightarrow> length xs = n \<Longrightarrow> read_full n c = (Inr xs, c\<lparr>rd := ys\<rparr>)"
  by (simp add: read_full_def)

lemma read_full_short [conn_simps]:
  "length (rd c) < n \<Longrightarrow> read_full n c = (Inl (if rd c = [] then EOF else ErrUnexpectedEOF), c\<lparr>rd := []\<rparr>)"
  by (simp add: read_full_def)

lemma read_full_InrD:
  "read_full n c = (Inr b, c') \<Longrightarrow> rd c = b @ rd c' \<and> length b = n \<and> wr c' = wr c \<and> wleft c' = wleft c"
  by (auto simp: read_full_def split: if_splits)

lemma read_full_consumes:
  "read_full n c = (r, c') \<Longrightarrow> \<exists>u. rd c = u @ rd c'"
  by (auto simp: read_full_def split: if_splits intro: exI [of _ "take n (rd c)"])

lemma conn_write_open [simp, conn_simps]:
  "wleft c = None \<Longrightarrow> conn_write b c = (None, c\<lparr>wr := wr c @ b\<rparr>)"
  by (simp add: conn_write_def)

lemma conn_write_rd: "conn_write b c = (e, c') \<Longrightarrow> rd c' = rd c"
  by (auto simp: conn_write_def split: option.splits nat.splits)

lemma io_bind_Inr [simp, conn_simps]: "m c = (Inr x, c') \<Longrightarrow> io_bind m f c = f x c'"
  by (simp add: io_bind_def)

lemma io_bind_Inl [simp, conn_simps]: "m c = (Inl e, c') \<Longrightarrow> io_bind m f c = (Inl e, c')"
  by (simp add: io_bind_def)

lemma io_bind_InrE:
  assumes "io_bind m f c = (Inr y, c'')"
  obtains x c' where "m c = (Inr x, c')" "f x c' = (Inr y, c'')"
  using assms by (auto simp: io_bind_def split: prod.splits sum.splits)

lemma io_relabel_Inr [simp, conn_simps]: "m c = (Inr x, c') \<Longrightarrow> io_relabel msg m c = (Inr x, c')"
  by (simp add: io_relabel_def)

lemma io_relabel_Inl [simp, conn_simps]: "m c = (Inl e, c') \<Longrightarrow> io_relabel msg m c = (Inl (ErrMsg msg), c')"
  by (simp add: io_relabel_def)

lemma io_relabel_InrD: "io_relabel msg m c = (Inr x, c') \<Longrightarrow> m c = (Inr x, c')"
  by (auto simp: io_relabel_def split: prod.splits sum.splits)

lemma io_write_open [simp, conn_simps]:
  "wleft c = None \<Longrightarrow> io_write b c = (Inr (), c\<lparr>wr := wr c @ b\<rparr>)"
  by (simp add: io_write_def)

lemma io_write_InrD: "io_write b c = (Inr u, c') \<Longrightarrow> rd c' = rd c \<and> wr c' = wr c @ b"
  by (auto simp: io_write_def conn_write_def split: option.splits nat.splits)

definition suffix_of :: "'a list \<Rightarrow> 'a list \<Rightarrow> bool" where
  "suffix_of a b = (\<exists>u. b = u @ a)"

text \<open>An operation takes bytes from the front of the input and does nothing else to it.\<close>

definition consumes :: "'a io \<Rightarrow> bool" where
  "consumes m = (\<forall>c. suffix_of (rd (snd (m c))) (rd c))"

lemma consumesD: "consumes m \<Longrightarrow> m c = (r, c') \<Longrightarrow> \<exists>u. rd c = u @ rd c'"
  by (metis consumes_def snd_conv suffix_of_def)

lemma suffix_of_trans: "suffix_of a b \<Longrightarrow> suffix_of b c \<Longrightarrow> suffix_of a c"
  unfolding suffix_of_def by (metis append.assoc)

lemma suffix_of_refl [simp]: "suffix_of a a"
  by (simp add: suffix_of_def)

lemma consumes_read_full [intro]: "consumes (read_full n)"
  unfolding consumes_def suffix_of_def by (metis prod.collapse read_full_consumes)

lemma consumes_ret [intro]: "consumes (io_ret x)" "consumes (io_fail e)"
  by (simp_all add: consumes_def io_ret_def io_fail_def)

lemma consumes_bind [intro]:
  "consumes m \<Longrightarrow> (\<And>x. consumes (f x)) \<Longrightarrow> consumes (io_bind m f)"
  unfolding consumes_def io_bind_def
  by (auto split: prod.splits sum.splits) (metis snd_conv suffix_of_trans)+

lemma consumes_relabel [intro]: "consumes m \<Longrightarrow> consumes (io_relabel msg m)"
  unfolding consumes_def io_relabel_def by (auto split: prod.splits sum.splits) (metis snd_conv)+

lemmas io_defs = io_ret_def io_fail_def io_write_ignore_def

lemma open_conn_simps [simp]:
  "rd (open_conn b) = b" "wr (open_conn b) = []" "wleft (open_conn b) = None"
  by (simp_all add: open_conn_def)

subsection \<open>Decimal numbers\<close>

lemma code_digit_char: "d < 10 \<Longrightarrow> code (digit_char d) = 48 + d"
  by (simp add: code_def digit_char_def)

lemma is_digit_digit_char: "d < 10 \<Longrightarrow> is_digit (digit_char d)"
  by (simp add: is_digit_def code_digit_char)

lemma digit_val_digit_char: "d < 10 \<Longrightarrow> digit_val (digit_char d) = d"
  by (simp add: digit_val_def code_digit_char)

lemma show_nat_nonempty [simp]: "show_nat n \<noteq> []"
  by (subst show_nat.simps) simp

lemma show_nat_digits: "list_all is_digit (show_nat n)"
proof (induction n rule: show_nat.induct)
  case (1 n)
  then show ?case
    by (subst show_nat.simps) (auto simp: is_digit_digit_char)
qed

lemma digits_val_show_nat [simp]: "digits_val (show_nat n) = n"
proof (induction n rule: show_nat.induct)
  case (1 n)
  show ?case
  proof (cases "n < 10")
    case True
    then show ?thesis
      by (subst show_nat.simps) (simp add: digits_val_def digit_val_digit_char)
  next
    case False
    with 1 have "digits_val (show_nat (n div 10)) = n div 10" by simp
    with False show ?thesis
      by (subst show_nat.simps) (simp add: digits_val_def digit_val_digit_char)
  qed
qed

lemma parse_uint_show_nat [simp]: "n < 2 ^ bits \<Longrightarrow> parse_uint bits (show_nat n) = Some n"
  using show_nat_digits [of n] by (simp add: parse_uint_def)

lemma parse_uint_bound: "parse_uint bits s = Some n \<Longrightarrow> n < 2 ^ bits"
  by (auto simp: parse_uint_def split: if_splits)

lemma show_nat_inject [simp]: "show_nat m = show_nat n \<longleftrightarrow> m = n"
  by (metis digits_val_show_nat)

lemma show_nat_no_sep: "\<not> is_digit c \<Longrightarrow> c \<notin> set (show_nat n)"
  using show_nat_digits [of n] by (auto simp: list_all_iff)

lemma not_digit_seps [simp]:
  "\<not> is_digit CHR '':''" "\<not> is_digit CHR ''.''" "\<not> is_digit CHR ''/''"
  "\<not> is_digit CHR ''[''" "\<not> is_digit CHR '']''" "\<not> is_digit CHR ''%''"
  by (simp_all add: is_digit_def code_def)

subsection \<open>Index functions\<close>

lemma index_byte_None [simp]: "index_byte c s = None \<longleftrightarrow> c \<notin> set s"
  by (induction s) auto

lemma index_byte_Some:
  "index_byte c s = Some i \<Longrightarrow> i < length s \<and> s ! i = c \<and> c \<notin> set (take i s)"
  by (induction s arbitrary: i) (auto split: if_splits simp: nth_Cons')

lemma index_byte_append:
  "c \<notin> set s \<Longrightarrow> index_byte c (s @ c # t) = Some (length s)"
  by (induction s) auto

lemma last_index_byte_None [simp]: "last_index_byte c s = None \<longleftrightarrow> c \<notin> set s"
  by (induction s) (auto split: option.splits)

lemma last_index_byte_Some:
  "last_index_byte c s = Some i \<Longrightarrow> i < length s \<and> s ! i = c \<and> c \<notin> set (drop (Suc i) s)"
  by (induction s arbitrary: i) (auto split: option.splits if_splits)

lemma last_index_byte_append:
  "c \<notin> set t \<Longrightarrow> last_index_byte c (s @ c # t) = Some (length s)"
  by (induction s) (auto split: option.splits)

subsection \<open>Splitting and joining\<close>

lemma split_on_nonempty [simp]: "split_on c s \<noteq> []"
  by (induction s) (auto split: list.splits)

lemma split_on_no_sep: "p \<in> set (split_on c s) \<Longrightarrow> c \<notin> set p"
proof (induction s arbitrary: p)
  case (Cons x xs)
  then show ?case by (cases "split_on c xs") (auto split: if_splits)
qed simp

lemma split_on_self [simp]: "c \<notin> set s \<Longrightarrow> split_on c s = [s]"
  by (induction s) auto

lemma split_on_append: "c \<notin> set s \<Longrightarrow> split_on c (s @ c # t) = s # split_on c t"
  by (induction s) auto

lemma join_split: "join_with [c] (split_on c s) = s"
proof (induction s)
  case (Cons x xs)
  then show ?case
    by (cases "split_on c xs" rule: list.exhaust [case_product list.exhaust [of "tl (split_on c xs)"]])
      (auto split: list.splits)
qed simp

lemma split_join:
  "ps \<noteq> [] \<Longrightarrow> \<forall>p\<in>set ps. c \<notin> set p \<Longrightarrow> split_on c (join_with [c] ps) = ps"
proof (induction "[c]" ps rule: join_with.induct)
  case (3 x y ys)
  then show ?case by (simp add: split_on_append)
qed auto

subsection \<open>Duplicate removal\<close>

lemma i64_id: "- (2 ^ 63) \<le> x \<Longrightarrow> x < 2 ^ 63 \<Longrightarrow> i64 x = x"
  by (simp add: i64_def)

lemma i64_range: "- (2 ^ 63) \<le> i64 x \<and> i64 x < 2 ^ 63"
  by (simp add: i64_def)

lemma uniq_by_subset: "set (uniq_by key seen xs) \<subseteq> set xs"
  by (induction key seen xs rule: uniq_by.induct) auto

lemma uniq_by_fresh: "key ` set (uniq_by key seen xs) = key ` set xs - set seen"
  by (induction key seen xs rule: uniq_by.induct) auto

lemma uniq_by_distinct: "distinct (map key (uniq_by key seen xs))"
proof (induction key seen xs rule: uniq_by.induct)
  case (2 key seen x xs)
  have "key x \<notin> key ` set (uniq_by key (key x # seen) xs)"
    by (simp add: uniq_by_fresh)
  with 2 show ?case by simp
qed simp

lemma uniq_by_keys: "key ` set (uniq_by key [] xs) = key ` set xs"
  by (simp add: uniq_by_fresh)

lemma uniq_by_idem: "distinct (map key xs) \<Longrightarrow> key ` set xs \<inter> set seen = {} \<Longrightarrow> uniq_by key seen xs = xs"
  by (induction key seen xs rule: uniq_by.induct) auto

lemma uniq_by_append:
  "uniq_by key seen (xs @ ys) =
   uniq_by key seen xs @ uniq_by key (rev (map key (uniq_by key seen xs)) @ seen) ys"
  by (induction key seen xs rule: uniq_by.induct) auto

end
