(* ===== verification/Net_Addr.thy ===== *)
theory Net_Addr
  imports Go_Prelude
begin

text \<open>
  Addresses as the packages \<open>net\<close> and \<open>net/netip\<close> handle them: \<open>SplitHostPort\<close>,
  \<open>JoinHostPort\<close>, \<open>netip.ParseAddr\<close> (IPv4, IPv6 with zones, embedded IPv4) and the
  textual forms.  Every component that routes, encodes or compares addresses rests on
  these definitions; the lemmas give the round trips between the textual and the
  binary form.
\<close>

section \<open>Definitions\<close>

subsection \<open>Host and port\<close>

definition SplitHostPort :: "string \<Rightarrow> (string \<times> string) result" where
  "SplitHostPort hp =
     (case last_index_byte CHR '':'' hp of
        None \<Rightarrow> Inl (ErrMsg ''missing port in address'')
      | Some i \<Rightarrow>
          if hd hp = CHR ''['' then
            (case index_byte CHR '']'' hp of
               None \<Rightarrow> Inl (ErrMsg ''missing ] in address'')
             | Some e \<Rightarrow>
                 if e + 1 = length hp then Inl (ErrMsg ''missing port in address'')
                 else if e + 1 \<noteq> i then
                   Inl (ErrMsg (if hp ! (e + 1) = CHR '':'' then ''too many colons in address''
                                else ''missing port in address''))
                 else if CHR ''['' \<in> set (drop 1 hp) then Inl (ErrMsg ''unexpected [ in address'')
                 else if CHR '']'' \<in> set (drop (e + 1) hp) then Inl (ErrMsg ''unexpected ] in address'')
                 else Inr (take (e - 1) (drop 1 hp), drop (i + 1) hp))
          else if CHR '':'' \<in> set (take i hp) then Inl (ErrMsg ''too many colons in address'')
          else if CHR ''['' \<in> set hp then Inl (ErrMsg ''unexpected [ in address'')
          else if CHR '']'' \<in> set hp then Inl (ErrMsg ''unexpected ] in address'')
          else Inr (take i hp, drop (i + 1) hp))"

definition JoinHostPort :: "string \<Rightarrow> string \<Rightarrow> string" where
  "JoinHostPort h p =
     (if CHR '':'' \<in> set h then CHR ''['' # h @ '']:'' @ p else h @ CHR '':'' # p)"

text \<open>The idiom \<open>host, port, _ := net.SplitHostPort(s)\<close>: both empty on an error.\<close>

definition split_host_port_or_empty :: "string \<Rightarrow> string \<times> string" where
  "split_host_port_or_empty s = (case SplitHostPort s of Inl _ \<Rightarrow> ([], []) | Inr hp \<Rightarrow> hp)"

subsection \<open>IP addresses\<close>

text \<open>A \<open>netip.Addr\<close>: the zero value, 4 bytes, or 16 bytes with a zone.\<close>

datatype addr = NoAddr | Addr4 bytes | Addr6 bytes string

fun wf_addr :: "addr \<Rightarrow> bool" where
  "wf_addr NoAddr = True"
| "wf_addr (Addr4 b) = (length b = 4)"
| "wf_addr (Addr6 b z) = (length b = 16)"

fun Is4 :: "addr \<Rightarrow> bool" where
  "Is4 (Addr4 _) = True"
| "Is4 _ = False"

fun Is6 :: "addr \<Rightarrow> bool" where
  "Is6 (Addr6 _ _) = True"
| "Is6 _ = False"

fun IsValid :: "addr \<Rightarrow> bool" where
  "IsValid NoAddr = False"
| "IsValid _ = True"

fun AsSlice :: "addr \<Rightarrow> bytes" where
  "AsSlice NoAddr = []"
| "AsSlice (Addr4 b) = b"
| "AsSlice (Addr6 b _) = b"

definition v4_in_v6 :: "bytes \<Rightarrow> bool" where
  "v4_in_v6 b = (take 12 b = replicate 10 0 @ [255, 255])"

fun Unmap :: "addr \<Rightarrow> addr" where
  "Unmap (Addr6 b z) = (if v4_in_v6 b then Addr4 (drop 12 b) else Addr6 b z)"
| "Unmap a = a"

text \<open>\<open>IsUnspecified\<close> compares with \<open>0.0.0.0\<close> and with \<open>::\<close> without a zone.\<close>

fun IsUnspecified :: "addr \<Rightarrow> bool" where
  "IsUnspecified NoAddr = False"
| "IsUnspecified (Addr4 b) = (b = replicate 4 0)"
| "IsUnspecified (Addr6 b z) = (b = replicate 16 0 \<and> z = [])"

subsection \<open>Parsing\<close>

text \<open>\<open>parseIPv4Fields\<close>: previous character, rest, current value, its digits, fields so far.\<close>

fun ipv4_fields :: "char option \<Rightarrow> string \<Rightarrow> nat \<Rightarrow> nat \<Rightarrow> nat list \<Rightarrow> nat list option" where
  "ipv4_fields prev [] val dl fs = (if length fs < 3 then None else Some (fs @ [val]))"
| "ipv4_fields prev (c # cs) val dl fs =
     (if is_digit c then
        (if dl = 1 \<and> val = 0 then None
         else if val * 10 + digit_val c > 255 then None
         else ipv4_fields (Some c) cs (val * 10 + digit_val c) (dl + 1) fs)
      else if c = CHR ''.'' then
        (if prev = None \<or> cs = [] \<or> prev = Some CHR ''.'' then None
         else if length fs = 3 then None
         else ipv4_fields (Some c) cs 0 0 (fs @ [val]))
      else None)"

definition parse_ipv4 :: "string \<Rightarrow> bytes option" where
  "parse_ipv4 s = map_option (map of_nat) (ipv4_fields None s 0 0 [])"

definition hex_val :: "char \<Rightarrow> nat option" where
  "hex_val c =
     (if is_digit c then Some (code c - 48)
      else if 97 \<le> code c \<and> code c \<le> 102 then Some (code c - 87)
      else if 65 \<le> code c \<and> code c \<le> 70 then Some (code c - 55)
      else None)"

text \<open>The hex digits in front of \<open>s\<close>: their number, their value and the rest; \<open>None\<close> for
  a group of more than four digits.\<close>

fun hex_group :: "nat \<Rightarrow> nat \<Rightarrow> string \<Rightarrow> (nat \<times> nat \<times> string) option" where
  "hex_group off acc [] = Some (off, acc, [])"
| "hex_group off acc (c # cs) =
     (case hex_val c of
        None \<Rightarrow> Some (off, acc, c # cs)
      | Some v \<Rightarrow> if off > 3 then None else hex_group (off + 1) (acc * 16 + v) cs)"

definition byte_pair :: "nat \<Rightarrow> bytes" where
  "byte_pair n = [of_nat (n div 256), of_nat n]"

text \<open>
  The loop of \<open>parseIPv6\<close>, after the zone and a leading \<open>::\<close> are cut off: the fuel is the
  number of groups that still fit (8 at the start, so it never runs out before the loop
  stops at 16 bytes), \<open>ip\<close> the bytes so far, \<open>ell\<close> the position of the ellipsis.  The
  result is the bytes, the ellipsis and the unread rest.
\<close>

fun ipv6_groups :: "nat \<Rightarrow> string \<Rightarrow> bytes \<Rightarrow> nat option \<Rightarrow> (bytes \<times> nat option \<times> string) option" where
  "ipv6_groups 0 s ip ell = Some (ip, ell, s)"
| "ipv6_groups (Suc n) s ip ell =
     (case hex_group 0 0 s of
        None \<Rightarrow> None
      | Some (off, acc, rest) \<Rightarrow>
          if off = 0 then None
          else if rest \<noteq> [] \<and> hd rest = CHR ''.'' then
            (if ell = None \<and> length ip \<noteq> 12 then None
             else if length ip + 4 > 16 then None
             else case parse_ipv4 s of
                    None \<Rightarrow> None
                  | Some b \<Rightarrow> Some (ip @ b, ell, []))
          else
            (let ip' = ip @ byte_pair acc in
             case rest of
               [] \<Rightarrow> Some (ip', ell, [])
             | c # r \<Rightarrow>
                 if c \<noteq> CHR '':'' then None
                 else if r = [] then None
                 else if hd r = CHR '':'' then
                   (if ell \<noteq> None then None
                    else if tl r = [] then Some (ip', Some (length ip'), [])
                    else ipv6_groups n (tl r) ip' (Some (length ip')))
                 else ipv6_groups n r ip' ell))"

definition parse_ipv6 :: "string \<Rightarrow> addr option" where
  "parse_ipv6 s0 =
     (let (s, z, zone_ok) = (case index_byte CHR ''%'' s0 of
              None \<Rightarrow> (s0, [], True)
            | Some i \<Rightarrow> (take i s0, drop (i + 1) s0, drop (i + 1) s0 \<noteq> []))
      in if \<not> zone_ok then None
         else if s = ''::'' then Some (Addr6 (replicate 16 0) z)
         else
           let (t, ell0) = (if has_prefix s ''::'' then (drop 2 s, Some 0) else (s, None))
           in case ipv6_groups 8 t [] ell0 of
                None \<Rightarrow> None
              | Some (ip, ell, rest) \<Rightarrow>
                  if rest \<noteq> [] then None
                  else if length ip < 16 then
                    (case ell of
                       None \<Rightarrow> None
                     | Some e \<Rightarrow> Some (Addr6 (take e ip @ replicate (16 - length ip) 0 @ drop e ip) z))
                  else if ell \<noteq> None then None
                  else Some (Addr6 ip z))"

fun parse_addr_kind :: "string \<Rightarrow> char option" where
  "parse_addr_kind [] = None"
| "parse_addr_kind (c # cs) =
     (if c = CHR ''.'' \<or> c = CHR '':'' \<or> c = CHR ''%'' then Some c else parse_addr_kind cs)"

definition ParseAddr :: "string \<Rightarrow> addr option" where
  "ParseAddr s =
     (case parse_addr_kind s of
        Some c \<Rightarrow>
          if c = CHR ''.'' then map_option Addr4 (parse_ipv4 s)
          else if c = CHR '':'' then parse_ipv6 s
          else None
      | None \<Rightarrow> None)"

subsection \<open>Printing\<close>

definition show_ipv4 :: "bytes \<Rightarrow> string" where
  "show_ipv4 b = join_with ''.'' (map (\<lambda>x. show_nat (unat x)) b)"

definition hex_char :: "nat \<Rightarrow> char" where
  "hex_char d = (if d < 10 then char_of (48 + d) else char_of (87 + d))"

fun show_hex :: "nat \<Rightarrow> string" where
  "show_hex n = (if n < 16 then [hex_char n] else show_hex (n div 16) @ [hex_char (n mod 16)])"

declare show_hex.simps [simp del]

fun groups16 :: "bytes \<Rightarrow> nat list" where
  "groups16 (a # b # r) = unat (be16 a b) # groups16 r"
| "groups16 _ = []"

text \<open>The first longest run of at least two zero groups, as \<open>(start, end)\<close>.\<close>

fun zero_run :: "nat \<Rightarrow> nat list \<Rightarrow> (nat \<times> nat) option \<Rightarrow> (nat \<times> nat) option" where
  "zero_run i [] best = best"
| "zero_run i (g # gs) best =
     (let l = length (takeWhile (\<lambda>x. x = 0) (g # gs));
          bl = (case best of None \<Rightarrow> 0 | Some (s, e) \<Rightarrow> e - s)
      in zero_run (i + 1) gs (if l \<ge> 2 \<and> l > bl then Some (i, i + l) else best))"

definition show_ipv6 :: "bytes \<Rightarrow> string" where
  "show_ipv6 b =
     (let gs = groups16 b in
      case zero_run 0 gs None of
        None \<Rightarrow> join_with '':'' (map show_hex gs)
      | Some (s, e) \<Rightarrow>
          join_with '':'' (map show_hex (take s gs)) @ ''::'' @ join_with '':'' (map show_hex (drop e gs)))"

definition zone_suffix :: "string \<Rightarrow> string" where
  "zone_suffix z = (if z = [] then [] else CHR ''%'' # z)"

fun addr_string :: "addr \<Rightarrow> string" where
  "addr_string NoAddr = ''invalid IP''"
| "addr_string (Addr4 b) = show_ipv4 b"
| "addr_string (Addr6 b z) =
     (if v4_in_v6 b then ''::ffff:'' @ show_ipv4 (drop 12 b) @ zone_suffix z
      else show_ipv6 b @ zone_suffix z)"

text \<open>\<open>net.IP.String\<close> on 4 or 16 bytes.\<close>

definition IP_String :: "bytes \<Rightarrow> string" where
  "IP_String b =
     (if length b = 4 then show_ipv4 b
      else if v4_in_v6 b then show_ipv4 (drop 12 b)
      else addr_string (Addr6 b []))"

section \<open>Lemmas\<close>

lemma SplitHostPort_JoinHostPort:
  assumes "set p \<inter> {CHR '':'', CHR ''['', CHR '']''} = {}"
    and "set h \<inter> {CHR ''['', CHR '']''} = {}"
  shows "SplitHostPort (JoinHostPort h p) = Inr (h, p)"
proof (cases "CHR '':'' \<in> set h")
  case True
  let ?s = "CHR ''['' # h @ '']:'' @ p"
  have l: "last_index_byte CHR '':'' ?s = Some (length h + 2)"
    using last_index_byte_append [of "CHR '':''" p "CHR ''['' # h @ '']''"] assms(1) by simp
  have i: "index_byte CHR '']'' ?s = Some (length h + 1)"
    using index_byte_append [of "CHR '']''" "CHR ''['' # h" "CHR '':'' # p"] assms(2) by simp
  have "CHR ''['' \<notin> set (h @ '']:'' @ p)" using assms by auto
  moreover have "CHR '']'' \<notin> set (drop (length h + 2) ?s)"
    using assms by simp
  ultimately show ?thesis
    using True l i by (simp add: SplitHostPort_def JoinHostPort_def)
next
  case False
  let ?s = "h @ CHR '':'' # p"
  have l: "last_index_byte CHR '':'' ?s = Some (length h)"
    using last_index_byte_append [of "CHR '':''" p h] assms(1) by simp
  have "hd ?s \<noteq> CHR ''[''" using assms(2) by (cases h) auto
  then show ?thesis
    using False l assms by (auto simp: SplitHostPort_def JoinHostPort_def)
qed

lemma ipv4_fields_number:
  "a < 256 \<Longrightarrow> ipv4_fields prev (show_nat a @ t) 0 0 fs =
     ipv4_fields (Some (last (show_nat a))) t a (length (show_nat a)) fs"
proof (induction a arbitrary: t rule: show_nat.induct)
  case (1 n)
  show ?case
  proof (cases "n < 10")
    case True
    then show ?thesis
      by (simp add: show_nat.simps [of n] is_digit_digit_char digit_val_digit_char)
  next
    case False
    then have d: "n div 10 < 256" "n div 10 \<noteq> 0" using "1.prems" by auto
    have m: "n mod 10 < 10" by simp
    have v: "(n div 10) * 10 + n mod 10 = n" by simp
    have "ipv4_fields prev (show_nat n @ t) 0 0 fs =
        ipv4_fields prev (show_nat (n div 10) @ digit_char (n mod 10) # t) 0 0 fs"
      using False by (simp add: show_nat.simps [of n])
    also have "\<dots> = ipv4_fields (Some (last (show_nat (n div 10)))) (digit_char (n mod 10) # t)
        (n div 10) (length (show_nat (n div 10))) fs"
      using "1.IH" [OF False d(1)] .
    also have "\<dots> = ipv4_fields (Some (digit_char (n mod 10))) t n (Suc (length (show_nat (n div 10)))) fs"
      using d "1.prems" v by (simp add: is_digit_digit_char digit_val_digit_char)
    also have "\<dots> = ipv4_fields (Some (last (show_nat n))) t n (length (show_nat n)) fs"
      using False by (simp add: show_nat.simps [of n])
    finally show ?thesis .
  qed
qed

lemma last_show_nat_digit: "is_digit (last (show_nat a))"
  using show_nat_digits [of a] by (simp add: list_all_iff)

lemma ipv4_fields_octet:
  "a < 256 \<Longrightarrow> t \<noteq> [] \<Longrightarrow> length fs < 3 \<Longrightarrow>
   ipv4_fields prev (show_nat a @ CHR ''.'' # t) 0 0 fs = ipv4_fields (Some CHR ''.'') t 0 0 (fs @ [a])"
  using last_show_nat_digit [of a] by (subst ipv4_fields_number) auto

lemma parse_show_ipv4:
  "parse_ipv4 (show_ipv4 [a, b, c, d]) = Some [a, b, c, d]"
proof -
  have "ipv4_fields None (show_nat (unat a) @ CHR ''.'' # show_nat (unat b) @ CHR ''.'' #
      show_nat (unat c) @ CHR ''.'' # show_nat (unat d)) 0 0 [] =
      Some [unat a, unat b, unat c, unat d]"
    using ipv4_fields_number [of "unat d" _ "[]"] by (simp add: ipv4_fields_octet)
  then show ?thesis
    by (simp add: parse_ipv4_def show_ipv4_def)
qed

lemma parse_addr_kind_digits:
  "list_all is_digit s \<Longrightarrow> parse_addr_kind (s @ c # t) = parse_addr_kind (c # t)"
  by (induction s) auto

lemma ParseAddr_show_ipv4 [simp]:
  "length b = 4 \<Longrightarrow> ParseAddr (show_ipv4 b) = Some (Addr4 b)"
proof -
  assume "length b = 4"
  then obtain x0 x1 x2 x3 where b: "b = [x0, x1, x2, x3]"
    by (auto simp: length_Suc_conv numeral_eq_Suc)
  have "parse_addr_kind (show_ipv4 b) = Some CHR ''.''"
    unfolding b show_ipv4_def
    by (simp add: parse_addr_kind_digits [OF show_nat_digits])
  then show ?thesis
    by (simp add: ParseAddr_def b parse_show_ipv4)
qed

lemma parse_addr_kind_None:
  "parse_addr_kind s = None \<longleftrightarrow> CHR ''.'' \<notin> set s \<and> CHR '':'' \<notin> set s \<and> CHR ''%'' \<notin> set s"
  by (induction s) auto

lemma ipv4_fields_length: "ipv4_fields prev s v dl fs = Some r \<Longrightarrow> length fs \<le> 3 \<Longrightarrow> length r = 4"
  by (induction prev s v dl fs arbitrary: r rule: ipv4_fields.induct) (auto split: if_splits)

lemma parse_ipv4_length: "parse_ipv4 s = Some b \<Longrightarrow> length b = 4"
  by (auto simp: parse_ipv4_def dest: ipv4_fields_length)

lemma ipv6_groups_length:
  "ipv6_groups n s ip ell = Some (ip', ell', r) \<Longrightarrow> length ip + 2 * n \<le> 16 \<Longrightarrow>
     (\<forall>e. ell = Some e \<longrightarrow> e \<le> length ip) \<Longrightarrow>
     length ip' \<le> 16 \<and> (\<forall>e. ell' = Some e \<longrightarrow> e \<le> length ip')"
proof (induction n arbitrary: s ip ell)
  case (Suc n)
  obtain off acc rest where hg: "hex_group 0 0 s = Some (off, acc, rest)"
    using Suc.prems(1) by (auto split: option.splits)
  have bp: "length (byte_pair acc) = 2" by (simp add: byte_pair_def)
  show ?case
  proof (cases "rest \<noteq> [] \<and> hd rest = CHR ''.''")
    case True
    then show ?thesis
      using Suc.prems hg by (auto split: if_splits option.splits dest!: parse_ipv4_length)
  next
    case False
    have IH: "ipv6_groups n t (ip @ byte_pair acc) l = Some (ip', ell', r) \<Longrightarrow>
        (\<forall>e. l = Some e \<longrightarrow> e \<le> length ip + 2) \<Longrightarrow> ?thesis" for t l
      using Suc.IH [of t "ip @ byte_pair acc" l] Suc.prems(2) bp by simp
    from False Suc.prems hg bp show ?thesis
      by (auto simp: Let_def split: if_splits list.splits dest!: IH)
  qed
qed auto

lemma ParseAddr_wf: "ParseAddr s = Some a \<Longrightarrow> wf_addr a \<and> IsValid a"
proof -
  assume a: "ParseAddr s = Some a"
  have six: "wf_addr a \<and> IsValid a" if p: "parse_ipv6 s = Some a"
  proof -
    have g: "length ip \<le> 16 \<and> (\<forall>e. ell = Some e \<longrightarrow> e \<le> length ip)"
      if "ipv6_groups 8 t [] l = Some (ip, ell, [])" "l = None \<or> l = Some 0" for t l ip ell
      using ipv6_groups_length [OF that(1)] that(2) by auto
    from p show ?thesis
      by (auto simp: parse_ipv6_def Let_def split: if_splits option.splits prod.splits dest!: g)
  qed
  from a show ?thesis
    by (auto simp: ParseAddr_def split: option.splits if_splits dest: parse_ipv4_length six)
qed

lemma ParseAddr_plain_name:
  "CHR ''.'' \<notin> set s \<Longrightarrow> CHR '':'' \<notin> set s \<Longrightarrow> CHR ''%'' \<notin> set s \<Longrightarrow> ParseAddr s = None"
  by (simp add: ParseAddr_def parse_addr_kind_None [THEN iffD2])

lemma show_ipv4_chars:
  "set (show_ipv4 b) \<subseteq> {c. is_digit c} \<union> {CHR ''.''}"
  unfolding show_ipv4_def
proof (induction b)
  case (Cons x xs)
  have "set (show_nat (unat x)) \<subseteq> {c. is_digit c}"
    using show_nat_digits [of "unat x"] by (auto simp: list_all_iff)
  with Cons show ?case by (cases xs) auto
qed simp

lemma show_ipv4_no_colon [simp]:
  "CHR '':'' \<notin> set (show_ipv4 b)" "CHR ''['' \<notin> set (show_ipv4 b)" "CHR '']'' \<notin> set (show_ipv4 b)"
  using show_ipv4_chars [of b] not_digit_seps by auto

lemma split_join_number [simp]:
  "set h \<inter> {CHR ''['', CHR '']''} = {} \<Longrightarrow>
   SplitHostPort (JoinHostPort h (show_nat n)) = Inr (h, show_nat n)"
  by (rule SplitHostPort_JoinHostPort) (auto simp: show_nat_no_sep)

end
