(* ===== verification/Codec.thy ===== *)
theory Codec
  imports Go_Prelude
begin

text \<open>
  The interface of a self-delimiting wire format: an encoder for the valid messages and
  a decoder that reads one message from a connection.  The one law the providers
  promise is that decoding what was encoded gives the message back and leaves the rest
  of the stream untouched; a stream of messages, prefix-freeness and injectivity follow
  for every provider at once.  \<open>read_many\<close> is the receive loop every client of such a
  format runs.
\<close>

fun read_many :: "(conn \<Rightarrow> 'm result \<times> conn) \<Rightarrow> nat \<Rightarrow> conn \<Rightarrow> 'm list result \<times> conn" where
  "read_many dec 0 c = (Inr [], c)"
| "read_many dec (Suc n) c =
     (case dec c of
        (Inl e, c') \<Rightarrow> (Inl e, c')
      | (Inr m, c') \<Rightarrow>
          (case read_many dec n c' of
             (Inl e, c'') \<Rightarrow> (Inl e, c'')
           | (Inr ms, c'') \<Rightarrow> (Inr (m # ms), c'')))"

locale prefix_codec =
  fixes valid :: "'m \<Rightarrow> bool"
    and enc :: "'m \<Rightarrow> bytes"
    and dec :: "conn \<Rightarrow> 'm result \<times> conn"
  assumes dec_enc: "valid m \<Longrightarrow> rd c = enc m @ rest \<Longrightarrow> dec c = (Inr m, c\<lparr>rd := rest\<rparr>)"
begin

lemma prefix_free:
  assumes "valid m1" "valid m2" "enc m1 @ r1 = enc m2 @ r2"
  shows "m1 = m2 \<and> r1 = r2"
proof -
  let ?c = "open_conn (enc m1 @ r1)"
  have "dec ?c = (Inr m1, ?c\<lparr>rd := r1\<rparr>)" using assms(1) by (rule dec_enc) simp
  moreover have "dec ?c = (Inr m2, ?c\<lparr>rd := r2\<rparr>)" using assms(2) by (rule dec_enc) (simp add: assms(3))
  ultimately show ?thesis by (simp add: open_conn_def)
qed

lemma enc_inject: "valid m1 \<Longrightarrow> valid m2 \<Longrightarrow> enc m1 = enc m2 \<Longrightarrow> m1 = m2"
  using prefix_free [of m1 m2 "[]" "[]"] by simp

lemma read_many_concat:
  "list_all valid ms \<Longrightarrow> rd c = concat (map enc ms) @ rest \<Longrightarrow>
   read_many dec (length ms) c = (Inr ms, c\<lparr>rd := rest\<rparr>)"
proof (induction ms arbitrary: c)
  case Nil
  then show ?case by simp
next
  case (Cons m ms)
  have "dec c = (Inr m, c\<lparr>rd := concat (map enc ms) @ rest\<rparr>)"
    using Cons.prems by (intro dec_enc) auto
  then show ?case
    using Cons.prems Cons.IH [of "c\<lparr>rd := concat (map enc ms) @ rest\<rparr>"] by simp
qed

lemma concat_prefix_free:
  assumes "\<And>m. valid m \<Longrightarrow> enc m \<noteq> []" "list_all valid ms" "list_all valid ns"
    and "concat (map enc ms) @ r = concat (map enc ns)"
  shows "\<exists>ns'. ns = ms @ ns' \<and> r = concat (map enc ns')"
  using assms(2-4)
proof (induction ms arbitrary: ns)
  case (Cons m ms)
  then obtain n ns1 where ns: "ns = n # ns1" using assms(1) [of m] by (cases ns) auto
  have "m = n \<and> concat (map enc ms) @ r = concat (map enc ns1)"
    using Cons.prems ns by (intro prefix_free) auto
  then show ?case using Cons.IH [of ns1] Cons.prems ns by auto
qed simp

end

end
