(* ===== verification/Socks_Addr.thy ===== *)
theory Socks_Addr
  imports Net_Addr Codec
begin

text \<open>
  The package \<open>pkg/socks\<close>: SOCKS addresses in the wire format of RFC 1928 section 5, read
  from a stream (\<open>ReadAddr\<close>), cut from a packet (\<open>SplitAddr\<close>), built from a string
  (\<open>ParseAddr\<close>) and printed (\<open>String\<close>).  An address is kept as the bytes the code keeps.
  The lemmas show that the two readers agree, that what \<open>ParseAddr\<close> builds is
  self-delimiting, and that printing and parsing are inverse for domain names and IPv4.
\<close>

section \<open>Definitions\<close>

definition AuthNone :: byte where "AuthNone = 0"
definition AuthPassword :: byte where "AuthPassword = 2"

definition CmdError :: byte where "CmdError = 0"
definition CmdConnect :: byte where "CmdConnect = 1"
definition CmdBind :: byte where "CmdBind = 2"
definition CmdUDPAssociate :: byte where "CmdUDPAssociate = 3"

definition ATypIP4 :: byte where "ATypIP4 = 1"
definition ATypDomain :: byte where "ATypDomain = 3"
definition ATypIP6 :: byte where "ATypIP6 = 4"

definition MaxAddrLen :: nat where "MaxAddrLen = 1 + 1 + 255 + 2"

definition socks_Errors :: "string list" where
  "socks_Errors =
     ['''', ''general failure'', ''connection forbidden'', ''network unreachable'',
      ''host unreachable'', ''connection refused'', ''TTL expired'',
      ''command not supported'', ''address type not supported'', ''socks5UDPAssociate'']"

type_synonym socks_addr = bytes

text \<open>\<open>Addr.String\<close>: indexing past the end of the address panics.\<close>

definition addr_port :: "bytes \<Rightarrow> string option" where
  "addr_port p = map_option (\<lambda>w. show_nat (unat w)) (get16 p)"

definition socks_String :: "socks_addr \<Rightarrow> string result" where
  "socks_String a =
     (case a of
        [] \<Rightarrow> Inl (Panic ''index out of range'')
      | t # r \<Rightarrow>
          if t = ATypDomain then
            (case r of
               [] \<Rightarrow> Inl (Panic ''index out of range'')
             | l # d \<Rightarrow>
                 if length d < unat l then Inl (Panic ''slice bounds out of range'')
                 else (case addr_port (drop (unat l) d) of
                         None \<Rightarrow> Inl (Panic ''index out of range'')
                       | Some p \<Rightarrow> Inr (JoinHostPort (bytes_str (take (unat l) d)) p)))
          else if t = ATypIP4 then
            (if length r < 4 then Inl (Panic ''slice bounds out of range'')
             else case addr_port (drop 4 r) of
                    None \<Rightarrow> Inl (Panic ''index out of range'')
                  | Some p \<Rightarrow> Inr (JoinHostPort (IP_String (take 4 r)) p))
          else if t = ATypIP6 then
            (if length r < 16 then Inl (Panic ''slice bounds out of range'')
             else case addr_port (drop 16 r) of
                    None \<Rightarrow> Inl (Panic ''index out of range'')
                  | Some p \<Rightarrow> Inr (JoinHostPort (IP_String (take 16 r)) p))
          else Inr (JoinHostPort [] []))"

definition read_tail :: "bytes \<Rightarrow> nat \<Rightarrow> conn \<Rightarrow> socks_addr result \<times> conn" where
  "read_tail hd_bytes n c =
     (case read_full n c of
        (Inl e, c') \<Rightarrow> (Inl e, c')
      | (Inr b, c') \<Rightarrow> (Inr (hd_bytes @ b), c'))"

definition ReadAddr :: "conn \<Rightarrow> socks_addr result \<times> conn" where
  "ReadAddr c =
     (case read_full 1 c of
        (Inl e, c1) \<Rightarrow> (Inl e, c1)
      | (Inr t, c1) \<Rightarrow>
          if t ! 0 = ATypDomain then
            (case read_full 1 c1 of
               (Inl e, c2) \<Rightarrow> (Inl e, c2)
             | (Inr l, c2) \<Rightarrow> read_tail (t @ l) (unat (l ! 0) + 2) c2)
          else if t ! 0 = ATypIP4 then read_tail t (4 + 2) c1
          else if t ! 0 = ATypIP6 then read_tail t (16 + 2) c1
          else (Inl (ErrMsg (socks_Errors ! 8)), c1))"

text \<open>\<open>SplitAddr\<close> returns nil (here \<open>None\<close>) when the packet holds no whole address.\<close>

definition SplitAddr :: "bytes \<Rightarrow> socks_addr option" where
  "SplitAddr b =
     (if length b < 1 then None
      else
        let n = (if b ! 0 = ATypDomain then (if length b < 2 then None else Some (1 + 1 + unat (b ! 1) + 2))
                 else if b ! 0 = ATypIP4 then Some (1 + 4 + 2)
                 else if b ! 0 = ATypIP6 then Some (1 + 16 + 2)
                 else None)
        in case n of
             None \<Rightarrow> None
           | Some addrLen \<Rightarrow> if length b < addrLen then None else Some (take addrLen b))"

definition ParseAddr_socks :: "string \<Rightarrow> socks_addr option" where
  "ParseAddr_socks s =
     (case SplitHostPort s of
        Inl _ \<Rightarrow> None
      | Inr (host, port) \<Rightarrow>
          (let pre = (case ParseAddr host of
                 Some ip \<Rightarrow> Some ((if Is4 ip then ATypIP4 else ATypIP6) # AsSlice ip)
               | None \<Rightarrow>
                   if length host > 255 then None
                   else Some (ATypDomain # of_nat (length host) # str_bytes host))
           in case pre of
                None \<Rightarrow> None
              | Some a \<Rightarrow>
                  (case parse_uint 16 port of
                     None \<Rightarrow> None
                   | Some portnum \<Rightarrow> Some (a @ put16 (of_nat portnum)))))"

text \<open>The addresses of the format: what \<open>SplitAddr\<close> cuts off completely.\<close>

definition wf_socks :: "socks_addr \<Rightarrow> bool" where
  "wf_socks a = (SplitAddr a = Some a)"

section \<open>Lemmas\<close>

lemmas socks_consts = ATypIP4_def ATypDomain_def ATypIP6_def

lemma read_full_one: "read_full (Suc 0) c = (case rd c of
    [] \<Rightarrow> (Inl EOF, c\<lparr>rd := []\<rparr>) | b # r \<Rightarrow> (Inr [b], c\<lparr>rd := r\<rparr>))"
  by (cases "rd c") (simp_all add: read_full_def)

lemma SplitAddr_take: "SplitAddr b = Some a \<Longrightarrow> \<exists>r. b = a @ r"
  by (auto simp: SplitAddr_def Let_def split: if_splits option.splits
      intro: append_take_drop_id [symmetric] exI)

lemma read_full_take:
  "n \<le> length (rd c) \<Longrightarrow> read_full n c = (Inr (take n (rd c)), c\<lparr>rd := drop n (rd c)\<rparr>)"
  by (simp add: read_full_def)

lemma SplitAddr_ReadAddr:
  assumes "SplitAddr (rd c) = Some a"
  shows "ReadAddr c = (Inr a, c\<lparr>rd := drop (length a) (rd c)\<rparr>)"
proof -
  from assms obtain t r where b: "rd c = t # r"
    by (cases "rd c") (auto simp: SplitAddr_def)
  consider (dom) l d where "t = ATypDomain" "r = l # d" | (v4) "t = ATypIP4" | (v6) "t = ATypIP6"
    using assms b by (cases r) (auto simp: SplitAddr_def split: if_splits)
  then show ?thesis
  proof cases
    case dom
    then have "unat l + 2 \<le> length d" and a: "a = t # l # take (unat l + 2) d"
      using assms b by (auto simp: SplitAddr_def split: if_splits)
    then show ?thesis
      using dom b by (simp add: ReadAddr_def read_full_one read_tail_def read_full_take)
  next
    case v4
    then have "6 \<le> length r" and "a = t # take 6 r"
      using assms b by (auto simp: SplitAddr_def socks_consts split: if_splits)
    then show ?thesis
      using v4 b by (simp add: ReadAddr_def read_full_one read_tail_def read_full_take socks_consts)
  next
    case v6
    then have "18 \<le> length r" and "a = t # take 18 r"
      using assms b by (auto simp: SplitAddr_def socks_consts split: if_splits)
    then show ?thesis
      using v6 b by (simp add: ReadAddr_def read_full_one read_tail_def read_full_take socks_consts)
  qed
qed

lemma ReadAddr_SplitAddr:
  assumes "ReadAddr c = (Inr a, c')"
  shows "SplitAddr (rd c) = Some a \<and> rd c = a @ rd c'"
proof -
  from assms obtain t r where b: "rd c = t # r"
    by (cases "rd c") (auto simp: ReadAddr_def read_full_one)
  consider (dom) l d where "t = ATypDomain" "r = l # d" | (v4) "t = ATypIP4" | (v6) "t = ATypIP6"
    using assms b by (cases r) (auto simp: ReadAddr_def read_full_one split: if_splits)
  then show ?thesis
  proof cases
    case dom
    then show ?thesis
      using assms b
      by (auto simp: ReadAddr_def SplitAddr_def read_full_one read_tail_def read_full_def split: if_splits)
  next
    case v4
    then show ?thesis
      using assms b
      by (auto simp: ReadAddr_def SplitAddr_def read_full_one read_tail_def read_full_def socks_consts
          split: if_splits)
  next
    case v6
    then show ?thesis
      using assms b
      by (auto simp: ReadAddr_def SplitAddr_def read_full_one read_tail_def read_full_def socks_consts
          split: if_splits)
  qed
qed

lemma SplitAddr_append: "SplitAddr a = Some a \<Longrightarrow> SplitAddr (a @ r) = Some a"
  by (cases a) (auto simp: SplitAddr_def Let_def nth_append split: if_splits option.splits)

lemma SplitAddr_idem: "SplitAddr b = Some a \<Longrightarrow> SplitAddr a = Some a"
  by (cases b) (auto simp: SplitAddr_def Let_def min_def split: if_splits option.splits)

interpretation saddr: prefix_codec wf_socks "\<lambda>a. a" ReadAddr
proof
  fix m and c :: conn and rest assume "wf_socks m" "rd c = m @ rest"
  then have "SplitAddr (rd c) = Some m"
    by (simp add: wf_socks_def SplitAddr_append)
  then show "ReadAddr c = (Inr m, c\<lparr>rd := rest\<rparr>)"
    using \<open>rd c = m @ rest\<close> by (simp add: SplitAddr_ReadAddr)
qed

lemma wf_socks_domain: "length d = unat l \<Longrightarrow> wf_socks (ATypDomain # l # d @ put16 w)"
  by (simp add: wf_socks_def SplitAddr_def)

lemma wf_socks_ip: "length ip = 4 \<Longrightarrow> wf_socks (ATypIP4 # ip @ put16 w)"
  "length ip = 16 \<Longrightarrow> wf_socks (ATypIP6 # ip @ put16 w)"
  by (simp_all add: wf_socks_def SplitAddr_def socks_consts)

lemma unat_of_nat_byte: "n < 256 \<Longrightarrow> unat (of_nat n :: byte) = n"
  by (simp add: unat_of_nat)

lemma ParseAddr_socks_wf: "ParseAddr_socks s = Some a \<Longrightarrow> wf_socks a"
proof -
  assume p: "ParseAddr_socks s = Some a"
  obtain host port n where s: "SplitHostPort s = Inr (host, port)" "parse_uint 16 port = Some n"
    using p by (auto simp: ParseAddr_socks_def Let_def split: sum.splits option.splits prod.splits)
  show "wf_socks a"
  proof (cases "ParseAddr host")
    case None
    with p s have "length host \<le> 255"
      and a: "a = ATypDomain # of_nat (length host) # str_bytes host @ put16 (of_nat n)"
      by (auto simp: ParseAddr_socks_def split: if_splits)
    then show ?thesis
      by (simp only: a) (rule wf_socks_domain, simp add: unat_of_nat_byte)
  next
    case (Some ip)
    then have "wf_addr ip" "IsValid ip" using ParseAddr_wf by blast+
    with p s Some show ?thesis
      by (cases ip) (auto simp: ParseAddr_socks_def wf_socks_ip)
  qed
qed

lemma addr_port_put16 [simp]: "addr_port (put16 w @ r) = Some (show_nat (unat w))"
  "addr_port (put16 w) = Some (show_nat (unat w))"
  using get16_put16 [of w "[]"] by (simp_all add: addr_port_def)

lemma u16_of_nat [simp]: "n < 65536 \<Longrightarrow> unat (of_nat n :: u16) = n"
  by (simp add: unat_of_nat)

lemma u16_less [simp]: "unat (w :: u16) < 65536"
  using unsigned_less [where 'a = nat and w = w] by simp

lemma socks_String_domain:
  "length d = unat l \<Longrightarrow>
   socks_String (ATypDomain # l # d @ put16 w) = Inr (JoinHostPort (bytes_str d) (show_nat (unat w)))"
  by (simp add: socks_String_def)

lemma socks_String_ip4:
  "length ip = 4 \<Longrightarrow>
   socks_String (ATypIP4 # ip @ put16 w) = Inr (JoinHostPort (show_ipv4 ip) (show_nat (unat w)))"
  by (simp add: socks_String_def socks_consts IP_String_def)

lemma ParseAddr_socks_ip4:
  "length ip = 4 \<Longrightarrow> ParseAddr_socks (JoinHostPort (show_ipv4 ip) (show_nat (unat (w :: u16)))) =
     Some (ATypIP4 # ip @ put16 w)"
  by (simp add: ParseAddr_socks_def)

lemma ParseAddr_socks_domain:
  assumes "ParseAddr host = None" "length host \<le> 255" "set host \<inter> {CHR ''['', CHR '']''} = {}"
    "n < 65536"
  shows "ParseAddr_socks (JoinHostPort host (show_nat n)) =
     Some (ATypDomain # of_nat (length host) # str_bytes host @ put16 (of_nat n))"
  using assms by (simp add: ParseAddr_socks_def)

lemma socks_String_wf: "wf_socks a \<Longrightarrow> \<exists>s. socks_String a = Inr s"
proof -
  assume w: "wf_socks a"
  have p: "length p \<ge> 2 \<Longrightarrow> \<exists>s. addr_port p = Some s" for p
    by (auto simp: addr_port_def numeral_eq_Suc Suc_le_length_iff)
  from w obtain t r where a: "a = t # r"
    by (cases a) (auto simp: wf_socks_def SplitAddr_def)
  consider (dom) l d where "t = ATypDomain" "r = l # d" | (v4) "t = ATypIP4" | (v6) "t = ATypIP6"
    using w a by (cases r) (auto simp: wf_socks_def SplitAddr_def split: if_splits)
  then show ?thesis
  proof cases
    case dom
    then have "unat l + 2 \<le> length d"
      using w a by (auto simp: wf_socks_def SplitAddr_def split: if_splits)
    then have "2 \<le> length (drop (unat l) d)" by simp
    then obtain s where "addr_port (drop (unat l) d) = Some s"
      using p by blast
    then show ?thesis using dom a \<open>unat l + 2 \<le> length d\<close> by (auto simp: socks_String_def)
  next
    case v4
    then have "6 \<le> length r"
      using w a by (auto simp: wf_socks_def SplitAddr_def socks_consts split: if_splits)
    then have "2 \<le> length (drop 4 r)" by simp
    then obtain s where "addr_port (drop 4 r) = Some s"
      using p by blast
    then show ?thesis using v4 a \<open>6 \<le> length r\<close> by (auto simp: socks_String_def socks_consts)
  next
    case v6
    then have "18 \<le> length r"
      using w a by (auto simp: wf_socks_def SplitAddr_def socks_consts split: if_splits)
    then have "2 \<le> length (drop 16 r)" by simp
    then obtain s where "addr_port (drop 16 r) = Some s"
      using p by blast
    then show ?thesis using v6 a \<open>18 \<le> length r\<close> by (auto simp: socks_String_def socks_consts)
  qed
qed

text \<open>The addresses that \<open>String\<close> prints unambiguously: IPv4, and domains that are neither
  an IP literal nor contain a bracket.\<close>

definition printable_addr :: "socks_addr \<Rightarrow> bool" where
  "printable_addr a =
     (wf_socks a \<and>
      (a ! 0 = ATypIP4 \<or>
       a ! 0 = ATypDomain \<and>
       (let host = bytes_str (take (unat (a ! 1)) (drop 2 a))
        in ParseAddr host = None \<and> CHR ''['' \<notin> set host \<and> CHR '']'' \<notin> set host)))"

lemma wf_socks_ip4_cases:
  assumes "wf_socks a" "a ! 0 = ATypIP4"
  obtains ip w where "length ip = 4" "a = ATypIP4 # ip @ put16 w"
proof -
  from assms obtain r where a: "a = ATypIP4 # r" "length r = 6"
    by (cases a) (auto simp: wf_socks_def SplitAddr_def socks_consts min_def split: if_splits)
  then obtain b0 b1 where "drop 4 r = [b0, b1]"
    by (auto simp: numeral_eq_Suc length_Suc_conv)
  then have "a = ATypIP4 # take 4 r @ put16 (be16 b0 b1)"
    using a(1) append_take_drop_id [of 4 r] by simp
  moreover have "length (take 4 r) = 4" using a(2) by simp
  ultimately show thesis by (rule that [rotated])
qed

lemma wf_socks_domain_cases:
  assumes "wf_socks a" "a ! 0 = ATypDomain"
  obtains l d w where "length d = unat l" "a = ATypDomain # l # d @ put16 w"
proof -
  from assms obtain l r where a: "a = ATypDomain # l # r" "length r = unat l + 2"
    by (cases a; cases "tl a")
      (auto simp: wf_socks_def SplitAddr_def min_def split: if_splits dest: arg_cong [of _ _ length])
  have "length (drop (unat l) r) = 2" using a(2) by simp
  then obtain b0 b1 where "drop (unat l) r = [b0, b1]"
    by (cases "drop (unat l) r"; cases "tl (drop (unat l) r)") auto
  then have "a = ATypDomain # l # take (unat l) r @ put16 (be16 b0 b1)"
    using a(1) append_take_drop_id [of "unat l" r] by simp
  moreover have "length (take (unat l) r) = unat l" using a(2) by simp
  ultimately show thesis by (rule that [rotated])
qed

lemma wf_socks_bound: "wf_socks a \<Longrightarrow> length a \<le> MaxAddrLen"
proof -
  assume "wf_socks a"
  then have "length a \<le> (if a ! 0 = ATypDomain then 4 + unat (a ! 1) else 19)"
    by (auto simp: wf_socks_def SplitAddr_def min_def split: if_splits dest!: arg_cong [of _ _ length])
  also have "\<dots> \<le> MaxAddrLen" using unat_byte_less [of "a ! 1"] by (simp add: MaxAddrLen_def del: unat_byte_less)
  finally show ?thesis .
qed

section \<open>Properties\<close>

text \<open>Property C36. Reading an address from a stream and cutting it from a packet agree: the
  stream reader succeeds exactly when the packet reader finds an address at the front of
  the unread bytes, returns the same address and leaves exactly the bytes after it.\<close>

theorem ReadAddr_iff_SplitAddr:
  "ReadAddr c = (Inr a, c') \<longleftrightarrow>
     SplitAddr (rd c) = Some a \<and> c' = c\<lparr>rd := drop (length a) (rd c)\<rparr>"
proof
  assume r: "ReadAddr c = (Inr a, c')"
  then have s: "SplitAddr (rd c) = Some a" using ReadAddr_SplitAddr by blast
  then show "SplitAddr (rd c) = Some a \<and> c' = c\<lparr>rd := drop (length a) (rd c)\<rparr>"
    using r by (simp add: SplitAddr_ReadAddr)
qed (simp add: SplitAddr_ReadAddr)

text \<open>Whatever \<open>ParseAddr\<close> builds is self-delimiting: a reader of a packet that
  starts with it gets it back whatever follows, it fits the \<open>MaxAddrLen\<close> buffer of the
  readers, and printing it does not index out of range.\<close>

lemma ParseAddr_self_delimiting:
  assumes "ParseAddr_socks s = Some a"
  shows "SplitAddr (a @ payload) = Some a \<and> length a \<le> MaxAddrLen \<and> (\<exists>t. socks_String a = Inr t)"
  using ParseAddr_socks_wf [OF assms] SplitAddr_append socks_String_wf wf_socks_bound
  by (simp add: wf_socks_def)

lemma ParseAddr_self_delimiting_witness:
  "SplitAddr ([3, 3, 97, 46, 98, 0, 80] @ [7, 7]) = Some [3, 3, 97, 46, 98, 0, 80]"
proof -
  have "ParseAddr_socks ''a.b:80'' = Some [3, 3, 97, 46, 98, 0, 80]"
    by (simp add: ParseAddr_socks_def SplitHostPort_def ParseAddr_def parse_ipv4_def parse_uint_def
        str_bytes_def byte_of_char_def put16_def is_digit_def code_def digits_val_def digit_val_def
        ATypDomain_def)
  from ParseAddr_self_delimiting [OF this] show ?thesis by blast
qed

text \<open>Printing and parsing are inverse: an IPv4 address, or a domain name that is
  not itself an IP literal and has no brackets, survives \<open>String\<close> followed by
  \<open>ParseAddr\<close> byte for byte.\<close>

lemma socks_String_ParseAddr:
  assumes "printable_addr a"
  shows "\<exists>s. socks_String a = Inr s \<and> ParseAddr_socks s = Some a"
proof (cases "a ! 0 = ATypIP4")
  case True
  then obtain ip w where "length ip = 4" "a = ATypIP4 # ip @ put16 w"
    using assms wf_socks_ip4_cases by (metis printable_addr_def)
  then show ?thesis by (simp add: socks_String_ip4 ParseAddr_socks_ip4)
next
  case False
  then obtain l d w where a: "length d = unat l" "a = ATypDomain # l # d @ put16 w"
    using assms wf_socks_domain_cases by (metis printable_addr_def)
  have "bytes_str (take (unat (a ! 1)) (drop 2 a)) = bytes_str d" using a by simp
  then have "ParseAddr (bytes_str d) = None" "set (bytes_str d) \<inter> {CHR ''['', CHR '']''} = {}"
    using assms False by (auto simp: printable_addr_def Let_def)
  moreover have "length (bytes_str d) \<le> 255" using a(1) by simp
  ultimately show ?thesis
    using a ParseAddr_socks_domain [of "bytes_str d" "unat w"] by (simp add: socks_String_domain)
qed

lemma socks_String_ParseAddr_witness:
  "\<exists>s. socks_String [1, 10, 0, 0, 1, 1, 187] = Inr s \<and> ParseAddr_socks s = Some [1, 10, 0, 0, 1, 1, 187]"
proof -
  have "printable_addr [1, 10, 0, 0, 1, 1, 187]" by code_simp
  then show ?thesis by (rule socks_String_ParseAddr)
qed

text \<open>A concrete address, for the witnesses of the protocols that carry addresses.\<close>

lemma example_addr:
  "ParseAddr_socks ''1.2.3.4:80'' = Some [1, 1, 2, 3, 4, 0, 80]"
  "socks_String [1, 1, 2, 3, 4, 0, 80] = Inr ''1.2.3.4:80''"
proof -
  have p: "show_nat 1 = ''1''" "show_nat 2 = ''2''" "show_nat 3 = ''3''" "show_nat 4 = ''4''" "show_nat 80 = ''80''"
    by code_simp+
  show "ParseAddr_socks ''1.2.3.4:80'' = Some [1, 1, 2, 3, 4, 0, 80]"
    using ParseAddr_socks_ip4 [of "[1, 2, 3, 4]" 80] p
    by (simp add: JoinHostPort_def show_ipv4_def put16_def ATypIP4_def)
  show "socks_String [1, 1, 2, 3, 4, 0, 80] = Inr ''1.2.3.4:80''"
    using socks_String_ip4 [of "[1, 2, 3, 4]" 80] p
    by (simp add: JoinHostPort_def show_ipv4_def put16_def ATypIP4_def)
qed

end
