(* ===== verification/Socks5.thy ===== *)
theory Socks5
  imports Socks_Addr
begin

text \<open>
  The package \<open>proxy/socks5\<close>: the server's handshake, the client's \<open>connect\<close>, the UDP
  packet format of \<open>PktConn\<close> and what \<open>Serve\<close> does with the proxy behind it (the sessions of datagrams are in
  \<open>Udp_Session\<close>).  The lemmas show that a client and a server with the same credentials
  agree on the target, that a server with credentials set lets no other client through,
  and that UDP packets survive \<open>WriteTo\<close> and \<open>readFrom\<close>.
\<close>

section \<open>Definitions\<close>

definition Version :: byte where "Version = 5"

record socks5 =
  s5_addr :: string
  s5_user :: string
  s5_password :: string

subsection \<open>The server side\<close>

text \<open>Sub-negotiation of user name and password, after the method was chosen.\<close>

definition handshake_auth :: "socks5 \<Rightarrow> unit io" where
  "handshake_auth s =
     io_bind (io_write [Version, AuthPassword]) (\<lambda>_.
     io_bind (read_full 2) (\<lambda>h.
     let userLen = unat (h ! 1) in
     if userLen = 0 then
       io_bind (io_write_ignore [1, 1]) (\<lambda>_. io_fail (ErrMsg ''auth failed: wrong username length''))
     else
     io_bind (io_relabel ''auth failed: cannot get username'' (read_full userLen)) (\<lambda>ub.
     let user = bytes_str ub in
     io_bind (io_relabel ''auth failed: cannot get password len'' (read_full 1)) (\<lambda>pl.
     let passLen = unat (pl ! 0) in
     if passLen = 0 then
       io_bind (io_write_ignore [1, 1]) (\<lambda>_. io_fail (ErrMsg ''auth failed: wrong password length''))
     else
     io_bind (io_relabel ''auth failed: cannot get password'' (read_full passLen)) (\<lambda>pb.
     let pass = bytes_str pb in
     if user \<noteq> s5_user s \<or> pass \<noteq> s5_password s then
       io_bind (io_write [1, 1]) (\<lambda>_.
         io_fail (ErrMsg (''auth failed, authinfo: '' @ user @ '':'' @ pass)))
     else io_write [1, 0])))))"

text \<open>
  The request after the greeting.  It returns the target address and an error that may
  come with it: \<open>socks.Errors[9]\<close> marks a UDP association, which is no failure.
\<close>

definition handshake_request :: "string \<Rightarrow> (socks_addr \<times> go_error option) io" where
  "handshake_request localAddr =
     io_bind (read_full 3) (\<lambda>r.
     let cmd = r ! 1 in
     io_bind ReadAddr (\<lambda>addr.
     if cmd = CmdConnect then
       io_bind (io_write [5, 0, 0, 1, 0, 0, 0, 0, 0, 0]) (\<lambda>_. io_ret (addr, None))
     else if cmd = CmdUDPAssociate then
       (let listenAddr = (case ParseAddr_socks localAddr of
              Some a \<Rightarrow> a
            | None \<Rightarrow> (case ParseAddr_socks ''127.0.0.1:0'' of Some a \<Rightarrow> a | None \<Rightarrow> []))
        in io_bind (io_relabel (socks_Errors ! 7) (io_write ([5, 0, 0] @ listenAddr))) (\<lambda>_.
             io_ret (addr, Some (ErrMsg (socks_Errors ! 9)))))
     else io_fail (ErrMsg (socks_Errors ! 7))))"

definition handshake :: "socks5 \<Rightarrow> string \<Rightarrow> (socks_addr \<times> go_error option) io" where
  "handshake s localAddr =
     io_bind (read_full 2) (\<lambda>h.
     io_bind (read_full (unat (h ! 1))) (\<lambda>_.
     io_bind (if s5_user s \<noteq> [] \<and> s5_password s \<noteq> [] then handshake_auth s
              else io_write [Version, AuthNone]) (\<lambda>_.
     handshake_request localAddr)))"

text \<open>
  What \<open>Serve\<close> does after the handshake, as the calls it makes on the proxy: \<open>dial\<close> says
  whether \<open>proxy.Dial\<close> succeeds for a target, \<open>relay\<close> is the error text of
  \<open>proxy.Relay\<close>, if any.
\<close>

datatype serve_event =
    EvDial string
  | EvRecord bool
  | EvWaitUDP
  | EvClose

definition Serve :: "socks5 \<Rightarrow> string \<Rightarrow> (string \<Rightarrow> bool) \<Rightarrow> string option \<Rightarrow> conn \<Rightarrow> serve_event list" where
  "Serve s localAddr dial relay c =
     (case fst (handshake s localAddr c) of
        Inl _ \<Rightarrow> [EvClose]
      | Inr (tgt, Some e) \<Rightarrow> [EvWaitUDP, EvClose]
      | Inr (tgt, None) \<Rightarrow>
          (case socks_String tgt of
             Inl _ \<Rightarrow> [EvClose]
           | Inr t \<Rightarrow>
               if \<not> dial t then [EvDial t, EvClose]
               else [EvDial t, EvRecord True] @
                 (case relay of
                    None \<Rightarrow> []
                  | Some err \<Rightarrow> if contains_str err (s5_addr s) then [] else [EvRecord False]) @
                 [EvClose]))"

subsection \<open>The client side\<close>

definition client_greeting :: "socks5 \<Rightarrow> bytes" where
  "client_greeting s =
     Version # (if 0 < length (s5_user s) \<and> length (s5_user s) < 256 \<and> length (s5_password s) < 256
                then [2, AuthNone, AuthPassword] else [1, AuthNone])"

definition client_auth_request :: "socks5 \<Rightarrow> bytes" where
  "client_auth_request s =
     1 # of_nat (length (s5_user s)) # str_bytes (s5_user s) @
     of_nat (length (s5_password s)) # str_bytes (s5_password s)"

text \<open>When the target does not parse, the nil address is appended, that is nothing.\<close>

definition client_request :: "string \<Rightarrow> byte \<Rightarrow> bytes" where
  "client_request target cmd =
     [Version, cmd, 0] @ (case ParseAddr_socks target of Some a \<Rightarrow> a | None \<Rightarrow> [])"

definition connect :: "socks5 \<Rightarrow> string \<Rightarrow> byte \<Rightarrow> socks_addr io" where
  "connect s target cmd =
     io_bind (io_relabel ''proxy: failed to write greeting'' (io_write (client_greeting s))) (\<lambda>_.
     io_bind (io_relabel ''proxy: failed to read greeting'' (read_full 2)) (\<lambda>g.
     if g ! 0 \<noteq> Version then io_fail (ErrMsg ''proxy: unexpected version'')
     else if g ! 1 = 255 then io_fail (ErrMsg ''proxy: requires authentication'')
     else
     io_bind (if g ! 1 = AuthPassword then
                io_bind (io_relabel ''proxy: failed to write authentication request''
                           (io_write (client_auth_request s))) (\<lambda>_.
                io_bind (io_relabel ''proxy: failed to read authentication reply'' (read_full 2)) (\<lambda>r.
                if r ! 1 \<noteq> 0 then io_fail (ErrMsg ''proxy: rejected username/password'')
                else io_ret ()))
              else io_ret ()) (\<lambda>_.
     io_bind (io_relabel ''proxy: failed to write connect request'' (io_write (client_request target cmd))) (\<lambda>_.
     io_bind (io_relabel ''proxy: failed to read connect reply'' (read_full 3)) (\<lambda>r.
     let failure = (if unat (r ! 1) < length socks_Errors then socks_Errors ! unat (r ! 1)
                    else ''unknown error'')
     in if failure \<noteq> [] then io_fail (ErrMsg (''proxy: failed to connect: '' @ failure))
        else ReadAddr)))))"

subsection \<open>UDP packets\<close>

text \<open>
  A \<open>PktConn\<close> keeps the peer it writes to and the target of the association; addresses of
  peers are opaque strings here.  \<open>resolve\<close> is \<open>net.ResolveUDPAddr\<close>.
\<close>

record pktconn =
  pc_writeTo :: "string option"
  pc_target :: "socks_addr option"

text \<open>\<open>readFrom\<close> with a buffer of \<open>blen\<close> bytes on a packet \<open>pkt\<close> from \<open>raddr\<close>: the payload
  copied into the buffer and the resolved target.\<close>

definition readFrom :: "(string \<Rightarrow> string option) \<Rightarrow> nat \<Rightarrow> bytes \<Rightarrow> string \<Rightarrow> pktconn
    \<Rightarrow> (bytes \<times> string) result \<times> pktconn" where
  "readFrom resolve blen pkt raddr pc =
     (let buf = take blen pkt in
      if length buf < 3 then (Inl (ErrMsg ''not enough size to get addr''), pc)
      else case SplitAddr (drop 3 buf) of
             None \<Rightarrow> (Inl (ErrMsg ''can not get target addr''), pc)
           | Some tgtAddr \<Rightarrow>
               (case socks_String tgtAddr of
                  Inl e \<Rightarrow> (Inl e, pc)
                | Inr s \<Rightarrow>
                    (case resolve s of
                       None \<Rightarrow> (Inl (ErrMsg ''wrong target addr''), pc)
                     | Some target \<Rightarrow>
                         (Inr (drop (3 + length tgtAddr) buf, target),
                          pc\<lparr>pc_writeTo := (case pc_writeTo pc of None \<Rightarrow> Some raddr | Some w \<Rightarrow> Some w),
                             pc_target := (case pc_target pc of None \<Rightarrow> Some tgtAddr | Some t \<Rightarrow> Some t)\<rparr>))))"

text \<open>\<open>WriteTo\<close>: the datagram handed to the underlying connection, or the error; \<open>addr\<close> is
  the destination's string form, \<open>None\<close> for nil.\<close>

definition WriteTo :: "bytes \<Rightarrow> string option \<Rightarrow> pktconn \<Rightarrow> (bytes \<times> string option) result" where
  "WriteTo b addr pc =
     (let target = (case addr of None \<Rightarrow> pc_target pc | Some a \<Rightarrow> ParseAddr_socks a) in
      case target of
        None \<Rightarrow> Inl (ErrMsg ''invalid addr'')
      | Some t \<Rightarrow> Inr ([0, 0, 0] @ t @ b, pc_writeTo pc))"

text \<open>The count returned for \<open>n\<close> bytes sent, with the header taken off.\<close>

definition WriteTo_count :: "nat \<Rightarrow> socks_addr \<Rightarrow> nat" where
  "WriteTo_count n t = (if n > length t + 3 then n - length t - 3 else 0)"

section \<open>Specification vocabulary\<close>

text \<open>Everything a client sends for a request: greeting, sub-negotiation when both credentials
  are set, request.\<close>

definition client_stream :: "socks5 \<Rightarrow> string \<Rightarrow> byte \<Rightarrow> bytes" where
  "client_stream s target cmd =
     client_greeting s @ (if s5_user s \<noteq> [] \<and> s5_password s \<noteq> [] then client_auth_request s else []) @
     client_request target cmd"

text \<open>The credentials both sides can handle: none at all, or both present and short enough
  for their one-byte lengths.\<close>

definition good_creds :: "socks5 \<Rightarrow> bool" where
  "good_creds s = ((s5_user s = [] \<and> s5_password s = []) \<or>
     (s5_user s \<noteq> [] \<and> s5_password s \<noteq> [] \<and> length (s5_user s) < 256 \<and> length (s5_password s) < 256))"

section \<open>Lemmas\<close>

lemmas socks5_consts = Version_def AuthNone_def AuthPassword_def CmdConnect_def CmdUDPAssociate_def

lemma handshake_auth_ok:
  assumes "good_creds s" "s5_user s \<noteq> []" "wleft c = None"
    "rd c = client_auth_request s @ rest"
  shows "handshake_auth s c = (Inr (), c\<lparr>rd := rest, wr := wr c @ [5, 2, 1, 0]\<rparr>)"
proof -
  have l: "unat (of_nat (length (s5_user s)) :: byte) = length (s5_user s)"
    "unat (of_nat (length (s5_password s)) :: byte) = length (s5_password s)"
    using assms(1,2) by (auto simp: good_creds_def unat_of_nat_byte)
  have ne: "s5_password s \<noteq> []" using assms(1,2) by (auto simp: good_creds_def)
  define r2 where "r2 = of_nat (length (s5_password s)) # str_bytes (s5_password s) @ rest"
  have rdc: "rd c = [1, of_nat (length (s5_user s))] @ str_bytes (s5_user s) @ r2"
    using assms(4) by (simp add: client_auth_request_def r2_def)
  show ?thesis
    using assms(2,3) ne l
    by (simp add: handshake_auth_def rdc r2_def read_full_def socks5_consts Let_def)
qed

lemma request_ok:
  assumes "wf_socks a" "wleft c = None" "rd c = [5, 1, 0] @ a @ rest"
  shows "handshake_request local c = (Inr (a, None), c\<lparr>rd := rest, wr := wr c @ [5,0,0,1,0,0,0,0,0,0]\<rparr>)"
  using assms
  by (simp add: handshake_request_def socks5_consts io_ret_def read_full_def saddr.dec_enc [OF assms(1)])

lemma handshake_ok:
  assumes "good_creds s" "ParseAddr_socks target = Some a"
    and c: "wleft c = None" "rd c = client_stream s target CmdConnect @ rest"
  shows "handshake s local c = (Inr (a, None), c\<lparr>rd := rest,
     wr := wr c @ (if s5_user s = [] then [5, 0] else [5, 2, 1, 0]) @ [5, 0, 0, 1, 0, 0, 0, 0, 0, 0]\<rparr>)"
proof (cases "s5_user s = []")
  case True
  then have "s5_password s = []" using assms(1) by (simp add: good_creds_def)
  with True show ?thesis
    using c ParseAddr_socks_wf [OF assms(2)] assms(2)
    by (simp add: handshake_def client_stream_def client_greeting_def client_request_def
        read_full_def request_ok socks5_consts)
next
  case False
  then have p: "s5_password s \<noteq> []" "length (s5_user s) < 256" "length (s5_password s) < 256"
    using assms(1) by (auto simp: good_creds_def)
  let ?r = "client_request target CmdConnect @ rest"
  have "rd c = [5, 2, 0, 2] @ client_auth_request s @ ?r"
    using c(2) False p by (simp add: client_stream_def client_greeting_def socks5_consts)
  then show ?thesis
    using False p c(1) ParseAddr_socks_wf [OF assms(2)] assms(2)
    by (simp add: handshake_def read_full_def handshake_auth_ok [OF assms(1)] request_ok
        client_request_def socks5_consts)
qed

lemma connect_ok:
  assumes "good_creds s" "wleft c = None"
    "rd c = (if s5_user s = [] then [5, 0] else [5, 2, 1, 0]) @ [5, 0, 0, 1, 0, 0, 0, 0, 0, 0] @ rest"
  shows "connect s target CmdConnect c = (Inr [1, 0, 0, 0, 0, 0, 0],
     c\<lparr>rd := rest, wr := wr c @ client_stream s target CmdConnect\<rparr>)"
proof -
  have r: "ReadAddr d = (Inr [1, 0, 0, 0, 0, 0, 0], d\<lparr>rd := rest\<rparr>)"
    if "rd d = [1, 0, 0, 0, 0, 0, 0] @ rest" for d :: conn
    using that by (intro saddr.dec_enc) (simp_all add: wf_socks_def SplitAddr_def socks_consts)
  from assms(1) have "s5_user s = [] \<longleftrightarrow> s5_password s = []"
    by (auto simp: good_creds_def)
  then show ?thesis
    using assms(2,3)
    by (auto simp: connect_def client_stream_def read_full_def io_ret_def socks5_consts socks_Errors_def r)
qed

lemma handshake_auth_success:
  assumes "handshake_auth s c = (Inr u, c')"
  shows "\<exists>v ul pl. rd c = [v, ul] @ str_bytes (s5_user s) @ [pl] @ str_bytes (s5_password s) @ rd c' \<and>
    unat ul = length (s5_user s) \<and> unat pl = length (s5_password s)"
proof -
  from assms obtain c1 h c2 where
    1: "io_write [Version, AuthPassword] c = (Inr (), c1)" "read_full 2 c1 = (Inr h, c2)" and
    m: "(let userLen = unat (h ! 1) in
     if userLen = 0 then
       io_bind (io_write_ignore [1, 1]) (\<lambda>_. io_fail (ErrMsg ''auth failed: wrong username length''))
     else
     io_bind (io_relabel ''auth failed: cannot get username'' (read_full userLen)) (\<lambda>ub.
     let user = bytes_str ub in
     io_bind (io_relabel ''auth failed: cannot get password len'' (read_full 1)) (\<lambda>pl.
     let passLen = unat (pl ! 0) in
     if passLen = 0 then
       io_bind (io_write_ignore [1, 1]) (\<lambda>_. io_fail (ErrMsg ''auth failed: wrong password length''))
     else
     io_bind (io_relabel ''auth failed: cannot get password'' (read_full passLen)) (\<lambda>pb.
     let pass = bytes_str pb in
     if user \<noteq> s5_user s \<or> pass \<noteq> s5_password s then
       io_bind (io_write [1, 1]) (\<lambda>_.
         io_fail (ErrMsg (''auth failed, authinfo: '' @ user @ '':'' @ pass)))
     else io_write [1, 0])))) c2 = (Inr u, c')"
    unfolding handshake_auth_def by (elim io_bind_InrE) auto
  from m obtain ub c3 pl c4 pb c5 where
    2: "read_full (unat (h ! 1)) c2 = (Inr ub, c3)" "read_full 1 c3 = (Inr pl, c4)"
      "read_full (unat (pl ! 0)) c4 = (Inr pb, c5)"
    and eq: "bytes_str ub = s5_user s" "bytes_str pb = s5_password s"
    and w: "io_write [1, 0] c5 = (Inr u, c')"
    by (auto simp: Let_def io_fail_def io_write_ignore_def split: if_splits elim!: io_bind_InrE dest!: io_relabel_InrD)
  note r = read_full_InrD [OF 1(2)] read_full_InrD [OF 2(1)] read_full_InrD [OF 2(2)] read_full_InrD [OF 2(3)]
    io_write_InrD [OF 1(1)] io_write_InrD [OF w]
  have ub: "ub = str_bytes (s5_user s)" "pb = str_bytes (s5_password s)"
    using eq by (metis str_bytes_str)+
  obtain v ul where h: "h = [v, ul]" using r(1) by (auto simp: numeral_eq_Suc length_Suc_conv)
  obtain p where pl: "pl = [p]" using r(3) by (auto simp: length_Suc_conv)
  have "rd c = [v, ul] @ str_bytes (s5_user s) @ [p] @ str_bytes (s5_password s) @ rd c'"
    using r h pl ub by simp
  moreover have "unat ul = length (s5_user s)" "unat p = length (s5_password s)"
    using r h pl ub by auto
  ultimately show ?thesis by blast
qed

lemma handshake_request_consumes:
  "handshake_request l c = (Inr x, c') \<Longrightarrow> \<exists>q. rd c = q @ rd c' \<and> SplitAddr (drop 3 (rd c)) = Some (fst x)"
  unfolding handshake_request_def
  by (auto simp: Let_def io_ret_def io_fail_def split: if_splits option.splits
      elim!: io_bind_InrE dest!: read_full_InrD io_write_InrD io_relabel_InrD ReadAddr_SplitAddr)

lemma handshake_authenticated:
  assumes "handshake s l c = (Inr x, c')" "s5_user s \<noteq> []" "s5_password s \<noteq> []"
  shows "\<exists>g v ul pl q. rd c = g @ [v, ul] @ str_bytes (s5_user s) @ [pl] @ str_bytes (s5_password s) @ q @ rd c' \<and>
    unat ul = length (s5_user s) \<and> unat pl = length (s5_password s)"
proof -
  from assms obtain h c1 m c2 u c3 where
    s: "read_full 2 c = (Inr h, c1)" "read_full (unat (h ! 1)) c1 = (Inr m, c2)"
    "handshake_auth s c2 = (Inr u, c3)" "handshake_request l c3 = (Inr x, c')"
    unfolding handshake_def by (auto elim!: io_bind_InrE)
  obtain v ul pl where a: "rd c2 = [v, ul] @ str_bytes (s5_user s) @ [pl] @ str_bytes (s5_password s) @ rd c3"
    "unat ul = length (s5_user s)" "unat pl = length (s5_password s)"
    using handshake_auth_success [OF s(3)] by blast
  obtain q where q: "rd c3 = q @ rd c'"
    using handshake_request_consumes [OF s(4)] by blast
  have "rd c = (h @ m) @ [v, ul] @ str_bytes (s5_user s) @ [pl] @ str_bytes (s5_password s) @ q @ rd c'"
    using read_full_InrD [OF s(1)] read_full_InrD [OF s(2)] a q by simp
  with a show ?thesis by blast
qed


section \<open>Properties\<close>

text \<open>Property C5. Client and server agree: when a client and a server are configured with the same
  credentials (or none), the server's handshake on what the client sends accepts, returns
  exactly the address the client asked for and leaves the client's payload unread; the
  client's \<open>connect\<close> on what the server answers succeeds and sends exactly those bytes.\<close>

theorem socks5_client_server_agree:
  assumes "good_creds s" "ParseAddr_socks target = Some a"
  defines "stream \<equiv> client_stream s target CmdConnect"
  shows "\<exists>reply c1 c2.
     handshake s localAddr (open_conn (stream @ payload)) = (Inr (a, None), c1) \<and>
     rd c1 = payload \<and> wr c1 = reply \<and>
     connect s target CmdConnect (open_conn (reply @ answer)) = (Inr [1, 0, 0, 0, 0, 0, 0], c2) \<and>
     rd c2 = answer \<and> wr c2 = stream"
proof -
  let ?reply = "(if s5_user s = [] then [5, 0] else [5, 2, 1, 0]) @ [5, 0, 0, 1, 0, 0, 0, 0, 0, 0]"
  have "handshake s localAddr (open_conn (stream @ payload)) =
      (Inr (a, None), (open_conn (stream @ payload))\<lparr>rd := payload, wr := [] @ ?reply\<rparr>)"
    using handshake_ok [OF assms(1,2), of "open_conn (stream @ payload)" payload localAddr]
    by (simp add: stream_def)
  moreover have "connect s target CmdConnect (open_conn (?reply @ answer)) =
      (Inr [1, 0, 0, 0, 0, 0, 0], (open_conn (?reply @ answer))\<lparr>rd := answer, wr := [] @ stream\<rparr>)"
    using connect_ok [OF assms(1), of "open_conn (?reply @ answer)" answer target]
    by (simp add: stream_def)
  ultimately show ?thesis by fastforce
qed

theorem socks5_client_server_agree_witness:
  "\<exists>reply c1 c2.
     handshake \<lparr>s5_addr = '':1080'', s5_user = ''u'', s5_password = ''pw''\<rparr> ''127.0.0.1:1080''
       (open_conn (client_stream \<lparr>s5_addr = '':1080'', s5_user = ''u'', s5_password = ''pw''\<rparr>
          ''1.2.3.4:80'' CmdConnect @ [9])) = (Inr ([1, 1, 2, 3, 4, 0, 80], None), c1) \<and>
     rd c1 = [9] \<and> wr c1 = reply \<and>
     connect \<lparr>s5_addr = '':1080'', s5_user = ''u'', s5_password = ''pw''\<rparr> ''1.2.3.4:80'' CmdConnect
       (open_conn (reply @ [8])) = (Inr [1, 0, 0, 0, 0, 0, 0], c2) \<and>
     rd c2 = [8] \<and>
     wr c2 = client_stream \<lparr>s5_addr = '':1080'', s5_user = ''u'', s5_password = ''pw''\<rparr>
       ''1.2.3.4:80'' CmdConnect"
proof -
  have "good_creds \<lparr>s5_addr = '':1080'', s5_user = ''u'', s5_password = ''pw''\<rparr>"
    by (simp add: good_creds_def)
  moreover have "ParseAddr_socks ''1.2.3.4:80'' = Some [1, 1, 2, 3, 4, 0, 80]"
    by (simp add: ParseAddr_socks_def SplitHostPort_def ParseAddr_def parse_ipv4_def parse_uint_def
        put16_def is_digit_def code_def digits_val_def digit_val_def ATypIP4_def)
  ultimately show ?thesis by (rule socks5_client_server_agree)
qed

text \<open>Property C4. Authentication cannot be bypassed: when the server has a user name and a password,
  every connection whose handshake succeeds (for any command) sent exactly these
  credentials, with their right lengths, before its request.\<close>

theorem socks5_auth_enforced:
  assumes "s5_user s \<noteq> []" "s5_password s \<noteq> []"
    and "handshake s localAddr c = (Inr r, c')"
  shows "\<exists>g v ul pl q. rd c =
      g @ [v, ul] @ str_bytes (s5_user s) @ [pl] @ str_bytes (s5_password s) @ q @ rd c' \<and>
      unat ul = length (s5_user s) \<and> unat pl = length (s5_password s)"
  using handshake_authenticated [OF assms(3,1,2)] .

theorem socks5_auth_enforced_witness:
  "\<exists>g v ul pl q. client_stream \<lparr>s5_addr = [], s5_user = ''u'', s5_password = ''p''\<rparr> ''1.2.3.4:80'' CmdConnect @ [9] =
      g @ [v, ul] @ str_bytes ''u'' @ [pl] @ str_bytes ''p'' @ q @ [9] \<and> unat ul = 1 \<and> unat pl = 1"
proof -
  let ?s = "\<lparr>s5_addr = [], s5_user = ''u'', s5_password = ''p''\<rparr> :: socks5"
  let ?c = "open_conn (client_stream ?s ''1.2.3.4:80'' CmdConnect @ [9])"
  have a: "ParseAddr_socks ''1.2.3.4:80'' = Some [1, 1, 2, 3, 4, 0, 80]"
    by (simp add: ParseAddr_socks_def SplitHostPort_def ParseAddr_def parse_ipv4_def parse_uint_def
        put16_def is_digit_def code_def digits_val_def digit_val_def ATypIP4_def)
  have "handshake ?s [] ?c = (Inr ([1, 1, 2, 3, 4, 0, 80], None), ?c\<lparr>rd := [9],
      wr := wr ?c @ [5, 2, 1, 0] @ [5, 0, 0, 1, 0, 0, 0, 0, 0, 0]\<rparr>)"
    using handshake_ok [OF _ a, of ?s ?c "[9]" "[]"] by (simp add: good_creds_def)
  from socks5_auth_enforced [OF _ _ this] show ?thesis by simp
qed

text \<open>UDP datagrams survive the association: what \<open>WriteTo\<close> builds for a parsable
  destination is read back by \<open>readFrom\<close>, with a buffer that holds it, as the same payload
  for the destination the address resolves to, and the first datagram fixes peer and target.\<close>

lemma socks5_udp_roundtrip:
  assumes "ParseAddr_socks dst = Some t" "socks_String t = Inr name" "resolve name = Some target"
    and "3 + length t + length payload \<le> blen"
  shows "\<exists>pkt. WriteTo payload (Some dst) pc = Inr (pkt, pc_writeTo pc) \<and>
     readFrom resolve blen pkt raddr \<lparr>pc_writeTo = None, pc_target = None\<rparr> =
       (Inr (payload, target), \<lparr>pc_writeTo = Some raddr, pc_target = Some t\<rparr>)"
proof -
  have "SplitAddr (t @ payload) = Some t"
    using ParseAddr_socks_wf [OF assms(1)] by (simp add: wf_socks_def SplitAddr_append)
  then show ?thesis
    using assms by (simp add: WriteTo_def readFrom_def numeral_eq_Suc)
qed

lemma socks5_udp_roundtrip_witness:
  "\<exists>pkt. WriteTo [1, 2] (Some ''1.2.3.4:53'') \<lparr>pc_writeTo = Some ''peer'', pc_target = None\<rparr> =
       Inr (pkt, Some ''peer'') \<and>
     readFrom Some 2048 pkt ''client'' \<lparr>pc_writeTo = None, pc_target = None\<rparr> =
       (Inr ([1, 2], ''1.2.3.4:53''),
        \<lparr>pc_writeTo = Some ''client'', pc_target = Some [1, 1, 2, 3, 4, 0, 53]\<rparr>)"
proof -
  have 1: "ParseAddr_socks ''1.2.3.4:53'' = Some [1, 1, 2, 3, 4, 0, 53]"
    by (simp add: ParseAddr_socks_def SplitHostPort_def ParseAddr_def parse_ipv4_def parse_uint_def
        put16_def is_digit_def code_def digits_val_def digit_val_def ATypIP4_def)
  have 2: "socks_String [1, 1, 2, 3, 4, 0, 53] = Inr ''1.2.3.4:53''"
    by code_simp
  show ?thesis
    using socks5_udp_roundtrip [OF 1 2, of Some "''1.2.3.4:53''" "[1, 2]" 2048
        "\<lparr>pc_writeTo = Some ''peer'', pc_target = None\<rparr>" "''client''"] by simp
qed

end
