(* ===== verification/Dns_Message.thy ===== *)
theory Dns_Message
  imports Net_Addr
begin

text \<open>
  The file \<open>dns/message.go\<close>: DNS messages, their encoding (\<open>MarshalTo\<close>) and their decoding
  (\<open>UnmarshalMessage\<close> and its parts).

  Two things of Go are kept because the behaviour depends on them.  A slice expression
  \<open>b[i:j]\<close> is checked against the capacity, not the length, of \<open>b\<close>: the decoders take the
  bytes \<open>spare\<close> that lie between length and capacity of the request buffer, and an
  expression out of that range is the result \<open>Panic\<close>.  Compressed names are decoded by
  recursion into the message, which need not end: the name decoder is a partial function,
  and \<open>None\<close> means that it never returns.
\<close>

section \<open>Definitions\<close>

definition UDPMaxLen :: nat where "UDPMaxLen = 1232"
definition HeaderLen :: nat where "HeaderLen = 12"

definition QueryMsg :: byte where "QueryMsg = 0"
definition ResponseMsg :: byte where "ResponseMsg = 1"
definition QTypeA :: u16 where "QTypeA = 1"
definition QTypeAAAA :: u16 where "QTypeAAAA = 28"
definition ClassINET :: u16 where "ClassINET = 1"

record header =
  ID :: u16
  Bits :: u16
  QDCOUNT :: u16
  ANCOUNT :: u16
  NSCOUNT :: u16
  ARCOUNT :: u16

record question =
  QNAME :: string
  QTYPE :: u16
  QCLASS :: u16

record rr =
  NAME :: string
  RTYPE :: u16
  CLASS :: u16
  TTL :: u32
  RDLENGTH :: u16
  RDATA :: bytes
  IP :: addr

record message =
  Header :: header
  Question :: question
  Answers :: "rr list"

subsection \<open>Building messages\<close>

definition SetMsgType :: "byte \<Rightarrow> header \<Rightarrow> header" where
  "SetMsgType qr h = h\<lparr>Bits := Bits h OR push_bit 15 (ucast qr)\<rparr>"

definition SetTC :: "int \<Rightarrow> header \<Rightarrow> header" where
  "SetTC tc h = h\<lparr>Bits := Bits h OR push_bit 9 (of_int tc)\<rparr>"

definition SetQdcount :: "nat \<Rightarrow> header \<Rightarrow> header" where
  "SetQdcount n h = h\<lparr>QDCOUNT := of_nat n\<rparr>"

definition SetAncount :: "nat \<Rightarrow> header \<Rightarrow> header" where
  "SetAncount n h = h\<lparr>ANCOUNT := of_nat n\<rparr>"

definition empty_question :: question where
  "empty_question = \<lparr>QNAME = [], QTYPE = 0, QCLASS = 0\<rparr>"

text \<open>\<open>rnd\<close> is the value of \<open>rand.Uint32()\<close> cut to 16 bits.\<close>

definition NewMessage :: "u16 \<Rightarrow> u16 \<Rightarrow> byte \<Rightarrow> message" where
  "NewMessage rnd mid t =
     \<lparr>Header = SetMsgType t \<lparr>ID = (if mid = 0 then rnd else mid), Bits = 0, QDCOUNT = 0,
        ANCOUNT = 0, NSCOUNT = 0, ARCOUNT = 0\<rparr>,
      Question = empty_question, Answers = []\<rparr>"

definition SetQuestion :: "question \<Rightarrow> message \<Rightarrow> message" where
  "SetQuestion q m = m\<lparr>Question := q, Header := SetQdcount 1 (Header m)\<rparr>"

definition AddAnswer :: "rr \<Rightarrow> message \<Rightarrow> message" where
  "AddAnswer r m = m\<lparr>Answers := Answers m @ [r]\<rparr>"

definition NewQuestion :: "u16 \<Rightarrow> string \<Rightarrow> question" where
  "NewQuestion qtype domain = \<lparr>QNAME = domain, QTYPE = qtype, QCLASS = ClassINET\<rparr>"

subsection \<open>Encoding\<close>

text \<open>The writers of the program are byte buffers, which do not fail; the encoders are the
  bytes they append, and the returned count is their length.\<close>

definition Header_MarshalTo :: "header \<Rightarrow> bytes" where
  "Header_MarshalTo h =
     put16 (ID h) @ put16 (Bits h) @ put16 (QDCOUNT h) @ put16 (ANCOUNT h) @ put16 (NSCOUNT h) @
     put16 (ARCOUNT h)"

definition marshal_label :: "string \<Rightarrow> bytes" where
  "marshal_label seg = of_nat (length seg) # str_bytes seg"

definition MarshalDomainTo :: "string \<Rightarrow> bytes" where
  "MarshalDomainTo domain = concat (map marshal_label (split_on CHR ''.'' domain)) @ [0]"

definition Question_MarshalTo :: "question \<Rightarrow> bytes" where
  "Question_MarshalTo q = MarshalDomainTo (QNAME q) @ put16 (QTYPE q) @ put16 (QCLASS q)"

definition RR_MarshalTo :: "rr \<Rightarrow> bytes" where
  "RR_MarshalTo r =
     MarshalDomainTo (NAME r) @ put16 (RTYPE r) @ put16 (CLASS r) @ put32 (TTL r) @
     put16 (RDLENGTH r) @ RDATA r"

definition marshal_header :: "message \<Rightarrow> header" where
  "marshal_header m = SetAncount (length (Answers m)) (SetQdcount 1 (Header m))"

definition MarshalTo :: "message \<Rightarrow> bytes" where
  "MarshalTo m =
     Header_MarshalTo (marshal_header m) @ Question_MarshalTo (Question m) @
     concat (map RR_MarshalTo (Answers m))"

subsection \<open>Decoding\<close>

definition UnmarshalHeader :: "bytes \<Rightarrow> header result" where
  "UnmarshalHeader b =
     (if length b \<noteq> HeaderLen then Inl (ErrMsg ''unmarshal header bytes has an unexpected size'')
      else Inr \<lparr>ID = be16 (b ! 0) (b ! 1), Bits = be16 (b ! 2) (b ! 3), QDCOUNT = be16 (b ! 4) (b ! 5),
                ANCOUNT = be16 (b ! 6) (b ! 7), NSCOUNT = be16 (b ! 8) (b ! 9),
                ARCOUNT = be16 (b ! 10) (b ! 11)\<rparr>)"

definition is_pointer :: "byte \<Rightarrow> bool" where
  "is_pointer x = (x AND 0xC0 = 0xC0)"

definition pointer_offset :: "byte \<Rightarrow> byte \<Rightarrow> nat" where
  "pointer_offset b0 b1 = unat (be16 b0 b1 AND 0x3FFF)"

definition append_label :: "string \<Rightarrow> bytes \<Rightarrow> string" where
  "append_label sb l = (if sb \<noteq> [] then sb @ ''.'' else sb) @ bytes_str l"

text \<open>
  \<open>UnmarshalDomainTo\<close> (with \<open>UnmarshalDomainPointTo\<close> inlined where it is called): \<open>msg\<close> is the
  whole message, \<open>b\<close> the slice the name starts in, \<open>idx\<close> the position in it and \<open>sb\<close> the
  string builder.
\<close>

partial_function (option) UnmarshalDomainTo ::
    "bytes \<Rightarrow> bytes \<Rightarrow> nat \<Rightarrow> string \<Rightarrow> (nat \<times> string) result option" where
  "UnmarshalDomainTo msg b idx sb =
     (if length (drop idx b) = 0 then Some (Inr (idx, sb))
      else if is_pointer (b ! idx) then
        (if length (drop idx b) < 2 then
           Some (Inl (ErrMsg ''UnmarshalDomainTo: not enough size for compressed domain''))
         else
           let offset = pointer_offset (b ! idx) (b ! (idx + 1)) in
           if offset > length msg then
             Some (Inl (ErrMsg ''UnmarshalDomainPointTo: offset larger than msg length''))
           else
             Option.bind (UnmarshalDomainTo msg (drop offset msg) 0 sb) (\<lambda>r.
               case r of
                 Inl e \<Rightarrow> Some (Inl e)
               | Inr p \<Rightarrow> Some (Inr (idx + 2, snd p))))
      else
        let size = unat (b ! idx); idx1 = idx + 1 in
        if size = 0 then Some (Inr (idx1, sb))
        else if size > 63 then Some (Inl (ErrMsg ''UnmarshalDomainTo: label size larger than 63''))
        else if idx1 + size > length b then
          Some (Inl (ErrMsg ''UnmarshalDomainTo: label size larger than msg length''))
        else UnmarshalDomainTo msg b (idx1 + size) (append_label sb (take size (drop idx1 b))))"

declare UnmarshalDomainTo.simps [code]

text \<open>\<open>b[i:j]\<close> for a slice whose array continues with \<open>spare\<close>.\<close>

definition slice_cap :: "bytes \<Rightarrow> bytes \<Rightarrow> nat \<Rightarrow> nat \<Rightarrow> bytes option" where
  "slice_cap b spare i j =
     (if i \<le> j \<and> j \<le> length b + length spare then Some (take (j - i) (drop i (b @ spare))) else None)"

definition UnmarshalQuestion :: "bytes \<Rightarrow> bytes \<Rightarrow> bytes \<Rightarrow> (question \<times> nat) result option" where
  "UnmarshalQuestion msg spare b =
     (if length b \<le> 5 then Some (Inl (ErrMsg ''UnmarshalQuestion: not enough data''))
      else
        Option.bind (UnmarshalDomainTo msg b 0 []) (\<lambda>r.
          case r of
            Inl e \<Rightarrow> Some (Inl e)
          | Inr (idx, name) \<Rightarrow>
              (case (slice_cap b spare idx (idx + 2), slice_cap b spare (idx + 2) (idx + 4)) of
                 (Some [t0, t1], Some [c0, c1]) \<Rightarrow>
                   Some (Inr (\<lparr>QNAME = name, QTYPE = be16 t0 t1, QCLASS = be16 c0 c1\<rparr>, idx + 3 + 1))
               | _ \<Rightarrow> Some (Inl (Panic ''slice bounds out of range'')))))"

text \<open>The address of an A or AAAA record: \<open>RDATA[:4]\<close> and \<open>RDATA[:16]\<close> may reach past
  \<open>RDLENGTH\<close> into whatever follows in the array.\<close>

definition rr_ip :: "u16 \<Rightarrow> bytes \<Rightarrow> addr result" where
  "rr_ip t tail =
     (if t = QTypeA then
        (if length tail < 4 then Inl (Panic ''slice bounds out of range'') else Inr (Addr4 (take 4 tail)))
      else if t = QTypeAAAA then
        (if length tail < 16 then Inl (Panic ''slice bounds out of range'') else Inr (Addr6 (take 16 tail) []))
      else Inr NoAddr)"

definition UnmarshalRR :: "bytes \<Rightarrow> bytes \<Rightarrow> nat \<Rightarrow> (rr \<times> nat) result option" where
  "UnmarshalRR msg spare start =
     (if start > length msg then Some (Inl (Panic ''slice bounds out of range''))
      else
        let p = drop start msg in
        Option.bind (UnmarshalDomainTo msg p 0 []) (\<lambda>r.
          case r of
            Inl e \<Rightarrow> Some (Inl e)
          | Inr (n, name) \<Rightarrow>
              if length p \<le> n + 10 then Some (Inl (ErrMsg ''UnmarshalRR: not enough data''))
              else
                let ty = be16 (p ! n) (p ! (n + 1));
                    cl = be16 (p ! (n + 2)) (p ! (n + 3));
                    ttl = be32 (p ! (n + 4)) (p ! (n + 5)) (p ! (n + 6)) (p ! (n + 7));
                    rdl = be16 (p ! (n + 8)) (p ! (n + 9))
                in if length p < n + 10 + unat rdl then
                     Some (Inl (ErrMsg ''UnmarshalRR: not enough data for RDATA''))
                   else
                     (case rr_ip ty (drop (n + 10) p @ spare) of
                        Inl e \<Rightarrow> Some (Inl e)
                      | Inr ip \<Rightarrow>
                          Some (Inr (\<lparr>NAME = name, RTYPE = ty, CLASS = cl, TTL = ttl, RDLENGTH = rdl,
                                      RDATA = take (unat rdl) (drop (n + 10) p), IP = ip\<rparr>,
                                     n + 10 + unat rdl)))))"

fun unmarshal_answers :: "bytes \<Rightarrow> bytes \<Rightarrow> nat \<Rightarrow> nat \<Rightarrow> rr list \<Rightarrow> rr list result option" where
  "unmarshal_answers msg spare 0 idx acc = Some (Inr acc)"
| "unmarshal_answers msg spare (Suc k) idx acc =
     Option.bind (UnmarshalRR msg spare idx) (\<lambda>r.
       case r of
         Inl e \<Rightarrow> Some (Inl e)
       | Inr (a, len) \<Rightarrow> unmarshal_answers msg spare k (idx + len) (acc @ [a]))"

definition UnmarshalMessage :: "bytes \<Rightarrow> bytes \<Rightarrow> message result option" where
  "UnmarshalMessage spare b =
     (if length b < HeaderLen then Some (Inl (ErrMsg ''UnmarshalMessage: not enough data''))
      else
        case UnmarshalHeader (take HeaderLen b) of
          Inl e \<Rightarrow> Some (Inl e)
        | Inr h \<Rightarrow>
            Option.bind (UnmarshalQuestion b spare (drop HeaderLen b)) (\<lambda>r.
              case r of
                Inl e \<Rightarrow> Some (Inl e)
              | Inr (q, qLen) \<Rightarrow>
                  Option.bind (unmarshal_answers b spare (unat (ANCOUNT h)) (HeaderLen + qLen) []) (\<lambda>r2.
                    case r2 of
                      Inl e \<Rightarrow> Some (Inl e)
                    | Inr as \<Rightarrow>
                        Some (Inr \<lparr>Header = SetAncount (length as) (SetQdcount 1 h),
                                   Question = q, Answers = as\<rparr>))))"

section \<open>Specification vocabulary\<close>

definition wf_label :: "string \<Rightarrow> bool" where
  "wf_label l = (0 < length l \<and> length l \<le> 63)"

definition wf_name :: "string \<Rightarrow> bool" where
  "wf_name s = list_all wf_label (split_on CHR ''.'' s)"

text \<open>The address a decoder reports for a record, and the records and messages whose fields fit
  their wire format: names made of labels of 1 to 63 bytes, \<open>RDLENGTH\<close> the length of a
  non-empty \<open>RDATA\<close>, which is long enough for the address of an A or AAAA record.\<close>

definition rr_addr :: "rr \<Rightarrow> addr" where
  "rr_addr r = (if RTYPE r = QTypeA then Addr4 (take 4 (RDATA r))
     else if RTYPE r = QTypeAAAA then Addr6 (take 16 (RDATA r)) [] else NoAddr)"

definition wf_rr :: "rr \<Rightarrow> bool" where
  "wf_rr r = (wf_name (NAME r) \<and> RDLENGTH r = of_nat (length (RDATA r)) \<and>
     0 < length (RDATA r) \<and> length (RDATA r) < 65536 \<and>
     (RTYPE r = QTypeA \<longrightarrow> 4 \<le> length (RDATA r)) \<and>
     (RTYPE r = QTypeAAAA \<longrightarrow> 16 \<le> length (RDATA r)))"

definition wf_message :: "message \<Rightarrow> bool" where
  "wf_message m = (wf_name (QNAME (Question m)) \<and> list_all wf_rr (Answers m) \<and>
     length (Answers m) < 65536)"

definition append_labels :: "string \<Rightarrow> string list \<Rightarrow> string" where
  "append_labels sb ls = foldl (\<lambda>s l. append_label s (str_bytes l)) sb ls"

section \<open>Lemmas\<close>

lemma is_pointer_large: "is_pointer x \<Longrightarrow> 192 \<le> unat x"
proof -
  assume "is_pointer x"
  then have "(192::byte) \<le> x" unfolding is_pointer_def by (metis word_and_le2)
  then show ?thesis by (simp add: word_le_nat_alt)
qed

lemma not_pointer_size: "n \<le> 63 \<Longrightarrow> \<not> is_pointer (of_nat n)"
  using is_pointer_large [of "of_nat n"] by (auto simp: unat_of_nat)

lemma unat_size: "n \<le> 63 \<Longrightarrow> unat (of_nat n :: byte) = n"
  by (simp add: unat_of_nat)

lemma unmarshal_labels:
  "list_all wf_label ls \<Longrightarrow>
   UnmarshalDomainTo msg (pre @ concat (map marshal_label ls) @ 0 # rest) (length pre) sb =
     Some (Inr (length pre + length (concat (map marshal_label ls)) + 1, append_labels sb ls))"
proof (induction ls arbitrary: pre sb)
  case Nil
  have "\<not> is_pointer 0" by (simp add: is_pointer_def)
  then show ?case
    by (subst UnmarshalDomainTo.simps) (simp add: append_labels_def)
next
  case (Cons l ls)
  let ?b = "pre @ concat (map marshal_label (l # ls)) @ 0 # rest"
  let ?pre = "pre @ marshal_label l"
  have l: "0 < length l" "length l \<le> 63" using Cons.prems by (auto simp: wf_label_def)
  have nth: "?b ! length pre = of_nat (length l)"
    by (simp add: nth_append marshal_label_def)
  have tk: "take (length l) (drop (length pre + 1) ?b) = str_bytes l"
    by (simp add: marshal_label_def)
  have len: "length (drop (length pre) ?b) \<noteq> 0" by simp
  have "UnmarshalDomainTo msg ?b (length pre) sb =
      UnmarshalDomainTo msg ?b (length pre + 1 + length l) (append_label sb (str_bytes l))"
    by (subst UnmarshalDomainTo.simps)
      (use l nth tk len in \<open>simp add: not_pointer_size unat_size Let_def marshal_label_def del: drop_append length_drop\<close>)
  also have "\<dots> = UnmarshalDomainTo msg (?pre @ concat (map marshal_label ls) @ 0 # rest) (length ?pre)
      (append_label sb (str_bytes l))"
    by (simp add: marshal_label_def)
  also have "\<dots> = Some (Inr (length ?pre + length (concat (map marshal_label ls)) + 1,
      append_labels (append_label sb (str_bytes l)) ls))"
    using Cons.prems by (intro Cons.IH) simp
  finally show ?case by (simp add: append_labels_def)
qed

lemma append_labels_nonempty:
  "sb \<noteq> [] \<Longrightarrow> append_labels sb ls = join_with ''.'' (sb # ls)"
proof (induction ls arbitrary: sb)
  case (Cons l ls)
  have "append_labels sb (l # ls) = append_labels (sb @ ''.'' @ l) ls"
    using Cons.prems by (simp add: append_labels_def append_label_def)
  also have "\<dots> = join_with ''.'' ((sb @ ''.'' @ l) # ls)" by (rule Cons.IH) simp
  also have "\<dots> = join_with ''.'' (sb # l # ls)" by (cases ls) simp_all
  finally show ?case .
qed (simp add: append_labels_def)

lemma append_labels_Nil: "list_all wf_label ls \<Longrightarrow> append_labels [] ls = join_with ''.'' ls"
proof (cases ls)
  case (Cons a list)
  assume "list_all wf_label ls"
  then have "a \<noteq> []" using Cons by (auto simp: wf_label_def)
  moreover have "append_labels [] ls = append_labels a list"
    using Cons by (simp add: append_labels_def append_label_def)
  ultimately show ?thesis using Cons append_labels_nonempty by simp
qed (simp add: append_labels_def)

lemma UnmarshalDomain_Marshal:
  assumes "wf_name s"
  shows "UnmarshalDomainTo msg (MarshalDomainTo s @ rest) 0 [] =
     Some (Inr (length (MarshalDomainTo s), s))"
proof -
  have "list_all wf_label (split_on CHR ''.'' s)" using assms by (simp add: wf_name_def)
  from unmarshal_labels [OF this, of msg "[]" rest "[]"] append_labels_Nil [OF this]
  show ?thesis by (simp add: MarshalDomainTo_def join_split)
qed

lemma MarshalDomain_length: "wf_name s \<Longrightarrow> 3 \<le> length (MarshalDomainTo s)"
proof -
  assume "wf_name s"
  moreover obtain a ls where "split_on CHR ''.'' s = a # ls"
    by (cases "split_on CHR ''.'' s") auto
  ultimately have "split_on CHR ''.'' s = a # ls" "0 < length a"
    by (auto simp: wf_name_def wf_label_def)
  then show ?thesis by (cases a) (simp_all add: MarshalDomainTo_def marshal_label_def)
qed

lemma UnmarshalQuestion_Marshal:
  assumes "wf_name (QNAME q)"
  shows "UnmarshalQuestion msg spare (Question_MarshalTo q @ rest) = Some (Inr (q, length (Question_MarshalTo q)))"
proof -
  let ?d = "MarshalDomainTo (QNAME q)"
  let ?b = "?d @ put16 (QTYPE q) @ put16 (QCLASS q) @ rest"
  have u: "UnmarshalDomainTo msg ?b 0 [] = Some (Inr (length ?d, QNAME q))"
    by (rule UnmarshalDomain_Marshal [OF assms])
  have s: "slice_cap ?b spare (length ?d) (length ?d + 2) = Some (put16 (QTYPE q))"
    "slice_cap ?b spare (length ?d + 2) (length ?d + 4) = Some (put16 (QCLASS q))"
    by (simp_all add: slice_cap_def put16_def)
  have "5 < length ?b" using MarshalDomain_length [OF assms] by simp
  then show ?thesis
    using u s by (simp add: UnmarshalQuestion_def Question_MarshalTo_def put16_def)
qed

lemma RR_tail:
  "drop (length d + 10) (d @ put16 a @ put16 b @ put32 c @ put16 l @ x) = x"
  by (simp add: put16_def put32_def)

lemma UnmarshalRR_Marshal:
  assumes "wf_rr r" "start \<le> length msg" "drop start msg = RR_MarshalTo r @ rest"
  shows "UnmarshalRR msg spare start = Some (Inr (r\<lparr>IP := rr_addr r\<rparr>, length (RR_MarshalTo r)))"
proof -
  let ?d = "MarshalDomainTo (NAME r)"
  let ?t = "put16 (RTYPE r) @ put16 (CLASS r) @ put32 (TTL r) @ put16 (RDLENGTH r) @ RDATA r @ rest"
  define p where "p = ?d @ ?t"
  have p: "drop start msg = p" using assms(3) by (simp add: p_def RR_MarshalTo_def)
  have u: "UnmarshalDomainTo msg p 0 [] = Some (Inr (length ?d, NAME r))"
    unfolding p_def using assms(1) by (intro UnmarshalDomain_Marshal) (simp add: wf_rr_def)
  have idx: "p ! (length ?d + k) = ?t ! k" for k by (simp add: p_def nth_append)
  have idx0: "p ! (length ?d) = ?t ! 0" using idx [of 0] by simp
  have w: "0 < length (RDATA r)" "unat (RDLENGTH r) = length (RDATA r)"
    using assms(1) by (auto simp: wf_rr_def unat_of_nat)
  have dr: "drop (length ?d + 10) p = RDATA r @ rest"
    unfolding p_def by (rule RR_tail)
  have len: "length p = length ?d + 10 + length (RDATA r) + length rest"
    by (simp add: p_def)
  have ip: "rr_ip (RTYPE r) (RDATA r @ rest @ spare) = Inr (rr_addr r)"
    using assms(1) by (auto simp: wf_rr_def rr_ip_def rr_addr_def)
  have f: "be16 (p ! length ?d) (p ! (length ?d + 1)) = RTYPE r"
    "be16 (p ! (length ?d + 2)) (p ! (length ?d + 3)) = CLASS r"
    "be32 (p ! (length ?d + 4)) (p ! (length ?d + 5)) (p ! (length ?d + 6)) (p ! (length ?d + 7)) = TTL r"
    "be16 (p ! (length ?d + 8)) (p ! (length ?d + 9)) = RDLENGTH r"
    unfolding idx idx0 by (simp_all add: put16_def put32_def)
  have "UnmarshalRR msg spare start = Some (Inr (\<lparr>NAME = NAME r, RTYPE = RTYPE r, CLASS = CLASS r, TTL = TTL r,
      RDLENGTH = RDLENGTH r, RDATA = RDATA r, IP = rr_addr r\<rparr>, length ?d + 10 + length (RDATA r)))"
    using assms(2) u w ip len f by (simp add: UnmarshalRR_def p Let_def dr)
  then show ?thesis
    by (simp add: RR_MarshalTo_def)
qed

lemma unmarshal_answers_Marshal:
  "list_all wf_rr rs \<Longrightarrow> idx \<le> length msg \<Longrightarrow> drop idx msg = concat (map RR_MarshalTo rs) \<Longrightarrow>
   unmarshal_answers msg spare (length rs) idx acc =
     Some (Inr (acc @ map (\<lambda>r. r\<lparr>IP := rr_addr r\<rparr>) rs))"
proof (induction rs arbitrary: idx acc)
  case (Cons r rs)
  let ?n = "length (RR_MarshalTo r)"
  have d: "drop (idx + ?n) msg = concat (map RR_MarshalTo rs)"
  proof -
    have "drop (idx + ?n) msg = drop ?n (drop idx msg)" by (simp add: add.commute)
    with Cons.prems(3) show ?thesis by simp
  qed
  have l: "idx + ?n \<le> length msg"
    using arg_cong [OF Cons.prems(3), of length] Cons.prems(2) by simp
  have "UnmarshalRR msg spare idx = Some (Inr (r\<lparr>IP := rr_addr r\<rparr>, ?n))"
    using Cons.prems by (intro UnmarshalRR_Marshal) auto
  then show ?case using Cons.IH [OF _ l d] Cons.prems(1) by simp
qed simp

lemma UnmarshalHeader_Marshal: "UnmarshalHeader (Header_MarshalTo h) = Inr h"
  by (simp add: UnmarshalHeader_def Header_MarshalTo_def HeaderLen_def put16_def)

lemma Header_MarshalTo_length [simp]: "length (Header_MarshalTo h) = 12"
  by (simp add: Header_MarshalTo_def)

lemma marshal_header_idem [simp]:
  "SetAncount (length (Answers m)) (SetQdcount (Suc 0) (marshal_header m)) = marshal_header m"
  by (simp add: marshal_header_def SetAncount_def SetQdcount_def)

lemma UnmarshalMessage_Marshal:
  assumes "wf_message m"
  shows "UnmarshalMessage spare (MarshalTo m) =
     Some (Inr \<lparr>Header = marshal_header m, Question = Question m,
       Answers = map (\<lambda>r. r\<lparr>IP := rr_addr r\<rparr>) (Answers m)\<rparr>)"
proof -
  let ?b = "MarshalTo m" and ?q = "Question_MarshalTo (Question m)"
  have len: "\<not> length ?b < HeaderLen" by (simp add: MarshalTo_def HeaderLen_def)
  have h: "UnmarshalHeader (take HeaderLen ?b) = Inr (marshal_header m)"
    by (simp add: MarshalTo_def HeaderLen_def UnmarshalHeader_Marshal)
  have q: "UnmarshalQuestion ?b spare (drop HeaderLen ?b) = Some (Inr (Question m, length ?q))"
    using assms by (simp add: MarshalTo_def HeaderLen_def UnmarshalQuestion_Marshal wf_message_def)
  have n: "unat (ANCOUNT (marshal_header m)) = length (Answers m)"
    using assms by (simp add: marshal_header_def SetAncount_def wf_message_def unat_of_nat)
  have a: "unmarshal_answers ?b spare (length (Answers m)) (HeaderLen + length ?q) [] =
      Some (Inr ([] @ map (\<lambda>r. r\<lparr>IP := rr_addr r\<rparr>) (Answers m)))"
    using assms by (intro unmarshal_answers_Marshal)
      (simp_all add: MarshalTo_def HeaderLen_def wf_message_def)
  show ?thesis
    using len h q n a by (simp add: UnmarshalMessage_def)
qed

lemma pointer_loop_diverges:
  assumes "14 \<le> length msg" "msg ! 12 = 192" "msg ! 13 = 12"
  shows "UnmarshalDomainTo msg (drop 12 msg) 0 sb = None"
proof (rule ccontr)
  have b: "drop 12 msg = 192 # 12 # drop 14 msg"
    using assms Cons_nth_drop_Suc [of 12 msg] Cons_nth_drop_Suc [of 13 msg] by simp
  have p: "is_pointer 192" "pointer_offset 192 12 = 12"
    by (simp_all add: is_pointer_def pointer_offset_def be16_def)
  assume "UnmarshalDomainTo msg (drop 12 msg) 0 sb \<noteq> None"
  then obtain r where r: "UnmarshalDomainTo msg (drop 12 msg) 0 sb = Some r" by blast
  have "\<not> (msg = msg \<and> drop 12 msg = drop 12 msg \<and> 0 = (0::nat))"
  proof (rule UnmarshalDomainTo.raw_induct [where P = "\<lambda>m b i s r. \<not> (m = msg \<and> b = drop 12 msg \<and> i = 0)",
        OF _ r], goal_cases)
    case (1 f m c i s r)
    show ?case
    proof
      assume a: "m = msg \<and> c = drop 12 msg \<and> i = 0"
      obtain r' where "f msg (drop 12 msg) 0 s = Some r'"
        using 1(2) a p assms(1) by (auto simp: b Let_def bind_eq_Some_conv)
      with 1(1) show False by blast
    qed
  qed
  then show False by simp
qed

lemma pointer_expands:
  assumes "wf_name s" "is_pointer b0" "pointer_offset b0 b1 \<le> length msg"
    "drop (pointer_offset b0 b1) msg = MarshalDomainTo s @ rest"
  shows "UnmarshalDomainTo msg (b0 # b1 # r) 0 [] = Some (Inr (2, s))"
  using assms UnmarshalDomain_Marshal [OF assms(1), of msg rest]
  by (subst UnmarshalDomainTo.simps) (simp add: Let_def)

section \<open>Properties\<close>

text \<open>Property C3. Encoding and decoding are inverse: a well-formed message (one question, answers
  with uncompressed names) that went through \<open>MarshalTo\<close> is decoded, whatever the buffer
  holds behind it, to the same question and the same answers, with the counts of the header
  set and the addresses of A and AAAA records filled in.\<close>

theorem dns_message_roundtrip:
  assumes "wf_message m"
  shows "UnmarshalMessage spare (MarshalTo m) =
     Some (Inr \<lparr>Header = marshal_header m, Question = Question m,
       Answers = map (\<lambda>r. r\<lparr>IP := rr_addr r\<rparr>) (Answers m)\<rparr>)"
  using assms by (rule UnmarshalMessage_Marshal)

theorem dns_message_roundtrip_witness:
  "\<exists>m. Answers m \<noteq> [] \<and> UnmarshalMessage [] (MarshalTo m) =
     Some (Inr \<lparr>Header = marshal_header m, Question = Question m,
       Answers = map (\<lambda>r. r\<lparr>IP := rr_addr r\<rparr>) (Answers m)\<rparr>)"
proof -
  let ?r = "\<lparr>NAME = ''a.bc'', RTYPE = 1, CLASS = 1, TTL = 300, RDLENGTH = 4, RDATA = [1, 2, 3, 4],
    IP = NoAddr\<rparr>"
  let ?m = "AddAnswer ?r (SetQuestion (NewQuestion 1 ''a.bc'') (NewMessage 7 0 ResponseMsg))"
  have "wf_message ?m"
    by (simp add: wf_message_def wf_rr_def wf_name_def wf_label_def AddAnswer_def SetQuestion_def
        NewQuestion_def NewMessage_def QTypeA_def QTypeAAAA_def)
  moreover have "Answers ?m \<noteq> []" by (simp add: AddAnswer_def)
  ultimately show ?thesis using dns_message_roundtrip by blast
qed

text \<open>A compressed name is expanded: where the two bytes of a pointer lead to an
  uncompressed name of the message, the decoder returns that name and consumes exactly the
  two bytes.\<close>

lemma dns_pointer_expanded:
  assumes "wf_name s" "is_pointer b0" "pointer_offset b0 b1 \<le> length msg"
    and "drop (pointer_offset b0 b1) msg = MarshalDomainTo s @ rest"
  shows "UnmarshalDomainTo msg (b0 # b1 # following) 0 [] = Some (Inr (2, s))"
  using assms by (rule pointer_expands)

lemma dns_pointer_expanded_witness:
  "UnmarshalDomainTo (replicate 12 0 @ MarshalDomainTo ''a.bc'') [192, 12, 0, 1] 0 [] =
     Some (Inr (2, ''a.bc''))"
proof -
  have "wf_name ''a.bc''" by (simp add: wf_name_def wf_label_def)
  moreover have "is_pointer 192" "pointer_offset 192 12 = 12"
    by (simp_all add: is_pointer_def pointer_offset_def be16_def)
  ultimately show ?thesis
    using dns_pointer_expanded [of "''a.bc''" 192 12 "replicate 12 0 @ MarshalDomainTo ''a.bc''" "[]" "[0, 1]"]
    by simp
qed

text \<open>Property C37. A pointer to itself is never detected: on any message whose question name is
  a pointer to its own position the decoder recurses for ever, so \<open>UnmarshalMessage\<close> does not
  return (in Go the stack overflows and the process ends), whatever the rest of the message is.\<close>

theorem dns_pointer_loop_diverges:
  assumes "18 \<le> length msg" "msg ! 12 = 192" "msg ! 13 = 12"
  shows "UnmarshalMessage spare msg = None"
proof -
  have "UnmarshalDomainTo msg (drop 12 msg) 0 [] = None"
    using assms by (intro pointer_loop_diverges) auto
  then show ?thesis
    using assms(1) by (simp add: UnmarshalMessage_def UnmarshalQuestion_def UnmarshalHeader_def HeaderLen_def)
qed

theorem dns_pointer_loop_diverges_witness:
  "UnmarshalMessage [] (replicate 12 0 @ [192, 12, 0, 1, 0, 1]) = None"
  by (rule dns_pointer_loop_diverges) (simp_all add: nth_append)

text \<open>A truncated question makes the decoder panic: 32 bytes that fill their buffer
  exactly (as a DNS request over TCP with length 32 does) and end inside the question, right
  after a label, index the slice out of range.\<close>

lemma dns_truncated_question_panics:
  "UnmarshalMessage [] (replicate 12 0 @ 19 # replicate 19 97) = Some (Inl (Panic ''slice bounds out of range''))"
proof -
  let ?b = "19 # replicate 19 97 :: bytes"
  have a: "\<not> is_pointer 19" by (simp add: is_pointer_def)
  have "UnmarshalDomainTo msg ?b 0 [] = UnmarshalDomainTo msg ?b 20 (append_label [] (replicate 19 97))" for msg
    by (subst UnmarshalDomainTo.simps) (simp add: a Let_def)
  also have "UnmarshalDomainTo msg ?b 20 sb = Some (Inr (20, sb))" for msg sb
    by (subst UnmarshalDomainTo.simps) simp
  finally show ?thesis
    by (simp add: UnmarshalMessage_def UnmarshalHeader_def UnmarshalQuestion_def HeaderLen_def slice_cap_def)
qed

end
