(* ===== verification/Dns_Cache.thy ===== *)
theory Dns_Cache
  imports Go_Prelude
begin

text \<open>
  The file \<open>dns/cache.go\<close>: a cache of DNS answers that is a doubly linked list of items in
  order of last use, a map from keys to items, and a second map for entries that never
  expire.  The list is modelled with the pointers the code has: items live in a heap, \<open>prev\<close>,
  \<open>next\<close>, \<open>head\<close> and \<open>tail\<close> are addresses or nil, every assignment of the source is one
  update, and a step through a nil pointer gives \<open>None\<close> (the run-time panic).

  The abstract cache is a list of keys, values and expiry times, most recently used first.
  The lemmas show that the pointer program never panics, keeps its invariant and does
  exactly what the abstract cache does; the locale \<open>ttl_cache\<close> states what the DNS
  client needs and is interpreted on the pointer program.
\<close>

section \<open>Definitions\<close>

type_synonym ptr = "nat option"

record item =
  it_key :: string
  it_val :: bytes
  it_exp :: int
  it_prev :: ptr
  it_next :: ptr

type_synonym heap = "nat \<rightharpoonup> item"

text \<open>\<open>fresh\<close> is the next address the allocator returns.\<close>

record lru =
  c_size :: int
  c_head :: ptr
  c_tail :: ptr
  c_cache :: "string \<rightharpoonup> nat"
  c_store :: "string \<rightharpoonup> bytes"
  c_heap :: heap
  c_fresh :: nat

text \<open>\<open>p.next = v\<close> and \<open>p.prev = v\<close>.\<close>

definition set_next :: "ptr \<Rightarrow> ptr \<Rightarrow> heap \<Rightarrow> heap option" where
  "set_next p v h =
     Option.bind p (\<lambda>a. Option.bind (h a) (\<lambda>it. Some (h(a \<mapsto> it\<lparr>it_next := v\<rparr>))))"

definition set_prev :: "ptr \<Rightarrow> ptr \<Rightarrow> heap \<Rightarrow> heap option" where
  "set_prev p v h =
     Option.bind p (\<lambda>a. Option.bind (h a) (\<lambda>it. Some (h(a \<mapsto> it\<lparr>it_prev := v\<rparr>))))"

definition deref :: "ptr \<Rightarrow> heap \<Rightarrow> item option" where
  "deref p h = Option.bind p h"

definition NewLruCache :: "int \<Rightarrow> lru" where
  "NewLruCache n =
     \<lparr>c_size = n, c_head = Some 0, c_tail = Some 1,
      c_cache = [''head'' \<mapsto> 0, ''tail'' \<mapsto> 1], c_store = Map.empty,
      c_heap = [0 \<mapsto> \<lparr>it_key = ''head'', it_val = [], it_exp = 0, it_prev = None, it_next = Some 1\<rparr>,
              1 \<mapsto> \<lparr>it_key = ''tail'', it_val = [], it_exp = 0, it_prev = Some 0, it_next = None\<rparr>],
      c_fresh = 2\<rparr>"

text \<open>The last four assignments of \<open>moveToHead\<close>.\<close>

definition link_head :: "nat \<Rightarrow> heap \<Rightarrow> lru \<Rightarrow> lru option" where
  "link_head a h c =
     Option.bind (set_prev (Some a) None h) (\<lambda>h1.
     Option.bind (set_next (Some a) (c_head c) h1) (\<lambda>h2.
     Option.bind (set_prev (c_head c) (Some a) h2) (\<lambda>h3.
     Some (c\<lparr>c_heap := h3, c_head := Some a\<rparr>))))"

definition moveToHead :: "nat \<Rightarrow> lru \<Rightarrow> lru option" where
  "moveToHead a c =
     (if Some a \<noteq> c_head c then
        Option.bind (c_heap c a) (\<lambda>it.
        if c_tail c = Some a then
          Option.bind (set_next (it_prev it) None (c_heap c)) (\<lambda>h.
          link_head a h (c\<lparr>c_tail := it_prev it\<rparr>))
        else
          Option.bind (set_next (it_prev it) (it_next it) (c_heap c)) (\<lambda>h1.
          Option.bind (h1 a) (\<lambda>it1.
          Option.bind (set_prev (it_next it1) (it_prev it1) h1) (\<lambda>h2.
          link_head a h2 c))))
      else Some c)"

definition putToHead :: "string \<Rightarrow> bytes \<Rightarrow> int \<Rightarrow> lru \<Rightarrow> lru option" where
  "putToHead k v e c =
     (let a = c_fresh c;
          h = (c_heap c)(a \<mapsto> \<lparr>it_key = k, it_val = v, it_exp = e, it_prev = None, it_next = c_head c\<rparr>)
      in Option.bind (set_prev (c_head c) (Some a) h) (\<lambda>h1.
         Some (c\<lparr>c_heap := h1, c_head := Some a, c_cache := (c_cache c)(k \<mapsto> a), c_fresh := a + 1\<rparr>)))"

definition removeTail :: "lru \<Rightarrow> lru option" where
  "removeTail c =
     Option.bind (deref (c_tail c) (c_heap c)) (\<lambda>t.
     Option.bind (set_next (it_prev t) None (c_heap c)) (\<lambda>h.
     Some (c\<lparr>c_cache := (c_cache c)(it_key t := None), c_heap := h, c_tail := it_prev t\<rparr>)))"

text \<open>\<open>Get\<close> at time \<open>now\<close> (seconds): the value (nil, that is empty, when the key is unknown) and
  whether it is expired.\<close>

definition lru_Get :: "int \<Rightarrow> string \<Rightarrow> lru \<Rightarrow> ((bytes \<times> bool) \<times> lru) option" where
  "lru_Get now k c =
     (case c_store c k of
        Some v \<Rightarrow> Some ((v, False), c)
      | None \<Rightarrow>
          (case c_cache c k of
             None \<Rightarrow> Some (([], False), c)
           | Some a \<Rightarrow>
               Option.bind (c_heap c a) (\<lambda>it.
               Option.bind (moveToHead a c) (\<lambda>c'.
               Some ((it_val it, it_exp it < now), c')))))"

definition lru_Set :: "int \<Rightarrow> string \<Rightarrow> bytes \<Rightarrow> int \<Rightarrow> lru \<Rightarrow> lru option" where
  "lru_Set now k v ttl c =
     (if ttl = 0 then Some (c\<lparr>c_store := (c_store c)(k \<mapsto> v)\<rparr>)
      else
        let e = now + ttl in
        case c_cache c k of
          Some a \<Rightarrow>
            Option.bind (c_heap c a) (\<lambda>it.
            moveToHead a (c\<lparr>c_heap := (c_heap c)(a \<mapsto> it\<lparr>it_val := v, it_exp := e\<rparr>)\<rparr>))
        | None \<Rightarrow>
            Option.bind (putToHead k v e c) (\<lambda>c1.
            if int (card (dom (c_cache c1))) > c_size c1 then removeTail c1 else Some c1))"

section \<open>The abstract cache\<close>

type_synonym entry = "string \<times> bytes \<times> int"

definition find_entry :: "string \<Rightarrow> entry list \<Rightarrow> (bytes \<times> int) option" where
  "find_entry k es = map_of es k"

definition touch :: "string \<Rightarrow> entry list \<Rightarrow> entry list" where
  "touch k es = filter (\<lambda>e. fst e = k) es @ filter (\<lambda>e. fst e \<noteq> k) es"

record acache =
  a_size :: int
  a_store :: "string \<rightharpoonup> bytes"
  a_list :: "entry list"

definition a_Get :: "int \<Rightarrow> string \<Rightarrow> acache \<Rightarrow> (bytes \<times> bool) \<times> acache" where
  "a_Get now k A =
     (case a_store A k of
        Some v \<Rightarrow> ((v, False), A)
      | None \<Rightarrow>
          (case find_entry k (a_list A) of
             None \<Rightarrow> (([], False), A)
           | Some (v, e) \<Rightarrow> ((v, e < now), A\<lparr>a_list := touch k (a_list A)\<rparr>)))"

definition a_Set :: "int \<Rightarrow> string \<Rightarrow> bytes \<Rightarrow> int \<Rightarrow> acache \<Rightarrow> acache" where
  "a_Set now k v ttl A =
     (if ttl = 0 then A\<lparr>a_store := (a_store A)(k \<mapsto> v)\<rparr>
      else if find_entry k (a_list A) \<noteq> None then
        A\<lparr>a_list := (k, v, now + ttl) # filter (\<lambda>e. fst e \<noteq> k) (a_list A)\<rparr>
      else
        let es = (k, v, now + ttl) # a_list A in
        A\<lparr>a_list := (if int (length es) > a_size A then butlast es else es)\<rparr>)"

section \<open>Abstraction and invariant\<close>

text \<open>\<open>links h p xs q\<close>: the addresses \<open>xs\<close> are linked both ways, the first one's \<open>prev\<close> is \<open>p\<close> and
  the last one's \<open>next\<close> is \<open>q\<close>.\<close>

fun links :: "heap \<Rightarrow> ptr \<Rightarrow> nat list \<Rightarrow> ptr \<Rightarrow> bool" where
  "links h p [] q = True"
| "links h p (a # as) q =
     (case h a of
        None \<Rightarrow> False
      | Some it \<Rightarrow> it_prev it = p \<and> it_next it = (if as = [] then q else Some (hd as)) \<and> links h (Some a) as q)"

definition entry_of :: "heap \<Rightarrow> nat \<Rightarrow> entry" where
  "entry_of h a = (case h a of Some it \<Rightarrow> (it_key it, it_val it, it_exp it) | None \<Rightarrow> ([], [], 0))"

text \<open>\<open>represents c xs\<close>: the cache's list is the addresses \<open>xs\<close>.\<close>

definition represents :: "lru \<Rightarrow> nat list \<Rightarrow> bool" where
  "represents c xs \<longleftrightarrow>
     2 \<le> length xs \<and> distinct xs \<and> links (c_heap c) None xs None \<and>
     c_head c = Some (hd xs) \<and> c_tail c = Some (last xs) \<and>
     (\<forall>a\<in>set xs. a < c_fresh c) \<and>
     distinct (map (\<lambda>a. fst (entry_of (c_heap c) a)) xs) \<and>
     c_cache c = map_of (map (\<lambda>a. (fst (entry_of (c_heap c) a), a)) xs)"

definition abs_cache :: "lru \<Rightarrow> nat list \<Rightarrow> acache" where
  "abs_cache c xs = \<lparr>a_size = c_size c, a_store = c_store c, a_list = map (entry_of (c_heap c)) xs\<rparr>"

definition lru_inv :: "lru \<Rightarrow> bool" where
  "lru_inv c \<longleftrightarrow> (\<exists>xs. represents c xs \<and> int (length xs) \<le> max 2 (c_size c))"

section \<open>Sequences of operations and observations\<close>

datatype cache_op = OpGet int string | OpSet int string bytes int

fun op_key :: "cache_op \<Rightarrow> string" where
  "op_key (OpGet now k) = k"
| "op_key (OpSet now k v ttl) = k"

fun run_ops :: "cache_op list \<Rightarrow> lru \<Rightarrow> ((bytes \<times> bool) list \<times> lru) option" where
  "run_ops [] c = Some ([], c)"
| "run_ops (OpGet now k # ops) c =
     Option.bind (lru_Get now k c) (\<lambda>(r, c1). map_option (apfst ((#) r)) (run_ops ops c1))"
| "run_ops (OpSet now k v ttl # ops) c = Option.bind (lru_Set now k v ttl c) (run_ops ops)"

fun a_run_ops :: "cache_op list \<Rightarrow> acache \<Rightarrow> (bytes \<times> bool) list \<times> acache" where
  "a_run_ops [] A = ([], A)"
| "a_run_ops (OpGet now k # ops) A =
     apfst ((#) (fst (a_Get now k A))) (a_run_ops ops (snd (a_Get now k A)))"
| "a_run_ops (OpSet now k v ttl # ops) A = a_run_ops ops (a_Set now k v ttl A)"

definition a_new :: "int \<Rightarrow> acache" where
  "a_new n = \<lparr>a_size = n, a_store = Map.empty, a_list = [(''head'', [], 0), (''tail'', [], 0)]\<rparr>"

definition a_wf :: "acache \<Rightarrow> bool" where
  "a_wf A \<longleftrightarrow> distinct (map fst (a_list A)) \<and> 2 \<le> length (a_list A) \<and>
     int (length (a_list A)) \<le> max 2 (a_size A)"

text \<open>\<open>recent k T A\<close>: the entries used more recently than \<open>k\<close> have their keys in \<open>T\<close>.\<close>

definition recent :: "string \<Rightarrow> bytes \<Rightarrow> int \<Rightarrow> string set \<Rightarrow> acache \<Rightarrow> bool" where
  "recent k v e T A \<longleftrightarrow> a_wf A \<and> a_store A k = None \<and> find_entry k (a_list A) = Some (v, e) \<and>
     fst ` set (takeWhile (\<lambda>x. fst x \<noteq> k) (a_list A)) \<subseteq> T"

definition lru_look :: "lru \<Rightarrow> string \<Rightarrow> (bytes \<times> int option) option" where
  "lru_look c k =
     (case c_store c k of
        Some v \<Rightarrow> Some (v, None)
      | None \<Rightarrow> (case c_cache c k of None \<Rightarrow> None
                 | Some a \<Rightarrow> map_option (\<lambda>it. (it_val it, Some (it_exp it))) (c_heap c a)))"

definition a_look :: "acache \<Rightarrow> string \<Rightarrow> (bytes \<times> int option) option" where
  "a_look A k =
     (case a_store A k of
        Some v \<Rightarrow> Some (v, None)
      | None \<Rightarrow> map_option (apsnd Some) (find_entry k (a_list A)))"

section \<open>Lemmas on the linked list\<close>

lemma links_append:
  "links h p (xs @ ys) q \<longleftrightarrow>
     links h p xs (if ys = [] then q else Some (hd ys)) \<and>
     links h (if xs = [] then p else Some (last xs)) ys q"
proof (induction xs arbitrary: p)
  case (Cons a xs)
  then show ?case by (cases xs) (auto split: option.splits)
qed simp

lemma links_cong:
  assumes "\<And>a. a \<in> set xs \<Longrightarrow> h a = h' a"
  shows "links h p xs q = links h' p xs q"
  using assms by (induction xs arbitrary: p) (auto split: option.splits)

lemma links_frame [simp]: "a \<notin> set xs \<Longrightarrow> links (h(a := v)) p xs q = links h p xs q"
  by (rule links_cong) auto

lemma entry_of_upd [simp]:
  "h a = Some it \<Longrightarrow> entry_of (h(a \<mapsto> it\<lparr>it_next := v\<rparr>)) = entry_of h"
  "h a = Some it \<Longrightarrow> entry_of (h(a \<mapsto> it\<lparr>it_prev := v\<rparr>)) = entry_of h"
  by (auto simp: entry_of_def fun_eq_iff)

lemma links_set_last:
  assumes "links h p ys q" "ys \<noteq> []" "distinct ys"
  shows "\<exists>h'. set_next (Some (last ys)) q' h = Some h' \<and> links h' p ys q' \<and>
           (\<forall>b. b \<noteq> last ys \<longrightarrow> h' b = h b) \<and> entry_of h' = entry_of h"
proof -
  define zs where "zs = butlast ys"
  define a where "a = last ys"
  have ys: "ys = zs @ [a]" using assms(2) by (simp add: zs_def a_def)
  from assms(1) ys obtain it where it: "h a = Some it" "it_prev it = (if zs = [] then p else Some (last zs))"
      "links h p zs (Some a)"
    by (auto simp: links_append split: option.splits)
  have "a \<notin> set zs" using assms(3) ys by simp
  then have "links (h(a \<mapsto> it\<lparr>it_next := q'\<rparr>)) p zs (Some a)"
    using it(3) by simp
  then show ?thesis using it by (auto simp: set_next_def ys links_append)
qed

lemma links_set_first:
  assumes "links h p ys q" "ys \<noteq> []" "distinct ys"
  shows "\<exists>h'. set_prev (Some (hd ys)) p' h = Some h' \<and> links h' p' ys q \<and>
           (\<forall>b. b \<noteq> hd ys \<longrightarrow> h' b = h b) \<and> entry_of h' = entry_of h"
proof -
  obtain a zs where ys: "ys = a # zs" using assms(2) by (cases ys) auto
  from assms(1) ys obtain it where it: "h a = Some it" "it_next it = (if zs = [] then q else Some (hd zs))"
      "links h (Some a) zs q"
    by (auto split: option.splits)
  have "a \<notin> set zs" using assms(3) ys by simp
  then have "links (h(a \<mapsto> it\<lparr>it_prev := p'\<rparr>)) (Some a) zs q"
    using it(3) by simp
  then show ?thesis using it by (auto simp: set_prev_def ys)
qed

lemma unlink_links:
  assumes "links h None (ys @ a # zs) None" "distinct (ys @ a # zs)" "ys \<noteq> []" "zs \<noteq> []"
  shows "\<exists>h1 h2. set_next (Some (last ys)) (Some (hd zs)) h = Some h1 \<and>
           set_prev (Some (hd zs)) (Some (last ys)) h1 = Some h2 \<and> h1 a = h a \<and> h2 a = h a \<and>
           links h2 None (ys @ zs) None \<and> entry_of h2 = entry_of h"
proof -
  from assms have l: "links h None ys (Some a)" "links h (Some a) zs None"
    by (auto simp: links_append split: option.splits)
  obtain h1 where h1: "set_next (Some (last ys)) (Some (hd zs)) h = Some h1" "links h1 None ys (Some (hd zs))"
      "\<And>b. b \<noteq> last ys \<Longrightarrow> h1 b = h b" "entry_of h1 = entry_of h"
    using links_set_last[OF l(1), of "Some (hd zs)"] assms by auto
  have ly: "last ys \<in> set ys" using assms(3) by simp
  have hz: "hd zs \<in> set zs" using assms(4) by simp
  have "b \<in> set zs \<Longrightarrow> h1 b = h b" for b using h1(3)[of b] ly assms(2) by auto
  then have "links h1 (Some a) zs None" using l(2) links_cong[of zs h1 h] by blast
  then obtain h2 where h2: "set_prev (Some (hd zs)) (Some (last ys)) h1 = Some h2" "links h2 (Some (last ys)) zs None"
      "\<And>b. b \<noteq> hd zs \<Longrightarrow> h2 b = h1 b" "entry_of h2 = entry_of h1"
    using links_set_first[of h1 "Some a" zs None "Some (last ys)"] assms by auto
  have "b \<in> set ys \<Longrightarrow> h2 b = h1 b" for b using h2(3)[of b] hz assms(2) by auto
  then have "links h2 None ys (Some (hd zs))" using h1(2) links_cong[of ys h2 h1] by blast
  then have "links h2 None (ys @ zs) None" using h2(2) assms by (simp add: links_append)
  moreover have "h1 a = h a" using h1(3)[of a] ly assms(2) by auto
  moreover have "h2 a = h1 a" using h2(3)[of a] hz assms(2) by auto
  ultimately show ?thesis using h1 h2 by auto
qed

lemma link_head_links:
  assumes "links h None xs None" "distinct (a # xs)" "xs \<noteq> []" "h a = Some it" "c_head c = Some (hd xs)"
  shows "\<exists>h'. link_head a h c = Some (c\<lparr>c_heap := h', c_head := Some a\<rparr>) \<and>
           links h' None (a # xs) None \<and> entry_of h' = entry_of h"
proof -
  define h2 where "h2 = h(a \<mapsto> it\<lparr>it_prev := None, it_next := Some (hd xs)\<rparr>)"
  have e: "entry_of h2 = entry_of h" using assms(4) by (auto simp: h2_def entry_of_def fun_eq_iff)
  have "links h2 None xs None"
    using assms(1,2) by (simp add: h2_def)
  then obtain h3 where h3: "set_prev (Some (hd xs)) (Some a) h2 = Some h3" "links h3 (Some a) xs None"
      "\<And>b. b \<noteq> hd xs \<Longrightarrow> h3 b = h2 b" "entry_of h3 = entry_of h2"
    using links_set_first[of h2 None xs None "Some a"] assms by auto
  have "a \<noteq> hd xs" using assms(2,3) by (cases xs) auto
  then have "h3 a = Some (it\<lparr>it_prev := None, it_next := Some (hd xs)\<rparr>)" using h3(3) by (simp add: h2_def)
  then have "links h3 None (a # xs) None" using h3(2) assms(3) by simp
  moreover have "link_head a h c = Some (c\<lparr>c_heap := h3, c_head := Some a\<rparr>)"
    using assms(4,5) h3(1) \<open>a \<noteq> hd xs\<close>
    by (cases "h (hd xs)") (auto simp: link_head_def set_prev_def set_next_def h2_def)
  ultimately show ?thesis using e h3(4) by metis
qed

lemma links_item:
  assumes "links h p (ys @ a # zs) q"
  obtains it where "h a = Some it" "it_prev it = (if ys = [] then p else Some (last ys))"
    "it_next it = (if zs = [] then q else Some (hd zs))"
  using assms by (auto simp: links_append split: option.splits)

lemma moveToHead_links:
  assumes "links (c_heap c) None (ys @ a # zs) None" "distinct (ys @ a # zs)"
    "c_head c = Some (hd (ys @ a # zs))" "c_tail c = Some (last (ys @ a # zs))" "ys \<noteq> []"
  shows "\<exists>h'. moveToHead a c = Some (c\<lparr>c_heap := h', c_head := Some a, c_tail := Some (last (ys @ zs))\<rparr>) \<and>
           links h' None (a # ys @ zs) None \<and> entry_of h' = entry_of (c_heap c)"
proof -
  obtain it where it: "c_heap c a = Some it" "it_prev it = Some (last ys)"
      "it_next it = (if zs = [] then None else Some (hd zs))"
    using links_item[OF assms(1)] assms(5) by metis
  have hd: "c_head c = Some (hd ys)" "a \<noteq> hd ys" using assms(2,3,5) by (cases ys; auto)+
  show ?thesis
  proof (cases "zs = []")
    case True
    from assms(1) True have "links (c_heap c) None ys (Some a)" by (simp add: links_append)
    then obtain h where h: "set_next (Some (last ys)) None (c_heap c) = Some h" "links h None ys None"
        "\<And>b. b \<noteq> last ys \<Longrightarrow> h b = c_heap c b" "entry_of h = entry_of (c_heap c)"
      using links_set_last[of "c_heap c" None ys "Some a" None] assms(2,5) by auto
    have "a \<noteq> last ys" using assms(2,5) by (metis append_eq_conv_conj distinct_append disjoint_iff last_in_set list.set_intros(1))
    then have "h a = Some it" using h(3) it(1) by simp
    then obtain h' where "link_head a h (c\<lparr>c_tail := Some (last ys)\<rparr>) =
        Some (c\<lparr>c_tail := Some (last ys), c_heap := h', c_head := Some a\<rparr>)"
        "links h' None (a # ys) None" "entry_of h' = entry_of h"
      using link_head_links[OF h(2), of a it "c\<lparr>c_tail := Some (last ys)\<rparr>"] assms(2,5) hd True by auto
    moreover have "c\<lparr>c_tail := Some (last ys), c_heap := h', c_head := Some a\<rparr> =
        c\<lparr>c_heap := h', c_head := Some a, c_tail := Some (last ys)\<rparr>" by simp
    moreover have "moveToHead a c = link_head a h (c\<lparr>c_tail := Some (last ys)\<rparr>)"
      using True hd it h(1) assms(4) by (simp add: moveToHead_def)
    ultimately show ?thesis using True h(4) by (metis append_Nil2)
  next
    case False
    obtain h1 h2 where h: "set_next (Some (last ys)) (Some (hd zs)) (c_heap c) = Some h1"
           "set_prev (Some (hd zs)) (Some (last ys)) h1 = Some h2" "h1 a = c_heap c a" "h2 a = c_heap c a"
           "links h2 None (ys @ zs) None" "entry_of h2 = entry_of (c_heap c)"
      using unlink_links[OF assms(1,2,5) False] by auto
    have "h2 a = Some it" using h(4) it(1) by simp
    have "last zs \<noteq> a" using assms(2) False last_in_set[OF False] by auto
    obtain h' where "link_head a h2 c = Some (c\<lparr>c_heap := h', c_head := Some a\<rparr>)"
        "links h' None (a # ys @ zs) None" "entry_of h' = entry_of h2"
      using link_head_links[OF h(5) _ _ \<open>h2 a = Some it\<close>, of c] assms(2,5) hd by auto
    moreover have "c\<lparr>c_heap := h', c_head := Some a, c_tail := Some (last (ys @ zs))\<rparr> =
        c\<lparr>c_heap := h', c_head := Some a\<rparr>"
      using assms(4) False by simp
    moreover have "moveToHead a c = link_head a h2 c"
      using False hd it h assms(4) \<open>last zs \<noteq> a\<close> by (simp add: moveToHead_def)
    ultimately show ?thesis using h(6) by metis
  qed
qed

text \<open>The three list operations keep the representation.\<close>

lemma represents_heap_keys:
  assumes "represents c xs" "links h' None ys None" "entry_of h' = entry_of (c_heap c)"
    "distinct ys" "set ys = set xs" "length ys = length xs"
  shows "represents (c\<lparr>c_heap := h', c_head := Some (hd ys), c_tail := Some (last ys)\<rparr>) ys"
proof -
  let ?k = "\<lambda>a. fst (entry_of (c_heap c) a)"
  have "inj_on ?k (set xs)" using assms(1) by (simp add: represents_def distinct_map)
  then have "distinct (map ?k ys)" using assms by (simp add: distinct_map)
  moreover have "map_of (map (\<lambda>a. (?k a, a)) ys) = map_of (map (\<lambda>a. (?k a, a)) xs)"
    using assms(1,5) calculation by (subst map_of_inject_set) (auto simp: represents_def comp_def)
  ultimately show ?thesis using assms by (simp add: represents_def)
qed


lemma moveToHead_represents:
  assumes "represents c xs" "a \<in> set xs"
  shows "\<exists>c'. moveToHead a c = Some c' \<and> represents c' (a # filter (\<lambda>b. b \<noteq> a) xs) \<and>
           entry_of (c_heap c') = entry_of (c_heap c) \<and> c_size c' = c_size c \<and> c_store c' = c_store c"
proof -
  from assms(2) obtain ys zs where xs: "xs = ys @ a # zs" by (auto dest: split_list)
  have d: "distinct (ys @ a # zs)" using assms(1) xs by (simp add: represents_def)
  then have na: "\<forall>b\<in>set ys. b \<noteq> a" "\<forall>b\<in>set zs. b \<noteq> a" by auto
  then have f: "filter (\<lambda>b. b \<noteq> a) xs = ys @ zs" by (simp add: xs filter_id_conv)
  show ?thesis
  proof (cases "ys = []")
    case True
    then show ?thesis using assms(1) f by (simp add: moveToHead_def represents_def xs)
  next
    case False
    obtain h' where h': "moveToHead a c = Some (c\<lparr>c_heap := h', c_head := Some a, c_tail := Some (last (ys @ zs))\<rparr>)"
        "links h' None (a # ys @ zs) None" "entry_of h' = entry_of (c_heap c)"
      using moveToHead_links[of c ys a zs] assms(1) d False by (auto simp: represents_def xs)
    have "represents (c\<lparr>c_heap := h', c_head := Some a, c_tail := Some (last (ys @ zs))\<rparr>) (a # ys @ zs)"
      using represents_heap_keys[OF assms(1) h'(2,3)] d False by (simp add: xs insert_commute)
    then show ?thesis using h' f by simp
  qed
qed

lemma putToHead_represents:
  assumes "represents c xs" "c_cache c k = None"
  shows "\<exists>c'. putToHead k v e c = Some c' \<and> represents c' (c_fresh c # xs) \<and> c_size c' = c_size c \<and>
           c_store c' = c_store c \<and>
           map (entry_of (c_heap c')) (c_fresh c # xs) = (k, v, e) # map (entry_of (c_heap c)) xs"
proof -
  let ?a = "c_fresh c"
  let ?it = "\<lparr>it_key = k, it_val = v, it_exp = e, it_prev = None, it_next = c_head c\<rparr>"
  let ?h = "(c_heap c)(?a \<mapsto> ?it)"
  from assms(1) have xs: "xs \<noteq> []" "distinct xs" "links (c_heap c) None xs None" "?a \<notin> set xs"
      "c_head c = Some (hd xs)"
    by (auto simp: represents_def)
  then have "links ?h None xs None" by simp
  then obtain h1 where h1: "set_prev (Some (hd xs)) (Some ?a) ?h = Some h1" "links h1 (Some ?a) xs None"
      "\<And>b. b \<noteq> hd xs \<Longrightarrow> h1 b = ?h b" "entry_of h1 = entry_of ?h"
    using links_set_first[of ?h None xs None "Some ?a"] xs by auto
  have "?a \<noteq> hd xs" using xs by (metis hd_in_set)
  then have l: "links h1 None (?a # xs) None" using h1(2) h1(3)[of ?a] xs by simp
  have e: "entry_of h1 ?a = (k, v, e)" "\<And>b. b \<in> set xs \<Longrightarrow> entry_of h1 b = entry_of (c_heap c) b"
    using xs(4) by (auto simp: h1(4) entry_of_def)
  have m: "map (entry_of h1) xs = map (entry_of (c_heap c)) xs"
      "map (\<lambda>a. (fst (entry_of h1 a), a)) xs = map (\<lambda>a. (fst (entry_of (c_heap c) a), a)) xs"
      "map (\<lambda>a. fst (entry_of h1 a)) xs = map (\<lambda>a. fst (entry_of (c_heap c) a)) xs"
    using e(2) by auto
  have k: "k \<notin> set (map (\<lambda>a. fst (entry_of (c_heap c) a)) xs)"
    using assms by (auto simp: represents_def map_of_eq_None_iff image_iff)
  have "putToHead k v e c =
      Some (c\<lparr>c_heap := h1, c_head := Some ?a, c_cache := (c_cache c)(k \<mapsto> ?a), c_fresh := ?a + 1\<rparr>)"
    using h1(1) xs(5) by (simp add: putToHead_def Let_def)
  moreover have "represents (c\<lparr>c_heap := h1, c_head := Some ?a, c_cache := (c_cache c)(k \<mapsto> ?a), c_fresh := ?a + 1\<rparr>) (?a # xs)"
    using assms(1) l k e(1) xs(1,4) by (simp add: represents_def less_Suc_eq m del: links.simps)
  ultimately show ?thesis using e(1) m(1) by auto
qed

lemma map_of_remove_last:
  "k \<notin> fst ` set ps \<Longrightarrow> (map_of (ps @ [(k, v)]))(k := None) = map_of ps"
  by (rule ext) (auto simp: map_add_def map_of_eq_None_iff[symmetric] split: option.splits)

lemma removeTail_represents:
  assumes "represents c xs" "3 \<le> length xs"
  shows "\<exists>c'. removeTail c = Some c' \<and> represents c' (butlast xs) \<and> c_size c' = c_size c \<and>
           c_store c' = c_store c \<and> entry_of (c_heap c') = entry_of (c_heap c)"
proof -
  define ys t where "ys = butlast xs" and "t = last xs"
  have "xs \<noteq> []" using assms(2) by auto
  then have xs: "xs = ys @ [t]" by (simp add: ys_def t_def)
  then have y: "2 \<le> length ys" "ys \<noteq> []" using assms(2) by auto
  from assms(1) xs have l: "links (c_heap c) None (ys @ [t]) None" "distinct ys" "t \<notin> set ys"
      "c_tail c = Some t" "c_head c = Some (hd ys)" "\<forall>a\<in>set ys. a < c_fresh c"
      "distinct (map (\<lambda>a. fst (entry_of (c_heap c) a)) (ys @ [t]))"
      "c_cache c = map_of (map (\<lambda>a. (fst (entry_of (c_heap c) a), a)) (ys @ [t]))"
    using y by (auto simp: represents_def)
  obtain it where it: "c_heap c t = Some it" "it_prev it = Some (last ys)"
    using links_item[OF l(1)] y by auto
  obtain h where h: "set_next (Some (last ys)) None (c_heap c) = Some h" "links h None ys None"
      "entry_of h = entry_of (c_heap c)"
    using links_set_last[of "c_heap c" None ys "Some t" None] l(1,2) y by (auto simp: links_append)
  have "removeTail c = Some (c\<lparr>c_cache := (c_cache c)(it_key it := None), c_heap := h, c_tail := Some (last ys)\<rparr>)"
    using l(4) it h(1) by (simp add: removeTail_def deref_def)
  moreover have kt: "it_key it = fst (entry_of (c_heap c) t)" using it(1) by (simp add: entry_of_def)
  have "(c_cache c)(it_key it := None) = map_of (map (\<lambda>a. (fst (entry_of (c_heap c) a), a)) ys)"
    using l(7) map_of_remove_last[of "it_key it" "map (\<lambda>a. (fst (entry_of (c_heap c) a), a)) ys" t]
    by (auto simp: l(8) kt image_iff)
  ultimately show ?thesis using l h y by (auto simp: represents_def ys_def[symmetric])
qed


lemma NewLruCache_represents: "represents (NewLruCache n) [0, 1]"
  by (simp add: represents_def NewLruCache_def entry_of_def fun_eq_iff)

lemma represents_lookup:
  assumes "represents c xs"
  shows "c_cache c k = Some a \<longleftrightarrow> a \<in> set xs \<and> fst (entry_of (c_heap c) a) = k"
  using assms by (auto simp: represents_def comp_def)

lemma represents_card: "represents c xs \<Longrightarrow> card (dom (c_cache c)) = length xs"
  by (auto simp: represents_def dom_map_of_conv_image_fst image_image distinct_map card_image distinct_card)

lemma represents_find:
  assumes "represents c xs"
  shows "find_entry k (map (entry_of (c_heap c)) xs) =
           (case c_cache c k of None \<Rightarrow> None | Some a \<Rightarrow> Some (snd (entry_of (c_heap c) a)))"
proof (cases "c_cache c k")
  case None
  then have "fst (entry_of (c_heap c) a) \<noteq> k" if "a \<in> set xs" for a
    using that represents_lookup[OF assms, of k a] by simp
  then have "k \<notin> fst ` set (map (entry_of (c_heap c)) xs)" by (metis (no_types, lifting) image_iff list.set_map)
  then show ?thesis using None by (simp add: find_entry_def map_of_eq_None_iff)
next
  case (Some a)
  then have "(k, snd (entry_of (c_heap c) a)) \<in> set (map (entry_of (c_heap c)) xs)"
    using represents_lookup[OF assms] by (auto simp: image_iff)
  moreover have "distinct (map fst (map (entry_of (c_heap c)) xs))"
    using assms by (simp add: represents_def comp_def)
  ultimately show ?thesis using Some by (simp add: find_entry_def del: map_map)
qed

lemma represents_filter:
  assumes "represents c xs" "c_cache c k = Some a"
  shows "filter (\<lambda>e. fst e \<noteq> k) (map (entry_of (c_heap c)) xs) = map (entry_of (c_heap c)) (filter (\<lambda>b. b \<noteq> a) xs)"
    "filter (\<lambda>e. fst e = k) (map (entry_of (c_heap c)) xs) = [entry_of (c_heap c) a]"
proof -
  have "fst (entry_of (c_heap c) b) = k \<longleftrightarrow> b = a" if "b \<in> set xs" for b
    using that assms(2) represents_lookup[OF assms(1), of k b] represents_lookup[OF assms(1), of k a] by auto
  then have f: "filter (\<lambda>b. fst (entry_of (c_heap c) b) \<noteq> k) xs = filter (\<lambda>b. b \<noteq> a) xs"
      "filter (\<lambda>b. fst (entry_of (c_heap c) b) = k) xs = filter (\<lambda>b. b = a) xs"
    by (auto intro: filter_cong)
  have "distinct xs" "a \<in> set xs"
    using assms represents_lookup[OF assms(1), of k a] by (auto simp: represents_def)
  then have "filter (\<lambda>b. b = a) xs = [a]" by (induction xs) (auto simp: filter_empty_conv)
  then show "filter (\<lambda>e. fst e \<noteq> k) (map (entry_of (c_heap c)) xs) = map (entry_of (c_heap c)) (filter (\<lambda>b. b \<noteq> a) xs)"
      "filter (\<lambda>e. fst e = k) (map (entry_of (c_heap c)) xs) = [entry_of (c_heap c) a]"
    using f by (auto simp: filter_map comp_def)
qed

text \<open>Both operations do what the abstract cache does, without a nil pointer on the way.\<close>

lemma lru_Get_refines:
  assumes "represents c xs"
  shows "\<exists>c' xs'. lru_Get now k c = Some (fst (a_Get now k (abs_cache c xs)), c') \<and> represents c' xs' \<and>
           abs_cache c' xs' = snd (a_Get now k (abs_cache c xs))"
proof (cases "c_store c k")
  case None
  show ?thesis
  proof (cases "c_cache c k")
    case (Some a)
    then have a: "a \<in> set xs" "fst (entry_of (c_heap c) a) = k" using represents_lookup[OF assms] by auto
    obtain c' where c': "moveToHead a c = Some c'" "represents c' (a # filter (\<lambda>b. b \<noteq> a) xs)"
        "entry_of (c_heap c') = entry_of (c_heap c)" "c_size c' = c_size c" "c_store c' = c_store c"
      using moveToHead_represents[OF assms a(1)] by blast
    obtain it where it: "c_heap c a = Some it"
      using links_item a(1) assms by (metis represents_def split_list)
    show ?thesis using c' it None Some represents_find[OF assms, of k] represents_filter[OF assms Some]
      by (auto simp: lru_Get_def a_Get_def abs_cache_def touch_def entry_of_def split: prod.splits
            intro!: exI[of _ "a # filter (\<lambda>b. b \<noteq> a) xs"])
  qed (use None represents_find[OF assms, of k] assms in \<open>auto simp: lru_Get_def a_Get_def abs_cache_def\<close>)
qed (use assms in \<open>auto simp: lru_Get_def a_Get_def abs_cache_def\<close>)


lemma represents_set_entry:
  assumes "represents c xs" "c_cache c k = Some a" "c_heap c a = Some it"
  shows "represents (c\<lparr>c_heap := (c_heap c)(a \<mapsto> it\<lparr>it_val := v, it_exp := e\<rparr>)\<rparr>) xs"
    "entry_of ((c_heap c)(a \<mapsto> it\<lparr>it_val := v, it_exp := e\<rparr>)) = (entry_of (c_heap c))(a := (k, v, e))"
proof -
  let ?h = "(c_heap c)(a \<mapsto> it\<lparr>it_val := v, it_exp := e\<rparr>)"
  have k: "it_key it = k" using represents_lookup[OF assms(1), of k a] assms(2,3) by (simp add: entry_of_def)
  show e: "entry_of ?h = (entry_of (c_heap c))(a := (k, v, e))"
    by (auto simp: entry_of_def fun_eq_iff k)
  have f: "fst (entry_of ?h b) = fst (entry_of (c_heap c) b)" for b
    using k assms(3) by (simp add: entry_of_def)
  have "links ?h p ys q = links (c_heap c) p ys q" for p ys q
    using assms(3) by (induction ys arbitrary: p) (auto split: option.splits)
  then show "represents (c\<lparr>c_heap := ?h\<rparr>) xs" using assms(1) f by (simp add: represents_def del: fun_upd_apply)
qed

lemma lru_Set_refines:
  assumes "represents c xs"
  shows "\<exists>c' xs'. lru_Set now k v ttl c = Some c' \<and> represents c' xs' \<and>
           abs_cache c' xs' = a_Set now k v ttl (abs_cache c xs)"
proof (cases "ttl = 0")
  case True
  have "represents (c\<lparr>c_store := (c_store c)(k \<mapsto> v)\<rparr>) xs" using assms by (simp add: represents_def)
  then show ?thesis using True by (auto simp: lru_Set_def a_Set_def abs_cache_def)
next
  case False
  show ?thesis
  proof (cases "c_cache c k")
    case (Some a)
    then have a: "a \<in> set xs" using represents_lookup[OF assms] by auto
    obtain it where it: "c_heap c a = Some it"
      using links_item a(1) assms by (metis represents_def split_list)
    let ?c = "c\<lparr>c_heap := (c_heap c)(a \<mapsto> it\<lparr>it_val := v, it_exp := now + ttl\<rparr>)\<rparr>"
    note r = represents_set_entry[OF assms Some it, where v = v and e = "now + ttl"]
    obtain c' where c': "moveToHead a ?c = Some c'" "represents c' (a # filter (\<lambda>b. b \<noteq> a) xs)"
        "entry_of (c_heap c') = entry_of (c_heap ?c)" "c_size c' = c_size c" "c_store c' = c_store c"
      using moveToHead_represents[OF r(1) a] by auto
    have "map ((entry_of (c_heap c))(a := (k, v, now + ttl))) (filter (\<lambda>b. b \<noteq> a) xs) =
        map (entry_of (c_heap c)) (filter (\<lambda>b. b \<noteq> a) xs)" by simp
    then have "abs_cache c' (a # filter (\<lambda>b. b \<noteq> a) xs) = a_Set now k v ttl (abs_cache c xs)"
      using c'(3-5) False Some represents_find[OF assms, of k] represents_filter(1)[OF assms Some]
      by (simp add: abs_cache_def a_Set_def r(2) del: fun_upd_apply) simp
    moreover have "lru_Set now k v ttl c = Some c'" using False Some it c'(1) by (simp add: lru_Set_def Let_def)
    ultimately show ?thesis using c'(2) by blast
  next
    case None
    from putToHead_represents[OF assms None, of v "now + ttl"]
    obtain c1 where c1: "putToHead k v (now + ttl) c = Some c1" "represents c1 (c_fresh c # xs)"
        "c_size c1 = c_size c" "c_store c1 = c_store c"
        "map (entry_of (c_heap c1)) (c_fresh c # xs) = (k, v, now + ttl) # map (entry_of (c_heap c)) xs"
      by (elim exE conjE)
    have f: "find_entry k (a_list (abs_cache c xs)) = None"
      using represents_find[OF assms, of k] None by (simp add: abs_cache_def)
    have n: "card (dom (c_cache c1)) = length (c_fresh c # xs)" using represents_card[OF c1(2)] .
    show ?thesis
    proof (cases "int (length (c_fresh c # xs)) > c_size c")
      case True
      have "3 \<le> length (c_fresh c # xs)" using assms by (simp add: represents_def)
      from removeTail_represents[OF c1(2) this] obtain c2 where c2: "removeTail c1 = Some c2"
          "represents c2 (butlast (c_fresh c # xs))" "c_size c2 = c_size c" "c_store c2 = c_store c"
          "entry_of (c_heap c2) = entry_of (c_heap c1)" using c1 by metis
      have "map (entry_of (c_heap c2)) (butlast (c_fresh c # xs)) =
          butlast ((k, v, now + ttl) # map (entry_of (c_heap c)) xs)"
        using c1(5) c2(5) by (metis map_butlast)
      then have "abs_cache c2 (butlast (c_fresh c # xs)) = a_Set now k v ttl (abs_cache c xs)"
        using True f \<open>ttl \<noteq> 0\<close> c2(3,4) by (simp add: a_Set_def abs_cache_def Let_def)
      moreover have "lru_Set now k v ttl c = Some c2"
        using False None c1(1,3) n True c2(1) by (simp add: lru_Set_def Let_def)
      ultimately show ?thesis using c2(2) by blast
    next
      case fits: False
      have "abs_cache c1 (c_fresh c # xs) = a_Set now k v ttl (abs_cache c xs)"
        using fits f \<open>ttl \<noteq> 0\<close> c1(3-5) by (simp add: a_Set_def abs_cache_def Let_def)
      moreover have "lru_Set now k v ttl c = Some c1"
        using False None c1(1,3) n fits by (simp add: lru_Set_def Let_def)
      ultimately show ?thesis using c1(2) by blast
    qed
  qed
qed


section \<open>Lemmas on sequences of operations\<close>

lemma run_ops_refines:
  assumes "represents c xs"
  shows "\<exists>c' xs'. run_ops ops c = Some (fst (a_run_ops ops (abs_cache c xs)), c') \<and> represents c' xs' \<and>
           abs_cache c' xs' = snd (a_run_ops ops (abs_cache c xs))"
  using assms
proof (induction ops c arbitrary: xs rule: run_ops.induct)
  case (2 now k ops c)
  obtain c1 xs1 where c1: "lru_Get now k c = Some (fst (a_Get now k (abs_cache c xs)), c1)" "represents c1 xs1"
      "abs_cache c1 xs1 = snd (a_Get now k (abs_cache c xs))"
    using lru_Get_refines[OF "2.prems"] by blast
  obtain c2 xs2 where "run_ops ops c1 = Some (fst (a_run_ops ops (abs_cache c1 xs1)), c2)" "represents c2 xs2"
      "abs_cache c2 xs2 = snd (a_run_ops ops (abs_cache c1 xs1))"
    using "2.IH"[OF _ _ c1(2)] c1(1) by (metis surj_pair)
  then show ?case using c1 by (auto simp: apfst_def map_prod_def split_beta)
next
  case (3 now k v ttl ops c)
  obtain c1 xs1 where c1: "lru_Set now k v ttl c = Some c1" "represents c1 xs1"
      "abs_cache c1 xs1 = a_Set now k v ttl (abs_cache c xs)"
    using lru_Set_refines[OF "3.prems"] by blast
  then show ?case using "3.IH"[OF c1(1,2)] by simp
qed auto


lemma length_remove_key:
  "distinct (map fst es) \<Longrightarrow> map_of es k = Some y \<Longrightarrow> Suc (length (filter (\<lambda>e. fst e \<noteq> k) es)) = length es"
proof (induction es)
  case (Cons e es)
  show ?case
  proof (cases "fst e = k")
    case True
    then have "filter (\<lambda>e. fst e \<noteq> k) es = es" using Cons.prems(1) by (auto simp: filter_id_conv image_iff)
    then show ?thesis using True by simp
  qed (use Cons in auto)
qed simp

lemma distinct_fst_filter: "distinct (map fst es) \<Longrightarrow> distinct (map fst (filter P es))"
  by (induction es) auto

lemma touch_length: "length (touch k es) = length es"
  by (simp add: touch_def sum_length_filter_compl)

lemma touch_set: "set (touch k es) = set es"
  by (auto simp: touch_def)

lemma touch_distinct: "distinct (map fst es) \<Longrightarrow> distinct (map fst (touch k es))"
  by (auto simp: touch_def distinct_fst_filter)

lemma a_Get_wf: "a_wf A \<Longrightarrow> a_wf (snd (a_Get now k A)) \<and> a_size (snd (a_Get now k A)) = a_size A"
  by (auto simp: a_wf_def a_Get_def touch_length touch_distinct split: option.splits)


lemma a_Set_wf:
  assumes "a_wf A"
  shows "a_wf (a_Set now k v ttl A) \<and> a_size (a_Set now k v ttl A) = a_size A"
proof (cases "ttl = 0 \<or> find_entry k (a_list A) = None")
  case True
  then show ?thesis using assms distinct_butlast[of "k # map fst (a_list A)"]
    by (auto simp: a_wf_def a_Set_def Let_def find_entry_def map_of_eq_None_iff map_butlast simp del: butlast.simps)
next
  case False
  then obtain y where y: "map_of (a_list A) k = Some y" "ttl \<noteq> 0" by (auto simp: find_entry_def)
  then have "Suc (length (filter (\<lambda>e. fst e \<noteq> k) (a_list A))) = length (a_list A)"
    using assms by (auto simp: a_wf_def intro: length_remove_key)
  then show ?thesis using assms y by (auto simp: a_wf_def a_Set_def find_entry_def distinct_fst_filter)
qed


lemma a_run_ops_wf: "a_wf A \<Longrightarrow> a_wf (snd (a_run_ops ops A)) \<and> a_size (snd (a_run_ops ops A)) = a_size A"
proof (induction ops A rule: a_run_ops.induct)
  case (2 now k ops A)
  then show ?case using a_Get_wf[of A now k] by auto
next
  case (3 now k v ttl ops A)
  then show ?case using a_Set_wf[of A now k v ttl] by auto
qed simp

lemma set_takeWhile_filter:
  "(\<And>x. \<not> P x \<Longrightarrow> Q x) \<Longrightarrow> set (takeWhile P (filter Q xs)) \<subseteq> set (takeWhile P xs)"
  by (induction xs) auto

lemma set_takeWhile_butlast: "set (takeWhile P (butlast xs)) \<subseteq> set (takeWhile P xs)"
  by (induction xs) auto

lemma map_of_filter_key: "k \<noteq> k' \<Longrightarrow> map_of (filter (\<lambda>e. fst e \<noteq> k') es) k = map_of es k"
  by (induction es) auto

lemma map_of_filter_other: "k \<noteq> k' \<Longrightarrow> map_of (filter (\<lambda>e. fst e = k') es) k = None"
  by (induction es) auto

lemma map_of_filter_same: "map_of (filter (\<lambda>e. fst e = k) es) k = map_of es k"
  by (induction es) auto

lemma map_of_filter_neq: "map_of (filter (\<lambda>e. fst e \<noteq> k) es) k = None"
  by (induction es) auto

lemma find_touch [simp]: "find_entry k (touch k' es) = find_entry k es"
  by (cases "k = k'")
    (auto simp: find_entry_def touch_def map_add_def map_of_filter_key map_of_filter_other map_of_filter_same
       map_of_filter_neq split: option.splits)

lemma map_of_butlast:
  assumes "distinct (map fst es)" "map_of es k = Some y" "length (takeWhile (\<lambda>x. fst x \<noteq> k) es) < length es - 1"
  shows "map_of (butlast es) k = Some y"
  using assms by (induction es) (auto split: if_splits)

lemma takeWhile_length_card:
  assumes "distinct (map fst es)" "fst ` set (takeWhile P es) \<subseteq> T" "finite T"
  shows "length (takeWhile P es) \<le> card T"
proof -
  have "distinct (map fst (takeWhile P es @ dropWhile P es))"
    using assms(1) unfolding takeWhile_dropWhile_id .
  then have "distinct (map fst (takeWhile P es))" unfolding map_append distinct_append by blast
  then have "length (takeWhile P es) = card (fst ` set (takeWhile P es))"
    using distinct_card[of "map fst (takeWhile P es)"] by simp
  also have "\<dots> \<le> card T" using assms by (auto intro: card_mono)
  finally show ?thesis .
qed

lemma recent_Get:
  assumes "recent k v e T A" "k' \<in> insert k T"
  shows "recent k v e T (snd (a_Get now k' A))"
proof -
  let ?P = "\<lambda>x. fst x \<noteq> k"
  have "fst ` set (takeWhile ?P (touch k' (a_list A))) \<subseteq> T"
  proof (cases "k' = k")
    case True
    have "filter (\<lambda>x. fst x = k) (a_list A) \<noteq> []"
      using assms(1) by (force simp: recent_def find_entry_def filter_empty_conv dest: map_of_SomeD)
    then obtain y ys where f: "filter (\<lambda>x. fst x = k) (a_list A) = y # ys" by (cases "filter (\<lambda>x. fst x = k) (a_list A)") auto
    then have "fst y = k" using filter_eq_ConsD by fastforce
    then show ?thesis by (simp add: touch_def True f)
  next
    case False
    then have "takeWhile ?P (touch k' (a_list A)) =
        filter (\<lambda>x. fst x = k') (a_list A) @ takeWhile ?P (filter (\<lambda>x. fst x \<noteq> k') (a_list A))"
      by (simp add: touch_def takeWhile_append)
    moreover have "set (takeWhile ?P (filter (\<lambda>x. fst x \<noteq> k') (a_list A))) \<subseteq> set (takeWhile ?P (a_list A))"
      using False by (intro set_takeWhile_filter) auto
    ultimately show ?thesis using assms False by (auto simp: recent_def)
  qed
  then show ?thesis using assms(1) a_Get_wf[of A now k']
    by (auto simp: recent_def a_Get_def split: option.splits)
qed

lemma recent_Set:
  assumes "recent k v e T A" "k' \<in> T" "k \<notin> T" "finite T" "int (card T) < a_size A"
  shows "recent k v e T (a_Set now k' v' ttl A)"
proof -
  let ?P = "\<lambda>x. fst x \<noteq> k"
  let ?A = "a_Set now k' v' ttl A"
  have ne: "k' \<noteq> k" using assms(2,3) by auto
  have "a_store ?A k = None" using assms(1) ne by (auto simp: recent_def a_Set_def Let_def)
  moreover have "find_entry k (a_list ?A) = Some (v, e) \<and> fst ` set (takeWhile ?P (a_list ?A)) \<subseteq> T"
  proof (cases "ttl = 0 \<or> find_entry k' (a_list A) \<noteq> None")
    case True
    have "set (takeWhile ?P (filter (\<lambda>x. fst x \<noteq> k') (a_list A))) \<subseteq> set (takeWhile ?P (a_list A))"
      using ne by (intro set_takeWhile_filter) auto
    then show ?thesis using True assms(1,2) ne
      by (auto simp: recent_def a_Set_def find_entry_def map_of_filter_key)
  next
    case False
    let ?es = "(k', v', now + ttl) # a_list A"
    have tw: "fst ` set (takeWhile ?P ?es) \<subseteq> T" using assms(1,2) ne by (auto simp: recent_def)
    show ?thesis
    proof (cases "int (length ?es) > a_size A")
      case True
      have d: "distinct (map fst ?es)"
        using assms(1) False by (auto simp: recent_def a_wf_def find_entry_def map_of_eq_None_iff)
      have "length (takeWhile ?P ?es) < length ?es - 1"
        using takeWhile_length_card[OF d tw assms(4)] assms(5) True by linarith
      then have "find_entry k (butlast ?es) = Some (v, e)"
        using map_of_butlast[OF d, of k "(v, e)"] assms(1) ne by (auto simp: recent_def find_entry_def)
      moreover have "fst ` set (takeWhile ?P (butlast ?es)) \<subseteq> T"
        using tw set_takeWhile_butlast[of ?P ?es] by blast
      moreover have "a_list ?A = butlast ?es"
        using False True by (simp add: a_Set_def del: butlast.simps)
      ultimately show ?thesis by metis
    next
      case fits: False
      then show ?thesis using False tw assms(1) ne by (auto simp: a_Set_def recent_def find_entry_def)
    qed
  qed
  ultimately show ?thesis using a_Set_wf[of A now k' v' ttl] assms(1) by (simp add: recent_def)
qed


lemma recent_run_ops:
  assumes "recent k v e T A" "\<forall>x\<in>set ops. op_key x \<in> insert k T" "\<forall>t w l. OpSet t k w l \<notin> set ops"
    "k \<notin> T" "finite T" "int (card T) < a_size A"
  shows "recent k v e T (snd (a_run_ops ops A))"
  using assms
proof (induction ops A rule: a_run_ops.induct)
  case (2 now k' ops A)
  then show ?case using recent_Get[of k v e T A k' now] a_Get_wf[of A now k'] by (auto simp: recent_def)
next
  case (3 now k' w ttl ops A)
  have "k' \<in> T" using "3.prems"(2,3) by auto
  then have "recent k v e T (a_Set now k' w ttl A)"
    using "3.prems" by (intro recent_Set) auto
  then show ?case using "3.IH" "3.prems" a_Set_wf[of A now k' w ttl] by (auto simp: recent_def)
qed simp


section \<open>What the DNS client needs of a cache\<close>

text \<open>\<open>look c k\<close> is the value under \<open>k\<close> with its expiry time, \<open>None\<close> for an entry that never
  expires.\<close>

locale ttl_cache =
  fixes inv :: "'c \<Rightarrow> bool"
    and look :: "'c \<Rightarrow> string \<Rightarrow> (bytes \<times> int option) option"
    and get :: "int \<Rightarrow> string \<Rightarrow> 'c \<Rightarrow> ((bytes \<times> bool) \<times> 'c) option"
    and put :: "int \<Rightarrow> string \<Rightarrow> bytes \<Rightarrow> int \<Rightarrow> 'c \<Rightarrow> 'c option"
  assumes get_law: "inv c \<Longrightarrow> \<exists>c'. get now k c = Some
      ((case look c k of None \<Rightarrow> ([], False) | Some (v, None) \<Rightarrow> (v, False) | Some (v, Some e) \<Rightarrow> (v, e < now)), c')
      \<and> inv c' \<and> look c' = look c"
    and put_law: "inv c \<Longrightarrow> \<exists>c'. put now k v ttl c = Some c' \<and> inv c' \<and>
      look c' k = (if ttl = 0 then Some (v, None)
                   else case look c k of Some (w, None) \<Rightarrow> Some (w, None) | _ \<Rightarrow> Some (v, Some (now + ttl))) \<and>
      (\<forall>k'. k' \<noteq> k \<longrightarrow> look c' k' = look c k' \<or> ttl \<noteq> 0 \<and> look c' k' = None \<and> (\<exists>w e. look c k' = Some (w, Some e)))"
begin

lemma get_after_put:
  assumes "inv c" "ttl \<noteq> 0" "\<nexists>w. look c k = Some (w, None)" "put now k v ttl c = Some c1"
  shows "\<exists>c2. get now' k c1 = Some ((v, now + ttl < now'), c2) \<and> inv c2"
proof -
  have "inv c1" "look c1 k = Some (v, Some (now + ttl))"
    using put_law[OF assms(1), of now k v ttl] assms by (auto split: option.splits)
  then show ?thesis using get_law[of c1 now' k] by auto
qed

lemma pinned_get:
  assumes "inv c" "look c k = Some (v, None)" "get now k' c = Some (r, c1)"
  shows "inv c1 \<and> look c1 k = Some (v, None) \<and> (k' = k \<longrightarrow> r = (v, False))"
  using get_law[OF assms(1), of now k'] assms by auto

lemma pinned_put:
  assumes "inv c" "look c k = Some (v, None)" "put now k' w ttl c = Some c1" "k' \<noteq> k \<or> ttl \<noteq> 0"
  shows "inv c1 \<and> look c1 k = Some (v, None)"
proof (cases "k' = k")
  case False
  then have "look c1 k = look c k \<or> (\<exists>w e. look c k = Some (w, Some e))" "inv c1"
    using put_law[OF assms(1), of now k' w ttl] assms(3) by auto
  then show ?thesis using assms(2) by auto
qed (use put_law[OF assms(1), of now k' w ttl] assms in auto)

end

lemma represents_look:
  assumes "represents c xs" shows "lru_look c k = a_look (abs_cache c xs) k"
proof (cases "c_cache c k")
  case (Some a)
  then have "a \<in> set xs" using represents_lookup[OF assms] by auto
  then obtain it where "c_heap c a = Some it" using links_item assms by (metis represents_def split_list)
  then show ?thesis using Some represents_find[OF assms, of k]
    by (auto simp: lru_look_def a_look_def abs_cache_def entry_of_def split: option.splits)
qed (use represents_find[OF assms, of k] in \<open>auto simp: lru_look_def a_look_def abs_cache_def split: option.splits\<close>)

lemma a_Get_look: "a_look (snd (a_Get now k A)) = a_look A"
  by (auto simp: a_Get_def a_look_def fun_eq_iff split: option.splits)

lemma a_Get_answer:
  "fst (a_Get now k A) = (case a_look A k of None \<Rightarrow> ([], False) | Some (v, None) \<Rightarrow> (v, False) | Some (v, Some e) \<Rightarrow> (v, e < now))"
  by (auto simp: a_Get_def a_look_def split: option.splits)

lemma map_of_butlast_cases: "distinct (map fst es) \<Longrightarrow> map_of (butlast es) k = map_of es k \<or> map_of (butlast es) k = None"
  by (induction es) (auto simp: map_of_eq_None_iff dest: in_set_butlastD)

lemma a_Set_look_same:
  assumes "a_wf A"
  shows "a_look (a_Set now k v ttl A) k =
     (if ttl = 0 then Some (v, None)
      else case a_look A k of Some (w, None) \<Rightarrow> Some (w, None) | _ \<Rightarrow> Some (v, Some (now + ttl)))"
  using assms by (auto simp: a_Set_def a_look_def find_entry_def Let_def a_wf_def split: option.splits)

lemma a_Set_look_other:
  assumes "a_wf A" "k' \<noteq> k"
  shows "a_look (a_Set now k v ttl A) k' = a_look A k' \<or>
     ttl \<noteq> 0 \<and> a_look (a_Set now k v ttl A) k' = None \<and> (\<exists>w e. a_look A k' = Some (w, Some e))"
proof (cases "ttl = 0 \<or> find_entry k (a_list A) \<noteq> None")
  case True
  then show ?thesis using assms(2) by (auto simp: a_Set_def a_look_def find_entry_def map_of_filter_key split: option.splits)
next
  case False
  then have "map_of (butlast ((k, v, now + ttl) # a_list A)) k' = map_of (a_list A) k' \<or>
      map_of (butlast ((k, v, now + ttl) # a_list A)) k' = None"
    using map_of_butlast_cases[of "(k, v, now + ttl) # a_list A" k'] assms
    by (auto simp: a_wf_def find_entry_def map_of_eq_None_iff)
  then show ?thesis using False assms(2)
    by (auto simp: a_Set_def a_look_def find_entry_def Let_def split: option.splits simp del: butlast.simps)
qed



lemma represents_wf: "represents c xs \<Longrightarrow> a_wf (abs_cache c xs) \<longleftrightarrow> int (length xs) \<le> max 2 (c_size c)"
  by (auto simp: represents_def a_wf_def abs_cache_def comp_def)

interpretation lc: ttl_cache lru_inv lru_look lru_Get lru_Set
proof unfold_locales
  fix c now k
  assume "lru_inv c"
  then obtain xs where xs: "represents c xs" "a_wf (abs_cache c xs)" by (auto simp: lru_inv_def represents_wf)
  obtain c' xs' where c': "lru_Get now k c = Some (fst (a_Get now k (abs_cache c xs)), c')" "represents c' xs'"
      "abs_cache c' xs' = snd (a_Get now k (abs_cache c xs))"
    using lru_Get_refines[OF xs(1)] by blast
  have "lru_inv c'" using c'(2,3) a_Get_wf[OF xs(2), of now k] represents_wf[OF c'(2)] by (auto simp: lru_inv_def)
  moreover have "lru_look c' = lru_look c"
    using represents_look[OF xs(1)] represents_look[OF c'(2)] c'(3) a_Get_look by (auto simp: fun_eq_iff)
  ultimately show "\<exists>c'. lru_Get now k c = Some ((case lru_look c k of None \<Rightarrow> ([], False) | Some (v, None) \<Rightarrow> (v, False)
      | Some (v, Some e) \<Rightarrow> (v, e < now)), c') \<and> lru_inv c' \<and> lru_look c' = lru_look c"
    using c'(1) by (auto simp: a_Get_answer represents_look[OF xs(1)])
next
  fix c now k v ttl
  assume "lru_inv c"
  then obtain xs where xs: "represents c xs" "a_wf (abs_cache c xs)" by (auto simp: lru_inv_def represents_wf)
  obtain c' xs' where c': "lru_Set now k v ttl c = Some c'" "represents c' xs'"
      "abs_cache c' xs' = a_Set now k v ttl (abs_cache c xs)"
    using lru_Set_refines[OF xs(1)] by blast
  have "lru_inv c'" using c'(2,3) a_Set_wf[OF xs(2), of now k v ttl] represents_wf[OF c'(2)] by (auto simp: lru_inv_def)
  then show "\<exists>c'. lru_Set now k v ttl c = Some c' \<and> lru_inv c' \<and>
      lru_look c' k = (if ttl = 0 then Some (v, None)
         else case lru_look c k of Some (w, None) \<Rightarrow> Some (w, None) | _ \<Rightarrow> Some (v, Some (now + ttl))) \<and>
      (\<forall>k'. k' \<noteq> k \<longrightarrow> lru_look c' k' = lru_look c k' \<or>
         ttl \<noteq> 0 \<and> lru_look c' k' = None \<and> (\<exists>w e. lru_look c k' = Some (w, Some e)))"
    using c'(1) a_Set_look_same[OF xs(2)] a_Set_look_other[OF xs(2)]
    by (simp add: represents_look[OF xs(1)] represents_look[OF c'(2)] c'(3))
qed

lemma NewLruCache_inv: "lru_inv (NewLruCache n)"
  using NewLruCache_represents[of n] by (auto simp: lru_inv_def)

lemma abs_NewLruCache: "abs_cache (NewLruCache n) [0, 1] = a_new n"
  by (simp add: abs_cache_def a_new_def NewLruCache_def entry_of_def)

lemma a_new_wf: "a_wf (a_new n)" "a_size (a_new n) = n" "a_store (a_new n) = Map.empty"
  by (simp_all add: a_wf_def a_new_def)

lemma run_ops_append:
  "run_ops xs c = Some (rs, c1) \<Longrightarrow> run_ops ys c1 = Some (ss, c2) \<Longrightarrow> run_ops (xs @ ys) c = Some (rs @ ss, c2)"
proof (induction xs c arbitrary: rs rule: run_ops.induct)
  case (2 now k ops c)
  then obtain r c' rs' where g: "lru_Get now k c = Some (r, c')" "run_ops ops c' = Some (rs', c1)" "rs = r # rs'"
    by (auto simp: Option.bind_eq_Some_conv)
  have "run_ops (ops @ ys) c' = Some (rs' @ ss, c2)" using "2.IH"[OF g(1) refl g(2) "2.prems"(2)] .
  then show ?case using g(1,3) by simp
next
  case (3 now k v ttl ops c)
  then show ?case by (auto simp: Option.bind_eq_Some_conv)
qed auto

lemma run_ops_inv: "lru_inv c \<Longrightarrow> \<exists>rs c'. run_ops ops c = Some (rs, c') \<and> lru_inv c'"
proof (induction ops c rule: run_ops.induct)
  case (2 now k ops c)
  then show ?case using lc.get_law[of c now k] by fastforce
next
  case (3 now k v ttl ops c)
  then show ?case using lc.put_law[of c now k v ttl] by fastforce
qed auto

lemma run_ops_pinned:
  "lru_inv c \<Longrightarrow> lru_look c k = Some (v, None) \<Longrightarrow> \<forall>t w. OpSet t k w 0 \<notin> set ops \<Longrightarrow>
   \<exists>rs c'. run_ops ops c = Some (rs, c') \<and> lru_inv c' \<and> lru_look c' k = Some (v, None)"
proof (induction ops c rule: run_ops.induct)
  case (2 now k' ops c)
  obtain r c1 where c1: "lru_Get now k' c = Some (r, c1)" "lru_inv c1" "lru_look c1 = lru_look c"
    using lc.get_law[OF "2.prems"(1), of now k'] by blast
  have "\<exists>rs c'. run_ops ops c1 = Some (rs, c') \<and> lru_inv c' \<and> lru_look c' k = Some (v, None)"
    using "2.IH"[OF c1(1) refl c1(2)] "2.prems" c1(3) by auto
  then show ?case using c1(1) by auto
next
  case (3 now k' w ttl ops c)
  obtain c1 where c1: "lru_Set now k' w ttl c = Some c1" "lru_inv c1" using lc.put_law[OF "3.prems"(1), of now k' w ttl] by blast
  have "lru_look c1 k = Some (v, None)" using lc.pinned_put[OF "3.prems"(1,2) c1(1)] "3.prems"(3) by auto
  then show ?case using "3.IH"[OF c1] "3.prems"(3) c1(1) by auto
qed auto


lemma a_run_ops_store:
  "\<forall>t w. OpSet t k w 0 \<notin> set ops \<Longrightarrow> a_store (snd (a_run_ops ops A)) k = a_store A k"
proof (induction ops A rule: a_run_ops.induct)
  case (2 now k' ops A)
  then show ?case by (auto simp: a_Get_def split: option.splits)
next
  case (3 now k' w ttl ops A)
  then show ?case by (auto simp: a_Set_def Let_def)
qed simp

lemma recent_start:
  assumes "a_wf A" "a_store A k = None" "ttl \<noteq> 0"
  shows "recent k v (now + ttl) T (a_Set now k v ttl A)"
proof -
  let ?A = "a_Set now k v ttl A"
  have "a_store ?A k = None" "a_list ?A \<noteq> [] \<and> hd (a_list ?A) = (k, v, now + ttl)"
    using assms by (auto simp: a_Set_def Let_def a_wf_def)
  then show ?thesis using a_Set_wf[OF assms(1), of now k v ttl]
    by (cases "a_list ?A") (auto simp: recent_def find_entry_def)
qed

section \<open>Properties\<close>

text \<open>
  Property C1.  The linked-list cache implements the abstract one: from an empty cache of any
  size, any sequence of \<open>Get\<close> and \<open>Set\<close> calls runs without following a nil pointer, gives
  exactly the answers of the abstract cache (values and expiry flags), and keeps at most
  \<open>max 2 size\<close> entries in the map.
\<close>

theorem lru_cache_refines:
  "\<exists>c. run_ops ops (NewLruCache n) = Some (fst (a_run_ops ops (a_new n)), c) \<and>
       int (card (dom (c_cache c))) \<le> max 2 n"
proof -
  obtain c xs where c: "run_ops ops (NewLruCache n) = Some (fst (a_run_ops ops (a_new n)), c)" "represents c xs"
      "abs_cache c xs = snd (a_run_ops ops (a_new n))"
    using run_ops_refines[OF NewLruCache_represents, of ops n] unfolding abs_NewLruCache by blast
  have "a_wf (snd (a_run_ops ops (a_new n))) \<and> a_size (snd (a_run_ops ops (a_new n))) = n"
    using a_run_ops_wf[OF a_new_wf(1), of ops n] by (simp add: a_new_wf)
  then have "int (length xs) \<le> max 2 n"
    using c(3)[symmetric] represents_wf[OF c(2)] by (auto simp: abs_cache_def)
  then show ?thesis using c(1) represents_card[OF c(2)] by auto
qed

text \<open>
  An entry stored with ttl 0 (a record of the configuration file) is never lost
  and never reported expired: whatever is done before and after, as long as the key is not
  stored again with ttl 0, a later \<open>Get\<close> answers that value.
\<close>

lemma lru_static_entry_kept:
  assumes "\<forall>t w. OpSet t k w 0 \<notin> set ops2"
  shows "\<exists>rs c. run_ops (ops1 @ [OpSet t k v 0] @ ops2 @ [OpGet now k]) (NewLruCache n) = Some (rs @ [(v, False)], c)"
proof -
  obtain r1 c1 where c1: "run_ops ops1 (NewLruCache n) = Some (r1, c1)" "lru_inv c1"
    using run_ops_inv[OF NewLruCache_inv] by blast
  obtain c2 where c2: "lru_Set t k v 0 c1 = Some c2" "lru_inv c2" "lru_look c2 k = Some (v, None)"
    using lc.put_law[OF c1(2), of t k v 0] by auto
  obtain r3 c3 where c3: "run_ops ops2 c2 = Some (r3, c3)" "lru_inv c3" "lru_look c3 k = Some (v, None)"
    using run_ops_pinned[OF c2(2,3) assms] by blast
  obtain c4 where c4: "run_ops [OpGet now k] c3 = Some ([(v, False)], c4)"
    using lc.get_law[OF c3(2), of now k] c3(3) by auto
  have "run_ops ([OpSet t k v 0] @ ops2 @ [OpGet now k]) c1 = Some (r3 @ [(v, False)], c4)"
    using run_ops_append[OF c3(1) c4] c2(1) by simp
  then show ?thesis using run_ops_append[OF c1(1)] by fastforce
qed

lemma lru_static_entry_kept_witness:
  "\<exists>rs c. run_ops ([] @ [OpSet 5 ''a'' [1] 0] @ [OpSet 6 ''a'' [2] 60, OpSet 7 ''b'' [3] 60, OpSet 8 ''c'' [4] 60] @
     [OpGet 100 ''a'']) (NewLruCache 2) = Some (rs @ [([1], False)], c)"
  using lru_static_entry_kept[of "''a''" "[OpSet 6 ''a'' [2] 60, OpSet 7 ''b'' [3] 60, OpSet 8 ''c'' [4] 60]" "[]" 5 "[1]" 100 2]
  by simp

text \<open>
  Eviction is by recency: an answer stored with a ttl survives as long as fewer
  other keys than the size of the cache are used after it, and is reported expired exactly
  from the second after its expiry time on.
\<close>

lemma lru_recent_entry_kept:
  assumes "ttl \<noteq> 0" "\<forall>t w. OpSet t k w 0 \<notin> set ops1" "\<forall>t w l. OpSet t k w l \<notin> set ops2"
    "int (card (op_key ` set ops2 - {k})) < n"
  shows "\<exists>rs c. run_ops (ops1 @ [OpSet t k v ttl] @ ops2 @ [OpGet now k]) (NewLruCache n) =
           Some (rs @ [(v, t + ttl < now)], c)"
proof -
  define A where "A = snd (a_run_ops ops1 (a_new n))"
  define T where "T = op_key ` set ops2 - {k}"
  have A: "a_wf A" "a_size A = n" "a_store A k = None"
    using a_run_ops_wf[OF a_new_wf(1), of ops1 n] a_run_ops_store[OF assms(2), of "a_new n"]
    by (simp_all add: A_def a_new_wf)
  have "recent k v (t + ttl) T (snd (a_run_ops ops2 (a_Set t k v ttl A)))"
    using recent_start[OF A(1,3) assms(1)] a_Set_wf[OF A(1), of t k v ttl] A(2) assms(3,4)
    by (intro recent_run_ops) (auto simp: T_def)
  then have "fst (a_Get now k (snd (a_run_ops ops2 (a_Set t k v ttl A)))) = (v, t + ttl < now)"
    by (simp add: recent_def a_Get_def)
  moreover have "fst (a_run_ops (xs @ ys) B) = fst (a_run_ops xs B) @ fst (a_run_ops ys (snd (a_run_ops xs B)))" for xs ys B
    by (induction xs B rule: a_run_ops.induct) auto
  ultimately have "\<exists>rs. fst (a_run_ops (ops1 @ [OpSet t k v ttl] @ ops2 @ [OpGet now k]) (a_new n)) = rs @ [(v, t + ttl < now)]"
    by (simp add: A_def)
  then show ?thesis
    using run_ops_refines[OF NewLruCache_represents, of "ops1 @ [OpSet t k v ttl] @ ops2 @ [OpGet now k]" n]
    unfolding abs_NewLruCache by metis
qed

lemma lru_recent_entry_kept_witness:
  "\<exists>rs c. run_ops ([OpSet 1 ''x'' [9] 60] @ [OpSet 5 ''a'' [1] 60] @ [OpSet 7 ''b'' [3] 60, OpGet 8 ''b''] @
     [OpGet 66 ''a'']) (NewLruCache 2) = Some (rs @ [([1], True)], c)"
  using lru_recent_entry_kept[of 60 "''a''" "[OpSet 1 ''x'' [9] 60]" "[OpSet 7 ''b'' [3] 60, OpGet 8 ''b'']" 2 5 "[1]" 66]
  by (simp add: card_insert_if insert_Diff_if)


end
