(* ===== verification/Domain_Walk.thy ===== *)
theory Domain_Walk
  imports Go_Prelude
begin

text \<open>
  Rules and upstream servers are attached to domains, and three functions look a name up the
  same way: \<open>findDialer\<close> and \<open>AddDomainIP\<close> of \<open>rule/proxy.go\<close> and \<open>UpStream\<close> of
  \<open>dns/client.go\<close> all run \<open>for i := len(d); i != -1; { i = LastIndexByte(d[:i], '.'); ... d[i+1:] ... }\<close>.
  Here is that loop, once for the lookups, which stop at the first suffix found, and once for
  \<open>AddDomainIP\<close>, which does not stop; what the loop computes is stated on the labels of the name,
  and the locale \<open>suffix_lookup\<close> collects what follows for a table that is searched this way.
\<close>

section \<open>Definitions\<close>

lemma last_index_byte_bound: "last_index_byte c (take i d) = Some j \<Longrightarrow> j < i"
  by (drule last_index_byte_Some) auto

function walk_from :: "(string \<Rightarrow> 'v option) \<Rightarrow> string \<Rightarrow> nat \<Rightarrow> 'v option" where
  "walk_from m d i =
     (case last_index_byte CHR ''.'' (take i d) of
        None \<Rightarrow> m d
      | Some j \<Rightarrow> (case m (drop (Suc j) d) of Some v \<Rightarrow> Some v | None \<Rightarrow> walk_from m d j))"
  by pat_completeness auto
termination by (relation "measure (\<lambda>(m, d, i). i)") (auto dest: last_index_byte_bound)

definition suffix_walk :: "(string \<Rightarrow> 'v option) \<Rightarrow> string \<Rightarrow> 'v option" where
  "suffix_walk m d = walk_from m d (length d)"

text \<open>The loop that stores every match under the key \<open>k\<close>, later matches over earlier ones.\<close>

function store_from :: "(string \<Rightarrow> 'v option) \<Rightarrow> string \<Rightarrow> nat \<Rightarrow> 'k \<Rightarrow> ('k \<rightharpoonup> 'v) \<Rightarrow> ('k \<rightharpoonup> 'v)" where
  "store_from m d i k t =
     (case last_index_byte CHR ''.'' (take i d) of
        None \<Rightarrow> (case m d of Some v \<Rightarrow> t(k \<mapsto> v) | None \<Rightarrow> t)
      | Some j \<Rightarrow>
          store_from m d j k (case m (drop (Suc j) d) of Some v \<Rightarrow> t(k \<mapsto> v) | None \<Rightarrow> t))"
  by pat_completeness auto
termination by (relation "measure (\<lambda>(m, d, i, k, t). i)") (auto dest: last_index_byte_bound)

declare walk_from.simps [simp del] store_from.simps [simp del]

section \<open>Specification vocabulary\<close>

text \<open>The suffixes of a name at label boundaries, shortest first.\<close>

definition domain_suffixes :: "string \<Rightarrow> string list" where
  "domain_suffixes d =
     (let ls = split_on CHR ''.'' d in map (\<lambda>k. join_with ''.'' (drop k ls)) (rev [0..<length ls]))"

fun first_some :: "('a \<Rightarrow> 'v option) \<Rightarrow> 'a list \<Rightarrow> 'v option" where
  "first_some m [] = None"
| "first_some m (x # xs) = (case m x of Some v \<Rightarrow> Some v | None \<Rightarrow> first_some m xs)"

section \<open>Lemmas\<close>

lemma join_append:
  "xs \<noteq> [] \<Longrightarrow> ys \<noteq> [] \<Longrightarrow> join_with sep (xs @ ys) = join_with sep xs @ sep @ join_with sep ys"
proof (induction xs)
  case (Cons x xs)
  then show ?case by (cases xs; cases ys) auto
qed simp

lemma join_snoc_last_index:
  assumes "CHR ''.'' \<notin> set a" "xs \<noteq> []"
  shows "last_index_byte CHR ''.'' (join_with ''.'' (xs @ [a])) = Some (length (join_with ''.'' xs))"
  using assms by (simp add: join_append last_index_byte_append)

lemma take_join:
  "xs \<noteq> [] \<Longrightarrow> take (length (join_with sep xs)) (join_with sep (xs @ ys)) = join_with sep xs"
  by (cases "ys = []") (simp_all add: join_append)

lemma drop_join:
  "xs \<noteq> [] \<Longrightarrow> ys \<noteq> [] \<Longrightarrow>
   drop (Suc (length (join_with [c] xs))) (join_with [c] (xs @ ys)) = join_with [c] ys"
  by (simp add: join_append)

lemma walk_from_labels:
  assumes "xs \<noteq> []" "\<forall>l\<in>set xs. CHR ''.'' \<notin> set l"
  shows "walk_from m (join_with ''.'' (xs @ ys)) (length (join_with ''.'' xs)) =
         first_some m (map (\<lambda>k. join_with ''.'' (drop k (xs @ ys))) (rev [0..<length xs]))"
  using assms
proof (induction xs arbitrary: ys rule: rev_induct)
  case (snoc a xs)
  show ?case
  proof (cases "xs = []")
    case True
    have "take (length a) (join_with ''.'' (a # ys)) = a"
      using take_join[of "[a]" "''.''" ys] by simp
    moreover have "last_index_byte CHR ''.'' a = None" using snoc.prems by simp
    ultimately show ?thesis using True
      by (subst walk_from.simps) (simp split: option.splits del: last_index_byte_None)
  next
    case False
    have t: "take (length (join_with ''.'' (xs @ [a]))) (join_with ''.'' (xs @ a # ys)) = join_with ''.'' (xs @ [a])"
      using take_join[of "xs @ [a]" "''.''" ys] by simp
    have d: "drop (Suc (length (join_with ''.'' xs))) (join_with ''.'' (xs @ a # ys)) = join_with ''.'' (a # ys)"
      using drop_join[of xs "a # ys"] False by simp
    have ih: "walk_from m (join_with ''.'' (xs @ a # ys)) (length (join_with ''.'' xs)) =
         first_some m (map (\<lambda>k. join_with ''.'' (drop k (xs @ a # ys))) (rev [0..<length xs]))"
      using snoc.IH[of "a # ys"] snoc.prems False by simp
    show ?thesis using snoc.prems False
      by (subst walk_from.simps) (simp add: t d ih join_snoc_last_index split: option.splits)
  qed
qed simp

lemma split_on_labels: "\<forall>l\<in>set (split_on c d). c \<notin> set l"
  by (auto dest: split_on_no_sep)

lemma suffix_walk_first: "suffix_walk m d = first_some m (domain_suffixes d)"
  using walk_from_labels[of "split_on CHR ''.'' d" m "[]", OF _ split_on_labels]
  by (simp add: suffix_walk_def domain_suffixes_def Let_def join_split)

lemma store_from_labels:
  assumes "xs \<noteq> []" "\<forall>l\<in>set xs. CHR ''.'' \<notin> set l"
  shows "store_from m (join_with ''.'' (xs @ ys)) (length (join_with ''.'' xs)) k t =
         (case first_some m (rev (map (\<lambda>k. join_with ''.'' (drop k (xs @ ys))) (rev [0..<length xs]))) of
            None \<Rightarrow> t | Some v \<Rightarrow> t(k \<mapsto> v))"
  using assms
proof (induction xs arbitrary: ys t rule: rev_induct)
  case (snoc a xs)
  have fs: "first_some m (us @ [w]) = (case first_some m us of Some v \<Rightarrow> Some v | None \<Rightarrow> m w)" for us w
    by (induction us) (auto split: option.splits)
  show ?case
  proof (cases "xs = []")
    case True
    have "take (length a) (join_with ''.'' (a # ys)) = a"
      using take_join[of "[a]" "''.''" ys] by simp
    moreover have "last_index_byte CHR ''.'' a = None" using snoc.prems by simp
    ultimately show ?thesis using True
      by (subst store_from.simps) (simp split: option.splits del: last_index_byte_None)
  next
    case False
    have t: "take (length (join_with ''.'' (xs @ [a]))) (join_with ''.'' (xs @ a # ys)) = join_with ''.'' (xs @ [a])"
      using take_join[of "xs @ [a]" "''.''" ys] by simp
    have d: "drop (Suc (length (join_with ''.'' xs))) (join_with ''.'' (xs @ a # ys)) = join_with ''.'' (a # ys)"
      using drop_join[of xs "a # ys"] False by simp
    have ih: "store_from m (join_with ''.'' (xs @ a # ys)) (length (join_with ''.'' xs)) k u =
         (case first_some m (rev (map (\<lambda>k. join_with ''.'' (drop k (xs @ a # ys))) (rev [0..<length xs]))) of
            None \<Rightarrow> u | Some v \<Rightarrow> u(k \<mapsto> v))" for u
      using snoc.IH[of "a # ys"] snoc.prems False by simp
    show ?thesis using snoc.prems False
      by (subst store_from.simps)
        (simp add: t d ih fs join_snoc_last_index split: option.splits)
  qed
qed simp

lemma store_walk_last:
  "store_from m d (length d) k t =
     (case first_some m (rev (domain_suffixes d)) of None \<Rightarrow> t | Some v \<Rightarrow> t(k \<mapsto> v))"
  using store_from_labels[of "split_on CHR ''.'' d" m "[]" k t, OF _ split_on_labels]
  by (simp add: domain_suffixes_def Let_def join_split)

lemma first_some_None: "first_some m xs = None \<longleftrightarrow> (\<forall>x\<in>set xs. m x = None)"
  by (induction xs) (auto split: option.splits)

lemma first_some_cong: "(\<And>x. x \<in> set xs \<Longrightarrow> m x = m' x) \<Longrightarrow> first_some m xs = first_some m' xs"
  by (induction xs) (auto split: option.splits)

lemma first_some_unique:
  "x \<in> set xs \<Longrightarrow> (\<And>y. y \<in> set xs \<Longrightarrow> y \<noteq> x \<Longrightarrow> m y = None) \<Longrightarrow> first_some m xs = m x"
proof (induction xs)
  case (Cons y ys)
  show ?case
  proof (cases "x \<in> set ys")
    case True
    then have "first_some m ys = m x" using Cons by auto
    then show ?thesis using Cons.prems(2)[of y] by (cases "y = x") (auto split: option.splits)
  next
    case False
    then have "first_some m ys = None" using Cons.prems by (auto simp: first_some_None)
    then show ?thesis using Cons.prems(1) False by (auto split: option.splits)
  qed
qed simp

lemma domain_suffixes_self: "d \<in> set (domain_suffixes d)"
proof -
  have "d = join_with ''.'' (drop 0 (split_on CHR ''.'' d))" by (simp add: join_split)
  moreover have "0 < length (split_on CHR ''.'' d)" by simp
  ultimately show ?thesis unfolding domain_suffixes_def Let_def by force
qed

lemma domain_suffixes_hd: "hd (domain_suffixes d) = last (split_on CHR ''.'' d) \<and> domain_suffixes d \<noteq> []"
proof -
  obtain xs a where "split_on CHR ''.'' d = xs @ [a]" by (metis rev_exhaust split_on_nonempty)
  then show ?thesis by (simp add: domain_suffixes_def)
qed

section \<open>Tables searched by suffix\<close>

locale suffix_lookup =
  fixes tbl :: "string \<Rightarrow> 'v option"
    and look :: "string \<Rightarrow> 'v option"
  assumes look_walk: "look d = suffix_walk tbl (to_lower d)"
begin

lemma look_first: "look d = first_some tbl (domain_suffixes (to_lower d))"
  by (simp add: look_walk suffix_walk_first)

lemma look_None: "look d = None \<longleftrightarrow> (\<forall>s\<in>set (domain_suffixes (to_lower d)). tbl s = None)"
  by (simp add: look_first first_some_None)

lemma look_unique:
  assumes "s \<in> set (domain_suffixes (to_lower d))"
    "\<And>y. y \<in> set (domain_suffixes (to_lower d)) \<Longrightarrow> y \<noteq> s \<Longrightarrow> tbl y = None"
  shows "look d = tbl s"
  using assms by (simp add: look_first first_some_unique)

lemma look_last_label:
  assumes "tbl (last (split_on CHR ''.'' (to_lower d))) = Some v"
  shows "look d = Some v"
  using assms domain_suffixes_hd[of "to_lower d"]
  by (cases "domain_suffixes (to_lower d)") (simp_all add: look_first)

end

end
