(* ===== verification/Dns_Client.thy ===== *)
theory Dns_Client
  imports Dns_Message Dns_Cache Domain_Walk
begin

text \<open>
  The DNS forwarder: \<open>dns/upstream.go\<close>, \<open>dns/client.go\<close> and the request handling of
  \<open>dns/server.go\<close>.  The client is a record of the cache, the configuration, the default upstream and
  the upstreams of single domains; what it asks of the rest of the system (the dialer chosen for a
  name, the connections to upstream servers) is the record \<open>dns_env\<close>.  The refresh of an expired
  entry runs in a goroutine of its own after the answer: \<open>Exchange\<close> returns it as a pending
  request, \<open>run_refresh\<close> is its execution.
\<close>

section \<open>Definitions\<close>

subsection \<open>Upstream servers\<close>

record upstream =
  up_index :: u32
  up_servers :: "string list"

definition default_port :: "string \<Rightarrow> string \<Rightarrow> string" where
  "default_port p s = (if snd (split_host_port_or_empty s) = [] then JoinHostPort s p else s)"

definition NewUPStream :: "string list \<Rightarrow> upstream" where
  "NewUPStream servers = \<lparr>up_index = 0, up_servers = map (default_port ''53'') servers\<rparr>"

text \<open>\<open>servers[index % uint32(len(servers))]\<close>, a division by zero when there is no server.\<close>

definition server_at :: "u32 \<Rightarrow> string list \<Rightarrow> string result" where
  "server_at i ss =
     (if of_nat (length ss) = (0 :: u32) then Inl (Panic ''integer divide by zero'')
      else Inr (ss ! unat (i mod of_nat (length ss))))"

definition up_Server :: "upstream \<Rightarrow> string result" where
  "up_Server u = server_at (up_index u) (up_servers u)"

definition up_Switch :: "upstream \<Rightarrow> string result \<times> upstream" where
  "up_Switch u =
     (let u' = u\<lparr>up_index := up_index u + 1\<rparr> in (server_at (up_index u') (up_servers u'), u'))"

definition SwitchIf :: "string \<Rightarrow> upstream \<Rightarrow> string result \<times> upstream" where
  "SwitchIf server u = (if up_Server u = Inr server then up_Switch u else (up_Server u, u))"

definition up_Len :: "upstream \<Rightarrow> nat" where
  "up_Len u = length (up_servers u)"

subsection \<open>The client\<close>

record dns_config =
  cf_Servers :: "string list"
  cf_MaxTTL :: int
  cf_MinTTL :: int
  cf_Records :: "string list"
  cf_AlwaysTCP :: bool
  cf_CacheSize :: int
  cf_NoAAAA :: bool

record dns_client =
  cl_cache :: lru
  cl_config :: dns_config
  cl_upStream :: upstream
  cl_upStreamMap :: "string \<rightharpoonup> upstream"
  cl_handlers :: nat

text \<open>The environment: \<open>next_dialer\<close> gives the \<open>Addr()\<close> of the dialer the proxy chooses for an
  address; \<open>net_dial n network server\<close> is the outcome of the \<open>n\<close>th dial of an exchange, a
  connection with the bytes the server will send; \<open>spare\<close> is the rest of the buffer a message is in.\<close>

record dns_env =
  next_dialer :: "string \<Rightarrow> string"
  net_dial :: "nat \<Rightarrow> string \<Rightarrow> string \<Rightarrow> conn result"
  spare :: bytes

definition qKey :: "question \<Rightarrow> string" where
  "qKey q = QNAME q @ ''/'' @ show_nat (unat (QTYPE q))"

subsubsection \<open>Custom records\<close>

definition MakeResponse :: "u16 \<Rightarrow> string \<Rightarrow> string \<Rightarrow> u32 \<Rightarrow> message result" where
  "MakeResponse rnd domain ip ttl =
     (case ParseAddr ip of
        None \<Rightarrow> Inl (ErrMsg ''unable to parse IP'')
      | Some a \<Rightarrow>
          let qtype = (if Is6 a then QTypeAAAA else QTypeA);
              rdlen = (if Is6 a then 16 else 4)
          in Inr (AddAnswer \<lparr>NAME = domain, RTYPE = qtype, CLASS = ClassINET, TTL = ttl, RDLENGTH = rdlen,
                            RDATA = AsSlice a, IP = NoAddr\<rparr>
                   (SetQuestion (NewQuestion qtype domain) (NewMessage rnd 0 ResponseMsg))))"

text \<open>\<open>None\<close> stands for a run-time panic of the cache.\<close>

definition AddRecord :: "int \<Rightarrow> u16 \<Rightarrow> string \<Rightarrow> dns_client \<Rightarrow> (unit result \<times> dns_client) option" where
  "AddRecord now rnd r c =
     (case cut_byte CHR ''/'' r of
        None \<Rightarrow> Some (Inl (ErrMsg (''wrong record format, must contain '' @ [CHR 0x27, CHR ''/'', CHR 0x27])), c)
      | Some (domain, ip) \<Rightarrow>
          (case MakeResponse rnd domain ip (of_int (cf_MaxTTL (cl_config c))) of
             Inl e \<Rightarrow> Some (Inl e, c)
           | Inr m \<Rightarrow>
               map_option (\<lambda>ca. (Inr (), c\<lparr>cl_cache := ca\<rparr>))
                 (lru_Set now (qKey (Question m)) (MarshalTo m) 0 (cl_cache c))))"

fun add_records :: "int \<Rightarrow> u16 list \<Rightarrow> string list \<Rightarrow> dns_client \<Rightarrow> dns_client option" where
  "add_records now (x # xs) (r # rs) c =
     Option.bind (AddRecord now x r c) (\<lambda>(_, c'). add_records now xs rs c')"
| "add_records now _ _ c = Some c"

definition NewClient :: "int \<Rightarrow> u16 list \<Rightarrow> dns_config \<Rightarrow> dns_client option" where
  "NewClient now rnds cfg =
     add_records now rnds (cf_Records cfg)
       \<lparr>cl_cache = NewLruCache (cf_CacheSize cfg), cl_config = cfg, cl_upStream = NewUPStream (cf_Servers cfg),
        cl_upStreamMap = Map.empty, cl_handlers = 0\<rparr>"

definition AddHandler_dns :: "dns_client \<Rightarrow> dns_client" where
  "AddHandler_dns c = c\<lparr>cl_handlers := cl_handlers c + 1\<rparr>"

definition SetServers :: "string \<Rightarrow> string list \<Rightarrow> dns_client \<Rightarrow> dns_client" where
  "SetServers domain servers c =
     c\<lparr>cl_upStreamMap := (cl_upStreamMap c)(to_lower domain \<mapsto> NewUPStream servers)\<rparr>"

subsubsection \<open>Choosing the upstream\<close>

text \<open>\<open>UpStream\<close> returns a pointer: the key of the upstream in the map, or \<open>None\<close> for the default.\<close>

definition UpStream :: "dns_client \<Rightarrow> string \<Rightarrow> string option" where
  "UpStream c domain =
     suffix_walk (\<lambda>s. if s \<in> dom (cl_upStreamMap c) then Some s else None) (to_lower domain)"

definition get_up :: "dns_client \<Rightarrow> string option \<Rightarrow> upstream" where
  "get_up c k = (case k of None \<Rightarrow> cl_upStream c | Some s \<Rightarrow>
     (case cl_upStreamMap c s of Some u \<Rightarrow> u | None \<Rightarrow> cl_upStream c))"

definition set_up :: "dns_client \<Rightarrow> string option \<Rightarrow> upstream \<Rightarrow> dns_client" where
  "set_up c k u = (case k of None \<Rightarrow> c\<lparr>cl_upStream := u\<rparr>
     | Some s \<Rightarrow> c\<lparr>cl_upStreamMap := (cl_upStreamMap c)(s \<mapsto> u)\<rparr>)"

subsubsection \<open>Talking to a server\<close>

definition exchangeTCP :: "bytes \<Rightarrow> bytes io" where
  "exchangeTCP req =
     io_bind (io_write (put16 (of_nat (length req)) @ req)) (\<lambda>_.
     io_bind (read_full 2) (\<lambda>l. read_full (unat (be16 (l ! 0) (l ! 1)))))"

definition exchangeUDP :: "bytes \<Rightarrow> bytes io" where
  "exchangeUDP req =
     io_bind (io_write req) (\<lambda>_ c.
       if rd c = [] then (Inl EOF, c) else (Inr (take UDPMaxLen (rd c)), c\<lparr>rd := []\<rparr>))"

text \<open>One turn of the loop: dial the server and exchange; both failures count the same.\<close>

definition exchange_once :: "dns_env \<Rightarrow> nat \<Rightarrow> string \<Rightarrow> string \<Rightarrow> bytes \<Rightarrow> bytes result" where
  "exchange_once env k network server req =
     (case net_dial env k network server of
        Inl e \<Rightarrow> Inl e
      | Inr rc \<Rightarrow>
          if network = ''tcp'' then fst (exchangeTCP req rc) else fst (exchangeUDP req rc))"

text \<open>The loop \<open>for range ups.Len()\<close> with \<open>n\<close> turns left: the last error, the server and the upstream.\<close>

fun exchange_loop :: "dns_env \<Rightarrow> string \<Rightarrow> bytes \<Rightarrow> nat \<Rightarrow> nat \<Rightarrow> string \<Rightarrow> bytes result \<Rightarrow> upstream
    \<Rightarrow> bytes result \<times> string \<times> upstream" where
  "exchange_loop env network req 0 k server r u = (r, server, u)"
| "exchange_loop env network req (Suc n) k server r u =
     (case exchange_once env k network server req of
        Inr resp \<Rightarrow> (Inr resp, server, u)
      | Inl e \<Rightarrow>
          (case SwitchIf server u of
             (Inl p, u') \<Rightarrow> (Inl p, server, u')
           | (Inr server', u') \<Rightarrow> exchange_loop env network req n (k + 1) server' (Inl e) u'))"

record exchanged =
  x_server :: string
  x_network :: string
  x_dialer :: string
  x_resp :: "bytes result"
  x_failed :: bool

text \<open>\<open>x_failed\<close>: \<open>proxy.Record(dialer, false)\<close> was called.\<close>

definition dns_dialer :: "dns_env \<Rightarrow> string \<Rightarrow> string" where
  "dns_dialer env qname =
     (let d = next_dialer env (qname @ '':0'') in
      if d = ''REJECT'' then next_dialer env ''direct:0'' else d)"

definition dns_network :: "bool \<Rightarrow> dns_client \<Rightarrow> string \<Rightarrow> string" where
  "dns_network preferTCP c dialer =
     (if \<not> preferTCP \<and> \<not> cf_AlwaysTCP (cl_config c) \<and> dialer = ''DIRECT'' then ''udp'' else ''tcp'')"

definition exchange :: "dns_env \<Rightarrow> string \<Rightarrow> bytes \<Rightarrow> bool \<Rightarrow> dns_client \<Rightarrow> exchanged \<times> dns_client" where
  "exchange env qname req preferTCP c =
     (let dialer = dns_dialer env qname;
          network = dns_network preferTCP c dialer;
          key = UpStream c qname;
          u = get_up c key
      in case up_Server u of
           Inl p \<Rightarrow> (\<lparr>x_server = [], x_network = network, x_dialer = dialer, x_resp = Inl p, x_failed = False\<rparr>, c)
         | Inr server \<Rightarrow>
             (case exchange_loop env network req (up_Len u) 0 server (Inr []) u of
                (r, server', u') \<Rightarrow>
                  (\<lparr>x_server = server', x_network = network, x_dialer = dialer, x_resp = r,
                    x_failed = (case r of Inl _ \<Rightarrow> True | Inr _ \<Rightarrow> False)\<rparr>,
                   set_up c key u')))"

subsubsection \<open>Answers\<close>

definition is_ip_type :: "u16 \<Rightarrow> bool" where
  "is_ip_type t = (t = QTypeA \<or> t = QTypeAAAA)"

text \<open>The calls of the answer handlers (the handler's number, the name, the address), the
  addresses as text, and the ttl: that of the last address record with one.\<close>

fun extract_loop :: "nat \<Rightarrow> string \<Rightarrow> rr list \<Rightarrow> int \<Rightarrow> (nat \<times> string \<times> addr) list \<times> string list \<times> int" where
  "extract_loop hs qname [] ttl = ([], [], ttl)"
| "extract_loop hs qname (a # as) ttl =
     (if is_ip_type (RTYPE a) then
        let ttl' = (if TTL a \<noteq> 0 then int (unat (TTL a)) else ttl);
            (calls, ips, t) = extract_loop hs qname as ttl'
        in if IsValid (IP a) \<and> \<not> IsUnspecified (IP a) then
             (map (\<lambda>h. (h, qname, IP a)) [0..<hs] @ calls, addr_string (IP a) # ips, t)
           else (calls, ips, t)
      else extract_loop hs qname as ttl)"

definition extractAnswer :: "dns_client \<Rightarrow> message \<Rightarrow> (nat \<times> string \<times> addr) list \<times> string list \<times> int" where
  "extractAnswer c resp =
     extract_loop (cl_handlers c) (QNAME (Question resp)) (Answers resp) (cf_MinTTL (cl_config c))"

definition clamp_ttl :: "dns_config \<Rightarrow> int \<Rightarrow> int" where
  "clamp_ttl cfg ttl =
     (let t = (if ttl > cf_MaxTTL cfg then cf_MaxTTL cfg
               else if ttl < cf_MinTTL cfg then cf_MinTTL cfg else ttl)
      in if t \<le> 0 then 1800 else t)"

text \<open>\<open>None\<close>: the decoder does not return.  On success the handler calls and the client with the
  answer cached.\<close>

definition handleAnswer :: "int \<Rightarrow> bytes \<Rightarrow> bytes \<Rightarrow> dns_client
    \<Rightarrow> ((nat \<times> string \<times> addr) list result \<times> dns_client) option" where
  "handleAnswer now spr resp c =
     Option.bind (UnmarshalMessage spr resp) (\<lambda>r.
       case r of
         Inl e \<Rightarrow> Some (Inl e, c)
       | Inr m \<Rightarrow>
           (case extractAnswer c m of
              (calls, ips, ttl) \<Rightarrow>
                map_option (\<lambda>ca. (Inr calls, c\<lparr>cl_cache := ca\<rparr>))
                  (lru_Set now (qKey (Question m)) resp (clamp_ttl (cl_config c) ttl) (cl_cache c))))"

subsubsection \<open>A request\<close>

record reply =
  rp_bytes :: "bytes result"
  rp_calls :: "(nat \<times> string \<times> addr) list"
  rp_failed :: bool
  rp_refresh :: "(string \<times> bytes \<times> bool) option"

definition reply_of :: "bytes result \<Rightarrow> reply" where
  "reply_of r = \<lparr>rp_bytes = r, rp_calls = [], rp_failed = False, rp_refresh = None\<rparr>"

definition ask_upstream :: "int \<Rightarrow> dns_env \<Rightarrow> question \<Rightarrow> bytes \<Rightarrow> bool \<Rightarrow> dns_client
    \<Rightarrow> (reply \<times> dns_client) option" where
  "ask_upstream now env q req preferTCP c =
     (case exchange env (QNAME q) req preferTCP c of
        (x, c1) \<Rightarrow>
          (case x_resp x of
             Inl e \<Rightarrow> Some ((reply_of (Inl e))\<lparr>rp_failed := x_failed x\<rparr>, c1)
           | Inr resp \<Rightarrow>
               if \<not> is_ip_type (QTYPE q) then Some (reply_of (Inr resp), c1)
               else
                 map_option (\<lambda>(r, c2).
                     (case r of
                        Inl e \<Rightarrow> reply_of (Inl e)
                      | Inr calls \<Rightarrow> (reply_of (Inr resp))\<lparr>rp_calls := calls\<rparr>, c2))
                   (handleAnswer now (spare env) resp c1)))"

definition cached_reply :: "u16 \<Rightarrow> bytes \<Rightarrow> bytes" where
  "cached_reply mid v = put16 mid @ drop 2 v"

definition Exchange :: "int \<Rightarrow> dns_env \<Rightarrow> bytes \<Rightarrow> bool \<Rightarrow> dns_client \<Rightarrow> (reply \<times> dns_client) option" where
  "Exchange now env req preferTCP c =
     Option.bind (UnmarshalMessage (spare env) req) (\<lambda>r.
       case r of
         Inl e \<Rightarrow> Some (reply_of (Inl e), c)
       | Inr m \<Rightarrow>
           let q = Question m in
           if cf_NoAAAA (cl_config c) \<and> QTYPE q = QTypeAAAA then
             Some (reply_of (Inr (req[2 := (req ! 2) OR push_bit 7 ResponseMsg])), c)
           else if is_ip_type (QTYPE q) then
             Option.bind (lru_Get now (qKey q) (cl_cache c)) (\<lambda>((v, expired), ca).
               let c1 = c\<lparr>cl_cache := ca\<rparr> in
               if length v > 2 then
                 Some ((reply_of (Inr (cached_reply (ID (Header m)) v)))
                         \<lparr>rp_refresh := (if expired then Some (QNAME q, req, preferTCP) else None)\<rparr>, c1)
               else ask_upstream now env q req preferTCP c1)
           else ask_upstream now env q req preferTCP c)"

definition run_refresh :: "int \<Rightarrow> dns_env \<Rightarrow> string \<times> bytes \<times> bool \<Rightarrow> dns_client \<Rightarrow> dns_client option" where
  "run_refresh now env job c =
     (case job of
        (qname, req, preferTCP) \<Rightarrow>
          (case exchange env qname req preferTCP c of
             (x, c1) \<Rightarrow>
               (case x_resp x of
                  Inl e \<Rightarrow> Some c1
                | Inr resp \<Rightarrow> map_option snd (handleAnswer now (spare env) resp c1))))"

subsection \<open>The server\<close>

text \<open>\<open>ServeTCP\<close> on a client's connection and \<open>ServePacket\<close> on a datagram: what is sent back.\<close>

definition ServeTCP :: "int \<Rightarrow> dns_env \<Rightarrow> dns_client \<Rightarrow> conn \<Rightarrow> (conn \<times> dns_client) option" where
  "ServeTCP now env c conn0 =
     (case read_full 2 conn0 of
        (Inl e, c1) \<Rightarrow> Some (c1, c)
      | (Inr l, c1) \<Rightarrow>
          (case read_full (unat (be16 (l ! 0) (l ! 1))) c1 of
             (Inl e, c2) \<Rightarrow> Some (c2, c)
           | (Inr req, c2) \<Rightarrow>
               Option.bind (Exchange now env req True c) (\<lambda>(rp, c').
                 case rp_bytes rp of
                   Inl e \<Rightarrow> Some (c2, c')
                 | Inr resp \<Rightarrow> Some (snd (io_write (put16 (of_nat (length resp)) @ resp) c2), c'))))"

definition ServePacket :: "int \<Rightarrow> dns_env \<Rightarrow> bytes \<Rightarrow> dns_client \<Rightarrow> (bytes option \<times> dns_client) option" where
  "ServePacket now env req c =
     map_option (\<lambda>(rp, c'). (case rp_bytes rp of Inl e \<Rightarrow> None | Inr resp \<Rightarrow> Some resp, c'))
       (Exchange now env req False c)"

section \<open>Specification vocabulary\<close>

text \<open>What happens to a client over time: requests, refreshes, and the configuration calls made
  by \<open>main\<close>, in any order.\<close>

inductive dns_step :: "dns_client \<Rightarrow> dns_client \<Rightarrow> bool" where
  step_Exchange: "Exchange now env req p c = Some (r, c') \<Longrightarrow> dns_step c c'"
| step_refresh: "run_refresh now env job c = Some c' \<Longrightarrow> dns_step c c'"
| step_SetServers: "dns_step c (SetServers d ss c)"
| step_AddHandler: "dns_step c (AddHandler_dns c)"

text \<open>\<open>kept c c'\<close>: the cache stays well formed and keeps its static entries.\<close>

definition kept :: "dns_client \<Rightarrow> dns_client \<Rightarrow> bool" where
  "kept c c' \<longleftrightarrow> (lru_inv (cl_cache c) \<longrightarrow> lru_inv (cl_cache c') \<and>
     (\<forall>k v. lru_look (cl_cache c) k = Some (v, None) \<longrightarrow> lru_look (cl_cache c') k = Some (v, None)))"


text \<open>A small instance for the witnesses: two upstream servers, the first of which refuses.\<close>

definition example_config :: dns_config where
  "example_config = \<lparr>cf_Servers = [''8.8.8.8''], cf_MaxTTL = 1800, cf_MinTTL = 60, cf_Records = [], cf_AlwaysTCP = False,
     cf_CacheSize = 4, cf_NoAAAA = False\<rparr>"

definition example_client :: dns_client where
  "example_client = \<lparr>cl_cache = NewLruCache 4, cl_config = example_config, cl_upStream = NewUPStream [''8.8.8.8'', ''1.1.1.1:53''],
     cl_upStreamMap = Map.empty, cl_handlers = 0\<rparr>"

definition example_env :: dns_env where
  "example_env = \<lparr>next_dialer = (\<lambda>_. ''DIRECT''), net_dial = (\<lambda>k n s. if s = ''1.1.1.1:53'' then Inr (open_conn [1, 2, 3])
     else Inl (ErrMsg ''refused'')), spare = []\<rparr>"

section \<open>Lemmas\<close>

subsection \<open>Upstreams\<close>

interpretation upl: suffix_lookup "\<lambda>s. if s \<in> dom (cl_upStreamMap c) then Some s else None" "UpStream c" for c
  by unfold_locales (simp add: UpStream_def)

lemma server_at_index:
  assumes "0 < length ss" "length ss < 2 ^ 32"
  shows "server_at i ss = Inr (ss ! (unat i mod length ss))"
proof -
  have u: "unat (of_nat (length ss) :: u32) = length ss" using assms(2) by (simp add: unat_of_nat)
  then have "(of_nat (length ss) :: u32) \<noteq> 0" using assms(1) by auto
  then show ?thesis using u by (simp add: server_at_def unat_mod)
qed

lemma unat_add_1: "unat (i :: u32) + 1 < 2 ^ 32 \<Longrightarrow> unat (i + 1) = unat i + 1"
  by (simp add: unat_word_ariths)

lemma exchange_loop_finds:
  assumes "0 < length (up_servers u)" "length (up_servers u) < 2 ^ 32" "unat (up_index u) + n < 2 ^ 32"
    "j < n" "exchange_once env (k + j) nw (up_servers u ! ((unat (up_index u) + j) mod length (up_servers u))) req = Inr resp"
    "up_Server u = Inr server"
  shows "\<exists>resp' server' u'. exchange_loop env nw req n k server r u = (Inr resp', server', u')"
  using assms
proof (induction n arbitrary: j k server r u)
  case (Suc n)
  show ?case
  proof (cases "exchange_once env k nw server req")
    case (Inl e)
    have sv: "server = up_servers u ! (unat (up_index u) mod length (up_servers u))"
      using Suc.prems(6) server_at_index[OF Suc.prems(1,2)] by (simp add: up_Server_def)
    then have "j \<noteq> 0" using Suc.prems(5) Inl by (intro notI) simp
    then obtain j' where j': "j = Suc j'" by (cases j) auto
    define u' where "u' = u\<lparr>up_index := up_index u + 1\<rparr>"
    have i: "unat (up_index u + 1) = unat (up_index u) + 1" using Suc.prems(3) by (intro unat_add_1) simp
    have sw: "SwitchIf server u = (up_Server u', u')"
      using Suc.prems(6) by (simp add: SwitchIf_def up_Switch_def u'_def up_Server_def Let_def)
    obtain server' where s': "up_Server u' = Inr server'"
      using server_at_index[OF Suc.prems(1,2)] by (simp add: u'_def up_Server_def)
    have "\<exists>resp' s'' u''. exchange_loop env nw req n (k + 1) server' (Inl e) u' = (Inr resp', s'', u'')"
      using Suc.prems(1-5) i s' by (intro Suc.IH[of u' j']) (simp_all add: u'_def j')
    then show ?thesis using Inl sw s' by simp
  qed simp
qed simp

lemma rotation_reaches:
  assumes "m < (n::nat)" shows "\<exists>j<n. (i + j) mod n = m"
proof (intro exI conjI)
  let ?j = "(m + n - i mod n) mod n"
  show "?j < n" using assms by simp
  have "(i + ?j) mod n = (i mod n + (m + n - i mod n)) mod n" by (simp add: mod_simps)
  also have "\<dots> = (m + n) mod n" using assms
    by (metis add_diff_inverse_nat less_or_eq_imp_le mod_less_divisor not_less trans_le_add2 zero_le order.strict_trans1)
  also have "\<dots> = m" using assms by simp
  finally show "(i + ?j) mod n = m" .
qed

lemma exchange_loop_fails:
  assumes "0 < length (up_servers u)" "length (up_servers u) < 2 ^ 32" "up_Server u = Inr server"
    "\<And>k s. s \<in> set (up_servers u) \<Longrightarrow> \<exists>e. exchange_once env k nw s req = Inl e" "0 < n"
  shows "\<exists>e server' u'. exchange_loop env nw req n k server r u = (Inl e, server', u')"
  using assms
proof (induction n arbitrary: k server r u)
  case (Suc n)
  have "server \<in> set (up_servers u)"
    using Suc.prems(1,3) server_at_index[OF Suc.prems(1,2)] by (auto simp: up_Server_def)
  then obtain e where e: "exchange_once env k nw server req = Inl e" using Suc.prems(4) by blast
  define u' where "u' = u\<lparr>up_index := up_index u + 1\<rparr>"
  have sw: "SwitchIf server u = (up_Server u', u')"
    using Suc.prems(3) by (simp add: SwitchIf_def up_Switch_def u'_def up_Server_def Let_def)
  obtain server' where s': "up_Server u' = Inr server'"
    using server_at_index[OF Suc.prems(1,2)] by (simp add: u'_def up_Server_def)
  show ?case
  proof (cases "n = 0")
    case False
    have "\<exists>e' s'' u''. exchange_loop env nw req n (k + 1) server' (Inl e) u' = (Inl e', s'', u'')"
      using Suc.prems s' False by (intro Suc.IH) (simp_all add: u'_def)
    then show ?thesis using e sw s' by simp
  qed (use e sw s' in simp)
qed simp


lemma exchange_answered:
  assumes "u = get_up c (UpStream c qname)" "nw = dns_network preferTCP c (dns_dialer env qname)"
    "s \<in> set (up_servers u)" "\<And>k. \<exists>resp. exchange_once env k nw s req = Inr resp"
    "unat (up_index u) + length (up_servers u) < 2 ^ 32"
  shows "\<exists>resp. x_resp (fst (exchange env qname req preferTCP c)) = Inr resp \<and>
           \<not> x_failed (fst (exchange env qname req preferTCP c))"
proof -
  let ?n = "length (up_servers u)"
  have n: "0 < ?n" "?n < 2 ^ 32" using assms(3,5) by (auto dest: length_pos_if_in_set)
  obtain m where m: "m < ?n" "up_servers u ! m = s" using assms(3) by (auto simp: in_set_conv_nth)
  obtain j where j: "j < ?n" "(unat (up_index u) + j) mod ?n = m" using rotation_reaches[OF m(1)] by blast
  obtain resp where resp: "exchange_once env (0 + j) nw s req = Inr resp" using assms(4) by blast
  obtain server where sv: "up_Server u = Inr server"
    using server_at_index[OF n] by (simp add: up_Server_def)
  obtain resp' server' u' where "exchange_loop env nw req ?n 0 server (Inr []) u = (Inr resp', server', u')"
    using exchange_loop_finds[OF n assms(5) j(1), of env 0 nw req resp server] resp j(2) m(2) sv by blast
  then show ?thesis using sv by (simp add: exchange_def assms(1,2) Let_def up_Len_def)
qed

lemma exchange_all_fail:
  assumes "u = get_up c (UpStream c qname)" "nw = dns_network preferTCP c (dns_dialer env qname)"
    "up_servers u \<noteq> []" "length (up_servers u) < 2 ^ 32"
    "\<And>k s. s \<in> set (up_servers u) \<Longrightarrow> \<exists>e. exchange_once env k nw s req = Inl e"
  shows "\<exists>e. x_resp (fst (exchange env qname req preferTCP c)) = Inl e \<and>
           x_failed (fst (exchange env qname req preferTCP c))"
proof -
  have n: "0 < length (up_servers u)" using assms(3) by simp
  obtain server where sv: "up_Server u = Inr server"
    using server_at_index[OF n assms(4)] by (simp add: up_Server_def)
  obtain e server' u' where "exchange_loop env nw req (length (up_servers u)) 0 server (Inr []) u = (Inl e, server', u')"
    using exchange_loop_fails[OF n assms(4) sv assms(5) n] by blast
  then show ?thesis using sv by (simp add: exchange_def assms(1,2) Let_def up_Len_def)
qed

lemma exchange_cache: "cl_cache (snd (exchange env qname req p c)) = cl_cache c"
    "cl_config (snd (exchange env qname req p c)) = cl_config c"
  by (simp_all add: exchange_def Let_def set_up_def split: sum.split prod.split option.split)

subsection \<open>The cache under requests\<close>

lemma clamp_ttl_pos: "1 \<le> clamp_ttl cfg t"
  by (simp add: clamp_ttl_def Let_def)

lemma clamp_ttl_range:
  "0 < cf_MinTTL cfg \<Longrightarrow> cf_MinTTL cfg \<le> cf_MaxTTL cfg \<Longrightarrow>
   cf_MinTTL cfg \<le> clamp_ttl cfg t \<and> clamp_ttl cfg t \<le> cf_MaxTTL cfg"
  by (simp add: clamp_ttl_def Let_def)

lemma kept_refl [simp]: "kept c c"
  by (simp add: kept_def)

lemma kept_trans: "kept a b \<Longrightarrow> kept b c \<Longrightarrow> kept a c"
  by (auto simp: kept_def)

lemma kept_same_cache: "cl_cache c' = cl_cache c \<Longrightarrow> kept c c'"
  by (simp add: kept_def)

lemma kept_put:
  assumes "lru_Set now k v ttl (cl_cache c) = Some ca" "ttl \<noteq> 0"
  shows "kept c (c\<lparr>cl_cache := ca\<rparr>)"
  unfolding kept_def
proof (intro impI conjI allI)
  assume i: "lru_inv (cl_cache c)"
  show "lru_inv (cl_cache (c\<lparr>cl_cache := ca\<rparr>))"
    using lc.put_law[OF i, of now k v ttl] assms(1) by auto
  show "lru_look (cl_cache (c\<lparr>cl_cache := ca\<rparr>)) k' = Some (w, None)"
    if "lru_look (cl_cache c) k' = Some (w, None)" for k' w
    using lc.pinned_put[OF i that assms(1)] assms(2) by simp
qed

lemma kept_get:
  assumes "lru_Get now k (cl_cache c) = Some (r, ca)"
  shows "kept c (c\<lparr>cl_cache := ca\<rparr>)"
  using lc.get_law[of "cl_cache c" now k] assms by (auto simp: kept_def)

lemma handleAnswer_kept:
  assumes "handleAnswer now spr resp c = Some (r, c')" shows "kept c c'"
proof -
  obtain m where m: "UnmarshalMessage spr resp = Some m" using assms by (cases "UnmarshalMessage spr resp") (auto simp: handleAnswer_def)
  show ?thesis
  proof (cases m)
    case (Inl e)
    then show ?thesis using assms m by (simp add: handleAnswer_def)
  next
    case (Inr x)
    obtain calls ips ttl where e: "extractAnswer c x = (calls, ips, ttl)" by (cases "extractAnswer c x") auto
    have "clamp_ttl (cl_config c) ttl \<noteq> 0" using clamp_ttl_pos[of "cl_config c" ttl] by simp
    then show ?thesis using assms m Inr e kept_put by (auto simp: handleAnswer_def)
  qed
qed

lemma ask_upstream_kept:
  assumes "ask_upstream now env q req p c = Some (r, c')" shows "kept c c'"
proof -
  obtain x c1 where x: "exchange env (QNAME q) req p c = (x, c1)" by (cases "exchange env (QNAME q) req p c")
  have "kept c c1" using exchange_cache(1)[of env "QNAME q" req p c] x by (simp add: kept_same_cache)
  moreover have "kept c1 c'"
  proof (cases "\<exists>resp. x_resp x = Inr resp \<and> is_ip_type (QTYPE q)")
    case True
    then obtain resp r2 where "handleAnswer now (spare env) resp c1 = Some (r2, c')"
      using assms x by (auto simp: ask_upstream_def)
    then show ?thesis by (rule handleAnswer_kept)
  qed (use assms x in \<open>auto simp: ask_upstream_def split: sum.splits if_splits\<close>)
  ultimately show ?thesis by (rule kept_trans)
qed

lemma Exchange_kept:
  assumes "Exchange now env req p c = Some (r, c')" shows "kept c c'"
proof -
  obtain m where m: "UnmarshalMessage (spare env) req = Some m"
    using assms by (cases "UnmarshalMessage (spare env) req") (auto simp: Exchange_def)
  show ?thesis
  proof (cases m)
    case (Inl e)
    then show ?thesis using assms m by (simp add: Exchange_def)
  next
    case (Inr x)
    show ?thesis
    proof (cases "is_ip_type (QTYPE (Question x)) \<and> \<not> (cf_NoAAAA (cl_config c) \<and> QTYPE (Question x) = QTypeAAAA)")
      case True
      then obtain v e ca where g: "lru_Get now (qKey (Question x)) (cl_cache c) = Some ((v, e), ca)"
        using assms m Inr by (cases "lru_Get now (qKey (Question x)) (cl_cache c)") (auto simp: Exchange_def Let_def)
      have k: "kept c (c\<lparr>cl_cache := ca\<rparr>)" using g by (rule kept_get)
      have "kept (c\<lparr>cl_cache := ca\<rparr>) c'"
        using assms m Inr True g ask_upstream_kept
        by (auto simp: Exchange_def Let_def split: if_splits)
      then show ?thesis using k kept_trans by blast
    next
      case False
      then show ?thesis using assms m Inr ask_upstream_kept
        by (auto simp: Exchange_def Let_def split: if_splits)
    qed
  qed
qed

lemma run_refresh_kept:
  assumes "run_refresh now env job c = Some c'" shows "kept c c'"
proof -
  obtain qname req p where job: "job = (qname, req, p)" by (cases job)
  obtain x c1 where x: "exchange env qname req p c = (x, c1)" by (cases "exchange env qname req p c")
  have "kept c c1" using exchange_cache(1)[of env qname req p c] x by (simp add: kept_same_cache)
  moreover have "kept c1 c'"
    using assms x job handleAnswer_kept[of now "spare env" _ c1]
    by (auto simp: run_refresh_def split: sum.splits)
  ultimately show ?thesis by (rule kept_trans)
qed


lemma AddRecord_inv:
  assumes "AddRecord now rnd r c = Some (x, c')" "lru_inv (cl_cache c)" shows "lru_inv (cl_cache c')"
  using assms lc.put_law[OF assms(2)]
  by (auto simp: AddRecord_def split: option.splits sum.splits prod.splits) (metis option.inject)


lemma dns_step_kept: "dns_step c c' \<Longrightarrow> kept c c'"
  by (induction rule: dns_step.induct)
    (auto intro: Exchange_kept run_refresh_kept kept_same_cache simp: SetServers_def AddHandler_dns_def)

lemma dns_steps_kept: "dns_step\<^sup>*\<^sup>* c c' \<Longrightarrow> kept c c'"
  by (induction rule: rtranclp_induct) (auto intro: kept_trans dns_step_kept)

subsection \<open>Messages in the cache\<close>

lemma cached_reply_Marshal:
  "cached_reply mid (MarshalTo m) = MarshalTo (m\<lparr>Header := (Header m)\<lparr>ID := mid\<rparr>\<rparr>)"
  by (simp add: cached_reply_def MarshalTo_def Header_MarshalTo_def marshal_header_def SetAncount_def SetQdcount_def)


lemma Exchange_cached:
  assumes "UnmarshalMessage (spare env) req = Some (Inr m)" "is_ip_type (QTYPE (Question m))"
    "\<not> (cf_NoAAAA (cl_config c) \<and> QTYPE (Question m) = QTypeAAAA)"
    "lru_inv (cl_cache c)" "lru_look (cl_cache c) (qKey (Question m)) = Some (v, e)" "2 < length v"
  shows "\<exists>ca. Exchange now env req p c =
     Some (\<lparr>rp_bytes = Inr (cached_reply (ID (Header m)) v), rp_calls = [], rp_failed = False,
            rp_refresh = (case e of None \<Rightarrow> None | Some t \<Rightarrow>
              if t < now then Some (QNAME (Question m), req, p) else None)\<rparr>, c\<lparr>cl_cache := ca\<rparr>)"
  using lc.get_law[OF assms(4), of now "qKey (Question m)"] assms
  by (auto simp: Exchange_def Let_def reply_of_def split: option.splits)

lemma wf_static_response:
  assumes "wf_name d" "ParseAddr ip = Some (Addr4 b)" "MakeResponse rnd d ip ttl = Inr m"
  shows "wf_message (m\<lparr>Header := h\<rparr>)" "Question m = NewQuestion QTypeA d" "map rr_addr (Answers m) = [Addr4 b]"
    "2 < length (MarshalTo m)"
proof -
  have b: "length b = 4" using ParseAddr_wf[OF assms(2)] by simp
  have m: "Question m = NewQuestion QTypeA d" "Answers m = [\<lparr>NAME = d, RTYPE = QTypeA, CLASS = ClassINET,
      TTL = ttl, RDLENGTH = 4, RDATA = b, IP = NoAddr\<rparr>]"
    using assms(2,3) by (auto simp: MakeResponse_def Let_def AddAnswer_def SetQuestion_def NewMessage_def)
  show "wf_message (m\<lparr>Header := h\<rparr>)" "Question m = NewQuestion QTypeA d" "map rr_addr (Answers m) = [Addr4 b]"
    using m b assms(1)
    by (simp_all add: wf_message_def wf_rr_def NewQuestion_def QTypeA_def QTypeAAAA_def rr_addr_def)
  show "2 < length (MarshalTo m)" by (simp add: MarshalTo_def Header_MarshalTo_def)
qed

lemma AddRecord_pins:
  assumes "lru_inv (cl_cache c)" "AddRecord now rnd (d @ ''/'' @ ip) c = Some (Inr (), c1)"
    "CHR ''/'' \<notin> set d"
  shows "\<exists>m. MakeResponse rnd d ip (of_int (cf_MaxTTL (cl_config c))) = Inr m \<and> lru_inv (cl_cache c1) \<and>
     lru_look (cl_cache c1) (qKey (Question m)) = Some (MarshalTo m, None)"
proof -
  have cut: "cut_byte CHR ''/'' (d @ ''/'' @ ip) = Some (d, ip)"
    using assms(3) by (simp add: cut_byte_def index_byte_append)
  obtain m where m: "MakeResponse rnd d ip (of_int (cf_MaxTTL (cl_config c))) = Inr m"
    using assms(2) cut by (cases "MakeResponse rnd d ip (of_int (cf_MaxTTL (cl_config c)))") (auto simp: AddRecord_def)
  then show ?thesis using assms(2) cut lc.put_law[OF assms(1), of now "qKey (Question m)" "MarshalTo m" 0]
    by (auto simp: AddRecord_def)
qed


subsection \<open>Framing over TCP\<close>

lemma exchangeTCP_frame:
  assumes "length resp < 65536" "wleft cn = None" "rd cn = put16 (of_nat (length resp)) @ resp @ rest"
  shows "fst (exchangeTCP req cn) = Inr resp"
  using assms
  by (simp add: exchangeTCP_def io_bind_def io_write_def conn_write_def read_full_def put16_def unat_of_nat
      split: prod.split)



section \<open>Properties\<close>





text \<open>
  When every server of the upstream fails, at every turn, the exchange returns an
  error and reports the forwarder as failed to the proxy.
\<close>

lemma dns_all_servers_fail:
  assumes "up_servers (get_up c (UpStream c qname)) \<noteq> []" "length (up_servers (get_up c (UpStream c qname))) < 2 ^ 32"
    "\<forall>k. \<forall>s\<in>set (up_servers (get_up c (UpStream c qname))).
       \<exists>e. exchange_once env k (dns_network preferTCP c (dns_dialer env qname)) s req = Inl e"
  shows "\<exists>e. x_resp (fst (exchange env qname req preferTCP c)) = Inl e \<and>
           x_failed (fst (exchange env qname req preferTCP c))"
  using assms exchange_all_fail[OF refl refl] by blast

lemma dns_all_servers_fail_witness:
  "\<exists>e. x_resp (fst (exchange (example_env\<lparr>net_dial := \<lambda>k n s. Inl EOF\<rparr>) ''a.bc'' [9] False example_client)) = Inl e \<and>
     x_failed (fst (exchange (example_env\<lparr>net_dial := \<lambda>k n s. Inl EOF\<rparr>) ''a.bc'' [9] False example_client))"
proof (rule dns_all_servers_fail)
  have up: "UpStream example_client ''a.bc'' = None" by (simp add: upl.look_None example_client_def)
  show "up_servers (get_up example_client (UpStream example_client ''a.bc'')) \<noteq> []"
    "length (up_servers (get_up example_client (UpStream example_client ''a.bc''))) < 2 ^ 32"
    unfolding up by (simp_all add: get_up_def example_client_def NewUPStream_def)
qed (simp add: exchange_once_def)

text \<open>
  With \<open>0 < MinTTL \<le> MaxTTL\<close> every answer that is cached expires between \<open>MinTTL\<close>
  and \<open>MaxTTL\<close> seconds from now, whatever the records say; it is never stored as static.
\<close>

lemma dns_cached_ttl_bounds:
  assumes "0 < cf_MinTTL (cl_config c)" "cf_MinTTL (cl_config c) \<le> cf_MaxTTL (cl_config c)"
    "lru_inv (cl_cache c)" "UnmarshalMessage spr resp = Some (Inr m)"
    "\<nexists>w. lru_look (cl_cache c) (qKey (Question m)) = Some (w, None)"
  shows "\<exists>calls c' t. handleAnswer now spr resp c = Some (Inr calls, c') \<and>
     lru_look (cl_cache c') (qKey (Question m)) = Some (resp, Some (now + t)) \<and>
     cf_MinTTL (cl_config c) \<le> t \<and> t \<le> cf_MaxTTL (cl_config c)"
proof -
  obtain calls ips ttl where e: "extractAnswer c m = (calls, ips, ttl)" by (cases "extractAnswer c m") auto
  let ?t = "clamp_ttl (cl_config c) ttl"
  have "?t \<noteq> 0" using clamp_ttl_pos[of "cl_config c" ttl] by simp
  then obtain ca where "lru_Set now (qKey (Question m)) resp ?t (cl_cache c) = Some ca"
      "lru_look ca (qKey (Question m)) = Some (resp, Some (now + ?t))"
    using lc.put_law[OF assms(3), of now "qKey (Question m)" resp ?t] assms(5) by (auto split: option.splits)
  then show ?thesis using assms(4) e clamp_ttl_range[OF assms(1,2), of ttl]
    by (auto simp: handleAnswer_def)
qed

lemma dns_cached_ttl_bounds_witness:
  "\<exists>calls c' t. handleAnswer 100 [] (MarshalTo (SetQuestion (NewQuestion QTypeA ''a.bc'') (NewMessage 0 77 ResponseMsg))) example_client =
       Some (Inr calls, c') \<and> lru_look (cl_cache c') ''a.bc/1'' =
       Some (MarshalTo (SetQuestion (NewQuestion QTypeA ''a.bc'') (NewMessage 0 77 ResponseMsg)), Some (100 + t)) \<and> 60 \<le> t \<and> t \<le> 1800"
proof -
  let ?m = "SetQuestion (NewQuestion QTypeA ''a.bc'') (NewMessage 0 77 ResponseMsg)"
  have wf: "wf_message ?m" by (simp add: wf_message_def SetQuestion_def NewQuestion_def NewMessage_def wf_name_def wf_label_def)
  have "show_nat 1 = ''1''" by code_simp
  then have k: "qKey (Question ?m) = ''a.bc/1''"
    by (simp add: qKey_def SetQuestion_def NewQuestion_def QTypeA_def)
  have i: "lru_inv (cl_cache example_client)" by (simp add: example_client_def NewLruCache_inv)
  have n: "\<nexists>w. lru_look (cl_cache example_client) k = Some (w, None)" for k
    by (simp add: example_client_def lru_look_def NewLruCache_def)
  have cfg: "cf_MinTTL (cl_config example_client) = 60" "cf_MaxTTL (cl_config example_client) = 1800"
    by (simp_all add: example_client_def example_config_def)
  show ?thesis
    using dns_cached_ttl_bounds[OF _ _ i UnmarshalMessage_Marshal[OF wf, of "[]"], of 100] n
    unfolding cfg by (simp add: k)
qed

text \<open>
  The upstream for a name is that of the shortest suffix, at label boundaries
  and ignoring case, for which servers were set, and the default when there is none.
\<close>

lemma dns_upstream_shortest_suffix:
  "UpStream c d =
     first_some (\<lambda>s. if s \<in> dom (cl_upStreamMap c) then Some s else None) (domain_suffixes (to_lower d))"
  by (rule upl.look_first)

text \<open>
  The length-prefixed frames of DNS over TCP agree on both sides: a request framed
  as the client does reaches \<open>Exchange\<close> unchanged, and the answer \<open>ServeTCP\<close> writes is what
  \<open>exchangeTCP\<close> of a client returns.
\<close>

lemma dns_tcp_framing:
  assumes "length req < 65536" "Exchange now env req True c = Some (rp, c')" "rp_bytes rp = Inr resp" "length resp < 65536"
  shows "\<exists>cn. ServeTCP now env c (open_conn (put16 (of_nat (length req)) @ req)) = Some (cn, c') \<and>
     fst (exchangeTCP any (open_conn (wr cn))) = Inr resp"
proof -
  have "ServeTCP now env c (open_conn (put16 (of_nat (length req)) @ req)) =
      Some (open_conn [] \<lparr>wr := put16 (of_nat (length resp)) @ resp\<rparr>, c')"
    using assms
    by (simp add: ServeTCP_def read_full_def open_conn_def put16_def unat_of_nat io_write_def conn_write_def)
  then show ?thesis using exchangeTCP_frame[of resp "open_conn (put16 (of_nat (length resp)) @ resp)" "[]" any] assms(4)
    by (simp add: open_conn_def)
qed

lemma dns_tcp_framing_witness:
  "\<exists>cn c'. ServeTCP 0 example_env (example_client\<lparr>cl_config := example_config\<lparr>cf_NoAAAA := True\<rparr>\<rparr>)
      (open_conn (put16 (of_nat (length (MarshalTo (SetQuestion (NewQuestion QTypeAAAA ''a'') (NewMessage 0 77 QueryMsg))))) @
        MarshalTo (SetQuestion (NewQuestion QTypeAAAA ''a'') (NewMessage 0 77 QueryMsg)))) = Some (cn, c') \<and>
     (\<exists>resp. fst (exchangeTCP [] (open_conn (wr cn))) = Inr resp)"
proof -
  let ?m = "SetQuestion (NewQuestion QTypeAAAA ''a'') (NewMessage 0 77 QueryMsg)"
  let ?c = "example_client\<lparr>cl_config := example_config\<lparr>cf_NoAAAA := True\<rparr>\<rparr>"
  let ?r = "MarshalTo ?m"
  have wf: "wf_message ?m" by (simp add: wf_message_def SetQuestion_def NewQuestion_def NewMessage_def wf_name_def wf_label_def)
  have len: "length ?r = 19"
    by (simp add: MarshalTo_def Header_MarshalTo_def Question_MarshalTo_def MarshalDomainTo_def marshal_label_def
        SetQuestion_def NewQuestion_def NewMessage_def)
  have qt: "QTYPE (Question ?m) = QTypeAAAA" by (simp add: SetQuestion_def NewQuestion_def)
  have ex: "Exchange 0 example_env ?r True ?c = Some (reply_of (Inr (?r[2 := (?r ! 2) OR push_bit 7 ResponseMsg])), ?c)"
    by (simp add: Exchange_def UnmarshalMessage_Marshal[OF wf] Let_def qt)
  show ?thesis
    using dns_tcp_framing[OF _ ex, of "?r[2 := (?r ! 2) OR push_bit 7 ResponseMsg]" "[]"] len
    by (auto simp: reply_of_def)
qed


end
