(* ===== verification/Fwdr_Group.thy ===== *)
theory Fwdr_Group
  imports Go_Prelude Net_Addr "HOL-Library.Multiset"
begin

text \<open>
  Forwarders and forwarder groups: \<open>rule/forward.go\<close> and \<open>rule/group.go\<close>.  A forwarder is an object
  with atomic counters; a group keeps its forwarders ordered by priority and, beside them, the
  list of those currently available.  Objects are addressed by numbers, \<open>g_mem\<close> is the memory they
  live in, and a change of a forwarder's status calls the group's handler, as the code does.

  The lemmas show that, run one call after the other, the operations keep \<open>avail\<close> exactly
  the enabled forwarders of the best priority, that every scheduling strategy picks one of
  them, and what round robin, latency and failure counting promise; a step relation in which the
  status change and its handler are separate steps shows what survives concurrency.
\<close>

section \<open>Definitions\<close>

subsection \<open>Strategy configuration\<close>

record strategy =
  st_Strategy :: string
  st_Check :: string
  st_CheckInterval :: int
  st_CheckTimeout :: int
  st_CheckTolerance :: int
  st_CheckLatencySamples :: int
  st_CheckDisabledOnly :: bool
  st_MaxFailures :: int
  st_DialTimeout :: int
  st_RelayTimeout :: int
  st_IntFace :: string

subsection \<open>Forwarders\<close>

text \<open>Times are seconds; \<open>None\<close> is the zero time.\<close>

record fwdr =
  f_url :: string
  f_addr :: string
  f_priority :: u32
  f_maxFailures :: u32
  f_disabled :: u32
  f_failures :: u32
  f_latency :: int
  f_intface :: string
  f_lastCheck :: "int option"
  f_lastError :: string
  f_lastSelected :: "int option"

definition new_fwdr :: fwdr where
  "new_fwdr = \<lparr>f_url = [], f_addr = [], f_priority = 0, f_maxFailures = 0, f_disabled = 0, f_failures = 0,
     f_latency = 0, f_intface = [], f_lastCheck = None, f_lastError = [], f_lastSelected = None\<rparr>"

definition isTrue :: "u32 \<Rightarrow> bool" where
  "isTrue n = (n AND 1 = 1)"

definition Enabled :: "fwdr \<Rightarrow> bool" where
  "Enabled f = (\<not> isTrue (f_disabled f))"

text \<open>\<open>strconv.ParseUint(p, 10, 32)\<close> as the code uses it, with the error dropped: the value on a
  range error is the largest one, on a syntax error zero.\<close>

fun parse_uint32 :: "nat \<Rightarrow> string \<Rightarrow> u32" where
  "parse_uint32 n [] = of_nat n"
| "parse_uint32 n (c # cs) =
     (if \<not> is_digit c then 0
      else if 2 ^ 32 \<le> n * 10 + digit_val c then - 1
      else parse_uint32 (n * 10 + digit_val c) cs)"

definition parse_priority :: "string \<Rightarrow> u32" where
  "parse_priority p = parse_uint32 0 p"

text \<open>\<open>parseOption\<close>: nothing is set when the query is malformed.  The error it returns is
  overwritten by the caller.\<close>

definition parseOption :: "string \<Rightarrow> fwdr \<Rightarrow> fwdr" where
  "parseOption opt f =
     (case ParseQuery opt of
        (kvs, True) \<Rightarrow> f
      | (kvs, False) \<Rightarrow>
          f\<lparr>f_priority := parse_priority (query_get ''priority'' kvs),
            f_intface := query_get ''interface'' kvs\<rparr>)"

text \<open>The chain of dialers: \<open>dial_url url below\<close> is the \<open>Addr()\<close> of the dialer made from the url on
  top of the dialer with address \<open>below\<close>.  Consecutive equal addresses are listed once.\<close>

fun dialer_chain :: "(string \<Rightarrow> string \<Rightarrow> string result) \<Rightarrow> string list \<Rightarrow> string \<Rightarrow> string list
    \<Rightarrow> (string \<times> string list) result" where
  "dialer_chain dial_url [] d addrs = Inr (d, addrs)"
| "dialer_chain dial_url (u # us) d addrs =
     (case dial_url u d of
        Inl e \<Rightarrow> Inl e
      | Inr d' \<Rightarrow>
          dialer_chain dial_url us d'
            (if addrs = [] \<or> d' \<noteq> last addrs then addrs @ [d'] else addrs))"

text \<open>\<open>CompareAndSwap(&disabled, 0, 1)\<close> on a forwarder without handlers.\<close>

definition Disable_plain :: "fwdr \<Rightarrow> fwdr" where
  "Disable_plain f = (if f_disabled f = 0 then f\<lparr>f_disabled := 1\<rparr> else f)"

definition ForwarderFromURL :: "(string \<Rightarrow> string result) \<Rightarrow> (string \<Rightarrow> string \<Rightarrow> string result)
    \<Rightarrow> string \<Rightarrow> string \<Rightarrow> fwdr result" where
  "ForwarderFromURL new_direct dial_url s intface =
     (let ss = split_on CHR ''#'' s;
          f0 = new_fwdr\<lparr>f_url := s\<rparr>;
          f1 = (if length ss > 1 then parseOption (ss ! 1) f0 else f0);
          iface = (if f_intface f1 \<noteq> [] \<and> f_intface f1 \<noteq> intface then f_intface f1 else intface)
      in case new_direct iface of
           Inl e \<Rightarrow> Inl e
         | Inr d \<Rightarrow>
             (case dialer_chain dial_url (split_on CHR '','' (ss ! 0)) d [] of
                Inl e \<Rightarrow> Inl e
              | Inr (d', addrs) \<Rightarrow>
                  Inr (Disable_plain (f1\<lparr>f_addr := (if addrs \<noteq> [] then join_with '','' addrs else d')\<rparr>))))"

definition DirectForwarder :: "(string \<Rightarrow> string result) \<Rightarrow> string \<Rightarrow> fwdr result" where
  "DirectForwarder new_direct intface =
     (case new_direct intface of Inl e \<Rightarrow> Inl e | Inr d \<Rightarrow> Inr (new_fwdr\<lparr>f_addr := d\<rparr>))"

subsection \<open>Groups\<close>

datatype sched = RR | HA | LHA | DH

record group =
  g_name :: string
  g_config :: strategy
  g_fwdrs :: "nat list"
  g_avail :: "nat list"
  g_index :: u32
  g_priority :: u32
  g_next :: sched
  g_mem :: "nat \<Rightarrow> fwdr"

definition upd :: "nat \<Rightarrow> (fwdr \<Rightarrow> fwdr) \<Rightarrow> group \<Rightarrow> group" where
  "upd i h g = g\<lparr>g_mem := (g_mem g)(i := h (g_mem g i))\<rparr>"

definition enabled :: "group \<Rightarrow> nat \<Rightarrow> bool" where
  "enabled g i = Enabled (g_mem g i)"

definition pri :: "group \<Rightarrow> nat \<Rightarrow> u32" where
  "pri g i = f_priority (g_mem g i)"

definition group_init :: "group \<Rightarrow> group" where
  "group_init g =
     (let g1 = (case filter (enabled g) (g_fwdrs g) of [] \<Rightarrow> g | i # _ \<Rightarrow> g\<lparr>g_priority := pri g i\<rparr>);
          av = filter (\<lambda>i. enabled g i \<and> g_priority g1 \<le> pri g i) (g_fwdrs g)
      in g1\<lparr>g_avail := av, g_priority := (if av = [] then 0 else g_priority g1)\<rparr>)"

text \<open>The removal in \<open>onStatusChanged\<close>: the first occurrence is overwritten by the last element
  and the slice is shortened.\<close>

fun index_of :: "'a \<Rightarrow> 'a list \<Rightarrow> nat option" where
  "index_of x [] = None"
| "index_of x (y # ys) = (if y = x then Some 0 else map_option Suc (index_of x ys))"

definition swap_remove :: "nat \<Rightarrow> nat list \<Rightarrow> nat list" where
  "swap_remove x xs =
     (case index_of x xs of None \<Rightarrow> xs | Some i \<Rightarrow> butlast (xs[i := last xs]))"

definition onStatusChanged :: "nat \<Rightarrow> group \<Rightarrow> group" where
  "onStatusChanged i g =
     (let g1 =
        (if enabled g i then
           (if pri g i = g_priority g then g\<lparr>g_avail := g_avail g @ [i]\<rparr>
            else if g_priority g < pri g i then group_init g
            else g)
         else g\<lparr>g_avail := swap_remove i (g_avail g)\<rparr>)
      in if g_avail g1 = [] then group_init g1 else g1)"

definition Enable :: "nat \<Rightarrow> group \<Rightarrow> group" where
  "Enable i g =
     (let g1 = (if f_disabled (g_mem g i) = 1
                then onStatusChanged i (upd i (\<lambda>f. f\<lparr>f_disabled := 0\<rparr>) g) else g)
      in upd i (\<lambda>f. f\<lparr>f_failures := 0\<rparr>) g1)"

definition Disable :: "nat \<Rightarrow> group \<Rightarrow> group" where
  "Disable i g =
     (if f_disabled (g_mem g i) = 0
      then onStatusChanged i (upd i (\<lambda>f. f\<lparr>f_disabled := 1\<rparr>) g) else g)"

definition IncFailures :: "nat \<Rightarrow> group \<Rightarrow> group" where
  "IncFailures i g =
     (let g1 = upd i (\<lambda>f. f\<lparr>f_failures := f_failures f + 1\<rparr>) g;
          f = g_mem g1 i
      in if f_maxFailures f = 0 then g1
         else if f_failures f = f_maxFailures f \<and> enabled g1 i then Disable i g1
         else g1)"

text \<open>\<open>Forwarder.Dial\<close> with the outcome of the dialer below; \<open>Proxy.Record\<close> on a forwarder.\<close>

definition fwdr_Dial :: "nat \<Rightarrow> 'c result \<Rightarrow> group \<Rightarrow> 'c result \<times> group" where
  "fwdr_Dial i r g = (r, case r of Inl _ \<Rightarrow> IncFailures i g | Inr _ \<Rightarrow> g)"

definition markSelected :: "int \<Rightarrow> nat \<Rightarrow> group \<Rightarrow> group" where
  "markSelected now i g = upd i (\<lambda>f. f\<lparr>f_lastSelected := Some now\<rparr>) g"

definition Record :: "int \<Rightarrow> nat \<Rightarrow> bool \<Rightarrow> group \<Rightarrow> group" where
  "Record now i success g = (if \<not> success then IncFailures i g else Enable i (markSelected now i g))"

definition recordCheck :: "int \<Rightarrow> string option \<Rightarrow> nat \<Rightarrow> group \<Rightarrow> group" where
  "recordCheck now err i g =
     upd i (\<lambda>f. f\<lparr>f_lastCheck := Some now, f_lastError := (case err of None \<Rightarrow> [] | Some e \<Rightarrow> e)\<rparr>) g"

subsection \<open>Scheduling\<close>

definition schedule_at :: "u32 \<Rightarrow> nat list \<Rightarrow> nat" where
  "schedule_at i xs = xs ! unat (i mod of_nat (length xs))"

definition scheduleRR :: "group \<Rightarrow> string \<Rightarrow> nat \<times> group" where
  "scheduleRR g dst =
     (let g' = g\<lparr>g_index := g_index g + 1\<rparr> in (schedule_at (g_index g') (g_avail g'), g'))"

definition scheduleHA :: "group \<Rightarrow> string \<Rightarrow> nat \<times> group" where
  "scheduleHA g dst = (g_avail g ! 0, g)"

definition lat :: "group \<Rightarrow> nat \<Rightarrow> int" where
  "lat g i = f_latency (g_mem g i)"

fun lowest_latency :: "(nat \<Rightarrow> int) \<Rightarrow> nat list \<Rightarrow> nat \<times> int \<Rightarrow> nat \<times> int" where
  "lowest_latency l [] best = best"
| "lowest_latency l (i # is) (b, low) = lowest_latency l is (if l i < low then (i, l i) else (b, low))"

definition scheduleLHA :: "group \<Rightarrow> string \<Rightarrow> nat \<times> group" where
  "scheduleLHA g dst =
     (let old = g_avail g ! 0;
          new = fst (lowest_latency (lat g) (g_avail g) (old, lat g old));
          tolerance = i64 (st_CheckTolerance (g_config g) * 1000000)
      in (if lat g new < i64 (lat g old - tolerance) then new else old, g))"

fun fnv32a :: "u32 \<Rightarrow> bytes \<Rightarrow> u32" where
  "fnv32a h [] = h"
| "fnv32a h (b # bs) = fnv32a ((h XOR ucast b) * 16777619) bs"

definition scheduleDH :: "group \<Rightarrow> string \<Rightarrow> nat \<times> group" where
  "scheduleDH g dst = (schedule_at (fnv32a 2166136261 (str_bytes dst)) (g_avail g), g)"

definition run_sched :: "sched \<Rightarrow> group \<Rightarrow> string \<Rightarrow> nat \<times> group" where
  "run_sched s =
     (case s of RR \<Rightarrow> scheduleRR | HA \<Rightarrow> scheduleHA | LHA \<Rightarrow> scheduleLHA | DH \<Rightarrow> scheduleDH)"

definition group_NextDialer :: "string \<Rightarrow> group \<Rightarrow> nat \<times> group" where
  "group_NextDialer dst g =
     (if g_avail g = [] then
        let g' = g\<lparr>g_index := g_index g + 1\<rparr> in (schedule_at (g_index g') (g_fwdrs g'), g')
      else run_sched (g_next g) g dst)"

subsection \<open>Building a group\<close>

definition choose_sched :: "nat \<Rightarrow> string \<Rightarrow> sched" where
  "choose_sched cnt s =
     (if cnt > 1 then
        (if s = ''rr'' then RR else if s = ''ha'' then HA else if s = ''lha'' then LHA
         else if s = ''dh'' then DH else RR)
      else RR)"

text \<open>\<open>srt\<close> is \<open>sort.Sort\<close> with the order of \<open>priSlice\<close>: higher priorities first.\<close>

definition newFwdrGroup :: "((nat \<Rightarrow> u32) \<Rightarrow> nat list \<Rightarrow> nat list) \<Rightarrow> string \<Rightarrow> fwdr list \<Rightarrow> strategy \<Rightarrow> group" where
  "newFwdrGroup srt name fs c =
     (let mem = (\<lambda>i. if i < length fs then fs ! i else new_fwdr);
          g0 = \<lparr>g_name = name, g_config = c, g_fwdrs = srt (\<lambda>i. f_priority (mem i)) [0..<length fs],
                g_avail = [], g_index = 0, g_priority = 0, g_next = RR, g_mem = mem\<rparr>
      in (group_init g0)\<lparr>g_next := choose_sched (length fs) (st_Strategy c)\<rparr>)"

fun forwarders_from :: "(string \<Rightarrow> fwdr result) \<Rightarrow> u32 \<Rightarrow> string list \<Rightarrow> fwdr list result" where
  "forwarders_from mk mf [] = Inr []"
| "forwarders_from mk mf (s # ss) =
     (case mk s of
        Inl e \<Rightarrow> Inl e
      | Inr f \<Rightarrow>
          (case forwarders_from mk mf ss of
             Inl e \<Rightarrow> Inl e
           | Inr fs \<Rightarrow> Inr (f\<lparr>f_maxFailures := mf\<rparr> # fs)))"

text \<open>\<open>NewFwdrGroup\<close>; an error ends the program (\<open>log.Fatal\<close>).  \<open>filepath.Base\<close> and \<open>Ext\<close> are the text after
  the last slash and from the last dot of it.\<close>

definition path_base :: "string \<Rightarrow> string" where
  "path_base p =
     (if p = [] then ''.''
      else let q = trim_right (\<lambda>c. c = CHR ''/'') p in
        if q = [] then ''/''
        else (case last_index_byte CHR ''/'' q of None \<Rightarrow> q | Some i \<Rightarrow> drop (Suc i) q))"

definition path_ext :: "string \<Rightarrow> string" where
  "path_ext p =
     (let b = (case last_index_byte CHR ''/'' p of None \<Rightarrow> p | Some i \<Rightarrow> drop (Suc i) p)
      in case last_index_byte CHR ''.'' b of None \<Rightarrow> [] | Some i \<Rightarrow> drop i b)"

definition NewFwdrGroup :: "((nat \<Rightarrow> u32) \<Rightarrow> nat list \<Rightarrow> nat list) \<Rightarrow> (string \<Rightarrow> string result)
    \<Rightarrow> (string \<Rightarrow> string \<Rightarrow> string result) \<Rightarrow> string \<Rightarrow> string list \<Rightarrow> strategy \<Rightarrow> group result" where
  "NewFwdrGroup srt new_direct dial_url rulePath ss c =
     (case forwarders_from (\<lambda>s. ForwarderFromURL new_direct dial_url s (st_IntFace c))
             (of_int (st_MaxFailures c)) ss of
        Inl e \<Rightarrow> Inl e
      | Inr fs \<Rightarrow>
          let name = trim_suffix (path_base rulePath) (path_ext rulePath) in
          if fs = [] then
            (case DirectForwarder new_direct (st_IntFace c) of
               Inl e \<Rightarrow> Inl e
             | Inr d \<Rightarrow> Inr (newFwdrGroup srt name [d] (c\<lparr>st_Strategy := ''rr''\<rparr>)))
          else Inr (newFwdrGroup srt name fs c))"

subsection \<open>Health checks\<close>

definition setLatency :: "nat \<Rightarrow> int \<Rightarrow> group \<Rightarrow> group" where
  "setLatency i elapsed g =
     (let cnt = st_CheckLatencySamples (g_config g);
          last_l = lat g i;
          new_l = (if cnt > 1 \<and> last_l > 0
                   then quot64 (i64 (i64 (last_l * (cnt - 1)) + elapsed)) cnt else elapsed)
      in upd i (\<lambda>f. f\<lparr>f_latency := new_l\<rparr>) g)"

datatype check_result = CheckOk int | CheckNotSupported string | CheckFailed string

text \<open>One turn of the loop of \<open>check\<close>, after the sleep of \<open>wait\<close> intervals: the next \<open>wait\<close>, or \<open>None\<close>
  when the loop is left, and the group.  \<open>now\<close> is the time of the check.\<close>

definition check_turn :: "int \<Rightarrow> check_result \<Rightarrow> nat \<Rightarrow> byte \<Rightarrow> group \<Rightarrow> byte option \<times> group" where
  "check_turn now r i wait g =
     (if wait > 0 \<and> pri g i < g_priority g then (Some wait, g)
      else if enabled g i \<and> st_CheckDisabledOnly (g_config g) then (Some wait, g)
      else
        case r of
          CheckNotSupported e \<Rightarrow>
            (None, Enable i (upd i (\<lambda>f. f\<lparr>f_maxFailures := 0\<rparr>) (recordCheck now (Some e) i g)))
        | CheckFailed e \<Rightarrow>
            (Some (if wait + 1 > 16 then 16 else wait + 1), Disable i (recordCheck now (Some e) i g))
        | CheckOk elapsed \<Rightarrow>
            (Some 1, Enable i (recordCheck now None i (setLatency i elapsed g))))"

section \<open>Specification vocabulary\<close>

text \<open>The forwarders a group should use: enabled, and none enabled with a higher priority.\<close>

definition Best :: "group \<Rightarrow> nat set" where
  "Best g = {i \<in> set (g_fwdrs g). enabled g i \<and> (\<forall>j\<in>set (g_fwdrs g). enabled g j \<longrightarrow> pri g j \<le> pri g i)}"

definition avail_exact :: "group \<Rightarrow> bool" where
  "avail_exact g \<longleftrightarrow> distinct (g_avail g) \<and> set (g_avail g) = Best g \<and>
     (\<forall>i\<in>set (g_avail g). pri g i = g_priority g) \<and> (g_avail g = [] \<longrightarrow> g_priority g = 0)"

definition group_frame :: "group \<Rightarrow> bool" where
  "group_frame g \<longleftrightarrow> g_fwdrs g \<noteq> [] \<and> length (g_fwdrs g) < 2 ^ 32 \<and> distinct (g_fwdrs g) \<and>
     sorted_wrt (\<lambda>i j. pri g j \<le> pri g i) (g_fwdrs g) \<and> (\<forall>i. f_disabled (g_mem g i) \<in> {0, 1})"

definition group_inv :: "group \<Rightarrow> bool" where
  "group_inv g \<longleftrightarrow> group_frame g \<and> avail_exact g"


text \<open>The life of a group, one call at a time: status changes, results of connections, health checks
  and choices of dialers, for any of its forwarders.\<close>

inductive group_step :: "group \<Rightarrow> group \<Rightarrow> bool" where
  gs_Enable: "i \<in> set (g_fwdrs g) \<Longrightarrow> group_step g (Enable i g)"
| gs_Disable: "i \<in> set (g_fwdrs g) \<Longrightarrow> group_step g (Disable i g)"
| gs_Dial: "i \<in> set (g_fwdrs g) \<Longrightarrow> group_step g (snd (fwdr_Dial i (r :: unit result) g))"
| gs_Record: "i \<in> set (g_fwdrs g) \<Longrightarrow> group_step g (Record now i s g)"
| gs_check: "i \<in> set (g_fwdrs g) \<Longrightarrow> check_turn now r i w g = (w', g') \<Longrightarrow> group_step g g'"
| gs_Next: "group_step g (snd (group_NextDialer d g))"

text \<open>What \<open>sort.Sort\<close> promises for the order of \<open>priSlice\<close>: a permutation, higher priorities first.\<close>

definition sorts_by_priority :: "((nat \<Rightarrow> u32) \<Rightarrow> nat list \<Rightarrow> nat list) \<Rightarrow> bool" where
  "sorts_by_priority srt \<longleftrightarrow> (\<forall>p xs. mset (srt p xs) = mset xs \<and> sorted_wrt (\<lambda>i j. p j \<le> p i) (srt p xs))"

text \<open>The choices of \<open>n\<close> successive calls of \<open>NextDialer\<close>.\<close>

fun next_n :: "nat \<Rightarrow> string \<Rightarrow> group \<Rightarrow> nat list" where
  "next_n 0 d g = []"
| "next_n (Suc n) d g = fst (group_NextDialer d g) # next_n n d (snd (group_NextDialer d g))"

text \<open>Concurrent status changes: the swap of the \<open>disabled\<close> flag and the call of the handler are
  separate steps, and handlers of earlier changes may still be pending.\<close>

inductive race_step :: "group \<times> nat list \<Rightarrow> group \<times> nat list \<Rightarrow> bool" where
  rs_enable: "i \<in> set (g_fwdrs g) \<Longrightarrow> f_disabled (g_mem g i) = 1 \<Longrightarrow>
     race_step (g, ps) (upd i (\<lambda>f. f\<lparr>f_disabled := 0\<rparr>) g, i # ps)"
| rs_disable: "i \<in> set (g_fwdrs g) \<Longrightarrow> f_disabled (g_mem g i) = 0 \<Longrightarrow>
     race_step (g, ps) (upd i (\<lambda>f. f\<lparr>f_disabled := 1\<rparr>) g, i # ps)"
| rs_handler: "i \<in> set ps \<Longrightarrow> race_step (g, ps) (onStatusChanged i g, remove1 i ps)"
| rs_count: "(\<And>f. f_disabled (h f) = f_disabled f) \<Longrightarrow> (\<And>f. f_priority (h f) = f_priority f) \<Longrightarrow>
     race_step (g, ps) (upd i h g, ps)"
| rs_next: "race_step (g, ps) (snd (group_NextDialer d g), ps)"

inductive_cases race_stepE: "race_step (g, ps) (g', ps')"

text \<open>What survives every interleaving: the scheduler only ever sees forwarders of the group.\<close>

definition race_inv :: "group \<times> nat list \<Rightarrow> bool" where
  "race_inv s \<longleftrightarrow> g_fwdrs (fst s) \<noteq> [] \<and> set (g_avail (fst s)) \<subseteq> set (g_fwdrs (fst s)) \<and>
     set (snd s) \<subseteq> set (g_fwdrs (fst s))"

definition insert_sort :: "(nat \<Rightarrow> u32) \<Rightarrow> nat list \<Rightarrow> nat list" where
  "insert_sort p xs = rev (sort_key p xs)"

definition example_strategy :: strategy where
  "example_strategy = \<lparr>st_Strategy = ''rr'', st_Check = [], st_CheckInterval = 30, st_CheckTimeout = 10,
     st_CheckTolerance = 0, st_CheckLatencySamples = 10, st_CheckDisabledOnly = False, st_MaxFailures = 3,
     st_DialTimeout = 3, st_RelayTimeout = 0, st_IntFace = []\<rparr>"

definition example_fwdrs :: "fwdr list" where
  "example_fwdrs = [new_fwdr\<lparr>f_maxFailures := 3\<rparr>, new_fwdr\<lparr>f_priority := 9, f_disabled := 1\<rparr>, new_fwdr\<lparr>f_disabled := 1\<rparr>]"

definition example_group :: group where
  "example_group = newFwdrGroup insert_sort ''main'' example_fwdrs example_strategy"

definition race_group :: "nat list \<Rightarrow> u32 \<Rightarrow> group" where
  "race_group a b = \<lparr>g_name = ''main'', g_config = example_strategy, g_fwdrs = [0], g_avail = a, g_index = 0, g_priority = 0,
     g_next = RR, g_mem = (\<lambda>i. new_fwdr\<lparr>f_disabled := (if i = 0 then b else 1)\<rparr>)\<rparr>"

section \<open>Lemmas\<close>

lemma index_of_Some: "index_of x xs = Some i \<Longrightarrow> i < length xs \<and> xs ! i = x"
  by (induction xs arbitrary: i) (auto split: if_splits)

lemma index_of_None: "index_of x xs = None \<longleftrightarrow> x \<notin> set xs"
  by (induction xs) auto

lemma mset_swap_remove: "mset (swap_remove x xs) = mset xs - {#x#}"
proof (cases "index_of x xs")
  case None
  then have "x \<notin> set xs" by (simp add: index_of_None)
  then show ?thesis by (simp add: swap_remove_def None diff_single_trivial del: index_of_None)
next
  case (Some i)
  then have i: "i < length xs" "xs ! i = x" by (auto dest: index_of_Some)
  then obtain ys z where xs: "xs = ys @ [z]" by (metis gr_implies_not0 length_0_conv rev_exhaust)
  show ?thesis
  proof (cases "i = length ys")
    case True
    then show ?thesis using Some i by (simp add: swap_remove_def xs)
  next
    case False
    then have l: "i < length ys" using i xs by simp
    then have "swap_remove x xs = ys[i := z]" using Some by (simp add: swap_remove_def xs list_update_append)
    moreover have "x \<in># mset ys" using i l by (auto simp: xs nth_append)
    ultimately show ?thesis using i l by (simp add: xs mset_update nth_append)
  qed
qed

lemma swap_remove_distinct:
  assumes "distinct xs"
  shows "distinct (swap_remove x xs) \<and> set (swap_remove x xs) = set xs - {x}"
proof -
  have "mset (swap_remove x xs) = mset (remove1 x xs)" by (simp add: mset_swap_remove)
  then show ?thesis using assms mset_eq_setD mset_eq_imp_distinct_iff by (metis distinct_remove1 set_remove1_eq)
qed

subsection \<open>The available forwarders\<close>

lemma upd_simps [simp]:
  "g_fwdrs (upd i h g) = g_fwdrs g" "g_avail (upd i h g) = g_avail g" "g_index (upd i h g) = g_index g"
  "g_priority (upd i h g) = g_priority g" "g_next (upd i h g) = g_next g" "g_config (upd i h g) = g_config g"
  "g_mem (upd i h g) j = (if j = i then h (g_mem g i) else g_mem g j)"
  by (simp_all add: upd_def)

lemma group_init_frame [simp]:
  "g_fwdrs (group_init g) = g_fwdrs g" "g_mem (group_init g) = g_mem g" "g_next (group_init g) = g_next g"
  "g_config (group_init g) = g_config g" "g_index (group_init g) = g_index g"
  by (simp_all add: group_init_def Let_def split: list.split)

lemma enabled_cong: "g_mem g = g_mem g' \<Longrightarrow> enabled g = enabled g'" "g_mem g = g_mem g' \<Longrightarrow> pri g = pri g'"
  by (simp_all add: enabled_def pri_def fun_eq_iff)

lemma Best_cong: "g_mem g = g_mem g' \<Longrightarrow> g_fwdrs g = g_fwdrs g' \<Longrightarrow> Best g = Best g'"
  by (simp add: Best_def enabled_def pri_def)

lemma Best_pri: "i \<in> Best g \<Longrightarrow> j \<in> Best g \<Longrightarrow> pri g i = pri g j"
  by (auto simp: Best_def intro: antisym)

lemma Best_empty: "Best g = {} \<longleftrightarrow> (\<forall>i\<in>set (g_fwdrs g). \<not> enabled g i)"
proof
  let ?E = "{i \<in> set (g_fwdrs g). enabled g i}"
  assume "Best g = {}"
  show "\<forall>i\<in>set (g_fwdrs g). \<not> enabled g i"
  proof (rule ccontr)
    assume "\<not> ?thesis"
    then have "finite (pri g ` ?E)" "pri g ` ?E \<noteq> {}" by auto
    from Max_in[OF this] obtain i where i: "i \<in> ?E" "pri g i = Max (pri g ` ?E)" by auto
    have "pri g j \<le> pri g i" if "j \<in> ?E" for j using that i(2) by simp
    then have "i \<in> Best g" using i(1) by (auto simp: Best_def)
    then show False using \<open>Best g = {}\<close> by simp
  qed
qed (auto simp: Best_def)

lemma Best_top:
  assumes "b \<in> set (g_fwdrs g)" "enabled g b" "\<And>j. j \<in> set (g_fwdrs g) \<Longrightarrow> enabled g j \<Longrightarrow> pri g j \<le> pri g b"
  shows "Best g = {j \<in> set (g_fwdrs g). enabled g j \<and> pri g j = pri g b}"
proof -
  have b: "b \<in> Best g" using assms by (auto simp: Best_def)
  have "pri g j = pri g b" if "j \<in> Best g" for j using that b by (rule Best_pri)
  moreover have "j \<in> Best g" if "j \<in> set (g_fwdrs g)" "enabled g j" "pri g j = pri g b" for j
    using that b by (simp add: Best_def)
  ultimately show ?thesis by (auto simp: Best_def)
qed

lemma Best_topD: "b \<in> Best g \<Longrightarrow> Best g = {j \<in> set (g_fwdrs g). enabled g j \<and> pri g j = pri g b}"
  by (rule Best_top) (auto simp: Best_def)

lemma group_init_exact:
  assumes "group_frame g" shows "avail_exact (group_init g)"
proof -
  let ?es = "filter (enabled g) (g_fwdrs g)"
  have B: "Best (group_init g) = Best g" by (rule Best_cong) simp_all
  have P: "pri (group_init g) = pri g" by (rule enabled_cong) simp
  show ?thesis
  proof (cases ?es)
    case Nil
    then have "\<forall>i\<in>set (g_fwdrs g). \<not> enabled g i" by (auto simp: filter_empty_conv)
    then have "g_avail (group_init g) = []" "g_priority (group_init g) = 0" "Best g = {}"
      using Nil by (auto simp: group_init_def Let_def filter_empty_conv Best_empty)
    then show ?thesis by (simp add: avail_exact_def B)
  next
    case (Cons i es)
    have s: "sorted_wrt (\<lambda>i j. pri g j \<le> pri g i) ?es" using assms by (auto simp: group_frame_def intro: sorted_wrt_filter)
    have i: "i \<in> set (g_fwdrs g)" "enabled g i" using Cons by (metis filter_set list.set_intros(1) mem_Collect_eq set_filter)+
    have m: "pri g j \<le> pri g i" if "j \<in> set (g_fwdrs g)" "enabled g j" for j
    proof -
      have "j \<in> set (i # es)" using that Cons[symmetric] by simp
      then show ?thesis using s Cons by auto
    qed
    let ?av = "filter (\<lambda>j. enabled g j \<and> pri g i \<le> pri g j) (g_fwdrs g)"
    have "?av \<noteq> []" using i by (auto simp: filter_empty_conv)
    then have a: "g_avail (group_init g) = ?av" "g_priority (group_init g) = pri g i"
      using Cons by (simp_all add: group_init_def Let_def)
    have t: "pri g i \<le> pri g j \<longleftrightarrow> (\<forall>k\<in>set (g_fwdrs g). enabled g k \<longrightarrow> pri g k \<le> pri g j)" for j
      using m i by (meson order_trans)
    have "set ?av = Best g" unfolding Best_def set_filter t ..
    moreover have "distinct ?av" using assms by (simp add: group_frame_def)
    moreover have "pri g j = pri g i" if "j \<in> set ?av" for j 
    proof (rule antisym)
      show "pri g j \<le> pri g i" using that m[of j] by simp
      show "pri g i \<le> pri g j" using that by simp
    qed
    ultimately show ?thesis using \<open>?av \<noteq> []\<close> unfolding avail_exact_def B P a by blast
  qed
qed

lemma onStatusChanged_frame [simp]:
  "g_fwdrs (onStatusChanged i g) = g_fwdrs g" "g_mem (onStatusChanged i g) = g_mem g"
  "g_next (onStatusChanged i g) = g_next g" "g_config (onStatusChanged i g) = g_config g"
  "g_index (onStatusChanged i g) = g_index g"
  by (simp_all add: onStatusChanged_def Let_def)

lemma group_frame_cong:
  "g_fwdrs g' = g_fwdrs g \<Longrightarrow> (\<And>i. f_priority (g_mem g' i) = f_priority (g_mem g i)) \<Longrightarrow>
   (\<And>i. f_disabled (g_mem g' i) \<in> {0, 1}) \<Longrightarrow> group_frame g \<Longrightarrow> group_frame g'"
  by (simp add: group_frame_def pri_def)


lemma group_frame_upd:
  assumes "group_frame g" "f_priority (h (g_mem g i)) = f_priority (g_mem g i)" "f_disabled (h (g_mem g i)) \<in> {0, 1}"
  shows "group_frame (upd i h g)"
  by (rule group_frame_cong[OF _ _ _ assms(1)]) (use assms in \<open>auto simp: group_frame_def\<close>)

lemma enable_exact:
  assumes "group_inv g" "i \<in> set (g_fwdrs g)" "f_disabled (g_mem g i) = 1"
  shows "avail_exact (onStatusChanged i (upd i (\<lambda>f. f\<lparr>f_disabled := 0\<rparr>) g))"
proof -
  let ?g = "upd i (\<lambda>f. f\<lparr>f_disabled := 0\<rparr>) g"
  have fr: "group_frame ?g" using assms(1) by (auto simp: group_inv_def intro: group_frame_upd)
  have en: "enabled ?g i" "\<not> enabled g i" "\<And>j. enabled ?g j \<longleftrightarrow> j = i \<or> enabled g j" "\<And>j. pri ?g j = pri g j"
    using assms(3) by (simp_all add: enabled_def Enabled_def isTrue_def pri_def)
  have ex: "distinct (g_avail g)" "set (g_avail g) = Best g" "\<forall>j\<in>set (g_avail g). pri g j = g_priority g"
      "g_avail g = [] \<longrightarrow> g_priority g = 0"
    using assms(1) by (auto simp: group_inv_def avail_exact_def)
  have ni: "i \<notin> set (g_avail g)" using ex(2) en(2) by (auto simp: Best_def)
  consider (eq) "pri g i = g_priority g" | (gt) "g_priority g < pri g i" | (lt) "pri g i < g_priority g"
    by (meson antisym_conv3)
  then show ?thesis
  proof cases
    case eq
    have "Best ?g = insert i (Best g)"
    proof (cases "g_avail g = []")
      case True
      then have "Best g = {}" using ex(2) by simp
      then have none: "\<forall>j\<in>set (g_fwdrs g). \<not> enabled g j" by (simp add: Best_empty)
      then have "Best ?g = {i}" using assms(2) by (auto simp: Best_def en)
      then show ?thesis using \<open>Best g = {}\<close> by simp
    next
      case False
      then obtain b where b: "b \<in> Best g" "pri g b = g_priority g" using ex(2,3) by (metis hd_in_set)
      have "Best ?g = {j \<in> set (g_fwdrs ?g). enabled ?g j \<and> pri ?g j = pri ?g b}"
        using b eq by (intro Best_top) (auto simp: Best_def en)
      also have "\<dots> = insert i (Best g)" using assms(2) eq b(2) by (auto simp: Best_topD[OF b(1)] en)
      finally show ?thesis .
    qed
    then have "avail_exact (?g\<lparr>g_avail := g_avail g @ [i]\<rparr>)"
      using ex ni eq en by (auto simp: avail_exact_def Best_def pri_def enabled_def)
    then show ?thesis using eq en by (simp add: onStatusChanged_def)
  next
    case gt
    have ng: "pri ?g i \<noteq> g_priority ?g" "g_priority ?g < pri ?g i" using gt en(4) by auto
    then have "onStatusChanged i ?g = (if g_avail (group_init ?g) = [] then group_init (group_init ?g) else group_init ?g)"
      using en(1) by (simp add: onStatusChanged_def Let_def)
    moreover have "group_frame (group_init ?g)" 
      by (rule group_frame_cong[OF _ _ _ fr]) (use fr in \<open>auto simp: group_frame_def\<close>)
    ultimately show ?thesis using group_init_exact[OF fr] group_init_exact by auto
  next
    case lt
    then have "g_avail g \<noteq> []" using ex(4) by auto
    then obtain b where b: "b \<in> Best g" "pri g b = g_priority g" using ex(2,3) by (metis hd_in_set)
    have "Best ?g = {j \<in> set (g_fwdrs ?g). enabled ?g j \<and> pri ?g j = pri ?g b}"
      using b lt by (intro Best_top) (auto simp: Best_def en)
    also have "\<dots> = Best g" using lt b(2) by (auto simp: Best_topD[OF b(1)] en)
    finally have "avail_exact ?g" using ex en(4) \<open>g_avail g \<noteq> []\<close> by (simp add: avail_exact_def)
    moreover have "onStatusChanged i ?g = ?g"
      using lt en \<open>g_avail g \<noteq> []\<close> by (auto simp: onStatusChanged_def Let_def)
    ultimately show ?thesis by simp
  qed
qed


lemma disable_exact:
  assumes "group_inv g" "i \<in> set (g_fwdrs g)" "f_disabled (g_mem g i) = 0"
  shows "avail_exact (onStatusChanged i (upd i (\<lambda>f. f\<lparr>f_disabled := 1\<rparr>) g))"
proof -
  let ?g = "upd i (\<lambda>f. f\<lparr>f_disabled := 1\<rparr>) g"
  let ?h = "?g\<lparr>g_avail := swap_remove i (g_avail g)\<rparr>"
  have fr: "group_frame ?g" using assms(1) by (auto simp: group_inv_def intro: group_frame_upd)
  have en: "\<not> enabled ?g i" "\<And>j. enabled ?g j \<longleftrightarrow> j \<noteq> i \<and> enabled g j" "\<And>j. pri ?g j = pri g j"
    by (simp_all add: enabled_def Enabled_def isTrue_def pri_def)
  have ex: "distinct (g_avail g)" "set (g_avail g) = Best g" "\<forall>j\<in>set (g_avail g). pri g j = g_priority g"
    using assms(1) by (auto simp: group_inv_def avail_exact_def)
  have sr: "distinct (swap_remove i (g_avail g))" "set (swap_remove i (g_avail g)) = Best g - {i}"
    using swap_remove_distinct[OF ex(1), of i] ex(2) by auto
  have fh: "group_frame ?h" by (rule group_frame_cong[OF _ _ _ fr]) (use fr in \<open>auto simp: group_frame_def\<close>)
  have st: "onStatusChanged i ?g = (if g_avail ?h = [] then group_init ?h else ?h)"
    using en(1) by (simp add: onStatusChanged_def)
  show ?thesis
  proof (cases "g_avail ?h = []")
    case True
    then show ?thesis using st group_init_exact[OF fh] by simp
  next
    case False
    then have "Best g - {i} \<noteq> {}" using sr(2) unfolding sr(2)[symmetric] by simp
    then obtain b where b: "b \<in> Best g" "b \<noteq> i" by auto
    have "Best ?g = {j \<in> set (g_fwdrs ?g). enabled ?g j \<and> pri ?g j = pri ?g b}"
      using b by (intro Best_top) (auto simp: Best_def en)
    also have "\<dots> = Best g - {i}" by (auto simp: Best_topD[OF b(1)] en)
    finally have "Best ?h = Best g - {i}" by (simp add: Best_def enabled_def pri_def)
    then have "avail_exact ?h" using sr ex(2,3) False
      by (auto simp: avail_exact_def pri_def)
    then show ?thesis using st False by simp
  qed
qed


text \<open>Updates of fields that neither status nor priority depends on.\<close>

lemma avail_exact_cong:
  assumes "g_fwdrs g' = g_fwdrs g" "g_avail g' = g_avail g" "g_priority g' = g_priority g"
    "\<And>j. f_priority (g_mem g' j) = f_priority (g_mem g j)" "\<And>j. f_disabled (g_mem g' j) = f_disabled (g_mem g j)"
  shows "avail_exact g' = avail_exact g"
proof -
  have "enabled g' = enabled g" "pri g' = pri g"
    using assms(4,5) by (auto simp: fun_eq_iff enabled_def Enabled_def pri_def)
  then show ?thesis using assms(1-3) by (simp add: avail_exact_def Best_def)
qed

lemma group_inv_upd:
  assumes "group_inv g" "f_priority (h (g_mem g i)) = f_priority (g_mem g i)" "f_disabled (h (g_mem g i)) = f_disabled (g_mem g i)"
  shows "group_inv (upd i h g)"
proof -
  have "group_frame (upd i h g)" using assms by (intro group_frame_upd) (auto simp: group_inv_def group_frame_def)
  moreover have "avail_exact (upd i h g) = avail_exact g" using assms by (intro avail_exact_cong) auto
  ultimately show ?thesis using assms(1) by (simp add: group_inv_def)
qed

lemma status_frame:
  assumes "group_frame g" "v \<in> {0, 1}"
  shows "group_frame (onStatusChanged i (upd i (\<lambda>f. f\<lparr>f_disabled := v\<rparr>) g))"
proof -
  have "group_frame (upd i (\<lambda>f. f\<lparr>f_disabled := v\<rparr>) g)" using assms by (intro group_frame_upd) auto
  then show ?thesis by (rule group_frame_cong[rotated 3]) (use assms in \<open>auto simp: group_frame_def\<close>)
qed

lemma Enable_inv:
  assumes "group_inv g" "i \<in> set (g_fwdrs g)" shows "group_inv (Enable i g)"
proof -
  have "group_inv (if f_disabled (g_mem g i) = 1 then onStatusChanged i (upd i (\<lambda>f. f\<lparr>f_disabled := 0\<rparr>) g) else g)"
    using assms enable_exact[OF assms] status_frame[of g 0 i] by (auto simp: group_inv_def)
  then show ?thesis unfolding Enable_def Let_def by (rule group_inv_upd) auto
qed

lemma Disable_inv: "group_inv g \<Longrightarrow> i \<in> set (g_fwdrs g) \<Longrightarrow> group_inv (Disable i g)"
  using disable_exact[of g i] status_frame[of g 1 i] by (auto simp: Disable_def group_inv_def)

lemma Enable_fwdrs [simp]: "g_fwdrs (Enable i g) = g_fwdrs g" "g_next (Enable i g) = g_next g" "g_config (Enable i g) = g_config g"
    "g_index (Enable i g) = g_index g"
  by (simp_all add: Enable_def Let_def)

lemma Disable_fwdrs [simp]: "g_fwdrs (Disable i g) = g_fwdrs g" "g_next (Disable i g) = g_next g" "g_config (Disable i g) = g_config g"
    "g_index (Disable i g) = g_index g"
  by (simp_all add: Disable_def)

lemma Enable_enabled:
  assumes "group_frame g" shows "enabled (Enable i g) i"
proof -
  have "f_disabled (g_mem g i) = 0 \<or> f_disabled (g_mem g i) = 1" using assms by (auto simp: group_frame_def)
  then show ?thesis by (auto simp: Enable_def Let_def enabled_def Enabled_def isTrue_def)
qed

lemma Disable_disabled:
  assumes "group_frame g" shows "\<not> enabled (Disable i g) i"
proof -
  have "f_disabled (g_mem g i) = 0 \<or> f_disabled (g_mem g i) = 1" using assms by (auto simp: group_frame_def)
  then show ?thesis by (auto simp: Disable_def enabled_def Enabled_def isTrue_def)
qed

lemma IncFailures_inv:
  assumes "group_inv g" "i \<in> set (g_fwdrs g)" shows "group_inv (IncFailures i g) \<and> g_fwdrs (IncFailures i g) = g_fwdrs g"
proof -
  have "group_inv (upd i (\<lambda>f. f\<lparr>f_failures := f_failures f + 1\<rparr>) g)" using assms(1) by (rule group_inv_upd) auto
  then show ?thesis using assms(2) by (auto simp: IncFailures_def Let_def intro: Disable_inv)
qed

lemma Record_inv:
  assumes "group_inv g" "i \<in> set (g_fwdrs g)" shows "group_inv (Record now i s g) \<and> g_fwdrs (Record now i s g) = g_fwdrs g"
proof (cases s)
  case True
  have "group_inv (markSelected now i g)" unfolding markSelected_def using assms(1) by (rule group_inv_upd) auto
  then show ?thesis using True assms(2) by (auto simp: Record_def markSelected_def intro!: Enable_inv)
qed (use IncFailures_inv[OF assms] in \<open>simp add: Record_def\<close>)

lemma setLatency_inv: "group_inv g \<Longrightarrow> group_inv (setLatency i e g)"
  unfolding setLatency_def Let_def by (rule group_inv_upd) auto

lemma recordCheck_inv: "group_inv g \<Longrightarrow> group_inv (recordCheck now e i g)"
  unfolding recordCheck_def by (rule group_inv_upd) auto

lemma check_frames [simp]: "g_fwdrs (setLatency i e g) = g_fwdrs g" "g_fwdrs (recordCheck now er i g) = g_fwdrs g"
  by (simp_all add: setLatency_def recordCheck_def Let_def)

lemma check_turn_inv:
  assumes "group_inv g" "i \<in> set (g_fwdrs g)" "check_turn now r i w g = (w', g')"
  shows "group_inv g' \<and> g_fwdrs g' = g_fwdrs g"
proof -
  have u: "group_inv (upd i (\<lambda>f. f\<lparr>f_maxFailures := 0\<rparr>) (recordCheck now e i g))" for e
    using recordCheck_inv[OF assms(1)] by (rule group_inv_upd) auto
  show ?thesis using assms u
    by (auto simp: check_turn_def intro!: Enable_inv Disable_inv recordCheck_inv setLatency_inv
        split: if_splits check_result.splits)
qed



subsection \<open>Scheduling\<close>

locale scheduler =
  fixes sc :: "group \<Rightarrow> string \<Rightarrow> nat \<times> group"
  assumes picks: "g_avail g \<noteq> [] \<Longrightarrow> length (g_avail g) < 2 ^ 32 \<Longrightarrow> fst (sc g d) \<in> set (g_avail g)"
    and keeps: "\<exists>k. snd (sc g d) = g\<lparr>g_index := k\<rparr>"
begin

lemma picks_best:
  assumes "group_inv g" "g_avail g \<noteq> []" "length (g_avail g) < 2 ^ 32"
  shows "fst (sc g d) \<in> Best g"
  using picks[OF assms(2,3)] assms(1) by (auto simp: group_inv_def avail_exact_def)

lemma keeps_inv: "group_inv g \<Longrightarrow> group_inv (snd (sc g d)) \<and> g_fwdrs (snd (sc g d)) = g_fwdrs g"
proof -
  assume a: "group_inv g"
  obtain k where k: "snd (sc g d) = g\<lparr>g_index := k\<rparr>" using keeps by blast
  have "group_frame (g\<lparr>g_index := k\<rparr>)" using a by (auto simp: group_inv_def group_frame_def pri_def)
  moreover have "avail_exact (g\<lparr>g_index := k\<rparr>)" using a avail_exact_cong[of "g\<lparr>g_index := k\<rparr>" g] by (simp add: group_inv_def)
  ultimately show ?thesis using k by (simp add: group_inv_def)
qed

end

lemma schedule_at_in:
  assumes "xs \<noteq> []" "length xs < 2 ^ 32"
  shows "schedule_at i xs = xs ! (unat i mod length xs)" "schedule_at i xs \<in> set xs"
proof -
  have "unat (of_nat (length xs) :: u32) = length xs" using assms(2) by (simp add: unat_of_nat)
  then show e: "schedule_at i xs = xs ! (unat i mod length xs)" by (simp add: schedule_at_def unat_mod)
  show "schedule_at i xs \<in> set xs" using assms(1) by (simp add: e)
qed

lemma lowest_latency_spec:
  "l b = low \<Longrightarrow> (\<lambda>(b', low'). l b' = low' \<and> low' \<le> low \<and> (\<forall>j\<in>set xs. low' \<le> l j) \<and> (b' = b \<or> b' \<in> set xs))
     (lowest_latency l xs (b, low))"
proof (induction xs arbitrary: b low)
  case (Cons x xs)
  show ?case
  proof (cases "l x < low")
    case True
    then show ?thesis using Cons.IH[of x "l x"] Cons.prems by auto
  next
    case False
    then show ?thesis using Cons.IH[of b low] Cons.prems by auto
  qed
qed auto

lemma index_self: "\<exists>k. (g :: group) = g\<lparr>g_index := k\<rparr>"
  by (rule exI[of _ "g_index g"]) simp

interpretation rr: scheduler scheduleRR
  by unfold_locales (auto simp: scheduleRR_def Let_def intro: schedule_at_in(2))

interpretation ha: scheduler scheduleHA
  by unfold_locales (auto simp: scheduleHA_def intro: index_self)

interpretation lha: scheduler scheduleLHA
proof unfold_locales
  fix g :: group and d
  assume a: "g_avail g \<noteq> []"
  have "fst (lowest_latency (lat g) (g_avail g) (g_avail g ! 0, lat g (g_avail g ! 0))) \<in> insert (g_avail g ! 0) (set (g_avail g))"
    using lowest_latency_spec[of "lat g" "g_avail g ! 0" _ "g_avail g"] by (auto simp: split_beta)
  then show "fst (scheduleLHA g d) \<in> set (g_avail g)" using a by (auto simp: scheduleLHA_def Let_def)
next
  show "\<exists>k. snd (scheduleLHA g d) = g\<lparr>g_index := k\<rparr>" for g d
    by (simp add: scheduleLHA_def Let_def index_self)
qed

interpretation dh: scheduler scheduleDH
  by unfold_locales (auto simp: scheduleDH_def intro: schedule_at_in(2) index_self)

interpretation sch: scheduler "run_sched s" for s
proof unfold_locales
  show "fst (run_sched s g d) \<in> set (g_avail g)" if "g_avail g \<noteq> []" "length (g_avail g) < 2 ^ 32" for g d
    using that rr.picks ha.picks lha.picks dh.picks by (cases s) (simp_all add: run_sched_def)
  show "\<exists>k. snd (run_sched s g d) = g\<lparr>g_index := k\<rparr>" for g d
    using rr.keeps ha.keeps lha.keeps dh.keeps by (cases s) (simp_all add: run_sched_def)
qed

lemma avail_length: "group_inv g \<Longrightarrow> length (g_avail g) < 2 ^ 32"
proof -
  assume a: "group_inv g"
  then have "length (g_avail g) = card (Best g)"
    by (metis avail_exact_def distinct_card group_inv_def)
  also have "\<dots> \<le> card (set (g_fwdrs g))" by (rule card_mono) (auto simp: Best_def)
  also have "\<dots> \<le> length (g_fwdrs g)" by (rule card_length)
  also have "\<dots> < 2 ^ 32" using a by (simp add: group_inv_def group_frame_def)
  finally show ?thesis .
qed

lemma NextDialer_keeps: "\<exists>k. snd (group_NextDialer d g) = g\<lparr>g_index := k\<rparr>"
  using sch.keeps[of "g_next g" g d] by (auto simp: group_NextDialer_def Let_def)

lemma NextDialer_choice:
  assumes "group_inv g"
  shows "fst (group_NextDialer d g) \<in> (if Best g = {} then set (g_fwdrs g) else Best g)"
proof (cases "g_avail g = []")
  case True
  then have "Best g = {}" using assms by (auto simp: group_inv_def avail_exact_def)
  then show ?thesis using True assms schedule_at_in(2)[of "g_fwdrs g"]
    by (simp add: group_NextDialer_def Let_def group_inv_def group_frame_def)
next
  case False
  then have "Best g \<noteq> {}" using assms by (auto simp: group_inv_def avail_exact_def)
  then show ?thesis using sch.picks_best[OF assms False avail_length[OF assms]] False by (simp add: group_NextDialer_def)
qed

lemma NextDialer_inv: "group_inv g \<Longrightarrow> group_inv (snd (group_NextDialer d g)) \<and> g_fwdrs (snd (group_NextDialer d g)) = g_fwdrs g"
proof -
  assume a: "group_inv g"
  obtain k where k: "snd (group_NextDialer d g) = g\<lparr>g_index := k\<rparr>" using NextDialer_keeps by blast
  have "group_frame (g\<lparr>g_index := k\<rparr>)" using a by (auto simp: group_inv_def group_frame_def pri_def)
  moreover have "avail_exact (g\<lparr>g_index := k\<rparr>)" using a avail_exact_cong[of "g\<lparr>g_index := k\<rparr>" g] by (simp add: group_inv_def)
  ultimately show ?thesis using k by (simp add: group_inv_def)
qed

lemma group_step_inv: "group_step g g' \<Longrightarrow> group_inv g \<Longrightarrow> group_inv g' \<and> g_fwdrs g' = g_fwdrs g"
proof (induction rule: group_step.induct)
  case (gs_Dial i g r)
  then show ?case using IncFailures_inv by (cases r) (auto simp: fwdr_Dial_def)
next
  case (gs_check i g now r w w' g')
  then show ?case using check_turn_inv by blast
qed (simp_all add: Enable_inv Disable_inv Record_inv NextDialer_inv)

lemma group_steps_inv: "group_step\<^sup>*\<^sup>* g g' \<Longrightarrow> group_inv g \<Longrightarrow> group_inv g' \<and> g_fwdrs g' = g_fwdrs g"
  by (induction rule: rtranclp_induct) (auto dest: group_step_inv)

lemma newFwdrGroup_inv:
  assumes "sorts_by_priority srt" "fs \<noteq> []" "length fs < 2 ^ 32" "\<forall>f\<in>set fs. f_disabled f \<in> {0, 1}"
  shows "group_inv (newFwdrGroup srt name fs c)" "set (g_fwdrs (newFwdrGroup srt name fs c)) = {..<length fs}"
proof -
  let ?mem = "\<lambda>i. if i < length fs then fs ! i else new_fwdr"
  let ?xs = "srt (\<lambda>i. f_priority (?mem i)) [0..<length fs]"
  let ?g = "\<lparr>g_name = name, g_config = c, g_fwdrs = ?xs, g_avail = [], g_index = 0, g_priority = 0, g_next = RR, g_mem = ?mem\<rparr>"
  note so = assms(1)[unfolded sorts_by_priority_def, rule_format, of "\<lambda>i. f_priority (?mem i)" "[0..<length fs]"]
  have m: "mset ?xs = mset [0..<length fs]" using so by (rule conjunct1)
  have srt: "sorted_wrt (\<lambda>i j. f_priority (?mem j) \<le> f_priority (?mem i)) ?xs" using so by (rule conjunct2)
  have len: "length ?xs = length fs" using mset_eq_length[OF m] by simp
  have set: "set ?xs = {..<length fs}" 
    unfolding mset_eq_setD[OF m] by (simp add: atLeast0LessThan)
  have dis: "distinct ?xs" using mset_eq_imp_distinct_iff[OF m] by simp
  have "\<forall>i. f_disabled (?mem i) \<in> {0, 1}" using assms(4) by (auto simp: new_fwdr_def)
  moreover have "?xs \<noteq> []" using len assms(2) by (metis length_0_conv)
  ultimately have fr: "group_frame ?g" using srt len dis assms(3) by (simp add: group_frame_def pri_def)
  let ?h = "(group_init ?g)\<lparr>g_next := choose_sched (length fs) (st_Strategy c)\<rparr>"
  have "group_frame ?h" by (rule group_frame_cong[OF _ _ _ fr]) (use fr in \<open>auto simp: group_frame_def\<close>)
  moreover have "avail_exact ?h" using group_init_exact[OF fr] avail_exact_cong[of ?h "group_init ?g"] by simp
  ultimately show "group_inv (newFwdrGroup srt name fs c)" by (simp add: newFwdrGroup_def Let_def group_inv_def)
  show "set (g_fwdrs (newFwdrGroup srt name fs c)) = {..<length fs}" using set by (simp add: newFwdrGroup_def Let_def)
qed


subsection \<open>Round robin, latency, failures\<close>

lemma next_n_rr:
  assumes "g_next g = RR" "g_avail g \<noteq> []" "length (g_avail g) < 2 ^ 32" "unat (g_index g) + n < 2 ^ 32"
  shows "next_n n d g = map (\<lambda>k. g_avail g ! ((unat (g_index g) + 1 + k) mod length (g_avail g))) [0..<n]"
  using assms
proof (induction n arbitrary: g)
  case (Suc n)
  let ?g = "g\<lparr>g_index := g_index g + 1\<rparr>"
  have u: "unat (g_index g + 1) = unat (g_index g) + 1" using Suc.prems(4) by (simp add: unat_word_ariths)
  have nd: "group_NextDialer d g = (schedule_at (g_index g + 1) (g_avail g), ?g)"
    using Suc.prems(1,2) by (simp add: group_NextDialer_def run_sched_def scheduleRR_def Let_def)
  have "next_n n d ?g = map (\<lambda>k. g_avail g ! ((unat (g_index g) + 2 + k) mod length (g_avail g))) [0..<n]"
    using Suc.IH[of ?g] Suc.prems u by simp
  moreover have "[0..<Suc n] = 0 # map Suc [0..<n]" by (metis map_Suc_upt upt_conv_Cons zero_less_Suc)
  ultimately show ?case using nd schedule_at_in(1)[OF Suc.prems(2,3)] u by (simp add: comp_def del: upt_Suc)
qed simp

lemma map_rotate: "xs \<noteq> [] \<Longrightarrow> map (\<lambda>k. xs ! ((m + k) mod length xs)) [0..<length xs] = rotate m xs"
  by (rule nth_equalityI) (auto simp: nth_rotate add.commute)

lemma mset_rotate: "mset (rotate m xs) = mset xs"
  by (metis append_take_drop_id mset_append rotate_drop_take union_commute)

lemma IncFailures_pow:
  assumes "group_frame g" "enabled g i" "f_failures (g_mem g i) = 0" "f_maxFailures (g_mem g i) = m" "k < unat m"
  shows "group_frame ((IncFailures i ^^ k) g) \<and> enabled ((IncFailures i ^^ k) g) i \<and>
    f_failures (g_mem ((IncFailures i ^^ k) g) i) = of_nat k \<and> f_maxFailures (g_mem ((IncFailures i ^^ k) g) i) = m"
  using assms(5)
proof (induction k)
  case (Suc k)
  let ?g = "(IncFailures i ^^ k) g"
  have ih: "group_frame ?g" "enabled ?g i" "f_failures (g_mem ?g i) = of_nat k" "f_maxFailures (g_mem ?g i) = m"
    using Suc by auto
  have "unat (of_nat k + 1 :: u32) = Suc k"
    using Suc.prems unsigned_less[of m, where 'a = nat] by (simp add: unat_of_nat unat_word_ariths)
  then have "of_nat k + 1 \<noteq> m" "m \<noteq> 0" using Suc.prems by auto
  then have "IncFailures i ?g = upd i (\<lambda>f. f\<lparr>f_failures := f_failures f + 1\<rparr>) ?g"
    using ih by (simp add: IncFailures_def Let_def)
  then show ?case using ih group_frame_upd[of ?g "\<lambda>f. f\<lparr>f_failures := f_failures f + 1\<rparr>" i]
    by (auto simp: group_frame_def enabled_def Enabled_def add.commute)
qed (use assms in simp)

lemma IncFailures_last:
  assumes "group_frame g" "enabled g i" "f_failures (g_mem g i) = 0" "f_maxFailures (g_mem g i) = m" "m \<noteq> 0"
  shows "\<not> enabled ((IncFailures i ^^ unat m) g) i"
proof -
  obtain k where k: "unat m = Suc k" using assms(5) by (metis not0_implies_Suc unat_eq_zero)
  let ?g = "(IncFailures i ^^ k) g"
  have ih: "group_frame ?g" "enabled ?g i" "f_failures (g_mem ?g i) = of_nat k" "f_maxFailures (g_mem ?g i) = m"
    using IncFailures_pow[OF assms(1-4), of k] k by auto
  have "of_nat k + 1 = m" using k by (metis add.commute of_nat_Suc of_nat_unat ucast_id)
  then have "IncFailures i ?g = Disable i (upd i (\<lambda>f. f\<lparr>f_failures := f_failures f + 1\<rparr>) ?g)"
    using ih assms(5) by (simp add: IncFailures_def Let_def enabled_def Enabled_def)
  moreover have "group_frame (upd i (\<lambda>f. f\<lparr>f_failures := f_failures f + 1\<rparr>) ?g)"
    using ih(1) by (intro group_frame_upd) (auto simp: group_frame_def)
  ultimately show ?thesis using Disable_disabled k by simp
qed

lemma average_between:
  assumes "0 < (last_l::int)" "0 \<le> e" "1 < cnt"
  shows "min last_l e \<le> (last_l * (cnt - 1) + e) div cnt \<and> (last_l * (cnt - 1) + e) div cnt \<le> max last_l e"
proof
  have "min last_l e * cnt = min last_l e * (cnt - 1) + min last_l e" by (simp add: algebra_simps)
  also have "\<dots> \<le> last_l * (cnt - 1) + e" using assms(3) by (intro add_mono mult_right_mono) auto
  finally have "min last_l e * cnt div cnt \<le> (last_l * (cnt - 1) + e) div cnt" using assms(3) by (intro zdiv_mono1) auto
  then show "min last_l e \<le> (last_l * (cnt - 1) + e) div cnt" using assms(3) by simp
  have "last_l * (cnt - 1) + e \<le> max last_l e * (cnt - 1) + max last_l e" using assms(3) by (intro add_mono mult_right_mono) auto
  also have "\<dots> = max last_l e * cnt" by (simp add: algebra_simps)
  finally have "(last_l * (cnt - 1) + e) div cnt \<le> max last_l e * cnt div cnt" using assms(3) by (intro zdiv_mono1) auto
  then show "(last_l * (cnt - 1) + e) div cnt \<le> max last_l e" using assms(3) by simp
qed



lemma Enable_counters [simp]:
  "f_failures (g_mem (Enable i g) i) = 0" "f_maxFailures (g_mem (Enable i g) j) = f_maxFailures (g_mem g j)"
  by (simp_all add: Enable_def Let_def)

subsection \<open>Concurrent status changes\<close>

lemma group_init_avail: "set (g_avail (group_init g)) \<subseteq> set (g_fwdrs g)"
  by (auto simp: group_init_def Let_def)

lemma set_swap_remove: "set (swap_remove x xs) \<subseteq> set xs"
  using mset_swap_remove[of x xs] by (metis diff_subset_eq_self set_mset_mono set_mset_mset)

lemma onStatusChanged_avail:
  "set (g_avail g) \<subseteq> set (g_fwdrs g) \<Longrightarrow> i \<in> set (g_fwdrs g) \<Longrightarrow>
   set (g_avail (onStatusChanged i g)) \<subseteq> set (g_fwdrs g)"
proof -
  assume a: "set (g_avail g) \<subseteq> set (g_fwdrs g)" "i \<in> set (g_fwdrs g)"
  let ?g1 = "if enabled g i then (if pri g i = g_priority g then g\<lparr>g_avail := g_avail g @ [i]\<rparr>
      else if g_priority g < pri g i then group_init g else g)
    else g\<lparr>g_avail := swap_remove i (g_avail g)\<rparr>"
  have "set (g_avail ?g1) \<subseteq> set (g_fwdrs g)"
    using a group_init_avail[of g] set_swap_remove[of i "g_avail g"] by (auto dest: subsetD)
  moreover have fw: "g_fwdrs ?g1 = g_fwdrs g" by simp
  have "set (g_avail (group_init ?g1)) \<subseteq> set (g_fwdrs g)" using group_init_avail[of ?g1] unfolding fw .
  ultimately show ?thesis unfolding onStatusChanged_def Let_def by (cases "g_avail ?g1 = []") simp_all
qed

lemma race_step_inv: "race_step s s' \<Longrightarrow> race_inv s \<Longrightarrow> race_inv s' \<and> g_fwdrs (fst s') = g_fwdrs (fst s)"
proof (induction rule: race_step.induct)
  case (rs_handler i ps g)
  then show ?case using onStatusChanged_avail[of g i] set_remove1_subset[of i ps] by (auto simp: race_inv_def)
next
  case (rs_next g ps d)
  obtain k where "snd (group_NextDialer d g) = g\<lparr>g_index := k\<rparr>" using NextDialer_keeps by blast
  then show ?case using rs_next by (simp add: race_inv_def)
qed (auto simp: race_inv_def)

lemma race_steps_inv: "race_step\<^sup>*\<^sup>* s s' \<Longrightarrow> race_inv s \<Longrightarrow> race_inv s' \<and> g_fwdrs (fst s') = g_fwdrs (fst s)"
  by (induction rule: rtranclp_induct) (auto dest: race_step_inv)

section \<open>Properties\<close>

text \<open>
  Property C2.  The contract of a group.  From the group that is built out of any non-empty list
  of forwarders, and after any sequence of status changes, dials, recorded results, health
  checks and dialer choices, \<open>avail\<close> holds, without repetition, exactly the enabled forwarders than
  which none enabled has a higher priority, and \<open>NextDialer\<close> returns one of them under every
  strategy; when no forwarder is enabled it returns one of the group's forwarders.
\<close>

theorem group_avail_is_best:
  assumes "sorts_by_priority srt" "fs \<noteq> []" "length fs < 2 ^ 32" "\<forall>f\<in>set fs. f_disabled f \<in> {0, 1}"
    "group_step\<^sup>*\<^sup>* (newFwdrGroup srt name fs c) g"
  shows "distinct (g_avail g) \<and> set (g_avail g) = Best g \<and>
     fst (group_NextDialer d g) \<in> (if Best g = {} then {..<length fs} else Best g)"
proof -
  have g: "group_inv g" "set (g_fwdrs g) = {..<length fs}"
    using group_steps_inv[OF assms(5) newFwdrGroup_inv(1)[OF assms(1-4)]] newFwdrGroup_inv(2)[OF assms(1-4), of name c] by simp_all
  have "distinct (g_avail g)" "set (g_avail g) = Best g" using g(1) by (auto simp: group_inv_def avail_exact_def)
  then show ?thesis using NextDialer_choice[OF g(1), of d] unfolding g(2) by blast
qed

lemma insert_sort_sorts: "sorts_by_priority insert_sort"
proof -
  have "sorted_wrt (\<lambda>i j. p j \<le> p i) (insert_sort p xs)" for p xs
    using sorted_sort_key[of p xs] by (simp add: insert_sort_def sorted_wrt_rev sorted_wrt_map)
  then show ?thesis by (simp add: sorts_by_priority_def insert_sort_def)
qed

lemma example_fwdrs_ok: "example_fwdrs \<noteq> []" "length example_fwdrs < 2 ^ 32" "\<forall>f\<in>set example_fwdrs. f_disabled f \<in> {0, 1}"
  by (simp_all add: example_fwdrs_def new_fwdr_def)

lemma example_group_inv: "group_inv example_group" "set (g_fwdrs example_group) = {0, 1, 2}"
proof -
  have "length example_fwdrs = 3" by (simp add: example_fwdrs_def)
  then show "group_inv example_group" "set (g_fwdrs example_group) = {0, 1, 2}"
    using newFwdrGroup_inv[OF insert_sort_sorts example_fwdrs_ok, of "''main''" example_strategy]
    unfolding example_group_def[symmetric] by (simp_all add: lessThan_Suc numeral_3_eq_3 insert_commute numeral_2_eq_2)
qed

theorem group_avail_is_best_witness:
  "set (g_avail (Enable 1 example_group)) = Best (Enable 1 example_group)"
proof -
  have "1 \<in> set (g_fwdrs example_group)" using example_group_inv by simp
  then have "group_step\<^sup>*\<^sup>* example_group (Enable 1 example_group)" by (simp add: r_into_rtranclp gs_Enable)
  then show ?thesis
    using group_avail_is_best[OF insert_sort_sorts example_fwdrs_ok, of "''main''" example_strategy "Enable 1 example_group"]
    by (simp add: example_group_def)
qed

text \<open>
  Round robin is fair: as long as the available forwarders do not change and the
  32-bit counter does not wrap around, as many successive choices as there are available
  forwarders pick each of them exactly once.
\<close>

lemma round_robin_fair:
  assumes "g_next g = RR" "g_avail g \<noteq> []" "unat (g_index g) + length (g_avail g) < 2 ^ 32"
  shows "mset (next_n (length (g_avail g)) d g) = mset (g_avail g)"
proof -
  have "length (g_avail g) < 2 ^ 32" using assms(3) by simp
  then have "next_n (length (g_avail g)) d g = rotate (unat (g_index g) + 1) (g_avail g)"
    using next_n_rr[OF assms(1,2) _ assms(3), of d] map_rotate[OF assms(2), of "unat (g_index g) + 1"] by simp
  then show ?thesis by (simp only: mset_rotate)
qed

lemma round_robin_fair_witness:
  "mset (next_n 3 ''a:80'' (example_group\<lparr>g_avail := [2, 0, 1]\<rparr>)) = {#2, 0, 1#}"
proof -
  let ?g = "example_group\<lparr>g_avail := [2, 0, 1]\<rparr>"
  have "g_next ?g = RR" "g_index ?g = 0"
    by (simp_all add: example_group_def newFwdrGroup_def Let_def choose_sched_def example_strategy_def)
  then show ?thesis using round_robin_fair[of ?g "''a:80''"] by (simp add: numeral_3_eq_3)
qed

text \<open>
  \<open>maxfailures\<close> counts exactly: an enabled forwarder with no failures so far and a limit
  \<open>m > 0\<close> stays enabled through its first \<open>m - 1\<close> failures and is disabled, and no longer
  available, at the \<open>m\<close>th.
\<close>

lemma maxfailures_exact:
  assumes "group_inv g" "i \<in> set (g_fwdrs g)" "enabled g i" "f_failures (g_mem g i) = 0"
    "f_maxFailures (g_mem g i) \<noteq> 0" "k \<le> unat (f_maxFailures (g_mem g i))"
  shows "(enabled ((IncFailures i ^^ k) g) i \<longleftrightarrow> k < unat (f_maxFailures (g_mem g i))) \<and>
     (k = unat (f_maxFailures (g_mem g i)) \<longrightarrow> i \<notin> set (g_avail ((IncFailures i ^^ k) g)))"
proof -
  have fr: "group_frame g" using assms(1) by (simp add: group_inv_def)
  have e: "enabled ((IncFailures i ^^ k) g) i \<longleftrightarrow> k < unat (f_maxFailures (g_mem g i))"
  proof (cases "k < unat (f_maxFailures (g_mem g i))")
    case True
    then show ?thesis using IncFailures_pow[OF fr assms(3,4) refl] by blast
  next
    case False
    then show ?thesis using IncFailures_last[OF fr assms(3,4) refl assms(5)] assms(6) by (simp add: le_antisym)
  qed
  have "group_inv ((IncFailures i ^^ k) g) \<and> g_fwdrs ((IncFailures i ^^ k) g) = g_fwdrs g"
    using assms(1,2) by (induction k) (auto dest: IncFailures_inv)
  then show ?thesis using e by (auto simp: group_inv_def avail_exact_def Best_def)
qed

lemma maxfailures_exact_witness:
  "enabled ((IncFailures 0 ^^ 2) example_group) 0 \<and> \<not> enabled ((IncFailures 0 ^^ 3) example_group) 0"
proof -
  have inv: "group_inv example_group" "0 \<in> set (g_fwdrs example_group)" using example_group_inv by simp_all
  have f: "enabled example_group 0" "f_failures (g_mem example_group 0) = 0" "f_maxFailures (g_mem example_group 0) = 3"
    by (simp_all add: example_group_def newFwdrGroup_def Let_def example_fwdrs_def new_fwdr_def enabled_def Enabled_def isTrue_def)
  show ?thesis using maxfailures_exact[OF inv f(1,2), of 2] maxfailures_exact[OF inv f(1,2), of 3] f(3) by simp
qed

text \<open>
  Latency based scheduling: the choice is an available forwarder; it is the first one
  unless some other is faster by more than the tolerance, and then it is the fastest of all.
\<close>

lemma latency_choice:
  assumes "g_avail g \<noteq> []" "\<forall>j\<in>set (g_avail g). 0 \<le> lat g j \<and> lat g j < 2 ^ 63"
    "0 \<le> st_CheckTolerance (g_config g)" "st_CheckTolerance (g_config g) * 1000000 < 2 ^ 63"
    "first = g_avail g ! 0" "chosen = fst (scheduleLHA g d)"
  shows "chosen \<in> set (g_avail g) \<and>
     (if \<exists>j\<in>set (g_avail g). lat g j < lat g first - st_CheckTolerance (g_config g) * 1000000
      then \<forall>j\<in>set (g_avail g). lat g chosen \<le> lat g j
      else chosen = first)"
proof -
  let ?tol = "st_CheckTolerance (g_config g) * 1000000"
  let ?new = "fst (lowest_latency (lat g) (g_avail g) (first, lat g first))"
  have f: "first \<in> set (g_avail g)" using assms(1,5) by simp
  have n: "?new \<in> set (g_avail g)" "\<forall>j\<in>set (g_avail g). lat g ?new \<le> lat g j"
    using lowest_latency_spec[of "lat g" first "lat g first" "g_avail g"] f by (auto simp: split_beta)
  have "0 \<le> lat g first" "lat g first < 2 ^ 63" using assms(2) f by auto
  then have i: "i64 (lat g first - i64 ?tol) = lat g first - ?tol"
    using assms(3,4) by (simp add: i64_id)
  have c: "chosen = (if lat g ?new < lat g first - ?tol then ?new else first)"
    using i assms(5,6) by (simp add: scheduleLHA_def Let_def)
  show ?thesis using n f c by (auto simp: not_less intro: order_trans)
qed

lemma latency_choice_witness:
  "fst (scheduleLHA (example_group\<lparr>g_avail := [0, 1, 2], g_mem := (\<lambda>i. new_fwdr\<lparr>f_latency := [50, 40, 10] ! i\<rparr>)\<rparr>) d) = 2"
proof -
  let ?g = "example_group\<lparr>g_avail := [0, 1, 2], g_mem := (\<lambda>i. new_fwdr\<lparr>f_latency := [50, 40, 10] ! i\<rparr>)\<rparr>"
  have t: "st_CheckTolerance (g_config ?g) = 0"
    by (simp add: example_group_def newFwdrGroup_def Let_def example_strategy_def)
  have l: "lat ?g 0 = 50" "lat ?g 1 = 40" "lat ?g 2 = 10" by (simp_all add: lat_def)
  have "fst (scheduleLHA ?g d) \<in> {0, 1, 2} \<and> (\<forall>j\<in>{0, 1, 2}. lat ?g (fst (scheduleLHA ?g d)) \<le> lat ?g j)"
    using latency_choice[of ?g 0 "fst (scheduleLHA ?g d)" d] l t by auto
  then show ?thesis using l by auto
qed

text \<open>
  The outcome of a health check that is carried out: success enables the forwarder,
  clears its failures and sets the wait to one interval; a failure disables it and lengthens the
  wait by one, up to sixteen intervals; an unsupported check ends the loop with the forwarder
  enabled for good (no failure limit).
\<close>

lemma check_outcome:
  assumes "group_inv g" "i \<in> set (g_fwdrs g)" "w \<le> 16" "\<not> (w > 0 \<and> pri g i < g_priority g)"
    "\<not> (enabled g i \<and> st_CheckDisabledOnly (g_config g))"
  shows "case check_turn now r i w g of
      (w', g') \<Rightarrow> (case r of
          CheckOk e \<Rightarrow> w' = Some 1 \<and> enabled g' i \<and> f_failures (g_mem g' i) = 0
        | CheckFailed e \<Rightarrow> w' = Some (min 16 (w + 1)) \<and> \<not> enabled g' i \<and> i \<notin> set (g_avail g')
        | CheckNotSupported e \<Rightarrow> w' = None \<and> enabled g' i \<and> f_maxFailures (g_mem g' i) = 0)"
proof (cases r)
  case (CheckOk e)
  have "group_inv (recordCheck now None i (setLatency i e g))"
    using assms(1) by (intro recordCheck_inv setLatency_inv)
  then show ?thesis using assms(4,5) CheckOk Enable_enabled
    by (auto simp: check_turn_def group_inv_def)
next
  case (CheckNotSupported e)
  have "group_inv (upd i (\<lambda>f. f\<lparr>f_maxFailures := 0\<rparr>) (recordCheck now (Some e) i g))"
    using recordCheck_inv[OF assms(1)] by (rule group_inv_upd) auto
  then show ?thesis using assms(4,5) CheckNotSupported Enable_enabled
    by (auto simp: check_turn_def group_inv_def)
next
  case (CheckFailed e)
  let ?g = "recordCheck now (Some e) i g"
  have inv: "group_inv ?g" using assms(1) by (rule recordCheck_inv)
  have dis: "\<not> enabled (Disable i ?g) i" using inv Disable_disabled by (simp add: group_inv_def)
  have "group_inv (Disable i ?g)" using inv assms(2) by (intro Disable_inv) simp_all
  then have "set (g_avail (Disable i ?g)) = Best (Disable i ?g)" by (simp add: group_inv_def avail_exact_def)
  then have na: "i \<notin> set (g_avail (Disable i ?g))" using dis by (simp add: Best_def)
  have m: "(if w + 1 > 16 then 16 else w + 1) = min 16 (w + 1)" by (auto simp: min_def not_less)
  have "check_turn now r i w g = (Some (min 16 (w + 1)), Disable i ?g)"
    unfolding check_turn_def using assms(4,5) CheckFailed m by (simp only: if_False check_result.case)
  then show ?thesis using CheckFailed dis na by simp
qed

lemma check_outcome_witness:
  "\<exists>g'. check_turn 7 (CheckFailed ''timeout'') 0 16 example_group = (Some 16, g') \<and> \<not> enabled g' 0"
proof -
  have inv: "group_inv example_group" "0 \<in> set (g_fwdrs example_group)" using example_group_inv by simp_all
  have e: "enabled example_group 0" "pri example_group 0 = 0"
    by (simp_all add: example_group_def newFwdrGroup_def Let_def example_fwdrs_def new_fwdr_def enabled_def Enabled_def isTrue_def pri_def)
  have b: "f_priority (g_mem example_group 1) = 9" "\<not> enabled example_group 1" "\<not> enabled example_group 2"
    by (simp_all add: example_group_def newFwdrGroup_def Let_def example_fwdrs_def new_fwdr_def enabled_def Enabled_def isTrue_def)
  have "Best example_group = {0}"
    using example_group_inv(2) e b by (auto simp: Best_def)
  then have p: "g_priority example_group = 0"
    using inv(1) e(2) by (force simp: group_inv_def avail_exact_def)
  have d: "\<not> st_CheckDisabledOnly (g_config example_group)"
    by (simp add: example_group_def newFwdrGroup_def Let_def example_strategy_def)
  show ?thesis
    using check_outcome[OF inv, of 16 "CheckFailed ''timeout''" 7] p d
    by (cases "check_turn 7 (CheckFailed ''timeout'') 0 16 example_group") (simp add: min_def)
qed

text \<open>
  The averaged latency stays between the previous value and the new measurement.
\<close>

lemma latency_average_bounds:
  assumes "0 < lat g i" "0 \<le> e" "lat g i * (st_CheckLatencySamples (g_config g) - 1) + e < 2 ^ 63"
    "1 < st_CheckLatencySamples (g_config g)"
  shows "min (lat g i) e \<le> lat (setLatency i e g) i \<and> lat (setLatency i e g) i \<le> max (lat g i) e"
proof -
  let ?c = "st_CheckLatencySamples (g_config g)"
  let ?s = "lat g i * (?c - 1) + e"
  have p: "0 \<le> lat g i * (?c - 1)" using assms(1,4) by simp
  then have s: "i64 (i64 (lat g i * (?c - 1)) + e) = ?s" using assms(2,3) by (simp add: i64_id)
  have q: "quot64 ?s ?c = ?s div ?c"
  proof -
    have "0 < ?s" using assms(1,2,4) by (simp add: add_pos_nonneg)
    moreover have "?s div ?c \<le> ?s" using \<open>0 < ?s\<close> assms(4) zdiv_mono2[of ?s 1 ?c] by simp
    moreover have "0 \<le> ?s div ?c" using \<open>0 < ?s\<close> assms(4) by (simp add: pos_imp_zdiv_nonneg_iff)
    ultimately have "i64 (?s div ?c) = ?s div ?c" using assms(3) by (intro i64_id) linarith+
    then show ?thesis using \<open>0 < ?s\<close> assms(4) by (simp add: quot64_def)
  qed
  have "lat (setLatency i e g) i = ?s div ?c"
    using assms(1,4) s q by (simp add: setLatency_def Let_def lat_def)
  then show ?thesis using average_between[OF assms(1,2,4)] by simp
qed

lemma latency_average_bounds_witness:
  "10 \<le> lat (setLatency 0 10 (example_group\<lparr>g_mem := (\<lambda>i. new_fwdr\<lparr>f_latency := 50\<rparr>)\<rparr>)) 0 \<and>
   lat (setLatency 0 10 (example_group\<lparr>g_mem := (\<lambda>i. new_fwdr\<lparr>f_latency := 50\<rparr>)\<rparr>)) 0 \<le> 50"
proof -
  let ?g = "example_group\<lparr>g_mem := (\<lambda>i. new_fwdr\<lparr>f_latency := 50\<rparr>)\<rparr>"
  have "lat ?g 0 = 50" "st_CheckLatencySamples (g_config ?g) = 10"
    by (simp_all add: lat_def example_group_def newFwdrGroup_def Let_def example_strategy_def)
  then show ?thesis using latency_average_bounds[of ?g 0 10] by simp
qed

text \<open>
  Under every interleaving of status changes, their handlers, counter updates and
  choices, \<open>NextDialer\<close> still returns a forwarder of the group: it never indexes out of range.
\<close>

lemma concurrent_choice_safe:
  assumes "race_step\<^sup>*\<^sup>* (g0, []) (g, ps)" "group_inv g0" "length (g_avail g) < 2 ^ 32"
  shows "fst (group_NextDialer d g) \<in> set (g_fwdrs g0)"
proof -
  have "set (g_avail g0) = Best g0" "g_fwdrs g0 \<noteq> []" using assms(2)
    by (simp_all add: group_inv_def group_frame_def avail_exact_def)
  moreover have "Best g0 \<subseteq> set (g_fwdrs g0)" by (auto simp: Best_def)
  ultimately have "race_inv (g0, [])" by (simp add: race_inv_def)
  from race_steps_inv[OF assms(1) this] have r: "g_fwdrs g \<noteq> []" "set (g_avail g) \<subseteq> set (g_fwdrs g)" "g_fwdrs g = g_fwdrs g0"
    by (auto simp: race_inv_def)
  have "length (g_fwdrs g) < 2 ^ 32" using assms(2) r(3) by (simp add: group_inv_def group_frame_def)
  then show ?thesis
    using r sch.picks[of g "g_next g" d] assms(3) schedule_at_in(2)[of "g_fwdrs g"]
    by (auto simp: group_NextDialer_def Let_def)
qed

lemma concurrent_choice_safe_witness:
  "fst (group_NextDialer ''a:1'' (onStatusChanged 1 (upd 1 (\<lambda>f. f\<lparr>f_disabled := 0\<rparr>) example_group))) \<in> {0, 1, 2}"
proof -
  let ?g = "upd 1 (\<lambda>f. f\<lparr>f_disabled := 0\<rparr>) example_group"
  note inv = example_group_inv
  have d1: "f_disabled (g_mem example_group 1) = 1" "1 \<in> set (g_fwdrs example_group)"
    by (simp add: example_group_def newFwdrGroup_def Let_def example_fwdrs_def) (simp add: inv)
  have "race_step (example_group, []) (?g, [1])" using d1 by (intro rs_enable)
  moreover have "race_step (?g, [1]) (onStatusChanged 1 ?g, remove1 1 [1])" by (intro rs_handler) simp
  ultimately have "race_step\<^sup>*\<^sup>* (example_group, []) (onStatusChanged 1 ?g, remove1 1 [1])"
    by (meson converse_rtranclp_into_rtranclp rtranclp.rtrancl_refl)
  moreover have "group_inv (onStatusChanged 1 ?g)"
    using enable_exact[OF inv(1) d1(2,1)] status_frame[of example_group 0 1] inv(1) by (simp add: group_inv_def)
  ultimately show ?thesis
    using concurrent_choice_safe[of example_group "onStatusChanged 1 ?g" "remove1 1 [1]" "''a:1''"] inv avail_length by blast
qed

text \<open>
  Property C38.  That \<open>avail\<close> holds exactly the best enabled forwarders does not survive concurrency: the flag is swapped before the
  handler takes the lock, and the handler looks at the flag again.  Two enables around one
  disable of a forwarder can leave it twice in \<open>avail\<close>, and the next disable removes only one of
  the copies: with no handler pending any more, a disabled forwarder stays available and is chosen.
\<close>

theorem status_race_leaves_disabled_available:
  "\<exists>g0 g d. group_inv g0 \<and> race_step\<^sup>*\<^sup>* (g0, []) (g, []) \<and> \<not> enabled g 0 \<and>
     0 \<in> set (g_avail g) \<and> fst (group_NextDialer d g) = 0"
proof (intro exI conjI)
  have up: "upd 0 (\<lambda>f. f\<lparr>f_disabled := v\<rparr>) (race_group a b) = race_group a v" for a b v
    by (simp add: race_group_def upd_def fun_eq_iff)
  have e: "enabled (race_group a 0) 0" "\<not> enabled (race_group a 1) 0" "pri (race_group a b) 0 = 0" for a b
    by (simp_all add: race_group_def enabled_def Enabled_def isTrue_def pri_def new_fwdr_def)
  have h1: "onStatusChanged 0 (race_group a 0) = race_group (a @ [0]) 0" for a
    using e by (simp add: onStatusChanged_def) (simp add: race_group_def)
  have h0: "onStatusChanged 0 (race_group [0, 0, 0] 1) = race_group [0, 0] 1"
    using e by (simp add: onStatusChanged_def) (simp add: race_group_def swap_remove_def)
  have sel: "0 \<in> set (g_fwdrs (race_group a b))" "f_disabled (g_mem (race_group a b) 0) = b" for a b
    by (simp_all add: race_group_def)
  have on: "race_step (race_group a 1, ps) (race_group a 0, 0 # ps)"
    and off: "race_step (race_group a 0, ps) (race_group a 1, 0 # ps)" for a ps
    using rs_enable[of 0 "race_group a 1" ps] rs_disable[of 0 "race_group a 0" ps] by (simp_all add: sel up)
  have run: "race_step (race_group a 0, 0 # ps) (race_group (a @ [0]) 0, ps)" for a ps
    using rs_handler[of 0 "0 # ps" "race_group a 0"] h1 by simp
  have "race_step\<^sup>*\<^sup>* (race_group [] 1, []) (race_group [0, 0, 0] 0, [])"
    using on[of "[]" "[]"] off[of "[]" "[0]"] on[of "[]" "[0, 0]"] run[of "[]" "[0, 0]"] run[of "[0]" "[0]"] run[of "[0, 0]" "[]"]
    unfolding append.simps by (meson converse_rtranclp_into_rtranclp rtranclp.rtrancl_refl)
  moreover have "race_step\<^sup>*\<^sup>* (race_group [0, 0, 0] 0, []) (race_group [0, 0] 1, [])"
    using off[of "[0, 0, 0]" "[]"] rs_handler[of 0 "[0]" "race_group [0, 0, 0] 1"] h0
    by (auto intro: converse_rtranclp_into_rtranclp)
  ultimately show "race_step\<^sup>*\<^sup>* (race_group [] 1, []) (race_group [0, 0] 1, [])" by (rule rtranclp_trans)
  show "group_inv (race_group [] 1)"
    using e(2)[of "[]"] by (auto simp: group_inv_def group_frame_def avail_exact_def Best_def race_group_def pri_def)
  show "\<not> enabled (race_group [0, 0] 1) 0" by (rule e)
  show "0 \<in> set (g_avail (race_group [0, 0] 1))" by (simp add: race_group_def)
  show "fst (group_NextDialer ''a:80'' (race_group [0, 0] 1)) = 0"
    by (simp add: group_NextDialer_def race_group_def run_sched_def scheduleRR_def Let_def schedule_at_def)
qed


end
