(* ===== verification/Rule_Proxy.thy ===== *)
theory Rule_Proxy
  imports Fwdr_Group Domain_Walk "HOL-Library.Option_ord"
begin

text \<open>
  The rule proxy, \<open>rule/proxy.go\<close>, and the status snapshot of \<open>rule/runtime_status.go\<close>.  Groups are
  numbered: 0 is the main group, then the groups of the rules in order, then the group that connects
  directly; the three \<open>sync.Map\<close>s hold group numbers.  The lemmas show which group serves a
  destination, that learned addresses of a name follow its rule when the rule is unambiguous,
  where the order of suffixes makes the two disagree, and what the snapshot reports.
\<close>

section \<open>Definitions\<close>

subsection \<open>The type netip.Prefix\<close>

type_synonym prefix = "addr \<times> nat"

definition ParsePrefix :: "string \<Rightarrow> prefix option" where
  "ParsePrefix s =
     (case last_index_byte CHR ''/'' s of
        None \<Rightarrow> None
      | Some i \<Rightarrow>
          (case ParseAddr (take i s) of
             None \<Rightarrow> None
           | Some ip \<Rightarrow>
               let bs = drop (Suc i) s in
               if (case ip of Addr6 _ z \<Rightarrow> z \<noteq> [] | _ \<Rightarrow> False) then None
               else if length bs > 1 \<and> (code (hd bs) < 49 \<or> code (hd bs) > 57) then None
               else
                 (case atoi bs of
                    None \<Rightarrow> None
                  | Some n \<Rightarrow>
                      if n < 0 \<or> n > (if Is6 ip then 128 else 32) then None else Some (ip, nat n))))"

definition addr_bits :: "bytes \<Rightarrow> bool list" where
  "addr_bits bs = concat (map (\<lambda>b. map (bit b) (rev [0..<8])) bs)"

fun prefix_contains :: "prefix \<Rightarrow> addr \<Rightarrow> bool" where
  "prefix_contains (Addr4 p, n) (Addr4 a) = (take n (addr_bits p) = take n (addr_bits a))"
| "prefix_contains (Addr6 p z, n) (Addr6 a z') = (z' = [] \<and> take n (addr_bits p) = take n (addr_bits a))"
| "prefix_contains _ _ = False"

subsection \<open>The proxy\<close>

record rule_config =
  rc_RulePath :: string
  rc_Forward :: "string list"
  rc_Strategy :: strategy
  rc_Domain :: "string list"
  rc_IP :: "string list"
  rc_CIDR :: "string list"

text \<open>The map of prefixes is kept as the list of its entries, so that its iteration order can be
  made explicit.\<close>

record rproxy =
  p_groups :: "group list"
  p_domainMap :: "string \<rightharpoonup> nat"
  p_ipMap :: "addr \<rightharpoonup> nat"
  p_cidrMap :: "(prefix \<times> nat) list"

definition store_domains :: "nat \<Rightarrow> string list \<Rightarrow> rproxy \<Rightarrow> rproxy" where
  "store_domains k ds p = fold (\<lambda>d q. q\<lparr>p_domainMap := (p_domainMap q)(to_lower d \<mapsto> k)\<rparr>) ds p"

definition store_ips :: "nat \<Rightarrow> string list \<Rightarrow> rproxy \<Rightarrow> rproxy" where
  "store_ips k ss p =
     fold (\<lambda>s q. case ParseAddr s of None \<Rightarrow> q | Some ip \<Rightarrow> q\<lparr>p_ipMap := (p_ipMap q)(ip \<mapsto> k)\<rparr>) ss p"

definition store_cidrs :: "nat \<Rightarrow> string list \<Rightarrow> rproxy \<Rightarrow> rproxy" where
  "store_cidrs k ss p =
     fold (\<lambda>s q. case ParsePrefix s of
        None \<Rightarrow> q
      | Some c \<Rightarrow> q\<lparr>p_cidrMap := (c, k) # filter (\<lambda>e. fst e \<noteq> c) (p_cidrMap q)\<rparr>) ss p"

fun add_rules :: "(string \<Rightarrow> string list \<Rightarrow> strategy \<Rightarrow> group result) \<Rightarrow> rule_config list \<Rightarrow> rproxy \<Rightarrow> rproxy result" where
  "add_rules mk [] p = Inr p"
| "add_rules mk (r # rs) p =
     (case mk (rc_RulePath r) (rc_Forward r) (rc_Strategy r) of
        Inl e \<Rightarrow> Inl e
      | Inr g \<Rightarrow>
          let k = length (p_groups p);
              p1 = p\<lparr>p_groups := p_groups p @ [g]\<rparr>
          in add_rules mk rs (store_cidrs k (rc_CIDR r) (store_ips k (rc_IP r) (store_domains k (rc_Domain r) p1))))"

text \<open>The host part of a forwarder's first address.\<close>

definition fwdr_host :: "fwdr \<Rightarrow> string" where
  "fwdr_host f = fst (split_host_port_or_empty (hd (split_on CHR '','' (f_addr f))))"

definition store_direct_hosts :: "nat \<Rightarrow> fwdr list \<Rightarrow> rproxy \<Rightarrow> rproxy" where
  "store_direct_hosts k fs p =
     fold (\<lambda>f q. case ParseAddr (fwdr_host f) of
        None \<Rightarrow> q\<lparr>p_domainMap := (p_domainMap q)(to_lower (fwdr_host f) \<mapsto> k)\<rparr>
      | Some _ \<Rightarrow> q) fs p"

text \<open>\<open>mk\<close> is \<open>NewFwdrGroup\<close> with the dialers it uses.\<close>

definition NewProxy :: "(string \<Rightarrow> string list \<Rightarrow> strategy \<Rightarrow> group result) \<Rightarrow> string list \<Rightarrow> strategy
    \<Rightarrow> rule_config list \<Rightarrow> rproxy result" where
  "NewProxy mk mainForwarders mainStrategy rules =
     (case mk ''main'' mainForwarders mainStrategy of
        Inl e \<Rightarrow> Inl e
      | Inr main \<Rightarrow>
          (case add_rules mk rules
                  \<lparr>p_groups = [main], p_domainMap = Map.empty, p_ipMap = Map.empty, p_cidrMap = []\<rparr> of
             Inl e \<Rightarrow> Inl e
           | Inr p \<Rightarrow>
               (case mk [] [] mainStrategy of
                  Inl e \<Rightarrow> Inl e
                | Inr direct \<Rightarrow>
                    let k = length (p_groups p);
                        p1 = p\<lparr>p_groups := p_groups p @ [direct],
                               p_domainMap := (p_domainMap p)(''direct'' \<mapsto> k)\<rparr>
                    in Inr (if mainForwarders \<noteq> []
                            then store_direct_hosts k (map (g_mem main) (g_fwdrs main)) p1 else p1))))"

definition domain_look :: "rproxy \<Rightarrow> string \<Rightarrow> nat option" where
  "domain_look p host = suffix_walk (p_domainMap p) (to_lower host)"

text \<open>\<open>findDialer\<close>; \<open>visit\<close> is the order in which \<open>sync.Map.Range\<close> visits the prefixes.\<close>

definition findDialer :: "((prefix \<times> nat) list \<Rightarrow> (prefix \<times> nat) list) \<Rightarrow> rproxy \<Rightarrow> string \<Rightarrow> nat" where
  "findDialer visit p dstAddr =
     (case SplitHostPort dstAddr of
        Inl _ \<Rightarrow> 0
      | Inr (host, _) \<Rightarrow>
          let by_ip = (case ParseAddr host of
                 None \<Rightarrow> None
               | Some ip \<Rightarrow>
                   (case p_ipMap p ip of
                      Some k \<Rightarrow> Some k
                    | None \<Rightarrow>
                        (case find (\<lambda>e. prefix_contains (fst e) ip) (visit (p_cidrMap p)) of
                           Some e \<Rightarrow> Some (snd e)
                         | None \<Rightarrow> None)))
          in case by_ip of
               Some k \<Rightarrow> k
             | None \<Rightarrow> (case domain_look p host of Some k \<Rightarrow> k | None \<Rightarrow> 0))"

definition proxy_NextDialer :: "((prefix \<times> nat) list \<Rightarrow> (prefix \<times> nat) list) \<Rightarrow> string \<Rightarrow> rproxy
    \<Rightarrow> (nat \<times> nat) \<times> rproxy" where
  "proxy_NextDialer visit dst p =
     (let k = findDialer visit p dst;
          (i, g') = group_NextDialer dst (p_groups p ! k)
      in ((k, i), p\<lparr>p_groups := (p_groups p)[k := g']\<rparr>))"

text \<open>\<open>Record\<close> for a dialer \<open>(k, i)\<close>: forwarder \<open>i\<close> of group \<open>k\<close>.\<close>

definition proxy_Record :: "int \<Rightarrow> nat \<times> nat \<Rightarrow> bool \<Rightarrow> rproxy \<Rightarrow> rproxy" where
  "proxy_Record now d success p =
     p\<lparr>p_groups := (p_groups p)[fst d := Record now (snd d) success (p_groups p ! fst d)]\<rparr>"

definition AddDomainIP :: "string \<Rightarrow> addr \<Rightarrow> rproxy \<Rightarrow> rproxy" where
  "AddDomainIP domain ip p =
     (let d = to_lower domain
      in p\<lparr>p_ipMap := store_from (p_domainMap p) d (length d) ip (p_ipMap p)\<rparr>)"

subsection \<open>The status snapshot\<close>

record runtimeForwarder =
  rf_URL :: string
  rf_Address :: string
  rf_Enabled :: bool
  rf_Failures :: u32
  rf_LatencyMS :: int
  rf_LastCheck :: "int option"
  rf_LastError :: string
  rf_LastSelected :: "int option"

definition runtimeStatus :: "fwdr \<Rightarrow> runtimeForwarder" where
  "runtimeStatus f =
     \<lparr>rf_URL = f_url f, rf_Address = f_addr f, rf_Enabled = Enabled f, rf_Failures = f_failures f,
      rf_LatencyMS = quot64 (f_latency f) 1000000, rf_LastCheck = f_lastCheck f, rf_LastError = f_lastError f,
      rf_LastSelected = f_lastSelected f\<rparr>"

text \<open>The loop of \<open>snapshotGroups\<close> over all forwarders: the latest selection so far (\<open>None\<close> for the zero
  time, which is before every other), the current URL and the list.\<close>

fun snapshot_loop :: "fwdr list \<Rightarrow> int option \<Rightarrow> string \<Rightarrow> string \<times> runtimeForwarder list" where
  "snapshot_loop [] latest cur = (cur, [])"
| "snapshot_loop (f # fs) latest cur =
     (let item = runtimeStatus f in
      if rf_URL item = [] then snapshot_loop fs latest cur
      else
        let newer = (latest < rf_LastSelected item);
            (c, items) = snapshot_loop fs (if newer then rf_LastSelected item else latest)
                           (if newer then rf_URL item else cur)
        in (c, item # items))"

definition snapshotGroups :: "group list \<Rightarrow> string \<times> runtimeForwarder list" where
  "snapshotGroups gs = snapshot_loop (concat (map (\<lambda>g. map (g_mem g) (g_fwdrs g)) gs)) None []"

section \<open>Lemmas\<close>

interpretation dl: suffix_lookup "p_domainMap p" "domain_look p" for p
  by unfold_locales (simp add: domain_look_def)

lemma findDialer_host:
  assumes "SplitHostPort dst = Inr (host, port)" "ParseAddr host = None"
  shows "findDialer visit p dst = (case domain_look p host of Some k \<Rightarrow> k | None \<Rightarrow> 0)"
  using assms by (simp add: findDialer_def)

lemma findDialer_learned:
  assumes "SplitHostPort dst = Inr (host, port)" "ParseAddr host = Some ip" "p_ipMap p ip = Some k"
  shows "findDialer visit p dst = k"
  using assms by (simp add: findDialer_def)

lemma AddDomainIP_ipMap:
  "p_ipMap (AddDomainIP d ip p) =
     (case first_some (p_domainMap p) (rev (domain_suffixes (to_lower d))) of
        None \<Rightarrow> p_ipMap p | Some k \<Rightarrow> (p_ipMap p)(ip \<mapsto> k))"
  by (simp add: AddDomainIP_def Let_def store_walk_last)

lemma store_direct_hosts_domain:
  "p_domainMap (store_direct_hosts k fs p) h =
     (if \<exists>f\<in>set fs. ParseAddr (fwdr_host f) = None \<and> to_lower (fwdr_host f) = h then Some k else p_domainMap p h)"
  by (induction fs arbitrary: p) (auto simp: store_direct_hosts_def split: option.splits)

lemma snapshot_items: "snd (snapshot_loop fs l c) = map runtimeStatus (filter (\<lambda>f. f_url f \<noteq> []) fs)"
  by (induction fs arbitrary: l c) (simp_all add: Let_def runtimeStatus_def split_beta)

lemma snapshot_latest:
  "((\<forall>f\<in>set fs. f_url f \<noteq> [] \<longrightarrow> f_lastSelected f \<le> l) \<and> fst (snapshot_loop fs l c) = c) \<or>
   (\<exists>f\<in>set fs. f_url f \<noteq> [] \<and> fst (snapshot_loop fs l c) = f_url f \<and> l < f_lastSelected f \<and>
      (\<forall>f'\<in>set fs. f_url f' \<noteq> [] \<longrightarrow> f_lastSelected f' \<le> f_lastSelected f))"
proof (induction fs arbitrary: l c)
  case (Cons f fs)
  show ?case
  proof (cases "f_url f \<noteq> [] \<and> l < f_lastSelected f")
    case True
    then have "fst (snapshot_loop (f # fs) l c) = fst (snapshot_loop fs (f_lastSelected f) (f_url f))"
      by (simp add: Let_def runtimeStatus_def split_beta)
    then show ?thesis using Cons.IH[of "f_lastSelected f" "f_url f"] True by (auto intro: less_trans less_imp_le)
  next
    case False
    then have "fst (snapshot_loop (f # fs) l c) = fst (snapshot_loop fs l c)"
      by (auto simp: Let_def runtimeStatus_def split_beta)
    moreover have "f_url f \<noteq> [] \<Longrightarrow> f_lastSelected f \<le> l" using False by (simp add: not_less)
    ultimately show ?thesis using Cons.IH[of l c] by (auto intro: order_trans less_imp_le)
  qed
qed simp

section \<open>Properties\<close>

text \<open>
  Property C8.  Which group serves a destination.  A host name gets the group of its shortest
  suffix with a rule, ignoring case, and the main group when there is none.  An address gets the
  group it was stored with, else the group of a prefix that contains it, and only then is
  looked up as a name.  This holds in whatever order the prefixes are visited.
\<close>

theorem findDialer_choice:
  assumes "SplitHostPort dst = Inr (host, port)" "set (visit (p_cidrMap p)) = set (p_cidrMap p)"
    "by_name = (case first_some (p_domainMap p) (domain_suffixes (to_lower host)) of Some k \<Rightarrow> k | None \<Rightarrow> 0)"
  shows "case ParseAddr host of
      None \<Rightarrow> findDialer visit p dst = by_name
    | Some ip \<Rightarrow>
        (case p_ipMap p ip of
           Some k \<Rightarrow> findDialer visit p dst = k
         | None \<Rightarrow> (\<exists>c k. (c, k) \<in> set (p_cidrMap p) \<and> prefix_contains c ip \<and> findDialer visit p dst = k) \<or>
                  ((\<forall>c k. (c, k) \<in> set (p_cidrMap p) \<longrightarrow> \<not> prefix_contains c ip) \<and> findDialer visit p dst = by_name))"
proof (cases "ParseAddr host")
  case None
  then show ?thesis using assms by (simp add: findDialer_host dl.look_first)
next
  case (Some ip)
  show ?thesis
  proof (cases "p_ipMap p ip")
    case none: None
    show ?thesis
    proof (cases "find (\<lambda>e. prefix_contains (fst e) ip) (visit (p_cidrMap p))")
      case None
      then have "\<forall>c k. (c, k) \<in> set (p_cidrMap p) \<longrightarrow> \<not> prefix_contains c ip"
        using assms(2) by (auto simp: find_None_iff)
      moreover have "findDialer visit p dst = by_name"
        using assms(1,3) Some none None by (simp add: findDialer_def dl.look_first)
      ultimately show ?thesis using Some none by auto
    next
      case f: (Some e)
      then have "e \<in> set (p_cidrMap p)" "prefix_contains (fst e) ip"
        using assms(2) by (auto simp: find_Some_iff)
      moreover have "findDialer visit p dst = snd e" using assms(1) Some none f by (simp add: findDialer_def)
      ultimately show ?thesis using Some none by (metis (no_types, lifting) option.simps(4,5) prod.collapse)
    qed
  qed (use assms Some in \<open>simp add: findDialer_learned\<close>)
qed

theorem findDialer_choice_witness:
  "findDialer (\<lambda>xs. xs) \<lparr>p_groups = [], p_domainMap = [''bc'' \<mapsto> 1, ''a.bc'' \<mapsto> 2], p_ipMap = Map.empty, p_cidrMap = []\<rparr> ''A.bc:80'' = 1"
proof -
  let ?p = "\<lparr>p_groups = [], p_domainMap = [''bc'' \<mapsto> 1, ''a.bc'' \<mapsto> 2], p_ipMap = Map.empty, p_cidrMap = []\<rparr>"
  have s: "SplitHostPort ''A.bc:80'' = Inr (''A.bc'', ''80'')" by (simp add: SplitHostPort_def)
  have a: "ParseAddr ''A.bc'' = None" by (simp add: ParseAddr_def parse_ipv4_def is_digit_def code_def)
  have "to_lower ''A.bc'' = ''a.bc''" by code_simp
  moreover have "domain_suffixes ''a.bc'' = [''bc'', ''a.bc'']" by (simp add: domain_suffixes_def)
  ultimately show ?thesis using findDialer_choice[OF s, of "\<lambda>xs. xs" ?p] a by simp
qed

text \<open>
  Learned addresses follow the rule of their name: after \<open>AddDomainIP\<close> recorded that
  \<open>ip\<close> is an address of a name for which exactly one suffix has a rule, connections to the address
  and to the name use the same group.
\<close>

lemma learned_address_follows_rule:
  assumes "SplitHostPort dst = Inr (host, port)" "ParseAddr host = None"
    "SplitHostPort dst_ip = Inr (ip_text, port')" "ParseAddr ip_text = Some ip"
    "s \<in> set (domain_suffixes (to_lower host))" "p_domainMap p s = Some k"
    "\<forall>y\<in>set (domain_suffixes (to_lower host)). y \<noteq> s \<longrightarrow> p_domainMap p y = None"
  shows "findDialer visit (AddDomainIP host ip p) dst_ip = findDialer visit (AddDomainIP host ip p) dst"
proof -
  let ?p = "AddDomainIP host ip p"
  have dm: "p_domainMap ?p = p_domainMap p" by (simp add: AddDomainIP_def Let_def)
  have "first_some (p_domainMap p) (rev (domain_suffixes (to_lower host))) = Some k"
    using first_some_unique[of s "rev (domain_suffixes (to_lower host))" "p_domainMap p"] assms(5-7) by simp
  then have "p_ipMap ?p ip = Some k" by (simp add: AddDomainIP_ipMap)
  then have "findDialer visit ?p dst_ip = k" using assms(3,4) by (simp add: findDialer_learned)
  moreover have "domain_look ?p host = Some k"
    using dl.look_unique[of s host ?p] assms(5-7) dm by simp
  then have "findDialer visit ?p dst = k" using assms(1,2) by (simp add: findDialer_host)
  ultimately show ?thesis by simp
qed

lemma learned_address_follows_rule_witness:
  "let p = \<lparr>p_groups = [], p_domainMap = [''bc'' \<mapsto> 1], p_ipMap = Map.empty, p_cidrMap = []\<rparr> in
   findDialer (\<lambda>xs. xs) (AddDomainIP ''a.bc'' (Addr4 [1, 2, 3, 4]) p) ''1.2.3.4:80'' =
   findDialer (\<lambda>xs. xs) (AddDomainIP ''a.bc'' (Addr4 [1, 2, 3, 4]) p) ''a.bc:443''"
proof -
  let ?p = "\<lparr>p_groups = [], p_domainMap = [''bc'' \<mapsto> 1], p_ipMap = Map.empty, p_cidrMap = []\<rparr>"
  have s: "SplitHostPort ''a.bc:443'' = Inr (''a.bc'', ''443'')" "SplitHostPort ''1.2.3.4:80'' = Inr (''1.2.3.4'', ''80'')"
    by (simp_all add: SplitHostPort_def)
  have a: "ParseAddr ''a.bc'' = None" "ParseAddr ''1.2.3.4'' = Some (Addr4 [1, 2, 3, 4])"
    by (simp_all add: ParseAddr_def parse_ipv4_def is_digit_def code_def digit_val_def)
  have "to_lower ''a.bc'' = ''a.bc''" by code_simp
  moreover have "domain_suffixes ''a.bc'' = [''bc'', ''a.bc'']" by (simp add: domain_suffixes_def)
  ultimately show ?thesis
    using learned_address_follows_rule[OF s(1) a(1) s(2) a(2), of "''bc''" ?p 1 "\<lambda>xs. xs"] by simp
qed


text \<open>
  Where the two orders differ: \<open>findDialer\<close> takes the shortest suffix with a rule,
  \<open>AddDomainIP\<close> leaves the longest one in the map.  With rules for \<open>bc\<close> and for \<open>a.bc\<close>,
  connections to the name \<open>a.bc\<close> use the first rule's group and connections to an address learned
  for that name use the second's.
\<close>

lemma rules_disagree_on_learned_address:
  "let p = AddDomainIP ''a.bc'' (Addr4 [1, 2, 3, 4])
        \<lparr>p_groups = [], p_domainMap = [''bc'' \<mapsto> 1, ''a.bc'' \<mapsto> 2], p_ipMap = Map.empty, p_cidrMap = []\<rparr> in
   findDialer visit p ''a.bc:443'' = 1 \<and> findDialer visit p ''1.2.3.4:443'' = 2"
proof -
  let ?q = "\<lparr>p_groups = [], p_domainMap = [''bc'' \<mapsto> 1, ''a.bc'' \<mapsto> 2], p_ipMap = Map.empty, p_cidrMap = []\<rparr>"
  let ?p = "AddDomainIP ''a.bc'' (Addr4 [1, 2, 3, 4]) ?q"
  have s: "SplitHostPort ''a.bc:443'' = Inr (''a.bc'', ''443'')" "SplitHostPort ''1.2.3.4:443'' = Inr (''1.2.3.4'', ''443'')"
    by (simp_all add: SplitHostPort_def)
  have a: "ParseAddr ''a.bc'' = None" "ParseAddr ''1.2.3.4'' = Some (Addr4 [1, 2, 3, 4])"
    by (simp_all add: ParseAddr_def parse_ipv4_def is_digit_def code_def digit_val_def)
  have l: "to_lower ''a.bc'' = ''a.bc''" by code_simp
  have d: "domain_suffixes ''a.bc'' = [''bc'', ''a.bc'']" by (simp add: domain_suffixes_def)
  have "domain_look ?p ''a.bc'' = Some 1" by (simp add: dl.look_first l d AddDomainIP_def Let_def)
  moreover have "p_ipMap ?p (Addr4 [1, 2, 3, 4]) = Some 2" by (simp add: AddDomainIP_ipMap l d)
  ultimately show ?thesis using s a by (simp add: findDialer_host findDialer_learned Let_def)
qed

text \<open>
  Forwarder hosts connect directly: in a proxy made by \<open>NewProxy\<close> from main
  forwarders, a forwarder's host name is served by the direct group, provided that no rule was set
  for a proper suffix of the name (such a rule wins).
\<close>

lemma forwarder_hosts_direct:
  assumes "NewProxy mk forwards st rules = Inr p" "forwards \<noteq> []" "mk ''main'' forwards st = Inr main"
    "f \<in> g_mem main ` set (g_fwdrs main)" "ParseAddr (fwdr_host f) = None" "SplitHostPort dst = Inr (fwdr_host f, port)"
    "\<forall>s\<in>set (domain_suffixes (to_lower (fwdr_host f))). s \<noteq> to_lower (fwdr_host f) \<longrightarrow> p_domainMap p s = None"
  shows "findDialer visit p dst = length (p_groups p) - 1 \<and> mk [] [] st = Inr (last (p_groups p))"
proof -
  let ?h = "to_lower (fwdr_host f)"
  obtain q direct where q: "mk [] [] st = Inr direct"
      "p = store_direct_hosts (length (p_groups q)) (map (g_mem main) (g_fwdrs main))
         (q\<lparr>p_groups := p_groups q @ [direct], p_domainMap := (p_domainMap q)(''direct'' \<mapsto> length (p_groups q))\<rparr>)"
    using assms(1-3) by (auto simp: NewProxy_def Let_def split: sum.splits)
  have g: "p_groups (store_direct_hosts k fs r) = p_groups r" for k fs r
    by (induction fs arbitrary: r) (auto simp: store_direct_hosts_def split: option.splits)
  have "p_domainMap p ?h = Some (length (p_groups q))"
    using assms(4,5) unfolding q(2) store_direct_hosts_domain by auto
  then have "domain_look p (fwdr_host f) = Some (length (p_groups q))"
    using dl.look_unique[OF domain_suffixes_self, of "fwdr_host f" p] assms(7) by simp
  then show ?thesis using assms(5,6) q(1) by (simp add: findDialer_host q(2) g)
qed

lemma forwarder_hosts_direct_witness:
  "\<exists>p main. NewProxy (\<lambda>path fs c. Inr (newFwdrGroup insert_sort path [new_fwdr\<lparr>f_addr := ''hk.bc:443''\<rparr>] c))
       [''ss://hk.bc:443''] example_strategy [] = Inr p \<and> findDialer visit p ''hk.bc:443'' = 1"
proof -
  let ?mk = "\<lambda>path fs c. Inr (newFwdrGroup insert_sort path [new_fwdr\<lparr>f_addr := ''hk.bc:443''\<rparr>] c)"
  let ?main = "newFwdrGroup insert_sort ''main'' [new_fwdr\<lparr>f_addr := ''hk.bc:443''\<rparr>] example_strategy"
  let ?f = "new_fwdr\<lparr>f_addr := ''hk.bc:443''\<rparr>"
  obtain p where p: "NewProxy ?mk [''ss://hk.bc:443''] example_strategy [] = Inr p" by (simp add: NewProxy_def)
  have s: "SplitHostPort ''hk.bc:443'' = Inr (''hk.bc'', ''443'')" by (simp add: SplitHostPort_def)
  then have h: "fwdr_host ?f = ''hk.bc''" by (simp add: fwdr_host_def split_host_port_or_empty_def)
  have a: "ParseAddr ''hk.bc'' = None" by (simp add: ParseAddr_def parse_ipv4_def is_digit_def code_def)
  have l: "to_lower ''hk.bc'' = ''hk.bc''" by code_simp
  have d: "domain_suffixes ''hk.bc'' = [''bc'', ''hk.bc'']" by (simp add: domain_suffixes_def)
  have m: "?f \<in> g_mem ?main ` set (g_fwdrs ?main)"
    by (simp add: newFwdrGroup_def Let_def insert_sort_def)
  have n: "p_domainMap p ''bc'' = None" "length (p_groups p) = 2"
    using p h l a m by (auto simp: NewProxy_def Let_def store_direct_hosts_def newFwdrGroup_def insert_sort_def)
  have "findDialer visit p ''hk.bc:443'' = length (p_groups p) - 1"
    using forwarder_hosts_direct[OF p _ refl m, of "''hk.bc:443''" "''443''" visit] s h a l d n(1) by simp
  then show ?thesis using p n(2) by auto
qed

text \<open>
  The snapshot shows the proxies in use: it lists, in order, the status of every
  forwarder that has a URL, and \<open>Current\<close> is the URL of one that was selected last, or empty when
  none was ever selected.
\<close>

lemma snapshot_reports:
  "let fs = filter (\<lambda>f. f_url f \<noteq> []) (concat (map (\<lambda>g. map (g_mem g) (g_fwdrs g)) gs)) in
   snd (snapshotGroups gs) = map runtimeStatus fs \<and>
   ((\<forall>f\<in>set fs. f_lastSelected f = None) \<and> fst (snapshotGroups gs) = [] \<or>
    (\<exists>f\<in>set fs. fst (snapshotGroups gs) = f_url f \<and> f_lastSelected f \<noteq> None \<and>
       (\<forall>f'\<in>set fs. f_lastSelected f' \<le> f_lastSelected f)))"
proof -
  let ?all = "concat (map (\<lambda>g. map (g_mem g) (g_fwdrs g)) gs)"
  have n: "(x :: int option) \<le> None \<longleftrightarrow> x = None" "None < x \<longleftrightarrow> x \<noteq> None" for x by (cases x; simp)+
  show ?thesis
    using snapshot_items[of ?all None "[]"] snapshot_latest[of ?all None "[]"]
    unfolding snapshotGroups_def Let_def n set_filter by blast
qed

lemma snapshot_reports_witness:
  "\<exists>g. fst (snapshotGroups [g]) = ''u'' \<and> snd (snapshotGroups [g]) \<noteq> []"
proof -
  let ?g = "example_group\<lparr>g_fwdrs := [0], g_mem := (\<lambda>i. new_fwdr\<lparr>f_url := ''u'', f_lastSelected := Some 3\<rparr>)\<rparr>"
  have "fst (snapshotGroups [?g]) = ''u'' \<and> snd (snapshotGroups [?g]) \<noteq> []"
    using snapshot_reports[of "[?g]"] by (simp add: Let_def)
  then show ?thesis by blast
qed

end
