(* ===== verification/Dhcp_Pool.thy ===== *)
theory Dhcp_Pool
  imports Net_Addr
begin

text \<open>
  The DHCP service, \<open>service/dhcpd\<close>: the pool of addresses, the handling of requests and the IP
  checksum of the raw reply.  Times are nanoseconds, \<open>None\<close> is the zero time; a hardware address that is
  nil is \<open>None\<close>.  The lemmas show that a lease goes only to a free address or to its holder,
  that a pool is the range it was asked for, that the loop that builds it does not end at the top of
  the address space, and that the checksum verifies.
\<close>

section \<open>Definitions\<close>

subsection \<open>The pool\<close>

record ditem =
  di_ip :: addr
  di_mac :: "bytes option"
  di_exp :: "int option"

record dpool =
  dp_items :: "ditem list"
  dp_lease :: int

fun ipv4ToNum :: "addr \<Rightarrow> u32 option" where
  "ipv4ToNum a =
     (case AsSlice a of
        b0 # b1 # b2 # b3 # _ \<Rightarrow>
          Some (push_bit 24 (ucast b0) + push_bit 16 (ucast b1) + push_bit 8 (ucast b2) + ucast b3)
      | _ \<Rightarrow> None)"

definition numToIPv4 :: "u32 \<Rightarrow> addr" where
  "numToIPv4 n = Addr4 [ucast (drop_bit 24 n), ucast (drop_bit 16 n), ucast (drop_bit 8 n), ucast n]"

text \<open>The loop \<open>for n := s; n <= e; n++\<close> on 32-bit numbers.\<close>

partial_function (option) pool_items :: "u32 \<Rightarrow> u32 \<Rightarrow> ditem list \<Rightarrow> ditem list option" where
  "pool_items n e acc =
     (if n \<le> e then pool_items (n + 1) e (acc @ [\<lparr>di_ip = numToIPv4 n, di_mac = None, di_exp = None\<rparr>])
      else Some acc)"

declare pool_items.simps [code]

text \<open>\<open>None\<close>: the call does not return.\<close>

definition NewPool :: "int \<Rightarrow> addr \<Rightarrow> addr \<Rightarrow> dpool result option" where
  "NewPool lease start stop =
     (if IsUnspecified start \<or> IsUnspecified stop \<or> Is6 start \<or> Is6 stop then
        Some (Inl (ErrMsg ''start ip or end ip is wrong/nil, please check your config, note only ipv4 is supported''))
      else
        case (ipv4ToNum start, ipv4ToNum stop) of
          (Some s, Some e) \<Rightarrow>
            if e < s then Some (Inl (ErrMsg ''start ip larger than end ip''))
            else map_option (\<lambda>items. Inr \<lparr>dp_items = items, dp_lease = lease\<rparr>) (pool_items s e [])
        | _ \<Rightarrow> Some (Inl (Panic ''index out of range'')))"

text \<open>The turn of the ticker.\<close>

definition expire_tick :: "int \<Rightarrow> dpool \<Rightarrow> dpool" where
  "expire_tick now p =
     p\<lparr>dp_items := map (\<lambda>it. case di_exp it of
           Some t \<Rightarrow> if t < now then it\<lparr>di_mac := None, di_exp := None\<rparr> else it
         | None \<Rightarrow> it) (dp_items p)\<rparr>"

text \<open>\<open>bytes.Equal\<close>: nil and empty are equal.\<close>

definition mac_equal :: "bytes option \<Rightarrow> bytes option \<Rightarrow> bool" where
  "mac_equal a b = ((case a of None \<Rightarrow> [] | Some x \<Rightarrow> x) = (case b of None \<Rightarrow> [] | Some x \<Rightarrow> x))"

text \<open>A loop that changes the first item that satisfies a condition and returns its address.\<close>

fun first_item :: "(ditem \<Rightarrow> bool) \<Rightarrow> (ditem \<Rightarrow> ditem) \<Rightarrow> ditem list \<Rightarrow> (addr \<times> ditem list) option" where
  "first_item q h [] = None"
| "first_item q h (it # its) =
     (if q it then Some (di_ip it, h it # its)
      else map_option (apsnd ((#) it)) (first_item q h its))"

text \<open>\<open>rnd\<close> is the random start index.\<close>

definition LeaseIP :: "int \<Rightarrow> nat \<Rightarrow> bytes option \<Rightarrow> addr \<Rightarrow> dpool \<Rightarrow> addr result \<times> dpool" where
  "LeaseIP now rnd mac ip p =
     (let its = dp_items p;
          take_it = (\<lambda>it. it\<lparr>di_mac := mac, di_exp := Some (now + dp_lease p)\<rparr>);
          done = (\<lambda>r. (Inr (fst r), p\<lparr>dp_items := snd r\<rparr>))
      in case first_item (\<lambda>it. mac_equal mac (di_mac it))
                (\<lambda>it. if di_exp it \<noteq> None then it\<lparr>di_exp := Some (now + dp_lease p)\<rparr> else it) its of
           Some r \<Rightarrow> done r
         | None \<Rightarrow>
             (case first_item (\<lambda>it. di_ip it = ip \<and> di_mac it = None) take_it its of
                Some r \<Rightarrow> done r
              | None \<Rightarrow>
                  (case first_item (\<lambda>it. di_mac it = None) take_it (drop rnd its) of
                     Some r \<Rightarrow> done (apsnd ((@) (take rnd its)) r)
                   | None \<Rightarrow>
                       (case first_item (\<lambda>it. di_mac it = None) take_it its of
                          Some r \<Rightarrow> done r
                        | None \<Rightarrow> (Inl (ErrMsg ''no more ip can be leased''), p)))))"

definition LeaseStaticIP :: "bytes option \<Rightarrow> addr \<Rightarrow> dpool \<Rightarrow> dpool" where
  "LeaseStaticIP mac ip p =
     p\<lparr>dp_items := map (\<lambda>it. if di_ip it = ip then it\<lparr>di_mac := mac, di_exp := None\<rparr> else it) (dp_items p)\<rparr>"

definition ReleaseIP :: "bytes option \<Rightarrow> dpool \<Rightarrow> dpool" where
  "ReleaseIP mac p =
     p\<lparr>dp_items := map (\<lambda>it. if di_exp it \<noteq> None \<and> mac_equal mac (di_mac it)
                             then it\<lparr>di_mac := None, di_exp := None\<rparr> else it) (dp_items p)\<rparr>"

subsection \<open>The service\<close>

text \<open>\<open>net.ParseMAC\<close>: groups of two hexadecimal digits with colons or dashes, or of four with dots; 6, 8 or
  20 bytes in all.\<close>

fun hex_bytes :: "string \<Rightarrow> bytes option" where
  "hex_bytes [] = Some []"
| "hex_bytes [a] = None"
| "hex_bytes (a # b # r) =
     (case (hex_digit a, hex_digit b, hex_bytes r) of
        (Some x, Some y, Some bs) \<Rightarrow> Some (of_nat (16 * x + y) # bs)
      | _ \<Rightarrow> None)"

definition mac_groups :: "nat \<Rightarrow> string list \<Rightarrow> bytes option" where
  "mac_groups w gs =
     (if list_all (\<lambda>g. length g = w) gs then hex_bytes (concat gs) else None)"

definition ParseMAC :: "string \<Rightarrow> bytes option" where
  "ParseMAC s =
     (let r = (if length s < 14 then None
               else if s ! 2 = CHR '':'' \<or> s ! 2 = CHR ''-'' then mac_groups 2 (split_on (s ! 2) s)
               else if s ! 4 = CHR ''.'' then mac_groups 4 (split_on CHR ''.'' s)
               else None)
      in case r of Some b \<Rightarrow> if length b \<in> {6, 8, 20} then Some b else None | None \<Rightarrow> None)"

fun static_leases :: "string list \<Rightarrow> dpool \<Rightarrow> dpool" where
  "static_leases [] p = p"
| "static_leases (host # hosts) p =
     static_leases hosts
       (case cut_byte CHR ''='' host of
          None \<Rightarrow> p
        | Some (m, i) \<Rightarrow>
            (case (ParseMAC m, ParseAddr i) of
               (Some mac, Some ip) \<Rightarrow> LeaseStaticIP (Some mac) ip p
             | _ \<Rightarrow> p))"

text \<open>\<open>New\<close> up to the creation of the server: the pool it serves from.\<close>

definition New :: "string list \<Rightarrow> dpool result option" where
  "New args =
     (case args of
        iface # start # stop # leaseMin # hosts \<Rightarrow>
          (case (ParseAddr start, ParseAddr stop, atoi leaseMin) of
             (Some s, Some e, Some m) \<Rightarrow>
               map_option (\<lambda>r. case r of Inl x \<Rightarrow> Inl x | Inr p \<Rightarrow> Inr (static_leases hosts p))
                 (NewPool (i64 (m * 60000000000)) s e)
           | (None, _, _) \<Rightarrow> Some (Inl (ErrMsg ''startIP is not valid''))
           | (_, None, _) \<Rightarrow> Some (Inl (ErrMsg ''endIP is not valid''))
           | (_, _, None) \<Rightarrow> Some (Inl (ErrMsg ''LEASE_MINUTES is not valid'')))
      | _ \<Rightarrow> Some (Inl (ErrMsg ''not enough parameters, exiting'')))"

datatype dhcp_type = Discover | Offer | Request | Decline | Ack | Nak | Release | Inform | OtherType

record dhcp_msg =
  dm_type :: dhcp_type
  dm_mac :: "bytes option"
  dm_reqip :: "bytes option"
  dm_client :: bytes

fun addr_from_slice :: "bytes \<Rightarrow> addr" where
  "addr_from_slice b = (if length b = 4 then Addr4 b else if length b = 16 then Addr6 b [] else NoAddr)"

text \<open>\<open>handleDHCP\<close>: the type and address of the reply, if one is sent.  \<open>failover\<close> and \<open>own_mac\<close> are the
  state of the service and the interface's address.\<close>

definition handleDHCP :: "int \<Rightarrow> nat \<Rightarrow> bool \<Rightarrow> bytes \<Rightarrow> dhcp_msg \<Rightarrow> dpool \<Rightarrow> (dhcp_type \<times> addr) option \<times> dpool" where
  "handleDHCP now rnd failover own_mac m p =
     (if failover \<or> mac_equal (Some own_mac) (dm_mac m) then (None, p)
      else
        let lease = (\<lambda>reqIP ty.
              case LeaseIP now rnd (dm_mac m) reqIP p of
                (Inl _, p') \<Rightarrow> (None, p')
              | (Inr ip, p') \<Rightarrow>
                  (Some (if dm_type m = Request \<and> \<not> IsUnspecified reqIP \<and> reqIP \<noteq> ip then Nak else ty, ip), p'))
        in case dm_type m of
             Discover \<Rightarrow> lease NoAddr Offer
           | Inform \<Rightarrow> lease NoAddr Ack
           | Request \<Rightarrow>
               lease (case dm_reqip m of Some b \<Rightarrow> addr_from_slice b | None \<Rightarrow> Addr4 (dm_client m)) Ack
           | Release \<Rightarrow> (None, ReleaseIP (dm_mac m) p)
           | Decline \<Rightarrow> (None, ReleaseIP (dm_mac m) p)
           | _ \<Rightarrow> (None, p))"

definition setFailover :: "bool \<Rightarrow> bool \<Rightarrow> bool" where
  "setFailover v failover = v"

subsection \<open>The raw reply\<close>

fun csum_words :: "bytes \<Rightarrow> u32 \<Rightarrow> u32" where
  "csum_words (a # b # r) s = csum_words r (s + push_bit 8 (ucast a) + ucast b)"
| "csum_words _ s = s"

function csum_fold :: "u32 \<Rightarrow> u32" where
  "csum_fold s = (if s \<le> 65535 then s else csum_fold (drop_bit 16 s + ucast (ucast s :: u16)))"
  by pat_completeness auto

lemma csum_carry: "unat (drop_bit 16 s + ucast (ucast s :: u16) :: u32) = unat s div 65536 + unat s mod 65536"
proof -
  have d: "unat (drop_bit 16 s) = unat s div 65536" by (simp add: drop_bit_eq_div unat_div)
  have m: "unat (ucast (ucast s :: u16) :: u32) = unat s mod 65536" by (simp add: unsigned_ucast_eq take_bit_eq_mod unat_mod)
  have "unat s div 65536 < 65536" using unsigned_less[of s, where 'a = nat] by (simp add: less_mult_imp_div_less)
  moreover have "unat s mod 65536 < 65536" by simp
  ultimately have "unat s div 65536 + unat s mod 65536 < 4294967296" by linarith
  then show ?thesis unfolding unat_word_ariths d m by simp
qed

termination csum_fold
proof (relation "measure unat")
  fix s :: u32
  assume "\<not> s \<le> 65535"
  then have "65536 \<le> unat s" by (simp add: word_le_nat_alt)
  moreover have "unat s = 65536 * (unat s div 65536) + unat s mod 65536" by simp
  moreover have "0 < unat s div 65536" using \<open>65536 \<le> unat s\<close> by (simp add: div_greater_zero_iff)
  ultimately have "unat s div 65536 + unat s mod 65536 < unat s" by linarith
  then show "(drop_bit 16 s + ucast (ucast s :: u16), s) \<in> measure unat" by (simp add: csum_carry)
qed simp

declare csum_fold.simps [simp del]

definition checksum :: "bytes \<Rightarrow> u16" where
  "checksum bs = NOT (ucast (csum_fold (csum_words bs 0)))"

text \<open>The IP header of the reply (bytes 14 to 33 of the frame), with a given checksum field, and the whole
  frame of 590 bytes.\<close>

definition ip_header :: "u16 \<Rightarrow> bytes \<Rightarrow> bytes \<Rightarrow> bytes" where
  "ip_header csum server your =
     [0x45, 0, 0x02, 0x40, 0, 0, 0, 0, 0x40, 0x11] @ put16 csum @ take 4 server @ take 4 your"

definition reply_frame :: "bytes \<Rightarrow> bytes \<Rightarrow> bytes \<Rightarrow> bytes \<Rightarrow> bytes \<Rightarrow> bytes" where
  "reply_frame client_mac iface_mac server your payload =
     take 6 client_mac @ take 6 iface_mac @ [0x08, 0] @
     ip_header (checksum (ip_header 0 server your)) server your @
     [0, 67, 0, 68, 0x02, 0x2c, 0, 0] @ take 548 (payload @ replicate 548 0)"


section \<open>Lemmas\<close>

subsection \<open>The pool\<close>

lemma first_item_Some:
  "first_item q h its = Some (a, its') \<Longrightarrow>
   \<exists>xs it ys. its = xs @ it # ys \<and> q it \<and> a = di_ip it \<and> its' = xs @ h it # ys"
proof (induction its arbitrary: its')
  case (Cons it its)
  show ?case
  proof (cases "q it")
    case True
    then show ?thesis using Cons.prems by (intro exI[of _ "[]"]) auto
  next
    case False
    then obtain r where r: "first_item q h its = Some (a, r)" "its' = it # r" using Cons.prems by auto
    then obtain xs i ys where "its = xs @ i # ys" "q i" "a = di_ip i" "r = xs @ h i # ys" using Cons.IH by blast
    then show ?thesis using r(2) by (intro exI[of _ "it # xs"]) auto
  qed
qed simp

lemma first_item_None: "first_item q h its = None \<longleftrightarrow> (\<forall>it\<in>set its. \<not> q it)"
  by (induction its) auto

lemma LeaseIP_cases:
  assumes "LeaseIP now rnd mac ip p = (Inr a, p')"
  shows "\<exists>xs it it' ys. dp_items p = xs @ it # ys \<and> dp_items p' = xs @ it' # ys \<and> a = di_ip it \<and> di_ip it' = a \<and>
     (mac_equal mac (di_mac it) \<and> di_mac it' = di_mac it \<or>
      di_mac it = None \<and> di_mac it' = mac \<and> (\<forall>x\<in>set (dp_items p). \<not> mac_equal mac (di_mac x)))"
proof -
  let ?its = "dp_items p"
  let ?take = "\<lambda>it. it\<lparr>di_mac := mac, di_exp := Some (now + dp_lease p)\<rparr>"
  let ?hold = "\<lambda>it. if di_exp it \<noteq> None then it\<lparr>di_exp := Some (now + dp_lease p)\<rparr> else it"
  show ?thesis
  proof (cases "first_item (\<lambda>it. mac_equal mac (di_mac it)) ?hold ?its")
    case (Some r)
    then have "a = fst r" "dp_items p' = snd r" using assms by (auto simp: LeaseIP_def Let_def)
    then obtain xs it ys where "?its = xs @ it # ys" "mac_equal mac (di_mac it)" "a = di_ip it" "dp_items p' = xs @ ?hold it # ys"
      using first_item_Some[of "\<lambda>it. mac_equal mac (di_mac it)" ?hold ?its a "snd r"] Some by auto
    then show ?thesis by (intro exI[of _ xs] exI[of _ it] exI[of _ "?hold it"] exI[of _ ys]) auto
  next
    case none: None
    then have nm: "\<forall>x\<in>set ?its. \<not> mac_equal mac (di_mac x)" by (simp add: first_item_None)
    have "\<exists>xs it ys. ?its = xs @ it # ys \<and> di_mac it = None \<and> a = di_ip it \<and> dp_items p' = xs @ ?take it # ys"
    proof (cases "first_item (\<lambda>it. di_ip it = ip \<and> di_mac it = None) ?take ?its")
      case (Some r)
      then have "a = fst r" "dp_items p' = snd r" using assms none by (auto simp: LeaseIP_def Let_def)
      then show ?thesis using first_item_Some[of "\<lambda>it. di_ip it = ip \<and> di_mac it = None" ?take ?its a "snd r"] Some by auto
    next
      case none2: None
      show ?thesis
      proof (cases "first_item (\<lambda>it. di_mac it = None) ?take (drop rnd ?its)")
        case (Some r)
        then have r: "a = fst r" "dp_items p' = take rnd ?its @ snd r" using assms none none2 by (auto simp: LeaseIP_def Let_def)
        then obtain xs it ys where "drop rnd ?its = xs @ it # ys" "di_mac it = None" "a = di_ip it" "snd r = xs @ ?take it # ys"
          using first_item_Some[of "\<lambda>it. di_mac it = None" ?take "drop rnd ?its" a "snd r"] Some by auto
        moreover have "?its = take rnd ?its @ drop rnd ?its" by simp
        ultimately have "?its = (take rnd ?its @ xs) @ it # ys" by (metis append_assoc)
        then show ?thesis using \<open>di_mac it = None\<close> \<open>a = di_ip it\<close> \<open>snd r = xs @ ?take it # ys\<close> r(2)
          by (intro exI[of _ "take rnd ?its @ xs"] exI[of _ it] exI[of _ ys]) simp
      next
        case none3: None
        then obtain r where "first_item (\<lambda>it. di_mac it = None) ?take ?its = Some r" "a = fst r" "dp_items p' = snd r"
          using assms none none2 by (auto simp: LeaseIP_def Let_def split: option.splits)
        then show ?thesis using first_item_Some[of "\<lambda>it. di_mac it = None" ?take ?its a "snd r"] by auto
      qed
    qed
    then obtain xs it ys where "?its = xs @ it # ys" "di_mac it = None" "a = di_ip it" "dp_items p' = xs @ ?take it # ys" by blast
    then show ?thesis using nm by (intro exI[of _ xs] exI[of _ it] exI[of _ "?take it"] exI[of _ ys]) auto
  qed
qed

lemma LeaseIP_fails:
  assumes "LeaseIP now rnd mac ip p = (Inl e, p')"
  shows "p' = p \<and> (\<forall>it\<in>set (dp_items p). di_mac it \<noteq> None \<and> \<not> mac_equal mac (di_mac it))"
  using assms by (auto simp: LeaseIP_def Let_def first_item_None split: option.splits)

subsection \<open>Building the pool\<close>

lemma pool_items_range:
  assumes "unat n + d = unat e + 1" "unat e + 1 < 2 ^ 32"
  shows "pool_items n e acc =
     Some (acc @ map (\<lambda>k. \<lparr>di_ip = numToIPv4 (of_nat k), di_mac = None, di_exp = None\<rparr>) [unat n..<unat e + 1])"
  using assms
proof (induction d arbitrary: n acc)
  case 0
  then have "\<not> n \<le> e" by (simp add: word_le_nat_alt)
  then show ?case using 0 by (subst pool_items.simps) simp
next
  case (Suc d)
  have le: "n \<le> e" using Suc.prems by (simp add: word_le_nat_alt)
  have u: "unat (n + 1) = unat n + 1" using Suc.prems by (simp add: unat_word_ariths)
  have "[unat n..<unat e + 1] = unat n # [unat n + 1..<unat e + 1]" using Suc.prems by (simp add: upt_conv_Cons)
  then show ?case using Suc.IH[of "n + 1"] Suc.prems le u by (subst pool_items.simps) simp
qed

lemma pool_items_diverges: "pool_items n (- 1) acc = None"
proof (rule ccontr)
  assume "pool_items n (- 1) acc \<noteq> None"
  then obtain r where r: "pool_items n (- 1) acc = Some r" by blast
  have "- 1 \<noteq> (- 1 :: u32)"
  proof (rule pool_items.raw_induct[where P = "\<lambda>n e acc r. e \<noteq> - 1", OF _ r], goal_cases)
    case (1 f n e acc r)
    show ?case
    proof
      assume e: "e = - 1"
      then have "n \<le> e" by simp
      then have "\<exists>x. f (n + 1) e (acc @ [\<lparr>di_ip = numToIPv4 n, di_mac = None, di_exp = None\<rparr>]) = Some x"
        using 1(2) by simp
      then show False using 1(1) e by blast
    qed
  qed
  then show False by simp
qed



lemma ipv4ToNum_or:
  "ipv4ToNum (Addr4 [b0, b1, b2, b3]) =
     Some (push_bit 24 (ucast b0) OR push_bit 16 (ucast b1) OR push_bit 8 (ucast b2) OR ucast b3)"
proof -
  have "push_bit 24 (ucast b0) AND push_bit 16 (ucast b1) = (0 :: u32)"
    "(push_bit 24 (ucast b0) OR push_bit 16 (ucast b1)) AND push_bit 8 (ucast b2) = (0 :: u32)"
    "(push_bit 24 (ucast b0) OR push_bit 16 (ucast b1) OR push_bit 8 (ucast b2)) AND ucast b3 = (0 :: u32)"
    by (auto intro!: bit_word_eqI simp: bit_simps)
  then show ?thesis by (simp add: disjunctive_add_eq_or or.assoc)
qed

lemma ipv4_num_inverse:
  assumes "length b = 4" "ipv4ToNum (Addr4 b) = Some n"
  shows "numToIPv4 n = Addr4 b"
proof -
  obtain b0 b1 b2 b3 where b: "b = [b0, b1, b2, b3]"
    using assms(1) by (auto simp: numeral_eq_Suc length_Suc_conv)
  then have "n = (push_bit 24 (ucast b0) OR push_bit 16 (ucast b1) OR push_bit 8 (ucast b2) OR ucast b3)"
    using assms(2) unfolding b ipv4ToNum_or by simp
  then show ?thesis unfolding numToIPv4_def b
    by (auto simp: bit_simps intro!: bit_word_eqI)
qed

lemma num_ipv4_inverse: "ipv4ToNum (numToIPv4 n) = Some n"
  using be32_put32[of n] unfolding numToIPv4_def ipv4ToNum_or be32_def by (rule arg_cong)

lemma numToIPv4_inj: "numToIPv4 m = numToIPv4 n \<Longrightarrow> m = n"
  by (metis num_ipv4_inverse option.inject)

subsection \<open>The checksum\<close>

lemma csum_fold_spec:
  "unat (csum_fold s) mod 65535 = unat s mod 65535 \<and> unat (csum_fold s) \<le> 65535 \<and> (s \<noteq> 0 \<longrightarrow> csum_fold s \<noteq> 0)"
proof (induction s rule: csum_fold.induct)
  case (1 s)
  show ?case
  proof (cases "s \<le> 65535")
    case True
    then show ?thesis by (simp add: csum_fold.simps[of s] word_le_nat_alt)
  next
    case False
    let ?t = "drop_bit 16 s + ucast (ucast s :: u16) :: u32"
    have ih: "unat (csum_fold ?t) mod 65535 = unat ?t mod 65535" "unat (csum_fold ?t) \<le> 65535" "?t \<noteq> 0 \<longrightarrow> csum_fold ?t \<noteq> 0"
      using "1.IH"[OF False] by auto
    have "unat s = 65535 * (unat s div 65536) + (unat s div 65536 + unat s mod 65536)"
      using div_mult_mod_eq[of "unat s" 65536] by linarith
    then have m: "unat ?t mod 65535 = unat s mod 65535" by (metis csum_carry mod_mult_self4)
    have "65536 \<le> unat s" using False by (simp add: word_le_nat_alt)
    then have "0 < unat ?t" unfolding csum_carry by (simp add: div_greater_zero_iff)
    then have "?t \<noteq> 0" by (metis less_irrefl unat_0)
    then show ?thesis using ih m False by (simp add: csum_fold.simps[of s])
  qed
qed

lemma csum_words_append:
  "even (length xs) \<Longrightarrow> csum_words (xs @ ys) s = csum_words ys (csum_words xs s)"
  by (induction xs s rule: csum_words.induct) auto

lemma csum_words_add: "csum_words xs s = s + csum_words xs 0"
proof (induction xs arbitrary: s rule: induct_list012)
  case (3 a b r)
  then show ?case by (metis (no_types, lifting) add.assoc add.left_neutral csum_words.simps(1))
qed simp_all



lemma csum_word_nat: "unat (push_bit 8 (ucast (a :: byte)) + ucast (b :: byte) :: u32) = unat a * 256 + unat b"
proof -
  have "unat a < 4294967296" "unat a * 256 < 4294967296" using unat_byte_less[of a] by linarith+
  then have a: "unat (push_bit 8 (ucast a) :: u32) = unat a * 256"
    by (simp add: push_bit_eq_mult unat_word_ariths unsigned_ucast_eq take_bit_eq_mod)
  have "unat b < 4294967296" using unat_byte_less[of b] by linarith
  then have b: "unat (ucast b :: u32) = unat b" by (simp add: unsigned_ucast_eq take_bit_eq_mod)
  have "unat a * 256 + unat b < 4294967296" using unat_byte_less[of a] unat_byte_less[of b] by linarith
  then show ?thesis unfolding unat_word_ariths a b by simp
qed

lemma csum_words_bound:
  "65535 * length xs < 2 ^ 32 \<Longrightarrow> unat (csum_words xs 0) \<le> 65535 * length xs"
proof (induction xs rule: induct_list012)
  case (3 a b r)
  let ?w = "push_bit 8 (ucast a) + ucast b :: u32"
  have w: "unat ?w \<le> 65535" unfolding csum_word_nat using unat_byte_less[of a] unat_byte_less[of b] by linarith
  have r: "unat (csum_words r 0) \<le> 65535 * length r" using 3 by simp
  have "csum_words (a # b # r) 0 = ?w + csum_words r 0" using csum_words_add[of r "0 + push_bit 8 (ucast a) + ucast b"] by simp
  then have "unat (csum_words (a # b # r) 0) \<le> unat ?w + unat (csum_words r 0)"
    by (simp add: unat_word_ariths)
  then show ?case using w r by simp
qed simp_all

lemma csum_words_put16: "csum_words (put16 c) 0 = ucast c"
proof -
  have l: "bit c n \<Longrightarrow> n < 16" for n using bit_imp_le_length[of c n] by simp
  have "push_bit 8 (ucast (ucast (drop_bit 8 c) :: byte)) AND (ucast (ucast c :: byte) :: u32) = 0"
    by (auto intro!: bit_word_eqI simp: bit_simps)
  moreover have "push_bit 8 (ucast (ucast (drop_bit 8 c) :: byte)) OR ucast (ucast c :: byte) = (ucast c :: u32)"
    by (auto intro!: bit_word_eqI simp: bit_simps) (drule l, simp)+
  ultimately show ?thesis by (simp add: put16_def disjunctive_add_eq_or)
qed

lemma csum_ip_header_parts:
  "csum_words (ip_header c srv your) 0 = 34641 + ucast c + csum_words (take 4 srv @ take 4 your) 0"
proof -
  let ?a = "[0x45, 0, 0x02, 0x40, 0, 0, 0, 0, 0x40, 0x11] :: bytes"
  have a: "csum_words ?a 0 = 34641" by simp
  have "csum_words (ip_header c srv your) 0 = csum_words (take 4 srv @ take 4 your) (csum_words (put16 c) (csum_words ?a 0))"
    unfolding ip_header_def by (subst csum_words_append, simp, subst csum_words_append, simp_all)
  also have "\<dots> = csum_words (put16 c) (csum_words ?a 0) + csum_words (take 4 srv @ take 4 your) 0" by (rule csum_words_add)
  also have "csum_words (put16 c) (csum_words ?a 0) = 34641 + ucast c"
    using csum_words_add[of "put16 c" "csum_words ?a 0"] unfolding csum_words_put16 a .
  finally show ?thesis .
qed

lemma csum_ip_header: "csum_words (ip_header c srv your) 0 = csum_words (ip_header 0 srv your) 0 + ucast c"
  by (simp add: csum_ip_header_parts)

lemma csum_ip_header_nonzero: "csum_words (ip_header 0 srv your) 0 \<noteq> 0"
proof -
  let ?r = "csum_words (take 4 srv @ take 4 your) 0"
  have "unat ?r \<le> 65535 * length (take 4 srv @ take 4 your)" by (rule csum_words_bound) simp
  moreover have "length (take 4 srv @ take 4 your) \<le> 8" by simp
  ultimately have "unat ?r \<le> 65535 * 8" by linarith
  then have "unat (34641 + ?r) = 34641 + unat ?r" by (simp add: unat_word_ariths)
  then have "34641 + ?r \<noteq> 0" by (metis add_is_0 numeral_eq_iff unat_0 zero_neq_numeral)
  then show ?thesis by (simp add: csum_ip_header_parts)
qed

lemma unat_NOT16: "unat (NOT (x :: u16)) = 65535 - unat x"
proof -
  have "NOT x = - 1 - x" by (simp add: not_eq_complement)
  moreover have "x \<le> - 1" by simp
  moreover have "unat (- 1 :: u16) = 65535" by (simp add: unsigned_minus_1_eq_mask mask_eq_exp_minus_1)
  ultimately show ?thesis using unat_sub[of x "- 1"] by simp
qed

lemma ip_checksum_zero: "checksum (ip_header (checksum (ip_header 0 srv your)) srv your) = 0"
proof -
  define S where "S = csum_words (ip_header 0 srv your) 0"
  define F where "F = unat (csum_fold S)"
  define c where "c = checksum (ip_header 0 srv your)"
  have len: "length (ip_header 0 srv your) \<le> 20" by (simp add: ip_header_def)
  then have "unat S \<le> 65535 * length (ip_header 0 srv your)" unfolding S_def by (intro csum_words_bound) simp
  then have S: "unat S \<le> 65535 * 20" using len by linarith
  have "S \<noteq> 0" unfolding S_def by (rule csum_ip_header_nonzero)
  then have F: "F mod 65535 = unat S mod 65535" "F \<le> 65535" "0 < F"
    using csum_fold_spec[of S] by (auto simp: F_def unat_gt_0)
  have "unat (ucast (csum_fold S) :: u16) = F" using F(2) by (simp add: F_def unsigned_ucast_eq take_bit_eq_mod)
  then have c: "unat c = 65535 - F" by (simp add: c_def checksum_def S_def[symmetric] unat_NOT16)
  have uc: "unat (ucast c :: u32) = unat c" 
    using c by (simp add: unsigned_ucast_eq take_bit_eq_mod)
  have T: "unat (S + ucast c :: u32) = unat S + (65535 - F)"
    using S by (simp add: unat_word_ariths uc c)
  let ?f = "csum_fold (S + ucast c)"
  have "unat ?f mod 65535 = (unat S + (65535 - F)) mod 65535" using csum_fold_spec[of "S + ucast c"] T by simp
  also have "\<dots> = (F + (65535 - F)) mod 65535" using F(1) by (metis mod_add_left_eq)
  also have "\<dots> = 0" using F(2) by simp
  finally have f0: "unat ?f mod 65535 = 0" .
  have "S + ucast c \<noteq> 0" using T \<open>S \<noteq> 0\<close> by (metis add_is_0 unat_0 unat_eq_zero)
  then have "0 < unat ?f" "unat ?f \<le> 65535" using csum_fold_spec[of "S + ucast c"] by (auto simp: unat_gt_0)
  then have "unat ?f = 65535" using f0 by (metis le_neq_implies_less mod_less less_irrefl)
  then have "?f = 65535" by (simp add: word_unat_eq_iff)
  moreover have "checksum (ip_header c srv your) = NOT (ucast (csum_fold (S + ucast c)))"
    unfolding checksum_def csum_ip_header[of c] S_def ..
  ultimately show ?thesis unfolding c_def[symmetric] by simp
qed


lemma replicate_4: "replicate 4 x = [x, x, x, x]"
  by (simp add: numeral_eq_Suc)

section \<open>Properties\<close>

text \<open>
  Leases are exclusive.  In a pool of distinct addresses, a lease given to a client changes
  only the entry of the address it returns; that entry was free or already held by this client,
  and is held by it afterwards, so no address of another client is ever handed out.  A client that
  holds an entry gets it again.  A lease is refused only when every address is held by other clients,
  and then nothing changes.
\<close>

lemma dhcp_lease_exclusive:
  assumes "distinct (map di_ip (dp_items p))" "mac \<noteq> []" "LeaseIP now rnd (Some mac) ip p = (r, p')"
  shows "case r of
      Inl e \<Rightarrow> p' = p \<and> (\<forall>it\<in>set (dp_items p). di_mac it \<noteq> None \<and> di_mac it \<noteq> Some mac)
    | Inr a \<Rightarrow> map di_ip (dp_items p') = map di_ip (dp_items p) \<and>
        (\<forall>it'\<in>set (dp_items p'). di_ip it' = a \<longrightarrow> di_mac it' = Some mac) \<and>
        (\<forall>it\<in>set (dp_items p). di_ip it = a \<longrightarrow> di_mac it = None \<or> di_mac it = Some mac) \<and>
        (\<forall>it\<in>set (dp_items p). di_ip it \<noteq> a \<longrightarrow> it \<in> set (dp_items p')) \<and>
        ((\<exists>it\<in>set (dp_items p). di_mac it = Some mac) \<longrightarrow> (\<exists>it\<in>set (dp_items p). di_mac it = Some mac \<and> di_ip it = a))"
proof (cases r)
  case (Inl e)
  have "mac_equal (Some mac) m \<longleftrightarrow> m = Some mac" for m using assms(2) by (cases m) (auto simp: mac_equal_def)
  then show ?thesis using LeaseIP_fails[of now rnd "Some mac" ip p e p'] assms(3) Inl by auto
next
  case (Inr a)
  have eq: "mac_equal (Some mac) m \<longleftrightarrow> m = Some mac" for m using assms(2) by (cases m) (auto simp: mac_equal_def)
  obtain xs it it' ys where l: "dp_items p = xs @ it # ys" "dp_items p' = xs @ it' # ys" "a = di_ip it" "di_ip it' = a"
      "di_mac it = Some mac \<and> di_mac it' = di_mac it \<or>
       di_mac it = None \<and> di_mac it' = Some mac \<and> (\<forall>x\<in>set (dp_items p). di_mac x \<noteq> Some mac)"
    using LeaseIP_cases[of now rnd "Some mac" ip p a p'] assms(3) Inr unfolding eq by blast
  have "a \<notin> di_ip ` (set xs \<union> set ys)" using assms(1) l(1,3) by auto
  then have "di_ip x \<noteq> a" if "x \<in> set xs \<union> set ys" for x using that by (metis image_eqI)
  then show ?thesis using Inr l by auto
qed

lemma dhcp_lease_exclusive_witness:
  "\<exists>a p'. LeaseIP 0 1 (Some [1, 2, 3, 4, 5, 6]) (Addr4 [10, 0, 0, 3])
      \<lparr>dp_items = [\<lparr>di_ip = Addr4 [10, 0, 0, 2], di_mac = Some [9], di_exp = Some 5\<rparr>,
                  \<lparr>di_ip = Addr4 [10, 0, 0, 3], di_mac = None, di_exp = None\<rparr>], dp_lease = 60\<rparr> = (Inr a, p') \<and>
     (\<forall>it'\<in>set (dp_items p'). di_ip it' = a \<longrightarrow> di_mac it' = Some [1, 2, 3, 4, 5, 6])"
proof -
  let ?p = "\<lparr>dp_items = [\<lparr>di_ip = Addr4 [10, 0, 0, 2], di_mac = Some [9], di_exp = Some 5\<rparr>,
      \<lparr>di_ip = Addr4 [10, 0, 0, 3], di_mac = None, di_exp = None\<rparr>], dp_lease = 60\<rparr>"
  obtain a p' where "LeaseIP 0 1 (Some [1, 2, 3, 4, 5, 6]) (Addr4 [10, 0, 0, 3]) ?p = (Inr a, p')"
    by (simp add: LeaseIP_def mac_equal_def)
  then show ?thesis using dhcp_lease_exclusive[of ?p "[1, 2, 3, 4, 5, 6]" 0 1 "Addr4 [10, 0, 0, 3]" "Inr a" p'] by auto
qed

text \<open>
  A pool is the range it was asked for: for two IPv4 addresses in order, the last of them
  below 255.255.255.255, the pool consists of the addresses from the first to the last, each once and
  free.
\<close>

lemma dhcp_pool_is_range:
  assumes "length a = 4" "length b = 4" "a \<noteq> replicate 4 0" "b \<noteq> replicate 4 0"
    "ipv4ToNum (Addr4 a) = Some s" "ipv4ToNum (Addr4 b) = Some e" "s \<le> e" "e \<noteq> - 1"
  shows "\<exists>p. NewPool lease (Addr4 a) (Addr4 b) = Some (Inr p) \<and>
     map di_ip (dp_items p) = map (\<lambda>k. numToIPv4 (of_nat k)) [unat s..<unat e + 1] \<and>
     di_ip (hd (dp_items p)) = Addr4 a \<and> di_ip (last (dp_items p)) = Addr4 b \<and>
     distinct (map di_ip (dp_items p)) \<and> (\<forall>it\<in>set (dp_items p). di_mac it = None \<and> di_exp it = None)"
proof -
  have "unat e \<noteq> unat (- 1 :: u32)" using assms(8) by (simp add: word_unat_eq_iff)
  then have "unat e \<noteq> 4294967295" by (simp add: unsigned_minus_1_eq_mask mask_eq_exp_minus_1)
  then have e: "unat e + 1 < 2 ^ 32" using unsigned_less[of e, where 'a = nat] by simp
  have se: "unat s \<le> unat e" using assms(7) by (simp add: word_le_nat_alt)
  let ?mk = "\<lambda>k. \<lparr>di_ip = numToIPv4 (of_nat k), di_mac = None, di_exp = None\<rparr>"
  let ?items = "map ?mk [unat s..<unat e + 1]"
  have it: "pool_items s e [] = Some ?items" using pool_items_range[of s "unat e + 1 - unat s" e "[]"] e se by simp
  then have np: "NewPool lease (Addr4 a) (Addr4 b) = Some (Inr \<lparr>dp_items = ?items, dp_lease = lease\<rparr>)"
    using assms by (simp add: NewPool_def not_less del: ipv4ToNum.simps)
  have "inj_on (\<lambda>k. numToIPv4 (of_nat k)) (set [unat s..<unat e + 1])"
  proof (rule inj_onI)
    fix x y assume "x \<in> set [unat s..<unat e + 1]" "y \<in> set [unat s..<unat e + 1]" "numToIPv4 (of_nat x) = numToIPv4 (of_nat y)"
    then have l: "x < 2 ^ 32" "y < 2 ^ 32" using e by auto
    have eq: "(of_nat x :: u32) = of_nat y"
      using \<open>numToIPv4 (of_nat x) = numToIPv4 (of_nat y)\<close> by (rule numToIPv4_inj)
    have "unat (of_nat x :: u32) = x" "unat (of_nat y :: u32) = y" using l by (simp_all add: unat_of_nat)
    then show "x = y" using eq by metis
  qed
  then have "distinct (map (\<lambda>k. numToIPv4 (of_nat k)) [unat s..<unat e + 1])" by (simp add: distinct_map)
  moreover have "numToIPv4 s = Addr4 a" "numToIPv4 e = Addr4 b"
    using ipv4_num_inverse assms(1,2,5,6) by auto
  moreover have "hd ?items = ?mk (unat s)" "last ?items = ?mk (unat e)"
    using se by (simp_all add: hd_map last_map del: upt_Suc)
  ultimately show ?thesis unfolding np by (auto simp: comp_def)
qed

lemma dhcp_pool_is_range_witness:
  "\<exists>p. NewPool 60 (Addr4 [10, 0, 0, 2]) (Addr4 [10, 0, 0, 4]) = Some (Inr p) \<and> di_ip (last (dp_items p)) = Addr4 [10, 0, 0, 4]"
  using dhcp_pool_is_range[of "[10, 0, 0, 2]" "[10, 0, 0, 4]" "167772162" "167772164" 60] by (auto simp: replicate_4)

text \<open>
  A pool whose last address is 255.255.255.255 is never finished: the 32-bit loop
  counter wraps around to zero and the condition stays true.
\<close>

lemma dhcp_pool_top_diverges:
  assumes "length a = 4" "a \<noteq> replicate 4 0" "ipv4ToNum (Addr4 a) = Some s"
  shows "NewPool lease (Addr4 a) (Addr4 [255, 255, 255, 255]) = None"
proof -
  have t: "ipv4ToNum (Addr4 [255, 255, 255, 255]) = Some (- 1)" by simp
  then show ?thesis using assms
    by (simp add: NewPool_def pool_items_diverges t replicate_4 del: ipv4ToNum.simps)
qed

lemma dhcp_pool_top_diverges_witness:
  "NewPool 60 (Addr4 [255, 255, 255, 250]) (Addr4 [255, 255, 255, 255]) = None"
  using dhcp_pool_top_diverges[of "[255, 255, 255, 250]" "4294967290" 60] by (simp add: replicate_4)

text \<open>
  The checksum field of the IP header of a reply verifies: the checksum over the
  header with the field filled in is zero, for all addresses.
\<close>

lemma dhcp_ip_checksum_verifies:
  "checksum (ip_header (checksum (ip_header 0 srv your)) srv your) = 0"
  by (rule ip_checksum_zero)


end
