(* ===== verification/Pipe.thy ===== *)
theory Pipe
  imports Codec
begin

text \<open>
  Readers that cut a connection into chunks (websocket frames, sealed chunks) promise the same thing:
  the bytes of the chunks, in order, in pieces of the size the caller asks for.  The specification is a
  \<open>pipe\<close>: the rest of the chunk being read and the chunks behind it.  The locale \<open>stream_reader\<close> is the
  contract of one call of \<open>Read\<close>; that any sequence of reads delivers the stream, that \<open>io.ReadFull\<close> reads
  its next bytes and that copying it (\<open>CopyBuffer\<close> of \<open>proxy/conn.go\<close>) ends with all of it written follow
  once for all its interpretations.
\<close>

type_synonym pipe = "bytes \<times> bytes list"

definition pipe_read :: "nat \<Rightarrow> pipe \<Rightarrow> (bytes \<times> pipe) option" where
  "pipe_read n p =
     (case p of
        ([], []) \<Rightarrow> None
      | ([], b # ps) \<Rightarrow> Some (take n b, drop n b, ps)
      | (cur, ps) \<Rightarrow> Some (take n cur, drop n cur, ps))"

text \<open>A caller that reads with buffers of the given sizes until the first error.\<close>

type_synonym 'r reader_fun = "nat \<Rightarrow> 'r \<Rightarrow> conn \<Rightarrow> (bytes \<times> go_error option) \<times> 'r \<times> conn"

fun reads :: "'r reader_fun \<Rightarrow> nat list \<Rightarrow> 'r \<Rightarrow> conn \<Rightarrow> (bytes \<times> go_error option) \<times> 'r \<times> conn" where
  "reads Rd [] r c = (([], None), r, c)"
| "reads Rd (n # ns) r c =
     (case Rd n r c of
        ((b, Some e), r', c') \<Rightarrow> ((b, Some e), r', c')
      | ((b, None), r', c') \<Rightarrow>
          (case reads Rd ns r' c' of ((bs, e), r'', c'') \<Rightarrow> ((b @ bs, e), r'', c'')))"

text \<open>\<open>io.ReadFull\<close> on such a reader, with what has been read so far; \<open>None\<close> if it never returns.\<close>

partial_function (option) fill ::
  "'r reader_fun \<Rightarrow> nat \<Rightarrow> bytes \<Rightarrow> 'r \<Rightarrow> conn \<Rightarrow> (bytes result \<times> 'r \<times> conn) option" where
  "fill Rd n acc r c =
     (if n \<le> length acc then Some (Inr acc, r, c)
      else
        case Rd (n - length acc) r c of
          ((b, None), r', c') \<Rightarrow> fill Rd n (acc @ b) r' c'
        | ((b, Some e), r', c') \<Rightarrow>
            Some (if n \<le> length (acc @ b) then Inr (acc @ b)
                  else Inl (if acc @ b \<noteq> [] \<and> e = EOF then ErrUnexpectedEOF else e), r', c'))"

definition ReadFull :: "'r reader_fun \<Rightarrow> nat \<Rightarrow> 'r \<times> conn \<Rightarrow> (bytes result \<times> 'r \<times> conn) option" where
  "ReadFull Rd n s = fill Rd n [] (fst s) (snd s)"

text \<open>The loop of \<open>CopyBuffer\<close> with a buffer of \<open>n\<close> bytes: the reader with its connection, and the
  connection written to.  A write is complete or fails, so a short write without an error does not occur.\<close>

partial_function (option) copy_loop ::
  "'r reader_fun \<Rightarrow> nat \<Rightarrow> nat \<Rightarrow> 'r \<Rightarrow> conn \<Rightarrow> conn \<Rightarrow> ((nat \<times> go_error option) \<times> ('r \<times> conn) \<times> conn) option" where
  "copy_loop Rd n written r c w =
     (case Rd n r c of
        ((b, er), r', c') \<Rightarrow>
          (case (if b \<noteq> [] then conn_write b w else (None, w)) of
             (Some ew, w') \<Rightarrow> Some ((written, Some ew), (r', c'), w')
           | (None, w') \<Rightarrow>
               (case er of
                  Some e \<Rightarrow> Some ((written + length b, if e = EOF then None else Some e), (r', c'), w')
                | None \<Rightarrow> copy_loop Rd n (written + length b) r' c' w')))"

definition TCPBufSize :: nat where
  "TCPBufSize = 32 * 2 ^ 10"

definition CopyBuffer ::
  "'r reader_fun \<Rightarrow> 'r \<Rightarrow> conn \<Rightarrow> conn \<Rightarrow> ((nat \<times> go_error option) \<times> ('r \<times> conn) \<times> conn) option" where
  "CopyBuffer Rd r c w = copy_loop Rd TCPBufSize 0 r c w"

definition pipe_bytes :: "pipe \<Rightarrow> bytes" where
  "pipe_bytes p = fst p @ concat (snd p)"

definition pipe_steps :: "pipe \<Rightarrow> nat" where
  "pipe_steps p = length (pipe_bytes p) + length (snd p)"

lemma pipe_read_None: "pipe_read n p = None \<longleftrightarrow> p = ([], [])"
  by (auto simp: pipe_read_def split: prod.splits list.splits)

lemma pipe_read_bytes: "pipe_read n p = Some (b, p') \<Longrightarrow> pipe_bytes p = b @ pipe_bytes p'"
  by (auto simp: pipe_read_def pipe_bytes_def split: prod.splits list.splits)

lemma pipe_read_progress: "0 < n \<Longrightarrow> pipe_read n p = Some (b, p') \<Longrightarrow> pipe_steps p' < pipe_steps p"
  by (auto simp: pipe_read_def pipe_steps_def pipe_bytes_def split: prod.splits list.splits)

text \<open>What a sequence of reads of a pipe delivers.\<close>

definition delivers :: "pipe \<Rightarrow> nat list \<Rightarrow> bytes \<Rightarrow> go_error option \<Rightarrow> bool" where
  "delivers p ns data err =
     ((\<exists>rest. pipe_bytes p = data @ rest \<and> (err = None \<or> err = Some EOF \<and> rest = [])) \<and>
      (pipe_steps p \<le> length ns \<longrightarrow> data = pipe_bytes p))"

locale stream_reader =
  fixes rel :: "'r \<Rightarrow> conn \<Rightarrow> pipe \<Rightarrow> bool"
    and Rd :: "'r reader_fun"
  assumes read_end: "rel r c ([], []) \<Longrightarrow> 0 < n \<Longrightarrow> \<exists>r' c'. Rd n r c = (([], Some EOF), r', c')"
    and read_step: "rel r c p \<Longrightarrow> 0 < n \<Longrightarrow> pipe_read n p = Some (b, p') \<Longrightarrow>
      \<exists>r' c'. Rd n r c = ((b, None), r', c') \<and> rel r' c' p'"
begin

lemma reads_deliver:
  assumes "rel r c p" "list_all (\<lambda>n. 0 < n) ns" "reads Rd ns r c = ((data, err), r', c')"
  shows "delivers p ns data err"
  using assms
proof (induction ns arbitrary: r c p data)
  case Nil
  then show ?case by (simp add: pipe_steps_def delivers_def)
next
  case (Cons n ns)
  have pos: "0 < n" "list_all (\<lambda>n. 0 < n) ns" using Cons.prems(2) by simp_all
  show ?case
  proof (cases "pipe_read n p")
    case None
    then have p: "p = ([], [])" by (simp add: pipe_read_None)
    obtain r1 c1 where "Rd n r c = (([], Some EOF), r1, c1)"
      using read_end [of r c n] Cons.prems(1) p pos(1) by blast
    with Cons.prems p show ?thesis by (simp add: pipe_bytes_def delivers_def)
  next
    case (Some bp)
    then obtain b p1 where rdp: "pipe_read n p = Some (b, p1)" by (cases bp) auto
    obtain r1 c1 where one: "Rd n r c = ((b, None), r1, c1)" "rel r1 c1 p1"
      using read_step [OF Cons.prems(1) pos(1) rdp] by blast
    obtain data1 where more: "reads Rd ns r1 c1 = ((data1, err), r', c')" "data = b @ data1"
      using Cons.prems(3) one(1) by (auto split: prod.splits)
    show ?thesis
      using Cons.IH [OF one(2) pos(2) more(1)] pipe_read_bytes [OF rdp]
        pipe_read_progress [OF pos(1) rdp] more(2) by (auto simp: delivers_def)
  qed
qed

lemma fill_reads:
  assumes "rel r c p" "pipe_bytes p = take (n - length acc) (pipe_bytes p) @ rest" "n - length acc \<le> length (pipe_bytes p)"
  shows "\<exists>r' c' p'. fill Rd n acc r c = Some (Inr (acc @ take (n - length acc) (pipe_bytes p)), r', c') \<and>
    rel r' c' p' \<and> pipe_bytes p' = rest"
  using assms
proof (induction "pipe_steps p" arbitrary: acc r c p rule: less_induct)
  case less
  show ?case
  proof (cases "n \<le> length acc")
    case True
    then have "fill Rd n acc r c = Some (Inr acc, r, c)" by (simp add: fill.simps)
    with True less.prems show ?thesis by (intro exI [of _ r] exI [of _ c] exI [of _ p]) simp
  next
    case False
    let ?k = "n - length acc"
    have "p \<noteq> ([], [])" using less.prems(3) False by (auto simp: pipe_bytes_def)
    then obtain b p1 where rdp: "pipe_read ?k p = Some (b, p1)"
      by (cases "pipe_read ?k p") (auto simp: pipe_read_None)
    obtain r1 c1 where one: "Rd ?k r c = ((b, None), r1, c1)" "rel r1 c1 p1"
      using read_step [OF less.prems(1) _ rdp] False by auto
    have len: "length b \<le> ?k" using rdp by (auto simp: pipe_read_def split: prod.splits list.splits)
    have bytes: "pipe_bytes p = b @ pipe_bytes p1" by (rule pipe_read_bytes [OF rdp])
    have t: "take ?k (pipe_bytes p) = b @ take (n - length (acc @ b)) (pipe_bytes p1)"
      using len by (simp add: bytes)
    have "\<exists>r' c' p'. fill Rd n (acc @ b) r1 c1 =
        Some (Inr ((acc @ b) @ take (n - length (acc @ b)) (pipe_bytes p1)), r', c') \<and> rel r' c' p' \<and> pipe_bytes p' = rest"
      using less.prems(2,3) len False unfolding t bytes
      by (intro less.hyps one(2) pipe_read_progress [OF _ rdp]) auto
    then show ?thesis using False one(1) t by (subst fill.simps) simp
  qed
qed

lemma ReadFull_reads:
  assumes "rel (fst s) (snd s) p" "pipe_bytes p = b @ rest" "length b = n"
  shows "\<exists>s' p'. ReadFull Rd n s = Some (Inr b, s') \<and> rel (fst s') (snd s') p' \<and> pipe_bytes p' = rest"
  using fill_reads [OF assms(1), of n "[]" rest] assms(2,3) by (fastforce simp: ReadFull_def)

lemma copy_loop_delivers:
  assumes "rel r c p" "0 < n" "wleft w = None"
  shows "\<exists>r' c'. copy_loop Rd n k r c w =
    Some ((k + length (pipe_bytes p), None), (r', c'), w\<lparr>wr := wr w @ pipe_bytes p\<rparr>)"
  using assms
proof (induction "pipe_steps p" arbitrary: r c p k w rule: less_induct)
  case less
  show ?case
  proof (cases "pipe_read n p")
    case None
    then have p: "p = ([], [])" by (simp add: pipe_read_None)
    obtain r1 c1 where "Rd n r c = (([], Some EOF), r1, c1)"
      using read_end [of r c n] less.prems p by blast
    then show ?thesis by (subst copy_loop.simps) (simp add: p pipe_bytes_def)
  next
    case (Some bp)
    then obtain b p1 where rdp: "pipe_read n p = Some (b, p1)" by (cases bp) auto
    obtain r1 c1 where one: "Rd n r c = ((b, None), r1, c1)" "rel r1 c1 p1"
      using read_step [OF less.prems(1,2) rdp] by blast
    have w: "(if b \<noteq> [] then conn_write b w else (None, w)) = (None, w\<lparr>wr := wr w @ b\<rparr>)"
      using less.prems(3) by simp
    have "\<exists>r' c'. copy_loop Rd n (k + length b) r1 c1 (w\<lparr>wr := wr w @ b\<rparr>) =
        Some ((k + length b + length (pipe_bytes p1), None), (r', c'), (w\<lparr>wr := wr w @ b\<rparr>)\<lparr>wr := wr (w\<lparr>wr := wr w @ b\<rparr>) @ pipe_bytes p1\<rparr>)"
      using less.prems(2,3) by (intro less.hyps pipe_read_progress [OF less.prems(2) rdp] one(2)) simp_all
    then show ?thesis
      using one(1) w pipe_read_bytes [OF rdp] by (subst copy_loop.simps) (simp add: add.assoc)
  qed
qed

lemma CopyBuffer_delivers:
  assumes "rel r c p" "wleft w = None"
  shows "\<exists>r' c'. CopyBuffer Rd r c w =
    Some ((length (pipe_bytes p), None), (r', c'), w\<lparr>wr := wr w @ pipe_bytes p\<rparr>)"
  using copy_loop_delivers [OF assms(1) _ assms(2), of TCPBufSize 0] by (simp add: CopyBuffer_def TCPBufSize_def)

end

end
