(* ===== verification/Ws_Frame.thy ===== *)
theory Ws_Frame
  imports Pipe
begin

text \<open>
  The frame layer of the websocket transport (\<open>proxy/ws/frame.go\<close>): a writer that puts every
  \<open>Write\<close> into one final binary frame, masked when the writer is the client, and a reader that
  hands out the payload of the frames in pieces of the size the caller asks for and keeps the
  position in the frame and in the mask between the calls.

  \<open>frame_Read\<close> refines taking bytes from the front of a pipe of payloads (theory \<open>Pipe\<close>).
\<close>

section \<open>Model\<close>

definition hdrSize :: nat where
  "hdrSize = 2 + 8"

definition finalBit :: byte where
  "finalBit = push_bit 7 1"

definition opCodeBinary :: byte where
  "opCodeBinary = 2"

definition maskBit :: byte where
  "maskBit = push_bit 7 1"

subsection \<open>The writer\<close>

record frameWriter =
  fw_server :: bool
  fw_maskKey :: bytes

text \<open>\<open>FrameWriter\<close>; the random number is an argument.\<close>

definition FrameWriter :: "bool \<Rightarrow> u32 \<Rightarrow> frameWriter" where
  "FrameWriter server n =
     \<lparr>fw_server = server,
      fw_maskKey = [ucast n, ucast (drop_bit 8 n), ucast (drop_bit 16 n), ucast (drop_bit 24 n)]\<rparr>"

text \<open>\<open>net.Buffers.WriteTo\<close>: one \<open>Write\<close> per buffer, up to the first error; the number of bytes
  written.\<close>

fun write_buffers :: "bytes list \<Rightarrow> conn \<Rightarrow> (nat \<times> go_error option) \<times> conn" where
  "write_buffers [] c = ((0, None), c)"
| "write_buffers (b # bs) c =
     (case conn_write b c of
        (Some e, c') \<Rightarrow> ((0, Some e), c')
      | (None, c') \<Rightarrow>
          (case write_buffers bs c' of ((n, e), c'') \<Rightarrow> ((length b + n, e), c'')))"

definition frame_header :: "bool \<Rightarrow> nat \<Rightarrow> bytes" where
  "frame_header server nPayload =
     (let h0 = opCodeBinary OR finalBit;
          h1 = (if \<not> server then maskBit else 0)
      in if nPayload \<le> 125 then [h0, h1 OR of_nat nPayload]
         else if nPayload < 65536 then [h0, h1 OR 126] @ put16 (of_nat nPayload)
         else [h0, h1 OR 127] @ put64 (of_nat nPayload))"

definition mask_from :: "bytes \<Rightarrow> nat \<Rightarrow> bytes \<Rightarrow> bytes" where
  "mask_from key off b = map (\<lambda>i. b ! i XOR key ! ((i + off) mod 4)) [0..<length b]"

definition frame_Write :: "frameWriter \<Rightarrow> bytes \<Rightarrow> conn \<Rightarrow> (nat \<times> go_error option) \<times> conn" where
  "frame_Write w b c =
     (let header = frame_header (fw_server w) (length b); nHeader = length header in
      if fw_server w then
        (case write_buffers [header, b] c of
           ((n, err), c') \<Rightarrow> ((if n > nHeader then n - nHeader else 0, err), c'))
      else
        let payload = mask_from (fw_maskKey w) 0 b in
        (case write_buffers [header, fw_maskKey w, payload] c of
           ((n, err), c') \<Rightarrow> ((if n > nHeader + 4 then n - nHeader - 4 else 0, err), c')))"

subsection \<open>The reader\<close>

record frameReader =
  left :: int
  fr_server :: bool
  fr_maskKey :: bytes
  maskOffset :: nat

definition FrameReader :: "bool \<Rightarrow> frameReader" where
  "FrameReader server = \<lparr>left = 0, fr_server = server, fr_maskKey = [0, 0, 0, 0], maskOffset = 0\<rparr>"

text \<open>The part of \<open>Read\<close> that runs when the previous frame is used up: fixed header, extended
  length, mask key.  An error leaves in \<open>left\<close> what was last stored there.\<close>

definition read_ext_len :: "frameReader \<Rightarrow> conn \<Rightarrow> go_error option \<times> frameReader \<times> conn" where
  "read_ext_len r c =
     (if left r = 126 then
        (case read_full 2 c of
           (Inl e, c') \<Rightarrow> (Some e, r, c')
         | (Inr x, c') \<Rightarrow> (None, r\<lparr>left := int (unat (the (get16 x)))\<rparr>, c'))
      else if left r = 127 then
        (case read_full 8 c of
           (Inl e, c') \<Rightarrow> (Some e, r, c')
         | (Inr x, c') \<Rightarrow> (None, r\<lparr>left := sint (the (get64 x))\<rparr>, c'))
      else (None, r, c))"

definition read_frame_header :: "frameReader \<Rightarrow> conn \<Rightarrow> go_error option \<times> frameReader \<times> conn" where
  "read_frame_header r c =
     (case read_full 2 c of
        (Inl e, c1) \<Rightarrow> (Some e, r, c1)
      | (Inr h, c1) \<Rightarrow>
          (case read_ext_len (r\<lparr>left := int (unat ((h ! 1) AND 0x7f))\<rparr>) c1 of
             (Some e, r2, c2) \<Rightarrow> (Some e, r2, c2)
           | (None, r2, c2) \<Rightarrow>
               if fr_server r2 then
                 (case read_full 4 c2 of
                    (Inl e, c3) \<Rightarrow> (Some e, r2, c3)
                  | (Inr k, c3) \<Rightarrow> (None, r2\<lparr>fr_maskKey := k, maskOffset := 0\<rparr>, c3))
               else (None, r2, c2)))"

text \<open>\<open>Read\<close> into a buffer of \<open>n\<close> bytes: the bytes it puts there (short reads included, which stay
  masked) and the error.  A frame that announces \<open>2^63\<close> bytes or more gives a negative slice
  bound and panics.\<close>

definition frame_Read ::
  "nat \<Rightarrow> frameReader \<Rightarrow> conn \<Rightarrow> (bytes \<times> go_error option) \<times> frameReader \<times> conn" where
  "frame_Read n r c =
     (case (if left r = 0 then read_frame_header r c else (None, r, c)) of
        (Some e, r1, c1) \<Rightarrow> (([], Some e), r1, c1)
      | (None, r1, c1) \<Rightarrow>
          let readLen = min (int n) (left r1) in
          if readLen < 0 then (([], Some (Panic ''slice bounds out of range'')), r1, c1)
          else
            (case read_full (nat readLen) c1 of
               (Inl e, c2) \<Rightarrow> ((rd c1, Some e), r1, c2)
             | (Inr b, c2) \<Rightarrow>
                 let m = length b;
                     b' = (if fr_server r1 then mask_from (fr_maskKey r1) (maskOffset r1) b else b);
                     r2 = (if fr_server r1 then r1\<lparr>maskOffset := (m + maskOffset r1) mod 4\<rparr> else r1)
                 in ((b', None), r2\<lparr>left := left r2 - int m\<rparr>, c2)))"

text \<open>A caller that writes a list of buffers.\<close>

fun frame_writes :: "frameWriter \<Rightarrow> bytes list \<Rightarrow> conn \<Rightarrow> conn" where
  "frame_writes w [] c = c"
| "frame_writes w (b # bs) c = frame_writes w bs (snd (frame_Write w b c))"

section \<open>Masking\<close>

lemma length_mask_from [simp]: "length (mask_from k off b) = length b"
  by (simp add: mask_from_def)

lemma mask_from_Nil [simp]: "mask_from k off [] = []"
  by (simp add: mask_from_def)

lemma mask_from_eq_Nil [simp]: "mask_from k off b = [] \<longleftrightarrow> b = []"
  by (simp add: mask_from_def)

lemma nth_mask_from: "i < length b \<Longrightarrow> mask_from k off b ! i = b ! i XOR k ! ((i + off) mod 4)"
  by (simp add: mask_from_def)

lemma xor_cancel_byte: "((x :: byte) XOR k) XOR k = x"
  by (rule bit_word_eqI) (auto simp: bit_simps)

lemma mask_from_invol [simp]: "mask_from k off (mask_from k off b) = b"
  by (rule nth_equalityI) (simp_all add: nth_mask_from xor_cancel_byte)

text \<open>Masking in pieces is masking as a whole when the offset moves on.\<close>

lemma mask_from_split:
  "mask_from k off b = mask_from k off (take n b) @ mask_from k ((min n (length b) + off) mod 4) (drop n b)"
proof (rule nth_equalityI)
  fix i assume i: "i < length (mask_from k off b)"
  show "mask_from k off b ! i =
    (mask_from k off (take n b) @ mask_from k ((min n (length b) + off) mod 4) (drop n b)) ! i"
  proof (cases "i < n")
    case False
    then have "i - n + (n + off) = i + off" by simp
    then have "(i - n + (n + off) mod 4) mod 4 = (i + off) mod 4" by (metis mod_add_right_eq)
    with False i show ?thesis by (simp add: nth_append nth_mask_from min_def)
  qed (use i in \<open>simp add: nth_append nth_mask_from min_def\<close>)
qed simp

section \<open>The bytes of a frame\<close>

definition frame_bytes :: "frameWriter \<Rightarrow> bytes \<Rightarrow> bytes" where
  "frame_bytes w b =
     frame_header (fw_server w) (length b) @
     (if fw_server w then b else fw_maskKey w @ mask_from (fw_maskKey w) 0 b)"

lemma frame_Write_open:
  assumes "wleft c = None" "length (fw_maskKey w) = 4"
  shows "frame_Write w b c = ((length b, None), c\<lparr>wr := wr c @ frame_bytes w b\<rparr>)"
  using assms by (simp add: frame_Write_def frame_bytes_def Let_def)

lemma length_FrameWriter_key [simp]: "length (fw_maskKey (FrameWriter s n)) = 4"
  by (simp add: FrameWriter_def)

lemma FrameWriter_server [simp]: "fw_server (FrameWriter s n) = s"
  by (simp add: FrameWriter_def)

lemma frame_writes_open:
  assumes "length (fw_maskKey w) = 4"
  shows "wleft c = None \<Longrightarrow>
    frame_writes w bs c = c\<lparr>wr := wr c @ concat (map (frame_bytes w) bs)\<rparr>"
  by (induction bs arbitrary: c) (simp_all add: frame_Write_open [OF _ assms])

lemma bit_maskBit: "bit maskBit i \<longleftrightarrow> i = 7"
  unfolding maskBit_def bit_push_bit_iff by (auto simp: bit_1_iff possible_bit_word)

lemma byte1_len:
  assumes "n < 128"
  shows "unat (((if s then 0 else maskBit) OR of_nat n) AND (0x7f :: byte)) = n"
proof -
  have m: "(0x7f :: byte) = mask 7" by (simp add: mask_eq_exp_minus_1)
  have "((if s then 0 else maskBit) OR of_nat n) AND (0x7f :: byte) = of_nat n"
  proof -
    have b: "bit n i \<Longrightarrow> i < 7" for i
    proof (rule ccontr)
      assume "bit n i" "\<not> i < 7"
      then have "take_bit 7 n \<noteq> n" by (metis bit_take_bit_iff)
      moreover have "take_bit 7 n = n" using assms by (simp add: take_bit_nat_eq_self)
      ultimately show False by simp
    qed
    show ?thesis
      unfolding m by (rule bit_word_eqI) (auto simp: bit_simps bit_maskBit dest: b)
  qed
  then show ?thesis using assms by (simp add: unat_of_nat)
qed

lemma sint_of_nat_small: "n < 2 ^ 63 \<Longrightarrow> sint (of_nat n :: u64) = int n"
  by (simp add: signed_of_nat signed_take_bit_int_eq_self)

text \<open>Reading the header of a frame that the other side wrote, whatever its length class.\<close>

lemma frame_header_parts:
  obtains h0 h1 where
    "frame_header s n = h0 # h1 #
       (if n \<le> 125 then [] else if n < 65536 then put16 (of_nat n) else put64 (of_nat n))"
    "uint (h1 AND 0x7f) = (if n \<le> 125 then int n else if n < 65536 then 126 else 127)"
proof -
  let ?k = "if n \<le> 125 then n else if n < 65536 then 126 else 127"
  let ?h1 = "(if s then 0 else maskBit) OR of_nat ?k :: byte"
  have "uint (?h1 AND 0x7f) = int ?k"
    using byte1_len [of ?k s] by (simp only: uint_nat) simp
  then show ?thesis
    by (intro that [of "opCodeBinary OR finalBit" ?h1]) (simp_all add: frame_header_def)
qed

lemma read_len_frame_header:
  assumes "rd c = frame_header s n @ rest" "n < 2 ^ 63"
  shows "\<exists>h c1. read_full 2 c = (Inr h, c1) \<and>
    read_ext_len (r\<lparr>left := int (unat ((h ! 1) AND 0x7f))\<rparr>) c1 = (None, r\<lparr>left := int n\<rparr>, c\<lparr>rd := rest\<rparr>)"
proof -
  obtain h0 h1 where h: "frame_header s n = h0 # h1 #
       (if n \<le> 125 then [] else if n < 65536 then put16 (of_nat n) else put64 (of_nat n))"
    and k: "uint (h1 AND 0x7f) = (if n \<le> 125 then int n else if n < 65536 then 126 else 127)"
    by (rule frame_header_parts)
  consider "n \<le> 125" | "125 < n" "n < 65536" | "65536 \<le> n" by linarith
  then show ?thesis
  proof cases
    case 1
    then show ?thesis using assms h k by (simp add: read_full_def read_ext_len_def)
  next
    case 2
    then have u: "uint (of_nat n :: u16) = int n" by (simp add: unsigned_of_nat take_bit_nat_eq_self)
    from 2 show ?thesis
      using assms h k get16_put16 [of "of_nat n" "[]"]
      by (simp add: read_full_def read_ext_len_def u)
  next
    case 3
    then show ?thesis
      using assms h k get64_put64 [of "of_nat n" "[]"]
      by (simp add: read_full_def read_ext_len_def sint_of_nat_small)
  qed
qed

lemma read_frame_header_frame:
  assumes "rd c = frame_bytes w b @ rest" "length b < 2 ^ 63" "length (fw_maskKey w) = 4"
    "fr_server r = (\<not> fw_server w)"
  shows "read_frame_header r c =
    (None,
     (if fr_server r then r\<lparr>left := int (length b), fr_maskKey := fw_maskKey w, maskOffset := 0\<rparr>
      else r\<lparr>left := int (length b)\<rparr>),
     c\<lparr>rd := (if fr_server r then mask_from (fw_maskKey w) 0 b else b) @ rest\<rparr>)"
proof -
  let ?body = "(if fw_server w then b else fw_maskKey w @ mask_from (fw_maskKey w) 0 b) @ rest"
  from assms(1) have "rd c = frame_header (fw_server w) (length b) @ ?body"
    by (simp add: frame_bytes_def)
  from read_len_frame_header [OF this assms(2), of r] obtain h c1 where
    "read_full 2 c = (Inr h, c1)"
    "read_ext_len (r\<lparr>left := int (unat ((h ! 1) AND 0x7f))\<rparr>) c1 =
       (None, r\<lparr>left := int (length b)\<rparr>, c\<lparr>rd := ?body\<rparr>)" by blast
  with assms(3,4) show ?thesis by (simp add: read_frame_header_def)
qed

section \<open>The specification: a pipe of payloads\<close>

text \<open>What is left of the frame being read is the front of the pipe.\<close>

definition pipe_rel :: "frameWriter \<Rightarrow> frameReader \<Rightarrow> conn \<Rightarrow> pipe \<Rightarrow> bool" where
  "pipe_rel w r c p =
     (fr_server r = (\<not> fw_server w) \<and> length (fw_maskKey w) = 4 \<and>
      list_all (\<lambda>b. length b < 2 ^ 63) (snd p) \<and>
      left r = int (length (fst p)) \<and>
      (fst p \<noteq> [] \<and> fr_server r \<longrightarrow> fr_maskKey r = fw_maskKey w) \<and>
      rd c = (if fr_server r then mask_from (fw_maskKey w) (maskOffset r) (fst p) else fst p) @
             concat (map (frame_bytes w) (snd p)))"

lemma frame_Read_cur:
  assumes "pipe_rel w r c (cur, ps)" "cur \<noteq> []"
  shows "\<exists>r' c'. frame_Read n r c = ((take n cur, None), r', c') \<and> pipe_rel w r' c' (drop n cur, ps)"
proof -
  let ?m = "min n (length cur)"
  have left: "left r = int (length cur)" "left r \<noteq> 0" using assms by (auto simp: pipe_rel_def)
  then have len: "min (int n) (left r) = int ?m" by linarith
  have nm: "take n cur = take ?m cur" "drop n cur = drop ?m cur" by (simp_all add: min_def)
  show ?thesis
  proof (cases "fr_server r")
    case True
    let ?k = "fw_maskKey w"
    have rdc: "rd c = mask_from ?k (maskOffset r) (take n cur) @
        mask_from ?k ((?m + maskOffset r) mod 4) (drop n cur) @ concat (map (frame_bytes w) ps)"
      using assms True mask_from_split [of ?k "maskOffset r" cur n] by (simp add: pipe_rel_def)
    have "frame_Read n r c = ((take n cur, None),
        r\<lparr>maskOffset := (?m + maskOffset r) mod 4, left := left r - int ?m\<rparr>,
        c\<lparr>rd := mask_from ?k ((?m + maskOffset r) mod 4) (drop n cur) @ concat (map (frame_bytes w) ps)\<rparr>)"
      using assms True left(2)
      by (simp add: frame_Read_def len Let_def read_full_ok [OF rdc] pipe_rel_def min.commute)
    then show ?thesis using assms True left(1) by (auto simp: pipe_rel_def)
  next
    case False
    have rdc: "rd c = take n cur @ drop n cur @ concat (map (frame_bytes w) ps)"
      using assms False by (simp add: pipe_rel_def)
    have "frame_Read n r c = ((take n cur, None), r\<lparr>left := left r - int ?m\<rparr>,
        c\<lparr>rd := drop n cur @ concat (map (frame_bytes w) ps)\<rparr>)"
      using assms False left(2)
      by (simp add: frame_Read_def len Let_def read_full_ok [OF rdc] min.commute)
    then show ?thesis using assms False left(1) by (auto simp: pipe_rel_def)
  qed
qed

lemma frame_Read_next:
  assumes "pipe_rel w r c ([], b # ps)"
  shows "\<exists>r' c'. frame_Read n r c = ((take n b, None), r', c') \<and> pipe_rel w r' c' (drop n b, ps)"
proof -
  have "rd c = frame_bytes w b @ concat (map (frame_bytes w) ps)" "length b < 2 ^ 63"
    "length (fw_maskKey w) = 4" "fr_server r = (\<not> fw_server w)"
    using assms by (simp_all add: pipe_rel_def)
  from read_frame_header_frame [OF this] obtain r1 c1 where
    hd: "read_frame_header r c = (None, r1, c1)" and rel: "pipe_rel w r1 c1 (b, ps)"
    using assms by (auto simp: pipe_rel_def split: if_splits)
  have left: "left r = 0" "left r1 = int (length b)" using assms rel by (simp_all add: pipe_rel_def)
  show ?thesis
  proof (cases "b = []")
    case True
    with rel hd left show ?thesis
      by (auto simp: frame_Read_def Let_def pipe_rel_def read_full_def)
  next
    case False
    with hd left have "frame_Read n r c = frame_Read n r1 c1" by (simp add: frame_Read_def)
    with frame_Read_cur [OF rel False] show ?thesis by simp
  qed
qed

lemma frame_Read_end:
  assumes "pipe_rel w r c ([], [])"
  shows "frame_Read n r c = (([], Some EOF), r, c\<lparr>rd := []\<rparr>)"
  using assms by (simp add: pipe_rel_def frame_Read_def read_frame_header_def read_full_def)

interpretation wsr: stream_reader "pipe_rel w" frame_Read for w
proof unfold_locales
  fix r c n
  assume "pipe_rel w r c ([], [])" "0 < (n :: nat)"
  then show "\<exists>r' c'. frame_Read n r c = (([], Some EOF), r', c')" using frame_Read_end by blast
next
  fix r c p n b p'
  assume "pipe_rel w r c p" "0 < (n :: nat)" "pipe_read n p = Some (b, p')"
  then show "\<exists>r' c'. frame_Read n r c = ((b, None), r', c') \<and> pipe_rel w r' c' p'"
    using frame_Read_cur [of w r c _ _ n] frame_Read_next [of w r c _ _ n]
    by (fastforce simp: pipe_read_def split: prod.splits list.splits)
qed

section \<open>The stream is delivered\<close>

lemma pipe_rel_init:
  assumes "list_all (\<lambda>b. length b < 2 ^ 63) ps"
    "rd c = wr (frame_writes (FrameWriter server key) ps (open_conn []))"
  shows "pipe_rel (FrameWriter server key) (FrameReader (\<not> server)) c ([], ps)"
  using assms by (simp add: pipe_rel_def FrameReader_def frame_writes_open)

text \<open>
  Property C9: what one side of a websocket connection writes, in any number of calls and with any
  mask key, the other side reads, in any number of calls with any positive buffer sizes: the bytes
  delivered are always a prefix of the bytes written, in order; the only error is \<open>EOF\<close>, and only
  after everything was delivered; and once there have been as many calls as there are bytes and
  frames, everything has been delivered.
\<close>

theorem ws_stream_delivered:
  assumes "list_all (\<lambda>b. length b < 2 ^ 63) ps"
    and "rd c = wr (frame_writes (FrameWriter server key) ps (open_conn []))"
    and "list_all (\<lambda>n. 0 < n) ns"
    and "reads frame_Read ns (FrameReader (\<not> server)) c = ((data, err), r', c')"
  shows "(\<exists>rest. concat ps = data @ rest \<and> (err = None \<or> err = Some EOF \<and> rest = [])) \<and>
    (length (concat ps) + length ps \<le> length ns \<longrightarrow> data = concat ps)"
  using wsr.reads_deliver [OF pipe_rel_init [OF assms(1,2)] assms(3,4)]
  by (simp add: pipe_bytes_def pipe_steps_def delivers_def)

theorem ws_stream_delivered_witness:
  "\<exists>data err r' c'.
     reads frame_Read [2, 2, 1, 1, 3, 3, 1, 1, 1] (FrameReader True)
       (open_conn (wr (frame_writes (FrameWriter False 0x01020304) [[1, 2, 3, 4, 5], [], [6]] (open_conn []))))
     = ((data, err), r', c') \<and> data = [1, 2, 3, 4, 5, 6]"
proof -
  let ?c = "open_conn (wr (frame_writes (FrameWriter False 0x01020304) [[1, 2, 3, 4, 5], [], [6]] (open_conn [])))"
  obtain data err r' c' where r:
    "reads frame_Read [2, 2, 1, 1, 3, 3, 1, 1, 1] (FrameReader True) ?c = ((data, err), r', c')"
    by (metis prod.exhaust)
  have "data = concat [[1, 2, 3, 4, 5], [], [6]]"
    using ws_stream_delivered [of "[[1, 2, 3, 4, 5], [], [6]]" ?c False "0x01020304"
        "[2, 2, 1, 1, 3, 3, 1, 1, 1]" data err r' c'] r by simp
  with r show ?thesis by simp
qed

end
