(* ===== verification/Text_Proto.thy ===== *)
theory Text_Proto
  imports Codec
begin

text \<open>
  The part of the standard library's \<open>net/textproto\<close> that the HTTP upgrade of the websocket
  transport is written with: reading a line and reading a MIME header (continuation lines,
  canonical keys, the checks on keys and values), and the lemma that a header written line by line
  is read back.
\<close>

section \<open>Lines\<close>

definition strip_cr :: "bytes \<Rightarrow> bytes" where
  "strip_cr l = (if l \<noteq> [] \<and> last l = 13 then butlast l else l)"

text \<open>\<open>Reader.ReadLine\<close>: up to a line feed, without the line end.  A last line that has no line end
  is returned as it is.\<close>

definition ReadLine :: "conn \<Rightarrow> string result \<times> conn" where
  "ReadLine c =
     (if rd c = [] then (Inl EOF, c)
      else
        let l = takeWhile (\<lambda>b. b \<noteq> 10) (rd c); r = dropWhile (\<lambda>b. b \<noteq> 10) (rd c) in
        if r = [] then (Inr (bytes_str l), c\<lparr>rd := []\<rparr>)
        else (Inr (bytes_str (strip_cr l)), c\<lparr>rd := tl r\<rparr>))"

definition crlf :: string where
  "crlf = [CHR 0x0D, CHR 0x0A]"

definition is_blank :: "char \<Rightarrow> bool" where
  "is_blank ch = (ch = CHR '' '' \<or> ch = CHR 0x09)"

definition trim_blank :: "string \<Rightarrow> string" where
  "trim_blank s = trim_right is_blank (trim_left is_blank s)"

definition peek_blank :: "conn \<Rightarrow> bool" where
  "peek_blank c = (case rd c of [] \<Rightarrow> False | b # _ \<Rightarrow> is_blank (char_of_byte b))"

lemma ReadLine_shorter:
  assumes "ReadLine c = (Inr l, c')"
  shows "length (rd c') < length (rd c)"
proof (cases "dropWhile (\<lambda>b. b \<noteq> 10) (rd c)")
  case Nil
  with assms show ?thesis by (auto simp: ReadLine_def Let_def split: if_splits)
next
  case (Cons x xs)
  then have "length (x # xs) \<le> length (rd c)" by (metis length_dropWhile_le)
  with assms Cons show ?thesis by (auto simp: ReadLine_def Let_def split: if_splits)
qed

lemma ReadLine_Inl: "ReadLine c = (Inl e, c') \<Longrightarrow> c' = c"
  by (auto simp: ReadLine_def Let_def split: if_splits)

text \<open>The continuation lines that follow a line, each trimmed and joined by a space.\<close>

function cont_lines :: "string \<Rightarrow> conn \<Rightarrow> string \<times> conn" where
  "cont_lines acc c =
     (if peek_blank c then
        (case ReadLine c of
           (Inl _, c') \<Rightarrow> (acc, c')
         | (Inr l, c') \<Rightarrow> cont_lines (acc @ '' '' @ trim_blank l) c')
      else (acc, c))"
  by pat_completeness auto
termination
  by (relation "measure (\<lambda>(_, c). length (rd c))") (auto dest: ReadLine_shorter [OF sym])

declare cont_lines.simps [simp del]

text \<open>\<open>readContinuedLineSlice\<close> with the check that the first line has a colon.\<close>

definition read_continued :: "conn \<Rightarrow> string result \<times> conn" where
  "read_continued c =
     (case ReadLine c of
        (Inl e, c') \<Rightarrow> (Inl e, c')
      | (Inr l, c') \<Rightarrow>
          if l = [] then (Inr [], c')
          else if CHR '':'' \<notin> set l then (Inl (ErrMsg ''malformed MIME header: missing colon''), c')
          else (case cont_lines (trim_blank l) c' of (l', c'') \<Rightarrow> (Inr l', c'')))"

lemma cont_lines_shorter: "cont_lines acc c = (l, c') \<Longrightarrow> length (rd c') \<le> length (rd c)"
proof (induction acc c arbitrary: l rule: cont_lines.induct)
  case (1 acc c)
  show ?case
  proof (cases "ReadLine c")
    case (Pair r c1)
    show ?thesis
      using "1.prems" "1.IH" Pair ReadLine_shorter [of c _ c1] ReadLine_Inl [of c _ c1]
      by (subst (asm) cont_lines.simps) (fastforce split: if_splits sum.splits)
  qed
qed

lemma read_continued_shorter:
  assumes "read_continued c = (Inr l, c')"
  shows "length (rd c') < length (rd c)"
proof -
  obtain l1 c1 where r: "ReadLine c = (Inr l1, c1)"
    using assms by (auto simp: read_continued_def split: prod.splits sum.splits)
  have "length (rd c') \<le> length (rd c1)"
    using assms r cont_lines_shorter [of "trim_blank l1" c1 _ c']
    by (auto simp: read_continued_def split: if_splits prod.splits)
  with ReadLine_shorter [OF r] show ?thesis by simp
qed

section \<open>MIME headers\<close>

definition is_token :: "char \<Rightarrow> bool" where
  "is_token ch =
     (is_digit ch \<or> is_lower ch \<or> is_upper ch \<or>
      ch \<in> set [CHR ''!'', CHR ''#'', CHR ''$'', CHR ''%'', CHR ''&'', CHR 0x27, CHR ''*'', CHR ''+'',
             CHR ''-'', CHR ''.'', CHR ''^'', CHR ''_'', CHR 0x60, CHR ''|'', CHR ''~''])"

definition valid_value_char :: "char \<Rightarrow> bool" where
  "valid_value_char ch = (code ch = 9 \<or> (32 \<le> code ch \<and> code ch \<noteq> 127))"

definition upper_char :: "char \<Rightarrow> char" where
  "upper_char ch = (if is_lower ch then char_of (code ch - 32) else ch)"

fun canon_from :: "bool \<Rightarrow> string \<Rightarrow> string" where
  "canon_from up [] = []"
| "canon_from up (ch # s) =
     (let d = (if up then upper_char ch else lower_char ch) in d # canon_from (d = CHR ''-'') s)"

declare canon_from.simps [simp del]

text \<open>\<open>canonicalMIMEHeaderKey\<close>: \<open>None\<close> for an invalid key; a key with a space is kept as it is.\<close>

definition canonical_key :: "string \<Rightarrow> string option" where
  "canonical_key k =
     (if k = [] then None
      else if list_all (\<lambda>ch. is_token ch \<or> ch = CHR '' '') k then
        Some (if CHR '' '' \<in> set k then k else canon_from True k)
      else None)"

type_synonym mime = "(string \<times> string) list"

function mime_loop :: "mime \<Rightarrow> conn \<Rightarrow> mime result \<times> conn" where
  "mime_loop m c =
     (case read_continued c of
        (Inl e, c') \<Rightarrow> (Inl e, c')
      | (Inr kv, c') \<Rightarrow>
          if kv = [] then (Inr m, c')
          else
            (case cut_byte CHR '':'' kv of
               None \<Rightarrow> (Inl (ErrMsg ''malformed MIME header line''), c')
             | Some (k, v) \<Rightarrow>
                 (case canonical_key k of
                    None \<Rightarrow> (Inl (ErrMsg ''malformed MIME header line''), c')
                  | Some key \<Rightarrow>
                      if \<not> list_all valid_value_char v
                      then (Inl (ErrMsg ''malformed MIME header line''), c')
                      else mime_loop (m @ [(key, trim_left is_blank v)]) c')))"
  by pat_completeness auto
termination
  by (relation "measure (\<lambda>(_, c). length (rd c))") (auto dest: read_continued_shorter [OF sym])

declare mime_loop.simps [simp del]

text \<open>\<open>Reader.ReadMIMEHeader\<close>.\<close>

definition ReadMIMEHeader :: "conn \<Rightarrow> mime result \<times> conn" where
  "ReadMIMEHeader c =
     (if peek_blank c then
        (case ReadLine c of
           (Inl e, c') \<Rightarrow> (Inl e, c')
         | (Inr _, c') \<Rightarrow> (Inl (ErrMsg ''malformed MIME header initial line''), c'))
      else mime_loop [] c)"

definition mime_get :: "string \<Rightarrow> mime \<Rightarrow> string" where
  "mime_get k m = (case map_of m (canon_from True k) of Some v \<Rightarrow> v | None \<Rightarrow> [])"

section \<open>Reading back what was written\<close>

lemma code_byte: "code ch = unat (byte_of_char ch)"
  by (simp add: code_def byte_of_char_def unat_of_nat)

lemma byte_of_char_eq_iff: "byte_of_char x = byte_of_char y \<longleftrightarrow> x = y"
  by (metis char_of_byte_of_char)

lemma byte_LF: "byte_of_char ch = 10 \<longleftrightarrow> ch = CHR 0x0A"
  using byte_of_char_eq_iff [of ch "CHR 0x0A"] by (simp add: byte_of_char_def)

lemma str_bytes_crlf: "str_bytes crlf = [13, 10]"
  by (simp add: str_bytes_def crlf_def byte_of_char_def)

lemma ReadLine_crlf:
  assumes "rd c = str_bytes (s @ crlf) @ rest" "CHR 0x0A \<notin> set s"
  shows "ReadLine c = (Inr s, c\<lparr>rd := rest\<rparr>)"
proof -
  have a: "\<forall>b\<in>set (str_bytes s). b \<noteq> 10"
    using assms(2) byte_LF by (auto simp: str_bytes_def)
  have "takeWhile (\<lambda>b. b \<noteq> 10) (rd c) = str_bytes s @ [13]"
    "dropWhile (\<lambda>b. b \<noteq> 10) (rd c) = 10 # rest"
    using a by (simp_all add: assms(1) str_bytes_crlf takeWhile_append2 dropWhile_append2)
  with assms(1) show ?thesis
    by (simp add: ReadLine_def strip_cr_def str_bytes_crlf)
qed

definition header_line :: "string \<times> string \<Rightarrow> string" where
  "header_line h = fst h @ '': '' @ snd h @ crlf"

text \<open>A header with a token as its key and a value of valid characters without blanks around it.\<close>

definition good_header :: "string \<times> string \<Rightarrow> bool" where
  "good_header h =
     (fst h \<noteq> [] \<and> list_all is_token (fst h) \<and> list_all valid_value_char (snd h) \<and>
      (snd h \<noteq> [] \<longrightarrow> \<not> is_blank (hd (snd h)) \<and> \<not> is_blank (last (snd h))))"

lemma token_plain:
  "is_token ch \<Longrightarrow> \<not> is_blank ch \<and> ch \<noteq> CHR '':'' \<and> ch \<noteq> CHR 0x0A \<and> ch \<noteq> CHR '' ''"
  by (auto simp: is_token_def is_blank_def is_digit_def is_lower_def is_upper_def code_def)

lemma value_plain: "valid_value_char ch \<Longrightarrow> ch \<noteq> CHR 0x0A"
  by (auto simp: valid_value_char_def code_def)

lemma trim_right_nonblank: "s = [] \<or> \<not> p (last s) \<Longrightarrow> trim_right p s = s"
  by (cases s rule: rev_cases) (simp_all add: trim_right_def)

lemma trim_right_keep:
  assumes "\<not> p x"
  shows "trim_right p (s @ x # t) = s @ x # trim_right p t"
  using assms by (simp add: trim_right_def dropWhile_append)

lemma trim_left_nonblank: "s = [] \<or> \<not> p (hd s) \<Longrightarrow> trim_left p s = s"
  by (cases s) (simp_all add: trim_left_def)

lemma cut_byte_append: "x \<notin> set s \<Longrightarrow> cut_byte x (s @ x # t) = Some (s, t)"
  by (simp add: cut_byte_def index_byte_append)

lemma canonical_key_token:
  "k \<noteq> [] \<Longrightarrow> list_all is_token k \<Longrightarrow> canonical_key k = Some (canon_from True k)"
  using token_plain by (fastforce simp: canonical_key_def list_all_iff)

text \<open>The value as the reader sees it: one blank in front, none behind.\<close>

lemma header_value:
  assumes "good_header (k, v)"
  shows "trim_left is_blank (trim_right is_blank ('' '' @ v)) = v"
    "list_all valid_value_char (trim_right is_blank ('' '' @ v))"
proof -
  show "trim_left is_blank (trim_right is_blank ('' '' @ v)) = v"
  proof (cases "v = []")
    case False
    with assms have "trim_right is_blank ('' '' @ v) = '' '' @ v"
      by (intro trim_right_nonblank) (simp add: good_header_def)
    with assms False show ?thesis by (cases v) (simp_all add: good_header_def trim_left_def is_blank_def)
  qed (simp add: trim_right_def trim_left_def is_blank_def)
  have "set (trim_right is_blank ('' '' @ v)) \<subseteq> set ('' '' @ v)"
    unfolding trim_right_def by (auto dest: set_dropWhileD)
  with assms show "list_all valid_value_char (trim_right is_blank ('' '' @ v))"
    by (auto simp: good_header_def list_all_iff valid_value_char_def code_def)
qed

lemma read_continued_header:
  assumes "good_header (k, v)" "rd c = str_bytes (header_line (k, v)) @ rest"
    "\<not> peek_blank (c\<lparr>rd := rest\<rparr>)"
  shows "read_continued c = (Inr (k @ CHR '':'' # trim_right is_blank ('' '' @ v)), c\<lparr>rd := rest\<rparr>)"
proof -
  have nolf: "CHR 0x0A \<notin> set (k @ '': '' @ v)"
    using assms(1) token_plain value_plain by (fastforce simp: good_header_def list_all_iff)
  have line: "ReadLine c = (Inr (k @ '': '' @ v), c\<lparr>rd := rest\<rparr>)"
    by (rule ReadLine_crlf [OF _ nolf]) (simp add: assms(2) header_line_def)
  have "\<not> is_blank (hd k)" "k \<noteq> []"
    using assms(1) token_plain by (auto simp: good_header_def list_all_iff)
  then have "trim_left is_blank (k @ '': '' @ v) = k @ CHR '':'' # '' '' @ v"
    by (subst trim_left_nonblank) (simp_all)
  then have "trim_blank (k @ '': '' @ v) = k @ CHR '':'' # trim_right is_blank ('' '' @ v)"
    by (simp add: trim_blank_def trim_right_keep is_blank_def)
  with line assms(3) show ?thesis by (simp add: read_continued_def cont_lines.simps)
qed

lemma peek_header:
  assumes "list_all good_header hs"
  shows "\<not> peek_blank (c\<lparr>rd := str_bytes (concat (map header_line hs) @ crlf) @ rest\<rparr>)"
proof (cases hs)
  case Nil
  then show ?thesis by (simp add: peek_blank_def str_bytes_def crlf_def is_blank_def)
next
  case (Cons h hs')
  then obtain x xs where "fst h = x # xs" "is_token x"
    using assms by (cases "fst h") (auto simp: good_header_def)
  with Cons show ?thesis using token_plain by (simp add: peek_blank_def header_line_def str_bytes_def)
qed

lemma mime_loop_lines:
  "list_all good_header hs \<Longrightarrow>
   rd c = str_bytes (concat (map header_line hs) @ crlf) @ rest \<Longrightarrow>
   mime_loop m c = (Inr (m @ map (\<lambda>h. (canon_from True (fst h), snd h)) hs), c\<lparr>rd := rest\<rparr>)"
proof (induction hs arbitrary: m c)
  case Nil
  then have "ReadLine c = (Inr [], c\<lparr>rd := rest\<rparr>)" by (intro ReadLine_crlf) simp_all
  then show ?case by (simp add: mime_loop.simps read_continued_def)
next
  case (Cons h hs)
  obtain k v where h: "h = (k, v)" by (cases h)
  let ?c = "c\<lparr>rd := str_bytes (concat (map header_line hs) @ crlf) @ rest\<rparr>"
  have g: "good_header (k, v)" "list_all good_header hs" using Cons.prems h by simp_all
  have one: "read_continued c = (Inr (k @ CHR '':'' # trim_right is_blank ('' '' @ v)), ?c)"
    by (rule read_continued_header [OF g(1)])
      (use Cons.prems h peek_header [OF g(2)] in simp_all)
  have k: "k \<noteq> []" "list_all is_token k" "CHR '':'' \<notin> set k"
    using g(1) token_plain by (auto simp: good_header_def list_all_iff)
  have "mime_loop m c = mime_loop (m @ [(canon_from True k, v)]) ?c"
    using one header_value [OF g(1)] k
    by (subst mime_loop.simps) (simp add: cut_byte_append canonical_key_token)
  then show ?case using Cons.IH [OF g(2), of ?c] h by simp
qed

lemma ReadMIMEHeader_lines:
  assumes "list_all good_header hs" "rd c = str_bytes (concat (map header_line hs) @ crlf) @ rest"
  shows "ReadMIMEHeader c = (Inr (map (\<lambda>h. (canon_from True (fst h), snd h)) hs), c\<lparr>rd := rest\<rparr>)"
proof -
  have "\<not> peek_blank c" using peek_header [OF assms(1), of rest c] assms(2) by (simp add: peek_blank_def)
  with mime_loop_lines [OF assms, of "[]"] show ?thesis by (simp add: ReadMIMEHeader_def)
qed

end
