(* ===== verification/Base64.thy ===== *)
theory Base64
  imports Text_Proto
begin

text \<open>
  The standard encoding of the package \<open>encoding/base64\<close>, which the websocket handshake and the
  authorization of HTTP proxies use, and that decoding inverts encoding.
\<close>

section \<open>Encoding\<close>

definition b64_alphabet :: string where
  "b64_alphabet = ''ABCDEFGHIJKLMNOPQRSTUVWXYZabcdefghijklmnopqrstuvwxyz0123456789+/''"

definition b64_char :: "nat \<Rightarrow> char" where
  "b64_char n = b64_alphabet ! (n mod 64)"

fun b64 :: "bytes \<Rightarrow> string" where
  "b64 [] = []"
| "b64 [a] = (let n = unat a * 65536 in [b64_char (n div 262144), b64_char (n div 4096), CHR ''='', CHR ''=''])"
| "b64 [a, b] =
     (let n = unat a * 65536 + unat b * 256
      in [b64_char (n div 262144), b64_char (n div 4096), b64_char (n div 64), CHR ''=''])"
| "b64 (a # b # c # r) =
     (let n = unat a * 65536 + unat b * 256 + unat c
      in [b64_char (n div 262144), b64_char (n div 4096), b64_char (n div 64), b64_char n] @ b64 r)"

lemma b64_alphabet_plain: "list_all (\<lambda>ch. valid_value_char ch \<and> \<not> is_blank ch) b64_alphabet"
  by code_simp

lemma length_b64_alphabet: "length b64_alphabet = 64"
  by code_simp

lemma b64_char_plain: "valid_value_char (b64_char n) \<and> \<not> is_blank (b64_char n)"
proof -
  have "b64_char n \<in> set b64_alphabet"
    unfolding b64_char_def by (rule nth_mem) (simp add: length_b64_alphabet)
  with b64_alphabet_plain show ?thesis by (simp add: list_all_iff)
qed

lemma b64_pad_plain: "valid_value_char CHR ''='' \<and> \<not> is_blank CHR ''=''"
  by (simp add: valid_value_char_def is_blank_def code_def)

lemma b64_plain: "\<forall>ch\<in>set (b64 p). valid_value_char ch \<and> \<not> is_blank ch"
  by (induction p rule: b64.induct) (auto simp: Let_def b64_char_plain b64_pad_plain)

lemma good_header_b64: "k \<noteq> [] \<Longrightarrow> list_all is_token k \<Longrightarrow> good_header (k, b64 p)"
  using b64_plain [of p] by (simp add: good_header_def list_all_iff)

section \<open>Decoding\<close>

definition b64_val :: "char \<Rightarrow> nat option" where
  "b64_val ch = index_byte ch b64_alphabet"

fun b64_groups :: "string \<Rightarrow> bytes option" where
  "b64_groups [] = Some []"
| "b64_groups (a # b # c # d # r) =
     (case (b64_val a, b64_val b) of
        (Some x, Some y) \<Rightarrow>
          if c = CHR ''='' then
            (if d = CHR ''='' \<and> r = [] then Some [of_nat ((x * 64 + y) div 16)] else None)
          else
            (case b64_val c of
               None \<Rightarrow> None
             | Some z \<Rightarrow>
                 let m = (x * 64 + y) * 64 + z in
                 if d = CHR ''='' then
                   (if r = [] then Some [of_nat (m div 1024), of_nat (m div 4)] else None)
                 else
                   (case (b64_val d, b64_groups r) of
                      (Some w, Some bs) \<Rightarrow>
                        let n = m * 64 + w in
                        Some (of_nat (n div 65536) # of_nat (n div 256) # of_nat n # bs)
                    | _ \<Rightarrow> None))
      | _ \<Rightarrow> None)"
| "b64_groups _ = None"

text \<open>\<open>DecodeString\<close> skips line ends.\<close>

definition b64_decode :: "string \<Rightarrow> bytes option" where
  "b64_decode s = b64_groups (filter (\<lambda>ch. ch \<noteq> CHR 0x0D \<and> ch \<noteq> CHR 0x0A) s)"

lemma b64_val_alphabet: "list_all (\<lambda>n. b64_val (b64_alphabet ! n) = Some n \<and> b64_alphabet ! n \<noteq> CHR ''='') [0..<64]"
  by code_simp

lemma b64_val_char [simp]: "b64_val (b64_char n) = Some (n mod 64)" "b64_char n \<noteq> CHR ''=''"
  using b64_val_alphabet unfolding b64_char_def list_all_iff by auto

text \<open>The groups of six bits of a number of 24 bits.\<close>

lemma sextets:
  fixes n :: nat
  assumes "n < 2 ^ 24"
  shows "n div 262144 mod 64 * 64 + n div 4096 mod 64 = n div 4096"
    "n div 4096 * 64 + n div 64 mod 64 = n div 64"
proof -
  have d: "n div 4096 div 64 = n div 262144" "n div 64 div 64 = n div 4096"
    by (simp_all flip: div_mult2_eq)
  have "n div 262144 < 64" using assms by (simp add: less_mult_imp_div_less)
  then show "n div 262144 mod 64 * 64 + n div 4096 mod 64 = n div 4096"
    using div_mult_mod_eq [of "n div 4096" 64] d(1) by (metis mod_less)
  show "n div 4096 * 64 + n div 64 mod 64 = n div 64"
    using div_mult_mod_eq [of "n div 64" 64] d(2) by metis
qed

lemma octets:
  fixes a b c :: byte
  defines "n \<equiv> unat a * 65536 + unat b * 256 + unat c"
  shows "n < 2 ^ 24" "of_nat (n div 65536) = a" "of_nat (n div 256) = b" "of_nat n = c"
proof -
  have l: "unat a < 256" "unat b < 256" "unat c < 256" by (rule unat_byte_less)+
  have "n < 16777216" using l unfolding n_def by linarith
  then show "n < 2 ^ 24" by simp
  have bc: "unat b * 256 + unat c < 65536" using l by linarith
  have "n div 65536 = unat a + (unat b * 256 + unat c) div 65536" by (simp add: n_def add.assoc)
  then have "n div 65536 = unat a" unfolding div_less [OF bc] by simp
  then show "of_nat (n div 65536) = a" by simp
  have "n = (unat a * 256 + unat b) * 256 + unat c" by (simp add: n_def algebra_simps)
  then have "n div 256 = unat a * 256 + unat b + unat c div 256" by (simp only: div_mult_self3 zero_neq_numeral not_False_eq_True)
  then have "n div 256 = unat a * 256 + unat b" unfolding div_less [OF l(3)] by simp
  moreover have z: "(256 :: byte) = 0" "(65536 :: byte) = 0" by code_simp+
  then have "(of_nat (unat a * 256 + unat b) :: byte) = b"
    by (simp only: of_nat_add of_nat_mult of_nat_unat ucast_id of_nat_numeral z mult_zero_right add_0)
  ultimately show "of_nat (n div 256) = b" by simp
  show "of_nat n = c"
    by (simp only: n_def of_nat_add of_nat_mult of_nat_unat ucast_id of_nat_numeral z mult_zero_right add_0)
qed

lemma b64_groups_enc: "b64_groups (b64 p) = Some p"
proof (induction p rule: b64.induct)
  case (2 a)
  let ?n = "unat a * 65536"
  have "?n < 2 ^ 24" "of_nat (?n div 65536) = a" using octets(1,2) [of a 0 0] by simp_all
  moreover have "?n div 4096 div 16 = ?n div 65536" by (simp flip: div_mult2_eq)
  ultimately show ?case using sextets(1) [of ?n] by (simp only: b64.simps Let_def b64_groups.simps b64_val_char option.case prod.case simp_thms if_True)
next
  case (3 a b)
  let ?n = "unat a * 65536 + unat b * 256"
  have o: "?n < 2 ^ 24" "of_nat (?n div 65536) = a" "of_nat (?n div 256) = b" using octets(1-3) [of a b 0] by simp_all
  moreover have "?n div 64 div 1024 = ?n div 65536" "?n div 64 div 4 = ?n div 256" by (simp_all flip: div_mult2_eq)
  ultimately show ?case
    using sextets [OF o(1)] by (simp only: b64.simps Let_def b64_groups.simps b64_val_char option.case prod.case simp_thms if_True if_False)
next
  case (4 a b c r)
  let ?n = "unat a * 65536 + unat b * 256 + unat c"
  note o = octets [of a b c]
  show ?case
    using 4 o sextets [OF o(1)] div_mult_mod_eq [of ?n 64]
    by (simp only: b64.simps Let_def append.simps b64_groups.simps b64_val_char option.case prod.case if_False)
qed simp

lemma b64_decode_enc: "b64_decode (b64 p) = Some p"
proof -
  have "filter (\<lambda>ch. ch \<noteq> CHR 0x0D \<and> ch \<noteq> CHR 0x0A) (b64 p) = b64 p"
    using b64_plain [of p] by (intro filter_True) (auto simp: valid_value_char_def code_def)
  then show ?thesis by (simp add: b64_decode_def b64_groups_enc)
qed

end
