(* ===== verification/Ws_Conn.thy ===== *)
theory Ws_Conn
  imports Ws_Frame Base64 Net_Addr
begin

text \<open>
  The websocket transport around the frames (\<open>proxy/ws/ws.go\<close>, \<open>client.go\<close>, \<open>server.go\<close>): the
  settings read from the url, the HTTP upgrade of both sides and the server's handler.

  SHA-1 and the random key are arguments.  Both handshakes read through a buffered reader that is
  given back to its pool afterwards; the argument \<open>ahead\<close> is the number of bytes behind the header
  which that reader had already taken from the connection, and which are lost.
\<close>

section \<open>Model\<close>

subsection \<open>Settings\<close>

record ws =
  ws_addr :: string
  ws_host :: string
  ws_path :: string
  ws_origin :: string
  ws_withTLS :: bool
  ws_serverName :: string
  ws_skipVerify :: bool
  ws_certFile :: string
  ws_keyFile :: string

text \<open>\<open>NewWS\<close> on the parsed url; \<open>d\<close> is the address of the dialer, when there is one.\<close>

definition NewWS :: "url option \<Rightarrow> string option \<Rightarrow> bool \<Rightarrow> ws result" where
  "NewWS pu d withTLS =
     (case pu of
        None \<Rightarrow> Inl (ErrMsg ''parse url err'')
      | Some u \<Rightarrow>
          let addr0 = (if u_Host u = [] \<and> d \<noteq> None then the d else u_Host u);
              addr = (if snd (split_host_port_or_empty addr0) = []
                      then JoinHostPort addr0 (if withTLS then ''443'' else ''80'') else addr0);
              host = u_Query u ''host'';
              sn = u_Query u ''serverName''
          in
          case (if sn = [] then map_option (\<lambda>i. take i addr) (last_index_byte CHR '':'' addr) else Some sn) of
            None \<Rightarrow> Inl (Panic ''slice bounds out of range'')
          | Some serverName \<Rightarrow>
              Inr \<lparr>ws_addr = addr, ws_host = (if host = [] then addr else host),
                ws_path = (if u_Path u = [] then ''/'' else u_Path u), ws_origin = u_Query u ''origin'',
                ws_withTLS = withTLS, ws_serverName = serverName,
                ws_skipVerify = (u_Query u ''skipVerify'' = ''true''),
                ws_certFile = u_Query u ''cert'', ws_keyFile = u_Query u ''key''\<rparr>)"

subsection \<open>The upgrade\<close>

definition parseFirstLine :: "string \<Rightarrow> (string \<times> string \<times> string) option" where
  "parseFirstLine line =
     (case cut_byte CHR '' '' line of
        None \<Rightarrow> None
      | Some (r1, l2) \<Rightarrow> map_option (\<lambda>(r2, r3). (r1, r2, r3)) (cut_byte CHR '' '' l2))"

definition keyGUID :: string where
  "keyGUID = ''258EAFA5-E914-47DA-95CA-C5AB0DC85B11''"

text \<open>\<open>p\<close>: the 16 random bytes.\<close>

definition generateClientKey :: "bytes \<Rightarrow> string" where
  "generateClientKey p = b64 p"

definition computeServerKey :: "(bytes \<Rightarrow> bytes) \<Rightarrow> string \<Rightarrow> string" where
  "computeServerKey sha1 clientKey = b64 (sha1 (str_bytes clientKey @ str_bytes keyGUID))"

text \<open>Giving the buffered reader back.\<close>

definition buffered :: "nat \<Rightarrow> 'a io \<Rightarrow> 'a io" where
  "buffered ahead m c = (case m c of (r, c') \<Rightarrow> (r, c'\<lparr>rd := drop ahead (rd c')\<rparr>))"

definition client_upgrade :: "string \<Rightarrow> string \<Rightarrow> string \<Rightarrow> string \<Rightarrow> string" where
  "client_upgrade host path origin clientKey =
     ''GET '' @ path @ '' HTTP/1.1'' @ crlf @
     ''Host: '' @ host @ crlf @
     ''Upgrade: websocket'' @ crlf @
     ''Connection: Upgrade'' @ crlf @
     (if origin \<noteq> [] then ''Origin: http://'' @ origin @ crlf else []) @
     ''Sec-WebSocket-Key: '' @ clientKey @ crlf @
     ''Sec-WebSocket-Version: 13'' @ crlf @
     crlf"

definition client_Handshake ::
  "(bytes \<Rightarrow> bytes) \<Rightarrow> bytes \<Rightarrow> nat \<Rightarrow> string \<Rightarrow> string \<Rightarrow> string \<Rightarrow> unit io" where
  "client_Handshake sha1 p ahead host path origin =
     (let clientKey = generateClientKey p in
      io_bind (io_write (str_bytes (client_upgrade host path origin clientKey))) (\<lambda>_.
      buffered ahead
       (io_bind ReadLine (\<lambda>line.
        case parseFirstLine line of
          None \<Rightarrow> io_fail (ErrMsg (''[ws] error in ws handshake, got wrong response: '' @ line))
        | Some (_, st, _) \<Rightarrow>
            if st \<noteq> ''101''
            then io_fail (ErrMsg (''[ws] error in ws handshake, got wrong response: '' @ line))
            else
              io_bind ReadMIMEHeader (\<lambda>respHeader.
              if mime_get ''Sec-WebSocket-Accept'' respHeader \<noteq> computeServerKey sha1 clientKey
              then io_fail (ErrMsg ''[ws] error in ws handshake, got wrong Sec-Websocket-Key'')
              else io_ret ())))))"

definition server_upgrade :: "string \<Rightarrow> string" where
  "server_upgrade serverKey =
     ''HTTP/1.1 101 Switching Protocols'' @ crlf @
     ''Upgrade: websocket'' @ crlf @
     ''Connection: Upgrade'' @ crlf @
     ''Sec-WebSocket-Accept: '' @ serverKey @ crlf @
     crlf"

text \<open>The statement \<open>_, path, _, ok := parseFirstLine(line)\<close> assigns to the parameter \<open>path\<close>, so that
  the comparison behind it compares the path of the request with itself.\<close>

definition server_Handshake :: "(bytes \<Rightarrow> bytes) \<Rightarrow> nat \<Rightarrow> string \<Rightarrow> string \<Rightarrow> unit io" where
  "server_Handshake sha1 ahead host path0 =
     buffered ahead
      (io_bind ReadLine (\<lambda>line.
       let (path, ok) = (case parseFirstLine line of None \<Rightarrow> ([], False) | Some (_, r2, _) \<Rightarrow> (r2, True))
       in if \<not> ok \<or> path \<noteq> path
          then io_fail (ErrMsg (''[ws] error in ws handshake parseFirstLine: '' @ line))
          else
            io_bind ReadMIMEHeader (\<lambda>reqHeader.
            let clientKey = mime_get ''Sec-WebSocket-Key'' reqHeader;
                serverKey = computeServerKey sha1 clientKey
            in io_write (str_bytes (server_upgrade serverKey)))))"

subsection \<open>Connections after the upgrade and the handler\<close>

text \<open>A \<open>ClientConn\<close> or \<open>ServerConn\<close>: reader and writer are made by the first call that needs them,
  the writer with the random number \<open>rnd\<close>.\<close>

record wsconn =
  wc_server :: bool
  wc_reader :: "frameReader option"
  wc_writer :: "frameWriter option"

definition conn_Write :: "u32 \<Rightarrow> bytes \<Rightarrow> wsconn \<Rightarrow> conn \<Rightarrow> (nat \<times> go_error option) \<times> wsconn \<times> conn" where
  "conn_Write rnd b wc c =
     (let w = (case wc_writer wc of None \<Rightarrow> FrameWriter (wc_server wc) rnd | Some w \<Rightarrow> w)
      in case frame_Write w b c of (r, c') \<Rightarrow> (r, wc\<lparr>wc_writer := Some w\<rparr>, c'))"

definition conn_Read :: "nat \<Rightarrow> wsconn \<Rightarrow> conn \<Rightarrow> (bytes \<times> go_error option) \<times> wsconn \<times> conn" where
  "conn_Read n wc c =
     (let r = (case wc_reader wc of None \<Rightarrow> FrameReader (wc_server wc) | Some r \<Rightarrow> r)
      in case frame_Read n r c of (x, r', c') \<Rightarrow> (x, wc\<lparr>wc_reader := Some r'\<rparr>, c'))"

text \<open>What \<open>Serve\<close> does with a connection, as the calls it makes: \<open>tls\<close> says whether the TLS handshake
  succeeds, \<open>inner\<close> whether there is a server behind it, \<open>dial\<close> and \<open>relay\<close> give the errors of
  \<open>proxy.Dial\<close> and \<open>proxy.Relay\<close>.\<close>

datatype ws_event = WsInner | WsDial string | WsRecord bool | WsRelay | WsClose

definition ws_Serve ::
  "(bytes \<Rightarrow> bytes) \<Rightarrow> nat \<Rightarrow> ws \<Rightarrow> bool \<Rightarrow> bool \<Rightarrow> bool \<Rightarrow> string option \<Rightarrow> conn \<Rightarrow> ws_event list \<times> conn" where
  "ws_Serve sha1 ahead s tls inner dial relay c =
     (if ws_withTLS s \<and> \<not> tls then ([WsClose], c)
      else
        case server_Handshake sha1 ahead (ws_host s) (ws_path s) c of
          (Inl _, c') \<Rightarrow> ([WsClose], c')
        | (Inr _, c') \<Rightarrow>
            if inner then ([WsInner], c')
            else if \<not> dial then ([WsDial [], WsRecord False, WsClose], c')
            else ([WsDial [], WsRelay] @
              (case relay of
                 None \<Rightarrow> []
               | Some err \<Rightarrow> if contains_str err (ws_addr s) then [] else [WsRecord False]) @
              [WsClose], c'))"

section \<open>Both sides agree\<close>

definition client_headers :: "string \<Rightarrow> string \<Rightarrow> string \<Rightarrow> (string \<times> string) list" where
  "client_headers host origin key =
     [(''Host'', host), (''Upgrade'', ''websocket''), (''Connection'', ''Upgrade'')] @
     (if origin \<noteq> [] then [(''Origin'', ''http://'' @ origin)] else []) @
     [(''Sec-WebSocket-Key'', key), (''Sec-WebSocket-Version'', ''13'')]"

definition server_headers :: "string \<Rightarrow> (string \<times> string) list" where
  "server_headers key =
     [(''Upgrade'', ''websocket''), (''Connection'', ''Upgrade''), (''Sec-WebSocket-Accept'', key)]"

lemma client_upgrade_lines:
  "client_upgrade host path origin key =
   (''GET '' @ path @ '' HTTP/1.1'') @ crlf @ concat (map header_line (client_headers host origin key)) @ crlf"
  by (simp add: client_upgrade_def client_headers_def header_line_def)

lemma server_upgrade_lines:
  "server_upgrade key =
   ''HTTP/1.1 101 Switching Protocols'' @ crlf @ concat (map header_line (server_headers key)) @ crlf"
  by (simp add: server_upgrade_def server_headers_def header_line_def)

lemmas char_class_defs = is_token_def is_digit_def is_lower_def is_upper_def valid_value_char_def
  is_blank_def code_def

lemma good_client_headers:
  assumes "good_header (''Host'', host)" "origin = [] \<or> good_header (''Origin'', origin)"
  shows "list_all good_header (client_headers host origin (b64 p))"
proof -
  have k: "good_header (''Sec-WebSocket-Key'', b64 p)"
    by (rule good_header_b64) (simp_all add: char_class_defs)
  have o: "good_header (''Origin'', ''http://'' @ origin)" if "origin \<noteq> []"
    using assms(2) that by (simp add: good_header_def char_class_defs)
  show ?thesis
    using assms(1) k o by (simp add: client_headers_def) (simp add: good_header_def char_class_defs)
qed

lemma good_server_headers: "list_all good_header (server_headers (b64 p))"
proof -
  have k: "good_header (''Sec-WebSocket-Accept'', b64 p)"
    by (rule good_header_b64) (simp_all add: char_class_defs)
  then show ?thesis
    by (simp add: server_headers_def) (simp add: good_header_def char_class_defs)
qed

lemma canon_keys:
  "canon_from True ''Host'' = ''Host''" "canon_from True ''Upgrade'' = ''Upgrade''"
  "canon_from True ''Connection'' = ''Connection''" "canon_from True ''Origin'' = ''Origin''"
  "canon_from True ''Sec-WebSocket-Key'' = ''Sec-Websocket-Key''"
  "canon_from True ''Sec-WebSocket-Version'' = ''Sec-Websocket-Version''"
  "canon_from True ''Sec-WebSocket-Accept'' = ''Sec-Websocket-Accept''"
  by code_simp+

lemma mime_get_client_key:
  "mime_get ''Sec-WebSocket-Key'' (map (\<lambda>h. (canon_from True (fst h), snd h)) (client_headers host origin key)) = key"
  by (simp add: mime_get_def client_headers_def canon_keys)

lemma mime_get_server_key:
  "mime_get ''Sec-WebSocket-Accept'' (map (\<lambda>h. (canon_from True (fst h), snd h)) (server_headers key)) = key"
  by (simp add: mime_get_def server_headers_def canon_keys)

lemma parseFirstLine_request:
  "CHR '' '' \<notin> set path \<Longrightarrow> parseFirstLine (''GET '' @ path @ '' HTTP/1.1'') = Some (''GET'', path, ''HTTP/1.1'')"
  using cut_byte_append [of "CHR '' ''" "''GET''" "path @ '' HTTP/1.1''"]
    cut_byte_append [of "CHR '' ''" path "''HTTP/1.1''"]
  by (simp add: parseFirstLine_def)

lemma parseFirstLine_response:
  "parseFirstLine ''HTTP/1.1 101 Switching Protocols'' = Some (''HTTP/1.1'', ''101'', ''Switching Protocols'')"
  by code_simp

lemma server_Handshake_request:
  assumes "good_header (''Host'', host)" "origin = [] \<or> good_header (''Origin'', origin)"
    and "CHR '' '' \<notin> set path" "CHR 0x0A \<notin> set path"
    and "rd c = str_bytes (client_upgrade host path origin (b64 p)) @ rest" "wleft c = None"
  shows "server_Handshake sha1 0 host' path' c =
    (Inr (), c\<lparr>rd := rest, wr := wr c @ str_bytes (server_upgrade (computeServerKey sha1 (b64 p)))\<rparr>)"
proof -
  let ?hs = "client_headers host origin (b64 p)"
  let ?c = "c\<lparr>rd := str_bytes (concat (map header_line ?hs) @ crlf) @ rest\<rparr>"
  have l: "ReadLine c = (Inr (''GET '' @ path @ '' HTTP/1.1''), ?c)"
  proof (rule ReadLine_crlf)
    show "rd c = str_bytes ((''GET '' @ path @ '' HTTP/1.1'') @ crlf) @ str_bytes (concat (map header_line ?hs) @ crlf) @ rest"
      by (simp only: assms(5) client_upgrade_lines str_bytes_append append_assoc)
  qed (use assms(4) in simp)
  have h: "ReadMIMEHeader ?c = (Inr (map (\<lambda>h. (canon_from True (fst h), snd h)) ?hs), ?c\<lparr>rd := rest\<rparr>)"
    by (rule ReadMIMEHeader_lines [OF good_client_headers [OF assms(1,2)]]) simp
  show ?thesis
    using l h assms(3,6)
    by (simp add: server_Handshake_def buffered_def parseFirstLine_request [simplified]
        mime_get_client_key [unfolded mime_get_def] mime_get_def)
qed

lemma client_Handshake_response:
  assumes "rd c = str_bytes (server_upgrade (computeServerKey sha1 (b64 p))) @ rest" "wleft c = None"
  shows "client_Handshake sha1 p 0 host path origin c =
    (Inr (), c\<lparr>rd := rest, wr := wr c @ str_bytes (client_upgrade host path origin (b64 p))\<rparr>)"
proof -
  let ?w = "wr c @ str_bytes (client_upgrade host path origin (b64 p))"
  let ?key = "computeServerKey sha1 (b64 p)"
  let ?c1 = "c\<lparr>wr := ?w\<rparr>"
  let ?c = "?c1\<lparr>rd := str_bytes (concat (map header_line (server_headers ?key)) @ crlf) @ rest\<rparr>"
  have l: "ReadLine ?c1 = (Inr ''HTTP/1.1 101 Switching Protocols'', ?c)"
  proof (rule ReadLine_crlf)
    show "rd ?c1 = str_bytes (''HTTP/1.1 101 Switching Protocols'' @ crlf) @
        str_bytes (concat (map header_line (server_headers ?key)) @ crlf) @ rest"
      using assms(1) unfolding server_upgrade_lines str_bytes_append append_assoc by simp
  qed simp
  have h: "ReadMIMEHeader ?c =
      (Inr (map (\<lambda>h. (canon_from True (fst h), snd h)) (server_headers ?key)), ?c\<lparr>rd := rest\<rparr>)"
    by (rule ReadMIMEHeader_lines) (simp_all add: computeServerKey_def good_server_headers)
  show ?thesis
    using l h assms(2)
    by (simp add: client_Handshake_def generateClientKey_def buffered_def parseFirstLine_response
        mime_get_server_key io_ret_def Let_def)
qed

lemma client_Handshake_request:
  "wr (snd (client_Handshake sha1 p ahead host path origin (open_conn []))) =
   str_bytes (client_upgrade host path origin (b64 p))"
proof -
  let ?c = "(open_conn [])\<lparr>wr := str_bytes (client_upgrade host path origin (b64 p))\<rparr>"
  have "ReadLine ?c = (Inl EOF, ?c)" by (simp add: ReadLine_def)
  then show ?thesis
    by (simp add: client_Handshake_def generateClientKey_def buffered_def Let_def)
qed

text \<open>
  The upgrade succeeds on both sides.  The server accepts the request of the client
  whatever path and host it was itself set up with (the configured path is never compared), the
  client accepts the answer of the server, and what either side sent behind its header is still
  there to be read as frames when the buffered reader had not run ahead.
\<close>

lemma ws_handshake_agree:
  assumes "good_header (''Host'', host)" "origin = [] \<or> good_header (''Origin'', origin)"
    and "CHR '' '' \<notin> set path" "CHR 0x0A \<notin> set path"
    and "req = wr (snd (client_Handshake sha1 p 0 host path origin (open_conn [])))"
    and "resp = wr (snd (server_Handshake sha1 0 host' path' (open_conn req)))"
  shows "fst (server_Handshake sha1 0 host' path' (open_conn (req @ up))) = Inr () \<and>
    rd (snd (server_Handshake sha1 0 host' path' (open_conn (req @ up)))) = up \<and>
    fst (client_Handshake sha1 p 0 host path origin (open_conn (resp @ down))) = Inr () \<and>
    rd (snd (client_Handshake sha1 p 0 host path origin (open_conn (resp @ down)))) = down"
proof -
  have req: "req = str_bytes (client_upgrade host path origin (b64 p))"
    by (simp add: assms(5) client_Handshake_request)
  note server = server_Handshake_request [OF assms(1-4)]
  have "server_Handshake sha1 0 host' path' (open_conn req) =
      (Inr (), (open_conn req)\<lparr>rd := [], wr := wr (open_conn req) @
        str_bytes (server_upgrade (computeServerKey sha1 (b64 p)))\<rparr>)"
    by (rule server) (simp_all add: req)
  then have resp: "resp = str_bytes (server_upgrade (computeServerKey sha1 (b64 p)))"
    by (simp add: assms(6))
  have s: "server_Handshake sha1 0 host' path' (open_conn (req @ up)) =
      (Inr (), (open_conn (req @ up))\<lparr>rd := up, wr := wr (open_conn (req @ up)) @ resp\<rparr>)"
    unfolding resp by (rule server) (simp_all add: req)
  have c: "client_Handshake sha1 p 0 host path origin (open_conn (resp @ down)) =
      (Inr (), (open_conn (resp @ down))\<lparr>rd := down, wr := wr (open_conn (resp @ down)) @ req\<rparr>)"
    unfolding req by (rule client_Handshake_response) (simp_all add: resp)
  from s c show ?thesis by simp
qed

lemma ws_handshake_agree_witness:
  "let sha1 = (\<lambda>b. take 20 b); p = [1, 2, 3];
       req = wr (snd (client_Handshake sha1 p 0 ''h.io'' ''/a'' [] (open_conn [])));
       resp = wr (snd (server_Handshake sha1 0 ''x'' ''/b'' (open_conn req)))
   in fst (server_Handshake sha1 0 ''x'' ''/b'' (open_conn (req @ [130, 0]))) = Inr () \<and>
      rd (snd (client_Handshake sha1 p 0 ''h.io'' ''/a'' [] (open_conn (resp @ [9])))) = [9]"
proof -
  have "good_header (''Host'', ''h.io'')" by code_simp
  then show ?thesis
    using ws_handshake_agree [of "''h.io''" "[]" "''/a''" _ "\<lambda>b. take 20 b" "[1, 2, 3]" _ "''x''" "''/b''" "[130, 0]" "[9]"]
    by (simp add: Let_def)
qed

end
