(* ===== verification/Trojan.thy ===== *)
theory Trojan
  imports Socks_Addr
begin

text \<open>
  The trojan protocol (\<open>proxy/trojan\<close>): the settings, the header the client sends (the hash of
  the password, the command, the target), the server's check of it, the handler with its fallback
  for everything that is not a trojan client, and datagrams carried over the stream.

  The hash SHA-224 and \<open>net.ResolveUDPAddr\<close> are arguments; the bytes of a stream are those inside
  TLS.
\<close>

section \<open>Model\<close>

subsection \<open>Settings\<close>

record trojan =
  tr_addr :: string
  tr_pass :: bytes
  tr_withTLS :: bool
  tr_serverName :: string
  tr_skipVerify :: bool
  tr_certFile :: string
  tr_keyFile :: string
  tr_fallback :: string

text \<open>\<open>hex.Encode\<close>.\<close>

definition hex_encode :: "bytes \<Rightarrow> bytes" where
  "hex_encode b =
     concat (map (\<lambda>x. [byte_of_char (''0123456789abcdef'' ! (unat x div 16)),
                       byte_of_char (''0123456789abcdef'' ! (unat x mod 16))]) b)"

text \<open>\<open>NewTrojan\<close> on the parsed url; the array holds 56 bytes, twice the 28 of the hash.\<close>

definition NewTrojan :: "(bytes \<Rightarrow> bytes) \<Rightarrow> url option \<Rightarrow> trojan result" where
  "NewTrojan sha224 pu =
     (case pu of
        None \<Rightarrow> Inl (ErrMsg ''parse url err'')
      | Some u \<Rightarrow>
          let addr = (if u_Host u = [] then []
                      else if snd (split_host_port_or_empty (u_Host u)) = []
                      then JoinHostPort (u_Host u) ''443'' else u_Host u);
              sn = u_Query u ''serverName'';
              serverName = (if addr = [] \<or> sn \<noteq> [] then Some sn
                            else map_option (\<lambda>i. take i addr) (last_index_byte CHR '':'' addr))
          in case serverName of
               None \<Rightarrow> Inl (Panic ''slice bounds out of range'')
             | Some name \<Rightarrow>
                 if u_User u = [] then Inl (ErrMsg ''[trojan] password must be specified'')
                 else Inr \<lparr>tr_addr = addr, tr_pass = hex_encode (sha224 (str_bytes (u_User u))),
                   tr_withTLS = True, tr_serverName = name,
                   tr_skipVerify = (u_Query u ''skipVerify'' = ''true''),
                   tr_certFile = u_Query u ''cert'', tr_keyFile = u_Query u ''key'',
                   tr_fallback = u_Query u ''fallback''\<rparr>)"

definition NewClearText :: "(bytes \<Rightarrow> bytes) \<Rightarrow> url option \<Rightarrow> trojan result" where
  "NewClearText sha224 pu =
     (case NewTrojan sha224 pu of
        Inl _ \<Rightarrow> Inl (ErrMsg ''[trojanc] create instance error'')
      | Inr t \<Rightarrow> Inr (t\<lparr>tr_withTLS := False\<rparr>))"

text \<open>\<open>load\<close> says whether \<open>tls.LoadX509KeyPair\<close> reads certificate and key.\<close>

definition NewTrojanServer :: "(bytes \<Rightarrow> bytes) \<Rightarrow> (string \<Rightarrow> string \<Rightarrow> bool) \<Rightarrow> url option \<Rightarrow> trojan result" where
  "NewTrojanServer sha224 load pu =
     (case NewTrojan sha224 pu of
        Inl _ \<Rightarrow> Inl (ErrMsg ''[trojan] create instance error'')
      | Inr t \<Rightarrow>
          if tr_certFile t = [] \<or> tr_keyFile t = []
          then Inl (ErrMsg ''[trojan] cert and key file path must be spcified'')
          else if \<not> load (tr_certFile t) (tr_keyFile t) then Inl (ErrMsg ''[trojan] unable to load cert'')
          else Inr t)"

subsection \<open>Client\<close>

definition crlf_bytes :: bytes where
  "crlf_bytes = [0x0D, 0x0A]"

definition dial_header :: "trojan \<Rightarrow> string \<Rightarrow> string \<Rightarrow> bytes" where
  "dial_header s network addr =
     tr_pass s @ crlf_bytes @ [if network = ''udp'' then CmdUDPAssociate else CmdConnect] @
     (case ParseAddr_socks addr of None \<Rightarrow> [] | Some a \<Rightarrow> a) @ crlf_bytes"

text \<open>\<open>dial\<close>: \<open>rc\<close> is the connection to the server, when the dialer reaches it, and \<open>tls\<close> says whether
  the TLS handshake on it succeeds.\<close>

definition dial :: "trojan \<Rightarrow> bool \<Rightarrow> string \<Rightarrow> string \<Rightarrow> conn option \<Rightarrow> go_error option \<times> conn option" where
  "dial s tls network addr rc =
     (case rc of
        None \<Rightarrow> (Some (ErrMsg ''dial error''), None)
      | Some c \<Rightarrow>
          if tr_withTLS s \<and> \<not> tls then (Some (ErrMsg ''tls handshake error''), None)
          else (case conn_write (dial_header s network addr) c of (e, c') \<Rightarrow> (e, Some c')))"

subsection \<open>Server\<close>

definition readHeader :: "trojan \<Rightarrow> (byte \<times> socks_addr) io" where
  "readHeader s =
     io_bind (read_full 59) (\<lambda>buf.
     if take 56 buf \<noteq> tr_pass s then io_fail (ErrMsg ''wrong password'')
     else
       let cmd = buf ! 58 in
       io_bind (io_relabel ''read target address error'' ReadAddr) (\<lambda>tgt.
       io_bind (read_full 2) (\<lambda>_.
       io_ret (cmd, tgt))))"

text \<open>What the handler does: the calls on the outgoing side, with the network and the target of a
  dial and the bytes it writes itself.\<close>

datatype tr_event =
    TrUoT socks_addr
  | TrDial string string
  | TrWrite bytes
  | TrRelay
  | TrRecord bool

text \<open>\<open>dials n t\<close> says whether dialing \<open>t\<close> on network \<open>n\<close> succeeds, \<open>writes\<close> whether the remote side accepts
  the first bytes.\<close>

definition serveFallback :: "(string \<Rightarrow> string \<Rightarrow> bool) \<Rightarrow> bool \<Rightarrow> string \<Rightarrow> bytes \<Rightarrow> tr_event list" where
  "serveFallback dials writes tgt headBuf =
     (if \<not> dials ''tcp'' tgt then [TrDial ''tcp'' tgt]
      else if \<not> writes then [TrDial ''tcp'' tgt, TrWrite headBuf]
      else [TrDial ''tcp'' tgt, TrWrite headBuf, TrRelay])"

text \<open>\<open>Serve\<close>: the events and the connection as the relay, if any, finds it.  The header is read through
  a \<open>TeeReader\<close>, so the buffer for the fallback holds what was consumed.  \<open>dialer_addr t\<close> is the address
  of the dialer chosen for \<open>t\<close>, \<open>relay\<close> the error of the relay.\<close>

definition trojan_Serve ::
  "trojan \<Rightarrow> bool \<Rightarrow> (string \<Rightarrow> string) \<Rightarrow> (string \<Rightarrow> string \<Rightarrow> bool) \<Rightarrow> bool \<Rightarrow> string option \<Rightarrow> conn
    \<Rightarrow> tr_event list \<times> conn" where
  "trojan_Serve s tls dialer_addr dials writes relay c =
     (if tr_withTLS s \<and> \<not> tls then ([], c)
      else
        case readHeader s c of
          (Inl _, c') \<Rightarrow>
            (if tr_fallback s = [] then []
             else serveFallback dials writes (tr_fallback s) (take (length (rd c) - length (rd c')) (rd c)), c')
        | (Inr (cmd, tgt), c') \<Rightarrow>
            (case socks_String tgt of
               Inl _ \<Rightarrow> ([], c')
             | Inr target \<Rightarrow>
                 if cmd = CmdUDPAssociate \<and> dialer_addr target = ''DIRECT'' then ([TrUoT tgt], c')
                 else
                   let network = (if cmd = CmdUDPAssociate then ''udp'' else ''tcp'') in
                   if \<not> dials network target then ([TrDial network target], c')
                   else
                     ([TrDial network target, TrRelay] @
                      (case relay of
                         None \<Rightarrow> []
                       | Some err \<Rightarrow> if contains_str err (tr_addr s) then [] else [TrRecord False]), c')))"

subsection \<open>Datagrams over the stream\<close>

text \<open>\<open>PktConn.ReadFrom\<close> with a buffer of \<open>blen\<close> bytes: the resolved target and the payload.\<close>

definition pkt_ReadFrom :: "(string \<Rightarrow> string option) \<Rightarrow> nat \<Rightarrow> (string \<times> bytes) io" where
  "pkt_ReadFrom resolve blen =
     io_bind ReadAddr (\<lambda>tgtAddr.
     case socks_String tgtAddr of
       Inl e \<Rightarrow> io_fail e
     | Inr t \<Rightarrow>
         (case resolve t of
            None \<Rightarrow> io_fail (ErrMsg ''resolve error'')
          | Some target \<Rightarrow>
              if blen < 2 then io_fail (ErrMsg ''buf size is not enough'')
              else
                io_bind (read_full 2) (\<lambda>l.
                let len = unat (the (get16 l)) in
                if blen < len then io_fail (ErrMsg ''buf size is not enough'')
                else
                  io_bind (read_full 2) (\<lambda>_.
                  io_bind (read_full len) (\<lambda>b.
                  io_ret (target, b))))))"

text \<open>\<open>PktConn.WriteTo\<close>: what is handed to the stream in one \<open>Write\<close>; the target of the association
  serves when there is no address.\<close>

definition pkt_bytes :: "socks_addr \<Rightarrow> bytes \<Rightarrow> bytes" where
  "pkt_bytes target b = target @ put16 (of_nat (length b)) @ crlf_bytes @ b"

definition pkt_WriteTo ::
  "socks_addr option \<Rightarrow> bytes \<Rightarrow> string option \<Rightarrow> conn \<Rightarrow> (nat \<times> go_error option) \<times> conn" where
  "pkt_WriteTo pc_tgt b addr c =
     (case (case addr of None \<Rightarrow> pc_tgt | Some a \<Rightarrow> ParseAddr_socks a) of
        None \<Rightarrow> ((0, Some (ErrMsg ''invalid addr'')), c)
      | Some target \<Rightarrow>
          (case conn_write (pkt_bytes target b) c of
             (None, c') \<Rightarrow>
               let n = length (pkt_bytes target b) in
               ((if n > length target + 4 then n - length target - 4 else 0, None), c')
           | (Some e, c') \<Rightarrow> ((0, Some e), c')))"

section \<open>The header\<close>

lemma length_hex_encode [simp]: "length (hex_encode b) = 2 * length b"
  by (induction b) (simp_all add: hex_encode_def)

lemma NewTrojan_pass:
  "NewTrojan sha224 pu = Inr t \<Longrightarrow> (\<And>b. length (sha224 b) = 28) \<Longrightarrow> length (tr_pass t) = 56"
  by (auto simp: NewTrojan_def Let_def split: option.splits if_splits)

lemma readHeader_dial:
  assumes "length (tr_pass s) = 56" "ParseAddr_socks addr = Some a"
    "rd c = dial_header s network addr @ rest"
  shows "readHeader s c =
    (Inr (if network = ''udp'' then CmdUDPAssociate else CmdConnect, a), c\<lparr>rd := rest\<rparr>)"
proof -
  let ?cmd = "if network = ''udp'' then CmdUDPAssociate else CmdConnect"
  let ?h = "tr_pass s @ crlf_bytes @ [?cmd]"
  have h: "read_full 59 c = (Inr ?h, c\<lparr>rd := a @ crlf_bytes @ rest\<rparr>)"
    by (rule read_full_ok) (use assms in \<open>simp_all add: dial_header_def crlf_bytes_def\<close>)
  have n: "?h ! 58 = ?cmd" using assms(1) by (simp add: nth_append crlf_bytes_def)
  have "ReadAddr (c\<lparr>rd := a @ crlf_bytes @ rest\<rparr>) = (Inr a, c\<lparr>rd := crlf_bytes @ rest\<rparr>)"
    using saddr.dec_enc [OF ParseAddr_socks_wf [OF assms(2)], of "c\<lparr>rd := a @ crlf_bytes @ rest\<rparr>"] by simp
  moreover have "read_full 2 (c\<lparr>rd := crlf_bytes @ rest\<rparr>) = (Inr crlf_bytes, c\<lparr>rd := rest\<rparr>)"
    by (subst read_full_ok [of _ crlf_bytes rest]) (simp_all add: crlf_bytes_def)
  ultimately show ?thesis
    using h n assms(1) by (simp add: readHeader_def Let_def io_ret_def)
qed

lemma consumes_read_tail: "consumes (read_tail h n)"
proof -
  have "read_tail h n = io_bind (read_full n) (\<lambda>b. io_ret (h @ b))"
    by (rule ext) (simp add: read_tail_def io_bind_def io_ret_def split: prod.splits sum.splits)
  then show ?thesis by (auto intro: consumes_ret)
qed

lemma consumes_ReadAddr [intro]: "consumes ReadAddr"
proof -
  have eq: "ReadAddr = io_bind (read_full 1) (\<lambda>t.
      if t ! 0 = ATypDomain then io_bind (read_full 1) (\<lambda>l. read_tail (t @ l) (unat (l ! 0) + 2))
      else if t ! 0 = ATypIP4 then read_tail t (4 + 2)
      else if t ! 0 = ATypIP6 then read_tail t (16 + 2)
      else io_fail (ErrMsg (socks_Errors ! 8)))"
    by (rule ext) (simp add: ReadAddr_def io_bind_def io_fail_def split: prod.splits sum.splits)
  show ?thesis
    unfolding eq by (intro consumes_bind) (auto intro: consumes_read_tail)
qed

lemma consumes_readHeader: "consumes (readHeader s)"
  unfolding readHeader_def Let_def by (intro consumes_bind) auto

text \<open>A header that is accepted begins with the password hash.\<close>

lemma readHeader_password:
  assumes "readHeader s c = (Inr ct, c')"
  shows "take 56 (rd c) = tr_pass s"
proof -
  obtain buf c1 where b: "read_full 59 c = (Inr buf, c1)" "take 56 buf = tr_pass s"
    using assms unfolding readHeader_def
    by (elim io_bind_InrE) (auto simp: io_fail_def split: if_splits)
  then have "rd c = buf @ rd c1" "length buf = 59" using read_full_InrD by blast+
  with b(2) show ?thesis by simp
qed

text \<open>
  A server with the password of the client reads the command and the target the client
  dialed with and leaves the client's data for the relay: the handler dials exactly this target.
\<close>

lemma trojan_client_served:
  assumes "length (tr_pass cl) = 56" "tr_pass srv = tr_pass cl"
    and "ParseAddr_socks addr = Some a" "socks_String a = Inr target"
    and "dial cl True network addr (Some (open_conn [])) = (None, Some rc)"
    and "network = ''udp'' \<longrightarrow> dialer_addr target \<noteq> ''DIRECT''"
    and "dials (if network = ''udp'' then ''udp'' else ''tcp'') target"
  shows "trojan_Serve srv True dialer_addr dials writes None (open_conn (wr rc @ payload)) =
    ([TrDial (if network = ''udp'' then ''udp'' else ''tcp'') target, TrRelay], open_conn payload)"
proof -
  have w: "wr rc = dial_header cl network addr" using assms(5) by (auto simp: dial_def)
  have d: "dial_header cl network addr = dial_header srv network addr"
    using assms(2) by (simp add: dial_header_def)
  have "readHeader srv (open_conn (wr rc @ payload)) =
      (Inr (if network = ''udp'' then CmdUDPAssociate else CmdConnect, a),
       (open_conn (wr rc @ payload))\<lparr>rd := payload\<rparr>)"
    by (rule readHeader_dial) (use assms w d in simp_all)
  then show ?thesis
    using assms(4,6,7)
    by (auto simp: trojan_Serve_def Let_def open_conn_def CmdConnect_def CmdUDPAssociate_def)
qed

lemma trojan_client_served_witness:
  "let s = \<lparr>tr_addr = ''h:443'', tr_pass = replicate 56 7, tr_withTLS = False, tr_serverName = ''h'',
         tr_skipVerify = False, tr_certFile = [], tr_keyFile = [], tr_fallback = ''127.0.0.1:80''\<rparr>;
       rc = the (snd (dial s True ''tcp'' ''1.2.3.4:80'' (Some (open_conn []))))
   in trojan_Serve s True (\<lambda>_. ''d'') (\<lambda>_ _. True) True None (open_conn (wr rc @ [1, 2])) =
        ([TrDial ''tcp'' ''1.2.3.4:80'', TrRelay], open_conn [1, 2])"
proof -
  let ?s = "\<lparr>tr_addr = ''h:443'', tr_pass = replicate 56 7, tr_withTLS = False, tr_serverName = ''h'',
         tr_skipVerify = False, tr_certFile = [], tr_keyFile = [], tr_fallback = ''127.0.0.1:80''\<rparr>"
  let ?rc = "(open_conn [])\<lparr>wr := dial_header ?s ''tcp'' ''1.2.3.4:80''\<rparr>"
  note a = example_addr(1) and b = example_addr(2)
  have d: "dial ?s True ''tcp'' ''1.2.3.4:80'' (Some (open_conn [])) = (None, Some ?rc)"
    by (simp add: dial_def)
  show ?thesis
    using trojan_client_served [of ?s ?s "''1.2.3.4:80''" _ _ "''tcp''" ?rc "\<lambda>_. ''d''" "\<lambda>_ _. True" True "[1, 2]",
        OF _ _ a b d] d by (simp add: Let_def)
qed



section \<open>Datagrams\<close>

text \<open>A datagram that the peer can take: its target resolves to itself, its length fits the field
  of 16 bits and the buffer.\<close>

definition valid_pkt :: "(string \<Rightarrow> string option) \<Rightarrow> nat \<Rightarrow> string \<times> bytes \<Rightarrow> bool" where
  "valid_pkt resolve blen m =
     (case ParseAddr_socks (fst m) of
        None \<Rightarrow> False
      | Some a \<Rightarrow>
          (case socks_String a of
             Inl _ \<Rightarrow> False
           | Inr t \<Rightarrow> resolve t = Some (fst m)) \<and>
          2 \<le> blen \<and> length (snd m) \<le> blen \<and> length (snd m) < 65536)"

definition pkt_enc :: "string \<times> bytes \<Rightarrow> bytes" where
  "pkt_enc m = wr (snd (pkt_WriteTo None (snd m) (Some (fst m)) (open_conn [])))"

lemma pkt_WriteTo_open:
  "ParseAddr_socks t = Some a \<Longrightarrow> wleft c = None \<Longrightarrow>
   pkt_WriteTo pc b (Some t) c = ((length b, None), c\<lparr>wr := wr c @ pkt_bytes a b\<rparr>)"
  by (simp add: pkt_WriteTo_def pkt_bytes_def crlf_bytes_def Let_def)

lemma pkt_ReadFrom_enc:
  assumes "valid_pkt resolve blen m" "rd c = pkt_enc m @ rest"
  shows "pkt_ReadFrom resolve blen c = (Inr m, c\<lparr>rd := rest\<rparr>)"
proof -
  obtain t b where m: "m = (t, b)" by (cases m)
  obtain a u where a: "ParseAddr_socks t = Some a" "socks_String a = Inr u" "resolve u = Some t"
    "2 \<le> blen" "length b \<le> blen" "length b < 65536"
    using assms(1) m by (auto simp: valid_pkt_def split: option.splits sum.splits)
  let ?l = "put16 (of_nat (length b))"
  let ?c = "\<lambda>r. c\<lparr>rd := r\<rparr>"
  have "rd c = a @ ?l @ crlf_bytes @ b @ rest"
    using assms(2) a(1) m by (simp add: pkt_enc_def pkt_WriteTo_open pkt_bytes_def)
  then have "ReadAddr c = (Inr a, ?c (?l @ crlf_bytes @ b @ rest))"
    using saddr.dec_enc [OF ParseAddr_socks_wf [OF a(1)], of c] by simp
  moreover have "read_full 2 (?c (?l @ crlf_bytes @ b @ rest)) = (Inr ?l, ?c (crlf_bytes @ b @ rest))"
    by (subst read_full_ok [of _ ?l]) simp_all
  moreover have "read_full 2 (?c (crlf_bytes @ b @ rest)) = (Inr crlf_bytes, ?c (b @ rest))"
    by (subst read_full_ok [of _ crlf_bytes]) (simp_all add: crlf_bytes_def)
  moreover have "unat (the (get16 ?l)) = length b"
    using get16_put16 [of "of_nat (length b)" "[]"] a(6) by simp
  ultimately show ?thesis
    using a m by (simp add: pkt_ReadFrom_def Let_def io_ret_def)
qed

interpretation tpkt: prefix_codec "valid_pkt resolve blen" pkt_enc "pkt_ReadFrom resolve blen"
  for resolve blen
  by unfold_locales (rule pkt_ReadFrom_enc)

text \<open>The writes of a list of datagrams on one stream.\<close>

fun pkt_writes :: "(string \<times> bytes) list \<Rightarrow> conn \<Rightarrow> conn" where
  "pkt_writes [] c = c"
| "pkt_writes (m # ms) c = pkt_writes ms (snd (pkt_WriteTo None (snd m) (Some (fst m)) c))"

lemma pkt_writes_bytes:
  "list_all (valid_pkt resolve blen) ms \<Longrightarrow> wleft c = None \<Longrightarrow>
   wr (pkt_writes ms c) = wr c @ concat (map pkt_enc ms)"
  by (induction ms arbitrary: c)
    (auto simp: valid_pkt_def pkt_enc_def pkt_WriteTo_open split: option.splits)

text \<open>
  Datagrams written one after the other on the stream are read back as the same
  sequence of datagrams, each with its target and payload, and nothing behind them is consumed.
\<close>

lemma trojan_datagrams_roundtrip:
  assumes "list_all (valid_pkt resolve blen) ms"
    and "rd c = wr (pkt_writes ms (open_conn [])) @ rest"
  shows "read_many (pkt_ReadFrom resolve blen) (length ms) c = (Inr ms, c\<lparr>rd := rest\<rparr>)"
  by (rule tpkt.read_many_concat [OF assms(1)]) (simp add: assms(2) pkt_writes_bytes [OF assms(1)])

lemma trojan_datagrams_roundtrip_witness:
  "let ms = [(''1.2.3.4:80'', [1, 2]), (''1.2.3.4:80'', [])] in
   read_many (pkt_ReadFrom Some 1500) (length ms) (open_conn (wr (pkt_writes ms (open_conn [])) @ [9]))
   = (Inr ms, (open_conn (wr (pkt_writes ms (open_conn [])) @ [9]))\<lparr>rd := [9]\<rparr>)"
proof -
  have v: "list_all (valid_pkt Some 1500) [(''1.2.3.4:80'', [1, 2]), (''1.2.3.4:80'', [])]"
    using example_addr by (simp add: valid_pkt_def)
  show ?thesis unfolding Let_def by (rule trojan_datagrams_roundtrip [OF v]) simp
qed

end
