(* ===== verification/Buffer_Pool.thy ===== *)
theory Buffer_Pool
  imports Go_Prelude "HOL-Library.Multiset"
begin

text \<open>
  The pool of byte buffers (\<open>pkg/pool/buffer.go\<close>): one \<open>sync.Pool\<close> of raw pointers for each power of two up
  to 65536.  \<open>GetBuffer\<close> turns a pointer into a slice with \<open>unsafe.Slice\<close>, so that memory safety rests on
  what \<open>PutBuffer\<close> admits: the invariant is that a pointer in pool \<open>i\<close> has \<open>2^i\<close> bytes of its own behind it.

  Memory is a list of allocated blocks, given by their sizes; a pointer is a block with an offset.
\<close>

section \<open>Model\<close>

definition num :: nat where
  "num = 17"

definition maxsize :: nat where
  "maxsize = 2 ^ (num - 1)"

record slice =
  s_block :: nat
  s_off :: nat
  s_len :: nat
  s_cap :: nat

record pool_mem =
  blocks :: "nat list"
  pools :: "nat \<Rightarrow> (nat \<times> nat) list"

definition init_mem :: pool_mem where
  "init_mem = \<lparr>blocks = [], pools = (\<lambda>_. [])\<rparr>"

text \<open>\<open>bits.Len32\<close>.\<close>

fun bits_len :: "nat \<Rightarrow> nat" where
  "bits_len n = (if n = 0 then 0 else Suc (bits_len (n div 2)))"

declare bits_len.simps [simp del]

definition make_slice :: "nat \<Rightarrow> nat \<Rightarrow> pool_mem \<Rightarrow> slice \<times> pool_mem" where
  "make_slice len cap m =
     (\<lparr>s_block = length (blocks m), s_off = 0, s_len = len, s_cap = cap\<rparr>, m\<lparr>blocks := blocks m @ [cap]\<rparr>)"

text \<open>\<open>sync.Pool\<close> hands out any pointer it holds, or a new one even when it holds some: \<open>pick\<close> says which
  (an index out of range is a new one).\<close>

definition GetBuffer :: "nat \<Rightarrow> int \<Rightarrow> pool_mem \<Rightarrow> slice result \<times> pool_mem" where
  "GetBuffer pick sz m =
     (if 1 \<le> sz \<and> sz \<le> int maxsize then
        let n = nat sz; i = bits_len (n - 1); ps = pools m i in
        if pick < length ps then
          (Inr \<lparr>s_block = fst (ps ! pick), s_off = snd (ps ! pick), s_len = n, s_cap = 2 ^ i\<rparr>,
           m\<lparr>pools := (pools m)(i := take pick ps @ drop (Suc pick) ps)\<rparr>)
        else (case make_slice n (2 ^ i) m of (s, m') \<Rightarrow> (Inr s, m'))
      else if sz < 0 then (Inl (Panic ''makeslice: len out of range''), m)
      else (case make_slice (nat sz) (nat sz) m of (s, m') \<Rightarrow> (Inr s, m')))"

definition sizes :: "nat \<Rightarrow> nat" where
  "sizes i = 2 ^ i"

definition PutBuffer :: "slice \<Rightarrow> pool_mem \<Rightarrow> pool_mem" where
  "PutBuffer buf m =
     (let sz = s_cap buf in
      if 1 \<le> sz \<and> sz \<le> maxsize then
        let i = bits_len (sz - 1) in
        if sizes i = sz then m\<lparr>pools := (pools m)(i := (s_block buf, s_off buf) # pools m i)\<rparr> else m
      else m)"

section \<open>Sizes\<close>

lemma bits_len_bound: "n < 2 ^ bits_len n"
proof (induction n rule: bits_len.induct)
  case (1 n)
  show ?case
  proof (cases "n = 0")
    case False
    then have "n < 2 * 2 ^ bits_len (n div 2)" using "1.IH" by linarith
    then show ?thesis using False by (simp add: bits_len.simps [of n])
  qed simp
qed

lemma bits_len_le: "n < 2 ^ k \<Longrightarrow> bits_len n \<le> k"
proof (induction n arbitrary: k rule: bits_len.induct)
  case (1 n)
  show ?case
  proof (cases "n = 0")
    case False
    then obtain k' where k: "k = Suc k'" using "1.prems" by (cases k) auto
    then have "n div 2 < 2 ^ k'" using "1.prems" by auto
    then show ?thesis using "1.IH" [OF False] False k by (simp add: bits_len.simps [of n])
  qed (simp add: bits_len.simps)
qed

text \<open>The chosen size is the least power of two that suffices.\<close>

lemma bits_len_least:
  assumes "0 < n"
  shows "n \<le> 2 ^ bits_len (n - 1)" "n \<le> 2 ^ k \<Longrightarrow> bits_len (n - 1) \<le> k"
  using assms bits_len_bound [of "n - 1"] bits_len_le [of "n - 1" k] by simp_all

section \<open>Ownership\<close>

text \<open>The users of the pool, as steps: they get buffers, cut those they hold shorter at either end and put
  them back, after which they no longer hold them.\<close>

definition take_slice :: "nat \<Rightarrow> slice \<Rightarrow> slice" where
  "take_slice n s = s\<lparr>s_len := n\<rparr>"

definition drop_slice :: "nat \<Rightarrow> slice \<Rightarrow> slice" where
  "drop_slice n s = s\<lparr>s_off := s_off s + n, s_len := s_len s - n, s_cap := s_cap s - n\<rparr>"

inductive pool_step :: "pool_mem \<times> slice list \<Rightarrow> pool_mem \<times> slice list \<Rightarrow> bool" where
  get: "GetBuffer pick sz m = (Inr s, m') \<Longrightarrow> pool_step (m, hs) (m', s # hs)"
| take: "n \<le> s_cap s \<Longrightarrow> pool_step (m, xs @ s # ys) (m, xs @ take_slice n s # ys)"
| drop: "n \<le> s_len s \<Longrightarrow> pool_step (m, xs @ s # ys) (m, xs @ drop_slice n s # ys)"
| put: "pool_step (m, xs @ s # ys) (PutBuffer s m, xs @ ys)"
| forget: "pool_step (m, xs @ s # ys) (m, xs @ ys)"

inductive_cases pool_stepE: "pool_step s t"

abbreviation pool_reachable :: "pool_mem \<Rightarrow> slice list \<Rightarrow> bool" where
  "pool_reachable m hs \<equiv> pool_step\<^sup>*\<^sup>* (init_mem, []) (m, hs)"

text \<open>A region is a block with a range of offsets.\<close>

type_synonym region = "nat \<times> nat \<times> nat"

definition region_of :: "slice \<Rightarrow> region" where
  "region_of s = (s_block s, s_off s, s_off s + s_cap s)"

fun apart :: "region \<Rightarrow> region \<Rightarrow> bool" where
  "apart (b, l, h) (b', l', h') = (b \<noteq> b' \<or> h \<le> l' \<or> h' \<le> l)"

fun inside :: "nat list \<Rightarrow> region \<Rightarrow> bool" where
  "inside bs (b, l, h) = (b < length bs \<and> l \<le> h \<and> h \<le> bs ! b)"

definition pool_region :: "nat \<Rightarrow> nat \<times> nat \<Rightarrow> region" where
  "pool_region i p = (fst p, snd p, snd p + 2 ^ i)"

definition pooled :: "(nat \<Rightarrow> (nat \<times> nat) list) \<Rightarrow> region multiset" where
  "pooled ps = (\<Sum>i\<in>{..<num}. image_mset (pool_region i) (mset (ps i)))"

definition regions :: "pool_mem \<Rightarrow> slice list \<Rightarrow> region multiset" where
  "regions m hs = image_mset region_of (mset hs) + pooled (pools m)"

definition apart_all :: "region multiset \<Rightarrow> bool" where
  "apart_all M = (\<forall>r\<in>#M. \<forall>r'\<in>#M - {#r#}. apart r r')"

definition pool_inv :: "pool_mem \<times> slice list \<Rightarrow> bool" where
  "pool_inv s =
     (case s of (m, hs) \<Rightarrow>
        apart_all (regions m hs) \<and> (\<forall>r\<in>#regions m hs. inside (blocks m) r) \<and>
        (\<forall>h\<in>set hs. s_len h \<le> s_cap h))"

lemma apart_sym: "apart r r' \<longleftrightarrow> apart r' r"
  by (cases r; cases r') auto

lemma apart_all_add: "apart_all (add_mset r M) \<longleftrightarrow> (\<forall>r'\<in>#M. apart r r') \<and> apart_all M"
proof
  assume a: "apart_all (add_mset r M)"
  have "apart x y" if "x \<in># M" "y \<in># M - {#x#}" for x y
  proof -
    have "y \<in># add_mset r M - {#x#}" using that by (cases "x = r") (auto dest: in_diffD)
    with a that(1) show ?thesis by (auto simp: apart_all_def)
  qed
  with a show "(\<forall>r'\<in>#M. apart r r') \<and> apart_all M" by (auto simp: apart_all_def)
next
  assume a: "(\<forall>r'\<in>#M. apart r r') \<and> apart_all M"
  have "apart x y" if x: "x \<in># add_mset r M" and y: "y \<in># add_mset r M - {#x#}" for x y
  proof (cases "x = r")
    case True
    with y a show ?thesis by simp
  next
    case False
    with x y have "x \<in># M" "y = r \<or> y \<in># M - {#x#}" by auto
    with a show ?thesis by (auto simp: apart_all_def apart_sym)
  qed
  then show "apart_all (add_mset r M)" by (auto simp: apart_all_def)
qed

lemma pooled_upd:
  assumes "i < num"
  shows "pooled (ps(i := qs)) + image_mset (pool_region i) (mset (ps i)) =
    pooled ps + image_mset (pool_region i) (mset qs)"
proof -
  have split: "pooled f = image_mset (pool_region i) (mset (f i)) +
      (\<Sum>j\<in>{..<num} - {i}. image_mset (pool_region j) (mset (f j)))" for f
    unfolding pooled_def using assms by (subst sum.remove [of _ i]) auto
  have "(\<Sum>j\<in>{..<num} - {i}. image_mset (pool_region j) (mset ((ps(i := qs)) j))) =
      (\<Sum>j\<in>{..<num} - {i}. image_mset (pool_region j) (mset (ps j)))"
    by (rule sum.cong) auto
  then show ?thesis using split [of ps] split [of "ps(i := qs)"] by simp
qed

lemma regions_middle:
  "regions m (xs @ s # ys) = add_mset (region_of s) (regions m (xs @ ys))"
  by (simp add: regions_def)

lemma inv_middle:
  "pool_inv (m, xs @ s # ys) \<longleftrightarrow>
     pool_inv (m, xs @ ys) \<and> (\<forall>r\<in>#regions m (xs @ ys). apart (region_of s) r) \<and>
     inside (blocks m) (region_of s) \<and> s_len s \<le> s_cap s"
  by (auto simp: pool_inv_def regions_middle apart_all_add)

lemma mset_pick:
  assumes "k < length ps"
  shows "mset ps = add_mset (ps ! k) (mset (take k ps @ drop (Suc k) ps))"
proof -
  have "mset ps = mset (take k ps @ ps ! k # drop (Suc k) ps)" using id_take_nth_drop [OF assms] by simp
  then show ?thesis by simp
qed

lemma size_class:
  assumes "1 \<le> n" "n \<le> maxsize"
  shows "bits_len (n - 1) < num" "n \<le> 2 ^ bits_len (n - 1)"
  using assms bits_len_least(1) [of n] bits_len_least(2) [of n 16] by (simp_all add: maxsize_def num_def)

text \<open>A pointer taken from a pool was counted there already.\<close>

lemma pooled_pick:
  assumes "i < num" "k < length (ps i)"
  shows "pooled ps = add_mset (pool_region i (ps i ! k)) (pooled (ps(i := take k (ps i) @ drop (Suc k) (ps i))))"
  using pooled_upd [OF assms(1), of ps "take k (ps i) @ drop (Suc k) (ps i)"] mset_pick [OF assms(2)] by simp

lemma make_slice_inv:
  assumes "pool_inv (m, hs)" "make_slice len cap m = (s, m')" "len \<le> cap"
  shows "pool_inv (m', s # hs)"
proof -
  have s: "region_of s = (length (blocks m), 0, cap)" "s_len s = len" "s_cap s = cap"
    and m': "regions m' hs = regions m hs" "blocks m' = blocks m @ [cap]"
    using assms(2) by (auto simp: make_slice_def region_of_def regions_def)
  have old: "b < length (blocks m) \<and> inside (blocks m') (b, l, h)" if "(b, l, h) \<in># regions m hs" for b l h
    using that assms(1) m'(2) by (auto simp: pool_inv_def nth_append)
  then have "\<forall>r\<in>#regions m' hs. apart (region_of s) r" "\<forall>r\<in>#regions m' hs. inside (blocks m') r"
    using m'(1) s(1) by fastforce+
  then show ?thesis
    using inv_middle [of m' "[]" s hs] assms(1,3) s m' by (auto simp: pool_inv_def)
qed

lemma GetBuffer_inv:
  assumes "pool_inv (m, hs)" "GetBuffer pick sz m = (Inr s, m')"
  shows "pool_inv (m', s # hs) \<and> int (s_len s) = sz"
proof (cases "1 \<le> sz \<and> sz \<le> int maxsize \<and> pick < length (pools m (bits_len (nat sz - 1)))")
  case True
  let ?i = "bits_len (nat sz - 1)"
  let ?p = "pools m ?i ! pick"
  have n: "1 \<le> nat sz" "nat sz \<le> maxsize" using True by auto
  have s: "region_of s = pool_region ?i ?p" "s_len s = nat sz" "s_cap s = 2 ^ ?i"
    and m': "blocks m' = blocks m" "pools m' = (pools m)(?i := take pick (pools m ?i) @ drop (Suc pick) (pools m ?i))"
    using assms(2) True by (auto simp: GetBuffer_def Let_def region_of_def pool_region_def)
  have "regions m hs = regions m' (s # hs)"
    using pooled_pick [OF size_class(1) [OF n], of pick "pools m"] True by (simp add: regions_def s(1) m'(2))
  then show ?thesis
    using assms(1) True s size_class(2) [OF n] by (auto simp: pool_inv_def m'(1))
next
  case False
  have "\<exists>cap. make_slice (nat sz) cap m = (s, m') \<and> nat sz \<le> cap \<and> 0 \<le> sz"
    using assms(2) False size_class(2) [of "nat sz"]
    by (auto simp: GetBuffer_def Let_def split: if_splits prod.splits)
  then obtain cap where mk: "make_slice (nat sz) cap m = (s, m')" "nat sz \<le> cap" "0 \<le> sz" by blast
  then have "s_len s = nat sz" by (auto simp: make_slice_def)
  then show ?thesis using make_slice_inv [OF assms(1) mk(1,2)] mk(3) by simp
qed

lemma PutBuffer_inv:
  assumes "pool_inv (m, xs @ s # ys)"
  shows "pool_inv (PutBuffer s m, xs @ ys)"
proof (cases "1 \<le> s_cap s \<and> s_cap s \<le> maxsize \<and> sizes (bits_len (s_cap s - 1)) = s_cap s")
  case True
  let ?i = "bits_len (s_cap s - 1)"
  have put: "PutBuffer s m = m\<lparr>pools := (pools m)(?i := (s_block s, s_off s) # pools m ?i)\<rparr>"
    using True by (simp add: PutBuffer_def Let_def)
  have r: "pool_region ?i (s_block s, s_off s) = region_of s"
    using True by (simp add: pool_region_def region_of_def sizes_def)
  have "pooled (pools (PutBuffer s m)) = add_mset (region_of s) (pooled (pools m))"
    using pooled_upd [OF size_class(1), of "s_cap s" "pools m" "(s_block s, s_off s) # pools m ?i"] True put r by simp
  then have "regions (PutBuffer s m) (xs @ ys) = regions m (xs @ s # ys)" by (simp add: regions_def)
  then show ?thesis using assms put by (auto simp: pool_inv_def)
next
  case False
  then have "PutBuffer s m = m" by (auto simp: PutBuffer_def Let_def)
  then show ?thesis using assms by (simp add: inv_middle)
qed

lemma drop_region:
  assumes "n \<le> s_len s" "s_len s \<le> s_cap s"
  shows "apart (region_of s) r \<Longrightarrow> apart (region_of (drop_slice n s)) r"
    "inside bs (region_of s) \<Longrightarrow> inside bs (region_of (drop_slice n s))"
  using assms by (cases r; auto simp: region_of_def drop_slice_def)+

lemma pool_step_inv: "pool_step s t \<Longrightarrow> pool_inv s \<Longrightarrow> pool_inv t"
proof (induction rule: pool_step.induct)
  case (get pick sz m s m' hs)
  then show ?case using GetBuffer_inv by blast
next
  case (take n s m xs ys)
  have "region_of (take_slice n s) = region_of s" by (simp add: region_of_def take_slice_def)
  with take show ?case by (simp add: inv_middle) (simp add: take_slice_def)
next
  case (drop n s m xs ys)
  then show ?case using drop_region [of n s] by (simp add: inv_middle) (auto simp: drop_slice_def)
next
  case (put m xs s ys)
  then show ?case by (rule PutBuffer_inv)
next
  case (forget m xs s ys)
  then show ?case by (simp add: inv_middle)
qed

lemma pool_reachable_inv: "pool_reachable m hs \<Longrightarrow> pool_inv (m, hs)"
proof (induction "(m, hs)" arbitrary: m hs rule: rtranclp_induct)
  case base
  then show ?case by (simp add: pool_inv_def init_mem_def regions_def pooled_def apart_all_def)
next
  case (step y)
  then show ?case by (cases y) (blast intro: pool_step_inv)
qed

text \<open>
  Property C26. Memory safety of the pool: whatever sequence of calls its users make, as long as no one uses a
  buffer after putting it back, every buffer a user holds lies within memory allocated for it, two users never
  hold overlapping memory, and \<open>GetBuffer\<close> returns a slice of the length asked for.
\<close>

theorem pool_buffers_exclusive:
  assumes "pool_reachable m hs"
  shows "(\<forall>h\<in>set hs. s_len h \<le> s_cap h \<and> inside (blocks m) (region_of h)) \<and>
    (\<forall>xs s ys t. hs = xs @ s # ys \<longrightarrow> t \<in> set ys \<longrightarrow> apart (region_of s) (region_of t)) \<and>
    (\<forall>pick sz s m'. GetBuffer pick sz m = (Inr s, m') \<longrightarrow> int (s_len s) = sz)"
proof (intro conjI allI impI)
  note inv = pool_reachable_inv [OF assms]
  show "\<forall>h\<in>set hs. s_len h \<le> s_cap h \<and> inside (blocks m) (region_of h)"
    using inv by (auto simp: pool_inv_def regions_def)
  show "apart (region_of s) (region_of t)" if "hs = xs @ s # ys" "t \<in> set ys" for xs s ys t
    using inv that by (auto simp: inv_middle regions_def)
  show "int (s_len s) = sz" if "GetBuffer pick sz m = (Inr s, m')" for pick sz s m'
    using GetBuffer_inv [OF inv that] by simp
qed

theorem pool_buffers_exclusive_witness:
  "\<exists>m s t. pool_reachable m [s, t] \<and> s_len s = 1500 \<and> s_cap s = 2048 \<and> s_len t = 2000 \<and>
     apart (region_of s) (region_of t)"
proof -
  have b: "bits_len 1499 = 11" "bits_len 1999 = 11" by code_simp+
  let ?t = "\<lparr>s_block = 0, s_off = 0, s_len = 2000, s_cap = 2048\<rparr>"
  let ?s = "\<lparr>s_block = 1, s_off = 0, s_len = 1500, s_cap = 2048\<rparr>"
  let ?m = "\<lparr>blocks = [2048], pools = \<lambda>_. []\<rparr>"
  let ?m2 = "\<lparr>blocks = [2048, 2048], pools = \<lambda>_. []\<rparr>"
  have "pool_step (init_mem, []) (?m, [?t])"
    by (rule pool_step.get [where pick = 0 and sz = 2000])
      (simp add: GetBuffer_def Let_def maxsize_def num_def b make_slice_def init_mem_def)
  moreover have "pool_step (?m, [?t]) (?m2, [?s, ?t])"
    by (rule pool_step.get [where pick = 0 and sz = 1500])
      (simp add: GetBuffer_def Let_def maxsize_def num_def b make_slice_def)
  ultimately have r: "pool_reachable ?m2 [?s, ?t]" by (simp add: rtranclp.rtrancl_into_rtrancl)
  have "apart (region_of ?s) (region_of ?t)"
    using pool_buffers_exclusive [OF r] by (metis append_Nil list.set_intros(1))
  with r show ?thesis by (intro exI [of _ ?m2] exI [of _ ?s] exI [of _ ?t]) simp
qed

end
