(* ===== verification/Shadow_Aead.thy ===== *)
theory Shadow_Aead
  imports Pipe Buffer_Pool
begin

text \<open>
  The sealed streams and packets of Shadowsocks (\<open>proxy/ss/cipher/shadowaead\<close>).  A stream begins with
  a salt, from which both sides derive the AEAD cipher, and then consists of chunks: the sealed length
  and the sealed payload, with a nonce that counts up in little-endian order with every seal.

  The AEAD ciphers and their derivation from the salt come from libraries: they are the record \<open>aead\<close>
  and an argument, of which the properties assume that opening inverts sealing and that sealing adds the
  overhead.
\<close>

section \<open>Model\<close>

record aead =
  ad_Seal :: "bytes \<Rightarrow> bytes \<Rightarrow> bytes"
  ad_Open :: "bytes \<Rightarrow> bytes \<Rightarrow> bytes option"
  ad_Overhead :: nat
  ad_NonceSize :: nat

definition lenSize :: nat where
  "lenSize = 2"

definition maxPayload :: nat where
  "maxPayload = 0x3FFF"

definition bufSize :: nat where
  "bufSize = 17 * 2 ^ 10"

text \<open>The capacity of the buffer that \<open>GetBuffer\<close> returns for this size, of which a slice may be re-sliced.\<close>

definition bufCap :: nat where
  "bufCap = 2 ^ bits_len (bufSize - 1)"

lemma bufCap_val: "bufCap = 32768"
proof -
  have "bits_len 17407 = 15" by (simp add: bits_len.simps)
  then show ?thesis by (simp add: bufCap_def bufSize_def)
qed

fun increment :: "bytes \<Rightarrow> bytes" where
  "increment [] = []"
| "increment (b # bs) = (if b + 1 \<noteq> 0 then (b + 1) # bs else (b + 1) # increment bs)"

subsection \<open>Writer\<close>

record aead_writer =
  aw_aead :: aead
  aw_nonce :: bytes

definition newWriter :: "aead \<Rightarrow> aead_writer" where
  "newWriter a = \<lparr>aw_aead = a, aw_nonce = replicate (ad_NonceSize a) 0\<rparr>"

definition seal_chunk :: "aead \<Rightarrow> bytes \<Rightarrow> bytes \<Rightarrow> bytes" where
  "seal_chunk a nonce b =
     ad_Seal a nonce (put16 (of_nat (length b))) @ ad_Seal a (increment nonce) b"

text \<open>The loop of \<open>Write\<close> on what is left of the buffer, with the count so far.\<close>

function write_loop ::
  "aead \<Rightarrow> bytes \<Rightarrow> nat \<Rightarrow> bytes \<Rightarrow> conn \<Rightarrow> (nat \<times> go_error option) \<times> bytes \<times> conn" where
  "write_loop a nonce n p c =
     (if p = [] then ((n, None), nonce, c)
      else
        let nw = min (length p) maxPayload;
            nonce' = increment (increment nonce)
        in case conn_write (seal_chunk a nonce (take nw p)) c of
             (Some e, c') \<Rightarrow> ((n, Some e), nonce', c')
           | (None, c') \<Rightarrow> write_loop a nonce' (n + nw) (drop nw p) c')"
  by pat_completeness auto
termination
  by (relation "measure (\<lambda>(_, _, _, p, _). length p)") (auto simp: maxPayload_def)

declare write_loop.simps [simp del]

definition aead_Write :: "bytes \<Rightarrow> aead_writer \<Rightarrow> conn \<Rightarrow> (nat \<times> go_error option) \<times> aead_writer \<times> conn" where
  "aead_Write p w c =
     (case write_loop (aw_aead w) (aw_nonce w) 0 p c of
        (r, nonce, c') \<Rightarrow> (r, w\<lparr>aw_nonce := nonce\<rparr>, c'))"

subsection \<open>Reader\<close>

record aead_reader =
  ar_aead :: aead
  ar_nonce :: bytes
  ar_buf :: "bytes option"
  ar_offset :: nat

definition newReader :: "aead \<Rightarrow> aead_reader" where
  "newReader a = \<lparr>ar_aead = a, ar_nonce = replicate (ad_NonceSize a) 0, ar_buf = None, ar_offset = 0\<rparr>"

text \<open>\<open>read\<close> into a slice of capacity \<open>cap\<close>: the payload of one chunk.  The length in the chunk is not
  checked against \<open>maxPayload\<close>: one that does not fit the slice is a slice bound out of range.\<close>

definition read_chunk :: "nat \<Rightarrow> aead_reader \<Rightarrow> conn \<Rightarrow> bytes result \<times> aead_reader \<times> conn" where
  "read_chunk cap r c =
     (let a = ar_aead r in
      if cap < lenSize + ad_Overhead a then (Inl (Panic ''slice bounds out of range''), r, c)
      else
        case read_full (lenSize + ad_Overhead a) c of
          (Inl e, c1) \<Rightarrow> (Inl e, r, c1)
        | (Inr enc, c1) \<Rightarrow>
            let r1 = r\<lparr>ar_nonce := increment (ar_nonce r)\<rparr> in
            (case ad_Open a (ar_nonce r) enc of
               None \<Rightarrow> (Inl (ErrMsg ''message authentication failed''), r1, c1)
             | Some l \<Rightarrow>
                 let size = unat (the (get16 l)) in
                 if cap < size + ad_Overhead a then (Inl (Panic ''slice bounds out of range''), r1, c1)
                 else
                   (case read_full (size + ad_Overhead a) c1 of
                      (Inl e, c2) \<Rightarrow> (Inl e, r1, c2)
                    | (Inr enc2, c2) \<Rightarrow>
                        let r2 = r1\<lparr>ar_nonce := increment (ar_nonce r1)\<rparr> in
                        (case ad_Open a (ar_nonce r1) enc2 of
                           None \<Rightarrow> (Inl (ErrMsg ''message authentication failed''), r2, c2)
                         | Some b \<Rightarrow> (Inr b, r2, c2)))))"

text \<open>\<open>Read\<close> into a slice of \<open>n\<close> bytes (and no more capacity).\<close>

definition copy_out :: "nat \<Rightarrow> aead_reader \<Rightarrow> conn \<Rightarrow> (bytes \<times> go_error option) \<times> aead_reader \<times> conn" where
  "copy_out n r c =
     (let buf = the (ar_buf r);
          out = take n (drop (ar_offset r) buf);
          off = ar_offset r + length out
      in ((out, None),
          (if off = length buf then r\<lparr>ar_buf := None, ar_offset := off\<rparr> else r\<lparr>ar_offset := off\<rparr>), c))"

definition aead_Read :: "nat \<Rightarrow> aead_reader \<Rightarrow> conn \<Rightarrow> (bytes \<times> go_error option) \<times> aead_reader \<times> conn" where
  "aead_Read n r c =
     (if ar_buf r = None then
        if n \<ge> maxPayload + ad_Overhead (ar_aead r) then
          (case read_chunk n r c of
             (Inl e, r', c') \<Rightarrow> (([], Some e), r', c')
           | (Inr b, r', c') \<Rightarrow> ((b, None), r', c'))
        else
          (case read_chunk bufCap r c of
             (Inl e, r', c') \<Rightarrow> (([], Some e), r', c')
           | (Inr b, r', c') \<Rightarrow> copy_out n (r'\<lparr>ar_buf := Some b, ar_offset := 0\<rparr>) c')
      else copy_out n r c)"

subsection \<open>Connections\<close>

text \<open>\<open>derive\<close> makes the cipher from a salt of \<open>saltSize\<close> bytes; \<open>None\<close> is its error.\<close>

record aead_conn =
  sc_reader :: "aead_reader option"
  sc_writer :: "aead_writer option"

definition stream_Write ::
  "(bytes \<Rightarrow> aead option) \<Rightarrow> bytes \<Rightarrow> bytes \<Rightarrow> aead_conn \<Rightarrow> conn
    \<Rightarrow> (nat \<times> go_error option) \<times> aead_conn \<times> conn" where
  "stream_Write derive salt p sc c =
     (case sc_writer sc of
        Some w \<Rightarrow>
          (case aead_Write p w c of (r, w', c') \<Rightarrow> (r, sc\<lparr>sc_writer := Some w'\<rparr>, c'))
      | None \<Rightarrow>
          (case derive salt of
             None \<Rightarrow> ((0, Some (ErrMsg ''cipher'')), sc, c)
           | Some a \<Rightarrow>
               (case conn_write salt c of
                  (Some e, c1) \<Rightarrow> ((0, Some e), sc, c1)
                | (None, c1) \<Rightarrow>
                    (case aead_Write p (newWriter a) c1 of
                       (r, w', c') \<Rightarrow> (r, sc\<lparr>sc_writer := Some w'\<rparr>, c')))))"

definition stream_Read ::
  "(bytes \<Rightarrow> aead option) \<Rightarrow> nat \<Rightarrow> nat \<Rightarrow> aead_conn \<Rightarrow> conn
    \<Rightarrow> (bytes \<times> go_error option) \<times> aead_conn \<times> conn" where
  "stream_Read derive saltSize n sc c =
     (case sc_reader sc of
        Some r \<Rightarrow> (case aead_Read n r c of (x, r', c') \<Rightarrow> (x, sc\<lparr>sc_reader := Some r'\<rparr>, c'))
      | None \<Rightarrow>
          (case read_full saltSize c of
             (Inl e, c1) \<Rightarrow> (([], Some e), sc, c1)
           | (Inr salt, c1) \<Rightarrow>
               (case derive salt of
                  None \<Rightarrow> (([], Some (ErrMsg ''cipher'')), sc, c1)
                | Some a \<Rightarrow>
                    (case aead_Read n (newReader a) c1 of
                       (x, r', c') \<Rightarrow> (x, sc\<lparr>sc_reader := Some r'\<rparr>, c')))))"

subsection \<open>Packets\<close>

definition zerononce :: "aead \<Rightarrow> bytes" where
  "zerononce a = replicate (ad_NonceSize a) 0"

text \<open>\<open>Pack\<close> into a buffer of \<open>dlen\<close> bytes with the random salt given.\<close>

definition Pack :: "(bytes \<Rightarrow> aead option) \<Rightarrow> bytes \<Rightarrow> nat \<Rightarrow> bytes \<Rightarrow> bytes result" where
  "Pack derive salt dlen plaintext =
     (if dlen < length salt then Inl (Panic ''slice bounds out of range'')
      else
        case derive salt of
          None \<Rightarrow> Inl (ErrMsg ''cipher'')
        | Some a \<Rightarrow>
            if dlen < length salt + length plaintext + ad_Overhead a then Inl (ErrMsg ''short buffer'')
            else Inr (salt @ ad_Seal a (zerononce a) plaintext))"

definition Unpack :: "(bytes \<Rightarrow> aead option) \<Rightarrow> nat \<Rightarrow> nat \<Rightarrow> bytes \<Rightarrow> bytes result" where
  "Unpack derive saltSize dlen pkt =
     (if length pkt < saltSize then Inl (ErrMsg ''short packet'')
      else
        case derive (take saltSize pkt) of
          None \<Rightarrow> Inl (ErrMsg ''cipher'')
        | Some a \<Rightarrow>
            if length pkt < saltSize + ad_Overhead a then Inl (ErrMsg ''short packet'')
            else if saltSize + dlen + ad_Overhead a < length pkt then Inl (ErrMsg ''short buffer'')
            else
              case ad_Open a (zerononce a) (drop saltSize pkt) of
                None \<Rightarrow> Inl (ErrMsg ''message authentication failed'')
              | Some b \<Rightarrow> Inr b)"

text \<open>\<open>packetConn.ReadFrom\<close> on a datagram that fits the buffer of \<open>blen\<close> bytes: the packet is unpacked
  behind the salt in the same buffer and copied to its front.\<close>

definition packet_ReadFrom :: "(bytes \<Rightarrow> aead option) \<Rightarrow> nat \<Rightarrow> nat \<Rightarrow> bytes \<Rightarrow> bytes result" where
  "packet_ReadFrom derive saltSize blen dgram =
     (if blen < saltSize then Inl (Panic ''slice bounds out of range'')
      else Unpack derive saltSize (blen - saltSize) (take blen dgram))"

text \<open>\<open>packetConn.WriteTo\<close> packs into the connection's own buffer; the datagram is sent as it is.\<close>

definition maxPacketSize :: nat where
  "maxPacketSize = 64 * 1024"

definition packet_WriteTo :: "(bytes \<Rightarrow> aead option) \<Rightarrow> bytes \<Rightarrow> bytes \<Rightarrow> (nat \<times> bytes) result" where
  "packet_WriteTo derive salt b =
     (case Pack derive salt maxPacketSize b of
        Inl e \<Rightarrow> Inl e
      | Inr buf \<Rightarrow> Inr (length b, buf))"

section \<open>Nonces\<close>

fun le_val :: "bytes \<Rightarrow> nat" where
  "le_val [] = 0"
| "le_val (b # bs) = unat b + 256 * le_val bs"

lemma length_increment [simp]: "length (increment b) = length b"
  by (induction b rule: increment.induct) auto

lemma le_val_bound: "le_val b < 256 ^ length b"
proof (induction b)
  case (Cons x xs)
  have "unat x + 256 * le_val xs < 256 * (le_val xs + 1)" using unat_byte_less [of x] by simp
  also have "\<dots> \<le> 256 * 256 ^ length xs" using Cons by simp
  finally show ?case by simp
qed simp

lemma le_val_increment: "le_val (increment b) = (le_val b + 1) mod 256 ^ length b"
proof (induction b rule: increment.induct)
  case (2 b bs)
  have u: "unat (b + 1) = (unat b + 1) mod 256" by (simp add: unat_word_ariths)
  show ?case
  proof (cases "b + 1 = 0")
    case True
    then have "unat b = 255" using u unat_byte_less [of b] by (cases "unat b + 1 = 256") simp_all
    then have "(le_val (b # bs) + 1) mod 256 ^ length (b # bs) = (256 * (le_val bs + 1)) mod (256 * 256 ^ length bs)"
      by simp
    also have "\<dots> = 256 * ((le_val bs + 1) mod 256 ^ length bs)" by (simp only: mult_mod_right)
    finally show ?thesis using True 2 by simp
  next
    case False
    then have "unat (b + 1) \<noteq> 0" by (simp add: unat_eq_0)
    then have v: "unat (b + 1) = unat b + 1" using u unat_byte_less [of b] by (cases "unat b + 1 = 256") simp_all
    with False have "le_val (increment (b # bs)) = le_val (b # bs) + 1" by simp
    moreover have "le_val (increment (b # bs)) < 256 ^ length (b # bs)"
      using le_val_bound [of "increment (b # bs)"] unfolding length_increment .
    ultimately show ?thesis by (simp only: mod_less)
  qed
qed simp

lemma length_nonce [simp]: "length ((increment ^^ k) b) = length b"
  by (induction k) simp_all

lemma le_val_nonce: "le_val ((increment ^^ k) b) = (le_val b + k) mod 256 ^ length b"
proof (induction k)
  case 0
  then show ?case by (simp add: le_val_bound)
next
  case (Suc k)
  have "le_val ((increment ^^ Suc k) b) = ((le_val b + k) mod 256 ^ length b + 1) mod 256 ^ length b"
    by (simp only: funpow.simps o_apply le_val_increment length_nonce Suc)
  also have "\<dots> = (le_val b + Suc k) mod 256 ^ length b"
    by (simp only: mod_add_left_eq add_Suc_right Suc_eq_plus1 add.assoc)
  finally show ?case .
qed

lemma le_val_zero [simp]: "le_val (replicate n 0) = 0"
  by (induction n) simp_all

definition nth_nonce :: "aead \<Rightarrow> nat \<Rightarrow> bytes" where
  "nth_nonce a k = (increment ^^ k) (replicate (ad_NonceSize a) 0)"

lemma nth_nonce_distinct:
  assumes "i < 256 ^ ad_NonceSize a" "j < 256 ^ ad_NonceSize a" "nth_nonce a i = nth_nonce a j"
  shows "i = j"
proof -
  have v: "le_val (nth_nonce a k) = k mod 256 ^ ad_NonceSize a" for k
    by (simp add: nth_nonce_def le_val_nonce)
  have "i = le_val (nth_nonce a i)" using v [of i] assms(1) by (simp only: mod_less)
  also have "\<dots> = j" using v [of j] assms(2,3) by (simp only: mod_less)
  finally show ?thesis .
qed

section \<open>Chunks\<close>

fun seal_chunks :: "aead \<Rightarrow> bytes \<Rightarrow> bytes list \<Rightarrow> bytes" where
  "seal_chunks a nonce [] = []"
| "seal_chunks a nonce (b # bs) = seal_chunk a nonce b @ seal_chunks a (increment (increment nonce)) bs"

function chunks :: "bytes \<Rightarrow> bytes list" where
  "chunks p = (if p = [] then [] else take maxPayload p # chunks (drop maxPayload p))"
  by pat_completeness auto
termination
  by (relation "measure length") (auto simp: maxPayload_def)

declare chunks.simps [simp del]

lemma chunks_Nil [simp]: "chunks [] = []"
  by (simp add: chunks.simps)

lemma concat_chunks [simp]: "concat (chunks p) = p"
proof (induction p rule: chunks.induct)
  case (1 p)
  then show ?case by (subst chunks.simps) simp
qed

lemma chunks_small: "list_all (\<lambda>b. length b \<le> maxPayload) (chunks p)"
proof (induction p rule: chunks.induct)
  case (1 p)
  then show ?case by (subst chunks.simps) simp
qed

abbreviation skip_nonces :: "nat \<Rightarrow> bytes \<Rightarrow> bytes" where
  "skip_nonces n nonce \<equiv> (increment ^^ (2 * n)) nonce"

lemma skip_Suc: "skip_nonces (Suc n) nonce = skip_nonces n (increment (increment nonce))"
  by (simp add: funpow_swap1)

lemma seal_chunks_append:
  "seal_chunks a nonce (xs @ ys) = seal_chunks a nonce xs @ seal_chunks a (skip_nonces (length xs) nonce) ys"
  by (induction xs arbitrary: nonce) (simp_all add: skip_Suc del: funpow.simps mult_Suc_right)

lemma write_loop_open:
  "wleft c = None \<Longrightarrow>
   write_loop a nonce n p c =
     ((n + length p, None), skip_nonces (length (chunks p)) nonce,
      c\<lparr>wr := wr c @ seal_chunks a nonce (chunks p)\<rparr>)"
proof (induction a nonce n p c rule: write_loop.induct)
  case (1 a nonce n p c)
  show ?case
  proof (cases "p = []")
    case True
    then show ?thesis by (simp add: write_loop.simps)
  next
    case False
    let ?nw = "min (length p) maxPayload"
    have t: "take ?nw p = take maxPayload p" "drop ?nw p = drop maxPayload p" by (simp_all add: min_def)
    have ch: "chunks p = take maxPayload p # chunks (drop maxPayload p)" using False by (subst chunks.simps) simp
    have l: "n + ?nw + length (drop maxPayload p) = n + length p" by (simp add: min_def)
    let ?c = "c\<lparr>wr := wr c @ seal_chunk a nonce (take ?nw p)\<rparr>"
    have "write_loop a nonce n p c = write_loop a (increment (increment nonce)) (n + ?nw) (drop ?nw p) ?c"
      using False "1.prems" by (subst write_loop.simps) (simp add: Let_def)
    also have "\<dots> = ((n + ?nw + length (drop ?nw p), None),
        skip_nonces (length (chunks (drop ?nw p))) (increment (increment nonce)),
        ?c\<lparr>wr := wr ?c @ seal_chunks a (increment (increment nonce)) (chunks (drop ?nw p))\<rparr>)"
      by (rule "1.IH" [OF False refl refl _ refl]) (use "1.prems" in simp_all)
    finally show ?thesis unfolding t l ch by (simp only: length_Cons skip_Suc seal_chunks.simps) simp
  qed
qed


lemma aead_Write_open:
  "wleft c = None \<Longrightarrow>
   aead_Write p w c =
     ((length p, None), w\<lparr>aw_nonce := skip_nonces (length (chunks p)) (aw_nonce w)\<rparr>,
      c\<lparr>wr := wr c @ seal_chunks (aw_aead w) (aw_nonce w) (chunks p)\<rparr>)"
  by (simp add: aead_Write_def write_loop_open)

text \<open>A sequence of writes.\<close>

definition aead_writes :: "bytes list \<Rightarrow> aead_writer \<times> conn \<Rightarrow> aead_writer \<times> conn" where
  "aead_writes ps s = fold (\<lambda>p (w, c). snd (aead_Write p w c)) ps s"

definition stream_writes ::
  "(bytes \<Rightarrow> aead option) \<Rightarrow> bytes \<Rightarrow> bytes list \<Rightarrow> aead_conn \<times> conn \<Rightarrow> aead_conn \<times> conn" where
  "stream_writes derive salt ps s = fold (\<lambda>p (sc, c). snd (stream_Write derive salt p sc c)) ps s"

lemma skip_skip: "skip_nonces m (skip_nonces n nonce) = skip_nonces (n + m) nonce"
  by (simp add: distrib_left add.commute flip: funpow_add o_apply [of "increment ^^ _"])

lemma aead_writes_open:
  "wleft c = None \<Longrightarrow>
   aead_writes ps (w, c) =
     (w\<lparr>aw_nonce := skip_nonces (length (concat (map chunks ps))) (aw_nonce w)\<rparr>,
      c\<lparr>wr := wr c @ seal_chunks (aw_aead w) (aw_nonce w) (concat (map chunks ps))\<rparr>)"
proof (induction ps arbitrary: w c)
  case (Cons p ps)
  then show ?case
    by (simp add: aead_writes_def aead_Write_open seal_chunks_append skip_skip)
qed (simp add: aead_writes_def)

lemma stream_writes_running:
  "sc_writer sc = Some w \<Longrightarrow> aead_writes ps (w, c) = (w', c') \<Longrightarrow>
   stream_writes derive salt ps (sc, c) = (sc\<lparr>sc_writer := Some w'\<rparr>, c')"
proof (induction ps arbitrary: sc w c)
  case (Cons p ps)
  obtain x w1 c1 where one: "aead_Write p w c = (x, w1, c1)" by (cases "aead_Write p w c") auto
  have "stream_writes derive salt ps (sc\<lparr>sc_writer := Some w1\<rparr>, c1) = (sc\<lparr>sc_writer := Some w'\<rparr>, c')"
    using Cons.IH [of "sc\<lparr>sc_writer := Some w1\<rparr>" w1 c1] Cons.prems one by (simp add: aead_writes_def)
  then show ?case using Cons.prems(1) one by (simp add: stream_writes_def stream_Write_def)
qed (simp add: aead_writes_def stream_writes_def)

lemma stream_writes_open:
  assumes "wleft c = None" "sc_writer sc = None" "derive salt = Some a" "ps \<noteq> []"
  shows "wr (snd (stream_writes derive salt ps (sc, c))) =
     wr c @ salt @ seal_chunks a (nth_nonce a 0) (concat (map chunks ps))"
proof -
  obtain p qs where ps: "ps = p # qs" using assms(4) by (cases ps) auto
  let ?c = "c\<lparr>wr := wr c @ salt\<rparr>"
  obtain x w1 c1 where one: "aead_Write p (newWriter a) ?c = (x, w1, c1)" by (cases "aead_Write p (newWriter a) ?c") auto
  have "stream_writes derive salt ps (sc, c) = stream_writes derive salt qs (sc\<lparr>sc_writer := Some w1\<rparr>, c1)"
    using assms one by (simp add: ps stream_writes_def stream_Write_def conn_write_def)
  also have "wr (snd \<dots>) = wr (snd (aead_writes qs (w1, c1)))"
    using stream_writes_running [of "sc\<lparr>sc_writer := Some w1\<rparr>" w1 qs c1] by (cases "aead_writes qs (w1, c1)") simp
  also have "aead_writes qs (w1, c1) = aead_writes ps (newWriter a, ?c)" by (simp add: ps aead_writes_def one)
  finally show ?thesis using assms(1) by (simp add: aead_writes_open newWriter_def nth_nonce_def)
qed

section \<open>Reading\<close>

text \<open>What the code relies on of a cipher.  The ciphers of the repository have an overhead of 16 bytes; with
  up to 256 the chunks fit the pooled buffers.\<close>

definition aead_ok :: "aead \<Rightarrow> bool" where
  "aead_ok a =
     (ad_Overhead a \<le> 256 \<and>
      (\<forall>nonce p. length (ad_Seal a nonce p) = length p + ad_Overhead a \<and>
                 ad_Open a nonce (ad_Seal a nonce p) = Some p))"

lemma length_seal [simp]: "aead_ok a \<Longrightarrow> length (ad_Seal a nonce p) = length p + ad_Overhead a"
  by (simp add: aead_ok_def)

lemma open_seal [simp]: "aead_ok a \<Longrightarrow> ad_Open a nonce (ad_Seal a nonce p) = Some p"
  by (simp add: aead_ok_def)

lemma overhead_le: "aead_ok a \<Longrightarrow> ad_Overhead a \<le> 256"
  unfolding aead_ok_def by blast

lemma read_chunk_sealed:
  assumes "aead_ok a" "ar_aead r = a" "rd c = seal_chunk a (ar_nonce r) b @ rest"
    "length b \<le> maxPayload" "maxPayload + ad_Overhead a \<le> cap"
  shows "read_chunk cap r c =
    (Inr b, r\<lparr>ar_nonce := increment (increment (ar_nonce r))\<rparr>, c\<lparr>rd := rest\<rparr>)"
proof -
  have "length b < 2 ^ 16" using assms(4) by (simp add: maxPayload_def)
  then have "unat (of_nat (length b) :: u16) = length b" by (simp add: unat_of_nat)
  moreover have "get16 (put16 (of_nat (length b))) = Some (of_nat (length b))"
    using get16_put16 [of "of_nat (length b)" "[]"] by (simp only: append_Nil2)
  ultimately have len: "unat (the (get16 (put16 (of_nat (length b))))) = length b" by (simp only: option.sel)
  have fst: "read_full (lenSize + ad_Overhead a) c =
      (Inr (ad_Seal a (ar_nonce r) (put16 (of_nat (length b)))),
       c\<lparr>rd := ad_Seal a (increment (ar_nonce r)) b @ rest\<rparr>)"
    using assms(1,3) by (intro read_full_ok) (simp_all add: seal_chunk_def lenSize_def)
  have caps: "\<not> cap < lenSize + ad_Overhead a" "\<not> cap < length b + ad_Overhead a"
    using assms(4,5) by (simp_all add: lenSize_def maxPayload_def)
  show ?thesis
    using assms(1,2) caps by (simp add: read_chunk_def Let_def fst len)
qed

definition aead_rel :: "aead \<Rightarrow> aead_reader \<Rightarrow> conn \<Rightarrow> pipe \<Rightarrow> bool" where
  "aead_rel a r c p =
     (aead_ok a \<and> ar_aead r = a \<and> rd c = seal_chunks a (ar_nonce r) (snd p) \<and>
      list_all (\<lambda>b. length b \<le> maxPayload) (snd p) \<and>
      (case ar_buf r of
         None \<Rightarrow> fst p = []
       | Some buf \<Rightarrow> ar_offset r < length buf \<and> fst p = drop (ar_offset r) buf))"

lemma copy_out_rel:
  assumes "aead_ok a" "ar_aead r = a" "rd c = seal_chunks a (ar_nonce r) ps"
    "list_all (\<lambda>b. length b \<le> maxPayload) ps" "ar_buf r = Some buf" "ar_offset r \<le> length buf"
  shows "\<exists>r'. copy_out n r c = ((take n (drop (ar_offset r) buf), None), r', c) \<and>
    aead_rel a r' c (drop n (drop (ar_offset r) buf), ps)"
  using assms by (auto simp: copy_out_def Let_def aead_rel_def min_def add.commute)

lemma aead_Read_end: "aead_rel a r c ([], []) \<Longrightarrow> \<exists>r' c'. aead_Read n r c = (([], Some EOF), r', c')"
  using overhead_le [of a]
  by (auto simp: aead_rel_def aead_Read_def read_chunk_def read_full_def lenSize_def maxPayload_def bufCap_val
        split: option.splits)

lemma aead_Read_step:
  assumes "aead_rel a r c p" "pipe_read n p = Some (b, p')"
  shows "\<exists>r' c'. aead_Read n r c = ((b, None), r', c') \<and> aead_rel a r' c' p'"
proof (cases "ar_buf r")
  case None
  then obtain b' ps where p: "p = ([], b' # ps)" and b: "b = take n b'" "p' = (drop n b', ps)"
    using assms by (auto simp: aead_rel_def pipe_read_def split: prod.splits list.splits)
  have pre: "aead_ok a" "ar_aead r = a" "rd c = seal_chunk a (ar_nonce r) b' @ seal_chunks a (increment (increment (ar_nonce r))) ps"
    "length b' \<le> maxPayload" "list_all (\<lambda>b. length b \<le> maxPayload) ps"
    using assms(1) by (simp_all add: aead_rel_def p)
  note rc = read_chunk_sealed [OF pre(1-4)]
  show ?thesis
  proof (cases "maxPayload + ad_Overhead a \<le> n")
    case True
    then show ?thesis using pre None rc [OF True] by (simp add: aead_Read_def aead_rel_def b)
  next
    case False
    let ?r = "r\<lparr>ar_nonce := increment (increment (ar_nonce r)), ar_buf := Some b', ar_offset := 0\<rparr>"
    let ?c = "c\<lparr>rd := seal_chunks a (increment (increment (ar_nonce r))) ps\<rparr>"
    have "maxPayload + ad_Overhead a \<le> bufCap"
      using overhead_le [OF pre(1)] by (simp add: maxPayload_def bufCap_val)
    then have "aead_Read n r c = copy_out n ?r ?c" using False pre None rc by (simp add: aead_Read_def)
    then show ?thesis using copy_out_rel [of a ?r ?c ps b' n] pre by (auto simp: b)
  qed
next
  case (Some buf)
  then have "b = take n (drop (ar_offset r) buf)" "p' = (drop n (drop (ar_offset r) buf), snd p)"
    using assms by (auto simp: aead_rel_def pipe_read_def simp del: drop_drop split: prod.splits list.splits)
  then show ?thesis
    using copy_out_rel [of a r c "snd p" buf n] assms(1) Some by (auto simp: aead_Read_def aead_rel_def)
qed

interpretation aer: stream_reader "aead_rel a" aead_Read for a
  by unfold_locales (auto intro: aead_Read_end aead_Read_step)

text \<open>A connection that has not been read yet finds the salt first.\<close>

definition stream_rel :: "(bytes \<Rightarrow> aead option) \<Rightarrow> nat \<Rightarrow> aead_conn \<Rightarrow> conn \<Rightarrow> pipe \<Rightarrow> bool" where
  "stream_rel derive saltSize sc c p =
     (case sc_reader sc of
        Some r \<Rightarrow> \<exists>a. aead_rel a r c p
      | None \<Rightarrow>
          \<exists>salt a rest. length salt = saltSize \<and> derive salt = Some a \<and> rd c = salt @ rest \<and>
            aead_rel a (newReader a) (c\<lparr>rd := rest\<rparr>) p)"

lemma stream_Read_reduces:
  assumes "stream_rel derive saltSize sc c p"
  shows "\<exists>a r c1. aead_rel a r c1 p \<and>
    stream_Read derive saltSize n sc c = (case aead_Read n r c1 of (x, r', c') \<Rightarrow> (x, sc\<lparr>sc_reader := Some r'\<rparr>, c'))"
proof (cases "sc_reader sc")
  case None
  then obtain salt a rest where "length salt = saltSize" "derive salt = Some a" "rd c = salt @ rest"
    "aead_rel a (newReader a) (c\<lparr>rd := rest\<rparr>) p" using assms by (auto simp: stream_rel_def)
  with None show ?thesis
    by (intro exI [of _ a] exI [of _ "newReader a"] exI [of _ "c\<lparr>rd := rest\<rparr>"]) (simp add: stream_Read_def)
next
  case (Some r)
  then show ?thesis using assms by (auto simp: stream_rel_def stream_Read_def)
qed

interpretation ssr: stream_reader "stream_rel derive saltSize" "stream_Read derive saltSize" for derive saltSize
proof
  fix sc c and n :: nat
  assume "stream_rel derive saltSize sc c ([], [])"
  from stream_Read_reduces [OF this, of n] obtain a r c1 where
    rel: "aead_rel a r c1 ([], [])" and
    eq: "stream_Read derive saltSize n sc c = (case aead_Read n r c1 of (x, r', c') \<Rightarrow> (x, sc\<lparr>sc_reader := Some r'\<rparr>, c'))"
    by blast
  from aead_Read_end [OF rel, of n] show "\<exists>r' c'. stream_Read derive saltSize n sc c = (([], Some EOF), r', c')"
    by (auto simp: eq)
next
  fix sc c p b p' and n :: nat
  assume "stream_rel derive saltSize sc c p" and rd: "pipe_read n p = Some (b, p')"
  from stream_Read_reduces [OF this(1), of n] obtain a r c1 where
    rel: "aead_rel a r c1 p" and
    eq: "stream_Read derive saltSize n sc c = (case aead_Read n r c1 of (x, r', c') \<Rightarrow> (x, sc\<lparr>sc_reader := Some r'\<rparr>, c'))"
    by blast
  from aead_Read_step [OF rel rd] obtain r' c' where "aead_Read n r c1 = ((b, None), r', c')" "aead_rel a r' c' p'" by blast
  then show "\<exists>r' c'. stream_Read derive saltSize n sc c = ((b, None), r', c') \<and> stream_rel derive saltSize r' c' p'"
    by (auto simp: eq stream_rel_def)
qed

section \<open>Properties\<close>

lemma length_chunks: "length (chunks p) \<le> length p"
proof (induction p rule: chunks.induct)
  case (1 p)
  show ?case
  proof (cases "p = []")
    case False
    then have "length (chunks p) = Suc (length (chunks (drop maxPayload p)))" by (subst chunks.simps) simp
    also have "\<dots> \<le> Suc (length (drop maxPayload p))" using 1 [OF False] by simp
    also have "\<dots> \<le> length p" using False by (simp add: maxPayload_def Suc_le_eq)
    finally show ?thesis .
  qed simp
qed

lemma length_concat_chunks: "length (concat (map chunks ps)) \<le> length (concat ps)"
  by (induction ps) (use length_chunks in \<open>force simp: add_mono\<close>)+

lemma concat_concat_chunks: "concat (concat (map chunks ps)) = concat ps"
  by (induction ps) simp_all

lemma stream_rel_init:
  assumes "aead_ok a" "derive salt = Some a" "sc_reader sc = None"
    "rd c = salt @ seal_chunks a (nth_nonce a 0) (concat (map chunks ps))"
  shows "stream_rel derive (length salt) sc c ([], concat (map chunks ps))"
  using assms chunks_small
  by (auto simp: stream_rel_def aead_rel_def newReader_def nth_nonce_def list_all_iff)

text \<open>The cipher of the witnesses: it adds the sum of the nonce to every byte and appends it as tag.\<close>

definition demo_aead :: aead where
  "demo_aead =
     \<lparr>ad_Seal = (\<lambda>nonce p. map (\<lambda>b. b + sum_list nonce) p @ [sum_list nonce]),
      ad_Open = (\<lambda>nonce q. if q = [] \<or> last q \<noteq> sum_list nonce then None
                            else Some (map (\<lambda>b. b - sum_list nonce) (butlast q))),
      ad_Overhead = 1, ad_NonceSize = 12\<rparr>"

definition demo_derive :: "bytes \<Rightarrow> aead option" where
  "demo_derive salt = (if length salt = 16 then Some demo_aead else None)"

lemma demo_aead_ok [simp]: "aead_ok demo_aead"
  by (simp add: aead_ok_def demo_aead_def o_def)

text \<open>
  Property C10. What one side writes to a Shadowsocks connection, in any sequence of writes of any length, the
  other side reads: any reads deliver a prefix of it without gaps, end of file comes only after all of it, and
  enough reads deliver it whole, with buffers of any sizes.
\<close>

theorem ss_stream_delivered:
  assumes "aead_ok a" "derive salt = Some a" "ps \<noteq> []" "list_all (\<lambda>n. 0 < n) ns"
    and "wleft c = None" "wr c = []" "sc_writer sc = None" "sc_reader sc' = None"
    and "c' = open_conn (wr (snd (stream_writes derive salt ps (sc, c))))"
    and "reads (stream_Read derive (length salt)) ns sc' c' = ((data, err), sc'', c'')"
  shows "(\<exists>rest. concat ps = data @ rest \<and> (err = None \<or> err = Some EOF \<and> rest = [])) \<and>
    (2 * length (concat ps) \<le> length ns \<longrightarrow> data = concat ps)"
proof -
  have "stream_rel derive (length salt) sc' c' ([], concat (map chunks ps))"
    using assms by (intro stream_rel_init) (simp_all add: stream_writes_open open_conn_def)
  from ssr.reads_deliver [OF this assms(4,10)] show ?thesis
    using length_concat_chunks [of ps]
    by (auto simp: delivers_def pipe_bytes_def pipe_steps_def concat_concat_chunks)
qed

abbreviation idle_conn :: aead_conn where
  "idle_conn \<equiv> \<lparr>sc_reader = None, sc_writer = None\<rparr>"

theorem ss_stream_delivered_witness:
  "\<exists>data err sc c'.
     reads (stream_Read demo_derive 16) [2, 1, 5, 1, 1, 1] idle_conn
       (open_conn (wr (snd (stream_writes demo_derive (replicate 16 7) [[1, 2], [3]] (idle_conn, open_conn [])))))
     = ((data, err), sc, c') \<and> data = [1, 2, 3]"
proof -
  let ?c = "open_conn (wr (snd (stream_writes demo_derive (replicate 16 7) [[1, 2], [3]] (idle_conn, open_conn []))))"
  obtain data err sc c' where r:
    "reads (stream_Read demo_derive (length (replicate 16 (7 :: byte)))) [2, 1, 5, 1, 1, 1] idle_conn ?c = ((data, err), sc, c')"
    by (metis prod.exhaust)
  have "data = concat [[1, 2], [3]]"
    using ss_stream_delivered [of demo_aead demo_derive "replicate 16 7" "[[1, 2], [3]]" "[2, 1, 5, 1, 1, 1]"
        "open_conn []" idle_conn idle_conn ?c data err sc c'] r by (simp add: demo_derive_def open_conn_def)
  with r show ?thesis by simp
qed

text \<open>The pieces that the chunks are sealed from, in the order of the seals.\<close>

definition seal_pieces :: "bytes list \<Rightarrow> bytes list" where
  "seal_pieces bs = concat (map (\<lambda>b. [put16 (of_nat (length b)), b]) bs)"

lemma length_seal_pieces [simp]: "length (seal_pieces bs) = 2 * length bs"
  by (induction bs) (simp_all add: seal_pieces_def)

lemma seal_chunks_pieces:
  "seal_chunks a ((increment ^^ k) z) bs =
     concat (map2 (ad_Seal a) (map (\<lambda>i. (increment ^^ i) z) [k..<k + 2 * length bs]) (seal_pieces bs))"
proof (induction bs arbitrary: k)
  case (Cons b bs)
  have u: "[k..<k + 2 * length (b # bs)] = k # Suc k # [Suc (Suc k)..<Suc (Suc k) + 2 * length bs]"
    by (simp add: upt_rec)
  show ?case using Cons [of "Suc (Suc k)"] unfolding u by (simp add: seal_chunk_def seal_pieces_def)
qed (simp add: seal_pieces_def)

text \<open>
  Property C25. A stream writer never seals two pieces with the same nonce: after any sequence of writes, the
  bytes on the wire are the lengths and payloads of the chunks, each sealed with a nonce of its own, as long as
  there are no more of them than nonces.
\<close>

theorem aead_nonces_unique:
  assumes "wleft c = None" "wr c = []" "bs = concat (map chunks ps)" "2 * length bs \<le> 256 ^ ad_NonceSize a"
  shows "\<exists>nonces. distinct nonces \<and> length nonces = 2 * length bs \<and>
    wr (snd (aead_writes ps (newWriter a, c))) = concat (map2 (ad_Seal a) nonces (seal_pieces bs))"
proof (intro exI conjI)
  let ?ns = "map (nth_nonce a) [0..<2 * length bs]"
  show "distinct ?ns"
    using assms(4) by (auto simp: distinct_map intro!: inj_onI intro: nth_nonce_distinct [OF less_le_trans less_le_trans])
  show "length ?ns = 2 * length bs" by simp
  have "wr (snd (aead_writes ps (newWriter a, c))) = seal_chunks a ((increment ^^ 0) (replicate (ad_NonceSize a) 0)) bs"
    using assms(1-3) by (simp add: aead_writes_open newWriter_def)
  then show "wr (snd (aead_writes ps (newWriter a, c))) = concat (map2 (ad_Seal a) ?ns (seal_pieces bs))"
    unfolding seal_chunks_pieces by (simp add: nth_nonce_def [abs_def])
qed

theorem aead_nonces_unique_witness:
  "\<exists>nonces. distinct nonces \<and> length nonces = 4 \<and>
     wr (snd (aead_writes [[1, 2], [3]] (newWriter demo_aead, open_conn []))) =
       concat (map2 (ad_Seal demo_aead) nonces [[0, 2], [1, 2], [0, 1], [3]])"
proof -
  have ch: "concat (map chunks [[1, 2], [3 :: byte]]) = [[1, 2], [3]]"
    by (simp add: chunks.simps maxPayload_def)
  have "seal_pieces [[1, 2], [3]] = [[0, 2], [1, 2], [0, 1], [3]]" by code_simp
  then show ?thesis
    using aead_nonces_unique [of "open_conn []" "[[1, 2], [3]]" "[[1, 2], [3]]" demo_aead, OF _ _ ch [symmetric]]
    by (simp add: demo_aead_def open_conn_def)
qed

text \<open>A datagram written to a packet connection is read back by the peer as it was, with any buffer the
  packet fits in.\<close>

lemma ss_packet_made:
  assumes "aead_ok a" "derive salt = Some a" "length salt + length p + ad_Overhead a \<le> maxPacketSize"
  shows "\<exists>pkt. packet_WriteTo derive salt p = Inr (length p, pkt) \<and>
    length pkt = length salt + length p + ad_Overhead a \<and>
    (\<forall>blen. length pkt \<le> blen \<longrightarrow> packet_ReadFrom derive (length salt) blen pkt = Inr p)"
proof -
  let ?pkt = "salt @ ad_Seal a (zerononce a) p"
  have l: "length ?pkt = length salt + (length p + ad_Overhead a)" using assms(1) by simp
  have "packet_ReadFrom derive (length salt) blen ?pkt = Inr p" if "length ?pkt \<le> blen" for blen
    using that assms(1,2) l by (simp add: packet_ReadFrom_def Unpack_def)
  moreover have "packet_WriteTo derive salt p = Inr (length p, ?pkt)"
    using assms by (simp add: packet_WriteTo_def Pack_def)
  ultimately show ?thesis using l by fastforce
qed

text \<open>
  The length in a chunk is not bounded by the maximal payload: a peer that has the key and sends a
  length that with the tag exceeds the pooled buffer makes the reader panic.
\<close>

lemma ss_oversized_chunk_panics:
  assumes "aead_ok a" "ar_aead r = a" "ar_buf r = None" "n < maxPayload" "bufCap < unat sz + ad_Overhead a"
    and "rd c = ad_Seal a (ar_nonce r) (put16 sz) @ rest"
  shows "\<exists>r' c'. aead_Read n r c = (([], Some (Panic ''slice bounds out of range'')), r', c')"
proof -
  have "read_full (lenSize + ad_Overhead a) c = (Inr (ad_Seal a (ar_nonce r) (put16 sz)), c\<lparr>rd := rest\<rparr>)"
    using assms(1,6) by (intro read_full_ok) (simp_all add: lenSize_def)
  moreover have "\<not> bufCap < lenSize + ad_Overhead a"
    using overhead_le [OF assms(1)] by (simp add: lenSize_def bufCap_val)
  moreover have "get16 (put16 sz) = Some sz" using get16_put16 [of sz "[]"] by (simp only: append_Nil2)
  ultimately show ?thesis using assms(1-5) by (simp add: aead_Read_def read_chunk_def Let_def)
qed

lemma ss_oversized_chunk_panics_witness:
  "\<exists>r' c'. aead_Read 100 (newReader demo_aead) (open_conn (ad_Seal demo_aead (replicate 12 0) [0xFF, 0xFF] @ [1, 2, 3]))
     = (([], Some (Panic ''slice bounds out of range'')), r', c')"
proof -
  have "put16 0xFFFF = [0xFF, 0xFF]" by code_simp
  then show ?thesis
    using ss_oversized_chunk_panics [of demo_aead "newReader demo_aead" 100 "0xFFFF"
        "open_conn (ad_Seal demo_aead (replicate 12 0) [0xFF, 0xFF] @ [1, 2, 3])" "[1, 2, 3]"]
    by (simp add: newReader_def open_conn_def maxPayload_def bufCap_val) (simp add: demo_aead_def)
qed

end
