(* ===== verification/Shadow_Socks.thy ===== *)
theory Shadow_Socks
  imports Shadow_Aead Socks_Addr
begin

text \<open>
  Shadowsocks (\<open>proxy/ss\<close>): the client sends the target address as the first bytes of a sealed stream, the
  server reads it through the same stream, dials and copies the rest; datagrams carry their target in front.
\<close>

section \<open>Model\<close>

subsection \<open>Client\<close>

text \<open>\<open>Dial\<close>: \<open>rc\<close> is the connection to the server, when the dialer reaches it.\<close>

definition ss_Dial ::
  "(bytes \<Rightarrow> aead option) \<Rightarrow> bytes \<Rightarrow> conn option \<Rightarrow> string \<Rightarrow> go_error option \<times> aead_conn \<times> conn option" where
  "ss_Dial derive salt rc addr =
     (case ParseAddr_socks addr of
        None \<Rightarrow> (Some (ErrMsg ''[ss] unable to parse address''), idle_conn, rc)
      | Some target \<Rightarrow>
          (case rc of
             None \<Rightarrow> (Some (ErrMsg ''dial error''), idle_conn, None)
           | Some c \<Rightarrow>
               (case stream_Write derive salt target idle_conn c of
                  ((_, err), sc, c') \<Rightarrow> (err, sc, Some c'))))"

subsection \<open>Server\<close>

text \<open>\<open>socks.ReadAddr\<close> on any reader, given by its \<open>io.ReadFull\<close>.\<close>

definition read_tail_from ::
  "(nat \<Rightarrow> 's \<Rightarrow> (bytes result \<times> 's) option) \<Rightarrow> bytes \<Rightarrow> nat \<Rightarrow> 's \<Rightarrow> (socks_addr result \<times> 's) option" where
  "read_tail_from rf h n s =
     (case rf n s of
        None \<Rightarrow> None
      | Some (Inl e, s') \<Rightarrow> Some (Inl e, s')
      | Some (Inr b, s') \<Rightarrow> Some (Inr (h @ b), s'))"

definition ReadAddr_from ::
  "(nat \<Rightarrow> 's \<Rightarrow> (bytes result \<times> 's) option) \<Rightarrow> 's \<Rightarrow> (socks_addr result \<times> 's) option" where
  "ReadAddr_from rf s =
     (case rf 1 s of
        None \<Rightarrow> None
      | Some (Inl e, s1) \<Rightarrow> Some (Inl e, s1)
      | Some (Inr t, s1) \<Rightarrow>
          if t ! 0 = ATypDomain then
            (case rf 1 s1 of
               None \<Rightarrow> None
             | Some (Inl e, s2) \<Rightarrow> Some (Inl e, s2)
             | Some (Inr l, s2) \<Rightarrow> read_tail_from rf (t @ l) (unat (l ! 0) + 2) s2)
          else if t ! 0 = ATypIP4 then read_tail_from rf t (4 + 2) s1
          else if t ! 0 = ATypIP6 then read_tail_from rf t (16 + 2) s1
          else Some (Inl (ErrMsg (socks_Errors ! 8)), s1))"

text \<open>What the handler does: it discards what a client without a proper address sends, or dials, relays and
  records a failure of the remote side.\<close>

datatype ss_event =
    SsDiscard
  | SsDial string
  | SsRelay nat
  | SsRecord bool

text \<open>\<open>Serve\<close>, with the remote connection \<open>rc\<close> that dialing opens and the error \<open>back\<close> of the relay's other
  direction; \<open>text e\<close> is the message of an error.  \<open>None\<close> means that it never returns.\<close>

definition ss_Serve ::
  "(bytes \<Rightarrow> aead option) \<Rightarrow> nat \<Rightarrow> string \<Rightarrow> (string \<Rightarrow> bool) \<Rightarrow> (go_error \<Rightarrow> string) \<Rightarrow> go_error option \<Rightarrow> conn \<Rightarrow> conn
    \<Rightarrow> (ss_event list \<times> conn) option" where
  "ss_Serve derive saltSize addr dials text back rc c =
     (case ReadAddr_from (ReadFull (stream_Read derive saltSize)) (idle_conn, c) of
        None \<Rightarrow> None
      | Some (Inl e, _) \<Rightarrow> Some ([SsDiscard], rc)
      | Some (Inr tgt, sc, c1) \<Rightarrow>
          (case socks_String tgt of
             Inl _ \<Rightarrow> Some ([], rc)
           | Inr target \<Rightarrow>
               if \<not> dials target then Some ([SsDial target], rc)
               else
                 (case CopyBuffer (stream_Read derive saltSize) sc c1 rc of
                    None \<Rightarrow> None
                  | Some ((n, err), _, rc') \<Rightarrow>
                      Some ([SsDial target, SsRelay n] @
                        (case (case err of None \<Rightarrow> back | Some e \<Rightarrow> Some e) of
                           None \<Rightarrow> []
                         | Some e \<Rightarrow> if contains_str (text e) addr then [] else [SsRecord False]), rc'))))"

subsection \<open>Datagrams\<close>

record ss_pkt =
  sp_writeTo :: "string option"
  sp_target :: "socks_addr option"

definition NewPktConn :: "string option \<Rightarrow> socks_addr option \<Rightarrow> ss_pkt" where
  "NewPktConn writeAddr targetAddr = \<lparr>sp_writeTo = writeAddr, sp_target = targetAddr\<rparr>"

text \<open>\<open>readFrom\<close> with a buffer of \<open>blen\<close> bytes on a datagram from \<open>raddr\<close>; \<open>resolve\<close> is \<open>net.ResolveUDPAddr\<close>.\<close>

definition ss_readFrom ::
  "(bytes \<Rightarrow> aead option) \<Rightarrow> nat \<Rightarrow> (string \<Rightarrow> string option) \<Rightarrow> nat \<Rightarrow> string \<Rightarrow> bytes \<Rightarrow> ss_pkt
    \<Rightarrow> (bytes \<times> string) result \<times> ss_pkt" where
  "ss_readFrom derive saltSize resolve blen raddr dgram pc =
     (case packet_ReadFrom derive saltSize blen dgram of
        Inl e \<Rightarrow> (Inl e, pc)
      | Inr buf \<Rightarrow>
          (case SplitAddr buf of
             None \<Rightarrow> (Inl (ErrMsg ''can not get target addr''), pc)
           | Some tgtAddr \<Rightarrow>
               (case (case socks_String tgtAddr of Inl e \<Rightarrow> Inl e
                      | Inr t \<Rightarrow> (case resolve t of None \<Rightarrow> Inl (ErrMsg ''wrong target addr'') | Some a \<Rightarrow> Inr a)) of
                  Inl e \<Rightarrow> (Inl e, pc)
                | Inr target \<Rightarrow>
                    (Inr (take blen (drop (length tgtAddr) buf), target),
                     pc\<lparr>sp_writeTo := (if sp_writeTo pc = None then Some raddr else sp_writeTo pc),
                        sp_target := (if sp_target pc = None then Some tgtAddr else sp_target pc)\<rparr>))))"

text \<open>\<open>WriteTo\<close>: the number of bytes reported, and the datagram.\<close>

definition ss_WriteTo ::
  "(bytes \<Rightarrow> aead option) \<Rightarrow> bytes \<Rightarrow> bytes \<Rightarrow> string option \<Rightarrow> ss_pkt \<Rightarrow> (nat \<times> bytes) result" where
  "ss_WriteTo derive salt b addr pc =
     (case (case addr of None \<Rightarrow> sp_target pc | Some a \<Rightarrow> ParseAddr_socks a) of
        None \<Rightarrow> Inl (ErrMsg ''invalid addr'')
      | Some target \<Rightarrow>
          (case packet_WriteTo derive salt (target @ b) of
             Inl e \<Rightarrow> Inl e
           | Inr (n, dgram) \<Rightarrow> Inr (if n > length target then n - length target else 0, dgram)))"

section \<open>Reading an address through a reader\<close>

text \<open>On a plain connection the generic reader of addresses is \<open>ReadAddr\<close>.\<close>

lemma ReadAddr_from_conn: "ReadAddr_from (\<lambda>n c. Some (read_full n c)) c = Some (ReadAddr c)"
  by (simp add: ReadAddr_from_def ReadAddr_def read_tail_from_def read_tail_def split: prod.splits sum.splits)

lemma wf_socks_len:
  assumes "wf_socks (t # a)"
  shows "if t = ATypDomain then a \<noteq> [] \<and> length a = unat (hd a) + 3
    else if t = ATypIP4 then length a = 6 else t = ATypIP6 \<and> length a = 18"
proof -
  have s: "SplitAddr (t # a) = Some (t # a)" using assms by (simp add: wf_socks_def)
  have full: "length a + 1 = n" if "Some (take n (t # a)) = Some (t # a)" "n \<le> length a + 1" for n
    using that by (metis length_Cons length_take min.absorb2 option.inject Suc_eq_plus1)
  show ?thesis
  proof (cases "t = ATypDomain")
    case True
    then show ?thesis using s full by (cases a) (auto simp: SplitAddr_def Let_def split: if_splits)
  next
    case False
    show ?thesis
    proof (cases "t = ATypIP4")
      case True
      then show ?thesis using s full [of 7] False by (auto simp: SplitAddr_def Let_def split: if_splits)
    next
      case nip: False
      then show ?thesis using s full [of 19] False by (cases "t = ATypIP6") (auto simp: SplitAddr_def Let_def split: if_splits)
    qed
  qed
qed

text \<open>A reader that delivers a well-formed address in front gives this address.\<close>

locale full_reader =
  fixes holds :: "'s \<Rightarrow> bytes \<Rightarrow> bool"
    and rf :: "nat \<Rightarrow> 's \<Rightarrow> (bytes result \<times> 's) option"
  assumes rf_reads: "holds s (b @ rest) \<Longrightarrow> length b = n \<Longrightarrow> \<exists>s'. rf n s = Some (Inr b, s') \<and> holds s' rest"
begin

lemma read_tail_reads:
  "holds s (b @ rest) \<Longrightarrow> length b = n \<Longrightarrow> \<exists>s'. read_tail_from rf h n s = Some (Inr (h @ b), s') \<and> holds s' rest"
  using rf_reads [of s b rest n] by (auto simp: read_tail_from_def)

lemma ReadAddr_reads:
  assumes "wf_socks a" "holds s (a @ rest)"
  shows "\<exists>s'. ReadAddr_from rf s = Some (Inr a, s') \<and> holds s' rest"
proof -
  obtain t a1 where a: "a = t # a1" using assms(1) by (cases a) (auto simp: wf_socks_def SplitAddr_def)
  obtain s1 where one: "rf 1 s = Some (Inr [t], s1)" "holds s1 (a1 @ rest)"
    using rf_reads [of s "[t]" "a1 @ rest" 1] assms(2) a by auto
  show ?thesis
  proof (cases "t = ATypDomain")
    case True
    then obtain l d where d: "a1 = l # d" "length d = unat l + 2"
      using wf_socks_len [OF assms(1)[unfolded a]] by (cases a1) auto
    obtain s2 where two: "rf 1 s1 = Some (Inr [l], s2)" "holds s2 (d @ rest)"
      using rf_reads [of s1 "[l]" "d @ rest" 1] one(2) d by auto
    show ?thesis
      using read_tail_reads [OF two(2) d(2), of "[t, l]"] one two True a d by (auto simp: ReadAddr_from_def)
  next
    case False
    have k: "length a1 = (if t = ATypIP4 then 6 else 18)" "t \<noteq> ATypIP4 \<Longrightarrow> t = ATypIP6"
      using wf_socks_len [OF assms(1)[unfolded a]] False by (simp_all split: if_splits)
    obtain s2 where tl: "read_tail_from rf [t] (length a1) s1 = Some (Inr a, s2)" "holds s2 rest"
      using read_tail_reads [OF one(2) refl, of "[t]"] a by auto
    show ?thesis
    proof (cases "t = ATypIP4")
      case True
      then show ?thesis using tl k one False by (simp add: ReadAddr_from_def)
    next
      case False
      then show ?thesis using tl k one \<open>t \<noteq> ATypDomain\<close> by (simp add: ReadAddr_from_def)
    qed
  qed
qed

end

interpretation ssf: full_reader
  "\<lambda>s b. \<exists>p. stream_rel derive saltSize (fst s) (snd s) p \<and> pipe_bytes p = b"
  "ReadFull (stream_Read derive saltSize)" for derive saltSize
proof
  fix s :: "aead_conn \<times> conn" and b rest :: bytes and n :: nat
  assume "\<exists>p. stream_rel derive saltSize (fst s) (snd s) p \<and> pipe_bytes p = b @ rest" "length b = n"
  then show "\<exists>s'. ReadFull (stream_Read derive saltSize) n s = Some (Inr b, s') \<and>
      (\<exists>p. stream_rel derive saltSize (fst s') (snd s') p \<and> pipe_bytes p = rest)"
    using ssr.ReadFull_reads [of derive saltSize s _ b rest n] by blast
qed

interpretation cf: full_reader "\<lambda>c b. rd c = b" "\<lambda>n c. Some (read_full n c)"
  by unfold_locales simp

section \<open>Properties\<close>

lemma ss_Dial_writes:
  assumes "ParseAddr_socks addr = Some a" "ss_Dial derive salt (Some c) addr = (err, sc, Some c')"
  shows "stream_writes derive salt ps (sc, c') = stream_writes derive salt (a # ps) (idle_conn, c)"
  using assms by (auto simp: ss_Dial_def stream_writes_def split: prod.splits)

text \<open>
  End to end: what a client dials through a Shadowsocks server with the same cipher and then writes,
  in any sequence of writes, arrives: the server dials exactly the client's target, copies exactly the client's
  bytes to it and then returns.
\<close>

lemma ss_client_served:
  assumes "aead_ok a" "derive salt = Some a" "ParseAddr_socks addr = Some tgt" "socks_String tgt = Inr target"
    and "ss_Dial derive salt (Some (open_conn [])) addr = (err, sc, Some c)"
    and "stream_writes derive salt ps (sc, c) = (sc', c')"
    and "dials target"
  shows "ss_Serve derive (length salt) srv dials text None (open_conn []) (open_conn (wr c')) =
    Some ([SsDial target, SsRelay (length (concat ps))], (open_conn [])\<lparr>wr := concat ps\<rparr>)"
proof -
  have "wr (snd (sc', c')) = salt @ seal_chunks a (nth_nonce a 0) (concat (map chunks (tgt # ps)))"
    unfolding assms(6) [symmetric] ss_Dial_writes [OF assms(3,5)]
    using assms(2) by (subst stream_writes_open) simp_all
  then have "wr c' = salt @ seal_chunks a (nth_nonce a 0) (concat (map chunks (tgt # ps)))" by simp
  then have "stream_rel derive (length salt) idle_conn (open_conn (wr c')) ([], concat (map chunks (tgt # ps)))"
    using assms(1,2) by (intro stream_rel_init) simp_all
  moreover have "pipe_bytes ([], concat (map chunks (tgt # ps))) = tgt @ concat ps"
    by (simp add: pipe_bytes_def concat_concat_chunks)
  ultimately obtain sc1 c1 p where rd:
    "ReadAddr_from (ReadFull (stream_Read derive (length salt))) (idle_conn, open_conn (wr c')) = Some (Inr tgt, sc1, c1)"
    "stream_rel derive (length salt) sc1 c1 p" "pipe_bytes p = concat ps"
    using ssf.ReadAddr_reads [OF ParseAddr_socks_wf [OF assms(3)], of derive "length salt" "(idle_conn, open_conn (wr c'))" "concat ps"]
    by fastforce
  from ssr.CopyBuffer_delivers [OF rd(2), of "open_conn []"] rd(3) obtain r2 c2 where
    "CopyBuffer (stream_Read derive (length salt)) sc1 c1 (open_conn []) =
       Some ((length (concat ps), None), (r2, c2), (open_conn [])\<lparr>wr := concat ps\<rparr>)" by auto
  then show ?thesis using rd(1) assms(4,7) by (simp add: ss_Serve_def)
qed

lemma ss_client_served_witness:
  "\<exists>err sc c sc' c'.
     ss_Dial demo_derive (replicate 16 7) (Some (open_conn [])) ''1.2.3.4:80'' = (err, sc, Some c) \<and>
     stream_writes demo_derive (replicate 16 7) [[1, 2], [3]] (sc, c) = (sc', c') \<and>
     ss_Serve demo_derive 16 ''srv:1'' (\<lambda>_. True) (\<lambda>_. []) None (open_conn []) (open_conn (wr c')) =
       Some ([SsDial ''1.2.3.4:80'', SsRelay 3], (open_conn [])\<lparr>wr := [1, 2, 3]\<rparr>)"
proof -
  let ?salt = "replicate 16 (7 :: byte)"
  obtain err sc c where d: "ss_Dial demo_derive ?salt (Some (open_conn [])) ''1.2.3.4:80'' = (err, sc, Some c)"
    using example_addr
    by (cases "stream_Write demo_derive ?salt [1, 1, 2, 3, 4, 0, 80] idle_conn (open_conn [])")
      (auto simp: ss_Dial_def split: prod.splits)
  obtain sc' c' where w: "stream_writes demo_derive ?salt [[1, 2], [3]] (sc, c) = (sc', c')" by (metis prod.exhaust)
  have "ss_Serve demo_derive (length ?salt) ''srv:1'' (\<lambda>_. True) (\<lambda>_. []) None (open_conn []) (open_conn (wr c')) =
      Some ([SsDial ''1.2.3.4:80'', SsRelay (length (concat [[1, 2], [3 :: byte]]))], (open_conn [])\<lparr>wr := concat [[1, 2], [3]]\<rparr>)"
    by (rule ss_client_served [OF demo_aead_ok _ example_addr d w]) (simp_all add: demo_derive_def)
  with d w show ?thesis by auto
qed

text \<open>A client that cannot seal the first length under the key of its salt is never dialed for: its input is
  discarded.\<close>

lemma ss_no_dial_without_key:
  assumes "length salt = saltSize" "derive salt = Some a" "ad_Open a (nth_nonce a 0) enc = None"
    and "length enc = lenSize + ad_Overhead a" "ad_Overhead a \<le> 256"
  shows "ss_Serve derive saltSize srv dials text back rc (open_conn (salt @ enc @ rest)) = Some ([SsDiscard], rc)"
proof -
  have salt: "read_full saltSize (open_conn (salt @ enc @ rest)) = (Inr salt, open_conn (enc @ rest))"
    using assms(1) by (subst read_full_ok [of _ salt "enc @ rest"]) (simp_all add: open_conn_def)
  have enc: "read_full (lenSize + ad_Overhead a) (open_conn (enc @ rest)) = (Inr enc, open_conn rest)"
    using assms(4) by (subst read_full_ok [of _ enc rest]) (simp_all add: open_conn_def)
  have cap: "\<not> bufCap < lenSize + ad_Overhead a" "\<not> maxPayload + ad_Overhead a \<le> Suc 0"
    using assms(5) by (simp_all add: bufCap_val lenSize_def maxPayload_def)
  have "\<exists>sc c. stream_Read derive saltSize (Suc 0) idle_conn (open_conn (salt @ enc @ rest)) =
      (([], Some (ErrMsg ''message authentication failed'')), sc, c)"
    using assms(2,3) cap
    by (simp add: stream_Read_def salt aead_Read_def newReader_def read_chunk_def Let_def enc nth_nonce_def)
  then obtain sc c where "stream_Read derive saltSize (Suc 0) idle_conn (open_conn (salt @ enc @ rest)) =
      (([], Some (ErrMsg ''message authentication failed'')), sc, c)" by blast
  then have "ReadFull (stream_Read derive saltSize) 1 (idle_conn, open_conn (salt @ enc @ rest)) =
      Some (Inl (ErrMsg ''message authentication failed''), sc, c)"
    by (simp add: ReadFull_def fill.simps)
  then show ?thesis by (simp add: ss_Serve_def ReadAddr_from_def)
qed

text \<open>A datagram sent to a target is received with this target and the payload as it was.\<close>

lemma ss_datagram_received:
  assumes "aead_ok a" "derive salt = Some a" "ParseAddr_socks addr = Some tgt" "socks_String tgt = Inr t"
    and "resolve t = Some ip" "length salt + length (tgt @ b) + ad_Overhead a \<le> maxPacketSize"
  shows "\<exists>dgram. ss_WriteTo derive salt b (Some addr) pc = Inr (length b, dgram) \<and>
    (length dgram \<le> blen \<longrightarrow>
       (\<exists>pc''. ss_readFrom derive (length salt) resolve blen raddr dgram (NewPktConn None None) = (Inr (b, ip), pc'') \<and>
         sp_writeTo pc'' = Some raddr \<and> sp_target pc'' = Some tgt))"
proof -
  obtain pkt where p: "packet_WriteTo derive salt (tgt @ b) = Inr (length (tgt @ b), pkt)"
    "length pkt \<le> blen \<Longrightarrow> packet_ReadFrom derive (length salt) blen pkt = Inr (tgt @ b)"
    "length pkt = length salt + length (tgt @ b) + ad_Overhead a"
    using ss_packet_made [of a derive salt "tgt @ b"] assms(1,2,6) by blast
  have "SplitAddr (tgt @ b) = Some tgt"
    using ParseAddr_socks_wf [OF assms(3)] by (intro SplitAddr_append) (simp add: wf_socks_def)
  then show ?thesis
    using p assms(3-5) by (auto simp: ss_WriteTo_def ss_readFrom_def NewPktConn_def)
qed

end
