(* ===== verification/Vless.thy ===== *)
theory Vless
  imports Socks_Addr Pipe
begin

text \<open>
  The VLESS protocol (\<open>proxy/vless\<close>): addresses, user ids, the client's request and its check by the server,
  the two-byte answer in front of the server's data, the handler with its fallback, and datagrams over the
  stream.  SHA-1 and \<open>net.ResolveUDPAddr\<close> are arguments.
\<close>

section \<open>Model\<close>

subsection \<open>Addresses\<close>

definition AtypErr :: byte where "AtypErr = 0"
definition AtypIP4 :: byte where "AtypIP4 = 1"
definition AtypDomain :: byte where "AtypDomain = 2"
definition AtypIP6 :: byte where "AtypIP6 = 3"

definition MaxHostLen :: nat where "MaxHostLen = 255"

type_synonym vaddr = "byte \<times> bytes \<times> u16"

definition vless_ParseAddr :: "string \<Rightarrow> vaddr result" where
  "vless_ParseAddr s =
     (case SplitHostPort s of
        Inl e \<Rightarrow> Inl e
      | Inr (host, port) \<Rightarrow>
          (case (case ParseAddr host of
                   Some ip \<Rightarrow> Some (if Is6 ip then AtypIP6 else AtypIP4, AsSlice ip)
                 | None \<Rightarrow>
                     if length host > MaxHostLen then None
                     else Some (AtypDomain, of_nat (length host) # str_bytes host)) of
             None \<Rightarrow> Inl (ErrMsg ''ParseAddr'')
           | Some (atyp, addr) \<Rightarrow>
               (case parse_uint 16 port of
                  None \<Rightarrow> Inl (ErrMsg ''ParseUint'')
                | Some portnum \<Rightarrow> Inr (atyp, addr, of_nat portnum))))"

text \<open>\<open>ReadAddr\<close>: an address type that is none of the three is returned without host and without error.\<close>

definition vless_ReadAddr :: "vaddr io" where
  "vless_ReadAddr =
     io_bind (read_full 2) (\<lambda>p.
     let port = the (get16 p) in
     io_bind (read_full 1) (\<lambda>t.
     let atyp = t ! 0 in
     if atyp = AtypIP4 then io_bind (read_full 4) (\<lambda>h. io_ret (atyp, h, port))
     else if atyp = AtypIP6 then io_bind (read_full 16) (\<lambda>h. io_ret (atyp, h, port))
     else if atyp = AtypDomain then
       io_bind (read_full 1) (\<lambda>l.
       io_bind (read_full (unat (l ! 0))) (\<lambda>h. io_ret (atyp, h, port)))
     else io_ret (atyp, [], port)))"

definition AddrString :: "byte \<Rightarrow> bytes \<Rightarrow> u16 \<Rightarrow> string" where
  "AddrString atyp addr port =
     JoinHostPort
      (if atyp = AtypIP4 \<or> atyp = AtypIP6 then IP_String addr
       else if atyp = AtypDomain then bytes_str addr
       else [])
      (show_nat (unat port))"

definition ReadAddrString :: "string io" where
  "ReadAddrString = io_bind vless_ReadAddr (\<lambda>(atyp, host, port). io_ret (AddrString atyp host port))"

subsection \<open>Settings\<close>

definition VlessVersion :: byte where "VlessVersion = 0"

definition CmdErr :: byte where "CmdErr = 0"
definition CmdTCP :: byte where "CmdTCP = 1"
definition CmdUDP :: byte where "CmdUDP = 2"

record vless =
  vl_addr :: string
  vl_uuid :: bytes
  vl_fallback :: string

text \<open>\<open>hex.Decode\<close> of pairs of digits.\<close>

fun hex_decode :: "string \<Rightarrow> bytes option" where
  "hex_decode [] = Some []"
| "hex_decode [a] = None"
| "hex_decode (a # b # s) =
     (case (hex_digit a, hex_digit b, hex_decode s) of
        (Some x, Some y, Some r) \<Rightarrow> Some (of_nat (16 * x + y) # r)
      | _ \<Rightarrow> None)"

text \<open>The length of a string is that of its bytes.  The slices of the hash are within its 20 bytes.\<close>

definition StrToUUID :: "(bytes \<Rightarrow> bytes) \<Rightarrow> string \<Rightarrow> bytes result" where
  "StrToUUID sha1 s =
     (if 1 \<le> length s \<and> length s \<le> 30 then
        let u = take 16 (sha1 (replicate 16 0 @ str_bytes s));
            u1 = u[6 := or (and (u ! 6) 0x0F) (push_bit 4 5)];
            u2 = u1[8 := or (and (u1 ! 8) (drop_bit 2 0xFF)) (push_bit 6 2)]
        in Inr u2
      else
        let b = filter (\<lambda>ch. ch \<noteq> CHR ''-'') s in
        if length b \<noteq> 32 then Inl (ErrMsg ''invalid UUID'')
        else (case hex_decode b of None \<Rightarrow> Inl (ErrMsg ''invalid byte'') | Some u \<Rightarrow> Inr u))"

definition NewVLess :: "(bytes \<Rightarrow> bytes) \<Rightarrow> url option \<Rightarrow> vless result" where
  "NewVLess sha1 pu =
     (case pu of
        None \<Rightarrow> Inl (ErrMsg ''parse url err'')
      | Some u \<Rightarrow>
          (case StrToUUID sha1 (u_User u) of
             Inl e \<Rightarrow> Inl e
           | Inr uuid \<Rightarrow> Inr \<lparr>vl_addr = u_Host u, vl_uuid = uuid, vl_fallback = u_Query u ''fallback''\<rparr>))"

subsection \<open>Client\<close>

definition client_header :: "bytes \<Rightarrow> string \<Rightarrow> vaddr \<Rightarrow> bytes" where
  "client_header uuid network a =
     (case a of (atyp, addr, port) \<Rightarrow>
        [VlessVersion] @ uuid @ [0] @ [if network = ''udp'' then CmdUDP else CmdTCP] @ put16 port @ [atyp] @ addr)"

text \<open>\<open>dial\<close> with \<open>NewClientConn\<close>: \<open>rc\<close> is the connection to the server, when the dialer reaches it.\<close>

definition NewClientConn :: "conn \<Rightarrow> bytes \<Rightarrow> string \<Rightarrow> string \<Rightarrow> go_error option \<times> conn" where
  "NewClientConn c uuid network target =
     (case vless_ParseAddr target of
        Inl e \<Rightarrow> (Some e, c)
      | Inr a \<Rightarrow> conn_write (client_header uuid network a) c)"

definition vless_dial :: "vless \<Rightarrow> conn option \<Rightarrow> string \<Rightarrow> string \<Rightarrow> go_error option \<times> conn option" where
  "vless_dial s rc network addr =
     (case rc of
        None \<Rightarrow> (Some (ErrMsg ''dial error''), None)
      | Some c \<Rightarrow> (case NewClientConn c (vl_uuid s) network addr of (e, c') \<Rightarrow> (e, Some c')))"

text \<open>\<open>CopyN(io.Discard, c, n)\<close> with its error ignored: whatever there is of the next \<open>n\<close> bytes is read.\<close>

definition discardN :: "nat \<Rightarrow> conn \<Rightarrow> conn" where
  "discardN n c = c\<lparr>rd := drop n (rd c)\<rparr>"

text \<open>\<open>ClientConn.Read\<close>, with the flag \<open>rcved\<close>.  The connection itself hands out what has arrived.\<close>

definition raw_Read :: "nat \<Rightarrow> conn \<Rightarrow> (bytes \<times> go_error option) \<times> conn" where
  "raw_Read n c =
     (if rd c = [] then (([], Some EOF), c)
      else ((take n (rd c), None), c\<lparr>rd := drop n (rd c)\<rparr>))"

text \<open>\<open>buf\<close> is the caller's slice with what it holds.  Where the code reports the number of header bytes it
  read together with an error, the caller sees as many bytes of its own slice.\<close>

definition ClientConn_Read :: "bytes \<Rightarrow> bool \<Rightarrow> conn \<Rightarrow> (bytes \<times> go_error option) \<times> bool \<times> conn" where
  "ClientConn_Read buf rcved c =
     (if rcved then (case raw_Read (length buf) c of (x, c') \<Rightarrow> (x, True, c'))
      else
        case read_full 2 c of
          (Inl e, c1) \<Rightarrow> ((take (length (rd c)) buf, Some e), False, c1)
        | (Inr h, c1) \<Rightarrow>
            if h ! 0 \<noteq> VlessVersion then ((take 2 buf, Some (ErrMsg ''version not supported'')), False, c1)
            else (case raw_Read (length buf) (discardN (unat (h ! 1)) c1) of (x, c') \<Rightarrow> (x, True, c')))"

subsection \<open>Server\<close>

definition vless_readHeader :: "vless \<Rightarrow> (byte \<times> string) io" where
  "vless_readHeader s =
     io_bind (io_relabel ''read header error'' (read_full 18)) (\<lambda>buf.
     if buf ! 0 \<noteq> VlessVersion then io_fail (ErrMsg ''version not supported'')
     else if vl_uuid s \<noteq> take 16 (drop 1 buf) then io_fail (ErrMsg ''auth failed'')
     else
       (\<lambda>c. io_bind (io_relabel ''get cmd error'' (read_full 1)) (\<lambda>cmd.
              io_bind ReadAddrString (\<lambda>target. io_ret (cmd ! 0, target)))
            (discardN (unat (buf ! 17)) c)))"

text \<open>\<open>ServerConn.Write\<close>: the first write carries the answer in front, as two writes of the connection.\<close>

definition ServerConn_Write :: "bytes \<Rightarrow> bool \<Rightarrow> conn \<Rightarrow> (nat \<times> go_error option) \<times> bool \<times> conn" where
  "ServerConn_Write b sent c =
     (if sent then
        (case conn_write b c of
           (None, c') \<Rightarrow> ((length b, None), True, c')
         | (Some e, c') \<Rightarrow> ((0, Some e), True, c'))
      else
        case conn_write [VlessVersion, 0] c of
          (Some e, c') \<Rightarrow> ((0, Some e), True, c')
        | (None, c1) \<Rightarrow>
            (case conn_write b c1 of
               (None, c') \<Rightarrow> ((length b, None), True, c')
             | (Some e, c') \<Rightarrow> ((0, Some e), True, c')))"

datatype vl_event =
    VlUoT string
  | VlDial string string
  | VlWrite bytes
  | VlRelay
  | VlRecord bool

definition vless_serveFallback :: "(string \<Rightarrow> string \<Rightarrow> bool) \<Rightarrow> bool \<Rightarrow> string \<Rightarrow> bytes \<Rightarrow> vl_event list" where
  "vless_serveFallback dials writes tgt headBuf =
     (if \<not> dials ''tcp'' tgt then [VlDial ''tcp'' tgt]
      else if \<not> writes then [VlDial ''tcp'' tgt, VlWrite headBuf]
      else [VlDial ''tcp'' tgt, VlWrite headBuf, VlRelay])"

text \<open>\<open>Serve\<close>, with the inputs of the trojan handler: the address of the dialer chosen for a target, the
  outcome of dials and of the first write, the error of the relay.\<close>

definition vless_Serve ::
  "vless \<Rightarrow> (string \<Rightarrow> string) \<Rightarrow> (string \<Rightarrow> string \<Rightarrow> bool) \<Rightarrow> bool \<Rightarrow> string option \<Rightarrow> conn \<Rightarrow> vl_event list \<times> conn" where
  "vless_Serve s dialer_addr dials writes relay c =
     (case vless_readHeader s c of
        (Inl _, c') \<Rightarrow>
          (if vl_fallback s = [] then []
           else vless_serveFallback dials writes (vl_fallback s) (take (length (rd c) - length (rd c')) (rd c)), c')
      | (Inr (cmd, target), c') \<Rightarrow>
          if cmd = CmdUDP \<and> dialer_addr target = ''DIRECT'' then ([VlUoT target], c')
          else
            let network = (if cmd = CmdUDP then ''udp'' else ''tcp'') in
            if \<not> dials network target then ([VlDial network target], c')
            else
              ([VlDial network target, VlRelay] @
               (case relay of
                  None \<Rightarrow> []
                | Some err \<Rightarrow> if contains_str err (vl_addr s) then [] else [VlRecord False]), c'))"

subsection \<open>Datagrams over the stream\<close>

definition vless_ReadFrom :: "nat \<Rightarrow> bytes io" where
  "vless_ReadFrom blen =
     (if blen < 2 then io_fail (ErrMsg ''buf size is not enough'')
      else
        io_bind (read_full 2) (\<lambda>l.
        let len = unat (the (get16 l)) in
        if blen < len then io_fail (ErrMsg ''buf size is not enough'')
        else read_full len))"

definition vless_WriteTo :: "bytes \<Rightarrow> conn \<Rightarrow> (nat \<times> go_error option) \<times> conn" where
  "vless_WriteTo b c =
     (case conn_write (put16 (of_nat (length b)) @ b) c of
        (None, c') \<Rightarrow> ((length b, None), c')
      | (Some e, c') \<Rightarrow> ((0, Some e), c'))"

section \<open>Addresses\<close>

text \<open>What an address reads as: the length in front of a domain name is gone.\<close>

definition wire_host :: "vaddr \<Rightarrow> bytes" where
  "wire_host a = (case a of (atyp, addr, _) \<Rightarrow> if atyp = AtypDomain then tl addr else addr)"

definition vless_target :: "vaddr \<Rightarrow> string" where
  "vless_target a = (case a of (atyp, addr, port) \<Rightarrow> AddrString atyp (wire_host a) port)"

lemmas atyps = AtypIP4_def AtypIP6_def AtypDomain_def

text \<open>The two parsers of targets accept the same texts and mean the same by them.\<close>

lemma vless_ParseAddr_socks:
  assumes "ParseAddr_socks addr = Some a"
  shows "\<exists>v. vless_ParseAddr addr = Inr v \<and> socks_String a = Inr (vless_target v)"
proof -
  obtain host port w where split: "SplitHostPort addr = Inr (host, port)" "parse_uint 16 port = Some w"
    using assms by (auto simp: ParseAddr_socks_def Let_def split: sum.splits option.splits)
  show ?thesis
  proof (cases "ParseAddr host")
    case None
    then have l: "length host \<le> 255" and a: "a = ATypDomain # of_nat (length host) # str_bytes host @ put16 (of_nat w)"
      using assms split by (auto simp: ParseAddr_socks_def Let_def split: if_splits)
    have "socks_String a = Inr (JoinHostPort (bytes_str (str_bytes host)) (show_nat (unat (of_nat w :: u16))))"
      unfolding a by (rule socks_String_domain) (use l in \<open>simp add: unat_of_nat_byte\<close>)
    then show ?thesis using None split l
      by (simp add: vless_ParseAddr_def MaxHostLen_def vless_target_def wire_host_def AddrString_def atyps)
  next
    case (Some ip)
    note w = ParseAddr_wf [OF Some]
    show ?thesis
    proof (cases ip)
      case (Addr4 b)
      then have "a = ATypIP4 # b @ put16 (of_nat w)" using assms split Some by (auto simp: ParseAddr_socks_def)
      then show ?thesis using Some split Addr4 w
        by (simp add: vless_ParseAddr_def vless_target_def wire_host_def AddrString_def atyps socks_String_def socks_consts)
    next
      case (Addr6 b z)
      then have "a = ATypIP6 # b @ put16 (of_nat w)" using assms split Some by (auto simp: ParseAddr_socks_def)
      then show ?thesis using Some split Addr6 w
        by (simp add: vless_ParseAddr_def vless_target_def wire_host_def AddrString_def atyps socks_String_def socks_consts)
    qed (use w in simp)
  qed
qed

definition wf_vaddr :: "vaddr \<Rightarrow> bool" where
  "wf_vaddr a =
     (case a of (atyp, addr, _) \<Rightarrow>
        atyp = AtypIP4 \<and> length addr = 4 \<or> atyp = AtypIP6 \<and> length addr = 16 \<or>
        atyp = AtypDomain \<and> addr \<noteq> [] \<and> length addr = Suc (unat (hd addr)))"

lemma vless_ParseAddr_wf:
  assumes "vless_ParseAddr s = Inr a"
  shows "wf_vaddr a"
proof -
  obtain host port where split: "SplitHostPort s = Inr (host, port)"
    using assms by (auto simp: vless_ParseAddr_def split: sum.splits)
  show ?thesis
  proof (cases "ParseAddr host")
    case None
    then show ?thesis using assms split
      by (auto simp: vless_ParseAddr_def wf_vaddr_def unat_of_nat_byte MaxHostLen_def split: option.splits if_splits)
  next
    case (Some ip)
    then show ?thesis using assms split ParseAddr_wf [OF Some]
      by (cases ip) (auto simp: vless_ParseAddr_def wf_vaddr_def split: option.splits)
  qed
qed

definition vaddr_bytes :: "vaddr \<Rightarrow> bytes" where
  "vaddr_bytes a = (case a of (atyp, addr, port) \<Rightarrow> put16 port @ [atyp] @ addr)"

lemma vless_ReadAddr_bytes:
  assumes "wf_vaddr a" "rd c = vaddr_bytes a @ rest"
  shows "vless_ReadAddr c = (Inr (fst a, wire_host a, snd (snd a)), c\<lparr>rd := rest\<rparr>)"
proof -
  obtain t h p where a: "a = (t, h, p)" by (cases a) auto
  have r: "read_full 2 c = (Inr (put16 p), c\<lparr>rd := t # h @ rest\<rparr>)"
    using assms(2) a by (intro read_full_ok) (simp_all add: vaddr_bytes_def)
  have g: "get16 (put16 p) = Some p" using get16_put16 [of p "[]"] by simp
  have t: "read_full (Suc 0) (c\<lparr>rd := t # h @ rest\<rparr>) = (Inr [t], c\<lparr>rd := h @ rest\<rparr>)"
    by (simp add: read_full_one)
  have w: "t = AtypIP4 \<and> length h = 4 \<or> t = AtypIP6 \<and> length h = 16 \<or>
      t = AtypDomain \<and> (\<exists>l h'. h = l # h' \<and> length h' = unat l)"
    using assms(1) a by (cases h) (auto simp: wf_vaddr_def)
  then show ?thesis
    by (elim disjE conjE exE) (simp_all add: vless_ReadAddr_def r g t a wire_host_def atyps read_full_one io_ret_def)
qed

section \<open>The header\<close>

lemma read_header_accepts:
  assumes "length (vl_uuid s) = 16" "wf_vaddr a" "rd c = client_header (vl_uuid s) network a @ rest"
  shows "vless_readHeader s c =
    (Inr (if network = ''udp'' then CmdUDP else CmdTCP, vless_target a), c\<lparr>rd := rest\<rparr>)"
proof -
  let ?cmd = "if network = ''udp'' then CmdUDP else CmdTCP"
  let ?h = "[VlessVersion] @ vl_uuid s @ [0]"
  have split: "client_header (vl_uuid s) network a = ?h @ ?cmd # vaddr_bytes a"
    by (cases a) (simp add: client_header_def vaddr_bytes_def)
  have h: "read_full 18 c = (Inr ?h, c\<lparr>rd := ?cmd # vaddr_bytes a @ rest\<rparr>)"
    using assms(1,3) split by (intro read_full_ok) simp_all
  have n: "?h ! 17 = 0" "?h ! 0 = VlessVersion" "take 16 (drop 1 ?h) = vl_uuid s"
    using assms(1) by (simp_all add: nth_append)
  have cmd: "read_full (Suc 0) (c\<lparr>rd := ?cmd # vaddr_bytes a @ rest\<rparr>) = (Inr [?cmd], c\<lparr>rd := vaddr_bytes a @ rest\<rparr>)"
    by (simp add: read_full_one)
  have "ReadAddrString (c\<lparr>rd := vaddr_bytes a @ rest\<rparr>) = (Inr (vless_target a), c\<lparr>rd := rest\<rparr>)"
    using vless_ReadAddr_bytes [OF assms(2), of "c\<lparr>rd := vaddr_bytes a @ rest\<rparr>" rest]
    by (cases a) (simp add: ReadAddrString_def vless_target_def io_ret_def)
  then show ?thesis
    using h n cmd unfolding vless_readHeader_def discardN_def by (simp add: io_ret_def)
qed

lemma consumes_discard: "consumes m \<Longrightarrow> consumes (\<lambda>c. m (discardN n c))"
  unfolding consumes_def discardN_def
  by (metis append_take_drop_id conn.select_convs(1) conn.surjective conn.update_convs(1) suffix_of_def suffix_of_trans)

lemma consumes_vless_ReadAddr: "consumes vless_ReadAddr"
  unfolding vless_ReadAddr_def Let_def by (intro consumes_bind) auto

lemma consumes_vless_readHeader: "consumes (vless_readHeader s)"
  unfolding vless_readHeader_def ReadAddrString_def
  by (intro consumes_bind) (auto intro!: consumes_discard consumes_bind consumes_vless_ReadAddr)

lemma vless_readHeader_uuid:
  assumes "vless_readHeader s c = (Inr x, c')"
  shows "take 17 (rd c) = VlessVersion # vl_uuid s"
proof -
  obtain buf c1 where b: "read_full 18 c = (Inr buf, c1)" "buf ! 0 = VlessVersion" "vl_uuid s = take 16 (drop 1 buf)"
    using assms unfolding vless_readHeader_def
    by (elim io_bind_InrE) (auto simp: io_fail_def io_relabel_def split: if_splits prod.splits sum.splits)
  then have r: "rd c = buf @ rd c1" "length buf = 18" using read_full_InrD by blast+
  then obtain x xs where "buf = x # xs" by (cases buf) auto
  with b r show ?thesis by simp
qed

text \<open>
  Property C30. A server with the client's user id reads the command and the target the client dialed with,
  the same target that SOCKS would carry, and leaves the client's data for the relay.
\<close>

theorem vless_client_served:
  assumes "length (vl_uuid cl) = 16" "vl_uuid srv = vl_uuid cl"
    and "ParseAddr_socks addr = Some a" "socks_String a = Inr target"
    and "vless_dial cl (Some (open_conn [])) network addr = (None, Some rc)"
    and "network = ''udp'' \<longrightarrow> dialer_addr target \<noteq> ''DIRECT''"
    and "dials (if network = ''udp'' then ''udp'' else ''tcp'') target"
  shows "vless_Serve srv dialer_addr dials writes None (open_conn (wr rc @ payload)) =
    ([VlDial (if network = ''udp'' then ''udp'' else ''tcp'') target, VlRelay], open_conn payload)"
proof -
  obtain v where v: "vless_ParseAddr addr = Inr v" "target = vless_target v"
    using vless_ParseAddr_socks [OF assms(3)] assms(4) by auto
  have w: "wr rc = client_header (vl_uuid srv) network v"
    using assms(2,5) v by (auto simp: vless_dial_def NewClientConn_def)
  have "vless_readHeader srv (open_conn (wr rc @ payload)) =
      (Inr (if network = ''udp'' then CmdUDP else CmdTCP, vless_target v), (open_conn (wr rc @ payload))\<lparr>rd := payload\<rparr>)"
    by (rule read_header_accepts) (use assms(1,2) w vless_ParseAddr_wf [OF v(1)] in simp_all)
  then show ?thesis
    using assms(6,7) v(2) by (auto simp: vless_Serve_def Let_def open_conn_def CmdTCP_def CmdUDP_def)
qed

definition demo_vless :: vless where
  "demo_vless = \<lparr>vl_addr = ''srv:443'', vl_uuid = replicate 16 5, vl_fallback = ''web:80''\<rparr>"

theorem vless_client_served_witness:
  "\<exists>rc. vless_dial demo_vless (Some (open_conn [])) ''tcp'' ''1.2.3.4:80'' = (None, Some rc) \<and>
     vless_Serve demo_vless (\<lambda>_. []) (\<lambda>_ _. True) True None (open_conn (wr rc @ [9])) =
       ([VlDial ''tcp'' ''1.2.3.4:80'', VlRelay], open_conn [9])"
proof -
  obtain v where "vless_ParseAddr ''1.2.3.4:80'' = Inr v" using vless_ParseAddr_socks [OF example_addr(1)] by blast
  then obtain rc where d: "vless_dial demo_vless (Some (open_conn [])) ''tcp'' ''1.2.3.4:80'' = (None, Some rc)"
    by (simp add: vless_dial_def NewClientConn_def)
  then show ?thesis
    using vless_client_served [OF _ refl example_addr d, of "\<lambda>_. []" "\<lambda>_ _. True" True "[9]"]
    by (simp add: demo_vless_def)
qed

text \<open>Without the user id nothing is dialed but the fallback, which gets every byte the client sent.\<close>

lemma vless_fallback_transparent:
  assumes "take 17 (rd c) \<noteq> VlessVersion # vl_uuid s"
    and "vless_Serve s dialer_addr dials True relay c = (evs, c')"
  shows "(vl_fallback s = [] \<longrightarrow> evs = []) \<and>
    (vl_fallback s \<noteq> [] \<and> dials ''tcp'' (vl_fallback s) \<longrightarrow>
       (\<exists>headBuf. evs = [VlDial ''tcp'' (vl_fallback s), VlWrite headBuf, VlRelay] \<and>
          headBuf @ rd c' = rd c))"
proof -
  obtain e c1 where h: "vless_readHeader s c = (Inl e, c1)"
    using vless_readHeader_uuid [of s c] assms(1) by (metis old.prod.exhaust sumE)
  obtain u where "rd c = u @ rd c1" using consumesD [OF consumes_vless_readHeader h] by blast
  with h assms(2) show ?thesis by (auto simp: vless_Serve_def vless_serveFallback_def)
qed

section \<open>The answer\<close>

text \<open>A client's view of the stream: the answer with its addons first, then the data.\<close>

definition answer_rel :: "bool \<Rightarrow> conn \<Rightarrow> pipe \<Rightarrow> bool" where
  "answer_rel rcved c p =
     (snd p = [] \<and>
      (if rcved then rd c = fst p
       else \<exists>addons. length addons < 256 \<and> rd c = [VlessVersion, of_nat (length addons)] @ addons @ fst p))"

lemma raw_Read_pipe:
  "rd c = cur \<Longrightarrow> raw_Read n c = (if cur = [] then (([], Some EOF), c) else ((take n cur, None), c\<lparr>rd := drop n cur\<rparr>))"
  by (simp add: raw_Read_def)

lemma ClientConn_Read_reduces:
  assumes "answer_rel rcved c p"
  shows "\<exists>c1. rd c1 = fst p \<and> ClientConn_Read buf rcved c = (case raw_Read (length buf) c1 of (x, c') \<Rightarrow> (x, True, c'))"
proof (cases rcved)
  case True
  then show ?thesis using assms by (auto simp: answer_rel_def ClientConn_Read_def)
next
  case False
  then obtain ad where ad: "length ad < 256" "rd c = [VlessVersion, of_nat (length ad)] @ ad @ fst p"
    using assms by (auto simp: answer_rel_def)
  let ?c = "c\<lparr>rd := ad @ fst p\<rparr>"
  have "read_full 2 c = (Inr [VlessVersion, of_nat (length ad)], ?c)" using ad by (intro read_full_ok) simp_all
  then have "ClientConn_Read buf rcved c = (case raw_Read (length buf) (discardN (length ad) ?c) of (x, c') \<Rightarrow> (x, True, c'))"
    using False ad(1) by (simp add: ClientConn_Read_def unat_of_nat_byte)
  then show ?thesis by (intro exI [of _ "discardN (length ad) ?c"]) (simp add: discardN_def)
qed

interpretation vlr: stream_reader answer_rel "\<lambda>n. ClientConn_Read (replicate n z)" for z
proof
  fix r c and n :: nat
  assume "answer_rel r c ([], [])"
  from ClientConn_Read_reduces [OF this, of "replicate n z"]
  show "\<exists>r' c'. ClientConn_Read (replicate n z) r c = (([], Some EOF), r', c')"
    by (auto simp: raw_Read_pipe)
next
  fix r c p b p' and n :: nat
  assume rel: "answer_rel r c p" and rd: "pipe_read n p = Some (b, p')"
  then have p: "fst p \<noteq> []" "b = take n (fst p)" "p' = (drop n (fst p), [])"
    by (auto simp: answer_rel_def pipe_read_def split: prod.splits list.splits)
  from ClientConn_Read_reduces [OF rel, of "replicate n z"] obtain c1 where
    "rd c1 = fst p" "ClientConn_Read (replicate n z) r c = (case raw_Read n c1 of (x, c') \<Rightarrow> (x, True, c'))" by auto
  with p show "\<exists>r' c'. ClientConn_Read (replicate n z) r c = ((b, None), r', c') \<and> answer_rel r' c' p'"
    by (auto simp: raw_Read_pipe answer_rel_def)
qed

text \<open>The server's side: writes of any sizes, of which the first puts the answer in front.\<close>

definition server_writes :: "bytes list \<Rightarrow> bool \<times> conn \<Rightarrow> bool \<times> conn" where
  "server_writes bs s = fold (\<lambda>b (sent, c). snd (ServerConn_Write b sent c)) bs s"

lemma server_writes_open:
  "wleft c = None \<Longrightarrow>
   server_writes bs (sent, c) =
     (sent \<or> bs \<noteq> [], c\<lparr>wr := wr c @ (if sent \<or> bs = [] then [] else [VlessVersion, 0]) @ concat bs\<rparr>)"
proof (induction bs arbitrary: sent c)
  case (Cons b bs)
  then show ?case by (simp add: server_writes_def ServerConn_Write_def)
qed (simp add: server_writes_def)

text \<open>
  What the server writes after the handshake, the client copies: the answer is stripped and all data, in
  order, reaches the client's other side.
\<close>

lemma vless_answer_delivered:
  assumes "bs \<noteq> []" "wleft w = None"
    and "c = open_conn (wr (snd (server_writes bs (False, open_conn []))))"
  shows "\<exists>r' c'. CopyBuffer (\<lambda>n. ClientConn_Read (replicate n z)) False c w =
    Some ((length (concat bs), None), (r', c'), w\<lparr>wr := wr w @ concat bs\<rparr>)"
proof -
  have "rd c = [VlessVersion, 0] @ concat bs" using assms(1,3) server_writes_open [of "open_conn []" bs False] by simp
  then have "answer_rel False c (concat bs, [])" by (auto simp: answer_rel_def intro!: exI [of _ "[]"])
  from vlr.CopyBuffer_delivers [OF this assms(2), of z] show ?thesis by (simp add: pipe_bytes_def)
qed

text \<open>
  A server whose answer has a wrong version: \<open>Read\<close> reports the two bytes of the answer as data
  together with its error, and copying passes two bytes of the pooled buffer on, whatever they held before.
\<close>

lemma vless_bad_version_leaks:
  assumes "rd c = v # l # rest" "v \<noteq> VlessVersion" "wleft w = None"
  shows "CopyBuffer (\<lambda>n. ClientConn_Read (replicate n z)) False c w =
    Some ((2, Some (ErrMsg ''version not supported'')), (False, c\<lparr>rd := rest\<rparr>), w\<lparr>wr := wr w @ [z, z]\<rparr>)"
proof -
  have "read_full 2 c = (Inr [v, l], c\<lparr>rd := rest\<rparr>)" using assms(1) by (intro read_full_ok) simp_all
  moreover have "take 2 (replicate TCPBufSize z) = [z, z]" by (simp add: TCPBufSize_def take_replicate) (simp add: numeral_2_eq_2)
  ultimately show ?thesis
    using assms(2,3) by (simp add: CopyBuffer_def copy_loop.simps ClientConn_Read_def)
qed

lemma vless_bad_version_leaks_witness:
  "CopyBuffer (\<lambda>n. ClientConn_Read (replicate n 0x53)) False (open_conn [1, 0, 9]) (open_conn []) =
    Some ((2, Some (ErrMsg ''version not supported'')), (False, open_conn [9]), (open_conn [])\<lparr>wr := [0x53, 0x53]\<rparr>)"
  using vless_bad_version_leaks [of "open_conn [1, 0, 9]" 1 0 "[9]" "open_conn []" "0x53"]
  by (simp add: VlessVersion_def open_conn_def)

text \<open>
  A header whose address type is none of the three is accepted: the server dials the port on an
  empty host, which the dialer takes for the local machine.
\<close>

lemma vless_unknown_type_dials_local:
  assumes "length (vl_uuid s) = 16" "atyp \<notin> {AtypIP4, AtypIP6, AtypDomain}" "cmd \<noteq> CmdUDP"
    and "rd c = [VlessVersion] @ vl_uuid s @ [0, cmd] @ put16 port @ [atyp] @ rest"
    and "dials ''tcp'' ('':'' @ show_nat (unat port))"
  shows "vless_Serve s dialer_addr dials writes None c =
    ([VlDial ''tcp'' ('':'' @ show_nat (unat port)), VlRelay], c\<lparr>rd := rest\<rparr>)"
proof -
  let ?h = "[VlessVersion] @ vl_uuid s @ [0]"
  have h: "read_full 18 c = (Inr ?h, c\<lparr>rd := cmd # put16 port @ atyp # rest\<rparr>)"
    using assms(1,4) by (intro read_full_ok) simp_all
  have n: "?h ! 17 = 0" "?h ! 0 = VlessVersion" "take 16 (drop 1 ?h) = vl_uuid s"
    using assms(1) by (simp_all add: nth_append)
  have p: "read_full 2 (c\<lparr>rd := put16 port @ atyp # rest\<rparr>) = (Inr (put16 port), c\<lparr>rd := atyp # rest\<rparr>)"
    by (subst read_full_ok [of _ "put16 port" "atyp # rest"]) simp_all
  have g: "get16 (put16 port) = Some port" using get16_put16 [of port "[]"] by simp
  have "ReadAddrString (c\<lparr>rd := put16 port @ atyp # rest\<rparr>) = (Inr ('':'' @ show_nat (unat port)), c\<lparr>rd := rest\<rparr>)"
    using assms(2) by (simp add: ReadAddrString_def vless_ReadAddr_def p g read_full_one AddrString_def JoinHostPort_def io_ret_def)
  then have "vless_readHeader s c = (Inr (cmd, '':'' @ show_nat (unat port)), c\<lparr>rd := rest\<rparr>)"
    using h n unfolding vless_readHeader_def discardN_def by (simp add: read_full_one io_ret_def)
  then show ?thesis using assms(3,5) by (simp add: vless_Serve_def Let_def)
qed

lemma vless_unknown_type_dials_local_witness:
  "vless_Serve demo_vless (\<lambda>_. []) (\<lambda>_ _. True) True None
     (open_conn ([0] @ replicate 16 5 @ [0, 1, 0, 22, 7] @ [1, 2])) =
   ([VlDial ''tcp'' '':22'', VlRelay], open_conn [1, 2])"
proof -
  have "put16 22 = [0, 22]" "show_nat 22 = ''22''" by code_simp+
  then show ?thesis
    using vless_unknown_type_dials_local [of demo_vless 7 1 "open_conn ([0] @ replicate 16 5 @ [0, 1, 0, 22, 7] @ [1, 2])" 22 "[1, 2]"
        "\<lambda>_ _. True" "\<lambda>_. []" True]
    by (simp add: demo_vless_def atyps CmdUDP_def VlessVersion_def open_conn_def)
qed

section \<open>Datagrams\<close>

interpretation vlp: prefix_codec "\<lambda>b. length b < 65536 \<and> length b \<le> blen \<and> 2 \<le> blen"
  "\<lambda>b. put16 (of_nat (length b)) @ b" "vless_ReadFrom blen" for blen
proof
  fix b rest and c :: conn
  assume v: "length b < 65536 \<and> length b \<le> blen \<and> 2 \<le> blen" and r: "rd c = (put16 (of_nat (length b)) @ b) @ rest"
  have "read_full 2 c = (Inr (put16 (of_nat (length b))), c\<lparr>rd := b @ rest\<rparr>)"
    using r by (intro read_full_ok) simp_all
  moreover have "get16 (put16 (of_nat (length b))) = Some (of_nat (length b))"
    using get16_put16 [of "of_nat (length b)" "[]"] by simp
  moreover have "read_full (length b) (c\<lparr>rd := b @ rest\<rparr>) = (Inr b, c\<lparr>rd := rest\<rparr>)"
    by (subst read_full_ok [of _ b rest]) simp_all
  ultimately show "vless_ReadFrom blen c = (Inr b, c\<lparr>rd := rest\<rparr>)"
    using v by (simp add: vless_ReadFrom_def)
qed

definition vless_writes :: "bytes list \<Rightarrow> conn \<Rightarrow> conn" where
  "vless_writes bs c = fold (\<lambda>b c. snd (vless_WriteTo b c)) bs c"

lemma vless_writes_open:
  "wleft c = None \<Longrightarrow> vless_writes bs c = c\<lparr>wr := wr c @ concat (map (\<lambda>b. put16 (of_nat (length b)) @ b) bs)\<rparr>"
proof (induction bs arbitrary: c)
  case (Cons b bs)
  then show ?case by (simp add: vless_writes_def vless_WriteTo_def)
qed (simp add: vless_writes_def)

text \<open>Datagrams written one after the other are read back one by one, as they were.\<close>

lemma vless_datagrams_delivered:
  assumes "\<forall>b\<in>set bs. length b < 65536 \<and> length b \<le> blen" "2 \<le> blen"
  shows "read_many (vless_ReadFrom blen) (length bs) (open_conn (wr (vless_writes bs (open_conn [])))) = (Inr bs, open_conn [])"
  using vlp.read_many_concat [of blen bs "open_conn (wr (vless_writes bs (open_conn [])))" "[]"] assms
  by (simp add: vless_writes_open list_all_iff)

end
