(* ===== verification/Http_Proxy.thy ===== *)
theory Http_Proxy
  imports Base64 Socks5
begin

text \<open>
  The HTTP proxy (\<open>proxy/http\<close>) and the listener that serves it together with SOCKS5 (\<open>proxy/mixed\<close>): the
  client's \<open>CONNECT\<close>, the parser of requests, the check of credentials, tunnels and forwarded requests.

  Parsing, printing and resolving of urls by \<open>net/url\<close> are arguments.  A header is a list of keys and values
  in the order of arrival; where the code ranges over the map of a header, the argument \<open>ks\<close> lists its keys
  in the order of that iteration.
\<close>

section \<open>Model\<close>

record http =
  h_addr :: string
  h_user :: string
  h_password :: string
  h_pretend :: bool

definition NewHTTP :: "url option \<Rightarrow> http result" where
  "NewHTTP pu =
     (case pu of
        None \<Rightarrow> Inl (ErrMsg ''parse err'')
      | Some u \<Rightarrow>
          Inr \<lparr>h_addr = u_Host u, h_user = u_User u, h_password = u_Pass u,
            h_pretend = (u_Query u ''pretend'' = ''true'')\<rparr>)"

definition parseStartLine :: "string \<Rightarrow> (string \<times> string \<times> string) option" where
  "parseStartLine line =
     (case index_byte CHR '' '' line of
        None \<Rightarrow> None
      | Some s1 \<Rightarrow>
          (case index_byte CHR '' '' (drop (s1 + 1) line) of
             None \<Rightarrow> None
           | Some s2 \<Rightarrow>
               Some (take s1 line, take s2 (drop (s1 + 1) line), drop (s2 + s1 + 1 + 1) line)))"

subsection \<open>Headers\<close>

definition mime_del :: "string \<Rightarrow> mime \<Rightarrow> mime" where
  "mime_del k h = filter (\<lambda>kv. fst kv \<noteq> canon_from True k) h"

definition mime_set :: "string \<Rightarrow> string \<Rightarrow> mime \<Rightarrow> mime" where
  "mime_set k v h = mime_del k h @ [(canon_from True k, v)]"

definition mime_values :: "string \<Rightarrow> mime \<Rightarrow> string list" where
  "mime_values k h = map snd (filter (\<lambda>kv. fst kv = k) h)"

definition hop_headers :: "string list" where
  "hop_headers =
     [''Proxy-Connection'', ''Connection'', ''Keep-Alive'', ''Proxy-Authenticate'', ''Proxy-Authorization'',
      ''TE'', ''Trailers'', ''Transfer-Encoding'', ''Upgrade'']"

definition cleanHeaders :: "mime \<Rightarrow> mime" where
  "cleanHeaders h = fold mime_del hop_headers h"

definition writeStartLine :: "string \<Rightarrow> string \<Rightarrow> string \<Rightarrow> string" where
  "writeStartLine s1 s2 s3 = s1 @ '' '' @ s2 @ '' '' @ s3 @ crlf"

definition writeHeaders :: "string list \<Rightarrow> mime \<Rightarrow> string" where
  "writeHeaders ks h = concat (map (\<lambda>k. concat (map (\<lambda>v. k @ '': '' @ v @ crlf) (mime_values k h))) ks) @ crlf"

definition extractUserPass :: "string \<Rightarrow> (string \<times> string) option" where
  "extractUserPass auth =
     (if \<not> has_prefix auth ''Basic '' then None
      else
        case b64_decode (drop 6 auth) of
          None \<Rightarrow> None
        | Some b \<Rightarrow>
            let s = bytes_str b in
            (case index_byte CHR '':'' s of
               None \<Rightarrow> None
             | Some idx \<Rightarrow> Some (take idx s, drop (idx + 1) s)))"

subsection \<open>Requests\<close>

record http_request =
  rq_method :: string
  rq_uri :: string
  rq_proto :: string
  rq_auth :: string
  rq_header :: mime
  rq_target :: string
  rq_ruri :: string
  rq_absuri :: string

text \<open>What the parser uses of \<open>net/url\<close>: \<open>ParseRequestURI\<close>, \<open>URL.String\<close> and the text of a reference
  resolved against \<open>http://\<close> and the host given, if that parses.\<close>

record url_fns =
  uf_parse :: "string \<Rightarrow> url option"
  uf_String :: "url \<Rightarrow> string"
  uf_resolve :: "string \<Rightarrow> url \<Rightarrow> string option"

definition request_of ::
  "url_fns \<Rightarrow> string \<Rightarrow> string \<Rightarrow> string \<Rightarrow> string \<Rightarrow> mime \<Rightarrow> url \<Rightarrow> http_request result" where
  "request_of uf meth uri proto auth header u =
     (let tgt = (if CHR '':'' \<in> set (u_Host u) then u_Host u else u_Host u @ '':80'');
          req = \<lparr>rq_method = meth, rq_uri = uri, rq_proto = proto, rq_auth = auth, rq_header = header,
                  rq_target = tgt, rq_ruri = [], rq_absuri = []\<rparr>
      in if u_Scheme u \<noteq> [] then
           Inr (req\<lparr>rq_absuri := uf_String uf u, rq_ruri := uf_String uf (u\<lparr>u_Scheme := [], u_Host := []\<rparr>)\<rparr>)
         else
           (case uf_resolve uf (mime_get ''Host'' header) u of
              None \<Rightarrow> Inl (ErrMsg ''parse err'')
            | Some s \<Rightarrow> Inr (req\<lparr>rq_ruri := uf_String uf u, rq_absuri := s\<rparr>)))"

definition parseRequest :: "url_fns \<Rightarrow> http_request io" where
  "parseRequest uf =
     io_bind ReadLine (\<lambda>line.
     case parseStartLine line of
       None \<Rightarrow> io_fail (ErrMsg ''error in parseStartLine'')
     | Some (meth, uri, proto) \<Rightarrow>
         io_bind ReadMIMEHeader (\<lambda>header0.
         let auth = mime_get ''Proxy-Authorization'' header0;
             header = mime_set ''Connection'' ''close'' (cleanHeaders header0);
             justAuthority = (meth = ''CONNECT'' \<and> \<not> has_prefix uri ''/'');
             uri1 = (if justAuthority then ''http://'' @ uri else uri)
         in case uf_parse uf uri1 of
              None \<Rightarrow> io_fail (ErrMsg ''parse request url error'')
            | Some u \<Rightarrow>
                let u1 = (if justAuthority then u\<lparr>u_Scheme := []\<rparr> else u);
                    uri2 = (if justAuthority then drop 7 uri1 else uri1)
                in (case request_of uf meth uri2 proto auth header u1 of
                      Inl e \<Rightarrow> io_fail e
                    | Inr req \<Rightarrow> io_ret req)))"

definition WriteBuf :: "string list \<Rightarrow> http_request \<Rightarrow> string" where
  "WriteBuf ks r = writeStartLine (rq_method r) (rq_ruri r) (rq_proto r) @ writeHeaders ks (rq_header r)"

definition WriteAbsBuf :: "string list \<Rightarrow> http_request \<Rightarrow> string" where
  "WriteAbsBuf ks r = writeStartLine (rq_method r) (rq_absuri r) (rq_proto r) @ writeHeaders ks (rq_header r)"

subsection \<open>Server\<close>

text \<open>What the handler does: \<open>HtReply\<close> writes to the client, \<open>HtSend\<close> to the remote side; \<open>HtBody\<close> copies what
  the client has sent behind the header to the remote side, \<open>HtCopy\<close> the rest of the answer to the client.\<close>

datatype ht_event =
    HtDial string
  | HtRecord bool
  | HtReply string
  | HtSend string
  | HtBody bytes
  | HtCopy bytes
  | HtRelay

text \<open>\<open>dials t\<close> says whether dialing \<open>t\<close> succeeds; \<open>relay\<close> is the error of the relay.\<close>

definition servHTTPS :: "http \<Rightarrow> (string \<Rightarrow> bool) \<Rightarrow> string option \<Rightarrow> http_request \<Rightarrow> ht_event list" where
  "servHTTPS s dials relay r =
     (if \<not> dials (rq_uri r) then [HtDial (rq_uri r), HtReply (rq_proto r @ '' 502 ERROR'' @ crlf @ crlf)]
      else
        [HtDial (rq_uri r), HtRecord True, HtReply (''HTTP/1.1 200 Connection established'' @ crlf @ crlf), HtRelay] @
        (case relay of
           None \<Rightarrow> []
         | Some err \<Rightarrow> if contains_str err (h_addr s) then [] else [HtRecord False]))"

text \<open>The answer of the remote side \<open>rc\<close>, rewritten.\<close>

definition serv_response :: "string list \<Rightarrow> conn \<Rightarrow> ht_event list" where
  "serv_response ks rc =
     (case ReadLine rc of
        (Inl _, _) \<Rightarrow> []
      | (Inr line, rc1) \<Rightarrow>
          (case parseStartLine line of
             None \<Rightarrow> []
           | Some (proto, st, status) \<Rightarrow>
               (case ReadMIMEHeader rc1 of
                  (Inl _, _) \<Rightarrow> []
                | (Inr header, rc2) \<Rightarrow>
                    [HtReply (writeStartLine proto st status @
                       writeHeaders ks (mime_set ''Connection'' ''close'' (mime_set ''Proxy-Connection'' ''close'' header))),
                     HtCopy (rd rc2)])))"

definition servHTTP ::
  "(string \<Rightarrow> bool) \<Rightarrow> string list \<Rightarrow> string list \<Rightarrow> conn \<Rightarrow> http_request \<Rightarrow> conn \<Rightarrow> ht_event list" where
  "servHTTP dials ks ks' rc req c =
     (if \<not> dials (rq_target req) then [HtDial (rq_target req), HtReply (rq_proto req @ '' 502 ERROR'' @ crlf @ crlf)]
      else
        [HtDial (rq_target req), HtRecord True, HtSend (WriteBuf ks req)] @
        (case conn_write (str_bytes (WriteBuf ks req)) rc of
           (Some _, _) \<Rightarrow> []
         | (None, rc') \<Rightarrow> (if rd c \<noteq> [] then [HtBody (rd c)] else []) @ serv_response ks' rc'))"

definition servRequest ::
  "http \<Rightarrow> (string \<Rightarrow> bool) \<Rightarrow> string option \<Rightarrow> string list \<Rightarrow> string list \<Rightarrow> conn \<Rightarrow> http_request \<Rightarrow> conn \<Rightarrow> ht_event list" where
  "servRequest s dials relay ks ks' rc req c =
     (if h_user s \<noteq> [] \<and> h_password s \<noteq> [] \<and> extractUserPass (rq_auth req) \<noteq> Some (h_user s, h_password s)
      then [HtReply (''HTTP/1.1 407 Proxy Authentication Required'' @ crlf @ ''Proxy-Authenticate: Basic'' @ crlf @ crlf)]
      else if rq_method req = ''CONNECT'' then servHTTPS s dials relay req
      else servHTTP dials ks ks' rc req c)"

definition http_Serve ::
  "url_fns \<Rightarrow> http \<Rightarrow> (string \<Rightarrow> bool) \<Rightarrow> string option \<Rightarrow> string list \<Rightarrow> string list \<Rightarrow> conn \<Rightarrow> conn \<Rightarrow> ht_event list \<times> conn" where
  "http_Serve uf s dials relay ks ks' rc c =
     (case parseRequest uf c of
        (Inl _, c') \<Rightarrow> ([], c')
      | (Inr req, c') \<Rightarrow>
          (if h_pretend s then
             [HtReply (rq_proto req @ '' 404 Not Found'' @ crlf @ ''Server: nginx'' @ crlf @ crlf @ ''404 Not Found'' @ crlf)]
           else servRequest s dials relay ks ks' rc req c', c'))"

subsection \<open>Client\<close>

definition connect_request :: "http \<Rightarrow> string \<Rightarrow> string" where
  "connect_request s addr =
     ''CONNECT '' @ addr @ '' HTTP/1.1'' @ crlf @
     ''Host: '' @ addr @ crlf @
     ''Proxy-Connection: Keep-Alive'' @ crlf @
     (if h_user s \<noteq> [] \<and> h_password s \<noteq> []
      then ''Proxy-Authorization: Basic '' @ b64 (str_bytes (h_user s @ '':'' @ h_password s)) @ crlf else []) @
     crlf"

text \<open>\<open>Dial\<close> on the connection to the server: the error is \<open>Inl\<close>.  Errors of the header behind the status
  line are ignored.\<close>

definition http_Dial :: "http \<Rightarrow> string \<Rightarrow> unit io" where
  "http_Dial s addr =
     io_bind (io_write (str_bytes (connect_request s addr))) (\<lambda>_.
     io_bind ReadLine (\<lambda>line.
     case parseStartLine line of
       Some (_, st, _) \<Rightarrow>
         if st = ''200'' then (\<lambda>c. (Inr (), snd (ReadMIMEHeader c)))
         else io_fail (ErrMsg (''[http] can not connect remote address: '' @ addr @ ''. error code: '' @ st))
     | None \<Rightarrow> io_fail (ErrMsg (''[http] can not connect remote address: '' @ addr @ ''. error code: ''))))"

subsection \<open>The mixed listener\<close>

text \<open>\<open>Mixed.Serve\<close> peeks at the first byte and hands the connection to one of its servers.\<close>

definition mixed_Serve ::
  "socks5 \<Rightarrow> string \<Rightarrow> url_fns \<Rightarrow> http \<Rightarrow> (string \<Rightarrow> bool) \<Rightarrow> string option \<Rightarrow> string list \<Rightarrow> string list \<Rightarrow> conn \<Rightarrow> conn
    \<Rightarrow> serve_event list + ht_event list" where
  "mixed_Serve s5 laddr uf h dials relay ks ks' rc c =
     (if rd c \<noteq> [] \<and> hd (rd c) = Version then Inl (Serve s5 laddr dials relay c)
      else Inr (fst (http_Serve uf h dials relay ks ks' rc c)))"

section \<open>Credentials and headers\<close>

lemma index_byte_split: "index_byte ch s = Some i \<Longrightarrow> s = take i s @ ch # drop (Suc i) s"
  by (induction s arbitrary: i) (auto split: if_splits)

lemma extractUserPass_SomeD:
  assumes "extractUserPass auth = Some (u, p)"
  shows "\<exists>enc. auth = ''Basic '' @ enc \<and> b64_decode enc = Some (str_bytes (u @ '':'' @ p))"
proof -
  obtain b i where b: "has_prefix auth ''Basic ''" "b64_decode (drop 6 auth) = Some b"
    "index_byte CHR '':'' (bytes_str b) = Some i" "u = take i (bytes_str b)" "p = drop (Suc i) (bytes_str b)"
    using assms by (auto simp: extractUserPass_def Let_def split: if_splits option.splits)
  have "bytes_str b = u @ '':'' @ p" using index_byte_split [OF b(3)] b(4,5) by simp
  then have "b = str_bytes (u @ '':'' @ p)" by (metis str_bytes_str)
  moreover have "take 6 auth = ''Basic ''" using b(1) by (simp add: has_prefix_def eval_nat_numeral)
  then have "auth = ''Basic '' @ drop 6 auth" by (metis append_take_drop_id)
  ultimately show ?thesis using b(2) by blast
qed

lemma extractUserPass_enc:
  assumes "CHR '':'' \<notin> set u"
  shows "extractUserPass (''Basic '' @ b64 (str_bytes (u @ '':'' @ p))) = Some (u, p)"
proof -
  have "index_byte CHR '':'' (u @ '':'' @ p) = Some (length u)"
    using index_byte_append [OF assms, of p] by simp
  then show ?thesis by (simp add: extractUserPass_def has_prefix_def b64_decode_enc)
qed

lemma cleanHeaders_filter:
  "cleanHeaders h = filter (\<lambda>kv. fst kv \<notin> canon_from True ` set hop_headers) h"
proof -
  have "fold mime_del ks h = filter (\<lambda>kv. fst kv \<notin> canon_from True ` set ks) h" for ks
    by (induction ks arbitrary: h) (auto simp: mime_del_def intro: filter_cong)
  then show ?thesis by (simp add: cleanHeaders_def)
qed

text \<open>
  A server with user and password set dials for no one who does not send them: whenever the handler
  dials, the header of the request has held the credentials, encoded.
\<close>

lemma http_auth_enforced:
  assumes "h_user s \<noteq> []" "h_password s \<noteq> []"
    and "http_Serve uf s dials relay ks ks' rc c = (evs, c')" "HtDial t \<in> set evs"
  shows "\<exists>req enc. parseRequest uf c = (Inr req, c') \<and> rq_auth req = ''Basic '' @ enc \<and>
    b64_decode enc = Some (str_bytes (h_user s @ '':'' @ h_password s)) \<and>
    t = (if rq_method req = ''CONNECT'' then rq_uri req else rq_target req)"
proof -
  obtain req where req: "parseRequest uf c = (Inr req, c')" "evs = servRequest s dials relay ks ks' rc req c'"
    using assms(3,4) by (auto simp: http_Serve_def split: prod.splits sum.splits if_splits)
  then have u: "extractUserPass (rq_auth req) = Some (h_user s, h_password s)"
    using assms(1,2,4) by (auto simp: servRequest_def split: if_splits)
  have "HtDial t \<notin> set (serv_response ks rc1)" for ks rc1
    by (auto simp: serv_response_def split: prod.splits sum.splits option.splits)
  then have "t = (if rq_method req = ''CONNECT'' then rq_uri req else rq_target req)"
    using req(2) u assms(4)
    by (auto simp: servRequest_def servHTTPS_def servHTTP_def split: if_splits option.splits prod.splits)
  then show ?thesis using extractUserPass_SomeD [OF u] req(1) by blast
qed

text \<open>
  What is forwarded: none of the headers that concern only this connection is left, in particular neither
  credentials nor the transfer encoding, and the connection is announced to be closed.
\<close>

lemma canon_hop:
  "map (canon_from True) hop_headers =
     [''Proxy-Connection'', ''Connection'', ''Keep-Alive'', ''Proxy-Authenticate'', ''Proxy-Authorization'',
      ''Te'', ''Trailers'', ''Transfer-Encoding'', ''Upgrade'']"
  by code_simp

lemma request_of_fields:
  "request_of uf meth uri proto auth header u = Inr req \<Longrightarrow>
   rq_header req = header \<and> rq_auth req = auth \<and> rq_method req = meth \<and> rq_uri req = uri \<and> rq_proto req = proto"
  by (auto simp: request_of_def Let_def split: if_splits option.splits)

lemma parseRequest_header:
  assumes "parseRequest uf c = (Inr req, c')"
  shows "\<exists>h. rq_header req = mime_set ''Connection'' ''close'' (cleanHeaders h)"
proof -
  obtain line c1 where l: "ReadLine c = (Inr line, c1)"
    using assms unfolding parseRequest_def by (elim io_bind_InrE) blast
  obtain meth uri proto where p: "parseStartLine line = Some (meth, uri, proto)"
    using assms l by (auto simp: parseRequest_def io_fail_def split: option.splits)
  obtain h c2 where h: "ReadMIMEHeader c1 = (Inr h, c2)"
    using assms l p unfolding parseRequest_def by (auto elim: io_bind_InrE)
  have "\<exists>uri' u. request_of uf meth uri' proto (mime_get ''Proxy-Authorization'' h)
      (mime_set ''Connection'' ''close'' (cleanHeaders h)) u = Inr req"
    using assms l p h by (auto simp: parseRequest_def io_fail_def io_ret_def Let_def split: option.splits sum.splits if_splits)
  then show ?thesis using request_of_fields by blast
qed

lemma request_headers:
  assumes "parseRequest uf c = (Inr req, c')"
  shows "mime_values ''Connection'' (rq_header req) = [''close'']"
    "k \<in> set (map (canon_from True) hop_headers) \<Longrightarrow> k \<noteq> ''Connection'' \<Longrightarrow> mime_values k (rq_header req) = []"
proof -
  obtain h where h: "rq_header req = mime_set ''Connection'' ''close'' (cleanHeaders h)"
    using parseRequest_header [OF assms] by blast
  have c: "canon_from True ''Connection'' = ''Connection''" by code_simp
  show "mime_values ''Connection'' (rq_header req) = [''close'']"
    by (auto simp: h mime_set_def mime_values_def mime_del_def c filter_empty_conv)
  show "mime_values k (rq_header req) = []" if "k \<in> set (map (canon_from True) hop_headers)" "k \<noteq> ''Connection''"
    using that by (auto simp: h mime_set_def mime_values_def mime_del_def c cleanHeaders_filter filter_empty_conv)
qed

section \<open>Tunnels\<close>

definition auth_header :: "http \<Rightarrow> (string \<times> string) list" where
  "auth_header s =
     (if h_user s \<noteq> [] \<and> h_password s \<noteq> []
      then [(''Proxy-Authorization'', ''Basic '' @ b64 (str_bytes (h_user s @ '':'' @ h_password s)))] else [])"

definition connect_headers :: "http \<Rightarrow> string \<Rightarrow> (string \<times> string) list" where
  "connect_headers s addr = [(''Host'', addr), (''Proxy-Connection'', ''Keep-Alive'')] @ auth_header s"

text \<open>A target without characters that HTTP would not carry.\<close>

definition plain_addr :: "string \<Rightarrow> bool" where
  "plain_addr addr =
     (addr \<noteq> [] \<and> list_all (\<lambda>ch. valid_value_char ch \<and> \<not> is_blank ch) addr \<and> \<not> has_prefix addr ''/'')"

lemma connect_request_lines:
  "connect_request s addr =
     (''CONNECT '' @ addr @ '' HTTP/1.1'') @ crlf @ concat (map header_line (connect_headers s addr)) @ crlf"
  by (simp add: connect_request_def connect_headers_def auth_header_def header_line_def)

lemma good_auth_header: "list_all good_header (auth_header s)"
proof -
  let ?b = "b64 (str_bytes (h_user s @ '':'' @ h_password s))"
  have b: "\<forall>ch\<in>set ?b. valid_value_char ch \<and> \<not> is_blank ch" by (rule b64_plain)
  have ne: "?b \<noteq> []"
  proof
    assume "?b = []"
    then have "Some [] = Some (str_bytes (h_user s @ '':'' @ h_password s))"
      using b64_groups_enc [of "str_bytes (h_user s @ '':'' @ h_password s)"] by simp
    then show False by (simp add: str_bytes_def)
  qed
  have "list_all is_token ''Proxy-Authorization''" "list_all valid_value_char ''Basic ''" "\<not> is_blank CHR ''B''" by code_simp+
  then show ?thesis
    using b ne by (simp add: auth_header_def good_header_def list_all_iff)
qed

lemma good_connect_headers:
  assumes "plain_addr addr"
  shows "list_all good_header (connect_headers s addr)"
proof -
  have "list_all is_token ''Host''" by code_simp
  then have "good_header (''Host'', addr)"
    using assms by (simp add: plain_addr_def good_header_def list_all_iff)
  moreover have "good_header (''Proxy-Connection'', ''Keep-Alive'')" by code_simp
  ultimately show ?thesis using good_auth_header [of s] by (simp add: connect_headers_def)
qed

lemma parseStartLine_words:
  assumes "CHR '' '' \<notin> set a" "CHR '' '' \<notin> set b"
  shows "parseStartLine (a @ '' '' @ b @ '' '' @ t) = Some (a, b, t)"
  using index_byte_append [OF assms(1), of "b @ '' '' @ t"] index_byte_append [OF assms(2), of t]
  by (simp add: parseStartLine_def)

lemma host_kept: "mime_get ''Host'' (mime_set ''Connection'' ''close'' (cleanHeaders (connect_headers s addr))) = addr"
proof -
  have "\<not> (''Host'' \<in> set (map (canon_from True) hop_headers))" unfolding canon_hop by simp
  then have "cleanHeaders (connect_headers s addr) =
      (''Host'', addr) # cleanHeaders ([(''Proxy-Connection'', ''Keep-Alive'')] @ auth_header s)"
    by (simp add: cleanHeaders_filter connect_headers_def)
  moreover have "canon_from True ''Host'' = ''Host''" "canon_from True ''Connection'' = ''Connection''" by code_simp+
  ultimately show ?thesis by (simp add: mime_get_def mime_set_def mime_del_def)
qed

lemma parseRequest_connect:
  assumes "plain_addr addr" "rd c = str_bytes (connect_request s addr) @ rest"
    and "uf_parse uf (''http://'' @ addr) = Some u" "uf_resolve uf addr (u\<lparr>u_Scheme := []\<rparr>) \<noteq> None"
  shows "\<exists>req. parseRequest uf c = (Inr req, c\<lparr>rd := rest\<rparr>) \<and> rq_method req = ''CONNECT'' \<and> rq_uri req = addr \<and>
    rq_auth req = mime_get ''Proxy-Authorization'' (connect_headers s addr)"
proof -
  let ?hs = "connect_headers s addr"
  have plain: "CHR '' '' \<notin> set addr" "CHR 0x0A \<notin> set addr" "\<not> has_prefix addr ''/''"
  proof -
    have "is_blank CHR '' ''" "\<not> valid_value_char CHR 0x0A" by code_simp+
    then show "CHR '' '' \<notin> set addr" "CHR 0x0A \<notin> set addr" "\<not> has_prefix addr ''/''"
      using assms(1) by (auto simp: plain_addr_def list_all_iff)
  qed
  let ?c = "c\<lparr>rd := str_bytes (concat (map header_line ?hs) @ crlf) @ rest\<rparr>"
  have line: "ReadLine c = (Inr (''CONNECT '' @ addr @ '' HTTP/1.1''), ?c)"
    by (rule ReadLine_crlf) (use assms(2) plain(2) in \<open>simp_all add: connect_request_lines str_bytes_def\<close>)
  have start: "parseStartLine (''CONNECT '' @ addr @ '' HTTP/1.1'') = Some (''CONNECT'', addr, ''HTTP/1.1'')"
    using parseStartLine_words [of "''CONNECT''" addr "''HTTP/1.1''"] plain(1) by simp
  have canon: "map (\<lambda>h. (canon_from True (fst h), snd h)) ?hs = ?hs"
  proof -
    have "canon_from True ''Host'' = ''Host''" "canon_from True ''Proxy-Connection'' = ''Proxy-Connection''"
      "canon_from True ''Proxy-Authorization'' = ''Proxy-Authorization''" by code_simp+
    then show ?thesis by (simp add: connect_headers_def auth_header_def)
  qed
  have hdr: "ReadMIMEHeader ?c = (Inr ?hs, ?c\<lparr>rd := rest\<rparr>)"
    using ReadMIMEHeader_lines [OF good_connect_headers [OF assms(1)], of ?c s rest] canon by simp
  let ?h = "mime_set ''Connection'' ''close'' (cleanHeaders ?hs)"
  have host: "mime_get ''Host'' ?h = addr" by (rule host_kept)
  obtain req where req: "request_of uf ''CONNECT'' addr ''HTTP/1.1'' (mime_get ''Proxy-Authorization'' ?hs) ?h (u\<lparr>u_Scheme := []\<rparr>) = Inr req"
    using assms(4) host by (auto simp: request_of_def Let_def)
  have "parseRequest uf c = (Inr req, c\<lparr>rd := rest\<rparr>)"
    using line start hdr req plain(3) assms(3) by (simp add: parseRequest_def Let_def io_ret_def)
  then show ?thesis using request_of_fields [OF req] by blast
qed

definition tunnel_reply :: string where
  "tunnel_reply = ''HTTP/1.1 200 Connection established'' @ crlf @ crlf"

lemma mime_get_auth:
  "mime_get ''Proxy-Authorization'' (connect_headers s addr) =
     (if h_user s \<noteq> [] \<and> h_password s \<noteq> []
      then ''Basic '' @ b64 (str_bytes (h_user s @ '':'' @ h_password s)) else [])"
proof -
  have "canon_from True ''Proxy-Authorization'' = ''Proxy-Authorization''" by code_simp
  then show ?thesis by (simp add: mime_get_def connect_headers_def auth_header_def)
qed

lemma http_Dial_accepts:
  assumes "wleft c = None" "rd c = str_bytes tunnel_reply @ rest"
  shows "http_Dial s addr c = (Inr (), c\<lparr>rd := rest, wr := wr c @ str_bytes (connect_request s addr)\<rparr>)"
proof -
  let ?c = "c\<lparr>wr := wr c @ str_bytes (connect_request s addr)\<rparr>"
  have line: "ReadLine ?c = (Inr ''HTTP/1.1 200 Connection established'', ?c\<lparr>rd := str_bytes crlf @ rest\<rparr>)"
    by (rule ReadLine_crlf) (use assms(2) in \<open>simp_all add: tunnel_reply_def str_bytes_def\<close>)
  have start: "parseStartLine ''HTTP/1.1 200 Connection established'' =
      Some (''HTTP/1.1'', ''200'', ''Connection established'')" by code_simp
  have hdr: "ReadMIMEHeader (?c\<lparr>rd := str_bytes crlf @ rest\<rparr>) = (Inr [], ?c\<lparr>rd := rest\<rparr>)"
    using ReadMIMEHeader_lines [of "[]" "?c\<lparr>rd := str_bytes crlf @ rest\<rparr>" rest] by simp
  show ?thesis using assms(1) line start hdr by (simp add: http_Dial_def)
qed

text \<open>
  Property C7. A client's \<open>CONNECT\<close> through a server that needs no credentials, or the client's own: the server
  dials exactly the client's address and leaves the client's data for the relay, and the client accepts the
  server's answer and is left with the data behind it.
\<close>

theorem http_client_served:
  assumes "plain_addr addr" "uf_parse uf (''http://'' @ addr) = Some u"
    and "uf_resolve uf addr (u\<lparr>u_Scheme := []\<rparr>) \<noteq> None"
    and "h_user srv = [] \<or> h_password srv = [] \<or>
      h_user cl = h_user srv \<and> h_password cl = h_password srv \<and> CHR '':'' \<notin> set (h_user srv)"
    and "\<not> h_pretend srv" "dials addr"
  shows "\<exists>reply.
    http_Serve uf srv dials None ks ks' rc (open_conn (str_bytes (connect_request cl addr) @ payload)) =
      ([HtDial addr, HtRecord True, HtReply reply, HtRelay], open_conn payload) \<and>
    http_Dial cl addr (open_conn (str_bytes reply @ behind)) =
      (Inr (), (open_conn behind)\<lparr>wr := str_bytes (connect_request cl addr)\<rparr>)"
proof -
  let ?c = "open_conn (str_bytes (connect_request cl addr) @ payload)"
  obtain req where req: "parseRequest uf ?c = (Inr req, open_conn payload)" "rq_method req = ''CONNECT''" "rq_uri req = addr"
    "rq_auth req = mime_get ''Proxy-Authorization'' (connect_headers cl addr)"
    using parseRequest_connect [of addr ?c cl payload uf u] assms(1-3) by (auto simp: open_conn_def)
  have "h_user srv = [] \<or> h_password srv = [] \<or> extractUserPass (rq_auth req) = Some (h_user srv, h_password srv)"
    using assms(4) extractUserPass_enc [of "h_user srv" "h_password srv"] unfolding req(4) mime_get_auth by auto
  then have "http_Serve uf srv dials None ks ks' rc ?c =
      ([HtDial addr, HtRecord True, HtReply tunnel_reply, HtRelay], open_conn payload)"
    using req(1-3) assms(5,6) by (auto simp: http_Serve_def servRequest_def servHTTPS_def tunnel_reply_def)
  moreover have "http_Dial cl addr (open_conn (str_bytes tunnel_reply @ behind)) =
      (Inr (), (open_conn behind)\<lparr>wr := str_bytes (connect_request cl addr)\<rparr>)"
    using http_Dial_accepts [of "open_conn (str_bytes tunnel_reply @ behind)" behind cl addr] by (simp add: open_conn_def)
  ultimately show ?thesis by blast
qed

text \<open>Functions on urls for the witnesses: enough of \<open>net/url\<close> for authorities.\<close>

definition demo_urls :: url_fns where
  "demo_urls =
     \<lparr>uf_parse = (\<lambda>s. if has_prefix s ''http://''
        then Some \<lparr>u_Scheme = ''http'', u_Opaque = [], u_hasUser = False, u_User = [], u_Pass = [], u_Host = drop 7 s,
               u_Path = [], u_RawQuery = [], u_Fragment = []\<rparr> else None),
      uf_String = (\<lambda>u. u_Scheme u @ ''://'' @ u_Host u), uf_resolve = (\<lambda>h u. Some (''http://'' @ h))\<rparr>"

definition demo_http :: http where
  "demo_http = \<lparr>h_addr = ''proxy:8080'', h_user = ''u'', h_password = ''p'', h_pretend = False\<rparr>"

lemma demo_served:
  "plain_addr ''a:443''" "uf_parse demo_urls (''http://'' @ ''a:443'') \<noteq> None"
  "uf_resolve demo_urls ''a:443'' u \<noteq> None"
  by (simp_all add: demo_urls_def has_prefix_def) code_simp

theorem http_client_served_witness:
  "\<exists>reply.
    http_Serve demo_urls demo_http (\<lambda>_. True) None [] [] (open_conn []) (open_conn (str_bytes (connect_request demo_http ''a:443'') @ [1])) =
      ([HtDial ''a:443'', HtRecord True, HtReply reply, HtRelay], open_conn [1]) \<and>
    http_Dial demo_http ''a:443'' (open_conn (str_bytes reply @ [2])) =
      (Inr (), (open_conn [2])\<lparr>wr := str_bytes (connect_request demo_http ''a:443'')\<rparr>)"
proof -
  obtain u where "uf_parse demo_urls (''http://'' @ ''a:443'') = Some u" using demo_served(2) by blast
  then show ?thesis
    by (rule http_client_served [OF demo_served(1) _ demo_served(3)]) (simp_all add: demo_http_def)
qed

section \<open>The listener for both protocols\<close>

definition mixed_dials :: "serve_event list + ht_event list \<Rightarrow> string \<Rightarrow> bool" where
  "mixed_dials r t = (case r of Inl evs \<Rightarrow> EvDial t \<in> set evs | Inr evs \<Rightarrow> HtDial t \<in> set evs)"

lemma Serve_dials:
  assumes "EvDial t \<in> set (Serve s laddr dials relay c)"
  shows "\<exists>r c'. handshake s laddr c = (Inr r, c')"
  using assms by (cases "handshake s laddr c") (auto simp: Serve_def split: sum.splits)



section \<open>Bodies\<close>

text \<open>
  A forwarded request loses its transfer encoding while its body is copied as it came: whatever the
  client announced, the request sent on has no \<open>Transfer-Encoding\<close>, and the bytes behind the client's header
  follow, so that a chunked body reaches the remote side without the header that frames it.
\<close>

lemma http_body_unframed:
  assumes "http_Serve uf s dials relay ks ks' rc c = (evs, c')" "HtSend out \<in> set evs"
    and "wleft rc = None" "rd c' \<noteq> []"
  shows "\<exists>req. parseRequest uf c = (Inr req, c') \<and> out = WriteBuf ks req \<and>
    mime_values ''Transfer-Encoding'' (rq_header req) = [] \<and> HtBody (rd c') \<in> set evs"
proof -
  obtain req where req: "parseRequest uf c = (Inr req, c')" "evs = servRequest s dials relay ks ks' rc req c'"
    using assms(1,2) by (auto simp: http_Serve_def split: prod.splits sum.splits if_splits)
  have no: "HtSend out \<notin> set (serv_response ks1 rc1)" for ks1 rc1
    by (auto simp: serv_response_def split: prod.splits sum.splits option.splits)
  have no2: "HtSend out \<notin> set (servHTTPS s dials relay req)" by (simp add: servHTTPS_def split: option.splits)
  have "HtSend out \<in> set (servHTTP dials ks ks' rc req c')" "evs = servHTTP dials ks ks' rc req c'"
    using req(2) assms(2) no2 by (auto simp: servRequest_def split: if_splits)
  then have "out = WriteBuf ks req" "HtBody (rd c') \<in> set evs"
    using assms(3,4) no by (auto simp: servHTTP_def split: if_splits)
  moreover have "mime_values ''Transfer-Encoding'' (rq_header req) = []"
    by (rule request_headers(2) [OF req(1)]) (simp_all add: canon_hop del: set_map)
  ultimately show ?thesis using req(1) by blast
qed

definition chunked_post :: string where
  "chunked_post = ''POST http://a:80 HTTP/1.1'' @ crlf @ ''Transfer-Encoding: chunked'' @ crlf @ crlf"

lemma http_body_unframed_witness:
  "\<exists>req. parseRequest demo_urls (open_conn (str_bytes chunked_post @ [0x35])) = (Inr req, open_conn [0x35]) \<and>
     mime_values ''Transfer-Encoding'' (rq_header req) = [] \<and>
     HtBody [0x35] \<in> set (fst (http_Serve demo_urls (demo_http\<lparr>h_user := []\<rparr>) (\<lambda>_. True) None [] [] (open_conn [])
       (open_conn (str_bytes chunked_post @ [0x35]))))"
proof -
  let ?c = "open_conn (str_bytes chunked_post @ [0x35])"
  let ?s = "demo_http\<lparr>h_user := []\<rparr>"
  let ?c1 = "open_conn (str_bytes (concat (map header_line [(''Transfer-Encoding'', ''chunked'')]) @ crlf) @ [0x35])"
  have line: "ReadLine ?c = (Inr ''POST http://a:80 HTTP/1.1'', ?c1)"
    using ReadLine_crlf [of ?c "''POST http://a:80 HTTP/1.1''" "rd ?c1"]
    by (simp add: chunked_post_def str_bytes_def header_line_def)
  have start: "parseStartLine ''POST http://a:80 HTTP/1.1'' = Some (''POST'', ''http://a:80'', ''HTTP/1.1'')" by code_simp
  have good: "list_all good_header [(''Transfer-Encoding'', ''chunked'')]" by code_simp
  have hdr: "\<exists>h. ReadMIMEHeader ?c1 = (Inr h, open_conn [0x35])"
    using ReadMIMEHeader_lines [OF good, of ?c1 "[0x35]"] by (auto simp: open_conn_def)
  obtain u where u: "uf_parse demo_urls ''http://a:80'' = Some u" "u_Scheme u \<noteq> []"
    by (simp add: demo_urls_def has_prefix_def)
  obtain req where req: "parseRequest demo_urls ?c = (Inr req, open_conn [0x35])" "rq_method req = ''POST''"
    using line start hdr u by (auto simp: parseRequest_def Let_def request_of_def io_ret_def)
  obtain out where "HtSend out \<in> set (fst (http_Serve demo_urls ?s (\<lambda>_. True) None [] [] (open_conn []) ?c))"
    using req by (auto simp: http_Serve_def demo_http_def servRequest_def servHTTP_def)
  moreover have "http_Serve demo_urls ?s (\<lambda>_. True) None [] [] (open_conn []) ?c =
      (fst (http_Serve demo_urls ?s (\<lambda>_. True) None [] [] (open_conn []) ?c), open_conn [0x35])"
    using req by (simp add: http_Serve_def)
  ultimately show ?thesis
    using http_body_unframed [of demo_urls ?s "\<lambda>_. True" None "[]" "[]" "open_conn []" ?c
        "fst (http_Serve demo_urls ?s (\<lambda>_. True) None [] [] (open_conn []) ?c)" "open_conn [0x35]" out] by auto
qed

end
