(* ===== verification/Socks4.thy ===== *)
theory Socks4
  imports Net_Addr
begin

text \<open>
  The SOCKS4 and SOCKS4a client (\<open>proxy/socks4\<close>): the request for a target and the answer.  The lemmas compare
  the request with the format of the protocol, given as a decoder.
\<close>

section \<open>Model\<close>

record socks4 =
  s4_addr :: string
  s4_socks4a :: bool

definition NewSOCKS4 :: "url option \<Rightarrow> socks4 result" where
  "NewSOCKS4 pu =
     (case pu of
        None \<Rightarrow> Inl (ErrMsg ''parse err'')
      | Some u \<Rightarrow> Inr \<lparr>s4_addr = u_Host u, s4_socks4a = (u_Scheme u = ''socks4a'')\<rparr>)"

text \<open>\<open>net.ParseIP\<close>, which knows no zones, and \<open>IP.To4\<close>.\<close>

definition ParseIP :: "string \<Rightarrow> bytes option" where
  "ParseIP s =
     (case ParseAddr s of
        Some (Addr4 b) \<Rightarrow> Some b
      | Some (Addr6 b z) \<Rightarrow> if z = [] then Some b else None
      | _ \<Rightarrow> None)"

definition To4 :: "bytes \<Rightarrow> bytes option" where
  "To4 ip =
     (if length ip = 4 then Some ip
      else if length ip = 16 \<and> v4_in_v6 ip then Some (drop 12 ip) else None)"

text \<open>\<open>lookup\<close> is \<open>net.LookupIP\<close>; \<open>None\<close> is its error.\<close>

definition lookupIP :: "(string \<Rightarrow> bytes list option) \<Rightarrow> string \<Rightarrow> bytes result" where
  "lookupIP lookup host =
     (case lookup host of
        None \<Rightarrow> Inl (ErrMsg ''lookup'')
      | Some [] \<Rightarrow> Inl (ErrMsg ''[socks4] Cannot resolve host'')
      | Some (ip # _) \<Rightarrow>
          (case To4 ip of
             None \<Rightarrow> Inl (ErrMsg ''[socks4] IPv6 is not supported by socks4'')
           | Some b \<Rightarrow> Inr b))"

text \<open>The address in the request, and whether the name follows it.\<close>

definition request_ip :: "socks4 \<Rightarrow> (string \<Rightarrow> bytes list option) \<Rightarrow> string \<Rightarrow> (bytes \<times> bool) result" where
  "request_ip s lookup host =
     (case ParseIP host of
        None \<Rightarrow>
          if s4_socks4a s then Inr ([0, 0, 0, 1], True)
          else (case lookupIP lookup host of Inl e \<Rightarrow> Inl e | Inr ip \<Rightarrow> Inr (ip, False))
      | Some ip \<Rightarrow>
          (case To4 ip of
             None \<Rightarrow> Inl (ErrMsg ''[socks4] IPv6 is not supported by socks4'')
           | Some b \<Rightarrow> Inr (b, False)))"

definition socks4_request :: "nat \<Rightarrow> bytes \<Rightarrow> bool \<Rightarrow> string \<Rightarrow> bytes" where
  "socks4_request port ip named host =
     [4, 1] @ put16 (of_nat port) @ ip @ [0] @ (if named then str_bytes host @ [0] else [])"

definition socks4_connect :: "socks4 \<Rightarrow> (string \<Rightarrow> bytes list option) \<Rightarrow> string \<Rightarrow> unit io" where
  "socks4_connect s lookup target =
     (case SplitHostPort target of
        Inl e \<Rightarrow> io_fail e
      | Inr (host, portStr) \<Rightarrow>
          (case parse_uint 16 portStr of
             None \<Rightarrow> io_fail (ErrMsg ''[socks4] failed to parse port number'')
           | Some port \<Rightarrow>
               (case request_ip s lookup host of
                  Inl e \<Rightarrow> io_fail e
                | Inr (ip, named) \<Rightarrow>
                    io_bind (io_relabel ''[socks4] failed to write greeting'' (io_write (socks4_request port ip named host))) (\<lambda>_.
                    io_bind (io_relabel ''[socks4] failed to read greeting'' (read_full 8)) (\<lambda>resp.
                    if resp ! 1 = 0x5A then io_ret ()
                    else if resp ! 1 = 0x5B then io_fail (ErrMsg ''[socks4] connection request rejected or failed'')
                    else if resp ! 1 = 0x5C then io_fail (ErrMsg ''[socks4] client is not running identd'')
                    else if resp ! 1 = 0x5D then io_fail (ErrMsg ''[socks4] identd could not confirm the user ID'')
                    else io_fail (ErrMsg ''[socks4] connection request failed, unknown error''))))))"

text \<open>\<open>Dial\<close>: \<open>rc\<close> is the connection to the server, when the dialer reaches it.\<close>

definition socks4_Dial ::
  "socks4 \<Rightarrow> (string \<Rightarrow> bytes list option) \<Rightarrow> conn option \<Rightarrow> string \<Rightarrow> string \<Rightarrow> conn result" where
  "socks4_Dial s lookup rc network addr =
     (if network \<noteq> ''tcp'' \<and> network \<noteq> ''tcp4'' then Inl (ErrMsg ''[socks4] no support for connection type'')
      else
        case rc of
          None \<Rightarrow> Inl (ErrMsg ''dial error'')
        | Some c \<Rightarrow> (case socks4_connect s lookup addr c of (Inl e, _) \<Rightarrow> Inl e | (Inr _, c') \<Rightarrow> Inr c'))"

section \<open>The format of requests\<close>

datatype s4_dest = ByIP bytes | ByName bytes

text \<open>The protocol: version, command, port, address, the user id up to a zero byte and, when the address is
  \<open>0.0.0.x\<close> with \<open>x\<close> not zero, the name up to a zero byte.\<close>

definition cut_zero :: "bytes \<Rightarrow> (bytes \<times> bytes) option" where
  "cut_zero b =
     (case dropWhile (\<lambda>x. x \<noteq> 0) b of [] \<Rightarrow> None | _ # r \<Rightarrow> Some (takeWhile (\<lambda>x. x \<noteq> 0) b, r))"

fun socks4_decode :: "bytes \<Rightarrow> (u16 \<times> s4_dest \<times> bytes) option" where
  "socks4_decode (v # cmd # p1 # p2 # a # b # c # d # r) =
     (if v \<noteq> 4 \<or> cmd \<noteq> 1 then None
      else
        case cut_zero r of
          None \<Rightarrow> None
        | Some (_, r1) \<Rightarrow>
            if a = 0 \<and> b = 0 \<and> c = 0 \<and> d \<noteq> 0 then
              (case cut_zero r1 of
                 None \<Rightarrow> None
               | Some (name, r2) \<Rightarrow> Some (be16 p1 p2, ByName name, r2))
            else Some (be16 p1 p2, ByIP [a, b, c, d], r1))"
| "socks4_decode _ = None"

lemma cut_zero_append: "0 \<notin> set n \<Longrightarrow> cut_zero (n @ 0 # r) = Some (n, r)"
  by (simp add: cut_zero_def takeWhile_append dropWhile_append)

lemma To4_length: "To4 ip = Some b \<Longrightarrow> length b = 4"
  by (auto simp: To4_def split: if_splits)

text \<open>
  A server that follows the protocol reads the port and the destination the client was asked for: by name
  exactly for a SOCKS4a client and a host that is no address, by address otherwise.  The hypothesis on the
  address excludes \<open>0.0.0.x\<close>, which the protocol reserves.
\<close>

lemma socks4_request_decodes:
  assumes "request_ip s lookup host = Inr (ip, named)" "port < 65536" "CHR 0x00 \<notin> set host"
    and "named \<or> take 3 ip \<noteq> [0, 0, 0]"
  shows "socks4_decode (socks4_request port ip named host @ rest) =
    Some (of_nat port, if named then ByName (str_bytes host) else ByIP ip, rest)"
proof -
  have "length ip = 4"
    using assms(1) To4_length
    by (auto simp: request_ip_def lookupIP_def split: option.splits sum.splits if_splits list.splits)
  then obtain a b c d where ip: "ip = [a, b, c, d]"
    by (auto simp: length_Suc_conv eval_nat_numeral)
  have n: "ip = [0, 0, 0, 1]" if named
    using assms(1) that by (auto simp: request_ip_def split: option.splits sum.splits if_splits)
  have "byte_of_char CHR 0x00 = 0" by code_simp
  then have z: "byte_of_char ch = 0 \<longleftrightarrow> ch = CHR 0x00" for ch
    by (metis char_of_byte_of_char)
  have h: "0 \<notin> set (str_bytes host)"
  proof
    assume "0 \<in> set (str_bytes host)"
    then obtain ch where "ch \<in> set host" "byte_of_char ch = 0" unfolding str_bytes_def by force
    with z [of ch] assms(3) show False by simp
  qed
  obtain p1 p2 where p: "put16 (of_nat port) = [p1, p2]" "be16 p1 p2 = of_nat port"
    using be16_put16 [of "of_nat port"] unfolding put16_def by blast
  have u: "cut_zero (0 # r) = Some ([], r)" for r using cut_zero_append [of "[]"] by simp
  show ?thesis
    using assms(4) ip n p cut_zero_append [OF h, of rest] u
    by (auto simp: socks4_request_def)
qed

text \<open>The client is told of success exactly by the code \<open>0x5A\<close>.\<close>

lemma socks4_granted_iff:
  assumes "wleft c = None" "rd c = resp @ rest" "length resp = 8"
    and "SplitHostPort target = Inr (host, p)" "parse_uint 16 p = Some port" "request_ip s lookup host = Inr (ip, named)"
  shows "(fst (socks4_connect s lookup target c) = Inr ()) \<longleftrightarrow> resp ! 1 = 0x5A"
proof -
  let ?c = "c\<lparr>wr := wr c @ socks4_request port ip named host\<rparr>"
  have "read_full 8 ?c = (Inr resp, ?c\<lparr>rd := rest\<rparr>)" using assms(2,3) by (intro read_full_ok) simp_all
  then show ?thesis using assms by (simp add: socks4_connect_def io_relabel_def io_ret_def io_fail_def)
qed

end
