(* ===== verification/Proxy_Source.thy ===== *)
theory Proxy_Source
  imports Net_Addr "HOL-Library.Char_ord" "HOL-Library.List_Lexorder"
begin

text \<open>
  Fetching proxies from proxy-pool servers (\<open>internal/proxysource/proxysource.go\<close>): cleaning the list
  of sources, one request per source, and merging the answers into one list without duplicates,
  sorted by address.

  \<open>url.Parse\<close> and \<open>URL.String\<close>, the HTTP client and the JSON decoder are arguments.  The requests run
  concurrently; the order in which they finish is an argument of the model, and the result does not
  depend on it.  Go compares strings byte by byte, as the lexicographic order on \<open>string\<close> does.
\<close>

section \<open>Model\<close>

definition maxResponseSize :: nat where
  "maxResponseSize = 4 * 2 ^ 20"

record proxy_entry =
  p_IP :: string
  p_Port :: int
  p_Protocol :: string
  p_Source :: string
  p_Validated :: bool

record sourceError =
  se_Source :: string
  se_Error :: go_error

record sourceStatus =
  ss_Source :: string
  ss_Success :: bool
  ss_ProxyCount :: nat
  ss_DurationMS :: int
  ss_Error :: "go_error option"

record fetchResult =
  r_Proxies :: "proxy_entry list"
  r_Errors :: "sourceError list"
  r_Sources :: "sourceStatus list"

subsection \<open>Host names and sources\<close>

definition label_char :: "char \<Rightarrow> bool" where
  "label_char ch = (is_lower ch \<or> is_upper ch \<or> is_digit ch \<or> ch = CHR ''-'')"

definition good_label :: "string \<Rightarrow> bool" where
  "good_label label =
     (\<not> (length label = 0 \<or> length label > 63 \<or> hd label = CHR ''-'' \<or> last label = CHR ''-'') \<and>
      list_all label_char label)"

definition normalizeHost :: "string \<Rightarrow> string option" where
  "normalizeHost h0 =
     (let host = trim_space h0 in
      if host = [] then None
      else
        case ParseAddr host of
          Some a \<Rightarrow> Some (addr_string (Unmap a))
        | None \<Rightarrow>
            if length host > 253 then None
            else
              let host = trim_suffix host ''.'' in
              if host = [] then None
              else if list_all good_label (split_on CHR ''.'' host) then Some (to_lower host)
              else None)"

definition clean_source :: "string \<Rightarrow> string" where
  "clean_source s = trim_right (\<lambda>ch. ch = CHR ''/'') (trim_space s)"

fun uniqueSources_loop :: "string list \<Rightarrow> string list \<Rightarrow> string list" where
  "uniqueSources_loop seen [] = []"
| "uniqueSources_loop seen (s0 # ss) =
     (let s = clean_source s0 in
      if s = [] \<or> has_prefix s ''#'' then uniqueSources_loop seen ss
      else if s \<in> set seen then uniqueSources_loop seen ss
      else s # uniqueSources_loop (s # seen) ss)"

definition uniqueSources :: "string list \<Rightarrow> string list" where
  "uniqueSources ss = uniqueSources_loop [] ss"

subsection \<open>One request\<close>

definition sourceEndpoint :: "(string \<Rightarrow> url option) \<Rightarrow> (url \<Rightarrow> string) \<Rightarrow> string \<Rightarrow> string result" where
  "sourceEndpoint parse url_String src =
     (case parse src of
        None \<Rightarrow> Inl (ErrMsg ''invalid source URL'')
      | Some u \<Rightarrow>
          if u_Scheme u \<noteq> ''http'' \<and> u_Scheme u \<noteq> ''https'' then Inl (ErrMsg ''unsupported source URL scheme'')
          else if u_Host u = [] \<or> u_Hostname u = [] \<or> u_Opaque u \<noteq> [] then Inl (ErrMsg ''invalid source URL'')
          else Inr (url_String (u\<lparr>u_Path := trim_right (\<lambda>ch. ch = CHR ''/'') (u_Path u) @ ''/proxies_status'',
                                  u_RawQuery := [], u_Fragment := []\<rparr>)))"

text \<open>\<open>get\<close> performs the request: the status code and the body.\<close>

record fetcher =
  ft_parse :: "string \<Rightarrow> url option"
  ft_String :: "url \<Rightarrow> string"
  ft_get :: "string \<Rightarrow> (int \<times> bytes) result"
  ft_decode :: "bytes \<Rightarrow> proxy_entry list option"

definition fetchSource :: "fetcher \<Rightarrow> string \<Rightarrow> proxy_entry list result" where
  "fetchSource ft src =
     (case sourceEndpoint (ft_parse ft) (ft_String ft) src of
        Inl e \<Rightarrow> Inl e
      | Inr endpoint \<Rightarrow>
          (case ft_get ft endpoint of
             Inl e \<Rightarrow> Inl e
           | Inr (status, resp) \<Rightarrow>
               if status < 200 \<or> status \<ge> 300 then Inl (ErrMsg ''unexpected HTTP status'')
               else
                 let body = take (maxResponseSize + 1) resp in
                 if length body > maxResponseSize then Inl (ErrMsg ''response exceeds limit'')
                 else (case ft_decode ft body of
                         None \<Rightarrow> Inl (ErrMsg ''decode response'')
                       | Some ps \<Rightarrow> Inr ps)))"

subsection \<open>Merging\<close>

definition proxy_key :: "proxy_entry \<Rightarrow> string" where
  "proxy_key p = p_Protocol p @ ''://'' @ JoinHostPort (p_IP p) (show_int (p_Port p))"

text \<open>The body of the inner loop up to the duplicate check: the entry in its normal form, \<open>None\<close> where the
  code continues.\<close>

definition accept_proxy :: "string \<Rightarrow> string \<Rightarrow> proxy_entry \<Rightarrow> proxy_entry option" where
  "accept_proxy protocol src p0 =
     (let p = p0\<lparr>p_Protocol := to_lower (trim_space (p_Protocol p0))\<rparr> in
      if p_Protocol p \<noteq> protocol \<or> \<not> p_Validated p then None
      else
        case normalizeHost (p_IP p) of
          None \<Rightarrow> None
        | Some host \<Rightarrow>
            if p_Port p < 1 \<or> p_Port p > 65535 then None
            else Some (p\<lparr>p_IP := host, p_Source := (if p_Source p = [] then src else p_Source p)\<rparr>))"

type_synonym merge_state = "string list \<times> proxy_entry list"

fun merge_proxies :: "string \<Rightarrow> string \<Rightarrow> proxy_entry list \<Rightarrow> nat \<Rightarrow> merge_state \<Rightarrow> nat \<times> merge_state" where
  "merge_proxies protocol src [] n st = (n, st)"
| "merge_proxies protocol src (p0 # ps) n (seen, out) =
     (case accept_proxy protocol src p0 of
        None \<Rightarrow> merge_proxies protocol src ps n (seen, out)
      | Some p \<Rightarrow>
          if proxy_key p \<in> set seen then merge_proxies protocol src ps n (seen, out)
          else merge_proxies protocol src ps (n + 1) (proxy_key p # seen, out @ [p]))"

text \<open>One source's answer with the time it took.\<close>

type_synonym source_result = "proxy_entry list result \<times> int"

fun merge_results ::
  "string \<Rightarrow> (string \<times> source_result) list \<Rightarrow> string list \<Rightarrow> fetchResult \<Rightarrow> fetchResult" where
  "merge_results protocol [] seen r = r"
| "merge_results protocol ((src, Inl e, d) # rs) seen r =
     merge_results protocol rs seen
       (r\<lparr>r_Errors := r_Errors r @ [\<lparr>se_Source = src, se_Error = e\<rparr>],
          r_Sources := r_Sources r @ [\<lparr>ss_Source = src, ss_Success = False, ss_ProxyCount = 0,
                                        ss_DurationMS = d, ss_Error = Some e\<rparr>]\<rparr>)"
| "merge_results protocol ((src, Inr ps, d) # rs) seen r =
     (case merge_proxies protocol src ps 0 (seen, r_Proxies r) of
        (n, seen', out) \<Rightarrow>
          merge_results protocol rs seen'
            (r\<lparr>r_Proxies := out,
               r_Sources := r_Sources r @ [\<lparr>ss_Source = src, ss_Success = True, ss_ProxyCount = n,
                                             ss_DurationMS = d, ss_Error = None\<rparr>]\<rparr>))"

text \<open>The workers write into the slots of the result array, in the order in which they finish.\<close>

definition fill_results ::
  "fetcher \<Rightarrow> (nat \<Rightarrow> int) \<Rightarrow> string list \<Rightarrow> nat list \<Rightarrow> source_result option list" where
  "fill_results ft dur srcs order =
     foldl (\<lambda>rs i. rs[i := Some (fetchSource ft (srcs ! i), dur i)]) (replicate (length srcs) None) order"

text \<open>A slot that no worker filled would hold the zero value, an empty answer.\<close>

definition slot :: "source_result option \<Rightarrow> source_result" where
  "slot x = (case x of None \<Rightarrow> (Inr [], 0) | Some r \<Rightarrow> r)"

definition FetchWithOptions ::
  "fetcher \<Rightarrow> (nat \<Rightarrow> int) \<Rightarrow> nat list \<Rightarrow> string list \<Rightarrow> string \<Rightarrow> fetchResult" where
  "FetchWithOptions ft dur order sources protocol0 =
     (let protocol = to_lower (trim_space protocol0);
          empty = \<lparr>r_Proxies = [], r_Errors = [], r_Sources = []\<rparr>;
          srcs = uniqueSources sources
      in if srcs = [] then empty
         else
           let results = map slot (fill_results ft dur srcs order);
               r = merge_results protocol (zip srcs results) [] empty
           in r\<lparr>r_Proxies := sort_key proxy_key (r_Proxies r)\<rparr>)"

section \<open>The sources\<close>

lemma uniqueSources_loop_uniq:
  "uniqueSources_loop seen ss =
   uniq_by (\<lambda>s. s) seen (filter (\<lambda>s. s \<noteq> [] \<and> \<not> has_prefix s ''#'') (map clean_source ss))"
  by (induction seen ss rule: uniqueSources_loop.induct) (auto simp: Let_def)

lemma uniqueSources_distinct: "distinct (uniqueSources ss)"
  using uniq_by_distinct [of "\<lambda>s. s"] by (simp add: uniqueSources_def uniqueSources_loop_uniq)

lemma uniqueSources_set:
  "set (uniqueSources ss) = {s \<in> clean_source ` set ss. s \<noteq> [] \<and> \<not> has_prefix s ''#''}"
  using uniq_by_keys [of "\<lambda>s. s" "filter (\<lambda>s. s \<noteq> [] \<and> \<not> has_prefix s ''#'') (map clean_source ss)"]
  by (auto simp: uniqueSources_def uniqueSources_loop_uniq)

section \<open>The schedule\<close>

lemma fill_slots:
  assumes "set order \<subseteq> {..<length rs}"
  shows "length (foldl (\<lambda>rs i. rs[i := f i]) rs order) = length rs \<and>
    (\<forall>j < length rs. foldl (\<lambda>rs i. rs[i := f i]) rs order ! j = (if j \<in> set order then f j else rs ! j))"
  using assms by (induction order arbitrary: rs) (auto simp: nth_list_update)

lemma fill_results_all:
  assumes "set order = {..<length srcs}"
  shows "map slot (fill_results ft dur srcs order) =
    map (\<lambda>i. (fetchSource ft (srcs ! i), dur i)) [0..<length srcs]"
  using assms fill_slots [of order "replicate (length srcs) None" "\<lambda>i. Some (fetchSource ft (srcs ! i), dur i)"]
  by (intro nth_equalityI) (auto simp: fill_results_def slot_def)

section \<open>Merging is removal of duplicates\<close>

definition accepted_of :: "string \<Rightarrow> string \<times> source_result \<Rightarrow> proxy_entry list" where
  "accepted_of protocol x =
     (case x of (src, Inl _, _) \<Rightarrow> [] | (src, Inr ps, _) \<Rightarrow> List.map_filter (accept_proxy protocol src) ps)"

lemma merge_proxies_uniq:
  "merge_proxies protocol src ps n (seen, out) =
   (let new = uniq_by proxy_key seen (List.map_filter (accept_proxy protocol src) ps)
    in (n + length new, rev (map proxy_key new) @ seen, out @ new))"
  by (induction ps arbitrary: n seen out)
    (auto simp: Let_def List.map_filter_simps split: option.splits)

lemma merge_results_proxies:
  "r_Proxies (merge_results protocol rs seen r) =
   r_Proxies r @ uniq_by proxy_key seen (concat (map (accepted_of protocol) rs))"
proof (induction protocol rs seen r rule: merge_results.induct)
  case (3 protocol src ps d rs seen r)
  then show ?case by (simp add: merge_proxies_uniq Let_def accepted_of_def uniq_by_append)
qed (simp_all add: accepted_of_def)

lemma merge_results_sources:
  "map ss_Source (r_Sources (merge_results protocol rs seen r)) = map ss_Source (r_Sources r) @ map fst rs"
  by (induction protocol rs seen r rule: merge_results.induct) (auto split: prod.splits)

lemma merge_results_success:
  "map ss_Success (r_Sources (merge_results protocol rs seen r)) =
   map ss_Success (r_Sources r) @ map (\<lambda>x. \<not> isl (fst (snd x))) rs"
  by (induction protocol rs seen r rule: merge_results.induct) (auto split: prod.splits)

lemma merge_results_errors:
  "map se_Source (r_Errors (merge_results protocol rs seen r)) =
   map se_Source (r_Errors r) @ map fst (filter (\<lambda>x. isl (fst (snd x))) rs)"
  by (induction protocol rs seen r rule: merge_results.induct) (auto split: prod.splits)

lemma merge_results_count:
  "sum_list (map ss_ProxyCount (r_Sources (merge_results protocol rs seen r))) + length (r_Proxies r) =
   sum_list (map ss_ProxyCount (r_Sources r)) + length (r_Proxies (merge_results protocol rs seen r))"
proof (induction protocol rs seen r rule: merge_results.induct)
  case (3 protocol src ps d rs seen r)
  then show ?case by (simp add: merge_proxies_uniq Let_def)
qed simp_all

text \<open>What every accepted entry satisfies.\<close>

lemma accept_proxy_Some:
  assumes "accept_proxy protocol src p0 = Some p"
  shows "p_Validated p \<and> p_Protocol p = protocol \<and> 1 \<le> p_Port p \<and> p_Port p \<le> 65535 \<and>
    normalizeHost (p_IP p0) = Some (p_IP p) \<and> (src \<noteq> [] \<longrightarrow> p_Source p \<noteq> [])"
  using assms by (auto simp: accept_proxy_def Let_def split: if_splits option.splits)

section \<open>Properties\<close>

lemma FetchWithOptions_parts:
  assumes "set order = {..<length (uniqueSources sources)}"
  shows "FetchWithOptions ft dur order sources protocol =
    (let srcs = uniqueSources sources;
         r = merge_results (to_lower (trim_space protocol))
               (zip srcs (map (\<lambda>i. (fetchSource ft (srcs ! i), dur i)) [0..<length srcs])) []
               \<lparr>r_Proxies = [], r_Errors = [], r_Sources = []\<rparr>
     in r\<lparr>r_Proxies := sort_key proxy_key (r_Proxies r)\<rparr>)"
  using assms by (auto simp: FetchWithOptions_def Let_def fill_results_all)

lemma in_map_filter: "y \<in> set (List.map_filter f xs) \<longleftrightarrow> (\<exists>x\<in>set xs. f x = Some y)"
  by (induction xs) (auto simp: List.map_filter_simps split: option.splits)

lemma zip_slots:
  "zip srcs (map (\<lambda>i. (fetchSource ft (srcs ! i), dur i)) [0..<length srcs]) =
   map (\<lambda>i. (srcs ! i, fetchSource ft (srcs ! i), dur i)) [0..<length srcs]"
  by (rule nth_equalityI) simp_all

lemma set_accepted:
  "set (concat (map (accepted_of protocol)
      (zip srcs (map (\<lambda>i. (fetchSource ft (srcs ! i), dur i)) [0..<length srcs])))) =
   {p. \<exists>src\<in>set srcs. \<exists>ps p0. fetchSource ft src = Inr ps \<and> p0 \<in> set ps \<and>
         accept_proxy protocol src p0 = Some p}"
proof -
  have "p \<in> set (accepted_of protocol (src, fetchSource ft src, d)) \<longleftrightarrow>
      (\<exists>ps p0. fetchSource ft src = Inr ps \<and> p0 \<in> set ps \<and> accept_proxy protocol src p0 = Some p)" for p src d
    by (cases "fetchSource ft src") (auto simp: accepted_of_def in_map_filter)
  then show ?thesis unfolding zip_slots by (fastforce simp: in_set_conv_nth)
qed

text \<open>
  Property C33: whatever order the requests finish in, the proxies returned are the acceptable entries
  of the sources that answered, one for each protocol, host and port, sorted by this key: none is
  missing and none is made up.  All are validated, of the protocol asked for, with a port between 1
  and 65535 and a source.
\<close>

theorem fetch_collects:
  assumes "set order = {..<length (uniqueSources sources)}"
  shows "let ps = r_Proxies (FetchWithOptions ft dur order sources protocol);
       acc = {p. \<exists>src\<in>set (uniqueSources sources). \<exists>qs q. fetchSource ft src = Inr qs \<and> q \<in> set qs \<and>
               accept_proxy (to_lower (trim_space protocol)) src q = Some p}
     in set ps \<subseteq> acc \<and> proxy_key ` set ps = proxy_key ` acc \<and>
        distinct (map proxy_key ps) \<and> sorted (map proxy_key ps) \<and>
        (\<forall>p\<in>set ps. p_Validated p \<and> p_Protocol p = to_lower (trim_space protocol) \<and>
           1 \<le> p_Port p \<and> p_Port p \<le> 65535 \<and> p_Source p \<noteq> [])"
proof -
  let ?srcs = "uniqueSources sources" and ?protocol = "to_lower (trim_space protocol)"
  let ?all = "concat (map (accepted_of ?protocol)
      (zip ?srcs (map (\<lambda>i. (fetchSource ft (?srcs ! i), dur i)) [0..<length ?srcs])))"
  let ?acc = "{p. \<exists>src\<in>set ?srcs. \<exists>qs q. fetchSource ft src = Inr qs \<and> q \<in> set qs \<and>
               accept_proxy ?protocol src q = Some p}"
  have ps: "r_Proxies (FetchWithOptions ft dur order sources protocol) =
      sort_key proxy_key (uniq_by proxy_key [] ?all)"
    using assms by (simp add: FetchWithOptions_parts Let_def merge_results_proxies)
  have all: "set ?all = ?acc" by (rule set_accepted)
  have sub: "set (uniq_by proxy_key [] ?all) \<subseteq> ?acc"
    using uniq_by_subset [of proxy_key "[]" ?all] all by blast
  have keys: "proxy_key ` set (uniq_by proxy_key [] ?all) = proxy_key ` ?acc"
    using uniq_by_keys [of proxy_key ?all] all by simp
  have dist: "distinct (map proxy_key (sort_key proxy_key xs)) = distinct (map proxy_key xs)" for xs
    by (simp add: distinct_map)
  have good: "p_Validated p \<and> p_Protocol p = ?protocol \<and> 1 \<le> p_Port p \<and> p_Port p \<le> 65535 \<and> p_Source p \<noteq> []"
    if "p \<in> ?acc" for p
  proof -
    from that obtain src q where "src \<in> set ?srcs" "accept_proxy ?protocol src q = Some p" by blast
    with accept_proxy_Some [of ?protocol src q p] show ?thesis by (auto simp: uniqueSources_set)
  qed
  show ?thesis
    unfolding Let_def ps set_sort dist
    using sub keys uniq_by_distinct [of proxy_key "[]" ?all] sorted_sort_key [of proxy_key] good [OF subsetD [OF sub]]
    by (intro conjI ballI) blast+
qed

definition example_fetcher :: fetcher where
  "example_fetcher =
     \<lparr>ft_parse = (\<lambda>s. Some \<lparr>u_Scheme = ''http'', u_Opaque = [], u_hasUser = False, u_User = [], u_Pass = [],
        u_Host = s, u_Path = [], u_RawQuery = [], u_Fragment = []\<rparr>),
      ft_String = (\<lambda>u. u_Host u @ u_Path u),
      ft_get = (\<lambda>e. if has_prefix e ''b'' then Inl EOF else Inr (200, str_bytes e)),
      ft_decode = (\<lambda>b. Some [\<lparr>p_IP = ''A.bc'', p_Port = 80, p_Protocol = ''HTTP '', p_Source = [], p_Validated = True\<rparr>])\<rparr>"

lemma example_sources: "uniqueSources [''a/'', ''#x'', ''b'', '' a''] = [''a'', ''b'']"
  by code_simp

theorem fetch_collects_witness:
  "sorted (map proxy_key (r_Proxies
     (FetchWithOptions example_fetcher (\<lambda>_. 5) [1, 0] [''a/'', ''#x'', ''b'', '' a''] ''http'')))"
proof -
  have "set [1, 0] = {..<length (uniqueSources [''a/'', ''#x'', ''b'', '' a''])}"
    by (auto simp: example_sources)
  from fetch_collects [OF this, of example_fetcher "\<lambda>_. 5" "''http''"] show ?thesis
    by (simp add: Let_def)
qed

text \<open>
  The report covers every distinct source exactly once and in the order of the list,
  successful or not; the sources that failed are the ones with an error; the counts add up to the
  number of proxies returned; and two runs in which the requests finish in different orders report
  the same.
\<close>

lemma fetch_reports:
  assumes "set order = {..<length (uniqueSources sources)}" "set order' = {..<length (uniqueSources sources)}"
  shows "let r = FetchWithOptions ft dur order sources protocol; srcs = uniqueSources sources in
    r = FetchWithOptions ft dur order' sources protocol \<and>
    map ss_Source (r_Sources r) = srcs \<and> distinct srcs \<and>
    map ss_Success (r_Sources r) = map (\<lambda>s. \<not> isl (fetchSource ft s)) srcs \<and>
    map se_Source (r_Errors r) = filter (\<lambda>s. isl (fetchSource ft s)) srcs \<and>
    sum_list (map ss_ProxyCount (r_Sources r)) = length (r_Proxies r)"
proof -
  let ?srcs = "uniqueSources sources"
  have f: "map fst (filter (\<lambda>x. isl (fst (snd x))) (map (\<lambda>i. (?srcs ! i, fetchSource ft (?srcs ! i), dur i)) [0..<length ?srcs])) =
      filter (\<lambda>s. isl (fetchSource ft s)) (map ((!) ?srcs) [0..<length ?srcs])"
    by (simp add: filter_map comp_def)
  have m: "map (\<lambda>i. f (?srcs ! i)) [0..<length ?srcs] = map f ?srcs" for f :: "string \<Rightarrow> bool"
    by (metis (no_types, lifting) map_eq_conv map_map comp_apply map_nth)
  show ?thesis
    using assms uniqueSources_distinct [of sources] f m [of "\<lambda>s. \<not> isl (fetchSource ft s)"]
      merge_results_count [of "to_lower (trim_space protocol)" _ "[]" "\<lparr>r_Proxies = [], r_Errors = [], r_Sources = []\<rparr>"]
    by (simp add: FetchWithOptions_parts Let_def merge_results_sources merge_results_success
        merge_results_errors zip_slots comp_def map_nth)
qed

lemma fetch_reports_witness:
  "map ss_Source (r_Sources
     (FetchWithOptions example_fetcher (\<lambda>_. 5) [1, 0] [''a/'', ''#x'', ''b'', '' a''] ''http'')) = [''a'', ''b'']"
proof -
  have "set [1, 0] = {..<length (uniqueSources [''a/'', ''#x'', ''b'', '' a''])}"
    by (auto simp: example_sources)
  from fetch_reports [OF this this, of example_fetcher "\<lambda>_. 5" "''http''"] show ?thesis
    by (simp add: Let_def example_sources)
qed

end
