(* ===== verification/Gui_Settings.thy ===== *)
theory Gui_Settings
  imports Net_Addr
begin

text \<open>
  The settings of the management interface (\<open>internal/guicore/settings.go\<close>, \<open>config.go\<close>): defaults,
  validation, loading and saving, and the configuration file rendered from them for the managed
  process.

  \<open>url.Parse\<close>, the JSON codec and the file system are arguments.  What the file is worth depends on
  no value being able to bring in a line of its own: the properties say that a file built from
  validated settings reads back line by line as exactly the options intended.
\<close>

section \<open>Model\<close>

record settings =
  s_Listen :: string
  s_Strategy :: string
  s_Check :: string
  s_CheckInterval :: int
  s_CheckTimeout :: int
  s_MaxFailures :: int
  s_Protocol :: string
  s_Sources :: "string list"
  s_SourceTimeout :: int
  s_SourceWorkers :: int
  s_FofaEmail :: string
  s_FofaQuery :: string
  s_FofaScope :: string
  s_FofaKeyEnv :: string
  s_FofaResultLimit :: int
  s_HunterQuery :: string
  s_HunterKeyEnv :: string
  s_HunterResultLimit :: int

text \<open>The two default queries are literals with Chinese text; they are arguments here.\<close>

definition DefaultSettings :: "string \<Rightarrow> string \<Rightarrow> settings" where
  "DefaultSettings defaultFofaQuery defaultHunterQuery =
     \<lparr>s_Listen = ''socks5://127.0.0.1:8443'', s_Strategy = ''rr'',
      s_Check = ''http://www.msftconnecttest.com/connecttest.txt#expect=200'',
      s_CheckInterval = 30, s_CheckTimeout = 10, s_MaxFailures = 3, s_Protocol = ''socks5'',
      s_Sources = [], s_SourceTimeout = 10, s_SourceWorkers = 8,
      s_FofaEmail = [], s_FofaQuery = defaultFofaQuery, s_FofaScope = [],
      s_FofaKeyEnv = ''FOFA_KEY'', s_FofaResultLimit = 100,
      s_HunterQuery = defaultHunterQuery, s_HunterKeyEnv = ''HUNTER_KEY'', s_HunterResultLimit = 100\<rparr>"

subsection \<open>Validation\<close>

definition containsLineBreak :: "string \<Rightarrow> bool" where
  "containsLineBreak v = (CHR 0x0D \<in> set v \<or> CHR 0x0A \<in> set v)"

definition containsLineBreakOrNUL :: "string \<Rightarrow> bool" where
  "containsLineBreakOrNUL v = (CHR 0x0D \<in> set v \<or> CHR 0x0A \<in> set v \<or> CHR 0x00 \<in> set v)"

definition env_char :: "char \<Rightarrow> bool" where
  "env_char ch = (is_upper ch \<or> is_digit ch \<or> ch = CHR ''_'')"

definition isFOFAKeyEnvironmentName :: "string \<Rightarrow> bool" where
  "isFOFAKeyEnvironmentName name =
     ((has_prefix name ''FOFA_'' \<or> has_prefix name ''GLIDER_FOFA_'') \<and> list_all env_char name)"

definition isHunterKeyEnvironmentName :: "string \<Rightarrow> bool" where
  "isHunterKeyEnvironmentName name =
     ((has_prefix name ''HUNTER_'' \<or> has_prefix name ''GLIDER_HUNTER_'') \<and> list_all env_char name)"

definition validateHostPort :: "string \<Rightarrow> go_error option" where
  "validateHostPort hostPort =
     (case SplitHostPort hostPort of
        Inl _ \<Rightarrow> Some (ErrMsg ''host and port are required'')
      | Inr (host, port) \<Rightarrow>
          if host = [] then Some (ErrMsg ''host is required'')
          else
            (case atoi port of
               None \<Rightarrow> Some (ErrMsg ''port must be between 1 and 65535'')
             | Some number \<Rightarrow>
                 if number < 1 \<or> number > 65535 then Some (ErrMsg ''port must be between 1 and 65535'')
                 else None))"

definition validateListen :: "(string \<Rightarrow> url option) \<Rightarrow> string \<Rightarrow> go_error option" where
  "validateListen parse raw =
     (if trim_space raw \<noteq> raw \<or> raw = [] then Some (ErrMsg ''must be a non-empty URL without surrounding whitespace'')
      else if containsLineBreak raw then Some (ErrMsg ''must not contain a line break'')
      else
        case parse raw of
          None \<Rightarrow> Some (ErrMsg ''invalid URL'')
        | Some u \<Rightarrow>
            if u_Scheme u \<noteq> ''socks5'' \<and> u_Scheme u \<noteq> ''http'' then Some (ErrMsg ''unsupported scheme'')
            else if u_hasUser u \<or> u_RawQuery u \<noteq> [] \<or> u_Fragment u \<noteq> []
            then Some (ErrMsg ''credentials, query, and fragment are not allowed'')
            else if u_Path u \<noteq> [] \<and> u_Path u \<noteq> ''/'' then Some (ErrMsg ''path is not allowed'')
            else validateHostPort (u_Host u))"

definition validateCheck :: "(string \<Rightarrow> url option) \<Rightarrow> string \<Rightarrow> go_error option" where
  "validateCheck parse raw =
     (if raw = ''disable'' then None
      else if trim_space raw \<noteq> raw \<or> raw = [] then Some (ErrMsg ''must be a non-empty URL or disable'')
      else if containsLineBreak raw then Some (ErrMsg ''must not contain a line break'')
      else
        case parse raw of
          None \<Rightarrow> Some (ErrMsg ''invalid URL'')
        | Some u \<Rightarrow>
            if u_Scheme u = ''http'' \<or> u_Scheme u = ''https'' then
              (if u_Hostname u = [] then Some (ErrMsg ''host is required'') else None)
            else if u_Scheme u = ''tcp'' then validateHostPort (u_Host u)
            else Some (ErrMsg ''unsupported scheme''))"

definition validateForward :: "(string \<Rightarrow> url option) \<Rightarrow> string \<Rightarrow> go_error option" where
  "validateForward parse raw =
     (if trim_space raw \<noteq> raw \<or> raw = [] then Some (ErrMsg ''must be a non-empty URL without surrounding whitespace'')
      else if containsLineBreak raw then Some (ErrMsg ''must not contain a line break'')
      else
        case parse raw of
          None \<Rightarrow> Some (ErrMsg ''invalid URL'')
        | Some u \<Rightarrow>
            if u_Scheme u \<noteq> ''socks5'' \<and> u_Scheme u \<noteq> ''http'' then Some (ErrMsg ''unsupported scheme'')
            else if u_Path u \<noteq> [] \<and> u_Path u \<noteq> ''/'' then Some (ErrMsg ''path is not allowed'')
            else if u_RawQuery u \<noteq> [] \<or> u_Fragment u \<noteq> [] then Some (ErrMsg ''query and fragment are not allowed'')
            else validateHostPort (u_Host u))"

text \<open>The first source that is empty or has a line break, with its index.\<close>

fun bad_source :: "nat \<Rightarrow> string list \<Rightarrow> go_error option" where
  "bad_source i [] = None"
| "bad_source i (src # rest) =
     (if trim_space src = [] then Some (ErrMsg (''sources['' @ show_nat i @ ''] must not be empty''))
      else if containsLineBreak src then Some (ErrMsg (''sources['' @ show_nat i @ ''] must not contain a line break''))
      else bad_source (Suc i) rest)"

definition validate_key_source ::
  "string \<Rightarrow> (string \<Rightarrow> bool) \<Rightarrow> string \<Rightarrow> string \<Rightarrow> int \<Rightarrow> go_error option" where
  "validate_key_source name isName query env limit =
     (if containsLineBreakOrNUL query then Some (ErrMsg (name @ ''Query must not contain a line break or NUL''))
      else if trim_space env = [] then Some (ErrMsg (name @ ''KeyEnv must not be empty''))
      else if containsLineBreakOrNUL env then Some (ErrMsg (name @ ''KeyEnv must not contain a line break or NUL''))
      else if \<not> isName env then Some (ErrMsg (name @ ''KeyEnv must use its namespace''))
      else if limit < 1 \<or> limit > 500 then Some (ErrMsg (name @ ''ResultLimit must be between 1 and 500''))
      else None)"

definition Validate :: "(string \<Rightarrow> url option) \<Rightarrow> settings \<Rightarrow> go_error option" where
  "Validate parse s =
     (case validateListen parse (s_Listen s) of
        Some e \<Rightarrow> Some e
      | None \<Rightarrow>
          if s_Strategy s \<notin> set [''rr'', ''ha'', ''lha'', ''dh''] then Some (ErrMsg ''strategy: unsupported value'')
          else
            case validateCheck parse (s_Check s) of
              Some e \<Rightarrow> Some e
            | None \<Rightarrow>
                if s_CheckInterval s \<le> 0 then Some (ErrMsg ''checkInterval must be greater than zero'')
                else if s_CheckTimeout s \<le> 0 then Some (ErrMsg ''checkTimeout must be greater than zero'')
                else if s_MaxFailures s \<le> 0 then Some (ErrMsg ''maxFailures must be greater than zero'')
                else if s_Protocol s \<noteq> ''socks5'' \<and> s_Protocol s \<noteq> ''http''
                then Some (ErrMsg ''protocol: unsupported value'')
                else
                  case bad_source 0 (s_Sources s) of
                    Some e \<Rightarrow> Some e
                  | None \<Rightarrow>
                      if s_SourceTimeout s < 1 \<or> s_SourceTimeout s > 120
                      then Some (ErrMsg ''sourceTimeoutSeconds must be between 1 and 120'')
                      else if s_SourceWorkers s < 1 \<or> s_SourceWorkers s > 32
                      then Some (ErrMsg ''sourceConcurrency must be between 1 and 32'')
                      else
                        case validate_key_source ''fofa'' isFOFAKeyEnvironmentName (s_FofaQuery s)
                               (s_FofaKeyEnv s) (s_FofaResultLimit s) of
                          Some e \<Rightarrow> Some e
                        | None \<Rightarrow>
                            validate_key_source ''hunter'' isHunterKeyEnvironmentName (s_HunterQuery s)
                              (s_HunterKeyEnv s) (s_HunterResultLimit s))"

subsection \<open>Loading and saving\<close>

text \<open>\<open>LoadSettings\<close> on the result of reading the file: \<open>Inr None\<close> when it does not exist.  \<open>decode\<close> fills in
  a record of defaults from the first JSON value and gives the rest of the text; \<open>blank\<close> says that the
  rest holds no further value.\<close>

definition LoadSettings ::
  "(string \<Rightarrow> url option) \<Rightarrow> (bytes \<Rightarrow> settings \<Rightarrow> (settings \<times> bytes) option) \<Rightarrow> (bytes \<Rightarrow> bool) \<Rightarrow> settings
    \<Rightarrow> bytes option result \<Rightarrow> settings result" where
  "LoadSettings parse decode blank defaults file =
     (case file of
        Inl e \<Rightarrow> Inl (ErrMsg ''read settings'')
      | Inr None \<Rightarrow> Inr defaults
      | Inr (Some data) \<Rightarrow>
          (case decode data defaults of
             None \<Rightarrow> Inl (ErrMsg ''decode settings'')
           | Some (s0, rest) \<Rightarrow>
               if \<not> blank rest then Inl (ErrMsg ''decode settings: trailing JSON value'')
               else
                 let s = s0\<lparr>s_FofaEmail := [], s_FofaScope := []\<rparr> in
                 (case Validate parse s of
                    Some e \<Rightarrow> Inl (ErrMsg ''validate settings'')
                  | None \<Rightarrow> Inr s)))"

text \<open>\<open>SaveSettings\<close>: \<open>mkdir\<close> and \<open>replace\<close> say whether creating the directory and replacing the file
  succeed.  The new content of the file, or the error.\<close>

definition SaveSettings ::
  "(string \<Rightarrow> url option) \<Rightarrow> (settings \<Rightarrow> bytes option) \<Rightarrow> bool \<Rightarrow> bool \<Rightarrow> string \<Rightarrow> settings \<Rightarrow> bytes result" where
  "SaveSettings parse encode mkdir replace path s =
     (case Validate parse s of
        Some e \<Rightarrow> Inl (ErrMsg ''validate settings'')
      | None \<Rightarrow>
          if path = [] then Inl (ErrMsg ''settings path must not be empty'')
          else if \<not> mkdir then Inl (ErrMsg ''create settings directory'')
          else
            case encode s of
              None \<Rightarrow> Inl (ErrMsg ''encode settings'')
            | Some data \<Rightarrow>
                if \<not> replace then Inl (ErrMsg ''write settings'') else Inr (data @ [10]))"

subsection \<open>The configuration file\<close>

definition config_line :: "string \<Rightarrow> string \<Rightarrow> string" where
  "config_line k v = k @ ''='' @ v @ [CHR 0x0A]"

fun bad_forward :: "(string \<Rightarrow> url option) \<Rightarrow> nat \<Rightarrow> string list \<Rightarrow> go_error option" where
  "bad_forward parse i [] = None"
| "bad_forward parse i (f # fs) =
     (case validateForward parse f of
        Some e \<Rightarrow> Some (ErrMsg (''forwardURLs['' @ show_nat i @ '']''))
      | None \<Rightarrow> bad_forward parse (Suc i) fs)"

definition BuildConfig :: "(string \<Rightarrow> url option) \<Rightarrow> settings \<Rightarrow> string list \<Rightarrow> string result" where
  "BuildConfig parse s forwardURLs =
     (case Validate parse s of
        Some e \<Rightarrow> Inl (ErrMsg ''validate settings'')
      | None \<Rightarrow>
          (case bad_forward parse 0 forwardURLs of
             Some e \<Rightarrow> Inl e
           | None \<Rightarrow>
               Inr (config_line ''listen'' (s_Listen s) @
                    ''verbose=true'' @ [CHR 0x0A] @
                    concat (map (config_line ''forward'') forwardURLs) @
                    config_line ''strategy'' (s_Strategy s) @
                    config_line ''check'' (s_Check s) @
                    config_line ''checkinterval'' (show_int (s_CheckInterval s)) @
                    config_line ''checktimeout'' (show_int (s_CheckTimeout s)) @
                    config_line ''maxfailures'' (show_int (s_MaxFailures s)))))"

section \<open>What validated settings satisfy\<close>

definition no_lf :: "string \<Rightarrow> bool" where
  "no_lf s = (CHR 0x0A \<notin> set s)"

lemma validateListen_no_lf: "validateListen parse raw = None \<Longrightarrow> no_lf raw"
  by (auto simp: validateListen_def containsLineBreak_def no_lf_def split: if_splits)

lemma validateForward_no_lf: "validateForward parse raw = None \<Longrightarrow> no_lf raw"
  by (auto simp: validateForward_def containsLineBreak_def no_lf_def split: if_splits)

lemma validateCheck_no_lf: "validateCheck parse raw = None \<Longrightarrow> no_lf raw"
  by (auto simp: validateCheck_def containsLineBreak_def no_lf_def split: if_splits)

lemma bad_source_None:
  "bad_source i ss = None \<longleftrightarrow> list_all (\<lambda>s. trim_space s \<noteq> [] \<and> \<not> containsLineBreak s) ss"
  by (induction i ss rule: bad_source.induct) auto

lemma bad_forward_None:
  "bad_forward parse i fs = None \<longleftrightarrow> list_all (\<lambda>f. validateForward parse f = None) fs"
  by (induction parse i fs rule: bad_forward.induct) (auto split: option.splits)

lemma Validate_None:
  "Validate parse s = None \<longleftrightarrow>
     validateListen parse (s_Listen s) = None \<and> s_Strategy s \<in> {''rr'', ''ha'', ''lha'', ''dh''} \<and>
     validateCheck parse (s_Check s) = None \<and>
     0 < s_CheckInterval s \<and> 0 < s_CheckTimeout s \<and> 0 < s_MaxFailures s \<and>
     s_Protocol s \<in> {''socks5'', ''http''} \<and>
     list_all (\<lambda>s. trim_space s \<noteq> [] \<and> \<not> containsLineBreak s) (s_Sources s) \<and>
     1 \<le> s_SourceTimeout s \<and> s_SourceTimeout s \<le> 120 \<and>
     1 \<le> s_SourceWorkers s \<and> s_SourceWorkers s \<le> 32 \<and>
     validate_key_source ''fofa'' isFOFAKeyEnvironmentName (s_FofaQuery s) (s_FofaKeyEnv s) (s_FofaResultLimit s) = None \<and>
     validate_key_source ''hunter'' isHunterKeyEnvironmentName (s_HunterQuery s) (s_HunterKeyEnv s) (s_HunterResultLimit s) = None"
  unfolding Validate_def bad_source_None [of 0, symmetric]
  by (auto split: option.splits)

lemma show_int_no_lf: "no_lf (show_int i)"
  using show_nat_no_sep [of "CHR 0x0A"] by (auto simp: no_lf_def show_int_def is_digit_def code_def)

lemma deprecated_only:
  "s_Listen (s\<lparr>s_FofaEmail := a, s_FofaScope := b\<rparr>) = s_Listen s"
  "s_Strategy (s\<lparr>s_FofaEmail := a, s_FofaScope := b\<rparr>) = s_Strategy s"
  "s_Check (s\<lparr>s_FofaEmail := a, s_FofaScope := b\<rparr>) = s_Check s"
  "s_CheckInterval (s\<lparr>s_FofaEmail := a, s_FofaScope := b\<rparr>) = s_CheckInterval s"
  "s_CheckTimeout (s\<lparr>s_FofaEmail := a, s_FofaScope := b\<rparr>) = s_CheckTimeout s"
  "s_MaxFailures (s\<lparr>s_FofaEmail := a, s_FofaScope := b\<rparr>) = s_MaxFailures s"
  "s_Protocol (s\<lparr>s_FofaEmail := a, s_FofaScope := b\<rparr>) = s_Protocol s"
  "s_Sources (s\<lparr>s_FofaEmail := a, s_FofaScope := b\<rparr>) = s_Sources s"
  "s_SourceTimeout (s\<lparr>s_FofaEmail := a, s_FofaScope := b\<rparr>) = s_SourceTimeout s"
  "s_SourceWorkers (s\<lparr>s_FofaEmail := a, s_FofaScope := b\<rparr>) = s_SourceWorkers s"
  "s_FofaQuery (s\<lparr>s_FofaEmail := a, s_FofaScope := b\<rparr>) = s_FofaQuery s"
  "s_FofaKeyEnv (s\<lparr>s_FofaEmail := a, s_FofaScope := b\<rparr>) = s_FofaKeyEnv s"
  "s_FofaResultLimit (s\<lparr>s_FofaEmail := a, s_FofaScope := b\<rparr>) = s_FofaResultLimit s"
  "s_HunterQuery (s\<lparr>s_FofaEmail := a, s_FofaScope := b\<rparr>) = s_HunterQuery s"
  "s_HunterKeyEnv (s\<lparr>s_FofaEmail := a, s_FofaScope := b\<rparr>) = s_HunterKeyEnv s"
  "s_HunterResultLimit (s\<lparr>s_FofaEmail := a, s_FofaScope := b\<rparr>) = s_HunterResultLimit s"
  by simp_all

lemma Validate_deprecated:
  "Validate parse (s\<lparr>s_FofaEmail := a, s_FofaScope := b\<rparr>) = Validate parse s"
  by (simp only: Validate_def deprecated_only)

section \<open>Properties\<close>

lemma split_lines:
  "list_all no_lf ls \<Longrightarrow> split_on (CHR 0x0A) (concat (map (\<lambda>l. l @ [CHR 0x0A]) ls)) = ls @ [[]]"
  by (induction ls) (simp_all add: no_lf_def split_on_append)

definition option_line :: "string \<times> string \<Rightarrow> string" where
  "option_line kv = fst kv @ ''='' @ snd kv"

definition config_options :: "settings \<Rightarrow> string list \<Rightarrow> (string \<times> string) list" where
  "config_options s fs =
     [(''listen'', s_Listen s), (''verbose'', ''true'')] @ map (\<lambda>f. (''forward'', f)) fs @
     [(''strategy'', s_Strategy s), (''check'', s_Check s),
      (''checkinterval'', show_int (s_CheckInterval s)),
      (''checktimeout'', show_int (s_CheckTimeout s)),
      (''maxfailures'', show_int (s_MaxFailures s))]"

lemma BuildConfig_options:
  "BuildConfig parse s fs = Inr cfg \<Longrightarrow> cfg = concat (map (\<lambda>l. l @ [CHR 0x0A]) (map option_line (config_options s fs)))"
  by (auto simp: BuildConfig_def config_options_def option_line_def config_line_def [abs_def] comp_def
      split: option.splits)

lemma config_options_plain:
  assumes "BuildConfig parse s fs = Inr cfg"
  shows "list_all (\<lambda>kv. no_lf (fst kv) \<and> no_lf (snd kv) \<and> CHR ''='' \<notin> set (fst kv)) (config_options s fs)"
proof -
  have v: "Validate parse s = None" and f: "list_all (\<lambda>f. validateForward parse f = None) fs"
    using assms bad_forward_None [of parse 0 fs] by (auto simp: BuildConfig_def split: option.splits)
  have "no_lf (s_Listen s)" "no_lf (s_Check s)"
    using v validateListen_no_lf validateCheck_no_lf unfolding Validate_None by blast+
  moreover have "s_Strategy s \<in> {''rr'', ''ha'', ''lha'', ''dh''}" using v unfolding Validate_None by blast
  then have "no_lf (s_Strategy s)" by (auto simp: no_lf_def)
  ultimately show ?thesis
    using f show_int_no_lf validateForward_no_lf
    by (auto simp: config_options_def list_all_iff) (auto simp: no_lf_def)
qed

lemma cut_option: "CHR ''='' \<notin> set (fst kv) \<Longrightarrow> cut_byte CHR ''='' (option_line kv) = Some kv"
  by (simp add: option_line_def cut_byte_def index_byte_append)

text \<open>Reading a built configuration line by line.\<close>

lemma config_reads_back:
  assumes "BuildConfig parse s fs = Inr cfg"
  shows "map (cut_byte CHR ''='') (butlast (split_on (CHR 0x0A) cfg)) = map Some (config_options s fs) \<and>
    last (split_on (CHR 0x0A) cfg) = []"
proof -
  note plain = config_options_plain [OF assms]
  have "list_all no_lf (map option_line (config_options s fs))"
    using plain by (auto simp: list_all_iff option_line_def no_lf_def)
  then have "split_on (CHR 0x0A) cfg = map option_line (config_options s fs) @ [[]]"
    unfolding BuildConfig_options [OF assms] by (rule split_lines)
  then show ?thesis using plain by (auto simp: list_all_iff cut_option)
qed

text \<open>
  Property C35: a configuration that is built reads back, line by line and cut at the first equals
  sign, as exactly the intended options in their order: no value of the settings and no forwarder
  url can add a line or another option.
\<close>

theorem config_no_injection:
  assumes "BuildConfig parse s fs = Inr cfg"
  shows "map (cut_byte CHR ''='') (butlast (split_on (CHR 0x0A) cfg)) = map Some (config_options s fs) \<and>
    last (split_on (CHR 0x0A) cfg) = []"
  using assms by (rule config_reads_back)

definition example_parse :: "string \<Rightarrow> url option" where
  "example_parse s =
     Some \<lparr>u_Scheme = (if has_prefix s ''http'' then ''http'' else ''socks5''), u_Opaque = [], u_hasUser = False,
       u_User = [], u_Pass = [], u_Host = ''1.2.3.4:80'', u_Path = [], u_RawQuery = [], u_Fragment = []\<rparr>"

lemma example_valid: "Validate example_parse (DefaultSettings ''q'' ''r'') = None"
  by code_simp

theorem config_no_injection_witness:
  "\<exists>cfg. BuildConfig example_parse (DefaultSettings ''q'' ''r'') [''socks5://5.6.7.8:1''] = Inr cfg \<and>
     length (split_on (CHR 0x0A) cfg) = 9"
proof -
  have "bad_forward example_parse 0 [''socks5://5.6.7.8:1''] = None" by code_simp
  then obtain cfg where c: "BuildConfig example_parse (DefaultSettings ''q'' ''r'') [''socks5://5.6.7.8:1''] = Inr cfg"
    using example_valid by (simp add: BuildConfig_def)
  have "length (butlast (split_on (CHR 0x0A) cfg)) = length (config_options (DefaultSettings ''q'' ''r'') [''socks5://5.6.7.8:1''])"
    using arg_cong [OF conjunct1 [OF config_no_injection [OF c]], of length] by simp
  then have "length (split_on (CHR 0x0A) cfg) = 9"
    by (simp add: config_options_def)
  with c show ?thesis by blast
qed



end
