(* ===== verification/Gui_App.thy ===== *)
theory Gui_App
  imports Proxy_Source Gui_Settings
begin

text \<open>
  The local management service (\<open>gui.go\<close>): its state, the checks on requests, the handlers that
  change the state, and the helpers on proxies, blacklists, targets and sources.

  A handler takes the decoded body of a request (\<open>None\<close> when it does not decode) and gives the status
  code of the response and the new state.  All handlers that change the state hold \<open>operationMu\<close>, so a
  run of the service is a sequence of them, between which the managed process may end.  \<open>env\<close> has
  \<open>url.Parse\<close> and says which writes to files succeed and whether stopping and starting the process do;
  of the process the model keeps the configuration it was started with.
\<close>

section \<open>Model\<close>

subsection \<open>Command line and address\<close>

definition guiExecutable :: "string \<Rightarrow> bool" where
  "guiExecutable base = (trim_suffix (to_lower base) ''.exe'' = ''glider-gui'')"

definition guiFlagPresent :: "string list \<Rightarrow> bool" where
  "guiFlagPresent args = (\<exists>a\<in>set args. a \<in> set [''-gui'', ''--gui'', ''-gui=true'', ''--gui=true''])"

definition one_dash :: "string \<Rightarrow> string" where
  "one_dash arg = (if has_prefix arg ''--'' then tl arg else arg)"

fun guiExecutableRequestsGUI :: "string list \<Rightarrow> bool" where
  "guiExecutableRequestsGUI [] = True"
| "guiExecutableRequestsGUI (a # as) =
     (let arg = one_dash a in
      if arg = ''-gui-no-open'' then guiExecutableRequestsGUI as
      else if arg = ''-gui-address'' \<or> arg = ''-gui-data-dir'' then
        (case as of [] \<Rightarrow> True | _ # as' \<Rightarrow> guiExecutableRequestsGUI as')
      else if has_prefix arg ''-gui-address='' \<or> has_prefix arg ''-gui-data-dir='' then guiExecutableRequestsGUI as
      else False)"

text \<open>\<open>base\<close> is \<open>filepath.Base\<close> of the executable.\<close>

definition guiModeRequested :: "string \<Rightarrow> string list \<Rightarrow> bool" where
  "guiModeRequested base args =
     (guiFlagPresent args \<or> guiExecutable base \<and> guiExecutableRequestsGUI args)"

text \<open>\<open>net.ParseIP\<close> (no zones) and \<open>IP.IsLoopback\<close>.\<close>

definition is_loopback :: "addr \<Rightarrow> bool" where
  "is_loopback a =
     (case Unmap a of
        Addr4 b \<Rightarrow> b ! 0 = 127
      | Addr6 b z \<Rightarrow> z = [] \<and> b = replicate 15 0 @ [1]
      | NoAddr \<Rightarrow> False)"

definition has_zone :: "addr \<Rightarrow> bool" where
  "has_zone a = (case a of Addr6 _ z \<Rightarrow> z \<noteq> [] | _ \<Rightarrow> False)"

definition requireLoopbackAddress :: "string \<Rightarrow> go_error option" where
  "requireLoopbackAddress address =
     (case SplitHostPort address of
        Inl _ \<Rightarrow> Some (ErrMsg ''invalid GUI address'')
      | Inr (host, _) \<Rightarrow>
          if to_lower host = ''localhost'' then None
          else
            (case ParseAddr host of
               None \<Rightarrow> Some (ErrMsg ''GUI address must use a loopback host'')
             | Some ip \<Rightarrow>
                 if has_zone ip \<or> \<not> is_loopback ip then Some (ErrMsg ''GUI address must use a loopback host'')
                 else None))"

subsection \<open>Proxies, blacklist and targets\<close>

definition host_char :: "char \<Rightarrow> bool" where
  "host_char ch = (is_digit ch \<or> is_lower ch \<or> is_upper ch \<or>
     ch \<in> set [CHR ''-'', CHR ''_'', CHR ''.'', CHR ''~'', CHR ''!'', CHR ''$'', CHR ''&'', CHR 0x27, CHR ''('',
            CHR '')'', CHR ''*'', CHR ''+'', CHR '','', CHR '';'', CHR ''='', CHR '':'', CHR ''['', CHR '']'',
            CHR ''<'', CHR ''>'', CHR 0x22])"

text \<open>\<open>url.URL.String\<close> of a scheme and a host: the host is percent-encoded where necessary.\<close>

definition escape_host :: "string \<Rightarrow> string" where
  "escape_host h =
     concat (map (\<lambda>ch. if host_char ch then [ch]
        else [CHR ''%'', ''0123456789ABCDEF'' ! (code ch div 16), ''0123456789ABCDEF'' ! (code ch mod 16)]) h)"

definition proxyURL :: "proxy_entry \<Rightarrow> string" where
  "proxyURL p =
     (if p_Protocol p = [] then [] else p_Protocol p @ '':'') @ ''//'' @
     escape_host (JoinHostPort (p_IP p) (show_int (p_Port p)))"

definition containsProxy :: "proxy_entry list \<Rightarrow> string \<Rightarrow> bool" where
  "containsProxy ps key = list_ex (\<lambda>p. proxyURL p = key) ps"

definition availableProxyURLs :: "proxy_entry list \<Rightarrow> string list \<Rightarrow> string list" where
  "availableProxyURLs ps blacklist = filter (\<lambda>k. k \<notin> set blacklist) (map proxyURL ps)"

definition proxyViews :: "proxy_entry list \<Rightarrow> string list \<Rightarrow> (proxy_entry \<times> bool) list" where
  "proxyViews ps blacklist = map (\<lambda>p. (p, proxyURL p \<in> set blacklist)) ps"

definition pruneBlacklist :: "proxy_entry list \<Rightarrow> string list \<Rightarrow> string list" where
  "pruneBlacklist ps blacklist = filter (\<lambda>v. v \<in> set (map proxyURL ps)) blacklist"

record target =
  t_URL :: string
  t_Host :: string
  t_IP :: string
  t_Port :: int
  t_Protocol :: string
  t_Providers :: "string list"

definition provider_name :: "string \<Rightarrow> string" where
  "provider_name v = to_lower (trim_space v)"

definition mergeProviders :: "string list \<Rightarrow> string list \<Rightarrow> string list" where
  "mergeProviders l r =
     sort (uniq_by (\<lambda>v. v) [] (filter (\<lambda>v. v \<noteq> []) (map provider_name (l @ r))))"

text \<open>The loop of \<open>uniqueTargets\<close>: a target whose URL is already in the list only adds its providers.\<close>

fun unique_loop :: "target list \<Rightarrow> target list \<Rightarrow> target list" where
  "unique_loop unique [] = unique"
| "unique_loop unique (t # ts) =
     (if t_URL t \<in> t_URL ` set unique then
        unique_loop (map (\<lambda>u. if t_URL u = t_URL t
          then u\<lparr>t_Providers := mergeProviders (t_Providers u) (t_Providers t)\<rparr> else u) unique) ts
      else unique_loop (unique @ [t\<lparr>t_Providers := mergeProviders [] (t_Providers t)\<rparr>]) ts)"

definition uniqueTargets :: "target list \<Rightarrow> target list" where
  "uniqueTargets ts = sort_key t_URL (unique_loop [] ts)"

definition mergeProxySources :: "string list \<Rightarrow> target list \<Rightarrow> string list" where
  "mergeProxySources manual ts =
     uniq_by (\<lambda>s. s) [] (filter (\<lambda>s. s \<noteq> []) (map clean_source (manual @ map t_URL ts)))"

definition parseSeedSources :: "string \<Rightarrow> string list" where
  "parseSeedSources content =
     filter (\<lambda>l. l \<noteq> [] \<and> \<not> has_prefix l ''#'') (map trim_space (split_on (CHR 0x0A) content))"

subsection \<open>State\<close>

datatype afile = FSettings | FProxies | FBlacklist | FTargets | FConfig

record env =
  e_parse :: "string \<Rightarrow> url option"
  e_save :: "afile \<Rightarrow> bool"
  e_stop :: bool
  e_start :: bool

record app =
  a_settings :: settings
  a_proxies :: "proxy_entry list"
  a_blacklist :: "string list"
  a_targets :: "target list"
  a_fetchErrors :: "sourceError list"
  a_fetchSources :: "sourceStatus list"
  file_settings :: "settings option"
  file_proxies :: "proxy_entry list option"
  file_blacklist :: "string list option"
  file_targets :: "target list option"
  file_config :: "string option"
  proc :: "string option"

text \<open>\<open>Manager.Stop\<close> and \<open>Manager.Start\<close> as the handlers see them.\<close>

definition app_Stop :: "env \<Rightarrow> app \<Rightarrow> bool \<times> app" where
  "app_Stop e a = (if proc a = None then (True, a) else if e_stop e then (True, a\<lparr>proc := None\<rparr>) else (False, a))"

definition app_Start :: "env \<Rightarrow> app \<Rightarrow> bool \<times> app" where
  "app_Start e a =
     (if proc a \<noteq> None \<or> \<not> e_start e then (False, a) else (True, a\<lparr>proc := file_config a\<rparr>))"

definition save_settings :: "env \<Rightarrow> settings \<Rightarrow> app \<Rightarrow> bool \<times> app" where
  "save_settings e s a =
     (case SaveSettings (e_parse e) (\<lambda>_. Some []) True (e_save e FSettings) ''settings.json'' s of
        Inl _ \<Rightarrow> (False, a)
      | Inr _ \<Rightarrow> (True, a\<lparr>file_settings := Some s\<rparr>))"

text \<open>\<open>saveStringSet\<close> writes the sorted entries; \<open>loadBlacklist\<close> trims them and drops empty ones.\<close>

definition saveStringSet :: "env \<Rightarrow> string list \<Rightarrow> app \<Rightarrow> bool \<times> app" where
  "saveStringSet e values a =
     (if e_save e FBlacklist then (True, a\<lparr>file_blacklist := Some (sort (remdups values))\<rparr>) else (False, a))"

definition loadBlacklist :: "string list option \<Rightarrow> string list" where
  "loadBlacklist file =
     (case file of None \<Rightarrow> [] | Some entries \<Rightarrow> remdups (filter (\<lambda>v. v \<noteq> []) (map trim_space entries)))"

subsection \<open>Checks on requests\<close>

record request =
  rq_Method :: string
  rq_ContentType :: string
  rq_ContentLength :: int
  rq_Origin :: string
  rq_Host :: string

text \<open>\<open>allowMutation\<close>: the status code of the refusal.\<close>

definition allowMutation :: "(string \<Rightarrow> url option) \<Rightarrow> request \<Rightarrow> int option" where
  "allowMutation parse r =
     (if \<not> has_prefix (rq_ContentType r) ''application/json'' \<and> rq_ContentLength r \<noteq> 0 then Some 415
      else if rq_Origin r = [] then None
      else
        case parse (rq_Origin r) of
          None \<Rightarrow> Some 403
        | Some u \<Rightarrow>
            if u_Scheme u \<noteq> ''http'' \<or> to_lower (u_Host u) \<noteq> to_lower (rq_Host r) then Some 403 else None)"

subsection \<open>Handlers\<close>

record settingsPatch =
  sp_Listen :: "string option"
  sp_Strategy :: "string option"
  sp_Check :: "string option"
  sp_CheckInterval :: "int option"
  sp_Sources :: "string list option"
  sp_SourceTimeout :: "int option"
  sp_SourceWorkers :: "int option"
  sp_Protocol :: "string option"
  sp_FofaQuery :: "string option"
  sp_FofaKeyEnv :: "string option"
  sp_FofaResultLimit :: "int option"
  sp_HunterQuery :: "string option"
  sp_HunterKeyEnv :: "string option"
  sp_HunterResultLimit :: "int option"

definition patched :: "'a option \<Rightarrow> 'a \<Rightarrow> 'a" where
  "patched p v = (case p of None \<Rightarrow> v | Some w \<Rightarrow> w)"

definition applySettingsPatch :: "settings \<Rightarrow> settingsPatch \<Rightarrow> settings" where
  "applySettingsPatch s p =
     s\<lparr>s_Listen := patched (sp_Listen p) (s_Listen s),
       s_Strategy := patched (sp_Strategy p) (s_Strategy s),
       s_Check := patched (sp_Check p) (s_Check s),
       s_CheckInterval := patched (sp_CheckInterval p) (s_CheckInterval s),
       s_Sources := patched (sp_Sources p) (s_Sources s),
       s_SourceTimeout := patched (sp_SourceTimeout p) (s_SourceTimeout s),
       s_SourceWorkers := patched (sp_SourceWorkers p) (s_SourceWorkers s),
       s_Protocol := patched (sp_Protocol p) (s_Protocol s),
       s_FofaQuery := patched (sp_FofaQuery p) (s_FofaQuery s),
       s_FofaKeyEnv := patched (sp_FofaKeyEnv p) (s_FofaKeyEnv s),
       s_FofaResultLimit := patched (sp_FofaResultLimit p) (s_FofaResultLimit s),
       s_HunterQuery := patched (sp_HunterQuery p) (s_HunterQuery s),
       s_HunterKeyEnv := patched (sp_HunterKeyEnv p) (s_HunterKeyEnv s),
       s_HunterResultLimit := patched (sp_HunterResultLimit p) (s_HunterResultLimit s)\<rparr>"

definition handleSettings_put :: "env \<Rightarrow> settingsPatch option \<Rightarrow> app \<Rightarrow> int \<times> app" where
  "handleSettings_put e body a =
     (case body of
        None \<Rightarrow> (400, a)
      | Some patch \<Rightarrow>
          let s = applySettingsPatch (a_settings a) patch;
              forwards = availableProxyURLs (a_proxies a) (a_blacklist a)
          in case BuildConfig (e_parse e) s forwards of
               Inl _ \<Rightarrow> (400, a)
             | Inr _ \<Rightarrow>
                 (case save_settings e s a of
                    (False, a1) \<Rightarrow> (500, a1)
                  | (True, a1) \<Rightarrow> (200, a1\<lparr>a_settings := s\<rparr>)))"

text \<open>Restarting the process with the configuration on disk.\<close>

definition restart_if_running :: "env \<Rightarrow> app \<Rightarrow> int \<times> app" where
  "restart_if_running e a =
     (if proc a = None then (200, a)
      else
        case app_Stop e a of
          (False, a1) \<Rightarrow> (500, a1)
        | (True, a1) \<Rightarrow> (case app_Start e a1 of (False, a2) \<Rightarrow> (500, a2) | (True, a2) \<Rightarrow> (200, a2)))"

definition handleProxies_put :: "env \<Rightarrow> (string \<times> bool) option \<Rightarrow> app \<Rightarrow> int \<times> app" where
  "handleProxies_put e body a =
     (case body of
        None \<Rightarrow> (400, a)
      | Some (proxy0, blacklisted) \<Rightarrow>
          let proxy = trim_space proxy0 in
          if \<not> containsProxy (a_proxies a) proxy then (404, a)
          else
            let blacklist = (if blacklisted then List.insert proxy (a_blacklist a)
                             else filter (\<lambda>v. v \<noteq> proxy) (a_blacklist a));
                forwards = availableProxyURLs (a_proxies a) blacklist
            in if forwards = [] then (409, a)
               else
                 case BuildConfig (e_parse e) (a_settings a) forwards of
                   Inl _ \<Rightarrow> (400, a)
                 | Inr cfg \<Rightarrow>
                     if \<not> e_save e FConfig then (500, a)
                     else
                       let a1 = a\<lparr>file_config := Some cfg\<rparr> in
                       (case saveStringSet e blacklist a1 of
                          (False, a2) \<Rightarrow> (500, a2)
                        | (True, a2) \<Rightarrow> restart_if_running e (a2\<lparr>a_blacklist := blacklist\<rparr>)))"

definition handleStart :: "env \<Rightarrow> app \<Rightarrow> int \<times> app" where
  "handleStart e a =
     (let forwards = availableProxyURLs (a_proxies a) (a_blacklist a) in
      if forwards = [] then (409, a)
      else
        case BuildConfig (e_parse e) (a_settings a) forwards of
          Inl _ \<Rightarrow> (400, a)
        | Inr cfg \<Rightarrow>
            if \<not> e_save e FConfig then (500, a)
            else
              (case app_Start e (a\<lparr>file_config := Some cfg\<rparr>) of
                 (False, a1) \<Rightarrow> (409, a1)
               | (True, a1) \<Rightarrow> (200, a1)))"

definition handleStop :: "env \<Rightarrow> app \<Rightarrow> int \<times> app" where
  "handleStop e a = (case app_Stop e a of (False, a1) \<Rightarrow> (500, a1) | (True, a1) \<Rightarrow> (200, a1))"

text \<open>\<open>handleFetch\<close>: \<open>fetch\<close> is \<open>FetchWithOptions\<close> with everything but sources and protocol given.\<close>

definition handleFetch ::
  "env \<Rightarrow> (string list \<Rightarrow> string \<Rightarrow> fetchResult) \<Rightarrow> (string list \<times> string \<times> bool) option \<Rightarrow> app \<Rightarrow> int \<times> app" where
  "handleFetch e fetch body a =
     (case body of
        None \<Rightarrow> (400, a)
      | Some (sources0, protocol, apply) \<Rightarrow>
          if \<not> apply then (400, a)
          else
            let s = (a_settings a)\<lparr>s_Sources := sources0, s_Protocol := protocol\<rparr> in
            case save_settings e s a of
              (False, a1) \<Rightarrow> (500, a1)
            | (True, a1) \<Rightarrow>
                let a2 = a1\<lparr>a_settings := s\<rparr>;
                    result = fetch (mergeProxySources (s_Sources s) (a_targets a)) (s_Protocol s)
                in if r_Proxies result = []
                   then (502, a2\<lparr>a_fetchErrors := r_Errors result, a_fetchSources := r_Sources result\<rparr>)
                   else
                     let blacklist = pruneBlacklist (r_Proxies result) (a_blacklist a);
                         forwards = availableProxyURLs (r_Proxies result) blacklist
                     in if forwards = [] then (409, a2)
                        else
                          case BuildConfig (e_parse e) s forwards of
                            Inl _ \<Rightarrow> (400, a2)
                          | Inr cfg \<Rightarrow>
                              if \<not> e_save e FConfig then (500, a2)
                              else if \<not> e_save e FProxies then (500, a2\<lparr>file_config := Some cfg\<rparr>)
                              else
                                (case saveStringSet e blacklist
                                   (a2\<lparr>file_config := Some cfg, file_proxies := Some (r_Proxies result)\<rparr>) of
                                   (False, a3) \<Rightarrow> (500, a3)
                                 | (True, a3) \<Rightarrow>
                                     (case app_Stop e a3 of
                                        (False, a4) \<Rightarrow> (500, a4)
                                      | (True, a4) \<Rightarrow>
                                          (case app_Start e a4 of
                                             (False, a5) \<Rightarrow> (500, a5)
                                           | (True, a5) \<Rightarrow>
                                               (200, a5\<lparr>a_proxies := r_Proxies result, a_blacklist := blacklist,
                                                  a_fetchErrors := r_Errors result,
                                                  a_fetchSources := r_Sources result\<rparr>)))))"

text \<open>\<open>handleDiscover\<close> on the answers of the search services in the order of their arrival: \<open>None\<close> for an
  error.\<close>

definition handleDiscover :: "env \<Rightarrow> (string \<times> target list option) list \<Rightarrow> app \<Rightarrow> int \<times> app" where
  "handleDiscover e results a =
     (if results = [] then (400, a)
      else
        let targets = uniqueTargets (concat (map (\<lambda>(provider, r). case r of None \<Rightarrow> []
              | Some ts \<Rightarrow> map (\<lambda>t. t\<lparr>t_Providers := [provider]\<rparr>) ts) results))
        in if targets = [] then (502, a)
           else if \<not> e_save e FTargets then (500, a)
           else (200, a\<lparr>file_targets := Some targets, a_targets := targets\<rparr>))"

subsection \<open>Runs\<close>

datatype app_req =
    PutSettings "settingsPatch option"
  | PutProxies "(string \<times> bool) option"
  | PostFetch "string list \<Rightarrow> string \<Rightarrow> fetchResult" "(string list \<times> string \<times> bool) option"
  | PostDiscover "(string \<times> target list option) list"
  | PostStart
  | PostStop
  | ProcessEnds

fun app_step :: "env \<Rightarrow> app_req \<Rightarrow> app \<Rightarrow> app" where
  "app_step e (PutSettings p) a = snd (handleSettings_put e p a)"
| "app_step e (PutProxies b) a = snd (handleProxies_put e b a)"
| "app_step e (PostFetch f b) a = snd (handleFetch e f b a)"
| "app_step e (PostDiscover r) a = snd (handleDiscover e r a)"
| "app_step e PostStart a = snd (handleStart e a)"
| "app_step e PostStop a = snd (handleStop e a)"
| "app_step e ProcessEnds a = a\<lparr>proc := None\<rparr>"

text \<open>A run: requests, each with the behaviour of its environment.\<close>

fun app_run :: "(env \<times> app_req) list \<Rightarrow> app \<Rightarrow> app" where
  "app_run [] a = a"
| "app_run ((e, r) # rs) a = app_run rs (app_step e r a)"

section \<open>The process runs what the service shows\<close>

definition forwards_of :: "string \<Rightarrow> string list" where
  "forwards_of cfg =
     map snd (filter (\<lambda>kv. fst kv = ''forward'') (List.map_filter (cut_byte CHR ''='') (split_on (CHR 0x0A) cfg)))"

lemma map_filter_map_Some: "map f xs = map Some ys \<Longrightarrow> List.map_filter f xs = ys"
  by (induction xs arbitrary: ys) (auto simp: List.map_filter_simps Cons_eq_map_conv)

lemma map_filter_append: "List.map_filter f (xs @ ys) = List.map_filter f xs @ List.map_filter f ys"
  by (simp add: List.map_filter_def)

lemma forwards_of_config:
  assumes "BuildConfig parse s fs = Inr cfg"
  shows "forwards_of cfg = fs"
proof -
  let ?ls = "split_on (CHR 0x0A) cfg"
  have r: "map (cut_byte CHR ''='') (butlast ?ls) = map Some (config_options s fs)" "last ?ls = []"
    using config_reads_back [OF assms] by simp_all
  have "?ls = butlast ?ls @ [[]]" using r(2) append_butlast_last_id [of ?ls] by simp
  then have "List.map_filter (cut_byte CHR ''='') ?ls =
      List.map_filter (cut_byte CHR ''='') (butlast ?ls) @ List.map_filter (cut_byte CHR ''='') [[]]"
    by (metis map_filter_append)
  also have "\<dots> = config_options s fs"
    using map_filter_map_Some [OF r(1)] by (simp add: List.map_filter_simps cut_byte_def)
  finally have "List.map_filter (cut_byte CHR ''='') ?ls = config_options s fs" .
  then show ?thesis
    by (simp add: forwards_of_def config_options_def filter_map comp_def)
qed

text \<open>The invariant: valid settings, and a running process that was started with exactly the available
  proxies of the pool.\<close>

definition app_inv :: "(string \<Rightarrow> url option) \<Rightarrow> app \<Rightarrow> bool" where
  "app_inv parse a =
     (Validate parse (a_settings a) = None \<and>
      (\<forall>cfg. proc a = Some cfg \<longrightarrow>
         (\<exists>s. BuildConfig parse s (availableProxyURLs (a_proxies a) (a_blacklist a)) = Inr cfg) \<and>
         availableProxyURLs (a_proxies a) (a_blacklist a) \<noteq> []))"

lemma save_settings_True:
  "save_settings e s a = (True, a1) \<Longrightarrow> Validate (e_parse e) s = None \<and> a1 = a\<lparr>file_settings := Some s\<rparr>"
  by (auto simp: save_settings_def SaveSettings_def split: sum.splits option.splits if_splits)

lemma save_settings_False: "save_settings e s a = (False, a1) \<Longrightarrow> a1 = a"
  by (auto simp: save_settings_def split: sum.splits)

lemma handleSettings_inv:
  assumes "app_inv parse a" "e_parse e = parse"
  shows "app_inv parse (snd (handleSettings_put e p a))"
  using assms
  by (auto simp: handleSettings_put_def Let_def app_inv_def split: option.splits sum.splits prod.splits bool.splits
      dest!: save_settings_True save_settings_False)

lemma restart_inv:
  assumes "Validate parse (a_settings a) = None" "e_stop e"
    and "BuildConfig parse s (availableProxyURLs (a_proxies a) (a_blacklist a)) = Inr cfg"
    and "availableProxyURLs (a_proxies a) (a_blacklist a) \<noteq> []" "file_config a = Some cfg"
  shows "app_inv parse (snd (restart_if_running e a))"
  using assms by (auto simp: restart_if_running_def app_Stop_def app_Start_def app_inv_def)

lemma handleProxies_inv:
  assumes "app_inv parse a" "e_parse e = parse" "e_stop e"
  shows "app_inv parse (snd (handleProxies_put e b a))"
proof -
  have v: "Validate parse (a_settings a) = None" using assms(1) by (simp add: app_inv_def)
  show ?thesis
    using assms
    by (auto simp: handleProxies_put_def Let_def saveStringSet_def v split: option.splits sum.splits if_splits
        intro!: restart_inv) (auto simp: app_inv_def)
qed

lemma handleStart_inv:
  assumes "app_inv parse a" "e_parse e = parse"
  shows "app_inv parse (snd (handleStart e a))"
  using assms
  by (auto simp: handleStart_def Let_def app_Start_def app_inv_def split: sum.splits)

lemma handleFetch_inv:
  assumes "app_inv parse a" "e_parse e = parse" "e_stop e"
  shows "app_inv parse (snd (handleFetch e f b a))"
proof (cases b)
  case None
  then show ?thesis using assms(1) by (simp add: handleFetch_def)
next
  case (Some body)
  obtain src protocol ap where b: "b = Some (src, protocol, ap)" using Some by (cases body) auto
  let ?s = "(a_settings a)\<lparr>s_Sources := src, s_Protocol := protocol\<rparr>"
  obtain ok a1 where sv: "save_settings e ?s a = (ok, a1)" by (metis prod.exhaust)
  show ?thesis
  proof (cases "ap \<and> ok")
    case False
    then show ?thesis
      using assms(1) b sv save_settings_False [of e ?s a a1] by (cases ok) (auto simp: handleFetch_def Let_def)
  next
    case True
    then have a1: "Validate parse ?s = None" "a1 = a\<lparr>file_settings := Some ?s\<rparr>"
      using sv save_settings_True [of e ?s a a1] assms(2) by simp_all
    with assms True b sv show ?thesis
      by (simp add: handleFetch_def Let_def saveStringSet_def app_Stop_def app_Start_def split: sum.splits)
        (auto simp: app_inv_def)
  qed
qed

lemma app_step_inv:
  assumes "app_inv parse a" "e_parse e = parse" "e_stop e"
  shows "app_inv parse (app_step e r a)"
proof (cases r)
  case (PostDiscover results)
  then show ?thesis using assms(1) by (simp add: handleDiscover_def Let_def app_inv_def)
next
  case PostStop
  then show ?thesis using assms(1,3) by (simp add: handleStop_def app_Stop_def app_inv_def)
next
  case ProcessEnds
  then show ?thesis using assms(1) by (simp add: app_inv_def)
qed (use assms handleSettings_inv handleProxies_inv handleFetch_inv handleStart_inv in auto)

lemma app_run_inv:
  "app_inv parse a \<Longrightarrow> list_all (\<lambda>(e, _). e_parse e = parse \<and> e_stop e) rs \<Longrightarrow> app_inv parse (app_run rs a)"
  by (induction rs a rule: app_run.induct) (auto intro: app_step_inv)

text \<open>
  Property C27: whatever requests are served and whichever writes to files and starts of the process
  fail, as long as the process can be stopped: the settings are always valid, and the managed process,
  when it runs, runs with a configuration whose forwarders are exactly the proxies of the pool that are
  not on the blacklist, of which there is at least one.
\<close>

theorem running_config_matches_pool:
  assumes "Validate parse (a_settings a0) = None" "proc a0 = None"
    and "list_all (\<lambda>(e, _). e_parse e = parse \<and> e_stop e) reqs" "a = app_run reqs a0"
  shows "Validate parse (a_settings a) = None \<and>
    (\<forall>cfg. proc a = Some cfg \<longrightarrow>
       forwards_of cfg = availableProxyURLs (a_proxies a) (a_blacklist a) \<and> forwards_of cfg \<noteq> [] \<and>
       set (forwards_of cfg) \<inter> set (a_blacklist a) = {})"
proof -
  have "app_inv parse a0" using assms(1,2) by (simp add: app_inv_def)
  from app_run_inv [OF this assms(3)] have inv: "app_inv parse a" by (simp add: assms(4))
  have "set (availableProxyURLs ps bl) \<inter> set bl = {}" for ps bl by (auto simp: availableProxyURLs_def)
  moreover have "forwards_of cfg = availableProxyURLs (a_proxies a) (a_blacklist a) \<and> forwards_of cfg \<noteq> []"
    if "proc a = Some cfg" for cfg
    using inv that forwards_of_config unfolding app_inv_def by metis
  ultimately show ?thesis using inv unfolding app_inv_def by metis
qed

definition example_app :: app where
  "example_app =
     \<lparr>a_settings = DefaultSettings ''q'' ''r'',
      a_proxies = [\<lparr>p_IP = ''1.2.3.4'', p_Port = 80, p_Protocol = ''http'', p_Source = ''s'', p_Validated = True\<rparr>,
                   \<lparr>p_IP = ''5.6.7.8'', p_Port = 80, p_Protocol = ''http'', p_Source = ''s'', p_Validated = True\<rparr>],
      a_blacklist = [], a_targets = [], a_fetchErrors = [], a_fetchSources = [],
      file_settings = None, file_proxies = None, file_blacklist = None, file_targets = None,
      file_config = None, proc = None\<rparr>"

definition example_env :: env where
  "example_env = \<lparr>e_parse = example_parse, e_save = (\<lambda>_. True), e_stop = True, e_start = True\<rparr>"

lemma example_run:
  "map_option forwards_of (proc (app_run [(example_env, PostStart), (example_env, PutProxies (Some (''http://1.2.3.4:80'', True)))] example_app))
   = Some [''http://5.6.7.8:80'']"
  by code_simp

theorem running_config_matches_pool_witness:
  "let a = app_run [(example_env, PostStart), (example_env, PutProxies (Some (''http://1.2.3.4:80'', True)))] example_app
   in \<exists>cfg. proc a = Some cfg \<and> forwards_of cfg = [''http://5.6.7.8:80''] \<and>
        set (forwards_of cfg) \<inter> set (a_blacklist a) = {}"
proof -
  let ?r = "[(example_env, PostStart), (example_env, PutProxies (Some (''http://1.2.3.4:80'', True)))]"
  obtain cfg where c: "proc (app_run ?r example_app) = Some cfg" "forwards_of cfg = [''http://5.6.7.8:80'']"
    using example_run by (cases "proc (app_run ?r example_app)") auto
  have "Validate example_parse (a_settings example_app) = None" "proc example_app = None"
    by (simp_all add: example_app_def example_valid)
  moreover have "list_all (\<lambda>(e, _). e_parse e = example_parse \<and> e_stop e) ?r" by (simp add: example_env_def)
  ultimately have "set (forwards_of cfg) \<inter> set (a_blacklist (app_run ?r example_app)) = {}"
    using running_config_matches_pool [of example_parse example_app ?r "app_run ?r example_app"] c(1) by blast
  with c show ?thesis unfolding Let_def by blast
qed

end
