(* ===== verification/Rolling_Log.thy ===== *)
theory Rolling_Log
  imports Go_Prelude
begin

text \<open>
  The log file of the managed process (\<open>internal/guicore/filelog.go\<close>): a file of bounded size with
  numbered backups.  The file system is a map from names to contents; every operation of it can be
  made to fail by the argument \<open>bad\<close>.  The specification is the history of what was accepted: the
  files hold the latest part of it, and nothing is lost before the last backup is in use.
\<close>

section \<open>Model\<close>

definition logFileCapacity :: nat where
  "logFileCapacity = 5 * 1024 * 1024"

definition logBackupCount :: nat where
  "logBackupCount = 3"

record rollingLog =
  rl_path :: string
  rl_maxSize :: nat
  rl_backups :: nat
  rl_file :: bool
  rl_size :: nat

definition newRollingLog :: "string \<Rightarrow> rollingLog" where
  "newRollingLog path =
     \<lparr>rl_path = path, rl_maxSize = logFileCapacity, rl_backups = logBackupCount,
      rl_file = False, rl_size = 0\<rparr>"

subsection \<open>The file system\<close>

type_synonym fs = "string \<rightharpoonup> bytes"

datatype fs_op =
    OpMkdir
  | OpOpen string
  | OpStat string
  | OpRemove string
  | OpRename string string
  | OpWrite string
  | OpClose string

type_synonym faults = "fs_op \<Rightarrow> bool"

definition os_remove :: "faults \<Rightarrow> string \<Rightarrow> fs \<Rightarrow> fs" where
  "os_remove bad p fs = (if bad (OpRemove p) then fs else fs(p := None))"

text \<open>\<open>os.Rename\<close> with the check of the caller: a missing source is no error.\<close>

definition os_rename :: "faults \<Rightarrow> string \<Rightarrow> string \<Rightarrow> fs \<Rightarrow> go_error option \<times> fs" where
  "os_rename bad src dst fs =
     (case fs src of
        None \<Rightarrow> (None, fs)
      | Some b \<Rightarrow>
          if bad (OpRename src dst) then (Some (ErrMsg ''rename''), fs)
          else (None, fs(src := None, dst := Some b)))"

subsection \<open>Operations\<close>

definition backup_name :: "rollingLog \<Rightarrow> nat \<Rightarrow> string" where
  "backup_name l i = rl_path l @ ''.'' @ show_nat i"

fun rotate_loop :: "faults \<Rightarrow> rollingLog \<Rightarrow> nat \<Rightarrow> fs \<Rightarrow> go_error option \<times> fs" where
  "rotate_loop bad l 0 fs = (None, fs)"
| "rotate_loop bad l (Suc i) fs =
     (let src = backup_name l (Suc i); dst = backup_name l (Suc i + 1) in
      case os_rename bad src dst (os_remove bad dst fs) of
        (Some e, fs') \<Rightarrow> (Some e, fs')
      | (None, fs') \<Rightarrow> rotate_loop bad l i fs')"

definition rotateLocked :: "faults \<Rightarrow> rollingLog \<Rightarrow> fs \<Rightarrow> go_error option \<times> rollingLog \<times> fs" where
  "rotateLocked bad l fs =
     (if rl_file l \<and> bad (OpClose (rl_path l)) then (Some (ErrMsg ''close''), l, fs)
      else
        let l1 = l\<lparr>rl_file := False\<rparr> in
        case rotate_loop bad l (rl_backups l) fs of
          (Some e, fs1) \<Rightarrow> (Some e, l1, fs1)
        | (None, fs1) \<Rightarrow>
            (case os_rename bad (rl_path l) (backup_name l 1) (os_remove bad (backup_name l 1) fs1) of
               (Some e, fs2) \<Rightarrow> (Some e, l1, fs2)
             | (None, fs2) \<Rightarrow>
                 if bad (OpOpen (rl_path l)) then (Some (ErrMsg ''open''), l1, fs2)
                 else (None, l1\<lparr>rl_file := True, rl_size := 0\<rparr>, fs2(rl_path l \<mapsto> []))))"

text \<open>A \<open>Stat\<close> that fails is taken as no file of that size.\<close>

definition log_Open :: "faults \<Rightarrow> rollingLog \<Rightarrow> fs \<Rightarrow> go_error option \<times> rollingLog \<times> fs" where
  "log_Open bad l fs =
     (if rl_file l then (None, l, fs)
      else if bad OpMkdir then (Some (ErrMsg ''mkdir''), l, fs)
      else
        let large = (case fs (rl_path l) of
              None \<Rightarrow> False
            | Some b \<Rightarrow> \<not> bad (OpStat (rl_path l)) \<and> length b \<ge> rl_maxSize l) in
        case (if large then rotateLocked bad l fs else (None, l, fs)) of
          (Some e, l1, fs1) \<Rightarrow> (Some e, l1, fs1)
        | (None, l1, fs1) \<Rightarrow>
            if bad (OpOpen (rl_path l)) then (Some (ErrMsg ''open''), l1, fs1)
            else
              let b = (case fs1 (rl_path l) of None \<Rightarrow> [] | Some b \<Rightarrow> b);
                  fs2 = fs1(rl_path l \<mapsto> b)
              in if bad (OpStat (rl_path l)) then (Some (ErrMsg ''stat''), l1, fs2)
                 else (None, l1\<lparr>rl_file := True, rl_size := length b\<rparr>, fs2))"

definition log_Write :: "faults \<Rightarrow> bytes \<Rightarrow> rollingLog \<Rightarrow> fs \<Rightarrow> (nat \<times> go_error option) \<times> rollingLog \<times> fs" where
  "log_Write bad p0 l fs =
     (if \<not> rl_file l then ((0, Some (ErrMsg ''file already closed'')), l, fs)
      else
        let originalLength = length p0;
            p = (if length p0 > rl_maxSize l then drop (length p0 - rl_maxSize l) p0 else p0)
        in
        case (if rl_size l > 0 \<and> rl_size l + length p > rl_maxSize l
              then rotateLocked bad l fs else (None, l, fs)) of
          (Some e, l1, fs1) \<Rightarrow> ((0, Some e), l1, fs1)
        | (None, l1, fs1) \<Rightarrow>
            if bad (OpWrite (rl_path l)) then ((originalLength, Some (ErrMsg ''write'')), l1, fs1)
            else
              let b = (case fs1 (rl_path l) of None \<Rightarrow> [] | Some b \<Rightarrow> b) in
              ((originalLength, None), l1\<lparr>rl_size := rl_size l1 + length p\<rparr>,
               fs1(rl_path l \<mapsto> b @ p)))"

definition log_Close :: "faults \<Rightarrow> rollingLog \<Rightarrow> go_error option \<times> rollingLog" where
  "log_Close bad l =
     (if \<not> rl_file l then (None, l)
      else (if bad (OpClose (rl_path l)) then Some (ErrMsg ''close'') else None,
            l\<lparr>rl_file := False, rl_size := 0\<rparr>))"

definition log_Tail :: "faults \<Rightarrow> int \<Rightarrow> rollingLog \<Rightarrow> fs \<Rightarrow> bytes" where
  "log_Tail bad maxBytes l fs =
     (case fs (rl_path l) of
        None \<Rightarrow> []
      | Some b \<Rightarrow>
          if bad (OpOpen (rl_path l)) \<or> bad (OpStat (rl_path l)) then []
          else drop (nat (max 0 (int (length b) - maxBytes))) b)"

subsection \<open>Sequences of calls and their history\<close>

datatype log_op = LOpen | LWrite bytes | LClose

fun log_apply :: "faults \<Rightarrow> log_op \<Rightarrow> rollingLog \<times> fs \<Rightarrow> rollingLog \<times> fs" where
  "log_apply bad LOpen (l, fs) = snd (log_Open bad l fs)"
| "log_apply bad (LWrite p) (l, fs) = snd (log_Write bad p l fs)"
| "log_apply bad LClose (l, fs) = (snd (log_Close bad l), fs)"

definition log_run :: "faults \<Rightarrow> log_op list \<Rightarrow> rollingLog \<times> fs \<Rightarrow> rollingLog \<times> fs" where
  "log_run bad ops s = foldl (\<lambda>s op. log_apply bad op s) s ops"

text \<open>What the calls add to the log: of a write to an open log, the last bytes up to the capacity.\<close>

fun accepted :: "bool \<Rightarrow> nat \<Rightarrow> log_op list \<Rightarrow> bytes list" where
  "accepted isopen cap [] = []"
| "accepted isopen cap (LOpen # ops) = accepted True cap ops"
| "accepted isopen cap (LClose # ops) = accepted False cap ops"
| "accepted isopen cap (LWrite p # ops) =
     (if isopen then [drop (length p - cap) p] else []) @ accepted isopen cap ops"

section \<open>Rotation\<close>

text \<open>The current file and its backups, from the newest to the oldest.\<close>

definition log_name :: "rollingLog \<Rightarrow> nat \<Rightarrow> string" where
  "log_name l i = (if i = 0 then rl_path l else backup_name l i)"

abbreviation no_faults :: faults where
  "no_faults \<equiv> (\<lambda>_. False)"

lemma log_name_inject [simp]: "log_name l i = log_name l j \<longleftrightarrow> i = j"
  by (simp add: log_name_def backup_name_def)

lemma log_name_0: "rl_path l = log_name l 0"
  by (simp add: log_name_def)

lemma log_name_Suc: "backup_name l (Suc i) = log_name l (Suc i)"
  by (simp add: log_name_def)

lemma rename_moves:
  "src \<noteq> dst \<Longrightarrow>
   os_rename no_faults src dst (os_remove no_faults dst fs) = (None, fs(dst := fs src, src := None))"
  by (auto simp: os_rename_def os_remove_def fun_upd_twist split: option.splits)

lemma rotate_loop_shift:
  "\<exists>fs'. rotate_loop no_faults l n fs = (None, fs') \<and>
    (\<forall>i. 0 < i \<and> i \<le> n \<longrightarrow> fs' (log_name l (Suc i)) = fs (log_name l i)) \<and>
    (\<forall>f. f \<notin> log_name l ` {1..Suc n} \<longrightarrow> fs' f = fs f)"
proof (induction n arbitrary: fs)
  case 0
  then show ?case by simp
next
  case (Suc n)
  let ?s = "log_name l (Suc n)" and ?d = "log_name l (Suc (Suc n))"
  let ?fs = "fs(?d := fs ?s, ?s := None)"
  obtain fs' where r: "rotate_loop no_faults l n ?fs = (None, fs')"
    and sh: "\<And>i. 0 < i \<Longrightarrow> i \<le> n \<Longrightarrow> fs' (log_name l (Suc i)) = ?fs (log_name l i)"
    and other: "\<And>f. f \<notin> log_name l ` {1..Suc n} \<Longrightarrow> fs' f = ?fs f"
    using Suc.IH [of ?fs] by blast
  have step: "rotate_loop no_faults l (Suc n) fs = (None, fs')"
    using r rename_moves [of ?s ?d fs] by (simp add: Let_def log_name_Suc)
  have "?d \<notin> log_name l ` {1..Suc n}" by (auto simp: image_iff)
  then have top: "fs' ?d = fs ?s" using other by simp
  have low: "fs' (log_name l (Suc i)) = fs (log_name l i)" if "0 < i" "i \<le> n" for i
    using sh [OF that] that by simp
  have "fs' f = fs f" if "f \<notin> log_name l ` {1..Suc (Suc n)}" for f
  proof -
    from that have "f \<noteq> ?s" "f \<noteq> ?d" "f \<notin> log_name l ` {1..Suc n}" by auto
    then show ?thesis using other [of f] by simp
  qed
  with step top low show ?case by (auto simp: le_Suc_eq)
qed

text \<open>A rotation moves every file to the next name and starts an empty one.\<close>

lemma rotateLocked_shift:
  "\<exists>fs'. rotateLocked no_faults l fs = (None, l\<lparr>rl_file := True, rl_size := 0\<rparr>, fs') \<and>
    (\<forall>i \<le> rl_backups l. fs' (log_name l (Suc i)) = fs (log_name l i)) \<and>
    fs' (log_name l 0) = Some [] \<and>
    (\<forall>f. f \<notin> log_name l ` {0..Suc (rl_backups l)} \<longrightarrow> fs' f = fs f)"
proof -
  let ?b = "rl_backups l"
  obtain fs1 where r: "rotate_loop no_faults l ?b fs = (None, fs1)"
    and sh: "\<And>i. 0 < i \<Longrightarrow> i \<le> ?b \<Longrightarrow> fs1 (log_name l (Suc i)) = fs (log_name l i)"
    and other: "\<And>f. f \<notin> log_name l ` {1..Suc ?b} \<Longrightarrow> fs1 f = fs f"
    using rotate_loop_shift [of l ?b fs] by blast
  let ?fs = "fs1(log_name l 1 := fs1 (log_name l 0), log_name l 0 := Some [])"
  have "backup_name l 1 = log_name l 1" using log_name_Suc [of l 0] by simp
  then have rot: "rotateLocked no_faults l fs = (None, l\<lparr>rl_file := True, rl_size := 0\<rparr>, ?fs)"
    using r rename_moves [of "log_name l 0" "log_name l 1" fs1]
    by (simp add: rotateLocked_def Let_def log_name_0)
  have path: "fs1 (log_name l 0) = fs (log_name l 0)" by (rule other) auto
  have "?fs (log_name l (Suc i)) = fs (log_name l i)" if "i \<le> ?b" for i
    using sh [of i] that path by (cases i) simp_all
  moreover have "?fs f = fs f" if "f \<notin> log_name l ` {0..Suc ?b}" for f
  proof -
    have "f \<noteq> log_name l 0" "f \<noteq> log_name l 1" "f \<notin> log_name l ` {1..Suc ?b}" using that by auto
    then show ?thesis using other by simp
  qed
  ultimately show ?thesis using rot by auto
qed

section \<open>The history\<close>

definition content :: "rollingLog \<Rightarrow> fs \<Rightarrow> nat \<Rightarrow> bytes" where
  "content l fs i = (case fs (log_name l i) of None \<Rightarrow> [] | Some b \<Rightarrow> b)"

text \<open>The bytes in the files from the newest of \<open>n\<close> backups' age to the current one, oldest first.\<close>

fun kept :: "rollingLog \<Rightarrow> fs \<Rightarrow> nat \<Rightarrow> bytes" where
  "kept l fs 0 = content l fs 0"
| "kept l fs (Suc i) = content l fs (Suc i) @ kept l fs i"

text \<open>
  The invariant: names beyond the last backup are as at the beginning; the files in use are the
  newest ones without a gap, none larger than the capacity; the size is that of the current file
  while it is open; what is kept is the end of the history, all of it unless the last backup is
  in use.
\<close>

definition log_inv :: "rollingLog \<Rightarrow> fs \<Rightarrow> fs \<Rightarrow> bytes \<Rightarrow> bool" where
  "log_inv l fs fs0 hist =
     (0 < rl_maxSize l \<and>
      (\<forall>f. f \<notin> log_name l ` {0..Suc (rl_backups l)} \<longrightarrow> fs f = fs0 f) \<and>
      (\<forall>i \<le> rl_backups l. fs (log_name l (Suc i)) \<noteq> None \<longrightarrow> fs (log_name l i) \<noteq> None) \<and>
      (\<forall>i \<le> Suc (rl_backups l). length (content l fs i) \<le> rl_maxSize l) \<and>
      (rl_file l \<longrightarrow> fs (log_name l 0) \<noteq> None \<and> rl_size l = length (content l fs 0)) \<and>
      (let k = kept l fs (Suc (rl_backups l)) in
         (\<exists>old. hist = old @ k) \<and>
         (fs (log_name l (Suc (rl_backups l))) = None \<longrightarrow> hist = k)))"

lemma kept_shift:
  assumes "\<And>i. i \<le> n \<Longrightarrow> fs' (log_name l (Suc i)) = fs (log_name l i)" "fs' (log_name l 0) = Some []"
  shows "kept l fs' (Suc n) = kept l fs n"
  using assms(1)
proof (induction n)
  case 0
  then show ?case using assms(2) by (simp add: content_def)
next
  case (Suc n)
  then show ?case by (simp add: content_def)
qed

lemma log_inv_rotate:
  assumes inv: "log_inv l fs fs0 hist" and cur: "fs (log_name l 0) \<noteq> None"
  shows "\<exists>fs'. rotateLocked no_faults l fs = (None, l\<lparr>rl_file := True, rl_size := 0\<rparr>, fs') \<and>
    log_inv (l\<lparr>rl_file := True, rl_size := 0\<rparr>) fs' fs0 hist \<and> fs' (log_name l 0) = Some []"
proof -
  let ?b = "rl_backups l" and ?l = "l\<lparr>rl_file := True, rl_size := 0\<rparr>"
  have nm: "log_name ?l = log_name l" by (rule ext) (simp add: log_name_def backup_name_def)
  have ct: "content ?l = content l" by (intro ext) (simp add: content_def nm)
  have kp: "kept ?l f n = kept l f n" for f n by (induction n) (simp_all add: ct)
  obtain fs' where r: "rotateLocked no_faults l fs = (None, ?l, fs')"
    and sh: "\<And>i. i \<le> ?b \<Longrightarrow> fs' (log_name l (Suc i)) = fs (log_name l i)"
    and z: "fs' (log_name l 0) = Some []"
    and other: "\<And>f. f \<notin> log_name l ` {0..Suc ?b} \<Longrightarrow> fs' f = fs f"
    using rotateLocked_shift [of l fs] by auto
  have k: "kept l fs' (Suc ?b) = kept l fs ?b" by (rule kept_shift [OF sh z])
  have c: "content l fs' (Suc i) = content l fs i" if "i \<le> ?b" for i
    using sh [OF that] by (simp add: content_def)
  have hist: "\<exists>old. hist = old @ kept l fs (Suc ?b)" "fs (log_name l (Suc ?b)) = None \<Longrightarrow> hist = kept l fs (Suc ?b)"
    and sizes: "\<And>i. i \<le> Suc ?b \<Longrightarrow> length (content l fs i) \<le> rl_maxSize l"
    and gap: "\<And>i. i \<le> ?b \<Longrightarrow> fs (log_name l (Suc i)) \<noteq> None \<Longrightarrow> fs (log_name l i) \<noteq> None"
    using inv by (auto simp: log_inv_def Let_def)
  have "length (content l fs' i) \<le> rl_maxSize l" if "i \<le> Suc ?b" for i
    using that z c sizes by (cases i) (auto simp: content_def)
  moreover have "fs' (log_name l i) \<noteq> None" if "i \<le> ?b" "fs' (log_name l (Suc i)) \<noteq> None" for i
    using that z sh gap cur by (cases i) auto
  moreover have "\<exists>old. hist = old @ kept l fs' (Suc ?b)" using hist(1) k by (metis append.assoc kept.simps(2))
  moreover have "hist = kept l fs' (Suc ?b)" if "fs' (log_name l (Suc ?b)) = None"
  proof -
    have "fs (log_name l ?b) = None" using that sh [of ?b] by simp
    then have "fs (log_name l (Suc ?b)) = None" using gap [of ?b] by blast
    then show ?thesis using hist(2) k by (simp add: content_def)
  qed
  moreover have "content l fs' 0 = []" using z by (simp add: content_def)
  moreover have "0 < rl_maxSize l" "\<And>f. f \<notin> log_name l ` {0..Suc ?b} \<Longrightarrow> fs f = fs0 f"
    using inv by (auto simp: log_inv_def)
  ultimately have "log_inv ?l fs' fs0 hist"
    unfolding log_inv_def Let_def nm ct kp using z other by simp
  with r z show ?thesis by blast
qed

lemma log_name_upd [simp]:
  "log_name (l\<lparr>rl_file := x\<rparr>) = log_name l" "log_name (l\<lparr>rl_size := n\<rparr>) = log_name l"
  by (rule ext, simp add: log_name_def backup_name_def)+

lemma kept_upd [simp]:
  "kept (l\<lparr>rl_file := x\<rparr>) fs n = kept l fs n" "kept (l\<lparr>rl_size := m\<rparr>) fs n = kept l fs n"
  "content (l\<lparr>rl_file := x\<rparr>) fs n = content l fs n" "content (l\<lparr>rl_size := m\<rparr>) fs n = content l fs n"
  by (induction n) (simp_all add: content_def)

lemma content_write:
  "content l (fs(log_name l 0 \<mapsto> b)) i = (if i = 0 then b else content l fs i)"
  by (simp add: content_def)

lemma kept_write: "kept l (fs(log_name l 0 \<mapsto> content l fs 0 @ p)) n = kept l fs n @ p"
proof (induction n)
  case 0
  show ?case by (simp only: kept.simps content_write simp_thms if_True)
next
  case (Suc n)
  then show ?case by (simp only: kept.simps content_write append_assoc nat.distinct if_False)
qed

lemma log_inv_append:
  assumes inv: "log_inv l fs fs0 hist" and sz: "length (content l fs 0) + length p \<le> rl_maxSize l"
  shows "log_inv (l\<lparr>rl_file := x, rl_size := length (content l fs 0) + length p\<rparr>)
    (fs(log_name l 0 \<mapsto> content l fs 0 @ p)) fs0 (hist @ p)"
  unfolding log_inv_def Let_def kept_upd log_name_upd kept_write content_write
  using assms by (auto simp: log_inv_def Let_def)

lemma log_Write_inv:
  assumes inv: "log_inv l fs fs0 hist" and op: "rl_file l"
    and w: "log_Write no_faults p l fs = (r, l', fs')"
  shows "log_inv l' fs' fs0 (hist @ drop (length p - rl_maxSize l) p) \<and> rl_file l' \<and>
    rl_maxSize l' = rl_maxSize l \<and> rl_backups l' = rl_backups l \<and> rl_path l' = rl_path l \<and>
    (\<exists>b. fs' (rl_path l) = Some (b @ drop (length p - rl_maxSize l) p))"
proof -
  let ?p = "drop (length p - rl_maxSize l) p"
  let ?rot = "rl_size l > 0 \<and> rl_size l + length ?p > rl_maxSize l"
  have p: "(if length p > rl_maxSize l then drop (length p - rl_maxSize l) p else p) = ?p" by simp
  have "\<exists>fs1. (if ?rot then rotateLocked no_faults l fs else (None, l, fs)) =
      (None, l\<lparr>rl_file := True, rl_size := length (content l fs1 0)\<rparr>, fs1) \<and>
      log_inv (l\<lparr>rl_file := True, rl_size := length (content l fs1 0)\<rparr>) fs1 fs0 hist \<and>
      length (content l fs1 0) + length ?p \<le> rl_maxSize l"
  proof (cases ?rot)
    case True
    have "fs (log_name l 0) \<noteq> None" using inv op by (simp add: log_inv_def)
    from log_inv_rotate [OF inv this] True show ?thesis by (auto simp: content_def)
  next
    case False
    have "rl_size l = length (content l fs 0)" using inv op by (simp add: log_inv_def)
    moreover from this op have "l\<lparr>rl_file := True, rl_size := length (content l fs 0)\<rparr> = l" by (cases l) simp
    ultimately show ?thesis using False inv by (intro exI [of _ fs]) auto
  qed
  then obtain fs1 where r: "(if ?rot then rotateLocked no_faults l fs else (None, l, fs)) =
      (None, l\<lparr>rl_file := True, rl_size := length (content l fs1 0)\<rparr>, fs1)"
    and i1: "log_inv (l\<lparr>rl_file := True, rl_size := length (content l fs1 0)\<rparr>) fs1 fs0 hist"
    and sz: "length (content l fs1 0) + length ?p \<le> rl_maxSize l" by blast
  have c: "(case fs1 (rl_path l) of None \<Rightarrow> [] | Some b \<Rightarrow> b) = content l fs1 0"
    by (simp add: content_def log_name_0)
  have "l' = l\<lparr>rl_file := True, rl_size := length (content l fs1 0) + length ?p\<rparr>"
    "fs' = fs1(log_name l 0 \<mapsto> content l fs1 0 @ ?p)"
    using w op unfolding log_Write_def Let_def p r by (simp_all add: c log_name_0 [symmetric])
  with log_inv_append [OF i1, of ?p True] sz show ?thesis by (simp add: log_name_0)
qed

lemma log_Open_inv:
  assumes inv: "log_inv l fs fs0 hist" and o: "log_Open no_faults l fs = (r, l', fs')"
  shows "r = None \<and> log_inv l' fs' fs0 hist \<and> rl_file l' \<and>
    rl_maxSize l' = rl_maxSize l \<and> rl_backups l' = rl_backups l \<and> rl_path l' = rl_path l"
proof (cases "rl_file l")
  case True
  with inv o show ?thesis by (simp add: log_Open_def)
next
  case False
  let ?large = "case fs (rl_path l) of None \<Rightarrow> False | Some b \<Rightarrow> length b \<ge> rl_maxSize l"
  have "\<exists>l1 fs1. (if ?large then rotateLocked no_faults l fs else (None, l, fs)) = (None, l1, fs1) \<and>
      log_inv l1 fs1 fs0 hist \<and> rl_path l1 = rl_path l \<and> rl_maxSize l1 = rl_maxSize l \<and>
      rl_backups l1 = rl_backups l"
  proof (cases ?large)
    case True
    then have "fs (log_name l 0) \<noteq> None" by (auto simp: log_name_0 split: option.splits)
    from log_inv_rotate [OF inv this] True show ?thesis by auto
  qed (use inv in auto)
  then obtain l1 fs1 where r: "(if ?large then rotateLocked no_faults l fs else (None, l, fs)) = (None, l1, fs1)"
    and i1: "log_inv l1 fs1 fs0 hist" and l1: "rl_path l1 = rl_path l" "rl_maxSize l1 = rl_maxSize l"
      "rl_backups l1 = rl_backups l" by blast
  have c: "(case fs1 (rl_path l) of None \<Rightarrow> [] | Some b \<Rightarrow> b) = content l1 fs1 0"
    using l1(1) by (simp add: content_def log_name_0 [symmetric])
  have e: "r = None" "l' = l1\<lparr>rl_file := True, rl_size := length (content l1 fs1 0)\<rparr>"
    "fs' = fs1(log_name l1 0 \<mapsto> content l1 fs1 0)"
  proof -
    have "(r, l', fs') = (None, l1\<lparr>rl_file := True, rl_size := length (content l1 fs1 0)\<rparr>,
        fs1(rl_path l \<mapsto> content l1 fs1 0))"
      unfolding o [symmetric]
      by (simp only: log_Open_def Let_def False if_False simp_thms r prod.case option.case c)
    then show "r = None" "l' = l1\<lparr>rl_file := True, rl_size := length (content l1 fs1 0)\<rparr>"
      "fs' = fs1(log_name l1 0 \<mapsto> content l1 fs1 0)"
      using l1(1) by (simp_all add: log_name_0 [symmetric])
  qed
  have "length (content l1 fs1 0) \<le> rl_maxSize l1" using i1 by (simp add: log_inv_def)
  with log_inv_append [OF i1, of "[]" True] e l1 show ?thesis by simp
qed

lemma log_Close_inv:
  "log_inv l fs fs0 hist \<Longrightarrow> log_inv (snd (log_Close no_faults l)) fs fs0 hist"
  by (simp add: log_Close_def log_inv_def Let_def)

lemma log_run_inv:
  assumes "log_inv l fs fs0 hist" "log_run no_faults ops (l, fs) = (l', fs')"
  shows "log_inv l' fs' fs0 (hist @ concat (accepted (rl_file l) (rl_maxSize l) ops)) \<and>
    rl_maxSize l' = rl_maxSize l \<and> rl_backups l' = rl_backups l \<and> rl_path l' = rl_path l"
  using assms
proof (induction ops arbitrary: l fs hist)
  case Nil
  then show ?case by (simp add: log_run_def)
next
  case (Cons op ops)
  obtain l1 fs1 where s: "log_apply no_faults op (l, fs) = (l1, fs1)" by (cases "log_apply no_faults op (l, fs)")
  have r: "log_run no_faults ops (l1, fs1) = (l', fs')" using Cons.prems(2) s by (simp add: log_run_def)
  show ?case
  proof (cases op)
    case LOpen
    with s log_Open_inv [OF Cons.prems(1), of _ l1 fs1] have
      "log_inv l1 fs1 fs0 hist" "rl_file l1" "rl_maxSize l1 = rl_maxSize l" "rl_backups l1 = rl_backups l"
      "rl_path l1 = rl_path l" by (auto simp: prod_eq_iff)
    with Cons.IH [OF this(1) r] LOpen show ?thesis by simp
  next
    case LClose
    with s have "log_inv l1 fs1 fs0 hist" "\<not> rl_file l1" "rl_maxSize l1 = rl_maxSize l" "rl_backups l1 = rl_backups l"
      "rl_path l1 = rl_path l" using log_Close_inv [OF Cons.prems(1)] by (auto simp: log_Close_def split: if_splits)
    with Cons.IH [OF this(1) r] LClose show ?thesis by simp
  next
    case (LWrite p)
    show ?thesis
    proof (cases "rl_file l")
      case True
      with s LWrite log_Write_inv [OF Cons.prems(1) True, of p _ l1 fs1] have
        "log_inv l1 fs1 fs0 (hist @ drop (length p - rl_maxSize l) p)" "rl_file l1"
        "rl_maxSize l1 = rl_maxSize l" "rl_backups l1 = rl_backups l" "rl_path l1 = rl_path l"
        by (auto simp: prod_eq_iff)
      with Cons.IH [OF this(1) r] LWrite True show ?thesis by simp
    next
      case False
      with s LWrite have "l1 = l" "fs1 = fs" by (simp_all add: log_Write_def)
      with Cons.IH [OF Cons.prems(1)] r LWrite False show ?thesis by simp
    qed
  qed
qed

section \<open>Properties\<close>

lemma kept_empty: "\<forall>i\<le>n. fs (log_name l i) = None \<Longrightarrow> kept l fs n = []"
  by (induction n) (simp_all add: content_def)

lemma log_inv_init:
  assumes "\<forall>i \<le> Suc logBackupCount. fs0 (log_name (newRollingLog path) i) = None"
  shows "log_inv (newRollingLog path) fs0 fs0 []"
  using assms kept_empty [of "Suc logBackupCount" fs0 "newRollingLog path"]
  unfolding log_inv_def Let_def
  by (auto simp: newRollingLog_def content_def logFileCapacity_def)

text \<open>
  Property C34: after any calls on a new log, the log files together hold the latest part of what was
  written, in order; nothing at all is missing as long as the file \<open>.4\<close> does not exist; no file is
  larger than 5 MiB; and no other file is touched.
\<close>

theorem log_keeps_history:
  assumes "\<forall>i \<le> Suc logBackupCount. fs0 (log_name (newRollingLog path) i) = None"
    and "log_run (\<lambda>_. False) ops (newRollingLog path, fs0) = (l', fs')"
  shows "let hist = concat (accepted False logFileCapacity ops); k = kept l' fs' (Suc logBackupCount) in
    (\<exists>old. hist = old @ k) \<and>
    (fs' (path @ ''.4'') = None \<longrightarrow> hist = k) \<and>
    (\<forall>i \<le> Suc logBackupCount. length (content l' fs' i) \<le> logFileCapacity) \<and>
    (\<forall>f. f \<notin> log_name l' ` {0..Suc logBackupCount} \<longrightarrow> fs' f = fs0 f)"
proof -
  have inv: "log_inv l' fs' fs0 (concat (accepted False logFileCapacity ops))"
    and l': "rl_maxSize l' = logFileCapacity" "rl_backups l' = logBackupCount" "rl_path l' = path"
    using log_run_inv [OF log_inv_init [OF assms(1)] assms(2)] by (simp_all add: newRollingLog_def)
  have "show_nat 4 = ''4''" by code_simp
  then have "log_name l' (Suc logBackupCount) = path @ ''.4''"
    by (simp add: log_name_def backup_name_def l' logBackupCount_def)
  with inv l' show ?thesis by (simp add: log_inv_def Let_def)
qed

theorem log_keeps_history_witness:
  "\<exists>l' fs'. log_run (\<lambda>_. False) [LOpen, LWrite [1, 2], LClose, LWrite [3]] (newRollingLog ''g.log'', Map.empty)
      = (l', fs') \<and> (\<exists>old. [1, 2] = old @ kept l' fs' 4) \<and> length (content l' fs' 1) \<le> logFileCapacity"
proof -
  obtain l' fs' where r: "log_run (\<lambda>_. False) [LOpen, LWrite [1, 2], LClose, LWrite [3]]
      (newRollingLog ''g.log'', Map.empty) = (l', fs')" by (metis prod.exhaust)
  show ?thesis
    using log_keeps_history [OF _ r] r by (simp add: Let_def logBackupCount_def logFileCapacity_def)
qed

lemma write_full:
  assumes "rl_file l" "0 < rl_size l" "length p = rl_maxSize l"
  shows "\<exists>fs'. snd (log_Write no_faults p l fs) = (l\<lparr>rl_size := rl_maxSize l\<rparr>, fs') \<and>
    fs' (log_name l 0) = Some p \<and>
    (\<forall>i \<le> rl_backups l. fs' (log_name l (Suc i)) = fs (log_name l i))"
proof -
  obtain fs1 where r: "rotateLocked no_faults l fs = (None, l\<lparr>rl_file := True, rl_size := 0\<rparr>, fs1)"
    and sh: "\<And>i. i \<le> rl_backups l \<Longrightarrow> fs1 (log_name l (Suc i)) = fs (log_name l i)"
    and z: "fs1 (log_name l 0) = Some []" using rotateLocked_shift [of l fs] by blast
  have "l\<lparr>rl_file := True, rl_size := rl_maxSize l\<rparr> = l\<lparr>rl_size := rl_maxSize l\<rparr>"
    using assms(1) by (cases l) simp
  then show ?thesis
    using assms r z sh by (intro exI [of _ "fs1(log_name l 0 \<mapsto> p)"])
      (simp add: log_Write_def Let_def log_name_0)
qed

text \<open>
  The rotation keeps one backup more than \<open>logBackupCount\<close>: when five files' worth of
  log has been written, the first of them is still there as the fourth backup.
\<close>

lemma log_fourth_backup:
  assumes "list_all (\<lambda>p. length p = logFileCapacity) [p0, p1, p2, p3, p4]"
    and "fs0 path = None"
  shows "snd (log_run (\<lambda>_. False) [LOpen, LWrite p0, LWrite p1, LWrite p2, LWrite p3, LWrite p4]
      (newRollingLog path, fs0)) (path @ ''.4'') = Some p0 \<and> logBackupCount < 4"
proof -
  let ?l = "\<lparr>rl_path = path, rl_maxSize = logFileCapacity, rl_backups = 3, rl_file = True,
      rl_size = logFileCapacity\<rparr>"
  have cap: "0 < logFileCapacity" by (simp add: logFileCapacity_def)
  have first: "log_run no_faults [LOpen, LWrite p0] (newRollingLog path, fs0) = (?l, fs0(path \<mapsto> p0))"
    using assms cap
    by (simp add: log_run_def newRollingLog_def log_Open_def log_Write_def Let_def logBackupCount_def)
  have full: "\<exists>fs'. log_apply no_faults (LWrite p) (?l, fs) = (?l, fs') \<and>
      fs' (log_name ?l 0) = Some p \<and> (\<forall>i \<le> 3. fs' (log_name ?l (Suc i)) = fs (log_name ?l i))"
    if "length p = logFileCapacity" for p fs
    using write_full [of ?l p fs] that cap by simp
  have len: "length p1 = logFileCapacity" "length p2 = logFileCapacity" "length p3 = logFileCapacity"
    "length p4 = logFileCapacity" using assms(1) by simp_all
  let ?n = "log_name ?l"
  have shift: "\<exists>fs'. log_apply no_faults (LWrite p) (?l, fs) = (?l, fs') \<and> fs' (?n (Suc i)) = Some p0"
    if "length p = logFileCapacity" "i \<le> 3" "fs (?n i) = Some p0" for p i fs
    using full [OF that(1), of fs] that(2,3) by metis
  obtain f1 where f1: "log_apply no_faults (LWrite p1) (?l, fs0(path \<mapsto> p0)) = (?l, f1)"
    "f1 (?n (Suc 0)) = Some p0" using shift [OF len(1), of 0 "fs0(path \<mapsto> p0)"] by (auto simp: log_name_0 [symmetric])
  obtain f2 where f2: "log_apply no_faults (LWrite p2) (?l, f1) = (?l, f2)" "f2 (?n (Suc (Suc 0))) = Some p0"
    using shift [OF len(2), of "Suc 0" f1] f1(2) by auto
  obtain f3 where f3: "log_apply no_faults (LWrite p3) (?l, f2) = (?l, f3)" "f3 (?n (Suc (Suc (Suc 0)))) = Some p0"
    using shift [OF len(3), of "Suc (Suc 0)" f2] f2(2) by auto
  obtain f4 where f4: "log_apply no_faults (LWrite p4) (?l, f3) = (?l, f4)"
    "f4 (?n (Suc (Suc (Suc (Suc 0))))) = Some p0" using shift [OF len(4), of "Suc (Suc (Suc 0))" f3] f3(2) by auto
  have "show_nat 4 = ''4''" by code_simp
  then have "?n (Suc (Suc (Suc (Suc 0)))) = path @ ''.4''" by (simp add: log_name_def backup_name_def numeral_eq_Suc)
  with f4 first f1(1) f2(1) f3(1) show ?thesis by (simp add: log_run_def logBackupCount_def)
qed

lemma log_fourth_backup_witness:
  "let b = replicate logFileCapacity 7 in
   snd (log_run (\<lambda>_. False) [LOpen, LWrite b, LWrite b, LWrite b, LWrite b, LWrite b]
      (newRollingLog ''g.log'', Map.empty)) (''g.log'' @ ''.4'') = Some b \<and> logBackupCount < 4"
  unfolding Let_def by (rule log_fourth_backup) (simp_all del: replicate.simps)

end
