(* ===== verification/Gui_Manager.thy ===== *)
theory Gui_Manager
  imports Rolling_Log
begin

text \<open>
  The supervisor of the managed process (\<open>internal/guicore/manager.go\<close>): starting and stopping the
  process and the goroutine that waits for its end, on top of the rolling log.

  \<open>Start\<close> and the two locked parts of \<open>Stop\<close> and \<open>wait\<close> are atomic because they hold the mutex; the
  part of \<open>wait\<close> before its lock (the last line of the log and closing it) is a step of its own, so that
  the relation \<open>mgr_step\<close> has every interleaving of calls, exits, kills and waiting goroutines.
\<close>

section \<open>Model\<close>

definition logTailCapacity :: int where
  "logTailCapacity = 256 * 1024"

definition ErrAlreadyRunning :: go_error where
  "ErrAlreadyRunning = ErrMsg ''glider is already running''"

text \<open>A command object is named by a number; \<open>m_running\<close> to \<open>m_exitError\<close> are the fields of \<open>Status\<close>.\<close>

record manager =
  m_executable :: string
  m_configPath :: string
  m_statusPath :: string
  m_cmd :: "nat option"
  m_running :: bool
  m_pid :: int
  m_startTime :: int
  m_exitError :: string
  m_stopping :: bool
  m_logs :: rollingLog

text \<open>\<open>filepath.Join\<close> of a clean directory and a plain name.\<close>

definition join_path :: "string \<Rightarrow> string \<Rightarrow> string" where
  "join_path d n = (if d = ''.'' then n else if d = ''/'' then d @ n else d @ ''/'' @ n)"

text \<open>\<open>dir\<close> is \<open>filepath.Dir\<close> of the configuration path.\<close>

definition NewManagerWithExecutable :: "string \<Rightarrow> string \<Rightarrow> string \<Rightarrow> manager" where
  "NewManagerWithExecutable dir executable configPath =
     \<lparr>m_executable = executable, m_configPath = configPath,
      m_statusPath = join_path dir ''runtime-status.json'',
      m_cmd = None, m_running = False, m_pid = 0, m_startTime = 0, m_exitError = [], m_stopping = False,
      m_logs = newRollingLog (join_path dir ''glider.log'')\<rparr>"

text \<open>\<open>Start\<close>: \<open>line\<close> is the line written to the log, \<open>now\<close> the time, \<open>res\<close> the command and process id when
  \<open>cmd.Start\<close> succeeds.\<close>

definition mgr_Start ::
  "faults \<Rightarrow> bytes \<Rightarrow> int \<Rightarrow> (nat \<times> int) option \<Rightarrow> manager \<Rightarrow> fs \<Rightarrow> go_error option \<times> manager \<times> fs" where
  "mgr_Start bad line now res m fs =
     (if m_running m then (Some ErrAlreadyRunning, m, fs)
      else if m_executable m = [] then (Some (ErrMsg ''executable path must not be empty''), m, fs)
      else if m_configPath m = [] then (Some (ErrMsg ''config path must not be empty''), m, fs)
      else
        case log_Open bad (m_logs m) fs of
          (Some e, l, fs1) \<Rightarrow> (Some (ErrMsg ''open glider log''), m\<lparr>m_logs := l\<rparr>, fs1)
        | (None, l, fs1) \<Rightarrow>
            (case log_Write bad line l fs1 of
               (_, l2, fs2) \<Rightarrow>
                 let fs3 = os_remove bad (m_statusPath m) fs2 in
                 (case res of
                    None \<Rightarrow> (Some (ErrMsg ''start glider''), m\<lparr>m_logs := snd (log_Close bad l2)\<rparr>, fs3)
                  | Some (c, pid) \<Rightarrow>
                      (None, m\<lparr>m_cmd := Some c, m_running := True, m_pid := pid, m_startTime := now,
                         m_exitError := [], m_stopping := False, m_logs := l2\<rparr>, fs3))))"

text \<open>The locked part of \<open>Stop\<close>: the command it then interrupts, waits for and kills.\<close>

definition mgr_Stop :: "manager \<Rightarrow> nat option \<times> manager" where
  "mgr_Stop m =
     (if \<not> m_running m \<or> m_cmd m = None then (None, m) else (m_cmd m, m\<lparr>m_stopping := True\<rparr>))"

text \<open>The two parts of \<open>wait\<close>; \<open>err\<close> is the error of \<open>cmd.Wait\<close>.\<close>

definition mgr_wait_log :: "faults \<Rightarrow> bytes \<Rightarrow> manager \<Rightarrow> fs \<Rightarrow> manager \<times> fs" where
  "mgr_wait_log bad line m fs =
     (case log_Write bad line (m_logs m) fs of
        (_, l, fs1) \<Rightarrow> (m\<lparr>m_logs := snd (log_Close bad l)\<rparr>, fs1))"

definition mgr_wait_finish :: "nat \<Rightarrow> string option \<Rightarrow> manager \<Rightarrow> manager" where
  "mgr_wait_finish c err m =
     (if m_cmd m = Some c then
        m\<lparr>m_running := False, m_pid := 0,
          m_exitError := (case err of Some e \<Rightarrow> if m_stopping m then [] else e | None \<Rightarrow> []),
          m_cmd := None, m_stopping := False\<rparr>
      else m)"

definition mgr_Logs :: "faults \<Rightarrow> manager \<Rightarrow> fs \<Rightarrow> bytes" where
  "mgr_Logs bad m fs = log_Tail bad logTailCapacity (m_logs m) fs"

subsection \<open>The system\<close>

datatype wait_pc = Waiting | LogClosed

text \<open>Processes alive, the error of those that ended, the waiting goroutines, the closed \<open>done\<close> channels
  and the commands made so far.\<close>

record sys =
  sy_m :: manager
  sy_fs :: fs
  sy_alive :: "nat set"
  sy_exit :: "nat \<Rightarrow> string option"
  sy_wait :: "nat \<rightharpoonup> wait_pc"
  sy_done :: "nat set"
  sy_used :: "nat set"

inductive mgr_step :: "faults \<Rightarrow> sys \<Rightarrow> sys \<Rightarrow> bool" for bad where
  start_ok:
    "c \<notin> sy_used s \<Longrightarrow> mgr_Start bad line now (Some (c, pid)) (sy_m s) (sy_fs s) = (None, m', fs') \<Longrightarrow>
     mgr_step bad s (s\<lparr>sy_m := m', sy_fs := fs', sy_alive := insert c (sy_alive s),
       sy_wait := (sy_wait s)(c \<mapsto> Waiting), sy_used := insert c (sy_used s)\<rparr>)"
| start_failed:
    "mgr_Start bad line now res (sy_m s) (sy_fs s) = (Some e, m', fs') \<Longrightarrow>
     mgr_step bad s (s\<lparr>sy_m := m', sy_fs := fs'\<rparr>)"
| stop_called:
    "mgr_Stop (sy_m s) = (r, m') \<Longrightarrow> mgr_step bad s (s\<lparr>sy_m := m'\<rparr>)"
| prints:
    "c \<in> sy_alive s \<Longrightarrow> log_Write bad b (m_logs (sy_m s)) (sy_fs s) = (r, l', fs') \<Longrightarrow>
     mgr_step bad s (s\<lparr>sy_m := (sy_m s)\<lparr>m_logs := l'\<rparr>, sy_fs := fs'\<rparr>)"
| exits:
    "c \<in> sy_alive s \<Longrightarrow>
     mgr_step bad s (s\<lparr>sy_alive := sy_alive s - {c}, sy_exit := (sy_exit s)(c := err)\<rparr>)"
| wait_log:
    "sy_wait s c = Some Waiting \<Longrightarrow> c \<notin> sy_alive s \<Longrightarrow>
     mgr_wait_log bad line (sy_m s) (sy_fs s) = (m', fs') \<Longrightarrow>
     mgr_step bad s (s\<lparr>sy_m := m', sy_fs := fs', sy_wait := (sy_wait s)(c \<mapsto> LogClosed)\<rparr>)"
| wait_finish:
    "sy_wait s c = Some LogClosed \<Longrightarrow>
     mgr_step bad s (s\<lparr>sy_m := mgr_wait_finish c (sy_exit s c) (sy_m s),
       sy_wait := (sy_wait s)(c := None), sy_done := insert c (sy_done s)\<rparr>)"

definition sys_init :: "manager \<Rightarrow> fs \<Rightarrow> sys" where
  "sys_init m fs =
     \<lparr>sy_m = m, sy_fs = fs, sy_alive = {}, sy_exit = (\<lambda>_. None), sy_wait = Map.empty, sy_done = {},
      sy_used = {}\<rparr>"

section \<open>Invariant\<close>

text \<open>A goroutine waits for a command exactly while the manager holds it, and only for that one; a
  process that is alive is still waited for; every command that is no longer held is done.\<close>

definition mgr_inv :: "sys \<Rightarrow> bool" where
  "mgr_inv s =
     ((\<forall>c. sy_wait s c \<noteq> None \<longleftrightarrow> m_cmd (sy_m s) = Some c) \<and>
      (m_running (sy_m s) \<longleftrightarrow> m_cmd (sy_m s) \<noteq> None) \<and>
      (\<not> m_running (sy_m s) \<longrightarrow> m_pid (sy_m s) = 0) \<and>
      (\<forall>c \<in> sy_alive s. sy_wait s c = Some Waiting) \<and>
      (\<forall>c. m_cmd (sy_m s) = Some c \<longrightarrow> c \<in> sy_used s) \<and>
      (\<forall>c. c \<in> sy_used s \<longrightarrow> m_cmd (sy_m s) = Some c \<or> c \<in> sy_done s))"

lemma mgr_Start_ok:
  assumes "mgr_Start bad line now res m fs = (None, m', fs')"
  shows "\<not> m_running m \<and> (\<exists>c pid. res = Some (c, pid) \<and> m_cmd m' = Some c \<and> m_running m' \<and> m_pid m' = pid)"
  using assms by (auto simp: mgr_Start_def Let_def split: if_splits prod.splits option.splits)

lemma mgr_Start_failed:
  assumes "mgr_Start bad line now res m fs = (Some e, m', fs')"
  shows "m_cmd m' = m_cmd m \<and> m_running m' = m_running m \<and> m_pid m' = m_pid m"
  using assms by (auto simp: mgr_Start_def Let_def split: if_splits prod.splits option.splits)

lemma mgr_Stop_keeps:
  "mgr_Stop m = (r, m') \<Longrightarrow> m_cmd m' = m_cmd m \<and> m_running m' = m_running m \<and> m_pid m' = m_pid m \<and> m_logs m' = m_logs m"
  by (auto simp: mgr_Stop_def split: if_splits)

lemma mgr_wait_log_keeps:
  "mgr_wait_log bad line m fs = (m', fs') \<Longrightarrow>
   m_cmd m' = m_cmd m \<and> m_running m' = m_running m \<and> m_pid m' = m_pid m"
  by (auto simp: mgr_wait_log_def split: prod.splits)

lemma mgr_inv_step:
  assumes "mgr_step bad s s'" "mgr_inv s"
  shows "mgr_inv s'"
  using assms
proof (cases rule: mgr_step.cases)
  case (start_ok c line now pid m' fs')
  then show ?thesis using mgr_Start_ok [OF start_ok(3)] assms(2) by (auto simp: mgr_inv_def)
next
  case (start_failed line now res e m' fs')
  then show ?thesis using mgr_Start_failed [OF start_failed(2)] assms(2) by (auto simp: mgr_inv_def)
next
  case (stop_called r m')
  then show ?thesis using mgr_Stop_keeps [OF stop_called(2)] assms(2) by (auto simp: mgr_inv_def)
next
  case (prints c b r l' fs')
  then show ?thesis using assms(2) by (auto simp: mgr_inv_def)
next
  case (exits c err)
  then show ?thesis using assms(2) by (auto simp: mgr_inv_def)
next
  case (wait_log c line m' fs')
  then show ?thesis using mgr_wait_log_keeps [OF wait_log(4)] assms(2) by (auto simp: mgr_inv_def)
next
  case (wait_finish c)
  then have "m_cmd (sy_m s) = Some c" using assms(2) by (auto simp: mgr_inv_def)
  then show ?thesis using wait_finish assms(2) by (auto simp: mgr_inv_def mgr_wait_finish_def)
qed

text \<open>When the file system works, the log is open exactly until the goroutine closes it.\<close>

lemma log_Open_opens: "\<exists>l' fs'. log_Open no_faults l fs = (None, l', fs') \<and> rl_file l'"
proof -
  obtain fs1 where "rotateLocked no_faults l fs = (None, l\<lparr>rl_file := True, rl_size := 0\<rparr>, fs1)"
    using rotateLocked_shift by blast
  then show ?thesis by (auto simp: log_Open_def Let_def split: option.splits)
qed

lemma log_Write_keeps_file:
  assumes "log_Write no_faults p l fs = (r, l', fs')"
  shows "rl_file l' = rl_file l"
proof -
  obtain fs1 where "rotateLocked no_faults l fs = (None, l\<lparr>rl_file := True, rl_size := 0\<rparr>, fs1)"
    using rotateLocked_shift by blast
  with assms show ?thesis by (auto simp: log_Write_def Let_def split: if_splits)
qed

lemma log_Close_closes: "\<not> rl_file (snd (log_Close bad l))"
  by (simp add: log_Close_def)

definition log_open_inv :: "sys \<Rightarrow> bool" where
  "log_open_inv s = (rl_file (m_logs (sy_m s)) \<longleftrightarrow> (\<exists>c. sy_wait s c = Some Waiting))"

lemma mgr_Start_log:
  assumes "mgr_Start no_faults line now res m fs = (e, m', fs')"
  shows "rl_file (m_logs m') = (if e = None then True else m_running m \<and> rl_file (m_logs m) \<or>
    (m_executable m = [] \<or> m_configPath m = []) \<and> rl_file (m_logs m))"
proof -
  obtain l fs1 where o: "log_Open no_faults (m_logs m) fs = (None, l, fs1)" "rl_file l"
    using log_Open_opens by blast
  obtain r l2 fs2 where w: "log_Write no_faults line l fs1 = (r, l2, fs2)" by (metis prod.exhaust)
  have "rl_file l2" using log_Write_keeps_file [OF w] o(2) by simp
  then show ?thesis
    using assms o w log_Close_closes [of no_faults l2]
    by (auto simp: mgr_Start_def Let_def split: if_splits option.splits prod.splits)
qed

lemma log_open_step:
  assumes "mgr_step no_faults s s'" "mgr_inv s" "log_open_inv s"
  shows "log_open_inv s'"
  using assms(1)
proof (cases rule: mgr_step.cases)
  case (start_ok c line now pid m' fs')
  then show ?thesis using mgr_Start_log [OF start_ok(3)] by (auto simp: log_open_inv_def)
next
  case (start_failed line now res e m' fs')
  have "rl_file (m_logs m') = rl_file (m_logs (sy_m s))"
    using mgr_Start_log [OF start_failed(2)] assms(2,3) start_failed(2)
    by (auto simp: log_open_inv_def mgr_inv_def)
  then show ?thesis using start_failed assms(3) by (simp add: log_open_inv_def)
next
  case (stop_called r m')
  then show ?thesis using mgr_Stop_keeps [OF stop_called(2)] assms(3) by (simp add: log_open_inv_def)
next
  case (prints c b r l' fs')
  then show ?thesis using log_Write_keeps_file [OF prints(3)] assms(3) by (simp add: log_open_inv_def)
next
  case (exits c err)
  then show ?thesis using assms(3) by (simp add: log_open_inv_def)
next
  case (wait_log c line m' fs')
  have cmd: "sy_wait s x \<noteq> None \<Longrightarrow> m_cmd (sy_m s) = Some x" for x
    using assms(2) unfolding mgr_inv_def by blast
  have only: "d = c" if "sy_wait s d = Some Waiting" for d
  proof -
    have "sy_wait s d \<noteq> None" "sy_wait s c \<noteq> None" using that wait_log(2) by simp_all
    from cmd [OF this(1)] cmd [OF this(2)] show ?thesis by simp
  qed
  have "((sy_wait s)(c \<mapsto> LogClosed)) d \<noteq> Some Waiting" for d
    using only [of d] by (cases "d = c") auto
  moreover have "\<not> rl_file (m_logs m')"
    using wait_log(4) log_Close_closes by (auto simp: mgr_wait_log_def split: prod.splits)
  ultimately show ?thesis unfolding log_open_inv_def wait_log(1) by simp
next
  case (wait_finish c)
  have "((sy_wait s)(c := None)) d = Some Waiting \<longleftrightarrow> sy_wait s d = Some Waiting" for d
    using wait_finish(2) by auto
  moreover have "m_logs (mgr_wait_finish c e m) = m_logs m" for e m by (simp add: mgr_wait_finish_def)
  ultimately show ?thesis using assms(3) unfolding log_open_inv_def wait_finish(1) by simp
qed

lemma mgr_reachable:
  assumes "(mgr_step no_faults)\<^sup>*\<^sup>* (sys_init (NewManagerWithExecutable dir exe cfg) fs) s"
  shows "mgr_inv s \<and> log_open_inv s"
  using assms
proof (induction rule: rtranclp_induct)
  case base
  then show ?case
    by (simp add: mgr_inv_def log_open_inv_def sys_init_def NewManagerWithExecutable_def newRollingLog_def)
next
  case (step s s')
  then show ?case using mgr_inv_step log_open_step by blast
qed

section \<open>Properties\<close>

text \<open>
  Property C32: under every interleaving of starts, stops, exits and waiting goroutines there is never
  more than one process; while one is alive, \<open>Start\<close> is refused and the log is open for its output; a
  goroutine that finishes always finds its own command in the manager, so that it never clears the
  status of a later process; and when the manager says that nothing is running, nothing is and the log
  is closed.
\<close>

theorem manager_single_process:
  assumes "(mgr_step (\<lambda>_. False))\<^sup>*\<^sup>* (sys_init (NewManagerWithExecutable dir exe cfg) fs) s"
  shows "(\<forall>c d. c \<in> sy_alive s \<and> d \<in> sy_alive s \<longrightarrow> c = d) \<and>
    (sy_alive s \<noteq> {} \<longrightarrow>
       fst (mgr_Start bad line now res (sy_m s) (sy_fs s)) = Some ErrAlreadyRunning \<and>
       rl_file (m_logs (sy_m s))) \<and>
    (\<forall>c. sy_wait s c \<noteq> None \<longrightarrow> m_cmd (sy_m s) = Some c) \<and>
    (\<not> m_running (sy_m s) \<longrightarrow>
       sy_alive s = {} \<and> m_pid (sy_m s) = 0 \<and> \<not> rl_file (m_logs (sy_m s)))"
proof -
  have inv: "mgr_inv s" "log_open_inv s" using mgr_reachable [OF assms] by blast+
  have a: "sy_wait s c = Some Waiting \<and> m_cmd (sy_m s) = Some c \<and> m_running (sy_m s)" if "c \<in> sy_alive s" for c
    using that inv(1) unfolding mgr_inv_def by (metis option.distinct(1))
  have w: "m_cmd (sy_m s) = Some c \<and> m_running (sy_m s)" if "sy_wait s c \<noteq> None" for c
    using that inv(1) unfolding mgr_inv_def by (metis option.distinct(1))
  have "m_pid (sy_m s) = 0" if "\<not> m_running (sy_m s)" using that inv(1) unfolding mgr_inv_def by blast
  moreover have "fst (mgr_Start bad line now res (sy_m s) (sy_fs s)) = Some ErrAlreadyRunning"
    if "m_running (sy_m s)" using that by (simp add: mgr_Start_def)
  moreover have "rl_file (m_logs (sy_m s)) \<longleftrightarrow> (\<exists>c. sy_wait s c = Some Waiting)"
    using inv(2) by (simp add: log_open_inv_def)
  ultimately show ?thesis using a w by fastforce
qed

theorem manager_single_process_witness:
  "\<exists>s. (mgr_step (\<lambda>_. False))\<^sup>*\<^sup>* (sys_init (NewManagerWithExecutable ''d'' ''e'' ''d/c'') Map.empty) s \<and>
     sy_alive s = {7} \<and> fst (mgr_Start (\<lambda>_. False) [] 9 None (sy_m s) (sy_fs s)) = Some ErrAlreadyRunning"
proof -
  let ?m = "NewManagerWithExecutable ''d'' ''e'' ''d/c''"
  let ?i = "sys_init ?m Map.empty"
  obtain l fs1 where o: "log_Open no_faults (m_logs ?m) Map.empty = (None, l, fs1)"
    using log_Open_opens by blast
  obtain r l2 fs2 where w: "log_Write no_faults [] l fs1 = (r, l2, fs2)" by (metis prod.exhaust)
  obtain m' fs' where st: "mgr_Start no_faults [] 0 (Some (7, 42)) ?m Map.empty = (None, m', fs')"
    using o w by (auto simp: mgr_Start_def NewManagerWithExecutable_def Let_def)
  let ?s = "?i\<lparr>sy_m := m', sy_fs := fs', sy_alive := insert 7 (sy_alive ?i),
       sy_wait := (sy_wait ?i)(7 \<mapsto> Waiting), sy_used := insert 7 (sy_used ?i)\<rparr>"
  have "mgr_step no_faults ?i ?s"
    by (rule mgr_step.start_ok [where line = "[]" and now = 0 and pid = 42])
      (use st in \<open>simp_all add: sys_init_def\<close>)
  then have r: "(mgr_step no_faults)\<^sup>*\<^sup>* ?i ?s" by blast
  have al: "sy_alive ?s = {7}" by (simp add: sys_init_def)
  have "sy_alive ?s \<noteq> {} \<longrightarrow>
      fst (mgr_Start no_faults [] 9 None (sy_m ?s) (sy_fs ?s)) = Some ErrAlreadyRunning"
    using manager_single_process [OF r, of no_faults "[]" 9 None] by blast
  with r al show ?thesis by (metis insert_not_empty)
qed

end
