(* ===== verification/Smux_Frame.thy ===== *)
theory Smux_Frame
  imports Codec
begin

text \<open>
  Frames and configuration of the stream multiplexer (\<open>pkg/smux/frame.go\<close>, \<open>mux.go\<close>): the little-endian header, what
  \<open>sendLoop\<close> puts on the wire for a frame, what \<open>recvLoop\<close> reads of one, and the check of a configuration.  The
  wire format is an interpretation of \<open>prefix_codec\<close>.
\<close>

section \<open>Frames\<close>

definition cmdSYN :: byte where "cmdSYN = 0"
definition cmdFIN :: byte where "cmdFIN = 1"
definition cmdPSH :: byte where "cmdPSH = 2"
definition cmdNOP :: byte where "cmdNOP = 3"
definition cmdUPD :: byte where "cmdUPD = 4"

definition szCmdUPD :: nat where "szCmdUPD = 8"
definition initialPeerWindow :: u32 where "initialPeerWindow = 262144"
definition headerSize :: nat where "headerSize = 1 + 1 + 4 + 2"

record frame =
  f_ver :: byte
  f_cmd :: byte
  f_sid :: u32
  f_data :: bytes

definition newFrame :: "byte \<Rightarrow> byte \<Rightarrow> u32 \<Rightarrow> frame" where
  "newFrame version cmd sid = \<lparr>f_ver = version, f_cmd = cmd, f_sid = sid, f_data = []\<rparr>"

text \<open>\<open>binary.LittleEndian\<close>, by the big-endian functions of the prelude.\<close>

definition le_put16 :: "u16 \<Rightarrow> bytes" where
  "le_put16 w = rev (put16 w)"

definition le_put32 :: "u32 \<Rightarrow> bytes" where
  "le_put32 w = rev (put32 w)"

definition le16 :: "bytes \<Rightarrow> u16" where
  "le16 b = be16 (b ! 1) (b ! 0)"

definition le32 :: "bytes \<Rightarrow> u32" where
  "le32 b = be32 (b ! 3) (b ! 2) (b ! 1) (b ! 0)"

definition hdr_Version :: "bytes \<Rightarrow> byte" where "hdr_Version h = h ! 0"
definition hdr_Cmd :: "bytes \<Rightarrow> byte" where "hdr_Cmd h = h ! 1"
definition hdr_Length :: "bytes \<Rightarrow> u16" where "hdr_Length h = le16 (drop 2 h)"
definition hdr_StreamID :: "bytes \<Rightarrow> u32" where "hdr_StreamID h = le32 (drop 4 h)"

definition upd_Consumed :: "bytes \<Rightarrow> u32" where "upd_Consumed h = le32 h"
definition upd_Window :: "bytes \<Rightarrow> u32" where "upd_Window h = le32 (drop 4 h)"

text \<open>What \<open>sendLoop\<close> writes for a frame.  Without scatter-gather output the frame is copied into a buffer for
  \<open>2^16\<close> bytes of data, and a longer frame makes the slice expression panic; with it, header and data are written
  one after the other.\<close>

definition smux_frame_bytes :: "frame \<Rightarrow> bytes" where
  "smux_frame_bytes f =
     [f_ver f, f_cmd f] @ le_put16 (of_nat (length (f_data f))) @ le_put32 (f_sid f) @ f_data f"

definition sendLoop_turn :: "bool \<Rightarrow> frame \<Rightarrow> conn \<Rightarrow> (nat \<times> go_error option) result \<times> conn" where
  "sendLoop_turn scatter f c =
     (if \<not> scatter \<and> length (f_data f) > 2 ^ 16 then (Inl (Panic ''slice bounds out of range''), c)
      else
        case conn_write (smux_frame_bytes f) c of
          (None, c') \<Rightarrow> (Inr (length (smux_frame_bytes f) - headerSize, None), c')
        | (Some e, c') \<Rightarrow> (Inr (0 - headerSize, Some e), c'))"

text \<open>What \<open>recvLoop\<close> reads of a frame: the version is checked first, then only \<open>PSH\<close> and \<open>UPD\<close> have more
  bytes read, the latter a fixed number whatever the header says.\<close>

definition ErrInvalidProtocol :: go_error where
  "ErrInvalidProtocol = ErrMsg ''invalid protocol''"

definition recv_body :: "byte \<Rightarrow> bytes \<Rightarrow> frame io" where
  "recv_body version hdr =
     (let f = newFrame (hdr_Version hdr) (hdr_Cmd hdr) (hdr_StreamID hdr) in
      if hdr_Version hdr \<noteq> version then io_fail ErrInvalidProtocol
      else if hdr_Cmd hdr \<in> {cmdNOP, cmdSYN, cmdFIN} then io_ret f
      else if hdr_Cmd hdr = cmdPSH then
        (if hdr_Length hdr > 0 then
           io_bind (read_full (unat (hdr_Length hdr))) (\<lambda>b. io_ret (f\<lparr>f_data := b\<rparr>))
         else io_ret f)
      else if hdr_Cmd hdr = cmdUPD then io_bind (read_full szCmdUPD) (\<lambda>b. io_ret (f\<lparr>f_data := b\<rparr>))
      else io_fail ErrInvalidProtocol)"

definition recv_frame :: "byte \<Rightarrow> frame io" where
  "recv_frame version = io_bind (read_full headerSize) (recv_body version)"

section \<open>Configuration\<close>

text \<open>Durations are in nanoseconds.\<close>

record smux_Config =
  cf_Version :: int
  cf_KeepAliveDisabled :: bool
  cf_KeepAliveInterval :: int
  cf_KeepAliveTimeout :: int
  cf_MaxFrameSize :: int
  cf_MaxReceiveBuffer :: int
  cf_MaxStreamBuffer :: int

definition DefaultConfig :: smux_Config where
  "DefaultConfig =
     \<lparr>cf_Version = 1, cf_KeepAliveDisabled = False, cf_KeepAliveInterval = 10 * 10 ^ 9,
      cf_KeepAliveTimeout = 30 * 10 ^ 9, cf_MaxFrameSize = 32768, cf_MaxReceiveBuffer = 4194304,
      cf_MaxStreamBuffer = 65536\<rparr>"

definition VerifyConfig :: "smux_Config \<Rightarrow> go_error option" where
  "VerifyConfig c =
     (if \<not> (cf_Version c = 1 \<or> cf_Version c = 2) then Some (ErrMsg ''unsupported protocol version'')
      else if \<not> cf_KeepAliveDisabled c \<and> cf_KeepAliveInterval c = 0 then
        Some (ErrMsg ''keep-alive interval must be positive'')
      else if \<not> cf_KeepAliveDisabled c \<and> cf_KeepAliveTimeout c < cf_KeepAliveInterval c then
        Some (ErrMsg ''keep-alive timeout must be larger than keep-alive interval'')
      else if cf_MaxFrameSize c \<le> 0 then Some (ErrMsg ''max frame size must be positive'')
      else if cf_MaxFrameSize c > 65535 then Some (ErrMsg ''max frame size must not be larger than 65535'')
      else if cf_MaxReceiveBuffer c \<le> 0 then Some (ErrMsg ''max receive buffer must be positive'')
      else if cf_MaxStreamBuffer c \<le> 0 then Some (ErrMsg ''max stream buffer must be positive'')
      else if cf_MaxStreamBuffer c > cf_MaxReceiveBuffer c then
        Some (ErrMsg ''max stream buffer must not be larger than max receive buffer'')
      else if cf_MaxStreamBuffer c > 2147483647 then
        Some (ErrMsg ''max stream buffer cannot be larger than 2147483647'')
      else None)"

section \<open>The wire format\<close>

lemmas cmd_defs = cmdSYN_def cmdFIN_def cmdPSH_def cmdNOP_def cmdUPD_def

definition frame_ok :: "byte \<Rightarrow> frame \<Rightarrow> bool" where
  "frame_ok v f =
     (f_ver f = v \<and>
      (f_cmd f \<in> {cmdNOP, cmdSYN, cmdFIN} \<and> f_data f = [] \<or>
       f_cmd f = cmdPSH \<and> length (f_data f) < 2 ^ 16 \<or>
       f_cmd f = cmdUPD \<and> length (f_data f) = szCmdUPD))"

lemma frame_header:
  assumes "h = [f_ver f, f_cmd f] @ le_put16 w @ le_put32 (f_sid f)"
  shows "length h = headerSize" "hdr_Version h = f_ver f" "hdr_Cmd h = f_cmd f" "hdr_Length h = w"
    "hdr_StreamID h = f_sid f"
  unfolding assms
  by (simp_all add: headerSize_def hdr_Version_def hdr_Cmd_def hdr_Length_def hdr_StreamID_def
      le_put16_def le_put32_def put16_def put32_def le16_def le32_def be16_put16)

lemma recv_frame_bytes:
  assumes ok: "frame_ok v f" and c: "rd c = smux_frame_bytes f @ rest"
  shows "recv_frame v c = (Inr f, c\<lparr>rd := rest\<rparr>)"
proof -
  define h where "h = [f_ver f, f_cmd f] @ le_put16 (of_nat (length (f_data f))) @ le_put32 (f_sid f)"
  note hd = frame_header [OF h_def]
  have split: "rd c = h @ f_data f @ rest" using c by (simp add: smux_frame_bytes_def h_def)
  have hdr: "read_full headerSize c = (Inr h, c\<lparr>rd := f_data f @ rest\<rparr>)"
    using read_full_ok [OF split] hd(1) by simp
  have data: "read_full (length (f_data f)) (c\<lparr>rd := f_data f @ rest\<rparr>) = (Inr (f_data f), c\<lparr>rd := rest\<rparr>)"
    using read_full_ok [of "c\<lparr>rd := f_data f @ rest\<rparr>" "f_data f" rest] by simp
  have f: "newFrame (f_ver f) (f_cmd f) (f_sid f) = f\<lparr>f_data := []\<rparr>" by (cases f) (simp add: newFrame_def)
  have v: "f_ver f = v" using ok by (simp add: frame_ok_def)
  note step = recv_frame_def recv_body_def io_bind_Inr [where m = "read_full headerSize", OF hdr] hd(2-5) v
  from ok consider "f_cmd f \<in> {cmdNOP, cmdSYN, cmdFIN}" "f_data f = []"
    | "f_cmd f = cmdPSH" "length (f_data f) < 2 ^ 16" | "f_cmd f = cmdUPD" "length (f_data f) = szCmdUPD"
    by (auto simp: frame_ok_def)
  then show ?thesis
  proof cases
    case 1
    then show ?thesis using f v by (simp add: step io_ret_def Let_def)
  next
    case 2
    then have w: "unat (of_nat (length (f_data f)) :: u16) = length (f_data f)" by (simp add: unat_of_nat)
    show ?thesis
    proof (cases "f_data f = []")
      case True
      then show ?thesis using 2 f v by (simp add: step io_ret_def Let_def cmd_defs)
    next
      case False
      then have "(of_nat (length (f_data f)) :: u16) > 0" using w by (metis length_0_conv unat_0 word_gt_0)
      then show ?thesis using 2 f v w by (simp add: step io_bind_Inr [where m = "read_full (length (f_data f))", OF data] io_ret_def Let_def cmd_defs)
    qed
  next
    case 3
    then show ?thesis using f v io_bind_Inr [where m = "read_full (length (f_data f))", OF data] by (simp add: step io_ret_def Let_def cmd_defs)
  qed
qed

interpretation smux: prefix_codec "frame_ok v" smux_frame_bytes "recv_frame v" for v
  by unfold_locales (rule recv_frame_bytes)

end
