(* ===== verification/Smux_Shaper.thy ===== *)
theory Smux_Shaper
  imports Smux_Frame "HOL-Library.Multiset"
begin

text \<open>
  The shaper of the stream multiplexer (\<open>pkg/smux/shaper.go\<close> and \<open>shaperLoop\<close> of \<open>session.go\<close>): write requests
  wait in a binary heap (\<open>container/heap\<close>), control frames before data frames and otherwise in the order of
  their numbers, which are 32 bits wide and compared modulo \<open>2^32\<close>.

  The locale \<open>heap_order\<close> holds the proofs about the heap for any comparison that is a strict weak order on the
  elements in use; its interpretation is the comparison of write requests within a window of numbers.
\<close>

section \<open>The package container/heap\<close>

definition swap :: "nat \<Rightarrow> nat \<Rightarrow> 'a list \<Rightarrow> 'a list" where
  "swap i j xs = xs[i := xs ! j, j := xs ! i]"

function heap_up :: "('a \<Rightarrow> 'a \<Rightarrow> bool) \<Rightarrow> nat \<Rightarrow> 'a list \<Rightarrow> 'a list" where
  "heap_up lt j xs =
     (let i = (j - 1) div 2 in
      if i = j \<or> \<not> lt (xs ! j) (xs ! i) then xs else heap_up lt i (swap i j xs))"
  by pat_completeness auto
termination
  by (relation "measure (\<lambda>(_, j, _). j)") auto

definition child :: "('a \<Rightarrow> 'a \<Rightarrow> bool) \<Rightarrow> nat \<Rightarrow> nat \<Rightarrow> 'a list \<Rightarrow> nat" where
  "child lt i n xs =
     (let j1 = 2 * i + 1; j2 = j1 + 1 in if j2 < n \<and> lt (xs ! j2) (xs ! j1) then j2 else j1)"

lemma child_greater: "i < child lt i n xs"
  by (simp add: child_def Let_def)

function heap_down :: "('a \<Rightarrow> 'a \<Rightarrow> bool) \<Rightarrow> nat \<Rightarrow> nat \<Rightarrow> 'a list \<Rightarrow> 'a list" where
  "heap_down lt i n xs =
     (if n \<le> 2 * i + 1 then xs
      else let j = child lt i n xs in if \<not> lt (xs ! j) (xs ! i) then xs else heap_down lt j n (swap i j xs))"
  by pat_completeness auto
termination
  by (relation "measure (\<lambda>(_, i, n, _). n - i)") (auto intro!: diff_less_mono2 child_greater)

declare heap_up.simps [simp del] heap_down.simps [simp del]

definition heap_Push :: "('a \<Rightarrow> 'a \<Rightarrow> bool) \<Rightarrow> 'a \<Rightarrow> 'a list \<Rightarrow> 'a list" where
  "heap_Push lt x h = heap_up lt (length h) (h @ [x])"

definition heap_Pop :: "('a \<Rightarrow> 'a \<Rightarrow> bool) \<Rightarrow> 'a list \<Rightarrow> 'a \<times> 'a list" where
  "heap_Pop lt h =
     (let n = length h - 1; h' = heap_down lt 0 n (swap 0 n h) in (h' ! n, take n h'))"

section \<open>The shaper\<close>

datatype classid = CLSCTRL | CLSDATA

fun class_num :: "classid \<Rightarrow> nat" where
  "class_num CLSCTRL = 0"
| "class_num CLSDATA = 1"

record writeRequest =
  wr_class :: classid
  wr_frame :: frame
  wr_seq :: u32

definition itimediff :: "u32 \<Rightarrow> u32 \<Rightarrow> int" where
  "itimediff later earlier = sint (later - earlier)"

definition Less :: "writeRequest \<Rightarrow> writeRequest \<Rightarrow> bool" where
  "Less a b =
     (if wr_class a \<noteq> wr_class b then class_num (wr_class a) < class_num (wr_class b)
      else itimediff (wr_seq b) (wr_seq a) > 0)"

definition maxShaperSize :: nat where
  "maxShaperSize = 1024"

text \<open>One turn of \<open>shaperLoop\<close>.  The first request of the heap is popped and offered to the sender; a new request
  is taken while fewer than \<open>maxShaperSize\<close> others wait, and then the one on offer goes back.  An event that
  its channel does not allow has no turn; with both channels shut the loop panics.\<close>

datatype shaper_event = Submit writeRequest | Emit writeRequest

definition shaper_offer :: "writeRequest list \<Rightarrow> writeRequest option \<times> writeRequest list" where
  "shaper_offer reqs =
     (if reqs = [] then (None, []) else case heap_Pop Less reqs of (front, rest) \<Rightarrow> (Some front, rest))"

definition shaper_panics :: "writeRequest list \<Rightarrow> bool" where
  "shaper_panics reqs =
     (case shaper_offer reqs of (front, rest) \<Rightarrow> front = None \<and> length rest \<ge> maxShaperSize)"

fun shaper_turn :: "shaper_event \<Rightarrow> writeRequest list \<Rightarrow> writeRequest list option" where
  "shaper_turn (Submit r) reqs =
     (case shaper_offer reqs of (front, rest) \<Rightarrow>
        if length rest \<ge> maxShaperSize then None
        else
          let reqs = (case front of None \<Rightarrow> rest | Some x \<Rightarrow> heap_Push Less x rest)
          in Some (heap_Push Less r reqs))"
| "shaper_turn (Emit x) reqs =
     (case shaper_offer reqs of (front, rest) \<Rightarrow> if front = Some x then Some rest else None)"

text \<open>The runs of the loop in which at every moment the numbers of the requests that wait lie within half of the
  32-bit circle.\<close>

definition in_window :: "u32 \<Rightarrow> writeRequest \<Rightarrow> bool" where
  "in_window b r = (unat (wr_seq r - b) < 2 ^ 31)"

inductive shaper_run :: "shaper_event list \<Rightarrow> writeRequest list \<Rightarrow> bool" where
  start: "shaper_run [] []"
| turn: "shaper_run evs reqs \<Longrightarrow> shaper_turn ev reqs = Some reqs' \<Longrightarrow> \<forall>r\<in>set reqs'. in_window b r \<Longrightarrow>
         shaper_run (evs @ [ev]) reqs'"

fun submitted :: "shaper_event list \<Rightarrow> writeRequest list" where
  "submitted [] = []"
| "submitted (Submit r # evs) = r # submitted evs"
| "submitted (Emit _ # evs) = submitted evs"

fun emitted :: "shaper_event list \<Rightarrow> writeRequest list" where
  "emitted [] = []"
| "emitted (Submit _ # evs) = emitted evs"
| "emitted (Emit r # evs) = r # emitted evs"

section \<open>The heap\<close>

abbreviation par :: "nat \<Rightarrow> nat" where
  "par k \<equiv> (k - 1) div 2"

lemma length_swap [simp]: "length (swap i j xs) = length xs"
  by (simp add: swap_def)

lemma nth_swap:
  "i < length xs \<Longrightarrow> j < length xs \<Longrightarrow> k < length xs \<Longrightarrow>
   swap i j xs ! k = (if k = i then xs ! j else if k = j then xs ! i else xs ! k)"
  by (auto simp: swap_def nth_list_update)

lemma mset_swap_eq [simp]: "i < length xs \<Longrightarrow> j < length xs \<Longrightarrow> mset (swap i j xs) = mset xs"
  unfolding swap_def by (cases "i = j") (simp_all add: mset_swap)

lemma mset_heap_up [simp]: "j < length xs \<Longrightarrow> mset (heap_up lt j xs) = mset xs"
proof (induction lt j xs rule: heap_up.induct)
  case (1 lt j xs)
  have "par j < length xs" using "1.prems" by linarith
  then show ?case using 1 by (subst heap_up.simps) (simp add: Let_def)
qed

lemma mset_heap_Push [simp]: "mset (heap_Push lt x h) = add_mset x (mset h)"
  by (simp add: heap_Push_def)

lemma length_heap_down [simp]: "length (heap_down lt i n xs) = length xs"
proof (induction lt i n xs rule: heap_down.induct)
  case (1 lt i n xs)
  then show ?case by (subst heap_down.simps) (simp add: Let_def)
qed

lemma heap_down_stop: "n \<le> 2 * i + 1 \<Longrightarrow> heap_down lt i n xs = xs"
  by (subst heap_down.simps) simp

lemma child_bounds:
  assumes "\<not> n \<le> 2 * i + 1"
  shows "child lt i n xs < n" "par (child lt i n xs) = i"
  using assms by (auto simp: child_def Let_def)

lemma par_cases: "0 < k \<Longrightarrow> par k = i \<Longrightarrow> k = 2 * i + 1 \<or> k = 2 * i + 2"
  by linarith

lemma heap_down_frame:
  "i < n \<Longrightarrow> n \<le> length xs \<Longrightarrow>
   mset (heap_down lt i n xs) = mset xs \<and> drop n (heap_down lt i n xs) = drop n xs"
proof (induction lt i n xs rule: heap_down.induct)
  case (1 lt i n xs)
  let ?j = "child lt i n xs"
  show ?case
  proof (cases "n \<le> 2 * i + 1 \<or> \<not> lt (xs ! ?j) (xs ! i)")
    case True
    then show ?thesis by (subst (1 2) heap_down.simps) (auto simp: Let_def)
  next
    case False
    then have j: "?j < n" "?j < length xs" "i < length xs" using child_bounds "1.prems" by (metis order_less_le_trans)+
    have "drop n (swap i ?j xs) = drop n xs" using j "1.prems" by (simp add: swap_def)
    then show ?thesis
      using "1.IH" [OF _ refl] False j "1.prems" by (subst (1 2) heap_down.simps) (simp add: Let_def)
  qed
qed

locale heap_order =
  fixes ok :: "'a \<Rightarrow> bool"
    and lt :: "'a \<Rightarrow> 'a \<Rightarrow> bool"
  assumes asym: "ok a \<Longrightarrow> ok b \<Longrightarrow> lt a b \<Longrightarrow> \<not> lt b a"
    and neg_trans: "ok a \<Longrightarrow> ok b \<Longrightarrow> ok c \<Longrightarrow> \<not> lt a b \<Longrightarrow> \<not> lt b c \<Longrightarrow> \<not> lt a c"
begin

definition heap_to :: "nat \<Rightarrow> 'a list \<Rightarrow> bool" where
  "heap_to n xs = (\<forall>k<n. 0 < k \<longrightarrow> \<not> lt (xs ! k) (xs ! par k))"

text \<open>A heap but for one element that may be too small for its place, or too great.\<close>

definition rising :: "nat \<Rightarrow> 'a list \<Rightarrow> bool" where
  "rising j xs =
     ((\<forall>k<length xs. 0 < k \<and> k \<noteq> j \<longrightarrow> \<not> lt (xs ! k) (xs ! par k)) \<and>
      (\<forall>k<length xs. 0 < k \<and> par k = j \<and> 0 < j \<longrightarrow> \<not> lt (xs ! k) (xs ! par j)))"

definition sinking :: "nat \<Rightarrow> nat \<Rightarrow> 'a list \<Rightarrow> bool" where
  "sinking i n xs =
     ((\<forall>k<n. 0 < k \<and> par k \<noteq> i \<longrightarrow> \<not> lt (xs ! k) (xs ! par k)) \<and>
      (\<forall>k<n. 0 < k \<and> par k = i \<and> 0 < i \<longrightarrow> \<not> lt (xs ! k) (xs ! par i)))"

lemma irrefl: "ok a \<Longrightarrow> \<not> lt a a"
  using asym by blast

lemma least_root:
  assumes "heap_to n xs" "n \<le> length xs" "\<forall>x\<in>set xs. ok x" "k < n"
  shows "\<not> lt (xs ! k) (xs ! 0)"
  using assms(4)
proof (induction k rule: less_induct)
  case (less k)
  have ok: "ok (xs ! m)" if "m < n" for m using that assms(2,3) by simp
  show ?case
  proof (cases "k = 0")
    case True
    then show ?thesis using irrefl ok less.prems by blast
  next
    case False
    then have p: "par k < k" "par k < n" "0 < n" using less.prems by linarith+
    have "\<not> lt (xs ! k) (xs ! par k)" using assms(1) less.prems False by (simp add: heap_to_def)
    then show ?thesis using less.IH [OF p(1,2)] neg_trans ok less.prems p by blast
  qed
qed

lemma rising_swap:
  assumes r: "rising j xs" and j: "j < length xs" "0 < j" and lt: "lt (xs ! j) (xs ! par j)"
    and i_def: "i = par j"
    and ok: "\<forall>x\<in>set xs. ok x"
  shows "rising i (swap i j xs)"
proof -
  have i: "i < length xs" "i < j" using j i_def by linarith+
  have ok: "ok (xs ! m)" if "m < length xs" for m using that ok by simp
  have nlt: "\<not> lt (xs ! i) (xs ! j)" using asym lt ok i j i_def by blast
  have up: "\<not> lt (xs ! k) (xs ! par k)" if "k < length xs" "0 < k" "k \<noteq> j" for k
    using r that by (simp add: rising_def)
  have up2: "\<not> lt (xs ! k) (xs ! i)" if "k < length xs" "0 < k" "par k = j" for k
    using r that j i_def by (simp add: rising_def)
  have par: "par k < length xs" if "k < length xs" for k using that by linarith
  note at = nth_swap [OF i(1) j(1)]
  show ?thesis
    unfolding rising_def length_swap
  proof (intro conjI allI impI)
    fix k assume k: "k < length xs" "0 < k \<and> k \<noteq> i"
    then consider "k = j" | "k \<noteq> j" "par k = i" | "k \<noteq> j" "par k = j" | "k \<noteq> j" "par k \<noteq> i" "par k \<noteq> j" by blast
    then show "\<not> lt (swap i j xs ! k) (swap i j xs ! par k)"
    proof cases
      case 1 then show ?thesis using nlt i j i_def [symmetric] by (simp add: at)
    next
      case 2
      then have "\<not> lt (xs ! k) (xs ! j)" using up [of k] nlt k neg_trans [OF ok ok ok] i j by metis
      then show ?thesis using 2 k i by (simp add: at)
    next
      case 3 then show ?thesis using up2 [of k] k i j par by (simp add: at)
    next
      case 4 then show ?thesis using up [of k] k par [of k] by (simp add: at)
    qed
  next
    fix k assume k: "k < length xs" "0 < k \<and> par k = i \<and> 0 < i"
    then have p: "par i < i" "k \<noteq> i" by linarith+
    have root: "\<not> lt (xs ! i) (xs ! par i)" using up i k by simp
    show "\<not> lt (swap i j xs ! k) (swap i j xs ! par i)"
    proof (cases "k = j")
      case True then show ?thesis using root p i j by (simp add: at)
    next
      case False
      have "\<not> lt (xs ! k) (xs ! i)" using up [of k] False k by simp
      then have "\<not> lt (xs ! k) (xs ! par i)" using root neg_trans ok k i p by (meson order_less_trans)
      then show ?thesis using False k p i by (simp add: at)
    qed
  qed
qed

lemma heap_up_heap:
  "rising j xs \<Longrightarrow> j < length xs \<Longrightarrow> \<forall>x\<in>set xs. ok x \<Longrightarrow> heap_to (length xs) (heap_up lt j xs)"
proof (induction j arbitrary: xs rule: less_induct)
  case (less j)
  show ?case
  proof (cases "par j = j \<or> \<not> lt (xs ! j) (xs ! par j)")
    case True
    then have "heap_up lt j xs = xs" by (subst heap_up.simps) (auto simp: Let_def)
    moreover have "j = 0 \<or> \<not> lt (xs ! j) (xs ! par j)" using True by linarith
    ultimately show ?thesis using less.prems(1) by (auto simp: heap_to_def rising_def)
  next
    case False
    then have j: "0 < j" "par j < j" by linarith+
    then have i: "par j < length xs" using less.prems by linarith
    have "set (swap (par j) j xs) = set xs" using mset_swap_eq less.prems i mset_eq_setD by metis
    then have "heap_to (length xs) (heap_up lt (par j) (swap (par j) j xs))"
      using less.IH [OF j(2), of "swap (par j) j xs"] rising_swap [OF less.prems(1,2) j(1) _ refl] False i less.prems by simp
    moreover have "heap_up lt j xs = heap_up lt (par j) (swap (par j) j xs)"
      using False by (subst heap_up.simps) (simp add: Let_def)
    ultimately show ?thesis by simp
  qed
qed

lemma child_least:
  assumes "\<not> n \<le> 2 * i + 1" "n \<le> length xs" "\<forall>x\<in>set xs. ok x" "k < n" "0 < k" "par k = i"
  shows "\<not> lt (xs ! k) (xs ! child lt i n xs)"
proof -
  have ok: "ok (xs ! m)" if "m < n" for m using that assms(2,3) by simp
  have "k = 2 * i + 1 \<or> k = 2 * i + 2" using par_cases assms(5,6) .
  then show ?thesis using asym irrefl ok assms(1,4) by (auto simp: child_def Let_def)
qed

lemma sinking_swap:
  assumes r: "sinking i n xs" and i: "i < n" "n \<le> length xs" "\<not> n \<le> 2 * i + 1"
    and lt: "lt (xs ! j) (xs ! i)" and j: "j = child lt i n xs" and ok: "\<forall>x\<in>set xs. ok x"
  shows "sinking j n (swap i j xs)"
proof -
  have jb: "j < n" "par j = i" "i < j" using child_bounds [OF i(3)] child_greater j by metis+
  have ok': "ok (xs ! m)" if "m < n" for m using that ok i by simp
  have nlt: "\<not> lt (xs ! i) (xs ! j)" using asym lt ok' i jb by blast
  have up: "\<not> lt (xs ! k) (xs ! par k)" if "k < n" "0 < k" "par k \<noteq> i" for k
    using r that by (simp add: sinking_def)
  have par: "par k < length xs" if "k < n" for k using that i by linarith
  have il: "i < length xs" "j < length xs" using i jb by simp_all
  note at = nth_swap [OF il]
  show ?thesis
    unfolding sinking_def
  proof (intro conjI allI impI)
    fix k assume k: "k < n" "0 < k \<and> par k \<noteq> j"
    have kl: "k < length xs" using k i by simp
    consider "k = j" | "k \<noteq> j" "par k = i" | "k = i" | "k \<noteq> j" "k \<noteq> i" "par k \<noteq> i" by blast
    then show "\<not> lt (swap i j xs ! k) (swap i j xs ! par k)"
    proof cases
      case 1
      show ?thesis unfolding 1 jb(2) using nlt il jb by (simp add: at)
    next
      case 2
      have "\<not> lt (xs ! k) (xs ! j)" using child_least [OF i(3,2) ok] k 2 j by simp
      then show ?thesis unfolding 2(2) using 2 k kl il jb by (simp add: at) linarith
    next
      case 3
      have p: "par i < i" using k 3 by linarith
      have "\<not> lt (xs ! j) (xs ! par i)" using r jb k 3 unfolding sinking_def by (metis order_less_trans)
      then show ?thesis unfolding 3 using p jb il by (simp add: at)
    next
      case 4
      then show ?thesis using up [of k] k kl par [OF k(1)] by (simp add: at)
    qed
  next
    fix k assume k: "k < n" "0 < k \<and> par k = j \<and> 0 < j"
    have kl: "k < length xs" "k \<noteq> i" "k \<noteq> j" using k i jb by linarith+
    have "\<not> lt (xs ! k) (xs ! j)" using up [of k] k jb by simp
    then show "\<not> lt (swap i j xs ! k) (swap i j xs ! par j)" unfolding jb(2) using kl il by (simp add: at)
  qed
qed

lemma heap_down_heap:
  "sinking i n xs \<Longrightarrow> i < n \<Longrightarrow> n \<le> length xs \<Longrightarrow> \<forall>x\<in>set xs. ok x \<Longrightarrow> heap_to n (heap_down lt i n xs)"
proof (induction "n - i" arbitrary: i xs rule: less_induct)
  case less
  let ?j = "child lt i n xs"
  have ok: "ok (xs ! m)" if "m < n" for m using that less.prems by simp
  show ?case
  proof (cases "n \<le> 2 * i + 1 \<or> \<not> lt (xs ! ?j) (xs ! i)")
    case True
    then have eq: "heap_down lt i n xs = xs" by (subst heap_down.simps) (auto simp: Let_def)
    show ?thesis
      unfolding eq heap_to_def
    proof (intro allI impI)
      fix k assume k: "k < n" "0 < k"
      show "\<not> lt (xs ! k) (xs ! par k)"
      proof (cases "par k = i")
        case False then show ?thesis using less.prems(1) k by (simp add: sinking_def)
      next
        case pk: True
        then have n: "\<not> n \<le> 2 * i + 1" using par_cases [OF k(2) pk] k by linarith
        then have "\<not> lt (xs ! k) (xs ! ?j)" "\<not> lt (xs ! ?j) (xs ! i)"
          using child_least [OF n less.prems(3,4) k pk] True by simp_all
        then show ?thesis using neg_trans ok k child_bounds(1) [OF n] less.prems pk by metis
      qed
    qed
  next
    case False
    then have n: "\<not> n \<le> 2 * i + 1" by simp
    have j: "?j < n" "i < ?j" using child_bounds [OF n] child_greater by metis+
    have "set (swap i ?j xs) = set xs"
      using mset_swap_eq less.prems j mset_eq_setD by (metis order_less_le_trans)
    then have "heap_to n (heap_down lt ?j n (swap i ?j xs))"
      using less.hyps [of ?j "swap i ?j xs"] sinking_swap [OF less.prems(1-3) n _ refl less.prems(4)] False j less.prems
      by simp
    moreover have "heap_down lt i n xs = heap_down lt ?j n (swap i ?j xs)"
      using False by (subst heap_down.simps) (simp add: Let_def)
    ultimately show ?thesis by simp
  qed
qed

definition heap :: "'a list \<Rightarrow> bool" where
  "heap xs = ((\<forall>x\<in>set xs. ok x) \<and> heap_to (length xs) xs)"

lemma Push_heap: "heap h \<Longrightarrow> ok x \<Longrightarrow> heap (heap_Push lt x h)"
proof -
  assume h: "heap h" and x: "ok x"
  have "rising (length h) (h @ [x])"
    unfolding rising_def
  proof (intro conjI allI impI)
    fix k assume "k < length (h @ [x])" "0 < k \<and> k \<noteq> length h"
    then have "k < length h" "0 < k" "par k < length h" by simp_all linarith
    then show "\<not> lt ((h @ [x]) ! k) ((h @ [x]) ! par k)"
      using h by (simp add: heap_def heap_to_def nth_append)
  next
    fix k assume "k < length (h @ [x])" "0 < k \<and> par k = length h \<and> 0 < length h"
    then have False by simp linarith
    then show "\<not> lt ((h @ [x]) ! k) ((h @ [x]) ! par (length h))" ..
  qed
  then have t: "heap_to (length (h @ [x])) (heap_Push lt x h)"
    using heap_up_heap [of "length h" "h @ [x]"] h x by (auto simp: heap_def heap_Push_def)
  note m = mset_heap_Push [of lt x h]
  then have "set (heap_Push lt x h) = insert x (set h)" "length (heap_Push lt x h) = length (h @ [x])"
    by (metis set_mset_add_mset_insert set_mset_mset, metis (no_types) mset_append mset.simps size_mset union_mset_add_mset_right add.right_neutral)
  then show ?thesis using t m h x by (simp add: heap_def)
qed

lemma Pop_heap:
  assumes h: "heap h" and ne: "h \<noteq> []" and pop: "heap_Pop lt h = (x, rest)"
  shows "heap rest" "add_mset x (mset rest) = mset h" "\<forall>y\<in>set rest. \<not> lt y x"
proof -
  let ?n = "length h - 1" and ?s = "swap 0 (length h - 1) h"
  let ?d = "heap_down lt 0 ?n ?s"
  have n: "?n < length h" "0 < length h" using ne by simp_all
  have sset: "set ?s = set h" using mset_swap_eq [OF n(2,1)] mset_eq_setD by metis
  have sn: "?s ! ?n = h ! 0" using n by (simp add: nth_swap)
  have d: "mset ?d = mset h \<and> drop ?n ?d = [h ! 0] \<and> heap_to ?n ?d"
  proof (cases "?n = 0")
    case True
    then have "?d = h" using n by (subst heap_down.simps) (simp add: swap_def)
    then show ?thesis using True ne by (cases h) (auto simp: heap_to_def)
  next
    case False
    have drop: "drop ?n ?s = [h ! 0]"
      using n sn Cons_nth_drop_Suc [of ?n ?s] by simp
    have "sinking 0 ?n ?s"
      unfolding sinking_def
    proof (intro conjI allI impI)
      fix k assume k: "k < ?n" "0 < k \<and> par k \<noteq> 0"
      then have "par k < ?n" by linarith
      then show "\<not> lt (?s ! k) (?s ! par k)"
        using h k n by (simp add: heap_def heap_to_def nth_swap)
    qed simp
    then have "heap_to ?n ?d" using heap_down_heap [of 0 ?n ?s] False h sset by (simp add: heap_def)
    then show ?thesis using heap_down_frame [of 0 ?n ?s lt] False drop n by simp
  qed
  have x: "x = h ! 0" and rest: "rest = take ?n ?d"
    using pop d n Cons_nth_drop_Suc [of ?n ?d] by (auto simp: heap_Pop_def Let_def)
  have "mset h = mset (take ?n ?d) + mset (drop ?n ?d)" using d by (metis append_take_drop_id mset_append)
  then show m: "add_mset x (mset rest) = mset h" using d x rest by simp
  then have "set rest \<subseteq> set h" by (metis mset_eq_setD set_mset_add_mset_insert set_mset_mset subset_insertI)
  then show "heap rest" using d h rest n by (auto simp: heap_def heap_to_def)
  show "\<forall>y\<in>set rest. \<not> lt y x"
  proof
    fix y assume "y \<in> set rest"
    then obtain k where "k < length h" "y = h ! k" using \<open>set rest \<subseteq> set h\<close> by (metis in_set_conv_nth subsetD)
    then show "\<not> lt y x" using least_root [of "length h" h k] h x by (simp add: heap_def)
  qed
qed

end

section \<open>The order of the requests\<close>

lemma signed_diff_small:
  "x < 2 ^ 31 \<Longrightarrow> y < 2 ^ 31 \<Longrightarrow> signed_take_bit (LENGTH(32) - 1) (int x - int y) = int x - int y"
  by (rule signed_take_bit_int_eq_self) simp_all

lemma itimediff_window:
  assumes "unat (s - b) < 2 ^ 31" "unat (t - b) < 2 ^ 31"
  shows "itimediff s t = int (unat (s - b)) - int (unat (t - b))"
proof -
  let ?d = "int (unat (s - b)) - int (unat (t - b))"
  have "sint (s - t) = sint (word_of_int ?d :: u32)" by simp
  also have "\<dots> = signed_take_bit (LENGTH(32) - 1) ?d" by (rule sint_sbintrunc')
  also have "\<dots> = ?d" using assms by (rule signed_diff_small)
  finally show ?thesis by (simp add: itimediff_def)
qed

lemma class_num_inject [simp]: "class_num a = class_num b \<longleftrightarrow> a = b"
  by (cases a; cases b) simp_all

interpretation shaper: heap_order "in_window b" Less for b
  by unfold_locales (auto simp: in_window_def Less_def itimediff_window [of _ b] split: if_splits)

abbreviation shaper_heap :: "u32 \<Rightarrow> writeRequest list \<Rightarrow> bool" where
  "shaper_heap \<equiv> shaper.heap"

lemma shaper_heap_window: "shaper_heap b xs \<Longrightarrow> \<forall>r\<in>set xs. in_window c r \<Longrightarrow> shaper_heap c xs"
  by (simp add: shaper.heap_def)

lemma Less_alt:
  "\<not> Less y x \<longleftrightarrow>
     (wr_class y = CLSCTRL \<longrightarrow> wr_class x = CLSCTRL) \<and>
     (wr_class y = wr_class x \<longrightarrow> itimediff (wr_seq x) (wr_seq y) \<le> 0)"
  by (cases "wr_class x"; cases "wr_class y") (auto simp: Less_def)

lemma submitted_append [simp]: "submitted (xs @ ys) = submitted xs @ submitted ys"
  by (induction xs rule: submitted.induct) simp_all

lemma emitted_append [simp]: "emitted (xs @ ys) = emitted xs @ emitted ys"
  by (induction xs rule: emitted.induct) simp_all

lemma shaper_offer_heap:
  assumes "shaper_heap b reqs" "shaper_offer reqs = (front, rest)"
  shows "shaper_heap b rest"
    and "case front of None \<Rightarrow> reqs = [] \<and> rest = []
         | Some x \<Rightarrow> add_mset x (mset rest) = mset reqs \<and> in_window b x \<and> (\<forall>y\<in>set rest. \<not> Less y x)"
proof -
  have "shaper_heap b rest \<and> (case front of None \<Rightarrow> reqs = [] \<and> rest = []
         | Some x \<Rightarrow> add_mset x (mset rest) = mset reqs \<and> in_window b x \<and> (\<forall>y\<in>set rest. \<not> Less y x))"
  proof (cases "reqs = []")
    case True
    then show ?thesis using assms by (auto simp: shaper_offer_def)
  next
    case False
    obtain x r where p: "heap_Pop Less reqs = (x, r)" by force
    then have "front = Some x" "rest = r" using assms(2) False by (auto simp: shaper_offer_def)
    moreover note pop = shaper.Pop_heap [OF assms(1) False p]
    moreover have "x \<in> set reqs" using pop(2) by (metis set_mset_mset union_single_eq_member)
    ultimately show ?thesis using assms(1) by (simp add: shaper.heap_def)
  qed
  then show "shaper_heap b rest"
    and "case front of None \<Rightarrow> reqs = [] \<and> rest = []
         | Some x \<Rightarrow> add_mset x (mset rest) = mset reqs \<and> in_window b x \<and> (\<forall>y\<in>set rest. \<not> Less y x)"
    by simp_all
qed

lemma shaper_turn_Submit:
  assumes h: "shaper_heap c reqs" and t: "shaper_turn (Submit r) reqs = Some reqs'" and w: "\<forall>x\<in>set reqs'. in_window b x"
  shows "shaper_heap b reqs' \<and> mset reqs' = add_mset r (mset reqs) \<and> length reqs' \<le> maxShaperSize + 1"
proof -
  obtain front rest where o: "shaper_offer reqs = (front, rest)" by force
  note f = shaper_offer_heap [OF h o]
  let ?q = "case front of None \<Rightarrow> rest | Some x \<Rightarrow> heap_Push Less x rest"
  have l: "length rest < maxShaperSize" and q: "reqs' = heap_Push Less r ?q" using t o by (auto split: if_splits)
  have hq: "shaper_heap c ?q" "mset ?q = mset reqs"
    using f shaper.Push_heap [OF f(1)] by (auto split: option.splits)
  then have m: "mset reqs' = add_mset r (mset reqs)" using q by simp
  have "set reqs' = insert r (set ?q)" using m hq(2) by (metis mset_eq_setD set_mset_add_mset_insert set_mset_mset)
  then have "shaper_heap b reqs'" using shaper.Push_heap [OF shaper_heap_window [OF hq(1)]] q w by simp
  moreover have "length reqs' = Suc (length reqs)" using m by (metis size_add_mset size_mset)
  moreover have "length reqs \<le> Suc (length rest)"
    using f(2) by (auto split: option.splits dest: arg_cong [of _ _ size])
  ultimately show ?thesis using l m by simp
qed

lemma shaper_turn_Emit:
  assumes h: "shaper_heap b reqs" and t: "shaper_turn (Emit x) reqs = Some rest"
  shows "shaper_heap b rest \<and> add_mset x (mset rest) = mset reqs \<and> (\<forall>y\<in>set rest. \<not> Less y x)"
  using t shaper_offer_heap [OF h] by (auto split: prod.splits if_splits)

lemma shaper_run_heap:
  "shaper_run evs reqs \<Longrightarrow>
   (\<exists>b. shaper_heap b reqs) \<and> mset (emitted evs) + mset reqs = mset (submitted evs) \<and>
   length reqs \<le> maxShaperSize + 1"
proof (induction rule: shaper_run.induct)
  case start
  then show ?case by (simp add: shaper.heap_def shaper.heap_to_def)
next
  case (turn evs reqs ev reqs' b)
  then obtain c where c: "shaper_heap c reqs" by blast
  show ?case
  proof (cases ev)
    case (Submit r)
    from shaper_turn_Submit [OF c _ turn.hyps(3)] show ?thesis using turn Submit by auto
  next
    case (Emit x)
    have e: "shaper_heap c reqs' \<and> add_mset x (mset reqs') = mset reqs" using shaper_turn_Emit [OF c] turn.hyps(2) Emit by simp
    then have "length reqs' < length reqs" by (metis lessI size_add_mset size_mset)
    moreover have "mset (emitted (evs @ [ev])) + mset reqs' = mset (emitted evs) + mset reqs" using e Emit by simp
    ultimately show ?thesis using e turn.IH Emit by auto
  qed
qed

text \<open>Property C14.  The shaper as a priority queue.  In every run of \<open>shaperLoop\<close> whose waiting numbers stay
  within half of the 32-bit circle, the requests submitted are, with their multiplicities, those already handed
  to the sender and those that wait; at most \<open>maxShaperSize + 1\<close> wait; the loop does not panic; a request waits
  exactly when one can be handed over; and the one handed over is a control frame if any control frame waits, and
  has a number no later than that of every waiting request of its class, also across a wrap of the
  numbers.\<close>

theorem shaper_priority_queue:
  assumes "shaper_run evs reqs"
  shows "mset (emitted evs) + mset reqs = mset (submitted evs) \<and>
         length reqs \<le> maxShaperSize + 1 \<and> \<not> shaper_panics reqs \<and>
         (reqs \<noteq> [] \<longleftrightarrow> (\<exists>x rest. shaper_turn (Emit x) reqs = Some rest)) \<and>
         (\<forall>x rest. shaper_turn (Emit x) reqs = Some rest \<longrightarrow>
            add_mset x (mset rest) = mset reqs \<and>
            (\<forall>y\<in>set rest. (wr_class y = CLSCTRL \<longrightarrow> wr_class x = CLSCTRL) \<and>
               (wr_class y = wr_class x \<longrightarrow> itimediff (wr_seq x) (wr_seq y) \<le> 0)))"
proof -
  obtain b where b: "shaper_heap b reqs" using shaper_run_heap [OF assms] by blast
  obtain front rest where o: "shaper_offer reqs = (front, rest)" by force
  have "\<not> shaper_panics reqs"
    using shaper_offer_heap(2) [OF b o] o by (auto simp: shaper_panics_def maxShaperSize_def split: option.splits)
  moreover have "reqs \<noteq> [] \<longleftrightarrow> (\<exists>x rest. shaper_turn (Emit x) reqs = Some rest)"
    using o by (auto simp: shaper_offer_def split: prod.splits if_splits)
  moreover have "\<forall>x rest. shaper_turn (Emit x) reqs = Some rest \<longrightarrow>
            add_mset x (mset rest) = mset reqs \<and> (\<forall>y\<in>set rest. \<not> Less y x)"
    using shaper_turn_Emit [OF b] by blast
  ultimately show ?thesis using shaper_run_heap [OF assms] unfolding Less_alt by blast
qed

definition wr_example :: "classid \<Rightarrow> u32 \<Rightarrow> writeRequest" where
  "wr_example c n = \<lparr>wr_class = c, wr_frame = \<lparr>f_ver = 1, f_cmd = 2, f_sid = 3, f_data = []\<rparr>, wr_seq = n\<rparr>"

lemmas shaper_eval =
  wr_example_def shaper_offer_def heap_Push_def heap_Pop_def heap_up.simps heap_down_stop swap_def
  Less_def itimediff_def maxShaperSize_def Let_def in_window_def

lemma shaper_run_example:
  "shaper_run [Submit (wr_example CLSDATA 0), Submit (wr_example CLSDATA 0xFFFFFFFF)]
     [wr_example CLSDATA 0xFFFFFFFF, wr_example CLSDATA 0]"
proof -
  have "shaper_run ([] @ [Submit (wr_example CLSDATA 0)]) [wr_example CLSDATA 0]"
    by (rule shaper_run.turn [where b = "0xFFFFFFFF"]) (rule shaper_run.start, simp_all add: shaper_eval)
  then have "shaper_run (([] @ [Submit (wr_example CLSDATA 0)]) @ [Submit (wr_example CLSDATA 0xFFFFFFFF)])
      [wr_example CLSDATA 0xFFFFFFFF, wr_example CLSDATA 0]"
    by (rule shaper_run.turn [where b = "0xFFFFFFFF"]) (simp_all add: shaper_eval)
  then show ?thesis by simp
qed

theorem shaper_priority_queue_witness:
  "shaper_turn (Emit (wr_example CLSDATA 0xFFFFFFFF)) [wr_example CLSDATA 0xFFFFFFFF, wr_example CLSDATA 0] =
     Some [wr_example CLSDATA 0] \<and>
   \<not> shaper_panics [wr_example CLSDATA 0xFFFFFFFF, wr_example CLSDATA 0] \<and>
   itimediff (wr_seq (wr_example CLSDATA 0xFFFFFFFF)) (wr_seq (wr_example CLSDATA 0)) \<le> 0"
proof -
  have e: "shaper_turn (Emit (wr_example CLSDATA 0xFFFFFFFF)) [wr_example CLSDATA 0xFFFFFFFF, wr_example CLSDATA 0] =
      Some [wr_example CLSDATA 0]"
    by (simp add: shaper_eval)
  have c: "wr_class (wr_example CLSDATA 0) = wr_class (wr_example CLSDATA 0xFFFFFFFF)" by (simp add: wr_example_def)
  have "\<not> shaper_panics [wr_example CLSDATA 0xFFFFFFFF, wr_example CLSDATA 0]"
    and "itimediff (wr_seq (wr_example CLSDATA 0xFFFFFFFF)) (wr_seq (wr_example CLSDATA 0)) \<le> 0"
    using shaper_priority_queue [OF shaper_run_example] e c by (blast, metis list.set_intros(1))
  then show ?thesis using e by blast
qed

end
