(* ===== verification/Smux_Session.thy ===== *)
theory Smux_Session
  imports Smux_Shaper
begin

text \<open>
  Sessions and streams of the multiplexer (\<open>pkg/smux/session.go\<close>, \<open>stream.go\<close>).  Stream objects live in a store
  and are named by their address, since the session's map, the accept queue and the callers all hold references
  to them.  The fields that belong to the channels with one slot (\<open>chReadEvent\<close>, \<open>chUpdate\<close>, \<open>bucketNotify\<close>) and to
  the channels that are only closed (\<open>die\<close>, \<open>chFinEvent\<close>, the error channels) are flags or optional errors.

  Each function is a critical section or a sequence of them; \<open>smux_step\<close> interleaves the critical sections of the
  receive loop, the readers, the writers, the openers and the closers in every order.
\<close>

section \<open>Model\<close>

subsection \<open>State\<close>

type_synonym i32 = "32 word"

record stream =
  st_id :: u32
  st_buffers :: "bytes list"
  st_heads :: "bytes list"
  st_frameSize :: nat
  st_readEvent :: bool
  st_die :: bool
  st_fin :: bool
  st_numRead :: u32
  st_numWritten :: u32
  st_incr :: u32
  st_peerConsumed :: u32
  st_peerWindow :: u32
  st_update :: bool

record smux_session =
  ss_config :: smux_Config
  ss_nextStreamID :: u32
  ss_bucket :: i32
  ss_bucketNotify :: bool
  ss_objs :: "stream list"
  ss_streams :: "u32 \<rightharpoonup> nat"
  ss_die :: bool
  ss_readError :: "go_error option"
  ss_writeError :: "go_error option"
  ss_protoError :: "go_error option"
  ss_accepts :: "nat list"
  ss_dataReady :: bool
  ss_goAway :: bool
  ss_requestID :: u32
  ss_shaper :: "writeRequest list"

definition defaultAcceptBacklog :: nat where
  "defaultAcceptBacklog = 1024"

definition newStream :: "u32 \<Rightarrow> nat \<Rightarrow> stream" where
  "newStream sid frameSize =
     \<lparr>st_id = sid, st_buffers = [], st_heads = [], st_frameSize = frameSize, st_readEvent = False, st_die = False,
      st_fin = False, st_numRead = 0, st_numWritten = 0, st_incr = 0, st_peerConsumed = 0,
      st_peerWindow = initialPeerWindow, st_update = False\<rparr>"

definition newSession :: "smux_Config \<Rightarrow> bool \<Rightarrow> smux_session" where
  "newSession config client =
     \<lparr>ss_config = config, ss_nextStreamID = (if client then 1 else 0),
      ss_bucket = word_of_int (cf_MaxReceiveBuffer config), ss_bucketNotify = False, ss_objs = [],
      ss_streams = Map.empty, ss_die = False, ss_readError = None, ss_writeError = None, ss_protoError = None,
      ss_accepts = [], ss_dataReady = False, ss_goAway = False, ss_requestID = 0, ss_shaper = []\<rparr>"

text \<open>\<open>Client\<close> and \<open>Server\<close> start a session for a configuration that passes the check.\<close>

definition smux_Open :: "smux_Config option \<Rightarrow> bool \<Rightarrow> smux_session result" where
  "smux_Open config client =
     (let c = (case config of None \<Rightarrow> DefaultConfig | Some c \<Rightarrow> c) in
      case VerifyConfig c of Some e \<Rightarrow> Inl e | None \<Rightarrow> Inr (newSession c client))"

definition ErrGoAway :: go_error where "ErrGoAway = ErrMsg ''stream id overflows, should start a new connection''"
definition ErrConsumed :: go_error where "ErrConsumed = ErrMsg ''peer consumed more than sent''"
definition ErrTimeout :: go_error where "ErrTimeout = ErrMsg ''timeout''"
definition ErrWouldBlock :: go_error where "ErrWouldBlock = ErrMsg ''operation would block on IO''"
definition ErrClosedPipe :: go_error where "ErrClosedPipe = ErrMsg ''io: read/write on closed pipe''"

definition config_version :: "smux_session \<Rightarrow> byte" where
  "config_version s = word_of_int (cf_Version (ss_config s))"

definition frame_size :: "smux_session \<Rightarrow> nat" where
  "frame_size s = nat (cf_MaxFrameSize (ss_config s))"

definition on_obj :: "nat \<Rightarrow> (stream \<Rightarrow> stream) \<Rightarrow> smux_session \<Rightarrow> smux_session" where
  "on_obj a g s = s\<lparr>ss_objs := (ss_objs s)[a := g (ss_objs s ! a)]\<rparr>"

subsection \<open>Tokens\<close>

definition notifyBucket :: "smux_session \<Rightarrow> smux_session" where
  "notifyBucket s = s\<lparr>ss_bucketNotify := True\<rparr>"

definition returnTokens :: "nat \<Rightarrow> smux_session \<Rightarrow> smux_session" where
  "returnTokens n s =
     (let b = ss_bucket s + of_nat n; s1 = s\<lparr>ss_bucket := b\<rparr> in if sint b > 0 then notifyBucket s1 else s1)"

definition recycleTokens :: "stream \<Rightarrow> nat \<times> stream" where
  "recycleTokens st = (sum_list (map length (st_buffers st)), st\<lparr>st_buffers := [], st_heads := []\<rparr>)"

definition streamClosed :: "u32 \<Rightarrow> smux_session \<Rightarrow> smux_session" where
  "streamClosed sid s =
     (case ss_streams s sid of
        None \<Rightarrow> s
      | Some a \<Rightarrow>
          (case recycleTokens (ss_objs s ! a) of
             (n, st) \<Rightarrow>
               let s1 = on_obj a (\<lambda>_. st) s;
                   s2 = (if n > 0 then returnTokens n s1 else s1)
               in s2\<lparr>ss_streams := (ss_streams s2)(sid := None)\<rparr>))"

subsection \<open>Writing frames\<close>

text \<open>What becomes of a request: it is not handed to the shaper, because the session is closed, the socket broken
  or the deadline passed, or it is, and the caller learns the number of bytes and the error of the send loop or
  of its own wait.\<close>

datatype write_outcome = NotSent go_error | Sent nat "go_error option"

definition writeFrameInternal :: "frame \<Rightarrow> classid \<Rightarrow> write_outcome \<Rightarrow> smux_session \<Rightarrow> (nat \<times> go_error option) \<times> smux_session" where
  "writeFrameInternal f cls out s =
     (let q = ss_requestID s + 1; s1 = s\<lparr>ss_requestID := q\<rparr> in
      case out of
        NotSent e \<Rightarrow> ((0, Some e), s1)
      | Sent n e \<Rightarrow> ((n, e), s1\<lparr>ss_shaper := ss_shaper s1 @ [\<lparr>wr_class = cls, wr_frame = f, wr_seq = q\<rparr>]\<rparr>))"

definition writeControlFrame :: "frame \<Rightarrow> write_outcome \<Rightarrow> smux_session \<Rightarrow> (nat \<times> go_error option) \<times> smux_session" where
  "writeControlFrame f = writeFrameInternal f CLSCTRL"

definition sendWindowUpdate :: "u32 \<Rightarrow> nat \<Rightarrow> write_outcome \<Rightarrow> smux_session \<Rightarrow> go_error option \<times> smux_session" where
  "sendWindowUpdate consumed a out s =
     (let f = (newFrame (config_version s) cmdUPD (st_id (ss_objs s ! a)))
                \<lparr>f_data := le_put32 consumed @ le_put32 (word_of_int (cf_MaxStreamBuffer (ss_config s)))\<rparr>
      in case writeFrameInternal f CLSCTRL out s of ((_, e), s') \<Rightarrow> (e, s'))"

text \<open>The loops that split data into frames.  They differ in what they count: frames in version 1, bytes in
  version 2.  \<open>outs\<close> are the outcomes of the writes in turn; without one the loop still waits.\<close>

fun write_frames ::
  "write_outcome list \<Rightarrow> (nat \<Rightarrow> u32) \<Rightarrow> nat \<Rightarrow> bytes \<Rightarrow> nat \<Rightarrow> smux_session \<Rightarrow> ((nat \<times> go_error option) \<times> smux_session) option" where
  "write_frames [] cnt a bts sent s = (if bts = [] then Some ((sent, None), s) else None)"
| "write_frames (out # outs) cnt a bts sent s =
     (if bts = [] then Some ((sent, None), s)
      else
        let st = ss_objs s ! a;
            sz = min (length bts) (st_frameSize st);
            f = (newFrame (config_version s) cmdPSH (st_id st))\<lparr>f_data := take sz bts\<rparr>
        in case writeFrameInternal f CLSDATA out s of
             ((n, err), s1) \<Rightarrow>
               let s2 = on_obj a (\<lambda>st. st\<lparr>st_numWritten := st_numWritten st + cnt sz\<rparr>) s1 in
               (case err of
                  Some e \<Rightarrow> Some ((sent + n, Some e), s2)
                | None \<Rightarrow> write_frames outs cnt a (drop sz bts) (sent + n) s2))"

text \<open>A select with both channels ready takes either; \<open>sel\<close> is its choice.\<close>

definition closed_check :: "bool \<Rightarrow> stream \<Rightarrow> go_error option" where
  "closed_check sel st =
     (if st_fin st \<and> (\<not> st_die st \<or> sel) then Some EOF
      else if st_die st then Some ErrClosedPipe
      else None)"

definition stream_Write_v1 ::
  "bool \<Rightarrow> write_outcome list \<Rightarrow> nat \<Rightarrow> bytes \<Rightarrow> smux_session \<Rightarrow> ((nat \<times> go_error option) \<times> smux_session) option" where
  "stream_Write_v1 sel outs a b s =
     (case closed_check sel (ss_objs s ! a) of
        Some e \<Rightarrow> Some ((0, Some e), s)
      | None \<Rightarrow> write_frames outs (\<lambda>_. 1) a b 0 s)"

text \<open>One round of the loop of \<open>writeV2\<close>: the data the peer's window allows is sent; with data left the writer
  waits for an update, the end of the stream, its deadline or a broken socket.\<close>

datatype v2_turn = V2Return "nat \<times> go_error option" | V2Wait bytes nat

definition v2_window :: "stream \<Rightarrow> go_error + int" where
  "v2_window st =
     (let inflight = st_numWritten st - st_peerConsumed st in
      if sint inflight < 0 then Inl ErrConsumed else Inr (sint (st_peerWindow st - inflight)))"

definition v2_split :: "int \<Rightarrow> bytes \<Rightarrow> bytes \<times> bytes" where
  "v2_split win b =
     (if win > 0 then
        if win > sint (of_nat (length b) :: i32) then (b, []) else (take (nat win) b, drop (nat win) b)
      else ([], b))"

definition writeV2_round ::
  "write_outcome list \<Rightarrow> nat \<Rightarrow> bytes \<Rightarrow> nat \<Rightarrow> smux_session \<Rightarrow> (v2_turn \<times> smux_session) option" where
  "writeV2_round outs a b sent s =
     (case v2_window (ss_objs s ! a) of
        Inl e \<Rightarrow> Some (V2Return (0, Some e), s)
      | Inr win \<Rightarrow>
          (case v2_split win b of
             (bts, b') \<Rightarrow>
               (case write_frames outs of_nat a bts sent s of
                  None \<Rightarrow> None
                | Some ((n, Some e), s') \<Rightarrow> Some (V2Return (n, Some e), s')
                | Some ((n, None), s') \<Rightarrow> Some (if b' = [] then V2Return (n, None) else V2Wait b' n, s'))))"

datatype v2_event = V2Fin | V2Die | V2Deadline | V2WriteError | V2Update

definition writeV2_wait :: "v2_event \<Rightarrow> nat \<Rightarrow> nat \<Rightarrow> smux_session \<Rightarrow> ((nat \<times> go_error option) option \<times> smux_session) option" where
  "writeV2_wait ev a sent s =
     (let st = ss_objs s ! a in
      case ev of
        V2Fin \<Rightarrow> if st_fin st then Some (Some (0, Some EOF), s) else None
      | V2Die \<Rightarrow> if st_die st then Some (Some (sent, Some ErrClosedPipe), s) else None
      | V2Deadline \<Rightarrow> Some (Some (sent, Some ErrTimeout), s)
      | V2WriteError \<Rightarrow> (case ss_writeError s of None \<Rightarrow> None | Some e \<Rightarrow> Some (Some (sent, Some e), s))
      | V2Update \<Rightarrow> if st_update st then Some (None, on_obj a (\<lambda>st. st\<lparr>st_update := False\<rparr>) s) else None)"

text \<open>The start of \<open>writeV2\<close>, and \<open>Write\<close> as far as it does not have to wait for the peer.\<close>

definition smux_Write ::
  "bool \<Rightarrow> write_outcome list \<Rightarrow> nat \<Rightarrow> bytes \<Rightarrow> smux_session \<Rightarrow> (v2_turn \<times> smux_session) option" where
  "smux_Write sel outs a b s =
     (if cf_Version (ss_config s) = 2 then
        if b = [] then Some (V2Return (0, None), s)
        else
          (case closed_check sel (ss_objs s ! a) of
             Some e \<Rightarrow> Some (V2Return (0, Some e), s)
           | None \<Rightarrow> writeV2_round outs a b 0 s)
      else
        (case stream_Write_v1 sel outs a b s of
           None \<Rightarrow> None
         | Some (r, s') \<Rightarrow> Some (V2Return r, s')))"

subsection \<open>Reading\<close>

text \<open>The critical sections of \<open>tryRead\<close> and \<open>tryReadv2\<close>: the copy from the first buffer, and in version 2 the
  counters with the number of bytes to acknowledge, 0 for none.\<close>

definition copy_front :: "nat \<Rightarrow> stream \<Rightarrow> bytes \<times> stream" where
  "copy_front n st =
     (case st_buffers st of
        [] \<Rightarrow> ([], st)
      | b # bs \<Rightarrow>
          (take n b,
           if drop n b = [] then st\<lparr>st_buffers := bs, st_heads := tl (st_heads st)\<rparr>
           else st\<lparr>st_buffers := drop n b # bs\<rparr>))"

definition count_read :: "smux_Config \<Rightarrow> nat \<Rightarrow> stream \<Rightarrow> u32 \<times> stream" where
  "count_read config n st =
     (let numRead = st_numRead st + of_nat n; incr = st_incr st + of_nat n in
      if incr \<ge> word_of_int (cf_MaxStreamBuffer config div 2) \<or> numRead = of_nat n
      then (numRead, st\<lparr>st_numRead := numRead, st_incr := 0\<rparr>)
      else (0, st\<lparr>st_numRead := numRead, st_incr := incr\<rparr>))"

definition read_section :: "nat \<Rightarrow> nat \<Rightarrow> smux_session \<Rightarrow> (bytes \<times> u32) \<times> smux_session" where
  "read_section n a s =
     (case copy_front n (ss_objs s ! a) of
        (b, st) \<Rightarrow>
          (case (if cf_Version (ss_config s) = 2 then count_read (ss_config s) (length b) st else (0, st)) of
             (notifyConsumed, st') \<Rightarrow> ((b, notifyConsumed), on_obj a (\<lambda>_. st') s)))"

definition tryRead :: "write_outcome \<Rightarrow> nat \<Rightarrow> nat \<Rightarrow> smux_session \<Rightarrow> (bytes \<times> go_error option) \<times> smux_session" where
  "tryRead out n a s =
     (if n = 0 then (([], None), s)
      else
        case read_section n a s of
          ((b, notifyConsumed), s1) \<Rightarrow>
            if b \<noteq> [] then
              let s2 = returnTokens (length b) s1 in
              if notifyConsumed > 0 then
                (case sendWindowUpdate notifyConsumed a out s2 of (e, s3) \<Rightarrow> ((b, e), s3))
              else ((b, None), s2)
            else (([], Some (if st_die (ss_objs s1 ! a) then EOF else ErrWouldBlock)), s1))"

text \<open>A turn of \<open>WriteTo\<close> and \<open>writeTov2\<close> on a buffer: it is taken whole, written to the destination, whose outcome
  is \<open>(nw, ew)\<close>, and its tokens are returned.  Without a buffer (\<open>None\<close>) they wait.\<close>

definition take_buffer :: "stream \<Rightarrow> bytes option \<times> stream" where
  "take_buffer st =
     (case st_buffers st of
        [] \<Rightarrow> (None, st)
      | b # bs \<Rightarrow> (Some b, st\<lparr>st_buffers := bs, st_heads := tl (st_heads st)\<rparr>))"

definition writeTo_section :: "nat \<Rightarrow> smux_session \<Rightarrow> (bytes option \<times> u32) \<times> smux_session" where
  "writeTo_section a s =
     (case take_buffer (ss_objs s ! a) of
        (b, st) \<Rightarrow>
          (case (if cf_Version (ss_config s) = 2
                 then count_read (ss_config s) (case b of None \<Rightarrow> 0 | Some b \<Rightarrow> length b) st else (0, st)) of
             (notifyConsumed, st') \<Rightarrow> ((b, notifyConsumed), on_obj a (\<lambda>_. st') s)))"

definition writeTo_turn ::
  "nat \<times> go_error option \<Rightarrow> write_outcome \<Rightarrow> nat \<Rightarrow> nat \<Rightarrow> smux_session \<Rightarrow>
   ((nat \<times> go_error option) \<times> bytes) option \<times> smux_session" where
  "writeTo_turn wout out n a s =
     (case writeTo_section a s of
        ((None, _), s1) \<Rightarrow> (None, s1)
      | ((Some b, notifyConsumed), s1) \<Rightarrow>
          let s2 = returnTokens (length b) s1; n' = n + fst wout in
          if snd wout \<noteq> None then (Some ((n', snd wout), b), s2)
          else if notifyConsumed > 0 then
            (case sendWindowUpdate notifyConsumed a out s2 of (e, s3) \<Rightarrow> (Some ((n', e), b), s3))
          else (Some ((n', None), b), s2))"

datatype wait_event = WReadEvent | WFin | WReadError | WProtoError | WDeadline | WDie

definition waitRead :: "wait_event \<Rightarrow> nat \<Rightarrow> smux_session \<Rightarrow> (go_error option \<times> smux_session) option" where
  "waitRead ev a s =
     (let st = ss_objs s ! a in
      case ev of
        WReadEvent \<Rightarrow> if st_readEvent st then Some (None, on_obj a (\<lambda>st. st\<lparr>st_readEvent := False\<rparr>) s) else None
      | WFin \<Rightarrow> if st_fin st then Some (if st_buffers st \<noteq> [] then None else Some EOF, s) else None
      | WReadError \<Rightarrow> (case ss_readError s of None \<Rightarrow> None | Some e \<Rightarrow> Some (Some e, s))
      | WProtoError \<Rightarrow> (case ss_protoError s of None \<Rightarrow> None | Some e \<Rightarrow> Some (Some e, s))
      | WDeadline \<Rightarrow> Some (Some ErrTimeout, s)
      | WDie \<Rightarrow> if st_die st then Some (Some ErrClosedPipe, s) else None)"

subsection \<open>Receiving\<close>

definition pushBytes :: "bytes \<Rightarrow> stream \<Rightarrow> stream" where
  "pushBytes b st = st\<lparr>st_buffers := st_buffers st @ [b], st_heads := st_heads st @ [b]\<rparr>"

definition notifyReadEvent :: "stream \<Rightarrow> stream" where
  "notifyReadEvent st = st\<lparr>st_readEvent := True\<rparr>"

definition st_update_window :: "u32 \<Rightarrow> u32 \<Rightarrow> stream \<Rightarrow> stream" where
  "st_update_window consumed window st =
     st\<lparr>st_peerConsumed := consumed, st_peerWindow := window, st_update := True\<rparr>"

definition fin :: "stream \<Rightarrow> stream" where
  "fin st = st\<lparr>st_fin := True\<rparr>"

text \<open>What \<open>recvLoop\<close> does with a frame, under the lock of the streams.  \<open>None\<close>: the accept queue is full and the
  loop waits, holding the lock.\<close>

definition recv_handle :: "bool \<Rightarrow> frame \<Rightarrow> smux_session \<Rightarrow> smux_session option" where
  "recv_handle sel f s =
     (let sid = f_sid f in
      if f_cmd f = cmdSYN then
        (case ss_streams s sid of
           Some _ \<Rightarrow> Some s
         | None \<Rightarrow>
             let a = length (ss_objs s);
                 s1 = s\<lparr>ss_objs := ss_objs s @ [newStream sid (frame_size s)], ss_streams := (ss_streams s)(sid \<mapsto> a)\<rparr> in
             if length (ss_accepts s) < defaultAcceptBacklog \<and> (\<not> ss_die s \<or> sel)
             then Some (s1\<lparr>ss_accepts := ss_accepts s @ [a]\<rparr>)
             else if ss_die s then Some s1
             else None)
      else if f_cmd f = cmdFIN then
        (case ss_streams s sid of None \<Rightarrow> Some s | Some a \<Rightarrow> Some (on_obj a (notifyReadEvent \<circ> fin) s))
      else if f_cmd f = cmdPSH \<and> f_data f \<noteq> [] then
        (case ss_streams s sid of
           None \<Rightarrow> Some s
         | Some a \<Rightarrow>
             let s1 = on_obj a (pushBytes (f_data f)) s;
                 s2 = s1\<lparr>ss_bucket := ss_bucket s1 - of_nat (length (f_data f))\<rparr>
             in Some (on_obj a notifyReadEvent s2))
      else if f_cmd f = cmdUPD then
        (case ss_streams s sid of
           None \<Rightarrow> Some s
         | Some a \<Rightarrow> Some (on_obj a (st_update_window (upd_Consumed (f_data f)) (upd_Window (f_data f))) s))
      else Some s)"

definition notifyReadError :: "go_error \<Rightarrow> smux_session \<Rightarrow> smux_session" where
  "notifyReadError e s = (if ss_readError s = None then s\<lparr>ss_readError := Some e\<rparr> else s)"

definition notifyProtoError :: "go_error \<Rightarrow> smux_session \<Rightarrow> smux_session" where
  "notifyProtoError e s = (if ss_protoError s = None then s\<lparr>ss_protoError := Some e\<rparr> else s)"

definition notifyWriteError :: "go_error \<Rightarrow> smux_session \<Rightarrow> smux_session" where
  "notifyWriteError e s = (if ss_writeError s = None then s\<lparr>ss_writeError := Some e\<rparr> else s)"

text \<open>A turn of \<open>recvLoop\<close> after the wait for tokens: \<open>Inl\<close> when the loop returns; \<open>None\<close> as above.\<close>

definition recv_turn :: "bool \<Rightarrow> smux_session \<Rightarrow> conn \<Rightarrow> ((smux_session + smux_session) \<times> conn) option" where
  "recv_turn sel s c =
     (let s1 = (if headerSize \<le> length (rd c) then s\<lparr>ss_dataReady := True\<rparr> else s) in
      case recv_frame (config_version s) c of
        (Inl e, c') \<Rightarrow>
          Some (Inl (if e = ErrInvalidProtocol then notifyProtoError e s1 else notifyReadError e s1), c')
      | (Inr f, c') \<Rightarrow> (case recv_handle sel f s1 of None \<Rightarrow> None | Some s2 \<Rightarrow> Some (Inr s2, c')))"

subsection \<open>Opening, accepting and closing\<close>

definition open_id :: "smux_session \<Rightarrow> u32 result \<times> smux_session" where
  "open_id s =
     (if ss_goAway s then (Inl ErrGoAway, s)
      else
        let sid = ss_nextStreamID s + 2; s1 = s\<lparr>ss_nextStreamID := sid\<rparr> in
        if sid = sid mod 2 then (Inl ErrGoAway, s1\<lparr>ss_goAway := True\<rparr>) else (Inr sid, s1))"

text \<open>Of several reasons not to register the stream the first in the order of the code is reported.\<close>

definition open_register :: "u32 \<Rightarrow> smux_session \<Rightarrow> nat result \<times> smux_session" where
  "open_register sid s =
     (case (ss_readError s, ss_writeError s) of
        (Some e, _) \<Rightarrow> (Inl e, s)
      | (None, Some e) \<Rightarrow> (Inl e, s)
      | (None, None) \<Rightarrow>
          if ss_die s then (Inl ErrClosedPipe, s)
          else
            let a = length (ss_objs s) in
            (Inr a, s\<lparr>ss_objs := ss_objs s @ [newStream sid (frame_size s)], ss_streams := (ss_streams s)(sid \<mapsto> a)\<rparr>))"

definition OpenStream :: "write_outcome \<Rightarrow> smux_session \<Rightarrow> nat result \<times> smux_session" where
  "OpenStream out s =
     (if ss_die s then (Inl ErrClosedPipe, s)
      else
        case open_id s of
          (Inl e, s1) \<Rightarrow> (Inl e, s1)
        | (Inr sid, s1) \<Rightarrow>
            (case writeControlFrame (newFrame (config_version s1) cmdSYN sid) out s1 of
               ((_, Some e), s2) \<Rightarrow> (Inl e, s2)
             | ((_, None), s2) \<Rightarrow> open_register sid s2))"

datatype accept_event = AStream | ADeadline | AReadError | AProtoError | ADie

definition AcceptStream :: "accept_event \<Rightarrow> smux_session \<Rightarrow> (nat result \<times> smux_session) option" where
  "AcceptStream ev s =
     (case ev of
        AStream \<Rightarrow> (case ss_accepts s of [] \<Rightarrow> None | a # as \<Rightarrow> Some (Inr a, s\<lparr>ss_accepts := as\<rparr>))
      | ADeadline \<Rightarrow> Some (Inl ErrTimeout, s)
      | AReadError \<Rightarrow> (case ss_readError s of None \<Rightarrow> None | Some e \<Rightarrow> Some (Inl e, s))
      | AProtoError \<Rightarrow> (case ss_protoError s of None \<Rightarrow> None | Some e \<Rightarrow> Some (Inl e, s))
      | ADie \<Rightarrow> if ss_die s then Some (Inl ErrClosedPipe, s) else None)"

definition stream_Close :: "write_outcome \<Rightarrow> nat \<Rightarrow> smux_session \<Rightarrow> go_error option \<times> smux_session" where
  "stream_Close out a s =
     (let st = ss_objs s ! a in
      if st_die st then (Some ErrClosedPipe, s)
      else
        let s1 = on_obj a (\<lambda>st. st\<lparr>st_die := True\<rparr>) s in
        case writeFrameInternal (newFrame (config_version s) cmdFIN (st_id st)) CLSDATA out s1 of
          ((_, e), s2) \<Rightarrow> (e, streamClosed (st_id st) s2))"

definition sessionClose :: "stream \<Rightarrow> stream" where
  "sessionClose st = st\<lparr>st_die := True\<rparr>"

text \<open>The streams of the map are those registered under their own id.  The error of closing the connection is left
  out.\<close>

definition session_Close :: "smux_session \<Rightarrow> go_error option \<times> smux_session" where
  "session_Close s =
     (if ss_die s then (Some ErrClosedPipe, s)
      else
        (None, s\<lparr>ss_die := True,
                 ss_objs := map (\<lambda>(a, st). if ss_streams s (st_id st) = Some a then sessionClose st else st)
                             (zip [0..<length (ss_objs s)] (ss_objs s))\<rparr>))"

definition NumStreams :: "smux_session \<Rightarrow> nat" where
  "NumStreams s = (if ss_die s then 0 else card (dom (ss_streams s)))"

subsection \<open>Keeping alive\<close>

definition keepalive_ping :: "write_outcome \<Rightarrow> smux_session \<Rightarrow> smux_session" where
  "keepalive_ping out s =
     notifyBucket (snd (writeFrameInternal (newFrame (config_version s) cmdNOP 0) CLSCTRL out s))"

definition keepalive_timeout :: "smux_session \<Rightarrow> smux_session" where
  "keepalive_timeout s =
     (if ss_dataReady s then s\<lparr>ss_dataReady := False\<rparr>
      else if sint (ss_bucket s) > 0 then snd (session_Close s)
      else s)"

subsection \<open>The client of the smux proxy\<close>

text \<open>\<open>SmuxClient.Dial\<close> (\<open>proxy/smux/client.go\<close>): one session carries all streams; when it cannot open one, it is closed
  and replaced.  \<open>dialed\<close> says whether the dialer below reaches the server; the outcomes are those of the two
  \<open>SYN\<close> frames.\<close>

definition smux_initConn :: "bool \<Rightarrow> smux_session option \<Rightarrow> go_error option \<times> smux_session option" where
  "smux_initConn dialed old =
     (if \<not> dialed then (Some (ErrMsg ''dial error''), old)
      else case smux_Open None True of Inl e \<Rightarrow> (Some e, None) | Inr s \<Rightarrow> (None, Some s))"

definition SmuxClient_Dial :: "bool \<Rightarrow> write_outcome \<Rightarrow> write_outcome \<Rightarrow> smux_session option \<Rightarrow> nat result \<times> smux_session option" where
  "SmuxClient_Dial dialed out out' sess =
     (case (case sess of None \<Rightarrow> (Inl EOF, None) | Some s \<Rightarrow> (case OpenStream out s of (r, s') \<Rightarrow> (r, Some s'))) of
        (Inr a, sess') \<Rightarrow> (Inr a, sess')
      | (Inl _, sess') \<Rightarrow>
          (case smux_initConn dialed (map_option (\<lambda>s. snd (session_Close s)) sess') of
             (Some e, sess'') \<Rightarrow> (Inl e, sess'')
           | (None, None) \<Rightarrow> (Inl (Panic ''nil smux_session''), None)
           | (None, Some s) \<Rightarrow> (case OpenStream out' s of (r, s') \<Rightarrow> (r, Some s'))))"

subsection \<open>Interleavings\<close>

text \<open>The state of a session in use: the session, the unread input of its connection, where the receive loop
  stands, the tokens that readers have taken data for and not returned yet, the ids drawn by openers that have not
  registered their stream yet, and the ids of closers that have not reached \<open>streamClosed\<close> yet.  \<open>sy_pushed\<close>,
  \<open>sy_got\<close> and \<open>sy_cut\<close> are history: the payload bytes received for each stream object, the bytes its readers got,
  and the objects whose buffers were recycled.\<close>

datatype recv_state = RCheck | RWait | RRead | RStop

record smux_sys =
  sy_sess :: smux_session
  sy_in :: conn
  sy_recv :: recv_state
  sy_owed :: "nat list"
  sy_opening :: "u32 list"
  sy_closing :: "u32 list"
  sy_pushed :: "nat \<Rightarrow> bytes"
  sy_got :: "nat \<Rightarrow> bytes"
  sy_cut :: "nat set"

definition smux_start :: "smux_Config \<Rightarrow> bool \<Rightarrow> bytes \<Rightarrow> smux_sys" where
  "smux_start config client input =
     \<lparr>sy_sess = newSession config client, sy_in = open_conn input, sy_recv = RCheck, sy_owed = [], sy_opening = [],
      sy_closing = [], sy_pushed = (\<lambda>_. []), sy_got = (\<lambda>_. []), sy_cut = {}\<rparr>"

definition payload_for :: "frame \<Rightarrow> smux_session \<Rightarrow> nat \<Rightarrow> bytes" where
  "payload_for f s a = (if f_cmd f = cmdPSH \<and> ss_streams s (f_sid f) = Some a then f_data f else [])"

text \<open>The rules; \<open>client\<close> is the side the session is on.  The peer opens streams only with ids of its own parity.\<close>

inductive smux_step :: "bool \<Rightarrow> smux_sys \<Rightarrow> smux_sys \<Rightarrow> bool" for client :: bool where
  check: "sy_recv y = RCheck \<Longrightarrow>
    smux_step client y
      (y\<lparr>sy_recv := if sint (ss_bucket (sy_sess y)) \<le> 0 \<and> \<not> ss_die (sy_sess y) then RWait else RRead\<rparr>)"
| wake: "sy_recv y = RWait \<Longrightarrow> ss_bucketNotify (sy_sess y) \<Longrightarrow>
    smux_step client y (y\<lparr>sy_sess := (sy_sess y)\<lparr>ss_bucketNotify := False\<rparr>, sy_recv := RCheck\<rparr>)"
| wake_die: "sy_recv y = RWait \<Longrightarrow> ss_die (sy_sess y) \<Longrightarrow> smux_step client y (y\<lparr>sy_recv := RStop\<rparr>)"
| recv: "sy_recv y = RRead \<Longrightarrow> recv_turn sel (sy_sess y) (sy_in y) = Some (Inr s', c') \<Longrightarrow>
    recv_frame (config_version (sy_sess y)) (sy_in y) = (Inr f, c') \<Longrightarrow>
    (f_cmd f = cmdSYN \<longrightarrow> bit (f_sid f) 0 \<noteq> client) \<Longrightarrow>
    smux_step client y
      (y\<lparr>sy_sess := s', sy_in := c', sy_recv := RCheck,
         sy_pushed := \<lambda>a. sy_pushed y a @ payload_for f (sy_sess y) a\<rparr>)"
| recv_stop: "sy_recv y = RRead \<Longrightarrow> recv_turn sel (sy_sess y) (sy_in y) = Some (Inl s', c') \<Longrightarrow>
    smux_step client y (y\<lparr>sy_sess := s', sy_in := c', sy_recv := RStop\<rparr>)"
| read: "a < length (ss_objs (sy_sess y)) \<Longrightarrow> 0 < n \<Longrightarrow> read_section n a (sy_sess y) = ((b, q), s') \<Longrightarrow>
    smux_step client y
      (y\<lparr>sy_sess := s', sy_owed := length b # sy_owed y, sy_got := (sy_got y)(a := sy_got y a @ b)\<rparr>)"
| write_to: "a < length (ss_objs (sy_sess y)) \<Longrightarrow> writeTo_section a (sy_sess y) = ((Some b, q), s') \<Longrightarrow>
    smux_step client y
      (y\<lparr>sy_sess := s', sy_owed := length b # sy_owed y, sy_got := (sy_got y)(a := sy_got y a @ b)\<rparr>)"
| write_to_none: "writeTo_section a (sy_sess y) = ((None, q), s') \<Longrightarrow> smux_step client y (y\<lparr>sy_sess := s'\<rparr>)"
| return_tokens: "n \<in> set (sy_owed y) \<Longrightarrow>
    smux_step client y (y\<lparr>sy_sess := returnTokens n (sy_sess y), sy_owed := remove1 n (sy_owed y)\<rparr>)"
| wait: "waitRead ev a (sy_sess y) = Some (e, s') \<Longrightarrow> smux_step client y (y\<lparr>sy_sess := s'\<rparr>)"
| ack: "sendWindowUpdate q a out (sy_sess y) = (e, s') \<Longrightarrow> smux_step client y (y\<lparr>sy_sess := s'\<rparr>)"
| stream_write: "a < length (ss_objs (sy_sess y)) \<Longrightarrow> smux_Write sel outs a b (sy_sess y) = Some (r, s') \<Longrightarrow>
    smux_step client y (y\<lparr>sy_sess := s'\<rparr>)"
| write_more: "a < length (ss_objs (sy_sess y)) \<Longrightarrow> writeV2_round outs a b sent (sy_sess y) = Some (r, s') \<Longrightarrow>
    smux_step client y (y\<lparr>sy_sess := s'\<rparr>)"
| write_wait: "writeV2_wait ev a sent (sy_sess y) = Some (r, s') \<Longrightarrow> smux_step client y (y\<lparr>sy_sess := s'\<rparr>)"
| accept: "AcceptStream ev (sy_sess y) = Some (r, s') \<Longrightarrow> smux_step client y (y\<lparr>sy_sess := s'\<rparr>)"
| open_sid: "\<not> ss_die (sy_sess y) \<Longrightarrow> open_id (sy_sess y) = (Inr sid, s') \<Longrightarrow>
    smux_step client y (y\<lparr>sy_sess := s', sy_opening := sid # sy_opening y\<rparr>)"
| open_away: "\<not> ss_die (sy_sess y) \<Longrightarrow> open_id (sy_sess y) = (Inl e, s') \<Longrightarrow>
    smux_step client y (y\<lparr>sy_sess := s'\<rparr>)"
| open_syn: "sid \<in> set (sy_opening y) \<Longrightarrow>
    writeControlFrame (newFrame (config_version (sy_sess y)) cmdSYN sid) out (sy_sess y) = ((n, e), s') \<Longrightarrow>
    smux_step client y
      (y\<lparr>sy_sess := s', sy_opening := if e = None then sy_opening y else remove1 sid (sy_opening y)\<rparr>)"
| open_done: "sid \<in> set (sy_opening y) \<Longrightarrow> open_register sid (sy_sess y) = (r, s') \<Longrightarrow>
    smux_step client y (y\<lparr>sy_sess := s', sy_opening := remove1 sid (sy_opening y)\<rparr>)"
| close_begin: "a < length (ss_objs (sy_sess y)) \<Longrightarrow> \<not> st_die (ss_objs (sy_sess y) ! a) \<Longrightarrow>
    s1 = on_obj a (\<lambda>st. st\<lparr>st_die := True\<rparr>) (sy_sess y) \<Longrightarrow>
    writeFrameInternal (newFrame v cmdFIN (st_id (ss_objs (sy_sess y) ! a))) CLSDATA out s1 = ((n, e), s') \<Longrightarrow>
    smux_step client y (y\<lparr>sy_sess := s', sy_closing := st_id (ss_objs (sy_sess y) ! a) # sy_closing y\<rparr>)"
| close_end: "sid \<in> set (sy_closing y) \<Longrightarrow>
    smux_step client y
      (y\<lparr>sy_sess := streamClosed sid (sy_sess y), sy_closing := remove1 sid (sy_closing y),
         sy_cut := sy_cut y \<union> {a. ss_streams (sy_sess y) sid = Some a}\<rparr>)"
| session_close: "smux_step client y (y\<lparr>sy_sess := snd (session_Close (sy_sess y))\<rparr>)"
| broken: "smux_step client y (y\<lparr>sy_sess := notifyWriteError e (sy_sess y)\<rparr>)"
| ping: "smux_step client y (y\<lparr>sy_sess := keepalive_ping out (sy_sess y)\<rparr>)"
| timeout: "smux_step client y (y\<lparr>sy_sess := keepalive_timeout (sy_sess y)\<rparr>)"

inductive smux_reach :: "smux_Config \<Rightarrow> bool \<Rightarrow> smux_sys \<Rightarrow> bool" for config client where
  init: "smux_reach config client (smux_start config client input)"
| step: "smux_reach config client y \<Longrightarrow> smux_step client y y' \<Longrightarrow> smux_reach config client y'"

section \<open>What the steps change\<close>

text \<open>The part of a session that its invariants are about.  The steps of writers, waiters and acceptors leave it
  alone.\<close>

record cview =
  cv_config :: smux_Config
  cv_closed :: bool
  cv_bucket :: i32
  cv_ids :: "u32 list"
  cv_bufs :: "bytes list list"
  cv_heads :: "nat list"
  cv_die :: "bool list"
  cv_streams :: "u32 \<rightharpoonup> nat"
  cv_next :: u32
  cv_goAway :: bool

definition view :: "smux_session \<Rightarrow> cview" where
  "view s =
     \<lparr>cv_config = ss_config s, cv_closed = ss_die s, cv_bucket = ss_bucket s, cv_ids = map st_id (ss_objs s),
      cv_bufs = map st_buffers (ss_objs s), cv_heads = map (\<lambda>st. length (st_heads st)) (ss_objs s),
      cv_die = map st_die (ss_objs s), cv_streams = ss_streams s, cv_next = ss_nextStreamID s,
      cv_goAway = ss_goAway s\<rparr>"

definition still :: "smux_session \<Rightarrow> smux_session \<Rightarrow> bool" where
  "still s s' \<longleftrightarrow> view s' = view s \<and> ss_bucketNotify s' = ss_bucketNotify s"

lemma map_same_update [simp]: "f x = f (xs ! a) \<Longrightarrow> map f (xs[a := x]) = map f xs"
  by (metis list_update_id map_update)

lemma map_nth_update [simp]: "(map f xs)[a := f (xs ! a)] = map f xs"
  by (metis list_update_id map_update)

lemmas map_heads_update [simp] = map_nth_update [where f = "\<lambda>st. length (st_heads st)"]

lemma still_refl [simp]: "still s s"
  by (simp add: still_def)

lemma still_trans: "still s s' \<Longrightarrow> still s' s'' \<Longrightarrow> still s s''"
  by (simp add: still_def)

lemma still_on_obj:
  "(\<And>st. st_id (g st) = st_id st \<and> st_buffers (g st) = st_buffers st \<and> st_heads (g st) = st_heads st \<and>
     st_die (g st) = st_die st) \<Longrightarrow> still s (on_obj a g s)"
  by (simp add: still_def view_def on_obj_def)

lemma still_writeFrameInternal: "writeFrameInternal f cls out s = (r, s') \<Longrightarrow> still s s'"
  by (auto simp: writeFrameInternal_def still_def view_def Let_def split: write_outcome.splits)

lemma still_write_frames: "write_frames outs cnt a bts sent s = Some (r, s') \<Longrightarrow> still s s'"
proof (induction outs cnt a bts sent s rule: write_frames.induct)
  case (2 out outs cnt a bts sent s)
  show ?case
  proof (cases "bts = []")
    case False
    let ?st = "ss_objs s ! a"
    define sz where "sz = min (length bts) (st_frameSize ?st)"
    define f where "f = (newFrame (config_version s) cmdPSH (st_id ?st))\<lparr>f_data := take sz bts\<rparr>"
    obtain n err s1 where w: "writeFrameInternal f CLSDATA out s = ((n, err), s1)" by (metis surj_pair)
    define s2 where "s2 = on_obj a (\<lambda>st. st\<lparr>st_numWritten := st_numWritten st + cnt sz\<rparr>) s1"
    have st2: "still s s2"
      unfolding s2_def by (rule still_trans [OF still_writeFrameInternal [OF w] still_on_obj]) simp
    show ?thesis
    proof (cases err)
      case None
      have "write_frames outs cnt a (drop sz bts) (sent + n) s2 = Some (r, s')"
        using "2.prems" False w None by (simp add: Let_def sz_def f_def s2_def)
      then show ?thesis
        using "2.IH" [OF False refl sz_def f_def w [symmetric] refl s2_def None] st2 still_trans by blast
    next
      case (Some e)
      then show ?thesis using "2.prems" False w st2 by (simp add: Let_def sz_def f_def s2_def)
    qed
  qed (use "2.prems" in simp)
qed (auto split: if_splits)

lemma still_round: "writeV2_round outs a b sent s = Some (r, s') \<Longrightarrow> still s s'"
  by (auto simp: writeV2_round_def split: sum.splits prod.splits option.splits if_splits dest: still_write_frames)

lemma still_smux_Write: "smux_Write sel outs a b s = Some (r, s') \<Longrightarrow> still s s'"
  by (auto simp: smux_Write_def stream_Write_v1_def split: option.splits if_splits
      dest: still_write_frames still_round)

lemma still_write_wait: "writeV2_wait ev a sent s = Some (r, s') \<Longrightarrow> still s s'"
  by (auto simp: writeV2_wait_def Let_def intro!: still_on_obj split: v2_event.splits option.splits if_splits)

lemma still_waitRead: "waitRead ev a s = Some (e, s') \<Longrightarrow> still s s'"
  by (auto simp: waitRead_def Let_def intro!: still_on_obj split: wait_event.splits option.splits if_splits)

lemma still_sendWindowUpdate: "sendWindowUpdate q a out s = (e, s') \<Longrightarrow> still s s'"
  by (auto simp: sendWindowUpdate_def Let_def split: prod.splits dest: still_writeFrameInternal)

lemma still_AcceptStream: "AcceptStream ev s = Some (r, s') \<Longrightarrow> still s s'"
  by (auto simp: AcceptStream_def still_def view_def split: accept_event.splits option.splits list.splits if_splits)

lemma still_count_read: "count_read config n st = (q, st') \<Longrightarrow>
   st_id st' = st_id st \<and> st_buffers st' = st_buffers st \<and> st_heads st' = st_heads st \<and> st_die st' = st_die st"
  by (auto simp: count_read_def Let_def split: if_splits)

definition total :: "bytes list list \<Rightarrow> nat" where
  "total bufs = sum_list (map (\<lambda>bs. length (concat bs)) bufs)"

lemma total_update:
  "a < length bufs \<Longrightarrow> total (bufs[a := bs]) + length (concat (bufs ! a)) = total bufs + length (concat bs)"
proof (induction bufs arbitrary: a)
  case (Cons x xs)
  then show ?case by (cases a) (auto simp: total_def)
qed simp

lemma total_snoc [simp]: "total (bufs @ [bs]) = total bufs + length (concat bs)"
  by (simp add: total_def)

text \<open>A reader takes bytes off the front of the buffers of one object.\<close>

definition consume :: "nat \<Rightarrow> bytes \<Rightarrow> cview \<Rightarrow> cview \<Rightarrow> bool" where
  "consume a b v v' \<longleftrightarrow>
     (\<exists>bs h. v' = v\<lparr>cv_bufs := (cv_bufs v)[a := bs], cv_heads := (cv_heads v)[a := h]\<rparr> \<and>
       concat (cv_bufs v ! a) = b @ concat bs \<and>
       (cv_heads v ! a = length (cv_bufs v ! a) \<longrightarrow> h = length bs) \<and> (cv_bufs v ! a = [] \<longrightarrow> bs = []))"

lemma consume_same: "consume a b v v' \<Longrightarrow> cv_config v' = cv_config v \<and> cv_closed v' = cv_closed v"
  by (auto simp: consume_def)

lemma consume_obj:
  assumes "a < length (ss_objs s)" "st_id st = st_id (ss_objs s ! a)" "st_die st = st_die (ss_objs s ! a)"
    "concat (st_buffers (ss_objs s ! a)) = b @ concat (st_buffers st)"
    "length (st_heads (ss_objs s ! a)) = length (st_buffers (ss_objs s ! a)) \<Longrightarrow>
       length (st_heads st) = length (st_buffers st)"
    "st_buffers (ss_objs s ! a) = [] \<Longrightarrow> st_buffers st = []"
  shows "consume a b (view s) (view (on_obj a (\<lambda>_. st) s))"
proof -
  let ?o = "ss_objs s"
  have "map st_id (?o[a := st]) = map st_id ?o" "map st_die (?o[a := st]) = map st_die ?o"
    using assms(2,3) by simp_all
  then have "view (on_obj a (\<lambda>_. st) s) = (view s)\<lparr>cv_bufs := (cv_bufs (view s))[a := st_buffers st],
      cv_heads := (cv_heads (view s))[a := length (st_heads st)]\<rparr>"
    by (simp add: view_def on_obj_def map_update)
  then show ?thesis using assms unfolding consume_def by (force simp: view_def)
qed

lemma read_section_consume:
  assumes "a < length (ss_objs s)" "read_section n a s = ((b, q), s')"
  shows "consume a b (view s) (view s') \<and> ss_bucketNotify s' = ss_bucketNotify s"
proof -
  obtain st where c: "copy_front n (ss_objs s ! a) = (b, st)"
    and st': "\<exists>st'. st_id st' = st_id st \<and> st_buffers st' = st_buffers st \<and> st_heads st' = st_heads st \<and>
      st_die st' = st_die st \<and> s' = on_obj a (\<lambda>_. st') s"
    using assms(2) by (fastforce simp: read_section_def split: prod.splits if_splits dest: still_count_read)
  have "st_id st = st_id (ss_objs s ! a)" "st_die st = st_die (ss_objs s ! a)"
    "concat (st_buffers (ss_objs s ! a)) = b @ concat (st_buffers st)"
    "length (st_heads (ss_objs s ! a)) = length (st_buffers (ss_objs s ! a)) \<Longrightarrow>
       length (st_heads st) = length (st_buffers st)"
    "st_buffers (ss_objs s ! a) = [] \<Longrightarrow> st_buffers st = []"
    using c by (auto simp: copy_front_def split: list.splits if_splits)
  then show ?thesis using st' assms(1) consume_obj [of a s] by (auto simp: on_obj_def)
qed

lemma writeTo_section_consume:
  assumes "a < length (ss_objs s)" "writeTo_section a s = ((Some b, q), s')"
  shows "consume a b (view s) (view s') \<and> ss_bucketNotify s' = ss_bucketNotify s"
proof -
  obtain st where c: "take_buffer (ss_objs s ! a) = (Some b, st)"
    and st': "\<exists>st'. st_id st' = st_id st \<and> st_buffers st' = st_buffers st \<and> st_heads st' = st_heads st \<and>
      st_die st' = st_die st \<and> s' = on_obj a (\<lambda>_. st') s"
    using assms(2) by (fastforce simp: writeTo_section_def split: prod.splits if_splits dest: still_count_read)
  have "st_id st = st_id (ss_objs s ! a)" "st_die st = st_die (ss_objs s ! a)"
    "concat (st_buffers (ss_objs s ! a)) = b @ concat (st_buffers st)"
    "length (st_heads (ss_objs s ! a)) = length (st_buffers (ss_objs s ! a)) \<Longrightarrow>
       length (st_heads st) = length (st_buffers st)"
    "st_buffers (ss_objs s ! a) = [] \<Longrightarrow> st_buffers st = []"
    using c by (auto simp: take_buffer_def split: list.splits)
  then show ?thesis using st' assms(1) consume_obj [of a s] by (auto simp: on_obj_def)
qed

lemma writeTo_section_None:
  assumes "writeTo_section a s = ((None, q), s')"
  shows "still s s'"
proof -
  obtain st' where "s' = on_obj a (\<lambda>_. st') s" "st_id st' = st_id (ss_objs s ! a)"
    "st_buffers st' = st_buffers (ss_objs s ! a)" "st_heads st' = st_heads (ss_objs s ! a)"
    "st_die st' = st_die (ss_objs s ! a)"
    using assms
    by (fastforce simp: writeTo_section_def take_buffer_def split: prod.splits if_splits list.splits dest: still_count_read)
  then show ?thesis by (simp add: still_def view_def on_obj_def)
qed

section \<open>Invariants\<close>

definition tok_inv :: "smux_Config \<Rightarrow> cview \<Rightarrow> nat list \<Rightarrow> bool" where
  "tok_inv config v owed \<longleftrightarrow>
     sint (cv_bucket v) + int (total (cv_bufs v) + sum_list owed) = cf_MaxReceiveBuffer config \<and>
     int (total (cv_bufs v) + sum_list owed) < cf_MaxReceiveBuffer config + 65535"

definition wake_inv :: "cview \<Rightarrow> bool \<Rightarrow> recv_state \<Rightarrow> bool" where
  "wake_inv v notify r \<longleftrightarrow>
     (r = RRead \<longrightarrow> sint (cv_bucket v) > 0) \<and> (r = RWait \<and> sint (cv_bucket v) > 0 \<longrightarrow> notify)"

definition reg_inv :: "cview \<Rightarrow> u32 list \<Rightarrow> nat set \<Rightarrow> bool" where
  "reg_inv v closing gone \<longleftrightarrow>
     (\<forall>sid a. cv_streams v sid = Some a \<longrightarrow> a < length (cv_ids v) \<and> cv_ids v ! a = sid) \<and>
     (\<forall>a<length (cv_ids v). \<not> cv_die v ! a \<longrightarrow> cv_streams v (cv_ids v ! a) = Some a) \<and>
     distinct closing \<and> (\<forall>sid\<in>set closing. \<exists>a. cv_streams v sid = Some a \<and> cv_die v ! a) \<and>
     (\<forall>a\<in>gone. a < length (cv_ids v) \<and> cv_die v ! a \<and> cv_streams v (cv_ids v ! a) \<noteq> Some a)"

definition id_inv :: "bool \<Rightarrow> cview \<Rightarrow> u32 list \<Rightarrow> bool" where
  "id_inv client v opening \<longleftrightarrow>
     distinct opening \<and> (\<forall>sid\<in>set opening. bit sid 0 = client \<and> sid \<notin> set (cv_ids v)) \<and>
     (\<not> cv_goAway v \<longrightarrow> bit (cv_next v) 0 = client \<and>
       (\<forall>sid\<in>set opening \<union> set (cv_ids v). bit sid 0 = client \<longrightarrow> sid \<le> cv_next v))"

definition byte_inv :: "cview \<Rightarrow> (nat \<Rightarrow> bytes) \<Rightarrow> (nat \<Rightarrow> bytes) \<Rightarrow> nat set \<Rightarrow> bool" where
  "byte_inv v pushed got gone \<longleftrightarrow>
     (\<forall>a. if a < length (cv_ids v) then
            cv_heads v ! a = length (cv_bufs v ! a) \<and>
            (if a \<in> gone then cv_bufs v ! a = [] \<and> (\<exists>rest. pushed a = got a @ rest)
             else pushed a = got a @ concat (cv_bufs v ! a))
          else pushed a = [] \<and> got a = [])"

definition smux_inv :: "smux_Config \<Rightarrow> bool \<Rightarrow> smux_sys \<Rightarrow> bool" where
  "smux_inv config client y \<longleftrightarrow>
     (let s = sy_sess y; v = view s in
      ss_config s = config \<and>
      (\<not> ss_die s \<longrightarrow>
        tok_inv config v (sy_owed y) \<and> wake_inv v (ss_bucketNotify s) (sy_recv y) \<and>
        reg_inv v (sy_closing y) (sy_cut y) \<and> id_inv client v (sy_opening y) \<and>
        byte_inv v (sy_pushed y) (sy_got y) (sy_cut y)))"

lemma view_simps [simp]:
  "cv_config (view s) = ss_config s" "cv_closed (view s) = ss_die s" "cv_bucket (view s) = ss_bucket s"
  "cv_streams (view s) = ss_streams s" "cv_next (view s) = ss_nextStreamID s" "cv_goAway (view s) = ss_goAway s"
  "length (cv_ids (view s)) = length (ss_objs s)" "length (cv_bufs (view s)) = length (ss_objs s)"
  "length (cv_heads (view s)) = length (ss_objs s)" "length (cv_die (view s)) = length (ss_objs s)"
  by (simp_all add: view_def)

lemma stillD: "still s s' \<Longrightarrow> view s' = view s \<and> ss_config s' = ss_config s \<and> ss_die s' = ss_die s \<and>
   ss_bucketNotify s' = ss_bucketNotify s"
  unfolding still_def by (metis view_simps(1,2))

lemma view_eqD:
  assumes "view s' = v'"
  shows "ss_config s' = cv_config v'" "ss_die s' = cv_closed v'" "ss_bucket s' = cv_bucket v'"
  unfolding assms [symmetric] by simp_all

lemma inv_still: "smux_inv config client y \<Longrightarrow> still (sy_sess y) s' \<Longrightarrow> smux_inv config client (y\<lparr>sy_sess := s'\<rparr>)"
  by (drule stillD) (auto simp: smux_inv_def Let_def)

lemma inv_closed: "ss_die (sy_sess y) \<Longrightarrow> ss_config (sy_sess y) = config \<Longrightarrow> smux_inv config client y"
  by (simp add: smux_inv_def Let_def)

lemma sint_add_word:
  assumes "- (2 ^ 31) \<le> sint b + k" "sint b + k < 2 ^ 31"
  shows "sint (b + word_of_int k :: i32) = sint b + k"
proof -
  have "b + word_of_int k = word_of_int (sint b + k)" by simp
  then have "sint (b + word_of_int k) = signed_take_bit (LENGTH(32) - 1) (sint b + k)"
    by (simp only: sint_sbintrunc')
  also have "\<dots> = sint b + k" using assms by (intro signed_take_bit_int_eq_self) simp_all
  finally show ?thesis .
qed

lemma returnTokens_view:
  "view (returnTokens n s) = (view s)\<lparr>cv_bucket := ss_bucket s + of_nat n\<rparr>"
  "ss_die (returnTokens n s) = ss_die s" "ss_config (returnTokens n s) = ss_config s"
  "ss_bucketNotify (returnTokens n s) = (ss_bucketNotify s \<or> sint (ss_bucket s + of_nat n) > 0)"
  "ss_streams (returnTokens n s) = ss_streams s"
  by (simp_all add: returnTokens_def notifyBucket_def view_def Let_def)

lemma sint_give_back:
  assumes "cf_MaxReceiveBuffer config < 2 ^ 31" "tok_inv config v owed" "n \<le> total (cv_bufs v) + sum_list owed"
  shows "sint (cv_bucket v + of_nat n) = sint (cv_bucket v) + int n"
proof -
  have "- (2 ^ 31) \<le> sint (cv_bucket v)" using sint_range_size [of "cv_bucket v"] by (simp add: word_size)
  moreover have "sint (cv_bucket v) + int n < 2 ^ 31" using assms by (simp add: tok_inv_def)
  ultimately show ?thesis using sint_add_word [of "cv_bucket v" "int n"] by simp
qed

lemma reg_inv_consume: "reg_inv v closing gone \<Longrightarrow> consume a b v v' \<Longrightarrow> reg_inv v' closing gone"
  by (auto simp: reg_inv_def consume_def)

lemma id_inv_consume: "id_inv client v opening \<Longrightarrow> consume a b v v' \<Longrightarrow> id_inv client v' opening"
  by (auto simp: id_inv_def consume_def)

lemma wake_inv_consume: "wake_inv v notify r \<Longrightarrow> consume a b v v' \<Longrightarrow> wake_inv v' notify r"
  by (auto simp: wake_inv_def consume_def)

lemma tok_inv_consume:
  assumes "tok_inv config v owed" "consume a b v v'" "a < length (cv_bufs v)"
  shows "tok_inv config v' (length b # owed)"
proof -
  obtain bs h where c: "v' = v\<lparr>cv_bufs := (cv_bufs v)[a := bs], cv_heads := (cv_heads v)[a := h]\<rparr>"
    "concat (cv_bufs v ! a) = b @ concat bs"
    using assms(2) by (auto simp: consume_def)
  have "total (cv_bufs v') + length b = total (cv_bufs v)" using total_update [OF assms(3), of bs] c by simp
  then show ?thesis using assms(1) c(1) by (simp add: tok_inv_def)
qed

lemma byte_inv_consume:
  assumes "byte_inv v pushed got gone" "consume a b v v'" "a < length (cv_ids v)"
    "length (cv_bufs v) = length (cv_ids v)" "length (cv_heads v) = length (cv_ids v)"
  shows "byte_inv v' pushed (got(a := got a @ b)) gone"
proof -
  obtain bs h where c: "v' = v\<lparr>cv_bufs := (cv_bufs v)[a := bs], cv_heads := (cv_heads v)[a := h]\<rparr>"
    "concat (cv_bufs v ! a) = b @ concat bs" "cv_heads v ! a = length (cv_bufs v ! a) \<longrightarrow> h = length bs"
    "cv_bufs v ! a = [] \<longrightarrow> bs = []"
    using assms(2) by (auto simp: consume_def)
  show ?thesis
    unfolding byte_inv_def
  proof
    fix k
    show "if k < length (cv_ids v') then
            cv_heads v' ! k = length (cv_bufs v' ! k) \<and>
            (if k \<in> gone then cv_bufs v' ! k = [] \<and> (\<exists>rest. pushed k = (got(a := got a @ b)) k @ rest)
             else pushed k = (got(a := got a @ b)) k @ concat (cv_bufs v' ! k))
          else pushed k = [] \<and> (got(a := got a @ b)) k = []"
    proof (cases "k = a")
      case True
      have "if a \<in> gone then cv_bufs v ! a = [] \<and> (\<exists>rest. pushed a = got a @ rest)
             else pushed a = got a @ concat (cv_bufs v ! a)" "cv_heads v ! a = length (cv_bufs v ! a)"
        using assms(1,3) by (auto simp: byte_inv_def)
      then show ?thesis using True c assms(3-5) by (auto split: if_splits)
    next
      case False
      then show ?thesis using assms(1) c by (auto simp: byte_inv_def)
    qed
  qed
qed

lemma smux_invD:
  assumes "smux_inv config client y" "\<not> ss_die (sy_sess y)"
  shows "tok_inv config (view (sy_sess y)) (sy_owed y)"
    "wake_inv (view (sy_sess y)) (ss_bucketNotify (sy_sess y)) (sy_recv y)"
    "reg_inv (view (sy_sess y)) (sy_closing y) (sy_cut y)" "id_inv client (view (sy_sess y)) (sy_opening y)"
    "byte_inv (view (sy_sess y)) (sy_pushed y) (sy_got y) (sy_cut y)"
  using assms by (simp_all add: smux_inv_def Let_def)

lemma smux_inv_config: "smux_inv config client y \<Longrightarrow> ss_config (sy_sess y) = config"
  by (simp add: smux_inv_def Let_def)

lemma smux_invI:
  assumes "ss_config (sy_sess y) = config"
    and "\<not> ss_die (sy_sess y) \<Longrightarrow> tok_inv config (view (sy_sess y)) (sy_owed y)"
    and "\<not> ss_die (sy_sess y) \<Longrightarrow> wake_inv (view (sy_sess y)) (ss_bucketNotify (sy_sess y)) (sy_recv y)"
    and "\<not> ss_die (sy_sess y) \<Longrightarrow> reg_inv (view (sy_sess y)) (sy_closing y) (sy_cut y)"
    and "\<not> ss_die (sy_sess y) \<Longrightarrow> id_inv client (view (sy_sess y)) (sy_opening y)"
    and "\<not> ss_die (sy_sess y) \<Longrightarrow> byte_inv (view (sy_sess y)) (sy_pushed y) (sy_got y) (sy_cut y)"
  shows "smux_inv config client y"
  using assms by (simp add: smux_inv_def Let_def)

lemma inv_consume:
  assumes i: "smux_inv config client y" and c: "consume a b (view (sy_sess y)) (view s')"
    and n: "ss_bucketNotify s' = ss_bucketNotify (sy_sess y)" and a: "a < length (ss_objs (sy_sess y))"
  shows "smux_inv config client
    (y\<lparr>sy_sess := s', sy_owed := length b # sy_owed y, sy_got := (sy_got y)(a := sy_got y a @ b)\<rparr>)"
proof -
  have v: "ss_config s' = ss_config (sy_sess y)" "ss_die s' = ss_die (sy_sess y)" using consume_same [OF c] by simp_all
  show ?thesis
    by (rule smux_invI; use v n i c a in
        \<open>auto simp: smux_inv_config intro: tok_inv_consume wake_inv_consume reg_inv_consume id_inv_consume
           byte_inv_consume dest: smux_invD\<close>)
qed

lemma sum_list_remove1: "n \<in> set ns \<Longrightarrow> sum_list (remove1 n ns) + n = (sum_list ns :: nat)"
  by (induction ns) auto

lemma inv_return:
  assumes m: "cf_MaxReceiveBuffer config < 2 ^ 31" and i: "smux_inv config client y" and n: "n \<in> set (sy_owed y)"
  shows "smux_inv config client (y\<lparr>sy_sess := returnTokens n (sy_sess y), sy_owed := remove1 n (sy_owed y)\<rparr>)"
proof (rule smux_invI; simp add: returnTokens_view smux_inv_config [OF i])
  assume d: "\<not> ss_die (sy_sess y)"
  note I = smux_invD [OF i d]
  note r = sum_list_remove1 [OF n]
  have b: "sint (ss_bucket (sy_sess y) + of_nat n) = sint (ss_bucket (sy_sess y)) + int n"
    using sint_give_back [OF m I(1), of n] r by simp
  show "tok_inv config (view (sy_sess y)\<lparr>cv_bucket := ss_bucket (sy_sess y) + of_nat n\<rparr>) (remove1 n (sy_owed y))"
    using I(1) r b by (simp add: tok_inv_def)
  show "wake_inv (view (sy_sess y)\<lparr>cv_bucket := ss_bucket (sy_sess y) + of_nat n\<rparr>)
      (ss_bucketNotify (sy_sess y) \<or> 0 < sint (ss_bucket (sy_sess y) + of_nat n)) (sy_recv y)"
    using I(2) b by (auto simp: wake_inv_def)
qed (use smux_invD [OF i] in \<open>auto simp: reg_inv_def id_inv_def byte_inv_def\<close>)

text \<open>A new stream object is registered, by the receive loop or by an opener.\<close>

definition registered :: "u32 \<Rightarrow> cview \<Rightarrow> cview" where
  "registered sid v =
     v\<lparr>cv_ids := cv_ids v @ [sid], cv_bufs := cv_bufs v @ [[]], cv_heads := cv_heads v @ [0],
       cv_die := cv_die v @ [False], cv_streams := (cv_streams v)(sid \<mapsto> length (cv_ids v))\<rparr>"

lemma inv_registered:
  assumes i: "smux_inv config client y" and s': "view s' = registered sid (view (sy_sess y))"
    and n: "ss_bucketNotify s' = ss_bucketNotify (sy_sess y)" and free: "ss_streams (sy_sess y) sid = None"
    and y': "sy_sess y' = s'" "sy_owed y' = sy_owed y" "sy_closing y' = sy_closing y" "sy_cut y' = sy_cut y"
      "sy_pushed y' = sy_pushed y" "sy_got y' = sy_got y"
    and r: "sy_recv y' = sy_recv y \<or> sy_recv y' = RCheck" and ids: "\<not> ss_die (sy_sess y) \<Longrightarrow> id_inv client (view s') (sy_opening y')"
  shows "smux_inv config client y'"
proof -
  have v: "ss_config s' = ss_config (sy_sess y)" "ss_die s' = ss_die (sy_sess y)" "ss_bucket s' = ss_bucket (sy_sess y)"
    using view_eqD [OF s'] by (simp_all add: registered_def)
  show ?thesis
  proof (rule smux_invI; (unfold y')?)
    show "ss_config s' = config" using v smux_inv_config [OF i] by simp
    assume "\<not> ss_die s'"
    then have d: "\<not> ss_die (sy_sess y)" using v by simp
    note I = smux_invD [OF i d]
    show "tok_inv config (view s') (sy_owed y)" using I(1) by (simp add: s' tok_inv_def registered_def)
    show "wake_inv (view s') (ss_bucketNotify s') (sy_recv y')" using I(2) r n by (auto simp: s' wake_inv_def registered_def)
    show "reg_inv (view s') (sy_closing y) (sy_cut y)"
      using I(3) free unfolding s' by (fastforce simp: reg_inv_def registered_def nth_append less_Suc_eq)
    show "id_inv client (view s') (sy_opening y')" using ids d .
    show "byte_inv (view s') (sy_pushed y) (sy_got y) (sy_cut y)"
      using I(5) I(3) unfolding s'
      by (auto simp: byte_inv_def registered_def nth_append less_Suc_eq reg_inv_def split: if_splits)
  qed
qed

lemma recv_frame_data:
  assumes "recv_frame v c = (Inr f, c')" "f_cmd f = cmdPSH"
  shows "length (f_data f) < 2 ^ 16"
proof -
  obtain hdr c1 where b: "recv_body v hdr c1 = (Inr f, c')"
    using assms(1) unfolding recv_frame_def by (rule io_bind_InrE)
  have "unat (hdr_Length hdr) < 2 ^ 16" using unsigned_less [of "hdr_Length hdr"] by simp
  then show ?thesis
    using b assms(2) by (auto simp: recv_body_def Let_def io_fail_def io_ret_def newFrame_def cmd_defs elim!: io_bind_InrE
        split: if_splits dest!: read_full_InrD)
qed

text \<open>What a received frame does to the view: nothing, a new stream, or bytes at the end of a stream.\<close>

definition pushed_view :: "nat \<Rightarrow> bytes \<Rightarrow> cview \<Rightarrow> cview" where
  "pushed_view a b v =
     v\<lparr>cv_bufs := (cv_bufs v)[a := cv_bufs v ! a @ [b]], cv_heads := (cv_heads v)[a := cv_heads v ! a + 1],
       cv_bucket := cv_bucket v - of_nat (length b)\<rparr>"

lemma recv_handle_cases:
  assumes h: "recv_handle sel f s = Some s'" and d: "\<not> ss_die s"
    and reg: "\<forall>sid a. ss_streams s sid = Some a \<longrightarrow> a < length (ss_objs s)"
  obtains (still) "still s s'" "payload_for f s = (\<lambda>_. [])"
  | (syn) "f_cmd f = cmdSYN" "ss_streams s (f_sid f) = None" "view s' = registered (f_sid f) (view s)"
      "ss_bucketNotify s' = ss_bucketNotify s" "payload_for f s = (\<lambda>_. [])"
  | (psh) a where "f_cmd f = cmdPSH" "ss_streams s (f_sid f) = Some a" "a < length (ss_objs s)"
      "view s' = pushed_view a (f_data f) (view s)"
      "ss_bucketNotify s' = ss_bucketNotify s" "payload_for f s = (\<lambda>_. [])(a := f_data f)"
proof -
  consider "f_cmd f = cmdSYN" "ss_streams s (f_sid f) = None"
    | a where "f_cmd f = cmdPSH" "f_data f \<noteq> []" "ss_streams s (f_sid f) = Some a"
    | "f_cmd f = cmdSYN \<longrightarrow> ss_streams s (f_sid f) \<noteq> None"
      "f_cmd f = cmdPSH \<and> f_data f \<noteq> [] \<longrightarrow> ss_streams s (f_sid f) = None"
    by (cases "ss_streams s (f_sid f)") auto
  then show thesis
  proof cases
    case 1
    then have "view s' = registered (f_sid f) (view s)" "ss_bucketNotify s' = ss_bucketNotify s"
      using h d by (auto simp: recv_handle_def view_def registered_def newStream_def Let_def split: if_splits)
    then show thesis using syn 1 by (simp add: payload_for_def cmd_defs fun_eq_iff)
  next
    case (2 a)
    have a: "a < length (ss_objs s)" using reg 2 by blast
    then have "view s' = pushed_view a (f_data f) (view s)" "ss_bucketNotify s' = ss_bucketNotify s"
      using h 2 by (auto simp: recv_handle_def cmd_defs view_def pushed_view_def on_obj_def pushBytes_def
          notifyReadEvent_def Let_def map_update)
    moreover have "payload_for f s = (\<lambda>_. [])(a := f_data f)" using 2 by (auto simp: payload_for_def)
    ultimately show thesis using psh 2 a by blast
  next
    case 3
    then have "still s s'"
      using h by (auto simp: recv_handle_def Let_def fin_def notifyReadEvent_def st_update_window_def
          intro!: still_on_obj split: if_splits option.splits)
    moreover have "payload_for f s = (\<lambda>_. [])" using 3 by (auto simp: payload_for_def fun_eq_iff)
    ultimately show thesis using still by blast
  qed
qed

lemma inv_recv:
  assumes m: "cf_MaxReceiveBuffer config < 2 ^ 31" and i: "smux_inv config client y" and r: "sy_recv y = RRead"
    and t: "recv_turn sel (sy_sess y) (sy_in y) = Some (Inr s', c')"
    and f: "recv_frame (config_version (sy_sess y)) (sy_in y) = (Inr f, c')"
    and par: "f_cmd f = cmdSYN \<longrightarrow> bit (f_sid f) 0 \<noteq> client"
  shows "smux_inv config client (y\<lparr>sy_sess := s', sy_in := c', sy_recv := RCheck,
         sy_pushed := \<lambda>a. sy_pushed y a @ payload_for f (sy_sess y) a\<rparr>)" (is "smux_inv _ _ ?y'")
proof -
  define s1 where "s1 = (if headerSize \<le> length (rd (sy_in y)) then (sy_sess y)\<lparr>ss_dataReady := True\<rparr> else sy_sess y)"
  have h: "recv_handle sel f s1 = Some s'" using t f by (auto simp: recv_turn_def s1_def Let_def split: option.splits)
  have s1: "still (sy_sess y) s1" by (simp add: s1_def still_def view_def)
  have p: "payload_for f s1 = payload_for f (sy_sess y)" by (simp add: s1_def payload_for_def fun_eq_iff)
  show ?thesis
  proof (cases "ss_die (sy_sess y)")
    case True
    then have "ss_die s1" using s1 stillD by simp
    then have "ss_die s' \<and> ss_config s' = ss_config s1" using h
      by (auto simp: recv_handle_def Let_def on_obj_def split: if_splits option.splits)
    then show ?thesis using smux_inv_config [OF i] stillD [OF s1] by (intro inv_closed) simp_all
  next
    case False
    note I = smux_invD [OF i False]
    have d: "\<not> ss_die s1" and v1: "view s1 = view (sy_sess y)" using False stillD [OF s1] by simp_all
    have reg: "\<forall>sid a. ss_streams s1 sid = Some a \<longrightarrow> a < length (ss_objs s1)"
      using I(3) v1 view_simps(4,7) by (metis reg_inv_def)
    show ?thesis
    proof (cases rule: recv_handle_cases [OF h d reg, case_names still syn psh])
      case still
      then have "view s' = view (sy_sess y)" "ss_bucketNotify s' = ss_bucketNotify (sy_sess y)"
        "ss_config s' = ss_config (sy_sess y)" "payload_for f (sy_sess y) = (\<lambda>_. [])"
        using stillD [OF still_trans [OF s1 still(1)]] p by simp_all
      then show ?thesis using I smux_inv_config [OF i] by (intro smux_invI) (auto simp: wake_inv_def)
    next
      case syn
      have ids: "id_inv client (view s') (sy_opening y)"
        using I(4) syn(1) par unfolding syn(3) v1 by (auto simp: id_inv_def registered_def)
      have s': "view s' = registered (f_sid f) (view (sy_sess y))" using syn(3) v1 by simp
      have n: "ss_bucketNotify s' = ss_bucketNotify (sy_sess y)" using syn(4) stillD [OF s1] by simp
      have free: "ss_streams (sy_sess y) (f_sid f) = None" using syn(2) v1 by (metis view_simps(4))
      have "payload_for f (sy_sess y) = (\<lambda>_. [])" using syn(5) p by simp
      then show ?thesis using ids by (intro inv_registered [OF i s' n free]) simp_all
    next
      case (psh a)
      let ?b = "f_data f" and ?v = "view (sy_sess y)"
      have a: "a < length (ss_objs (sy_sess y))" using psh(3) v1 by (metis view_simps(7))
      have len: "length ?b < 2 ^ 16" using recv_frame_data [OF f psh(1)] .
      have pos: "sint (ss_bucket (sy_sess y)) > 0" using I(2) r by (simp add: wake_inv_def)
      have sint: "sint (ss_bucket (sy_sess y) - of_nat (length ?b)) = sint (ss_bucket (sy_sess y)) - int (length ?b)"
        using sint_add_word [of "ss_bucket (sy_sess y)" "- int (length ?b)"] pos len
          sint_range_size [of "ss_bucket (sy_sess y)"] by (simp add: word_size)
      have tot: "total (cv_bufs (pushed_view a ?b ?v)) = total (cv_bufs ?v) + length ?b"
        using total_update [of a "cv_bufs ?v" "cv_bufs ?v ! a @ [?b]"] a by (simp add: pushed_view_def)
      note v' = psh(4) [unfolded v1]
      have pl: "payload_for f (sy_sess y) = (\<lambda>k. if k = a then ?b else [])"
        unfolding p [symmetric] psh(6) by (simp add: fun_eq_iff)
      have "ss_streams (sy_sess y) (f_sid f) = Some a" using psh(2) v1 by (metis view_simps(4))
      then have nc: "a \<notin> sy_cut y" using I(3) by (auto simp: reg_inv_def)
      show ?thesis
      proof (rule smux_invI; simp add: v' pl)
        show "ss_config s' = config" using view_eqD(1) [OF v'] smux_inv_config [OF i] by (simp add: pushed_view_def)
        show "tok_inv config (pushed_view a ?b ?v) (sy_owed y)"
          using I(1) tot sint pos len by (simp add: tok_inv_def pushed_view_def)
        show "wake_inv (pushed_view a ?b ?v) (ss_bucketNotify s') RCheck" by (simp add: wake_inv_def)
        show "reg_inv (pushed_view a ?b ?v) (sy_closing y) (sy_cut y)" using I(3) by (simp add: reg_inv_def pushed_view_def)
        show "id_inv client (pushed_view a ?b ?v) (sy_opening y)" using I(4) by (simp add: id_inv_def pushed_view_def)
        show "byte_inv (pushed_view a ?b ?v) (\<lambda>k. sy_pushed y k @ (if k = a then ?b else [])) (sy_got y) (sy_cut y)"
          using I(5) nc a by (auto simp: byte_inv_def pushed_view_def nth_list_update)
      qed
    qed
  qed
qed

lemma next_id:
  assumes "sid = w + (2 :: u32)" "sid \<noteq> sid mod 2"
  shows "w < sid" "bit sid 0 = bit w 0"
proof -
  have "unat (sid mod 2) = unat sid mod 2" by (simp add: unat_mod)
  then have "2 \<le> unat sid" using assms(2) by (metis mod_less not_le word_unat_eq_iff)
  moreover have "unat sid = (unat w + 2) mod 2 ^ 32" unfolding assms(1) by (simp add: unat_word_ariths)
  moreover have "unat w < 2 ^ 32" using unsigned_less [of w] by simp
  ultimately have "unat sid = unat w + 2"
    by (cases "unat w + 2 < 2 ^ 32") (simp_all add: mod_if split: if_splits)
  then show "w < sid" by (simp add: word_less_nat_alt)
  show "bit sid 0 = bit w 0" unfolding assms(1) by (simp add: bit_0)
qed

lemma id_inv_fresh:
  assumes i: "id_inv client v opening" and g: "\<not> cv_goAway v" and s: "sid = cv_next v + 2" "sid \<noteq> sid mod 2"
  shows "id_inv client (v\<lparr>cv_next := sid\<rparr>) (sid # opening)"
proof -
  note n = next_id [OF s]
  have b: "bit (cv_next v) 0 = client"
    and le: "\<And>x. x \<in> set opening \<union> set (cv_ids v) \<Longrightarrow> bit x 0 = client \<Longrightarrow> x \<le> cv_next v"
    using i g by (auto simp: id_inv_def)
  have fresh: "sid \<notin> set opening \<union> set (cv_ids v)" using le [of sid] n b by force
  have "\<And>x. x \<in> set opening \<union> set (cv_ids v) \<Longrightarrow> bit x 0 = client \<Longrightarrow> x \<le> sid" using le n(1) by fastforce
  then show ?thesis using i fresh n b by (auto simp: id_inv_def)
qed

lemma inv_same_view:
  assumes i: "smux_inv config client y" and v: "view (sy_sess y') = (view (sy_sess y))\<lparr>cv_next := w, cv_goAway := g\<rparr>"
    and n: "ss_bucketNotify (sy_sess y') = ss_bucketNotify (sy_sess y)"
    and y': "sy_recv y' = sy_recv y" "sy_owed y' = sy_owed y" "sy_closing y' = sy_closing y" "sy_cut y' = sy_cut y"
      "sy_pushed y' = sy_pushed y" "sy_got y' = sy_got y"
    and ids: "\<not> ss_die (sy_sess y) \<Longrightarrow> id_inv client (view (sy_sess y')) (sy_opening y')"
  shows "smux_inv config client y'"
proof (rule smux_invI)
  show "ss_config (sy_sess y') = config" using view_eqD(1) [OF v] smux_inv_config [OF i] by simp
  assume "\<not> ss_die (sy_sess y')"
  then have d: "\<not> ss_die (sy_sess y)" using view_eqD(2) [OF v] by simp
  note I = smux_invD [OF i d]
  show "tok_inv config (view (sy_sess y')) (sy_owed y')" using I(1) by (simp add: v y' tok_inv_def)
  show "wake_inv (view (sy_sess y')) (ss_bucketNotify (sy_sess y')) (sy_recv y')" using I(2) by (simp add: v n y' wake_inv_def)
  show "reg_inv (view (sy_sess y')) (sy_closing y') (sy_cut y')" using I(3) by (simp add: v y' reg_inv_def)
  show "id_inv client (view (sy_sess y')) (sy_opening y')" using ids d .
  show "byte_inv (view (sy_sess y')) (sy_pushed y') (sy_got y') (sy_cut y')" using I(5) by (simp add: v y' byte_inv_def)
qed

lemma inv_open_sid:
  assumes i: "smux_inv config client y" and o: "open_id (sy_sess y) = (Inr sid, s')"
  shows "smux_inv config client (y\<lparr>sy_sess := s', sy_opening := sid # sy_opening y\<rparr>)"
proof -
  have o': "\<not> ss_goAway (sy_sess y)" "sid = ss_nextStreamID (sy_sess y) + 2" "sid \<noteq> sid mod 2"
    "s' = (sy_sess y)\<lparr>ss_nextStreamID := sid\<rparr>"
    using o by (auto simp: open_id_def Let_def split: if_splits)
  then have v: "view s' = (view (sy_sess y))\<lparr>cv_next := sid, cv_goAway := False\<rparr>" by (simp add: view_def)
  have "id_inv client (view s') (sid # sy_opening y)" if "\<not> ss_die (sy_sess y)"
    using id_inv_fresh [OF smux_invD(4) [OF i that], of sid] o' by (simp add: view_def)
  then show ?thesis using v o'(4) by (intro inv_same_view [OF i]) simp_all
qed

lemma inv_open_away:
  assumes i: "smux_inv config client y" and o: "open_id (sy_sess y) = (Inl e, s')"
  shows "smux_inv config client (y\<lparr>sy_sess := s'\<rparr>)"
proof -
  obtain w where v: "view s' = (view (sy_sess y))\<lparr>cv_next := w, cv_goAway := True\<rparr>"
    and n: "ss_bucketNotify s' = ss_bucketNotify (sy_sess y)"
    using o by (auto simp: open_id_def Let_def view_def split: if_splits)
  have "id_inv client (view s') (sy_opening y)" if "\<not> ss_die (sy_sess y)"
    using smux_invD(4) [OF i that] by (simp add: v id_inv_def)
  then show ?thesis using v n by (intro inv_same_view [OF i]) simp_all
qed

lemma id_inv_remove1: "id_inv client v opening \<Longrightarrow> id_inv client v (remove1 sid opening)"
  by (auto simp: id_inv_def dest: notin_set_remove1 set_remove1_subset [THEN subsetD])

lemma inv_remove1: "smux_inv config client y \<Longrightarrow> smux_inv config client (y\<lparr>sy_opening := remove1 sid (sy_opening y)\<rparr>)"
  by (auto simp: smux_inv_def Let_def id_inv_remove1)

lemma inv_open_done:
  assumes i: "smux_inv config client y" and o: "sid \<in> set (sy_opening y)" "open_register sid (sy_sess y) = (r, s')"
  shows "smux_inv config client (y\<lparr>sy_sess := s', sy_opening := remove1 sid (sy_opening y)\<rparr>)"
proof (cases "s' = sy_sess y")
  case True
  then show ?thesis using inv_remove1 [OF i] by simp
next
  case False
  then have d: "\<not> ss_die (sy_sess y)" and v: "view s' = registered sid (view (sy_sess y))"
    and n: "ss_bucketNotify s' = ss_bucketNotify (sy_sess y)"
    using o(2) by (auto simp: open_register_def Let_def view_def registered_def newStream_def split: option.splits if_splits)
  note I = smux_invD [OF i d]
  have sid: "sid \<notin> set (cv_ids (view (sy_sess y)))" using I(4) o(1) by (simp add: id_inv_def)
  then have "ss_streams (sy_sess y) sid = None"
    using I(3) by (cases "ss_streams (sy_sess y) sid") (auto simp: reg_inv_def, metis nth_mem view_simps(7))
  moreover have "id_inv client (view s') (remove1 sid (sy_opening y))"
    using I(4) o(1) unfolding v id_inv_def registered_def by auto
  ultimately show ?thesis using v n by (intro inv_registered [OF i v n]) simp_all
qed

lemma reg_invD:
  assumes "reg_inv v closing gone"
  shows "cv_streams v sid = Some a \<Longrightarrow> a < length (cv_ids v) \<and> cv_ids v ! a = sid"
    and "a < length (cv_ids v) \<Longrightarrow> \<not> cv_die v ! a \<Longrightarrow> cv_streams v (cv_ids v ! a) = Some a"
    and "distinct closing" and "sid \<in> set closing \<Longrightarrow> \<exists>a. cv_streams v sid = Some a \<and> cv_die v ! a"
    and "a \<in> gone \<Longrightarrow> a < length (cv_ids v) \<and> cv_die v ! a \<and> cv_streams v (cv_ids v ! a) \<noteq> Some a"
  using assms unfolding reg_inv_def by blast+

lemma reg_invI:
  assumes "\<And>sid a. cv_streams v sid = Some a \<Longrightarrow> a < length (cv_ids v) \<and> cv_ids v ! a = sid"
    and "\<And>a. a < length (cv_ids v) \<Longrightarrow> \<not> cv_die v ! a \<Longrightarrow> cv_streams v (cv_ids v ! a) = Some a"
    and "distinct closing" and "\<And>sid. sid \<in> set closing \<Longrightarrow> \<exists>a. cv_streams v sid = Some a \<and> cv_die v ! a"
    and "\<And>a. a \<in> gone \<Longrightarrow> a < length (cv_ids v) \<and> cv_die v ! a \<and> cv_streams v (cv_ids v ! a) \<noteq> Some a"
  shows "reg_inv v closing gone"
  using assms unfolding reg_inv_def by blast

lemma reg_inv_close:
  assumes r: "reg_inv v closing gone" and a: "cv_streams v (cv_ids v ! a) = Some a"
    and n: "\<not> cv_die v ! a" "a < length (cv_die v)" "length (cv_die v) = length (cv_ids v)"
  shows "reg_inv (v\<lparr>cv_die := (cv_die v)[a := True]\<rparr>) (cv_ids v ! a # closing) gone"
proof -
  note R = reg_invD [OF r]
  have dead: "cv_die v ! k \<Longrightarrow> (cv_die v)[a := True] ! k" for k using n(2) by (cases "k = a") simp_all
  have now: "(cv_die v)[a := True] ! a" using n(2) by simp
  have "cv_ids v ! a \<notin> set closing" using R(4) [of "cv_ids v ! a"] a n(1) by auto
  then show ?thesis
  proof (intro reg_invI, goal_cases)
    case (1 sid k)
    then show ?case using R(1) [of sid k] by simp
  next
    case (2 k)
    then show ?case using R(2) [of k] dead [of k] by auto
  next
    case 3
    then show ?case using R(3) by simp
  next
    case (4 sid)
    then show ?case using R(4) [of sid] a now dead by auto
  next
    case (5 k)
    then show ?case using R(5) [of k] dead [of k] by simp
  qed
qed

lemma inv_close_begin:
  assumes i: "smux_inv config client y" and a: "a < length (ss_objs (sy_sess y))"
    and live: "\<not> st_die (ss_objs (sy_sess y) ! a)"
    and w: "still (on_obj a (\<lambda>st. st\<lparr>st_die := True\<rparr>) (sy_sess y)) s'"
  shows "smux_inv config client (y\<lparr>sy_sess := s', sy_closing := st_id (ss_objs (sy_sess y) ! a) # sy_closing y\<rparr>)"
proof -
  let ?v = "view (sy_sess y)"
  have v: "view s' = ?v\<lparr>cv_die := (cv_die ?v)[a := True]\<rparr>" and n: "ss_bucketNotify s' = ss_bucketNotify (sy_sess y)"
    using stillD [OF w] by (simp_all add: view_def on_obj_def map_update)
  have id: "st_id (ss_objs (sy_sess y) ! a) = cv_ids ?v ! a" "\<not> cv_die ?v ! a" using a live by (simp_all add: view_def)
  show ?thesis
  proof (rule smux_invI; simp add: v n id)
    show "ss_config s' = config" using view_eqD(1) [OF v] smux_inv_config [OF i] by simp
    assume "\<not> ss_die s'"
    then have d: "\<not> ss_die (sy_sess y)" using view_eqD(2) [OF v] by simp
    note I = smux_invD [OF i d]
    show "tok_inv config (?v\<lparr>cv_die := (cv_die ?v)[a := True]\<rparr>) (sy_owed y)" using I(1) by (simp add: tok_inv_def)
    show "wake_inv (?v\<lparr>cv_die := (cv_die ?v)[a := True]\<rparr>) (ss_bucketNotify (sy_sess y)) (sy_recv y)"
      using I(2) by (simp add: wake_inv_def)
    have "cv_streams ?v (cv_ids ?v ! a) = Some a" using reg_invD(2) [OF I(3)] a id(2) by simp
    then show "reg_inv (?v\<lparr>cv_die := (cv_die ?v)[a := True]\<rparr>) (cv_ids ?v ! a # sy_closing y) (sy_cut y)"
      using reg_inv_close [OF I(3)] id(2) a by simp
    show "id_inv client (?v\<lparr>cv_die := (cv_die ?v)[a := True]\<rparr>) (sy_opening y)" using I(4) by (simp add: id_inv_def)
    show "byte_inv (?v\<lparr>cv_die := (cv_die ?v)[a := True]\<rparr>) (sy_pushed y) (sy_got y) (sy_cut y)"
      using I(5) by (simp add: byte_inv_def)
  qed
qed

definition closed_view :: "u32 \<Rightarrow> nat \<Rightarrow> cview \<Rightarrow> cview" where
  "closed_view sid a v =
     v\<lparr>cv_bufs := (cv_bufs v)[a := []], cv_heads := (cv_heads v)[a := 0],
       cv_bucket := cv_bucket v + of_nat (length (concat (cv_bufs v ! a))), cv_streams := (cv_streams v)(sid := None)\<rparr>"

lemma streamClosed_view:
  assumes "ss_streams s sid = Some a" "a < length (ss_objs s)"
  shows "view (streamClosed sid s) = closed_view sid a (view s)"
    and "ss_bucketNotify s \<longrightarrow> ss_bucketNotify (streamClosed sid s)"
    and "length (concat (cv_bufs (view s) ! a)) > 0 \<Longrightarrow> sint (ss_bucket (streamClosed sid s)) > 0 \<Longrightarrow>
      ss_bucketNotify (streamClosed sid s)"
proof -
  define n where "n = sum_list (map length (st_buffers (ss_objs s ! a)))"
  have s': "streamClosed sid s =
      (let s1 = on_obj a (\<lambda>st. st\<lparr>st_buffers := [], st_heads := []\<rparr>) s; s2 = (if n > 0 then returnTokens n s1 else s1)
       in s2\<lparr>ss_streams := (ss_streams s2)(sid := None)\<rparr>)"
    unfolding n_def using assms by (simp add: streamClosed_def recycleTokens_def on_obj_def)
  note d = on_obj_def returnTokens_def notifyBucket_def view_def closed_view_def Let_def map_update length_concat
  show "view (streamClosed sid s) = closed_view sid a (view s)"
    using assms by (cases "n = 0") (simp_all add: s' d flip: n_def)
  show "ss_bucketNotify s \<longrightarrow> ss_bucketNotify (streamClosed sid s)"
    by (cases "n = 0") (simp_all add: s' d)
  show "ss_bucketNotify (streamClosed sid s)"
    if "length (concat (cv_bufs (view s) ! a)) > 0" "sint (ss_bucket (streamClosed sid s)) > 0"
    using that assms by (simp add: s' d split: if_splits flip: n_def)
qed

lemma reg_inv_closed:
  assumes r: "reg_inv v closing gone" and a: "cv_streams v sid = Some a" "cv_die v ! a"
  shows "reg_inv (closed_view sid a v) (remove1 sid closing) (gone \<union> {a})"
proof -
  note R = reg_invD [OF r]
  have al: "a < length (cv_ids v)" "cv_ids v ! a = sid" using R(1) [OF a(1)] by simp_all
  show ?thesis
  proof (rule reg_invI, goal_cases)
    case (1 x k)
    then show ?case using R(1) [of x k] by (simp add: closed_view_def split: if_splits)
  next
    case (2 k)
    then show ?case using R(2) [of k] a by (auto simp: closed_view_def)
  next
    case 3
    then show ?case using R(3) by simp
  next
    case (4 x)
    then have "x \<in> set closing" "x \<noteq> sid" using R(3) by (auto simp: set_remove1_eq)
    then show ?case using R(4) [of x] by (simp add: closed_view_def)
  next
    case (5 k)
    then show ?case using R(5) [of k] a al by (auto simp: closed_view_def)
  qed
qed

lemma inv_close_end:
  assumes m: "cf_MaxReceiveBuffer config < 2 ^ 31" and i: "smux_inv config client y" and sid: "sid \<in> set (sy_closing y)"
  shows "smux_inv config client
      (y\<lparr>sy_sess := streamClosed sid (sy_sess y), sy_closing := remove1 sid (sy_closing y),
         sy_cut := sy_cut y \<union> {a. ss_streams (sy_sess y) sid = Some a}\<rparr>)"
proof (cases "ss_die (sy_sess y)")
  case True
  then have "ss_die (streamClosed sid (sy_sess y)) \<and> ss_config (streamClosed sid (sy_sess y)) = ss_config (sy_sess y)"
    by (simp add: streamClosed_def on_obj_def returnTokens_view Let_def split: option.splits prod.splits)
  then show ?thesis using smux_inv_config [OF i] by (intro inv_closed) simp_all
next
  case False
  let ?v = "view (sy_sess y)"
  note I = smux_invD [OF i False]
  obtain a where a: "ss_streams (sy_sess y) sid = Some a" "cv_die ?v ! a" using I(3) sid by (auto simp: reg_inv_def)
  have al: "a < length (ss_objs (sy_sess y))" "cv_ids ?v ! a = sid" using I(3) a by (auto simp: reg_inv_def)
  note s' = streamClosed_view [OF a(1) al(1)]
  let ?n = "length (concat (cv_bufs ?v ! a))"
  have tot: "total (cv_bufs (closed_view sid a ?v)) + ?n = total (cv_bufs ?v)"
    using total_update [of a "cv_bufs ?v" "[]"] al by (simp add: closed_view_def)
  have sint: "sint (ss_bucket (sy_sess y) + of_nat ?n) = sint (ss_bucket (sy_sess y)) + int ?n"
    using sint_give_back [OF m I(1), of ?n] tot by simp
  have cut: "{a. ss_streams (sy_sess y) sid = Some a} = {a}" using a by auto
  have nc: "a \<notin> sy_cut y" using I(3) a al by (auto simp: reg_inv_def)
  show ?thesis
  proof (rule smux_invI; simp add: s'(1) cut del: Un_insert_right)
    show "ss_config (streamClosed sid (sy_sess y)) = config"
      using view_eqD(1) [OF s'(1)] smux_inv_config [OF i] by (simp add: closed_view_def)
    show "tok_inv config (closed_view sid a ?v) (sy_owed y)"
      using I(1) tot sint by (simp add: tok_inv_def closed_view_def)
    show "wake_inv (closed_view sid a ?v) (ss_bucketNotify (streamClosed sid (sy_sess y))) (sy_recv y)"
      unfolding wake_inv_def
    proof (intro conjI impI)
      have b: "sint (cv_bucket (closed_view sid a ?v)) = sint (ss_bucket (sy_sess y)) + int ?n"
        using sint by (simp add: closed_view_def)
      show "0 < sint (cv_bucket (closed_view sid a ?v))" if "sy_recv y = RRead"
        unfolding b using I(2) that by (simp add: wake_inv_def)
      assume w: "sy_recv y = RWait \<and> 0 < sint (cv_bucket (closed_view sid a ?v))"
      show "ss_bucketNotify (streamClosed sid (sy_sess y))"
      proof (cases "0 < ?n")
        case True
        then show ?thesis using s'(3) w view_eqD(3) [OF s'(1)] by simp
      next
        case False
        then have "0 < sint (ss_bucket (sy_sess y))" using w b by linarith
        then show ?thesis using s'(2) w I(2) by (simp add: wake_inv_def)
      qed
    qed
    show "reg_inv (closed_view sid a ?v) (remove1 sid (sy_closing y)) (sy_cut y \<union> {a})"
      using reg_inv_closed [OF I(3)] a al by simp
    show "id_inv client (closed_view sid a ?v) (sy_opening y)" using I(4) by (simp add: id_inv_def closed_view_def)
    show "byte_inv (closed_view sid a ?v) (sy_pushed y) (sy_got y) (sy_cut y \<union> {a})"
      using I(5) nc al by (auto simp: byte_inv_def closed_view_def nth_list_update)
  qed
qed

lemma inv_view:
  assumes i: "smux_inv config client y" and v: "view s' = view (sy_sess y)"
    and n: "ss_bucketNotify (sy_sess y) \<and> r' = RWait \<longrightarrow> ss_bucketNotify s'"
    and r: "r' = sy_recv y \<or> r' = RCheck \<or> r' = RStop"
  shows "smux_inv config client (y\<lparr>sy_sess := s', sy_in := c', sy_recv := r'\<rparr>)"
proof (rule smux_invI; simp add: v)
  show "ss_config s' = config" using view_eqD(1) [OF v] smux_inv_config [OF i] by simp
qed (use view_eqD(2) [OF v] smux_invD [OF i] n r in \<open>auto simp: wake_inv_def\<close>)

lemma inv_check:
  "smux_inv config client y \<Longrightarrow> smux_inv config client
     (y\<lparr>sy_recv := if sint (ss_bucket (sy_sess y)) \<le> 0 \<and> \<not> ss_die (sy_sess y) then RWait else RRead\<rparr>)"
  by (auto simp: smux_inv_def Let_def wake_inv_def)

lemma inv_timeout: "smux_inv config client y \<Longrightarrow> smux_inv config client (y\<lparr>sy_sess := keepalive_timeout (sy_sess y)\<rparr>)"
proof -
  assume i: "smux_inv config client y"
  show ?thesis
  proof (cases "ss_dataReady (sy_sess y) \<or> sint (ss_bucket (sy_sess y)) \<le> 0 \<or> ss_die (sy_sess y)")
    case True
    then have "still (sy_sess y) (keepalive_timeout (sy_sess y))"
      by (auto simp: keepalive_timeout_def session_Close_def still_def view_def)
    then show ?thesis by (rule inv_still [OF i])
  next
    case False
    then show ?thesis using smux_inv_config [OF i]
      by (intro inv_closed) (simp_all add: keepalive_timeout_def session_Close_def)
  qed
qed

lemma inv_session_Close: "smux_inv config client y \<Longrightarrow> smux_inv config client (y\<lparr>sy_sess := snd (session_Close (sy_sess y))\<rparr>)"
  by (rule inv_closed) (auto simp: session_Close_def smux_inv_config)

lemma recv_turn_stop: "recv_turn sel s c = Some (Inl s', c') \<Longrightarrow> still s s'"
  by (auto simp: recv_turn_def still_def view_def notifyReadError_def notifyProtoError_def Let_def
      split: prod.splits sum.splits option.splits if_splits)

lemma smux_inv_step:
  assumes m: "cf_MaxReceiveBuffer config < 2 ^ 31" and st: "smux_step client y y'" and i: "smux_inv config client y"
  shows "smux_inv config client y'"
  using st i
proof cases
  case check
  then show ?thesis using inv_check [OF i] by simp
next
  case wake
  then show ?thesis
    using inv_view [OF i, of "(sy_sess y)\<lparr>ss_bucketNotify := False\<rparr>" RCheck "sy_in y"] by (simp add: view_def)
next
  case wake_die
  then show ?thesis using inv_view [OF i, of "sy_sess y" RStop "sy_in y"] by simp
next
  case (recv sel s' c' f)
  then show ?thesis using inv_recv [OF m i] by simp
next
  case (recv_stop sel s' c')
  then show ?thesis using inv_view [OF i, of s' RStop c'] stillD [OF recv_turn_stop [OF recv_stop(3)]] by simp
next
  case (read a n b q s')
  then show ?thesis using inv_consume [OF i] read_section_consume by simp
next
  case (write_to a b q s')
  then show ?thesis using inv_consume [OF i] writeTo_section_consume by simp
next
  case (return_tokens n)
  then show ?thesis using inv_return [OF m i] by simp
next
  case (open_syn sid out n e s')
  then have "still (sy_sess y) s'" by (simp add: writeControlFrame_def still_writeFrameInternal)
  then show ?thesis using open_syn(1) inv_still [OF i] inv_remove1 [OF inv_still [OF i]] by simp
next
  case (close_begin a s1 v out n e s')
  then show ?thesis using inv_close_begin [OF i] still_writeFrameInternal by simp
next
  case (ping out)
  have "still (sy_sess y) (snd (writeFrameInternal f cls out (sy_sess y)))" for f cls
    by (rule still_writeFrameInternal [OF prod.collapse [symmetric]])
  then show ?thesis
    using ping inv_view [OF i, of "keepalive_ping out (sy_sess y)" "sy_recv y" "sy_in y"]
    by (simp add: keepalive_ping_def notifyBucket_def still_def view_def)
next
  case (broken e)
  then show ?thesis using inv_still [OF i, of "notifyWriteError e (sy_sess y)"]
    by (simp add: still_def view_def notifyWriteError_def)
qed (use m i in \<open>simp_all add: inv_still still_waitRead still_sendWindowUpdate still_smux_Write still_round still_write_wait
      still_AcceptStream writeTo_section_None inv_open_sid inv_open_away inv_open_done inv_close_end inv_session_Close
      inv_timeout\<close>)

lemma smux_inv_reach:
  assumes "smux_reach config client y" "VerifyConfig config = None" "cf_MaxReceiveBuffer config < 2 ^ 31"
  shows "smux_inv config client y"
  using assms(1)
proof induction
  case (init input)
  have M: "0 < cf_MaxReceiveBuffer config" using assms(2) by (simp add: VerifyConfig_def split: if_splits)
  then have "sint (word_of_int (cf_MaxReceiveBuffer config) :: i32) = cf_MaxReceiveBuffer config"
    using sint_add_word [of 0 "cf_MaxReceiveBuffer config"] assms(3) by simp
  then show ?case
    using M by (simp add: smux_inv_def smux_start_def newSession_def view_def tok_inv_def total_def wake_inv_def
        reg_inv_def id_inv_def byte_inv_def bit_0)
next
  case (step y y')
  then show ?case using smux_inv_step assms(3) by blast
qed

section \<open>Properties\<close>

definition buffered :: "smux_session \<Rightarrow> nat" where
  "buffered s = sum_list (map (\<lambda>st. length (concat (st_buffers st))) (ss_objs s))"

lemma total_view: "total (cv_bufs (view s)) = buffered s"
  by (simp add: total_def view_def buffered_def comp_def)

lemma smux_reach_open: "smux_reach config client y \<Longrightarrow> VerifyConfig config = None \<Longrightarrow> 0 < cf_MaxReceiveBuffer config"
  by (simp add: VerifyConfig_def split: if_splits)

lemma recv_step:
  assumes "sy_recv y = RRead" "rd (sy_in y) = smux_frame_bytes f @ rest" "frame_ok (config_version (sy_sess y)) f"
    and "recv_handle sel f ((sy_sess y)\<lparr>ss_dataReady := True\<rparr>) = Some s'" "f_cmd f = cmdSYN \<longrightarrow> bit (f_sid f) 0 \<noteq> client"
  shows "smux_step client y (y\<lparr>sy_sess := s', sy_in := (sy_in y)\<lparr>rd := rest\<rparr>, sy_recv := RCheck,
         sy_pushed := \<lambda>a. sy_pushed y a @ payload_for f (sy_sess y) a\<rparr>)"
proof -
  have r: "recv_frame (config_version (sy_sess y)) (sy_in y) = (Inr f, (sy_in y)\<lparr>rd := rest\<rparr>)"
    using recv_frame_bytes [OF assms(3,2)] .
  have "headerSize \<le> length (rd (sy_in y))"
    using assms(2) by (simp add: headerSize_def smux_frame_bytes_def le_put16_def le_put32_def)
  then have "recv_turn sel (sy_sess y) (sy_in y) = Some (Inr s', (sy_in y)\<lparr>rd := rest\<rparr>)"
    using r assms(4) by (simp add: recv_turn_def)
  then show ?thesis using smux_step.recv [OF assms(1) _ r assms(5)] by blast
qed

text \<open>An example: the peer opens stream 3 and sends three bytes, of which two are read.\<close>

lemma smux_example:
  "\<exists>y. smux_reach DefaultConfig False y \<and> \<not> ss_die (sy_sess y) \<and> length (ss_objs (sy_sess y)) = 1 \<and>
     \<not> st_die (ss_objs (sy_sess y) ! 0) \<and> sy_got y 0 = [7, 8] \<and> st_buffers (ss_objs (sy_sess y) ! 0) = [[9]] \<and>
     buffered (sy_sess y) = 1 \<and> sy_owed y = [2] \<and> sy_recv y = RCheck"
proof -
  define f1 where "f1 = newFrame 1 cmdSYN 3"
  define f2 where "f2 = (newFrame 1 cmdPSH 3)\<lparr>f_data := [7, 8, 9]\<rparr>"
  note e = f1_def f2_def newFrame_def cmd_defs smux_start_def newSession_def DefaultConfig_def config_version_def
    frame_ok_def recv_handle_def defaultAcceptBacklog_def open_conn_def newStream_def on_obj_def pushBytes_def
    notifyReadEvent_def buffered_def read_section_def copy_front_def
  define y0 where "y0 = smux_start DefaultConfig False (smux_frame_bytes f1 @ smux_frame_bytes f2)"
  have r0: "smux_reach DefaultConfig False y0" unfolding y0_def by (rule smux_reach.init)
  define y1 where "y1 = y0\<lparr>sy_recv := RRead\<rparr>"
  have "smux_step False y0 y1"
    using smux_step.check [of y0 False] by (simp add: y0_def y1_def e)
  then have r1: "smux_reach DefaultConfig False y1" by (rule smux_reach.step [OF r0])
  obtain s2 where h2: "recv_handle True f1 ((sy_sess y1)\<lparr>ss_dataReady := True\<rparr>) = Some s2"
    and s2: "ss_objs s2 = [newStream 3 32768]" "ss_streams s2 = [3 \<mapsto> 0]" "ss_config s2 = DefaultConfig" "\<not> ss_die s2"
      "ss_bucket s2 = 4194304"
    by (simp add: y0_def y1_def e frame_size_def)
  define y2 where "y2 = y1\<lparr>sy_sess := s2, sy_in := (sy_in y1)\<lparr>rd := smux_frame_bytes f2\<rparr>, sy_recv := RCheck,
         sy_pushed := \<lambda>a. sy_pushed y1 a @ payload_for f1 (sy_sess y1) a\<rparr>"
  have "smux_step False y1 y2"
    unfolding y2_def by (rule recv_step [OF _ _ _ h2]) (simp_all add: y0_def y1_def e)
  then have r2: "smux_reach DefaultConfig False y2" by (rule smux_reach.step [OF r1])
  define y3 where "y3 = y2\<lparr>sy_recv := RRead\<rparr>"
  have "smux_step False y2 y3"
    using smux_step.check [of y2 False] s2 by (simp add: y2_def y3_def)
  then have r3: "smux_reach DefaultConfig False y3" by (rule smux_reach.step [OF r2])
  obtain s4 where h4: "recv_handle True f2 ((sy_sess y3)\<lparr>ss_dataReady := True\<rparr>) = Some s4"
    and s4: "map st_buffers (ss_objs s4) = [[[7, 8, 9]]]" "map st_die (ss_objs s4) = [False]" "ss_config s4 = DefaultConfig"
      "\<not> ss_die s4"
    using s2 by (simp add: y2_def y3_def e)
  define y4 where "y4 = y3\<lparr>sy_sess := s4, sy_in := (sy_in y3)\<lparr>rd := []\<rparr>, sy_recv := RCheck,
         sy_pushed := \<lambda>a. sy_pushed y3 a @ payload_for f2 (sy_sess y3) a\<rparr>"
  have "smux_step False y3 y4"
    unfolding y4_def by (rule recv_step [OF _ _ _ h4]) (use s2 in \<open>simp_all add: y2_def y3_def e\<close>)
  then have r4: "smux_reach DefaultConfig False y4" by (rule smux_reach.step [OF r3])
  obtain st where st: "ss_objs s4 = [st]" "st_buffers st = [[7, 8, 9]]" "\<not> st_die st" using s4 by auto
  have rs: "read_section 2 0 s4 = (([7, 8], 0), s4\<lparr>ss_objs := [st\<lparr>st_buffers := [[9]]\<rparr>]\<rparr>)"
    using st s4 by (simp add: e)
  have "smux_step False y4 (y4\<lparr>sy_sess := s4\<lparr>ss_objs := [st\<lparr>st_buffers := [[9]]\<rparr>]\<rparr>,
      sy_owed := length [7 :: byte, 8] # sy_owed y4, sy_got := (sy_got y4)(0 := sy_got y4 0 @ [7, 8])\<rparr>)" (is "smux_step _ _ ?y5")
    by (rule smux_step.read [of 0 y4 2]) (use rs st in \<open>simp_all add: y4_def\<close>)
  then have "smux_reach DefaultConfig False ?y5" by (rule smux_reach.step [OF r4])
  then show ?thesis
    by (rule exI [of _ ?y5, OF conjI]) (use st s4 in \<open>simp add: y4_def y3_def y2_def y1_def y0_def smux_start_def buffered_def\<close>)
qed


text \<open>Property C12.  Streams do not mix.  In every interleaving, what the readers of a stream object have got is a
  prefix of the payload of the frames received for it, in order; as long as it is not closed on this side the
  rest is exactly what it has buffered, so that a reader told of the end by the peer's \<open>FIN\<close> has got everything;
  and no two streams that are not closed have the same id, nor does one of them have an id that is being
  opened.\<close>

theorem smux_stream_bytes:
  assumes "smux_reach config client y" "VerifyConfig config = None" "cf_MaxReceiveBuffer config < 2 ^ 31"
    and "\<not> ss_die (sy_sess y)" "a < length (ss_objs (sy_sess y))"
  shows "(\<exists>rest. sy_pushed y a = sy_got y a @ rest) \<and>
    (\<not> st_die (ss_objs (sy_sess y) ! a) \<longrightarrow>
       sy_pushed y a = sy_got y a @ concat (st_buffers (ss_objs (sy_sess y) ! a)) \<and>
       (\<forall>s'. waitRead WFin a (sy_sess y) = Some (Some EOF, s') \<longrightarrow> sy_got y a = sy_pushed y a) \<and>
       st_id (ss_objs (sy_sess y) ! a) \<notin> set (sy_opening y) \<and>
       (\<forall>k<length (ss_objs (sy_sess y)). k \<noteq> a \<and> \<not> st_die (ss_objs (sy_sess y) ! k) \<longrightarrow>
          st_id (ss_objs (sy_sess y) ! k) \<noteq> st_id (ss_objs (sy_sess y) ! a)))"
proof -
  let ?v = "view (sy_sess y)" and ?o = "ss_objs (sy_sess y)"
  note I = smux_invD [OF smux_inv_reach [OF assms(1-3)] assms(4)]
  have at: "cv_ids ?v ! k = st_id (?o ! k)" "cv_die ?v ! k = st_die (?o ! k)" "cv_bufs ?v ! k = st_buffers (?o ! k)"
    if "k < length ?o" for k using that by (simp_all add: view_def)
  have b: "if a \<in> sy_cut y then st_buffers (?o ! a) = [] \<and> (\<exists>rest. sy_pushed y a = sy_got y a @ rest)
     else sy_pushed y a = sy_got y a @ concat (st_buffers (?o ! a))"
    using I(5) assms(5) at [OF assms(5)] by (auto simp: byte_inv_def)
  have nc: "a \<notin> sy_cut y" if "\<not> st_die (?o ! a)" using reg_invD(5) [OF I(3), of a] that at [OF assms(5)] by auto
  have reg: "ss_streams (sy_sess y) (st_id (?o ! k)) = Some k" if "k < length ?o" "\<not> st_die (?o ! k)" for k
    using reg_invD(2) [OF I(3), of k] that at by simp
  have "st_id (?o ! a) \<notin> set (sy_opening y)"
    using I(4) assms(5) at(1) [OF assms(5)] unfolding id_inv_def by (metis nth_mem view_simps(7))
  then show ?thesis using b nc reg assms(5) by (auto simp: waitRead_def Let_def split: if_splits) (metis option.inject)+
qed


theorem smux_stream_bytes_witness:
  "\<exists>y. smux_reach DefaultConfig False y \<and> sy_got y 0 = [7, 8] \<and> sy_pushed y 0 = [7, 8, 9]"
proof -
  obtain y where y: "smux_reach DefaultConfig False y" "\<not> ss_die (sy_sess y)" "length (ss_objs (sy_sess y)) = 1"
     "\<not> st_die (ss_objs (sy_sess y) ! 0)" "sy_got y 0 = [7, 8]" "st_buffers (ss_objs (sy_sess y) ! 0) = [[9]]"
    using smux_example by blast
  then show ?thesis using smux_stream_bytes [OF y(1) _ _ y(2), of 0] by (auto simp: VerifyConfig_def DefaultConfig_def)
qed

text \<open>\<open>OpenStream\<close> sends the \<open>SYN\<close> before it registers the stream: data of the peer that arrives in between,
  for an id whose opener has not come so far, changes nothing in the session and is lost.\<close>

lemma smux_early_data_lost:
  assumes "smux_reach config client y" "VerifyConfig config = None" "cf_MaxReceiveBuffer config < 2 ^ 31"
    and "\<not> ss_die (sy_sess y)" "sid \<in> set (sy_opening y)" "f_cmd f = cmdPSH" "f_sid f = sid"
  shows "recv_handle sel f (sy_sess y) = Some (sy_sess y)"
proof -
  note I = smux_invD [OF smux_inv_reach [OF assms(1-3)] assms(4)]
  have "ss_streams (sy_sess y) sid = None"
  proof (cases "ss_streams (sy_sess y) sid")
    case (Some a)
    then have "sid \<in> set (cv_ids (view (sy_sess y)))" using reg_invD(1) [OF I(3), of sid a] nth_mem by fastforce
    then show ?thesis using I(4) assms(5) by (simp add: id_inv_def)
  qed
  then show ?thesis using assms(6,7) by (simp add: recv_handle_def cmd_defs Let_def)
qed

lemma smux_early_data_lost_witness:
  "\<exists>y. smux_reach DefaultConfig True y \<and> map (\<lambda>r. f_cmd (wr_frame r)) (ss_shaper (sy_sess y)) = [cmdSYN] \<and>
     recv_handle True ((newFrame 1 cmdPSH 3)\<lparr>f_data := [7]\<rparr>) (sy_sess y) = Some (sy_sess y)"
proof -
  define y0 where "y0 = smux_start DefaultConfig True []"
  define s1 where "s1 = (sy_sess y0)\<lparr>ss_nextStreamID := 3\<rparr>"
  define y1 where "y1 = y0\<lparr>sy_sess := s1, sy_opening := [3]\<rparr>"
  have "smux_reach DefaultConfig True y0" unfolding y0_def by (rule smux_reach.init)
  moreover have "smux_step True y0 y1"
    using smux_step.open_sid [of y0 3 s1 True]
    by (simp add: y0_def y1_def s1_def smux_start_def newSession_def open_id_def)
  ultimately have r1: "smux_reach DefaultConfig True y1" by (rule smux_reach.step)
  let ?f = "newFrame (config_version s1) cmdSYN 3"
  define s2 where "s2 = snd (writeControlFrame ?f (Sent 0 None) s1)"
  have w: "writeControlFrame ?f (Sent 0 None) s1 = ((0, None), s2)"
    by (simp add: s2_def writeControlFrame_def writeFrameInternal_def Let_def)
  define y2 where "y2 = y1\<lparr>sy_sess := s2, sy_opening := [3]\<rparr>"
  have "smux_step True y1 y2"
    using smux_step.open_syn [of 3 y1 "Sent 0 None" 0 None s2 True] w by (simp add: y1_def y2_def)
  then have r2: "smux_reach DefaultConfig True y2" by (rule smux_reach.step [OF r1])
  have "map (\<lambda>r. f_cmd (wr_frame r)) (ss_shaper s2) = [cmdSYN]" "\<not> ss_die s2"
    by (simp_all add: s2_def s1_def y0_def writeControlFrame_def writeFrameInternal_def smux_start_def newSession_def newFrame_def Let_def)
  then show ?thesis
    using r2 smux_early_data_lost [OF r2, of 3 "(newFrame 1 cmdPSH 3)\<lparr>f_data := [7]\<rparr>" True]
    by (intro exI [of _ y2]) (simp add: y2_def VerifyConfig_def DefaultConfig_def newFrame_def)
qed

text \<open>Whatever became of the old session, the client gets a stream when the server can be reached and takes the \<open>SYN\<close>.\<close>

lemma SmuxClient_Dial_reconnects:
  "\<exists>a s. SmuxClient_Dial True out (Sent n None) sess = (Inr a, Some s) \<and> a < length (ss_objs s) \<and>
     ss_streams s (st_id (ss_objs s ! a)) = Some a"
  if "\<And>s. sess = Some s \<Longrightarrow> \<exists>e s'. OpenStream out s = (Inl e, s')"
proof -
  have new: "smux_Open None True = Inr (newSession DefaultConfig True)"
    by (simp add: smux_Open_def VerifyConfig_def DefaultConfig_def)
  obtain s where "OpenStream (Sent n None) (newSession DefaultConfig True) = (Inr 0, s)"
    "length (ss_objs s) = 1" "ss_streams s (st_id (ss_objs s ! 0)) = Some 0"
    by (simp add: OpenStream_def newSession_def open_id_def writeControlFrame_def writeFrameInternal_def open_register_def
        newStream_def Let_def)
  then show ?thesis using that new
    by (cases sess) (auto simp: SmuxClient_Dial_def smux_initConn_def)
qed

text \<open>\<open>VerifyConfig\<close> does not limit \<open>MaxReceiveBuffer\<close>: from \<open>2^31\<close> on the bucket of a new session is not positive, and
  the receive loop waits for tokens that nobody holds.\<close>

lemma smux_large_buffer_no_tokens:
  "VerifyConfig (DefaultConfig\<lparr>cf_MaxReceiveBuffer := 2 ^ 31\<rparr>) = None \<and>
   sint (ss_bucket (newSession (DefaultConfig\<lparr>cf_MaxReceiveBuffer := 2 ^ 31\<rparr>) client)) \<le> 0"
  by (simp add: VerifyConfig_def DefaultConfig_def newSession_def)

end
