(* ===== verification/Smux_Flow.thy ===== *)
theory Smux_Flow
  imports Smux_Session
begin

text \<open>
  Writing and flow control of the multiplexer (\<open>stream.go\<close>).  The first part is about \<open>Write\<close>: the frames it
  hands to the shaper carry the caller's data.  The second puts the two ends of a stream of version 2 together:
  the sender's window (\<open>writeV2\<close>), the receiver's counters (\<open>tryReadv2\<close>) and the updates between them, with data and
  updates under way for any time.
\<close>

section \<open>Writing\<close>

definition req_data :: "writeRequest list \<Rightarrow> bytes" where
  "req_data rs = concat (map (\<lambda>r. f_data (wr_frame r)) rs)"

definition data_request :: "u32 \<Rightarrow> nat \<Rightarrow> writeRequest \<Rightarrow> bool" where
  "data_request sid fs r =
     (wr_class r = CLSDATA \<and> f_cmd (wr_frame r) = cmdPSH \<and> f_sid (wr_frame r) = sid \<and>
      f_data (wr_frame r) \<noteq> [] \<and> length (f_data (wr_frame r)) \<le> fs)"

definition delivered :: "write_outcome \<Rightarrow> bool" where
  "delivered out = (case out of Sent _ None \<Rightarrow> True | _ \<Rightarrow> False)"

lemma writeFrameInternal_Sent:
  "writeFrameInternal f cls (Sent n e) s =
     ((n, e), s\<lparr>ss_requestID := ss_requestID s + 1,
        ss_shaper := ss_shaper s @ [\<lparr>wr_class = cls, wr_frame = f, wr_seq = ss_requestID s + 1\<rparr>]\<rparr>)"
  by (simp add: writeFrameInternal_def Let_def)

text \<open>Enough writes that succeed: the loop ends, and its requests carry the data in order.\<close>

lemma write_frames_delivers:
  assumes "list_all delivered outs" "length bts \<le> length outs" "a < length (ss_objs s)" "0 < st_frameSize (ss_objs s ! a)"
  shows "\<exists>n s' rs. write_frames outs cnt a bts sent s = Some ((n, None), s') \<and>
    ss_shaper s' = ss_shaper s @ rs \<and> req_data rs = bts \<and>
    list_all (data_request (st_id (ss_objs s ! a)) (st_frameSize (ss_objs s ! a))) rs \<and>
    (cnt = of_nat \<longrightarrow>
       ss_objs s' = (ss_objs s)[a := (ss_objs s ! a)\<lparr>st_numWritten := st_numWritten (ss_objs s ! a) + cnt (length bts)\<rparr>])"
  using assms
proof (induction outs arbitrary: bts sent s)
  case Nil
  then show ?case by (auto simp: req_data_def)
next
  case (Cons out outs)
  show ?case
  proof (cases "bts = []")
    case True
    then show ?thesis by (auto simp: req_data_def)
  next
    case False
    obtain n where out: "out = Sent n None" using Cons.prems(1) by (auto simp: delivered_def split: write_outcome.splits option.splits)
    define st where "st = ss_objs s ! a"
    define sz where "sz = min (length bts) (st_frameSize st)"
    define r where "r = \<lparr>wr_class = CLSDATA,
      wr_frame = (newFrame (config_version s) cmdPSH (st_id st))\<lparr>f_data := take sz bts\<rparr>, wr_seq = ss_requestID s + 1\<rparr>"
    define s2 where "s2 = on_obj a (\<lambda>st. st\<lparr>st_numWritten := st_numWritten st + cnt sz\<rparr>)
      (s\<lparr>ss_requestID := ss_requestID s + 1, ss_shaper := ss_shaper s @ [r]\<rparr>)"
    have sz: "0 < sz" "sz \<le> length bts" using False Cons.prems(4) by (simp_all add: sz_def st_def)
    have go: "write_frames (out # outs) cnt a bts sent s = write_frames outs cnt a (drop sz bts) (sent + n) s2"
      using False by (simp add: out Let_def writeFrameInternal_Sent s2_def r_def sz_def st_def)
    have s2: "ss_objs s2 = (ss_objs s)[a := st\<lparr>st_numWritten := st_numWritten st + cnt sz\<rparr>]" "ss_shaper s2 = ss_shaper s @ [r]"
      by (simp_all add: s2_def on_obj_def st_def)
    have len: "length (drop sz bts) \<le> length outs" using Cons.prems(2) sz by simp
    obtain n' s' rs where ih: "write_frames outs cnt a (drop sz bts) (sent + n) s2 = Some ((n', None), s')"
      "ss_shaper s' = ss_shaper s2 @ rs" "req_data rs = drop sz bts" "list_all (data_request (st_id st) (st_frameSize st)) rs"
      "cnt = of_nat \<longrightarrow> ss_objs s' = (ss_objs s2)[a := (ss_objs s2 ! a)\<lparr>st_numWritten := st_numWritten (ss_objs s2 ! a) + cnt (length (drop sz bts))\<rparr>]"
      using Cons.IH [of "drop sz bts" s2 "sent + n"] Cons.prems len s2(1) by (auto simp: st_def)
    have "req_data (r # rs) = bts" using ih(3) by (simp add: req_data_def r_def)
    moreover have "data_request (st_id st) (st_frameSize st) r"
      using sz False by (simp add: data_request_def r_def newFrame_def sz_def)
    moreover have "cnt = of_nat \<longrightarrow> cnt sz + cnt (length bts - sz) = cnt (length bts)" using sz by (simp flip: of_nat_add)
    ultimately show ?thesis
      using ih s2 Cons.prems(3) unfolding go st_def [symmetric]
      by (intro exI [of _ n'] exI [of _ s'] exI [of _ "r # rs"]) (auto simp: add.assoc)
  qed
qed

section \<open>The two ends of a stream\<close>

text \<open>The sender's and the receiver's end, the payloads of the data frames under way, the byte counts of the window
  updates under way, and as history the bytes sent and read.\<close>

record flow =
  fl_tx :: stream
  fl_wire :: "bytes list"
  fl_rx :: stream
  fl_acks :: "u32 list"
  fl_sent :: nat
  fl_read :: nat

definition flow_start :: "u32 \<Rightarrow> nat \<Rightarrow> flow" where
  "flow_start sid fs =
     \<lparr>fl_tx = newStream sid fs, fl_wire = [], fl_rx = newStream sid fs, fl_acks = [], fl_sent = 0, fl_read = 0\<rparr>"

text \<open>The sender sends what a round of \<open>writeV2\<close> allows, in frames; the receiver gets a frame; a reader takes
  bytes and acknowledges them when \<open>count_read\<close> says so; the sender gets an update.  One call of \<open>Write\<close> has less
  than \<open>2^31\<close> bytes.\<close>

inductive flow_step :: "smux_Config \<Rightarrow> flow \<Rightarrow> flow \<Rightarrow> bool" for config where
  send: "v2_window (fl_tx w) = Inr win \<Longrightarrow> v2_split win b = (bts, b') \<Longrightarrow> length b < 2 ^ 31 \<Longrightarrow> concat fs = bts \<Longrightarrow>
    flow_step config w
      (w\<lparr>fl_tx := (fl_tx w)\<lparr>st_numWritten := st_numWritten (fl_tx w) + of_nat (length bts)\<rparr>,
         fl_wire := fl_wire w @ fs, fl_sent := fl_sent w + length bts\<rparr>)"
| arrive: "fl_wire w = f # fs \<Longrightarrow> flow_step config w (w\<lparr>fl_wire := fs, fl_rx := pushBytes f (fl_rx w)\<rparr>)"
| read: "0 < n \<Longrightarrow> copy_front n (fl_rx w) = (b, st) \<Longrightarrow> count_read config (length b) st = (q, st') \<Longrightarrow>
    flow_step config w
      (w\<lparr>fl_rx := st', fl_read := fl_read w + length b,
         fl_acks := if b \<noteq> [] \<and> q > 0 then fl_acks w @ [q] else fl_acks w\<rparr>)"
| ack: "fl_acks w = q # qs \<Longrightarrow>
    flow_step config w
      (w\<lparr>fl_acks := qs, fl_tx := st_update_window q (word_of_int (cf_MaxStreamBuffer config)) (fl_tx w)\<rparr>)"

inductive flow_reach :: "smux_Config \<Rightarrow> flow \<Rightarrow> bool" for config where
  init: "flow_reach config (flow_start sid fs)"
| step: "flow_reach config w \<Longrightarrow> flow_step config w w' \<Longrightarrow> flow_reach config w'"

text \<open>A round of \<open>writeV2\<close> whose writes succeed is a \<open>send\<close> step.\<close>

lemma writeV2_round_send:
  assumes "v2_window (ss_objs s ! a) = Inr win" "v2_split win b = (bts, b')"
    and "list_all delivered outs" "length bts \<le> length outs" "a < length (ss_objs s)" "0 < st_frameSize (ss_objs s ! a)"
  shows "\<exists>n s' rs. writeV2_round outs a b sent s = Some (if b' = [] then V2Return (n, None) else V2Wait b' n, s') \<and>
    ss_shaper s' = ss_shaper s @ rs \<and> req_data rs = bts \<and>
    list_all (data_request (st_id (ss_objs s ! a)) (st_frameSize (ss_objs s ! a))) rs \<and>
    ss_objs s' ! a = (ss_objs s ! a)\<lparr>st_numWritten := st_numWritten (ss_objs s ! a) + of_nat (length bts)\<rparr>"
  using write_frames_delivers [OF assms(3-6), of of_nat sent] assms(1,2,5) by (auto simp: writeV2_round_def)

definition flow_inv :: "nat \<Rightarrow> flow \<Rightarrow> nat \<Rightarrow> nat list \<Rightarrow> nat \<Rightarrow> bool" where
  "flow_inv M w A acks L \<longleftrightarrow>
     st_numWritten (fl_tx w) = of_nat (fl_sent w) \<and> st_peerConsumed (fl_tx w) = of_nat A \<and>
     st_peerWindow (fl_tx w) = of_nat (if A = 0 then 262144 else M) \<and>
     fl_sent w = fl_read w + length (concat (fl_wire w)) + length (concat (st_buffers (fl_rx w))) \<and>
     st_numRead (fl_rx w) = of_nat (fl_read w) \<and> st_incr (fl_rx w) = of_nat (fl_read w - L) \<and>
     fl_acks w = map of_nat acks \<and> sorted (A # acks) \<and> L = last (A # acks) \<and> L \<le> fl_read w \<and>
     (fl_read w - L < M div 2 \<or> fl_read w = L) \<and> (0 < fl_read w \<longrightarrow> 0 < L) \<and> (\<forall>q\<in>set acks. 0 < q) \<and>
     fl_sent w - A \<le> max 262144 M"

lemma flow_start_inv: "flow_inv M (flow_start sid fs) 0 [] 0"
  by (simp add: flow_inv_def flow_start_def newStream_def initialPeerWindow_def)

lemma sint_small: "n < 2 ^ 31 \<Longrightarrow> sint (of_nat n :: 32 word) = int n"
  using sint_add_word [of 0 "int n"] by simp

lemma flow_window:
  assumes i: "flow_inv M w A acks L" and M: "0 < M" "M < 2 ^ 31"
  shows "A \<le> fl_sent w"
    and "v2_window (fl_tx w) = Inr (int (if A = 0 then 262144 else M) - int (fl_sent w - A))"
proof -
  have "A \<le> L" using i by (auto simp: flow_inv_def)
  then show A: "A \<le> fl_sent w" using i by (auto simp: flow_inv_def)
  let ?d = "fl_sent w - A" and ?p = "if A = 0 then 262144 else M"
  have b: "?d < 2 ^ 31" "?p < 2 ^ 31" using i M by (auto simp: flow_inv_def)
  have infl: "st_numWritten (fl_tx w) - st_peerConsumed (fl_tx w) = of_nat ?d" using i A by (simp add: flow_inv_def)
  have "st_peerWindow (fl_tx w) - of_nat ?d = word_of_int (int ?p - int ?d)" using i by (simp add: flow_inv_def)
  then have "sint (st_peerWindow (fl_tx w) - of_nat ?d) = int ?p - int ?d"
    using sint_add_word [of 0 "int ?p - int ?d"] b by simp
  then show "v2_window (fl_tx w) = Inr (int ?p - int ?d)"
    using sint_small [OF b(1)] infl by (simp add: v2_window_def Let_def)
qed

lemma flow_send:
  assumes i: "flow_inv M w A acks L" and M: "0 < M" "M < 2 ^ 31"
    and s: "v2_window (fl_tx w) = Inr win" "v2_split win b = (bts, b')" "length b < 2 ^ 31" "concat fs = bts"
  shows "flow_inv M (w\<lparr>fl_tx := (fl_tx w)\<lparr>st_numWritten := st_numWritten (fl_tx w) + of_nat (length bts)\<rparr>,
         fl_wire := fl_wire w @ fs, fl_sent := fl_sent w + length bts\<rparr>) A acks L"
proof -
  note win = flow_window [OF i M]
  have "int (length bts) \<le> max 0 win" using s(2) sint_small [OF s(3)] by (auto simp: v2_split_def split: if_splits)
  then have "fl_sent w + length bts - A \<le> max 262144 M"
    using win s(1) i by (auto simp: flow_inv_def split: if_splits)
  then show ?thesis using i s(4) by (auto simp: flow_inv_def)
qed

lemma flow_arrive:
  "flow_inv M w A acks L \<Longrightarrow> fl_wire w = f # fs \<Longrightarrow> flow_inv M (w\<lparr>fl_wire := fs, fl_rx := pushBytes f (fl_rx w)\<rparr>) A acks L"
  by (auto simp: flow_inv_def pushBytes_def)

lemma flow_ack:
  assumes "flow_inv M w A acks L" "fl_acks w = q # qs"
  shows "\<exists>A' acks'. flow_inv M (w\<lparr>fl_acks := qs, fl_tx := st_update_window q (of_nat M) (fl_tx w)\<rparr>) A' acks' L"
proof -
  obtain A' acks' where "acks = A' # acks'" "q = of_nat A'" "qs = map of_nat acks'"
    using assms by (cases acks) (auto simp: flow_inv_def)
  then have "flow_inv M (w\<lparr>fl_acks := qs, fl_tx := st_update_window q (of_nat M) (fl_tx w)\<rparr>) A' acks' L"
    using assms(1) by (auto simp: flow_inv_def st_update_window_def)
  then show ?thesis by blast
qed

lemma copy_front_split:
  "copy_front n st = (b, st') \<Longrightarrow> concat (st_buffers st) = b @ concat (st_buffers st') \<and> st_numRead st' = st_numRead st \<and>
     st_incr st' = st_incr st"
  by (auto simp: copy_front_def split: list.splits if_splits)

lemma count_read_nat:
  assumes "cf_MaxStreamBuffer config = int M" "M < 2 ^ 31" "st_numRead st = of_nat R" "st_incr st = of_nat I"
    and "R + n < 2 ^ 32" "I + n < 2 ^ 32"
  shows "count_read config n st =
    (if M div 2 \<le> I + n \<or> R = 0 then (of_nat (R + n), st\<lparr>st_numRead := of_nat (R + n), st_incr := 0\<rparr>)
     else (0, st\<lparr>st_numRead := of_nat (R + n), st_incr := of_nat (I + n)\<rparr>))"
proof -
  have half: "(word_of_int (int M div 2) :: u32) = of_nat (M div 2)" 
    by (metis of_int_of_nat_eq of_nat_numeral zdiv_int)
  have "(of_nat (M div 2) :: u32) \<le> of_nat (I + n) \<longleftrightarrow> M div 2 \<le> I + n"
    using assms(2,6) unfolding word_le_nat_alt by (simp add: unat_of_nat del: of_nat_add)
  moreover have "(of_nat (R + n) :: u32) = of_nat n \<longleftrightarrow> R = 0"
    using assms(5) unfolding word_unat_eq_iff by (simp add: unat_of_nat del: of_nat_add)
  ultimately show ?thesis using assms(1,3,4) half by (simp add: count_read_def Let_def)
qed

lemma sorted_le_last: "sorted xs \<Longrightarrow> x \<in> set xs \<Longrightarrow> x \<le> last xs"
  by (induction xs rule: rev_induct) (auto simp: sorted_append)

lemma flow_read:
  assumes i: "flow_inv M w A acks L" and M: "0 < M" "M < 2 ^ 31" "cf_MaxStreamBuffer config = int M"
    and total: "fl_sent w < 2 ^ 32"
    and r: "copy_front n (fl_rx w) = (b, st)" "count_read config (length b) st = (q, st')"
  shows "\<exists>A acks L. flow_inv M (w\<lparr>fl_rx := st', fl_read := fl_read w + length b,
         fl_acks := if b \<noteq> [] \<and> q > 0 then fl_acks w @ [q] else fl_acks w\<rparr>) A acks L"
proof -
  let ?R = "fl_read w + length b" and ?I = "fl_read w - L + length b"
  note cp = copy_front_split [OF r(1)]
  have R: "?R \<le> fl_sent w" "A \<le> L" "L \<le> fl_read w" using i cp by (auto simp: flow_inv_def)
  have "sorted (A # acks)" "L = last (A # acks)" using i by (simp_all add: flow_inv_def)
  then have "\<forall>x\<in>set acks. x \<le> L" using sorted_le_last [of "A # acks"] by auto
  then have le: "\<forall>x\<in>set acks. x \<le> ?R" using R by auto
  have c: "count_read config (length b) st =
    (if M div 2 \<le> ?I \<or> fl_read w = 0 then (of_nat ?R, st\<lparr>st_numRead := of_nat ?R, st_incr := 0\<rparr>)
     else (0, st\<lparr>st_numRead := of_nat ?R, st_incr := of_nat ?I\<rparr>))"
    by (rule count_read_nat [OF M(3,2)]) (use i cp R total in \<open>auto simp: flow_inv_def\<close>)
  show ?thesis
  proof (cases "b \<noteq> [] \<and> (M div 2 \<le> ?I \<or> fl_read w = 0)")
    case True
    then have "q = of_nat ?R" "st' = st\<lparr>st_numRead := of_nat ?R, st_incr := 0\<rparr>" using c r(2) by auto
    moreover have "(of_nat ?R :: u32) > 0"
      using True R total unfolding word_less_nat_alt by (simp add: unat_of_nat del: of_nat_add)
    ultimately have "flow_inv M (w\<lparr>fl_rx := st', fl_read := ?R,
         fl_acks := if b \<noteq> [] \<and> q > 0 then fl_acks w @ [q] else fl_acks w\<rparr>) A (acks @ [?R]) ?R"
      using i True cp R le by (auto simp: flow_inv_def sorted_append split: if_splits)
    then show ?thesis by blast
  next
    case False
    have near: "fl_read w - L < M div 2 \<or> fl_read w = L" using i unfolding flow_inv_def by blast
    have e: "?I = ?R - L" using R by simp
    have "?R - L = 0" if "M div 2 \<le> ?I \<or> fl_read w = 0" using that near False R(3) by auto
    then have st: "st' = st\<lparr>st_numRead := of_nat ?R, st_incr := of_nat (?R - L)\<rparr>"
      using c r(2) e by (simp del: of_nat_add split: if_splits)
    have q: "b = [] \<or> q = 0" using False c r(2) by (auto split: if_splits)
    moreover have "?R - L < M div 2 \<or> ?R = L" using near False by auto
    moreover have "0 < ?R \<longrightarrow> 0 < L" using i False unfolding flow_inv_def by auto
    moreover have "fl_sent w - A \<le> max 262144 M" using i unfolding flow_inv_def by blast
    ultimately have "flow_inv M (w\<lparr>fl_rx := st', fl_read := ?R,
         fl_acks := if b \<noteq> [] \<and> q > 0 then fl_acks w @ [q] else fl_acks w\<rparr>) A acks L"
      using i cp R st unfolding flow_inv_def by (cases "b = []") (simp_all del: of_nat_add last.simps)
    then show ?thesis by blast
  qed
qed

lemma flow_sent_mono: "flow_step config w w' \<Longrightarrow> fl_sent w \<le> fl_sent w'"
  by (cases rule: flow_step.cases) auto

lemma flow_reach_inv:
  assumes "flow_reach config w" "fl_sent w < 2 ^ 32" and M: "0 < M" "M < 2 ^ 31" "cf_MaxStreamBuffer config = int M"
  shows "\<exists>A acks L. flow_inv M w A acks L"
  using assms(1,2)
proof (induction rule: flow_reach.induct)
  case (init sid fs)
  then show ?case using flow_start_inv by blast
next
  case (step w w')
  have sent: "fl_sent w < 2 ^ 32" using step.prems flow_sent_mono [OF step.hyps(2)] by linarith
  then obtain A acks L where i: "flow_inv M w A acks L" using step.IH by blast
  show ?case
    using step.hyps(2)
  proof cases
    case (send win b bts b' fs)
    then show ?thesis using flow_send [OF i M(1,2)] by blast
  next
    case (arrive f fs)
    then show ?thesis using flow_arrive [OF i] by blast
  next
    case (read n b st q st')
    then show ?thesis using flow_read [OF i M sent] by blast
  next
    case (ack q qs)
    then show ?thesis using flow_ack [OF i, of q qs] M(3) by auto
  qed
qed

text \<open>Property C13.  Flow control of a version 2 stream, for the first \<open>2^32\<close> bytes and writes of less than \<open>2^31\<close>
  bytes each, with data and window updates under way for any time: never more than the greater of
  \<open>MaxStreamBuffer\<close> and the initial guess of 256 KiB is under way or unread; the sender never takes the
  receiver's updates for malformed ones; and there is no deadlock: once the receiver has read everything that
  was sent and its updates have arrived, the sender's window is open and the next write makes progress.\<close>

theorem smux_flow_control:
  assumes reach: "flow_reach config w" "VerifyConfig config = None" "fl_sent w < 2 ^ 32"
  shows "int (length (concat (fl_wire w)) + length (concat (st_buffers (fl_rx w)))) \<le> max 262144 (cf_MaxStreamBuffer config) \<and>
    (\<exists>win. v2_window (fl_tx w) = Inr win \<and>
       (fl_wire w = [] \<and> st_buffers (fl_rx w) = [] \<and> fl_acks w = [] \<longrightarrow>
          0 < win \<and> (\<forall>b. b \<noteq> [] \<and> length b < 2 ^ 31 \<longrightarrow> fst (v2_split win b) \<noteq> [])))"
proof -
  define M where "M = nat (cf_MaxStreamBuffer config)"
  have M: "0 < M" "M < 2 ^ 31" "cf_MaxStreamBuffer config = int M"
    using reach(2) by (auto simp: M_def VerifyConfig_def split: if_splits)
  obtain A acks L where i: "flow_inv M w A acks L" using flow_reach_inv [OF reach(1,3) M] by blast
  note win = flow_window [OF i M(1,2)]
  have AL: "A \<le> L" using i by (auto simp: flow_inv_def)
  have AR: "A \<le> fl_read w" using i AL unfolding flow_inv_def by linarith
  have "length (concat (fl_wire w)) + length (concat (st_buffers (fl_rx w))) \<le> max 262144 M"
    using i AR unfolding flow_inv_def by linarith
  then have bound: "int (length (concat (fl_wire w)) + length (concat (st_buffers (fl_rx w)))) \<le> max 262144 (cf_MaxStreamBuffer config)"
    using M(3) by linarith
  have pos: "0 < int (if A = 0 then 262144 else M) - int (fl_sent w - A)"
    if "fl_wire w = []" "st_buffers (fl_rx w) = []" "fl_acks w = []"
  proof -
    have "fl_sent w = fl_read w" "L = A" "acks = []" using i that by (auto simp: flow_inv_def)
    moreover have "fl_read w - L < M div 2 \<or> fl_read w = L" "0 < fl_read w \<longrightarrow> 0 < L"
      using i unfolding flow_inv_def by blast+
    ultimately show ?thesis using M(1) by (cases "A = 0") auto
  qed
  have "fst (v2_split k b) \<noteq> []" if "0 < k" "b \<noteq> []" "length b < 2 ^ 31" for k b
    using that by (simp add: v2_split_def)
  then show ?thesis using bound win(2) pos by blast
qed

theorem smux_flow_control_witness:
  "\<exists>w win. flow_reach (DefaultConfig\<lparr>cf_Version := 2\<rparr>) w \<and> v2_window (fl_tx w) = Inr win \<and> 0 < win \<and>
     fst (v2_split win [7]) \<noteq> []"
proof -
  have "flow_reach (DefaultConfig\<lparr>cf_Version := 2\<rparr>) (flow_start 3 100)" by (rule flow_reach.init)
  moreover from smux_flow_control [OF this]
  obtain win where "v2_window (fl_tx (flow_start 3 100)) = Inr win" "0 < win" "fst (v2_split win [7]) \<noteq> []"
    by (auto simp: DefaultConfig_def VerifyConfig_def flow_start_def newStream_def)
  ultimately show ?thesis by blast
qed

text \<open>When the counter of bytes read comes round to 0 exactly when an update is due, the update is taken for none,
  and the count of unacknowledged bytes starts again all the same.\<close>

lemma smux_update_skipped_at_wrap:
  assumes "st_numRead st + of_nat n = 0" "word_of_int (cf_MaxStreamBuffer config div 2) \<le> st_incr st + of_nat n"
  shows "count_read config n st = (0, st\<lparr>st_numRead := 0, st_incr := 0\<rparr>)"
  using assms by (simp add: count_read_def Let_def)

end
