(* ===== verification/Vmess.thy ===== *)
theory Vmess
  imports Vless
begin

text \<open>
  The VMess client (\<open>proxy/vmess\<close>): users, the request header with and without AEAD, the server's answer, and the
  body as plain, masked and sealed chunks.  Hashes, block ciphers, AEADs and SHAKE come from libraries: they are the
  record \<open>vcrypto\<close>, of which the properties assume that opening inverts sealing and that sealing adds 16 bytes.
  Random numbers and the clock are arguments.
\<close>

section \<open>Model\<close>

subsection \<open>Cryptography\<close>

text \<open>The AEADs take key, nonce, additional data and text; SHAKE is the sequence of 16-bit numbers read from it.\<close>

record vcrypto =
  vc_md5 :: "bytes \<Rightarrow> bytes"
  vc_sha1 :: "bytes \<Rightarrow> bytes"
  vc_sha256 :: "bytes \<Rightarrow> bytes"
  vc_crc32 :: "bytes \<Rightarrow> u32"
  vc_aes :: "bytes \<Rightarrow> bytes \<Rightarrow> bytes"
  vc_cfb_enc :: "bytes \<Rightarrow> bytes \<Rightarrow> bytes \<Rightarrow> bytes"
  vc_cfb_dec :: "bytes \<Rightarrow> bytes \<Rightarrow> bytes \<Rightarrow> bytes"
  vc_gcm_Seal :: "bytes \<Rightarrow> bytes \<Rightarrow> bytes \<Rightarrow> bytes \<Rightarrow> bytes"
  vc_gcm_Open :: "bytes \<Rightarrow> bytes \<Rightarrow> bytes \<Rightarrow> bytes \<Rightarrow> bytes option"
  vc_chacha_Seal :: "bytes \<Rightarrow> bytes \<Rightarrow> bytes \<Rightarrow> bytes \<Rightarrow> bytes"
  vc_chacha_Open :: "bytes \<Rightarrow> bytes \<Rightarrow> bytes \<Rightarrow> bytes \<Rightarrow> bytes option"
  vc_shake :: "bytes \<Rightarrow> nat \<Rightarrow> u16"

text \<open>Both AEADs have nonces of 12 bytes and an overhead of 16.\<close>

definition Overhead :: nat where "Overhead = 16"
definition NonceSize :: nat where "NonceSize = 12"

text \<open>\<open>hmac.New\<close> over a hash with blocks of 64 bytes.\<close>

definition hmac_key :: "(bytes \<Rightarrow> bytes) \<Rightarrow> bytes \<Rightarrow> bytes" where
  "hmac_key h key = (let k = (if length key > 64 then h key else key) in k @ replicate (64 - length k) 0)"

definition hmac :: "(bytes \<Rightarrow> bytes) \<Rightarrow> bytes \<Rightarrow> bytes \<Rightarrow> bytes" where
  "hmac h key msg =
     (let k = hmac_key h key in h (map (\<lambda>b. xor b 0x5C) k @ h (map (\<lambda>b. xor b 0x36) k @ msg)))"

text \<open>\<open>kdf\<close>: every element of the path is the key of an HMAC over the one before.\<close>

fun hMac_Create :: "(bytes \<Rightarrow> bytes) \<Rightarrow> bytes list \<Rightarrow> bytes \<Rightarrow> bytes" where
  "hMac_Create h [] = h"
| "hMac_Create h (v # vs) = hMac_Create (hmac h v) vs"

definition kdf :: "vcrypto \<Rightarrow> bytes \<Rightarrow> bytes list \<Rightarrow> bytes" where
  "kdf C key path = hMac_Create (vc_sha256 C) (str_bytes ''VMess AEAD KDF'' # path) key"

text \<open>\<open>fnv.New32a\<close> and its sum in big-endian order.\<close>

fun fnv1a_from :: "u32 \<Rightarrow> bytes \<Rightarrow> u32" where
  "fnv1a_from h [] = h"
| "fnv1a_from h (b # bs) = fnv1a_from (xor h (ucast b) * 16777619) bs"

definition fnv1a :: "bytes \<Rightarrow> bytes" where
  "fnv1a b = put32 (fnv1a_from 2166136261 b)"

subsection \<open>Users\<close>

record vuser =
  vu_UUID :: bytes
  vu_CmdKey :: bytes

text \<open>\<open>ParseAddr\<close> and \<open>StrToUUID\<close> are the same texts as those of \<open>proxy/vless\<close>.\<close>

definition vmess_ParseAddr :: "string \<Rightarrow> vaddr result" where
  "vmess_ParseAddr = vless_ParseAddr"

definition vmess_StrToUUID :: "vcrypto \<Rightarrow> string \<Rightarrow> bytes result" where
  "vmess_StrToUUID C = StrToUUID (vc_sha1 C)"

definition GetKey :: "vcrypto \<Rightarrow> bytes \<Rightarrow> bytes" where
  "GetKey C uuid = vc_md5 C (uuid @ str_bytes ''c48619fe-8f02-49e0-b9e9-edf763e17e21'')"

definition NewUser :: "vcrypto \<Rightarrow> bytes \<Rightarrow> vuser" where
  "NewUser C uuid = \<lparr>vu_UUID = uuid, vu_CmdKey = GetKey C uuid\<rparr>"

text \<open>\<open>nextID\<close>: the hash is taken again over more and more text until it differs from the old id.\<close>

partial_function (option) nextID_from :: "vcrypto \<Rightarrow> bytes \<Rightarrow> bytes \<Rightarrow> bytes option" where
  "nextID_from C oldID written =
     (let newID = vc_md5 C written in
      if oldID \<noteq> newID then Some newID
      else nextID_from C oldID (written @ str_bytes ''533eff8a-4113-4b10-b5ce-0f5d76b98cd2''))"

definition nextID :: "vcrypto \<Rightarrow> bytes \<Rightarrow> bytes option" where
  "nextID C oldID = nextID_from C oldID (oldID @ str_bytes ''16167dc8-16b6-4e6d-b8bb-65dd68113a81'')"

fun alter_users :: "vcrypto \<Rightarrow> bytes \<Rightarrow> bytes \<Rightarrow> nat \<Rightarrow> vuser list option" where
  "alter_users C key preID 0 = Some []"
| "alter_users C key preID (Suc n) =
     (case nextID C preID of
        None \<Rightarrow> None
      | Some newID \<Rightarrow> map_option (\<lambda>us. \<lparr>vu_UUID = newID, vu_CmdKey = key\<rparr> # us) (alter_users C key newID n))"

definition GenAlterIDUsers :: "vcrypto \<Rightarrow> vuser \<Rightarrow> nat \<Rightarrow> vuser list option" where
  "GenAlterIDUsers C u alterID = alter_users C (vu_CmdKey u) (vu_UUID u) alterID"

definition TimestampHash :: "vcrypto \<Rightarrow> u64 \<Rightarrow> bytes" where
  "TimestampHash C t = (let ts = put64 t in vc_md5 C (ts @ ts @ ts @ ts))"

subsection \<open>Client\<close>

definition OptBasicFormat :: byte where "OptBasicFormat = 0"
definition OptChunkStream :: byte where "OptChunkStream = 1"
definition OptChunkMasking :: byte where "OptChunkMasking = 4"

definition SecurityAES128GCM :: byte where "SecurityAES128GCM = 3"
definition SecurityChacha20Poly1305 :: byte where "SecurityChacha20Poly1305 = 4"
definition SecurityNone :: byte where "SecurityNone = 5"

record vmess_Client =
  vc_users :: "vuser list"
  vc_opt :: byte
  vc_aead :: bool
  vc_security :: byte

text \<open>\<open>goarch\<close> is \<open>runtime.GOARCH\<close>; \<open>None\<close>: the ids of the alternative users are never found.\<close>

definition vmess_security :: "string \<Rightarrow> string \<Rightarrow> (byte \<times> byte) option" where
  "vmess_security goarch s =
     (let opt = or OptChunkStream OptChunkMasking in
      if s = ''aes-128-gcm'' then Some (SecurityAES128GCM, opt)
      else if s = ''chacha20-poly1305'' then Some (SecurityChacha20Poly1305, opt)
      else if s = ''none'' then Some (SecurityNone, opt)
      else if s = ''zero'' then Some (SecurityNone, OptBasicFormat)
      else if s = [] then
        Some (if goarch \<in> {''amd64'', ''s390x'', ''arm64''} then SecurityAES128GCM else SecurityChacha20Poly1305, opt)
      else None)"

definition vmess_NewClient :: "vcrypto \<Rightarrow> string \<Rightarrow> string \<Rightarrow> string \<Rightarrow> nat \<Rightarrow> bool \<Rightarrow> vmess_Client result option" where
  "vmess_NewClient C goarch uuidStr security alterID aead =
     (case vmess_StrToUUID C uuidStr of
        Inl e \<Rightarrow> Some (Inl e)
      | Inr uuid \<Rightarrow>
          let user = NewUser C uuid in
          (case GenAlterIDUsers C user alterID of
             None \<Rightarrow> None
           | Some us \<Rightarrow>
               Some (case vmess_security goarch (to_lower security) of
                       None \<Rightarrow> Inl (ErrMsg ''unknown security type'')
                     | Some (sec, opt) \<Rightarrow> Inr \<lparr>vc_users = user # us, vc_opt = opt, vc_aead = aead, vc_security = sec\<rparr>)))"

definition NewVMess :: "vcrypto \<Rightarrow> string \<Rightarrow> bool \<Rightarrow> url option \<Rightarrow> vmess_Client result option" where
  "NewVMess C goarch hasPass pu =
     (case pu of
        None \<Rightarrow> Some (Inl (ErrMsg ''parse url err''))
      | Some u \<Rightarrow>
          let (security, uuid) = (if hasPass then (u_User u, u_Pass u) else ([], u_User u));
              aid = (let q = u_Query u ''alterID'' in if q = [] then ''0'' else q)
          in (case parse_uint 32 aid of
                None \<Rightarrow> Some (Inl (ErrMsg ''ParseUint''))
              | Some alterID \<Rightarrow> vmess_NewClient C goarch uuid security alterID (alterID = 0)))"

subsection \<open>Chunks\<close>

definition chunkSize :: nat where "chunkSize = 16 * 2 ^ 10"

text \<open>\<open>net.Buffers.WriteTo\<close> of two buffers.\<close>

definition write2 :: "bytes \<Rightarrow> bytes \<Rightarrow> conn \<Rightarrow> go_error option \<times> conn" where
  "write2 a b c = (case conn_write a c of (Some e, c') \<Rightarrow> (Some e, c') | (None, c') \<Rightarrow> conn_write b c')"

text \<open>\<open>ShakeSizeParser\<close>: its state is the position in the sequence.\<close>

definition size_Encode :: "(nat \<Rightarrow> u16) \<Rightarrow> nat \<Rightarrow> u16 \<Rightarrow> bytes" where
  "size_Encode shake k sz = put16 (xor (shake k) sz)"

definition size_Decode :: "(nat \<Rightarrow> u16) \<Rightarrow> nat \<Rightarrow> bytes \<Rightarrow> u16" where
  "size_Decode shake k b = xor (shake k) (the (get16 b))"

text \<open>\<open>chunkedWriter.Write\<close> on what is left, with the position and the count so far.\<close>

function chunked_Write :: "(nat \<Rightarrow> u16) \<Rightarrow> nat \<Rightarrow> nat \<Rightarrow> bytes \<Rightarrow> conn \<Rightarrow> (nat \<times> go_error option) \<times> nat \<times> conn" where
  "chunked_Write shake k n p c =
     (if p = [] then ((n, None), k, c)
      else
        let dataLen = min (length p) chunkSize in
        case write2 (size_Encode shake k (of_nat dataLen)) (take dataLen p) c of
          (Some e, c') \<Rightarrow> ((n, Some e), k + 1, c')
        | (None, c') \<Rightarrow> chunked_Write shake (k + 1) (n + dataLen) (drop dataLen p) c')"
  by pat_completeness auto
termination
  by (relation "measure (\<lambda>(_, _, _, p, _). length p)") (auto simp: chunkSize_def)

declare chunked_Write.simps [simp del]

record chunked_reader =
  cr_pos :: nat
  cr_left :: nat

definition chunked_Read :: "(nat \<Rightarrow> u16) \<Rightarrow> nat \<Rightarrow> chunked_reader \<Rightarrow> conn \<Rightarrow> (bytes \<times> go_error option) \<times> chunked_reader \<times> conn" where
  "chunked_Read shake len r c =
     (let more = (\<lambda>r c.
        case raw_Read (min len (cr_left r)) c of
          ((b, Some e), c') \<Rightarrow> (([], Some e), r, c')
        | ((b, None), c') \<Rightarrow> ((b, None), r\<lparr>cr_left := cr_left r - length b\<rparr>, c'))
      in
        if cr_left r = 0 then
          (case read_full 2 c of
             (Inl e, c1) \<Rightarrow> (([], Some e), r, c1)
           | (Inr h, c1) \<Rightarrow>
               let r1 = r\<lparr>cr_pos := cr_pos r + 1, cr_left := unat (size_Decode shake (cr_pos r) h)\<rparr> in
               if cr_left r1 = 0 then (([], None), r1, c1) else more r1 c1)
        else more r c)"

text \<open>The nonce of a sealed chunk: the count in front of the rest of the initial vector.\<close>

definition chunk_nonce :: "bytes \<Rightarrow> u16 \<Rightarrow> bytes" where
  "chunk_nonce iv count = put16 count @ take (NonceSize - 2) (drop 2 iv)"

text \<open>\<open>aeadWriter.Write\<close>, with the position in the mask and the count of chunks.\<close>

function sealed_Write ::
  "(bytes \<Rightarrow> bytes \<Rightarrow> bytes) \<Rightarrow> bytes \<Rightarrow> (nat \<Rightarrow> u16) \<Rightarrow> nat \<Rightarrow> u16 \<Rightarrow> nat \<Rightarrow> bytes \<Rightarrow> conn \<Rightarrow>
   (nat \<times> go_error option) \<times> (nat \<times> u16) \<times> conn" where
  "sealed_Write seal iv shake k count n b c =
     (if b = [] then ((n, None), (k, count), c)
      else
        let writeLen = min (length b + Overhead) chunkSize;
            dataLen = writeLen - Overhead
        in case write2 (size_Encode shake k (of_nat writeLen)) (seal (chunk_nonce iv count) (take dataLen b)) c of
             (Some e, c') \<Rightarrow> ((n, Some e), (k + 1, count + 1), c')
           | (None, c') \<Rightarrow> sealed_Write seal iv shake (k + 1) (count + 1) (n + dataLen) (drop dataLen b) c')"
  by pat_completeness auto
termination
  by (relation "measure (\<lambda>(_, _, _, _, _, _, b, _). length b)") (auto simp: chunkSize_def Overhead_def min_def neq_Nil_conv)

declare sealed_Write.simps [simp del]

record sealed_reader =
  sr_pos :: nat
  sr_count :: u16
  sr_buf :: "bytes option"
  sr_offset :: nat

text \<open>\<open>aeadReader.read\<close> into a slice of length \<open>len\<close>, at least 2: a size that is too small for a tag or does not fit ends the
  stream.\<close>

definition sealed_read1 ::
  "(bytes \<Rightarrow> bytes \<Rightarrow> bytes option) \<Rightarrow> bytes \<Rightarrow> (nat \<Rightarrow> u16) \<Rightarrow> nat \<Rightarrow> sealed_reader \<Rightarrow> conn \<Rightarrow> bytes result \<times> sealed_reader \<times> conn" where
  "sealed_read1 opn iv shake len r c =
     (case read_full 2 c of
        (Inl e, c1) \<Rightarrow> (Inl e, r, c1)
      | (Inr h, c1) \<Rightarrow>
          let sz = unat (size_Decode shake (sr_pos r) h); r1 = r\<lparr>sr_pos := sr_pos r + 1\<rparr> in
          if sz \<le> Overhead \<or> sz > len then (Inl EOF, r1, c1)
          else
            (case read_full sz c1 of
               (Inl e, c2) \<Rightarrow> (Inl e, r1, c2)
             | (Inr enc, c2) \<Rightarrow>
                 let r2 = r1\<lparr>sr_count := sr_count r1 + 1\<rparr> in
                 (case opn (chunk_nonce iv (sr_count r)) enc of
                    None \<Rightarrow> (Inl (ErrMsg ''message authentication failed''), r2, c2)
                  | Some b \<Rightarrow> (Inr b, r2, c2))))"

definition sealed_copy :: "nat \<Rightarrow> sealed_reader \<Rightarrow> bytes \<Rightarrow> bytes \<times> sealed_reader" where
  "sealed_copy len r buf =
     (let b = take len (drop (sr_offset r) buf); off = sr_offset r + length b in
      (b, r\<lparr>sr_offset := off, sr_buf := if off = length buf then None else Some buf\<rparr>))"

definition sealed_Read ::
  "(bytes \<Rightarrow> bytes \<Rightarrow> bytes option) \<Rightarrow> bytes \<Rightarrow> (nat \<Rightarrow> u16) \<Rightarrow> nat \<Rightarrow> sealed_reader \<Rightarrow> conn \<Rightarrow>
   (bytes \<times> go_error option) \<times> sealed_reader \<times> conn" where
  "sealed_Read opn iv shake len r c =
     (case sr_buf r of
        None \<Rightarrow>
          if len \<ge> chunkSize then
            (case sealed_read1 opn iv shake len r c of
               (Inl e, r', c') \<Rightarrow> (([], Some e), r', c')
             | (Inr b, r', c') \<Rightarrow> ((b, None), r', c'))
          else
            (case sealed_read1 opn iv shake chunkSize r c of
               (Inl e, r', c') \<Rightarrow> (([], Some e), r', c')
             | (Inr b, r', c') \<Rightarrow>
                 if b = [] then (([], None), r', c')
                 else (case sealed_copy len (r'\<lparr>sr_offset := 0\<rparr>) b of (x, r'') \<Rightarrow> ((x, None), r'', c')))
      | Some buf \<Rightarrow> (case sealed_copy len r buf of (x, r'') \<Rightarrow> ((x, None), r'', c)))"

subsection \<open>Connections\<close>

datatype vm_writer = RawWriter | ChunkedWriter nat | SealedWriter nat u16
datatype vm_reader = RawReader | ChunkedReader chunked_reader | SealedReader sealed_reader

record vmess_conn =
  vm_user :: vuser
  vm_opt :: byte
  vm_aead :: bool
  vm_security :: byte
  vm_target :: vaddr
  vm_reqIV :: bytes
  vm_reqKey :: bytes
  vm_respV :: byte
  vm_respIV :: bytes
  vm_respKey :: bytes
  vm_reader :: "vm_reader option"
  vm_writer :: "vm_writer option"

text \<open>The random numbers and the time that a connection draws.\<close>

record vmess_draw =
  vd_user :: nat
  vd_body :: bytes
  vd_respV :: byte
  vd_padding :: bytes
  vd_now :: u64
  vd_authID :: bytes
  vd_nonce :: bytes

definition createAuthID :: "vcrypto \<Rightarrow> vmess_draw \<Rightarrow> bytes \<Rightarrow> bytes" where
  "createAuthID C d cmdKey =
     (let buf = put64 (vd_now d) @ vd_authID d; block = buf @ put32 (vc_crc32 C buf)
      in vc_aes C (take 16 (kdf C cmdKey [str_bytes ''AES Auth ID Encryption''])) block)"

definition header_cipher :: "vcrypto \<Rightarrow> bytes \<Rightarrow> string \<Rightarrow> nat \<Rightarrow> bytes \<Rightarrow> bytes \<Rightarrow> bytes" where
  "header_cipher C key salt n authID nonce = take n (kdf C key [str_bytes salt, authID, nonce])"

definition sealVMessAEADHeader :: "vcrypto \<Rightarrow> vmess_draw \<Rightarrow> bytes \<Rightarrow> bytes \<Rightarrow> bytes" where
  "sealVMessAEADHeader C d key data =
     (let authID = createAuthID C d key;
          nonce = vd_nonce d;
          lenKey = header_cipher C key ''VMess Header AEAD Key_Length'' 16 authID nonce;
          lenIV = header_cipher C key ''VMess Header AEAD Nonce_Length'' 12 authID nonce;
          dataKey = header_cipher C key ''VMess Header AEAD Key'' 16 authID nonce;
          dataIV = header_cipher C key ''VMess Header AEAD Nonce'' 12 authID nonce
      in authID @ vc_gcm_Seal C lenKey lenIV authID (put16 (of_nat (length data))) @ nonce
         @ vc_gcm_Seal C dataKey dataIV authID data)"

text \<open>The request before it is encrypted.\<close>

definition request_header :: "vmess_conn \<Rightarrow> bytes \<Rightarrow> byte \<Rightarrow> bytes" where
  "request_header vc padding cmd =
     (case vm_target vc of (atyp, addr, port) \<Rightarrow>
        let buf = [1] @ vm_reqIV vc @ vm_reqKey vc @ [vm_respV vc, vm_opt vc]
              @ [or (push_bit 4 (of_nat (length padding))) (vm_security vc), 0, cmd]
              @ put16 port @ [atyp] @ addr @ padding
        in buf @ fnv1a buf)"

definition vmess_Request :: "vcrypto \<Rightarrow> vmess_draw \<Rightarrow> byte \<Rightarrow> vmess_conn \<Rightarrow> conn \<Rightarrow> go_error option \<times> conn" where
  "vmess_Request C d cmd vc c =
     (let buf = request_header vc (vd_padding d) cmd; key = vu_CmdKey (vm_user vc) in
      conn_write
        (if vm_aead vc then sealVMessAEADHeader C d key buf
         else vc_cfb_enc C key (TimestampHash C (vd_now d)) buf) c)"

definition vmess_Auth :: "vcrypto \<Rightarrow> vmess_draw \<Rightarrow> vmess_conn \<Rightarrow> conn \<Rightarrow> go_error option \<times> conn" where
  "vmess_Auth C d vc c = conn_write (hmac (vc_md5 C) (vu_UUID (vm_user vc)) (put64 (vd_now d))) c"

definition vmess_NewConn ::
  "vcrypto \<Rightarrow> vmess_draw \<Rightarrow> vmess_Client \<Rightarrow> string \<Rightarrow> byte \<Rightarrow> conn \<Rightarrow> vmess_conn result \<times> conn" where
  "vmess_NewConn C d cl target cmd c =
     (case vmess_ParseAddr target of
        Inl e \<Rightarrow> (Inl e, c)
      | Inr a \<Rightarrow>
          let iv = take 16 (vd_body d); key = take 16 (drop 16 (vd_body d));
              h = (if vc_aead cl then (\<lambda>b. take 16 (vc_sha256 C b)) else vc_md5 C);
              vc = \<lparr>vm_user = vc_users cl ! vd_user d, vm_opt = vc_opt cl, vm_aead = vc_aead cl, vm_security = vc_security cl,
                    vm_target = a, vm_reqIV = iv, vm_reqKey = key, vm_respV = vd_respV d, vm_respIV = h iv, vm_respKey = h key,
                    vm_reader = None, vm_writer = None\<rparr>
          in (case (if vc_aead cl then (None, c) else vmess_Auth C d vc c) of
                (Some e, c1) \<Rightarrow> (Inl e, c1)
              | (None, c1) \<Rightarrow>
                  (case vmess_Request C d cmd vc c1 of
                     (Some e, c2) \<Rightarrow> (Inl e, c2)
                   | (None, c2) \<Rightarrow> (Inr vc, c2))))"

text \<open>The answer of the server.  The length of the AEAD header has 16 bits, to which 16 is added without a carry.\<close>

definition openVMessAEADHeader :: "vcrypto \<Rightarrow> bytes \<Rightarrow> bytes \<Rightarrow> bytes io" where
  "openVMessAEADHeader C key iv =
     io_bind (read_full 18) (\<lambda>l.
     case vc_gcm_Open C (take 16 (kdf C key [str_bytes ''AEAD Resp Header Len Key'']))
            (take 12 (kdf C iv [str_bytes ''AEAD Resp Header Len IV''])) [] l of
       None \<Rightarrow> io_fail (ErrMsg ''message authentication failed'')
     | Some n \<Rightarrow>
         io_bind (read_full (unat (the (get16 n) + 16))) (\<lambda>enc.
         case vc_gcm_Open C (take 16 (kdf C key [str_bytes ''AEAD Resp Header Key'']))
                (take 12 (kdf C iv [str_bytes ''AEAD Resp Header IV''])) [] enc of
           None \<Rightarrow> io_fail (ErrMsg ''message authentication failed'')
         | Some b \<Rightarrow> io_ret b))"

definition check_response :: "byte \<Rightarrow> bytes \<Rightarrow> unit io" where
  "check_response v buf =
     (if buf ! 0 \<noteq> v then io_fail (ErrMsg ''unexpected response header'')
      else if buf ! 2 \<noteq> 0 then io_fail (ErrMsg ''dynamic port is not supported now'')
      else io_ret ())"

definition DecodeRespHeader :: "vcrypto \<Rightarrow> vmess_conn \<Rightarrow> unit io" where
  "DecodeRespHeader C vc =
     (if vm_aead vc then
        io_bind (openVMessAEADHeader C (vm_respKey vc) (vm_respIV vc)) (\<lambda>buf.
        if length buf < 4 then io_fail (ErrMsg ''unexpected buffer length'') else check_response (vm_respV vc) buf)
      else
        io_bind (read_full 4) (\<lambda>b. check_response (vm_respV vc) (vc_cfb_dec C (vm_respKey vc) (vm_respIV vc) b)))"

definition chacha_key :: "vcrypto \<Rightarrow> bytes \<Rightarrow> bytes" where
  "chacha_key C key = (let t = vc_md5 C key in t @ vc_md5 C (take 16 t))"

definition body_seal :: "vcrypto \<Rightarrow> byte \<Rightarrow> bytes \<Rightarrow> bytes \<Rightarrow> bytes \<Rightarrow> bytes" where
  "body_seal C security key nonce b =
     (if security = SecurityAES128GCM then vc_gcm_Seal C key nonce [] b
      else vc_chacha_Seal C (chacha_key C key) nonce [] b)"

definition body_open :: "vcrypto \<Rightarrow> byte \<Rightarrow> bytes \<Rightarrow> bytes \<Rightarrow> bytes \<Rightarrow> bytes option" where
  "body_open C security key nonce b =
     (if security = SecurityAES128GCM then vc_gcm_Open C key nonce [] b
      else vc_chacha_Open C (chacha_key C key) nonce [] b)"

definition new_writer :: "vmess_conn \<Rightarrow> vm_writer" where
  "new_writer vc =
     (if and (vm_opt vc) OptChunkStream = OptChunkStream then
        if vm_security vc = SecurityNone then ChunkedWriter 0
        else if vm_security vc \<in> {SecurityAES128GCM, SecurityChacha20Poly1305} then SealedWriter 0 0
        else RawWriter
      else RawWriter)"

definition new_reader :: "vmess_conn \<Rightarrow> vm_reader" where
  "new_reader vc =
     (if and (vm_opt vc) OptChunkStream = OptChunkStream then
        if vm_security vc = SecurityNone then ChunkedReader \<lparr>cr_pos = 0, cr_left = 0\<rparr>
        else if vm_security vc \<in> {SecurityAES128GCM, SecurityChacha20Poly1305} then
          SealedReader \<lparr>sr_pos = 0, sr_count = 0, sr_buf = None, sr_offset = 0\<rparr>
        else RawReader
      else RawReader)"

definition vmess_Write :: "vcrypto \<Rightarrow> bytes \<Rightarrow> vmess_conn \<Rightarrow> conn \<Rightarrow> (nat \<times> go_error option) \<times> vmess_conn \<times> conn" where
  "vmess_Write C b vc c =
     (case (case vm_writer vc of None \<Rightarrow> new_writer vc | Some w \<Rightarrow> w) of
        RawWriter \<Rightarrow>
          (case conn_write b c of
             (None, c') \<Rightarrow> ((length b, None), vc\<lparr>vm_writer := Some RawWriter\<rparr>, c')
           | (Some e, c') \<Rightarrow> ((0, Some e), vc\<lparr>vm_writer := Some RawWriter\<rparr>, c'))
      | ChunkedWriter k \<Rightarrow>
          (case chunked_Write (vc_shake C (vm_reqIV vc)) k 0 b c of
             (r, k', c') \<Rightarrow> (r, vc\<lparr>vm_writer := Some (ChunkedWriter k')\<rparr>, c'))
      | SealedWriter k n \<Rightarrow>
          (case sealed_Write (body_seal C (vm_security vc) (vm_reqKey vc)) (vm_reqIV vc) (vc_shake C (vm_reqIV vc)) k n 0 b c of
             (r, (k', n'), c') \<Rightarrow> (r, vc\<lparr>vm_writer := Some (SealedWriter k' n')\<rparr>, c')))"

definition read_body :: "vcrypto \<Rightarrow> nat \<Rightarrow> vm_reader \<Rightarrow> vmess_conn \<Rightarrow> conn \<Rightarrow> (bytes \<times> go_error option) \<times> vmess_conn \<times> conn" where
  "read_body C len r vc c =
     (case r of
        RawReader \<Rightarrow> (case raw_Read len c of (x, c') \<Rightarrow> (x, vc\<lparr>vm_reader := Some RawReader\<rparr>, c'))
      | ChunkedReader cr \<Rightarrow>
          (case chunked_Read (vc_shake C (vm_respIV vc)) len cr c of
             (x, cr', c') \<Rightarrow> (x, vc\<lparr>vm_reader := Some (ChunkedReader cr')\<rparr>, c'))
      | SealedReader sr \<Rightarrow>
          (case sealed_Read (body_open C (vm_security vc) (vm_respKey vc)) (vm_respIV vc) (vc_shake C (vm_respIV vc)) len sr c of
             (x, sr', c') \<Rightarrow> (x, vc\<lparr>vm_reader := Some (SealedReader sr')\<rparr>, c')))"

definition vmess_Read :: "vcrypto \<Rightarrow> nat \<Rightarrow> vmess_conn \<Rightarrow> conn \<Rightarrow> (bytes \<times> go_error option) \<times> vmess_conn \<times> conn" where
  "vmess_Read C len vc c =
     (case vm_reader vc of
        Some r \<Rightarrow> read_body C len r vc c
      | None \<Rightarrow>
          (case DecodeRespHeader C vc c of
             (Inl e, c1) \<Rightarrow> (([], Some (case e of Panic m \<Rightarrow> Panic m | _ \<Rightarrow> ErrMsg ''error in DecodeRespHeader'')), vc, c1)
           | (Inr _, c1) \<Rightarrow> read_body C len (new_reader vc) vc c1))"

text \<open>\<open>Dial\<close> and \<open>DialUDP\<close>: \<open>rc\<close> is the connection to the server, when the dialer reaches it.\<close>

definition vmess_Dial :: "vcrypto \<Rightarrow> vmess_draw \<Rightarrow> vmess_Client \<Rightarrow> conn option \<Rightarrow> byte \<Rightarrow> string \<Rightarrow> vmess_conn result \<times> conn option" where
  "vmess_Dial C d cl rc cmd addr =
     (case rc of
        None \<Rightarrow> (Inl (ErrMsg ''dial error''), None)
      | Some c \<Rightarrow> (case vmess_NewConn C d cl addr cmd c of (r, c') \<Rightarrow> (r, Some c')))"

section \<open>The body\<close>

lemma size_Decode_Encode [simp]: "size_Decode shake k (size_Encode shake k w) = w"
proof -
  have "get16 (put16 v) = Some v" for v using get16_put16 [of v "[]"] by simp
  then show ?thesis by (simp add: size_Decode_def size_Encode_def bit_eq_iff bit_simps)
qed

lemma length_size_Encode [simp]: "length (size_Encode shake k w) = 2"
  by (simp add: size_Encode_def)

lemma read_size: "rd c = size_Encode shake k w @ rest \<Longrightarrow> read_full 2 c = (Inr (size_Encode shake k w), c\<lparr>rd := rest\<rparr>)"
  by simp

subsection \<open>Masked chunks\<close>

fun enc_chunks :: "(nat \<Rightarrow> u16) \<Rightarrow> nat \<Rightarrow> bytes list \<Rightarrow> bytes" where
  "enc_chunks shake k [] = []"
| "enc_chunks shake k (b # bs) = size_Encode shake k (of_nat (length b)) @ b @ enc_chunks shake (k + 1) bs"

definition chunk_rel :: "(nat \<Rightarrow> u16) \<Rightarrow> chunked_reader \<Rightarrow> conn \<Rightarrow> pipe \<Rightarrow> bool" where
  "chunk_rel shake r c p =
     (rd c = fst p @ enc_chunks shake (cr_pos r) (snd p) \<and> cr_left r = length (fst p) \<and>
      list_all (\<lambda>b. length b < 2 ^ 16) (snd p))"

lemma chunked_Read_step:
  assumes rel: "chunk_rel shake r c p" and n: "0 < n" and rd: "pipe_read n p = Some (b, p')"
  shows "\<exists>r' c'. chunked_Read shake n r c = ((b, None), r', c') \<and> chunk_rel shake r' c' p'"
proof (cases "fst p = []")
  case Cons: False
  then have b: "b = take n (fst p)" "p' = (drop n (fst p), snd p)"
    using rd by (auto simp: pipe_read_def split: prod.splits list.splits)
  have r: "raw_Read (min n (cr_left r)) c = ((b, None), c\<lparr>rd := drop n (fst p) @ enc_chunks shake (cr_pos r) (snd p)\<rparr>)"
    using rel Cons b by (auto simp: raw_Read_def chunk_rel_def min_def)
  have "cr_left r \<noteq> 0" using rel Cons by (simp add: chunk_rel_def)
  then show ?thesis using r rel b by (auto simp: chunked_Read_def chunk_rel_def min_def)
next
  case True
  then obtain b' ps where p: "p = ([], b' # ps)" and b: "b = take n b'" "p' = (drop n b', ps)"
    using rd by (auto simp: pipe_read_def split: prod.splits list.splits)
  have len: "length b' < 2 ^ 16" and in_: "rd c = size_Encode shake (cr_pos r) (of_nat (length b')) @ b' @ enc_chunks shake (cr_pos r + 1) ps"
    and left: "cr_left r = 0" and ps: "list_all (\<lambda>b. length b < 2 ^ 16) ps"
    using rel p by (simp_all add: chunk_rel_def)
  have w: "unat (of_nat (length b') :: u16) = length b'" using len by (simp add: unat_of_nat)
  show ?thesis
    using left ps b n
    by (cases "b' = []") (auto simp: chunked_Read_def read_size [OF in_] w raw_Read_def chunk_rel_def min_def)
qed

interpretation vch: stream_reader "chunk_rel shake" "chunked_Read shake" for shake
proof
  fix r c and n :: nat
  assume "chunk_rel shake r c ([], [])"
  then show "\<exists>r' c'. chunked_Read shake n r c = (([], Some EOF), r', c')"
    by (simp add: chunk_rel_def chunked_Read_def read_full_def)
qed (rule chunked_Read_step)

subsection \<open>Sealed chunks\<close>

fun enc_sealed :: "(bytes \<Rightarrow> bytes \<Rightarrow> bytes) \<Rightarrow> bytes \<Rightarrow> (nat \<Rightarrow> u16) \<Rightarrow> nat \<Rightarrow> u16 \<Rightarrow> bytes list \<Rightarrow> bytes" where
  "enc_sealed seal iv shake k n [] = []"
| "enc_sealed seal iv shake k n (b # bs) =
     size_Encode shake k (of_nat (length b + Overhead)) @ seal (chunk_nonce iv n) b @ enc_sealed seal iv shake (k + 1) (n + 1) bs"

definition seals :: "(bytes \<Rightarrow> bytes \<Rightarrow> bytes) \<Rightarrow> (bytes \<Rightarrow> bytes \<Rightarrow> bytes option) \<Rightarrow> bool" where
  "seals seal opn \<longleftrightarrow> (\<forall>n b. opn n (seal n b) = Some b \<and> length (seal n b) = length b + Overhead)"

definition sealed_ok :: "bytes \<Rightarrow> bool" where
  "sealed_ok b \<longleftrightarrow> b \<noteq> [] \<and> length b + Overhead \<le> chunkSize"

definition sealed_rel ::
  "(bytes \<Rightarrow> bytes \<Rightarrow> bytes) \<Rightarrow> (bytes \<Rightarrow> bytes \<Rightarrow> bytes option) \<Rightarrow> bytes \<Rightarrow> (nat \<Rightarrow> u16) \<Rightarrow> sealed_reader \<Rightarrow> conn \<Rightarrow> pipe \<Rightarrow> bool" where
  "sealed_rel seal opn iv shake r c p \<longleftrightarrow>
     seals seal opn \<and> rd c = enc_sealed seal iv shake (sr_pos r) (sr_count r) (snd p) \<and> list_all sealed_ok (snd p) \<and>
     (case sr_buf r of
        None \<Rightarrow> fst p = []
      | Some buf \<Rightarrow> sr_offset r < length buf \<and> fst p = drop (sr_offset r) buf)"

lemma sealed_read1_sealed:
  assumes "seals seal opn" "sealed_ok b" "chunkSize \<le> len"
    and "rd c = enc_sealed seal iv shake (sr_pos r) (sr_count r) (b # bs)"
  shows "sealed_read1 opn iv shake len r c =
    (Inr b, r\<lparr>sr_pos := sr_pos r + 1, sr_count := sr_count r + 1\<rparr>,
     c\<lparr>rd := enc_sealed seal iv shake (sr_pos r + 1) (sr_count r + 1) bs\<rparr>)"
proof -
  let ?l = "length b + Overhead"
  have l: "?l \<le> chunkSize" "b \<noteq> []" using assms(2) by (simp_all add: sealed_ok_def)
  then have w: "unat (of_nat ?l :: u16) = ?l" by (simp add: chunkSize_def unat_of_nat del: of_nat_add)
  have h: "read_full 2 c = (Inr (size_Encode shake (sr_pos r) (of_nat ?l)),
      c\<lparr>rd := seal (chunk_nonce iv (sr_count r)) b @ enc_sealed seal iv shake (sr_pos r + 1) (sr_count r + 1) bs\<rparr>)"
    by (rule read_size) (simp add: assms(4))
  have sl: "length (seal (chunk_nonce iv (sr_count r)) b) = ?l" "opn (chunk_nonce iv (sr_count r)) (seal (chunk_nonce iv (sr_count r)) b) = Some b"
    using assms(1) by (simp_all add: seals_def)
  have d: "read_full ?l (c\<lparr>rd := seal (chunk_nonce iv (sr_count r)) b @ enc_sealed seal iv shake (sr_pos r + 1) (sr_count r + 1) bs\<rparr>) =
      (Inr (seal (chunk_nonce iv (sr_count r)) b), c\<lparr>rd := enc_sealed seal iv shake (sr_pos r + 1) (sr_count r + 1) bs\<rparr>)"
    using read_full_ok [of "c\<lparr>rd := seal (chunk_nonce iv (sr_count r)) b @ enc_sealed seal iv shake (sr_pos r + 1) (sr_count r + 1) bs\<rparr>"] sl(1) by simp
  have "\<not> (?l \<le> Overhead \<or> ?l > len)" using l assms(3) by simp
  then show ?thesis unfolding sealed_read1_def h Let_def by (simp only: prod.case sum.case size_Decode_Encode w d sl(2) if_False option.case sealed_reader.simps) simp
qed

lemma sealed_copy_rel:
  assumes "seals seal opn" "rd c = enc_sealed seal iv shake (sr_pos r) (sr_count r) ps" "list_all sealed_ok ps"
    and "sr_offset r < length buf" "0 < n"
  shows "\<exists>r'. sealed_copy n r buf = (take n (drop (sr_offset r) buf), r') \<and>
    sealed_rel seal opn iv shake r' c (drop n (drop (sr_offset r) buf), ps)"
  using assms by (auto simp: sealed_copy_def Let_def sealed_rel_def min_def add.commute)

lemma sealed_Read_step:
  assumes rel: "sealed_rel seal opn iv shake r c p" and n: "0 < n" and rd: "pipe_read n p = Some (b, p')"
  shows "\<exists>r' c'. sealed_Read opn iv shake n r c = ((b, None), r', c') \<and> sealed_rel seal opn iv shake r' c' p'"
proof (cases "sr_buf r")
  case None
  then obtain b' ps where p: "p = ([], b' # ps)" and b: "b = take n b'" "p' = (drop n b', ps)"
    using rel rd by (auto simp: sealed_rel_def pipe_read_def split: prod.splits list.splits)
  have pre: "seals seal opn" "sealed_ok b'" "rd c = enc_sealed seal iv shake (sr_pos r) (sr_count r) (b' # ps)" "list_all sealed_ok ps"
    using rel p by (simp_all add: sealed_rel_def)
  note one = sealed_read1_sealed [OF pre(1,2) _ pre(3)]
  let ?c = "c\<lparr>rd := enc_sealed seal iv shake (sr_pos r + 1) (sr_count r + 1) ps\<rparr>"
  let ?r = "r\<lparr>sr_pos := sr_pos r + 1, sr_count := sr_count r + 1, sr_offset := 0\<rparr>"
  show ?thesis
  proof (cases "chunkSize \<le> n")
    case True
    then have "take n b' = b'" "drop n b' = []" using pre(2) by (simp_all add: sealed_ok_def)
    then show ?thesis using None one [OF True] True pre b by (simp add: sealed_Read_def sealed_rel_def)
  next
    case False
    have ne: "b' \<noteq> []" using pre(2) by (simp add: sealed_ok_def)
    have "\<exists>r'. sealed_copy n ?r b' = (take n b', r') \<and> sealed_rel seal opn iv shake r' ?c (drop n b', ps)"
      using sealed_copy_rel [of seal opn ?c iv shake ?r ps b' n] pre ne n by simp
    then show ?thesis using None False one [OF order_refl] ne b by (auto simp: sealed_Read_def)
  qed
next
  case (Some buf)
  then have "b = take n (drop (sr_offset r) buf)" "p' = (drop n (drop (sr_offset r) buf), snd p)"
    using rel rd by (auto simp: sealed_rel_def pipe_read_def simp del: drop_drop split: prod.splits list.splits)
  then show ?thesis
    using sealed_copy_rel [of seal opn c iv shake r "snd p" buf n] rel n Some by (auto simp: sealed_Read_def sealed_rel_def)
qed

interpretation vse: stream_reader "sealed_rel seal opn iv shake" "sealed_Read opn iv shake" for seal opn iv shake
proof
  fix r c and n :: nat
  assume "sealed_rel seal opn iv shake r c ([], [])"
  then show "\<exists>r' c'. sealed_Read opn iv shake n r c = (([], Some EOF), r', c')"
    by (auto simp: sealed_rel_def sealed_Read_def sealed_read1_def read_full_def split: option.splits)
qed (rule sealed_Read_step)

subsection \<open>Writing\<close>

lemma write2_open: "wleft c = None \<Longrightarrow> write2 a b c = (None, c\<lparr>wr := wr c @ a @ b\<rparr>)"
  by (simp add: write2_def)

lemma enc_chunks_append: "enc_chunks shake k (xs @ ys) = enc_chunks shake k xs @ enc_chunks shake (k + length xs) ys"
  by (induction xs arbitrary: k) simp_all

lemma enc_sealed_append:
  "enc_sealed seal iv shake k n (xs @ ys) =
     enc_sealed seal iv shake k n xs @ enc_sealed seal iv shake (k + length xs) (n + of_nat (length xs)) ys"
  by (induction xs arbitrary: k n) (simp_all add: add.assoc)

lemma chunked_Write_open:
  "wleft c = None \<Longrightarrow>
   \<exists>bs. chunked_Write shake k n p c = ((n + length p, None), k + length bs, c\<lparr>wr := wr c @ enc_chunks shake k bs\<rparr>) \<and>
     concat bs = p \<and> list_all (\<lambda>b. length b < 2 ^ 16) bs"
proof (induction shake k n p c rule: chunked_Write.induct)
  case (1 shake k n p c)
  show ?case
  proof (cases "p = []")
    case True
    then show ?thesis by (intro exI [of _ "[]"]) (simp add: chunked_Write.simps)
  next
    case False
    define d where "d = min (length p) chunkSize"
    let ?c = "c\<lparr>wr := wr c @ size_Encode shake k (of_nat d) @ take d p\<rparr>"
    have w: "write2 (size_Encode shake k (of_nat d)) (take d p) c = (None, ?c)" using "1.prems" by (rule write2_open)
    obtain bs where bs: "chunked_Write shake (k + 1) (n + d) (drop d p) ?c =
        ((n + d + length (drop d p), None), k + 1 + length bs, ?c\<lparr>wr := wr ?c @ enc_chunks shake (k + 1) bs\<rparr>)"
      "concat bs = drop d p" "list_all (\<lambda>b. length b < 2 ^ 16) bs"
      using "1.IH" [OF False d_def w [symmetric] refl] "1.prems" by auto
    have "chunked_Write shake k n p c = chunked_Write shake (k + 1) (n + d) (drop d p) ?c"
      using False w by (subst chunked_Write.simps) (simp add: Let_def d_def)
    moreover have "length (take d p) = d" "d < 2 ^ 16" by (simp_all add: d_def chunkSize_def)
    ultimately show ?thesis using bs
      by (intro exI [of _ "take d p # bs"]) (auto simp: d_def)
  qed
qed

lemma sealed_Write_open:
  "wleft c = None \<Longrightarrow>
   \<exists>bs. sealed_Write seal iv shake k m n p c =
       ((n + length p, None), (k + length bs, m + of_nat (length bs)), c\<lparr>wr := wr c @ enc_sealed seal iv shake k m bs\<rparr>) \<and>
     concat bs = p \<and> list_all sealed_ok bs"
proof (induction seal iv shake k m n p c rule: sealed_Write.induct)
  case (1 seal iv shake k m n p c)
  show ?case
  proof (cases "p = []")
    case True
    then show ?thesis by (intro exI [of _ "[]"]) (simp add: sealed_Write.simps)
  next
    case False
    define l where "l = min (length p + Overhead) chunkSize"
    define d where "d = l - Overhead"
    let ?c = "c\<lparr>wr := wr c @ size_Encode shake k (of_nat l) @ seal (chunk_nonce iv m) (take d p)\<rparr>"
    have w: "write2 (size_Encode shake k (of_nat l)) (seal (chunk_nonce iv m) (take d p)) c = (None, ?c)"
      using "1.prems" by (rule write2_open)
    obtain bs where bs: "sealed_Write seal iv shake (k + 1) (m + 1) (n + d) (drop d p) ?c =
        ((n + d + length (drop d p), None), (k + 1 + length bs, m + 1 + of_nat (length bs)),
         ?c\<lparr>wr := wr ?c @ enc_sealed seal iv shake (k + 1) (m + 1) bs\<rparr>)"
      "concat bs = drop d p" "list_all sealed_ok bs"
      using "1.IH" [OF False l_def d_def w [symmetric] refl] "1.prems" by auto
    have go: "sealed_Write seal iv shake k m n p c = sealed_Write seal iv shake (k + 1) (m + 1) (n + d) (drop d p) ?c"
      using False w by (subst sealed_Write.simps) (simp add: Let_def d_def l_def)
    have d: "0 < d" "d \<le> length p" "length (take d p) = d" "d + Overhead = l" "d + Overhead \<le> chunkSize"
      using False by (auto simp: d_def l_def chunkSize_def Overhead_def min_def neq_Nil_conv)
    then have "sealed_ok (take d p)" using False by (simp add: sealed_ok_def)
    then show ?thesis using bs d go
      by (intro exI [of _ "take d p # bs"]) (auto simp: algebra_simps)
  qed
qed

text \<open>The bytes of the body that a connection writes for some pieces of data.\<close>

definition body_bytes :: "vcrypto \<Rightarrow> vmess_conn \<Rightarrow> vm_writer \<Rightarrow> bytes list \<Rightarrow> bytes" where
  "body_bytes C vc w bs =
     (case w of
        RawWriter \<Rightarrow> concat bs
      | ChunkedWriter k \<Rightarrow> enc_chunks (vc_shake C (vm_reqIV vc)) k bs
      | SealedWriter k n \<Rightarrow> enc_sealed (body_seal C (vm_security vc) (vm_reqKey vc)) (vm_reqIV vc) (vc_shake C (vm_reqIV vc)) k n bs)"

definition piece_ok :: "vm_writer \<Rightarrow> bytes \<Rightarrow> bool" where
  "piece_ok w b = (case w of RawWriter \<Rightarrow> True | ChunkedWriter _ \<Rightarrow> length b < 2 ^ 16 | SealedWriter _ _ \<Rightarrow> sealed_ok b)"

definition later :: "nat \<Rightarrow> vm_writer \<Rightarrow> vm_writer" where
  "later j w = (case w of RawWriter \<Rightarrow> RawWriter | ChunkedWriter k \<Rightarrow> ChunkedWriter (k + j) | SealedWriter k n \<Rightarrow> SealedWriter (k + j) (n + of_nat j))"

definition the_writer :: "vmess_conn \<Rightarrow> vm_writer" where
  "the_writer vc = (case vm_writer vc of None \<Rightarrow> new_writer vc | Some w \<Rightarrow> w)"

definition vmess_writes :: "vcrypto \<Rightarrow> bytes list \<Rightarrow> vmess_conn \<times> conn \<Rightarrow> vmess_conn \<times> conn" where
  "vmess_writes C ps s = fold (\<lambda>b (vc, c). snd (vmess_Write C b vc c)) ps s"

lemma vmess_Write_open:
  assumes "wleft c = None"
  shows "\<exists>bs. vmess_Write C p vc c = ((length p, None), vc\<lparr>vm_writer := Some (later (length bs) (the_writer vc))\<rparr>,
       c\<lparr>wr := wr c @ body_bytes C vc (the_writer vc) bs\<rparr>) \<and>
     concat bs = p \<and> list_all (piece_ok (the_writer vc)) bs"
proof (cases "the_writer vc")
  case RawWriter
  then show ?thesis using assms
    by (intro exI [of _ "[p]"]) (simp add: vmess_Write_def body_bytes_def piece_ok_def later_def flip: the_writer_def)
next
  case (ChunkedWriter k)
  obtain bs where "chunked_Write (vc_shake C (vm_reqIV vc)) k 0 p c =
      ((0 + length p, None), k + length bs, c\<lparr>wr := wr c @ enc_chunks (vc_shake C (vm_reqIV vc)) k bs\<rparr>)"
    "concat bs = p" "list_all (\<lambda>b. length b < 2 ^ 16) bs" using chunked_Write_open [OF assms] by blast
  with ChunkedWriter show ?thesis
    by (intro exI [of _ bs]) (simp add: vmess_Write_def body_bytes_def piece_ok_def [abs_def] later_def flip: the_writer_def)
next
  case (SealedWriter k n)
  let ?s = "body_seal C (vm_security vc) (vm_reqKey vc)"
  obtain bs where "sealed_Write ?s (vm_reqIV vc) (vc_shake C (vm_reqIV vc)) k n 0 p c =
      ((0 + length p, None), (k + length bs, n + of_nat (length bs)),
       c\<lparr>wr := wr c @ enc_sealed ?s (vm_reqIV vc) (vc_shake C (vm_reqIV vc)) k n bs\<rparr>)"
    "concat bs = p" "list_all sealed_ok bs" using sealed_Write_open [OF assms] by blast
  with SealedWriter show ?thesis
    by (intro exI [of _ bs]) (simp add: vmess_Write_def body_bytes_def piece_ok_def [abs_def] later_def flip: the_writer_def)
qed

lemma body_bytes_append: "body_bytes C vc w (xs @ ys) = body_bytes C vc w xs @ body_bytes C vc (later (length xs) w) ys"
  by (cases w) (simp_all add: body_bytes_def later_def enc_chunks_append enc_sealed_append)

lemma piece_ok_later [simp]: "piece_ok (later j w) = piece_ok w"
  by (cases w) (simp_all add: piece_ok_def later_def fun_eq_iff)

lemma vmess_writes_open:
  assumes "wleft c = None"
  shows "\<exists>bs. wr (snd (vmess_writes C ps (vc, c))) = wr c @ body_bytes C vc (the_writer vc) bs \<and>
     concat bs = concat ps \<and> list_all (piece_ok (the_writer vc)) bs"
  using assms
proof (induction ps arbitrary: vc c)
  case Nil
  then show ?case
    by (intro exI [of _ "[]"]) (cases "the_writer vc"; simp add: vmess_writes_def body_bytes_def)
next
  case (Cons p ps)
  obtain bs where bs: "vmess_Write C p vc c = ((length p, None), vc\<lparr>vm_writer := Some (later (length bs) (the_writer vc))\<rparr>,
       c\<lparr>wr := wr c @ body_bytes C vc (the_writer vc) bs\<rparr>)" "concat bs = p" "list_all (piece_ok (the_writer vc)) bs"
    using vmess_Write_open [OF Cons.prems] by blast
  let ?vc = "vc\<lparr>vm_writer := Some (later (length bs) (the_writer vc))\<rparr>" and ?c = "c\<lparr>wr := wr c @ body_bytes C vc (the_writer vc) bs\<rparr>"
  have tw: "the_writer ?vc = later (length bs) (the_writer vc)" by (simp add: the_writer_def)
  obtain bs' where bs': "wr (snd (vmess_writes C ps (?vc, ?c))) = wr ?c @ body_bytes C ?vc (the_writer ?vc) bs'"
    "concat bs' = concat ps" "list_all (piece_ok (the_writer ?vc)) bs'"
    using Cons.IH [of ?c ?vc] Cons.prems by auto
  have "body_bytes C ?vc w bs' = body_bytes C vc w bs'" for w by (cases w) (simp_all add: body_bytes_def)
  then show ?case using bs bs' tw
    by (intro exI [of _ "bs @ bs'"]) (simp add: vmess_writes_def body_bytes_append)
qed

subsection \<open>Reading through a connection\<close>

definition reader_rel :: "vcrypto \<Rightarrow> vmess_conn \<Rightarrow> vm_reader \<Rightarrow> conn \<Rightarrow> pipe \<Rightarrow> bool" where
  "reader_rel C vc r c p =
     (case r of
        RawReader \<Rightarrow> snd p = [] \<and> rd c = fst p
      | ChunkedReader cr \<Rightarrow> chunk_rel (vc_shake C (vm_respIV vc)) cr c p
      | SealedReader sr \<Rightarrow>
          sealed_rel (body_seal C (vm_security vc) (vm_respKey vc)) (body_open C (vm_security vc) (vm_respKey vc))
            (vm_respIV vc) (vc_shake C (vm_respIV vc)) sr c p)"

definition vmess_rel :: "vcrypto \<Rightarrow> vmess_conn \<Rightarrow> conn \<Rightarrow> pipe \<Rightarrow> bool" where
  "vmess_rel C vc c p =
     (case vm_reader vc of
        Some r \<Rightarrow> reader_rel C vc r c p
      | None \<Rightarrow> (\<exists>c1. DecodeRespHeader C vc c = (Inr (), c1) \<and> reader_rel C vc (new_reader vc) c1 p))"

lemma vmess_Read_reduces:
  assumes "vmess_rel C vc c p"
  shows "\<exists>r c1. reader_rel C vc r c1 p \<and> (\<forall>n. vmess_Read C n vc c = read_body C n r vc c1)"
proof (cases "vm_reader vc")
  case None
  then obtain c1 where "DecodeRespHeader C vc c = (Inr (), c1)" "reader_rel C vc (new_reader vc) c1 p"
    using assms by (auto simp: vmess_rel_def)
  then show ?thesis using None by (intro exI [of _ "new_reader vc"] exI [of _ c1]) (simp add: vmess_Read_def)
next
  case (Some r)
  then show ?thesis using assms by (intro exI [of _ r] exI [of _ c]) (simp add: vmess_rel_def vmess_Read_def)
qed

lemma reader_rel_same:
  "reader_rel C (vc\<lparr>vm_reader := x\<rparr>) r c p = reader_rel C vc r c p"
  by (cases r) (simp_all add: reader_rel_def)

lemma read_body_end:
  assumes "reader_rel C vc r c ([], [])" "0 < n"
  shows "\<exists>vc' c'. read_body C n r vc c = (([], Some EOF), vc', c')"
  using assms
proof (cases r)
  case (ChunkedReader cr)
  then show ?thesis using vch.read_end [of _ cr c n] assms by (fastforce simp: reader_rel_def read_body_def)
next
  case (SealedReader sr)
  then show ?thesis using vse.read_end [of _ _ _ _ sr c n] assms by (fastforce simp: reader_rel_def read_body_def)
qed (simp add: reader_rel_def read_body_def raw_Read_def)

lemma read_body_step:
  assumes "reader_rel C vc r c p" "0 < n" "pipe_read n p = Some (b, p')"
  shows "\<exists>r' c'. read_body C n r vc c = ((b, None), vc\<lparr>vm_reader := Some r'\<rparr>, c') \<and> reader_rel C vc r' c' p'"
proof (cases r)
  case RawReader
  then have "fst p \<noteq> []" "b = take n (fst p)" "p' = (drop n (fst p), [])" "rd c = fst p" using assms
    by (auto simp: reader_rel_def pipe_read_def split: prod.splits list.splits)
  then show ?thesis using RawReader by (intro exI [of _ RawReader]) (simp add: read_body_def raw_Read_def reader_rel_def)
next
  case (ChunkedReader cr)
  then obtain cr' c' where "chunked_Read (vc_shake C (vm_respIV vc)) n cr c = ((b, None), cr', c')"
    "chunk_rel (vc_shake C (vm_respIV vc)) cr' c' p'"
    using vch.read_step [OF _ assms(2,3)] assms(1) by (fastforce simp: reader_rel_def)
  then show ?thesis using ChunkedReader by (intro exI [of _ "ChunkedReader cr'"]) (simp add: read_body_def reader_rel_def)
next
  case (SealedReader sr)
  let ?s = "body_seal C (vm_security vc) (vm_respKey vc)" and ?o = "body_open C (vm_security vc) (vm_respKey vc)"
  obtain sr' c' where "sealed_Read ?o (vm_respIV vc) (vc_shake C (vm_respIV vc)) n sr c = ((b, None), sr', c')"
    "sealed_rel ?s ?o (vm_respIV vc) (vc_shake C (vm_respIV vc)) sr' c' p'"
    using vse.read_step [OF _ assms(2,3), of ?s ?o "vm_respIV vc" "vc_shake C (vm_respIV vc)" sr c] assms(1) SealedReader
    by (auto simp: reader_rel_def)
  then show ?thesis using SealedReader by (intro exI [of _ "SealedReader sr'"]) (simp add: read_body_def reader_rel_def)
qed

interpretation vmr: stream_reader "vmess_rel C" "vmess_Read C" for C
proof
  fix vc c and n :: nat
  assume "vmess_rel C vc c ([], [])" "0 < n"
  then show "\<exists>vc' c'. vmess_Read C n vc c = (([], Some EOF), vc', c')"
    using vmess_Read_reduces read_body_end by metis
next
  fix vc c p b p' and n :: nat
  assume "vmess_rel C vc c p" and n: "0 < n" "pipe_read n p = Some (b, p')"
  then obtain r c1 where r: "reader_rel C vc r c1 p" "vmess_Read C n vc c = read_body C n r vc c1"
    using vmess_Read_reduces by metis
  obtain r' c' where "read_body C n r vc c1 = ((b, None), vc\<lparr>vm_reader := Some r'\<rparr>, c')" "reader_rel C vc r' c' p'"
    using read_body_step [OF r(1) n] by blast
  then show "\<exists>vc' c'. vmess_Read C n vc c = ((b, None), vc', c') \<and> vmess_rel C vc' c' p'"
    using r(2) by (intro exI [of _ "vc\<lparr>vm_reader := Some r'\<rparr>"]) (simp add: vmess_rel_def reader_rel_same)
qed

subsection \<open>The server's answer\<close>

text \<open>What the libraries promise of the AEADs.\<close>

definition vcrypto_ok :: "vcrypto \<Rightarrow> bool" where
  "vcrypto_ok C \<longleftrightarrow>
     (\<forall>k n ad b. vc_gcm_Open C k n ad (vc_gcm_Seal C k n ad b) = Some b \<and>
        length (vc_gcm_Seal C k n ad b) = length b + Overhead) \<and>
     (\<forall>k n ad b. vc_chacha_Open C k n ad (vc_chacha_Seal C k n ad b) = Some b \<and>
        length (vc_chacha_Seal C k n ad b) = length b + Overhead)"

lemma seals_body: "vcrypto_ok C \<Longrightarrow> seals (body_seal C sec key) (body_open C sec key)"
  by (simp add: vcrypto_ok_def seals_def body_seal_def body_open_def)

text \<open>The answer of a server that echoes the client's number and has no command for it.\<close>

definition answer_header :: "vcrypto \<Rightarrow> vmess_conn \<Rightarrow> byte \<Rightarrow> bytes" where
  "answer_header C vc opt =
     vc_gcm_Seal C (take 16 (kdf C (vm_respKey vc) [str_bytes ''AEAD Resp Header Len Key'']))
       (take 12 (kdf C (vm_respIV vc) [str_bytes ''AEAD Resp Header Len IV''])) [] (put16 4) @
     vc_gcm_Seal C (take 16 (kdf C (vm_respKey vc) [str_bytes ''AEAD Resp Header Key'']))
       (take 12 (kdf C (vm_respIV vc) [str_bytes ''AEAD Resp Header IV''])) [] [vm_respV vc, opt, 0, 0]"

lemma DecodeRespHeader_answer:
  assumes "vcrypto_ok C" "vm_aead vc" "rd c = answer_header C vc opt @ rest"
  shows "DecodeRespHeader C vc c = (Inr (), c\<lparr>rd := rest\<rparr>)"
proof -
  define lk where "lk = take 16 (kdf C (vm_respKey vc) [str_bytes ''AEAD Resp Header Len Key''])"
  define li where "li = take 12 (kdf C (vm_respIV vc) [str_bytes ''AEAD Resp Header Len IV''])"
  define pk where "pk = take 16 (kdf C (vm_respKey vc) [str_bytes ''AEAD Resp Header Key''])"
  define pi where "pi = take 12 (kdf C (vm_respIV vc) [str_bytes ''AEAD Resp Header IV''])"
  let ?l = "vc_gcm_Seal C lk li [] (put16 4)" and ?h = "vc_gcm_Seal C pk pi [] [vm_respV vc, opt, 0, 0]"
  have in_: "rd c = ?l @ ?h @ rest" using assms(3) by (simp add: answer_header_def lk_def li_def pk_def pi_def)
  have ok: "vc_gcm_Open C k n ad (vc_gcm_Seal C k n ad b) = Some b" "length (vc_gcm_Seal C k n ad b) = length b + 16" for k n ad b
    using assms(1) by (simp_all add: vcrypto_ok_def Overhead_def)
  have r1: "read_full 18 c = (Inr ?l, c\<lparr>rd := ?h @ rest\<rparr>)" using in_ ok(2) by (intro read_full_ok) simp_all
  have r2: "read_full 20 (c\<lparr>rd := ?h @ rest\<rparr>) = (Inr ?h, c\<lparr>rd := rest\<rparr>)"
    using read_full_ok [of "c\<lparr>rd := ?h @ rest\<rparr>" ?h rest 20] ok(2) by simp
  have g: "the (get16 (put16 4)) = 4" using get16_put16 [of 4 "[]"] by simp
  have "openVMessAEADHeader C (vm_respKey vc) (vm_respIV vc) c = (Inr [vm_respV vc, opt, 0, 0], c\<lparr>rd := rest\<rparr>)"
    by (simp add: openVMessAEADHeader_def r1 r2 ok(1) g io_ret_def flip: lk_def li_def pk_def pi_def)
  then show ?thesis using assms(2) by (simp add: DecodeRespHeader_def check_response_def io_ret_def)
qed

text \<open>The server's end of a connection: the same code with the keys of the answer.\<close>

definition peer :: "vmess_conn \<Rightarrow> vmess_conn" where
  "peer vc = vc\<lparr>vm_reqKey := vm_respKey vc, vm_reqIV := vm_respIV vc, vm_writer := None\<rparr>"

lemma reader_rel_fresh:
  assumes "vcrypto_ok C" "list_all (piece_ok (new_writer vc)) bs" "rd c = body_bytes C (peer vc) (new_writer vc) bs"
  shows "\<exists>p. reader_rel C vc (new_reader vc) c p \<and> pipe_bytes p = concat bs"
proof (cases "new_writer vc = RawWriter")
  case True
  then have "new_reader vc = RawReader" by (auto simp: new_writer_def new_reader_def split: if_splits)
  then show ?thesis using assms(3) True
    by (intro exI [of _ "(concat bs, [])"]) (simp add: reader_rel_def body_bytes_def pipe_bytes_def)
next
  case False
  then have "reader_rel C vc (new_reader vc) c ([], bs)"
    using assms seals_body [OF assms(1)]
    by (auto simp: new_writer_def new_reader_def reader_rel_def chunk_rel_def sealed_rel_def body_bytes_def peer_def
        piece_ok_def [abs_def] split: if_splits)
  then show ?thesis by (intro exI [of _ "([], bs)"]) (simp add: pipe_bytes_def)
qed


definition demo_vcrypto :: vcrypto where
  "demo_vcrypto =
     \<lparr>vc_md5 = (\<lambda>b. take 16 (b @ replicate 16 1)), vc_sha1 = (\<lambda>b. take 20 (b @ replicate 20 2)),
      vc_sha256 = (\<lambda>b. take 32 (b @ replicate 32 3)), vc_crc32 = (\<lambda>b. of_nat (length b)),
      vc_aes = (\<lambda>k b. take 16 (b @ replicate 16 0)),
      vc_cfb_enc = (\<lambda>k iv b. b), vc_cfb_dec = (\<lambda>k iv b. b),
      vc_gcm_Seal = (\<lambda>k n ad b. b @ replicate 16 0), vc_gcm_Open = (\<lambda>k n ad b. Some (take (length b - 16) b)),
      vc_chacha_Seal = (\<lambda>k n ad b. b @ replicate 16 0), vc_chacha_Open = (\<lambda>k n ad b. Some (take (length b - 16) b)),
      vc_shake = (\<lambda>iv k. of_nat (7 * k))\<rparr>"

lemma demo_vcrypto_ok [simp]: "vcrypto_ok demo_vcrypto"
  by (simp add: vcrypto_ok_def demo_vcrypto_def Overhead_def)

definition demo_vmess :: "byte \<Rightarrow> vmess_conn" where
  "demo_vmess sec =
     \<lparr>vm_user = \<lparr>vu_UUID = replicate 16 1, vu_CmdKey = replicate 16 2\<rparr>, vm_opt = 5, vm_aead = True, vm_security = sec,
      vm_target = (AtypIP4, [1, 2, 3, 4], 80), vm_reqIV = replicate 16 3, vm_reqKey = replicate 16 4, vm_respV = 9,
      vm_respIV = replicate 16 5, vm_respKey = replicate 16 6, vm_reader = None, vm_writer = None\<rparr>"

lemma demo_vmess_sel: "vm_aead (demo_vmess sec)" "vm_reader (demo_vmess sec) = None"
  by (simp_all add: demo_vmess_def)


section \<open>The request\<close>

text \<open>The server's side of the protocol: it opens the header with the user's key and reads its fields.\<close>

record vmess_request =
  vq_IV :: bytes
  vq_Key :: bytes
  vq_V :: byte
  vq_opt :: byte
  vq_security :: byte
  vq_cmd :: byte
  vq_target :: string

definition server_open_header :: "vcrypto \<Rightarrow> bytes \<Rightarrow> bytes io" where
  "server_open_header C key =
     io_bind (read_full 16) (\<lambda>authID.
     io_bind (read_full 18) (\<lambda>l.
     io_bind (read_full 8) (\<lambda>nonce.
     case vc_gcm_Open C (header_cipher C key ''VMess Header AEAD Key_Length'' 16 authID nonce)
            (header_cipher C key ''VMess Header AEAD Nonce_Length'' 12 authID nonce) authID l of
       None \<Rightarrow> io_fail (ErrMsg ''invalid length'')
     | Some n \<Rightarrow>
         io_bind (read_full (unat (the (get16 n)) + 16)) (\<lambda>enc.
         case vc_gcm_Open C (header_cipher C key ''VMess Header AEAD Key'' 16 authID nonce)
                (header_cipher C key ''VMess Header AEAD Nonce'' 12 authID nonce) authID enc of
           None \<Rightarrow> io_fail (ErrMsg ''invalid header'')
         | Some h \<Rightarrow> io_ret h))))"

definition server_fields :: "vmess_request io" where
  "server_fields =
     io_bind (read_full 1) (\<lambda>ver.
     io_bind (read_full 16) (\<lambda>iv.
     io_bind (read_full 16) (\<lambda>key.
     io_bind (read_full 5) (\<lambda>f.
     io_bind vless_ReadAddr (\<lambda>(atyp, host, port).
     io_bind (read_full (unat (drop_bit 4 (f ! 2)))) (\<lambda>padding.
     if ver = [1] then
       io_ret \<lparr>vq_IV = iv, vq_Key = key, vq_V = f ! 0, vq_opt = f ! 1, vq_security = and (f ! 2) 15, vq_cmd = f ! 4,
               vq_target = AddrString atyp host port\<rparr>
     else io_fail (ErrMsg ''invalid version'')))))))"

definition server_request :: "vcrypto \<Rightarrow> bytes \<Rightarrow> vmess_request io" where
  "server_request C key =
     io_bind (server_open_header C key) (\<lambda>h.
     case server_fields (open_conn h) of
       (Inl e, _) \<Rightarrow> io_fail e
     | (Inr q, c) \<Rightarrow>
         if fnv1a (take (length h - 4) h) = rd c then io_ret q else io_fail (ErrMsg ''invalid checksum''))"

lemma psec_fields:
  assumes "pad < 16" "sec \<in> {SecurityAES128GCM, SecurityChacha20Poly1305, SecurityNone}"
  shows "unat (drop_bit 4 (or (push_bit 4 (of_nat pad)) sec :: byte)) = pad" "and (or (push_bit 4 (of_nat pad)) sec) 15 = (sec :: byte)"
proof -
  have "pad = 0 \<or> pad = 1 \<or> pad = 2 \<or> pad = 3 \<or> pad = 4 \<or> pad = 5 \<or> pad = 6 \<or> pad = 7 \<or> pad = 8 \<or> pad = 9 \<or>
      pad = 10 \<or> pad = 11 \<or> pad = 12 \<or> pad = 13 \<or> pad = 14 \<or> pad = 15" using assms(1) by presburger
  then show "unat (drop_bit 4 (or (push_bit 4 (of_nat pad)) sec :: byte)) = pad" "and (or (push_bit 4 (of_nat pad)) sec) 15 = (sec :: byte)"
    using assms(2) by (auto simp: SecurityAES128GCM_def SecurityChacha20Poly1305_def SecurityNone_def)
qed

lemma server_fields_header:
  assumes "length (vm_reqIV vc) = 16" "length (vm_reqKey vc) = 16" "length padding < 16" "wf_vaddr (vm_target vc)"
    and "vm_security vc \<in> {SecurityAES128GCM, SecurityChacha20Poly1305, SecurityNone}"
  shows "\<exists>buf. request_header vc padding cmd = buf @ fnv1a buf \<and>
    (\<forall>sm. server_fields (open_conn (buf @ sm)) =
      (Inr \<lparr>vq_IV = vm_reqIV vc, vq_Key = vm_reqKey vc, vq_V = vm_respV vc, vq_opt = vm_opt vc, vq_security = vm_security vc,
            vq_cmd = cmd, vq_target = vless_target (vm_target vc)\<rparr>, open_conn sm))"
proof -
  obtain t h p where a: "vm_target vc = (t, h, p)" by (cases "vm_target vc")
  define ps where "ps = (or (push_bit 4 (of_nat (length padding))) (vm_security vc) :: byte)"
  define f where "f = [vm_respV vc, vm_opt vc, ps, 0, cmd]"
  define buf where "buf = [1] @ vm_reqIV vc @ vm_reqKey vc @ f @ vaddr_bytes (vm_target vc) @ padding"
  have b: "request_header vc padding cmd = buf @ fnv1a buf"
    by (simp add: request_header_def a buf_def f_def ps_def vaddr_bytes_def Let_def)
  note psec = psec_fields [OF assms(3,5), folded ps_def]
  let ?c = "\<lambda>x. open_conn x"
  have oc: "(open_conn x)\<lparr>rd := y\<rparr> = open_conn y" for x y by (simp add: open_conn_def)
  have rf: "read_full n (?c (x @ y)) = (Inr x, ?c y)" if "length x = n" for n x y
    using read_full_ok [of "?c (x @ y)" x y n] that oc by simp
  have ra: "vless_ReadAddr (?c (vaddr_bytes (vm_target vc) @ y)) = (Inr (t, wire_host (vm_target vc), p), ?c y)" for y
    using vless_ReadAddr_bytes [OF assms(4), of "?c (vaddr_bytes (vm_target vc) @ y)" y] a oc by simp
  have lf: "length f = 5" and fs: "f ! 0 = vm_respV vc" "f ! Suc 0 = vm_opt vc" "f ! 2 = ps" "f ! 4 = cmd" by (simp_all add: f_def)
  have "server_fields (?c (buf @ sm)) = (Inr \<lparr>vq_IV = vm_reqIV vc, vq_Key = vm_reqKey vc, vq_V = vm_respV vc,
      vq_opt = vm_opt vc, vq_security = vm_security vc, vq_cmd = cmd, vq_target = AddrString t (wire_host (vm_target vc)) p\<rparr>, ?c sm)" for sm
    unfolding server_fields_def buf_def append_assoc
    by (simp add: read_full_one oc rf lf fs ra assms(1,2) psec io_ret_def)
  then show ?thesis using b a by (intro exI [of _ buf]) (simp add: vless_target_def)
qed

lemma length_request_header:
  assumes "length (vm_reqIV vc) = 16" "length (vm_reqKey vc) = 16" "length padding < 16" "wf_vaddr (vm_target vc)"
  shows "length (request_header vc padding cmd) < 2 ^ 16"
proof -
  obtain t h p where a: "vm_target vc = (t, h, p)" by (cases "vm_target vc")
  have "unat (hd h) < 256" using unat_byte_less .
  then have "length h \<le> 256" using assms(4) a by (auto simp: wf_vaddr_def)
  then show ?thesis using assms(1-3) a by (simp add: request_header_def Let_def fnv1a_def)
qed

lemma server_open_sealed:
  assumes ok: "vcrypto_ok C" and aes: "\<And>k b. length (vc_aes C k b) = 16" and n: "length (vd_nonce d) = 8"
    and h: "length h < 2 ^ 16"
  shows "server_open_header C key (open_conn (sealVMessAEADHeader C d key h @ rest)) = (Inr h, open_conn rest)"
proof -
  define au where "au = createAuthID C d key"
  define l where "l = vc_gcm_Seal C (header_cipher C key ''VMess Header AEAD Key_Length'' 16 au (vd_nonce d))
      (header_cipher C key ''VMess Header AEAD Nonce_Length'' 12 au (vd_nonce d)) au (put16 (of_nat (length h)))"
  define e where "e = vc_gcm_Seal C (header_cipher C key ''VMess Header AEAD Key'' 16 au (vd_nonce d))
      (header_cipher C key ''VMess Header AEAD Nonce'' 12 au (vd_nonce d)) au h"
  have s: "sealVMessAEADHeader C d key h = au @ l @ vd_nonce d @ e"
    by (simp add: sealVMessAEADHeader_def Let_def au_def l_def e_def)
  have op: "vc_gcm_Open C k i ad (vc_gcm_Seal C k i ad b) = Some b" "length (vc_gcm_Seal C k i ad b) = length b + 16" for k i ad b
    using ok by (simp_all add: vcrypto_ok_def Overhead_def)
  have len: "length au = 16" "length l = 18" "length e = length h + 16"
    using aes op(2) by (simp_all add: au_def l_def e_def createAuthID_def Let_def)
  have g: "unat (the (get16 (put16 (of_nat (length h))))) = length h"
    using get16_put16 [of "of_nat (length h)" "[]"] h by (simp add: unat_of_nat)
  have rf: "read_full k (open_conn (x @ y)) = (Inr x, open_conn y)" if "length x = k" for k x y
    using that by (simp add: open_conn_def)
  have oc: "(open_conn x)\<lparr>rd := y\<rparr> = open_conn y" for x y by (simp add: open_conn_def)
  have ol: "vc_gcm_Open C (header_cipher C key ''VMess Header AEAD Key_Length'' 16 au (vd_nonce d))
      (header_cipher C key ''VMess Header AEAD Nonce_Length'' 12 au (vd_nonce d)) au l = Some (put16 (of_nat (length h)))"
    unfolding l_def by (rule op(1))
  have oe: "vc_gcm_Open C (header_cipher C key ''VMess Header AEAD Key'' 16 au (vd_nonce d))
      (header_cipher C key ''VMess Header AEAD Nonce'' 12 au (vd_nonce d)) au e = Some h"
    unfolding e_def by (rule op(1))
  show ?thesis
    unfolding server_open_header_def s append_assoc
    by (simp add: rf len n ol oe oc g io_ret_def)
qed

text \<open>Property C15.  A VMess server reads from the client's request what the client asked for.  With the default
  AEAD header, a server with the user's key that follows the protocol opens the header, finds its checksum right
  and reads the keys of the body, the number to echo, the options, the cipher, the command and the target that
  was dialed, written as for SOCKS; what follows on the stream is left for the body.\<close>

theorem vmess_request_understood:
  assumes "vcrypto_ok C" "\<And>k b. length (vc_aes C k b) = 16"
    and draw: "length (vd_body d) = 32" "length (vd_padding d) < 16" "length (vd_nonce d) = 8"
    and cl: "vc_aead cl" "vc_security cl \<in> {SecurityAES128GCM, SecurityChacha20Poly1305, SecurityNone}"
    and dial: "vmess_Dial C d cl (Some (open_conn [])) cmd addr = (Inr vc, Some rc)"
    and target: "ParseAddr_socks addr = Some a" "socks_String a = Inr target"
  shows "server_request C (vu_CmdKey (vc_users cl ! vd_user d)) (open_conn (wr rc @ body)) =
    (Inr \<lparr>vq_IV = vm_reqIV vc, vq_Key = vm_reqKey vc, vq_V = vm_respV vc, vq_opt = vc_opt cl, vq_security = vc_security cl,
          vq_cmd = cmd, vq_target = target\<rparr>, open_conn body)"
proof -
  obtain v where v: "vless_ParseAddr addr = Inr v" "target = vless_target v"
    using vless_ParseAddr_socks [OF target(1)] target(2) by auto
  let ?key = "vu_CmdKey (vc_users cl ! vd_user d)" and ?h = "request_header vc (vd_padding d) cmd"
  have vc: "length (vm_reqIV vc) = 16" "length (vm_reqKey vc) = 16" "vm_target vc = v" "vm_opt vc = vc_opt cl"
    "vm_security vc = vc_security cl" and rc: "wr rc = sealVMessAEADHeader C d ?key ?h"
    using dial cl(1) v draw(1)
    by (auto simp: vmess_Dial_def vmess_NewConn_def vmess_ParseAddr_def vmess_Request_def Let_def split: prod.splits option.splits)
  have wf: "wf_vaddr (vm_target vc)" using vless_ParseAddr_wf [OF v(1)] vc(3) by simp
  have h: "length ?h < 2 ^ 16" by (rule length_request_header [OF vc(1,2) draw(2) wf])
  obtain buf where buf: "?h = buf @ fnv1a buf" "server_fields (open_conn (buf @ fnv1a buf)) =
      (Inr \<lparr>vq_IV = vm_reqIV vc, vq_Key = vm_reqKey vc, vq_V = vm_respV vc, vq_opt = vm_opt vc, vq_security = vm_security vc,
            vq_cmd = cmd, vq_target = vless_target (vm_target vc)\<rparr>, open_conn (fnv1a buf))"
    using server_fields_header [OF vc(1,2) draw(2) wf, of cmd] cl(2) vc(5) by auto
  have "take (length ?h - 4) ?h = buf" using buf(1) by (simp add: fnv1a_def)
  then show ?thesis
    using server_open_sealed [OF assms(1,2) draw(3) h, of ?key body] buf rc vc v(2)
    by (simp add: server_request_def io_ret_def)
qed

theorem vmess_request_understood_witness:
  "\<exists>d cl vc rc. vmess_Dial demo_vcrypto d cl (Some (open_conn [])) 1 ''1.2.3.4:80'' = (Inr vc, Some rc) \<and>
     server_request demo_vcrypto (vu_CmdKey (vc_users cl ! 0)) (open_conn (wr rc @ [7])) =
       (Inr \<lparr>vq_IV = vm_reqIV vc, vq_Key = vm_reqKey vc, vq_V = 9, vq_opt = 5, vq_security = 3, vq_cmd = 1,
             vq_target = ''1.2.3.4:80''\<rparr>, open_conn [7])"
proof -
  define d where "d = \<lparr>vd_user = 0, vd_body = replicate 32 3, vd_respV = 9, vd_padding = [1, 2], vd_now = 100,
    vd_authID = [1, 2, 3, 4], vd_nonce = replicate 8 6\<rparr>"
  define cl where "cl = \<lparr>vc_users = [\<lparr>vu_UUID = replicate 16 1, vu_CmdKey = replicate 16 2\<rparr>], vc_opt = 5, vc_aead = True,
    vc_security = SecurityAES128GCM\<rparr>"
  obtain v where "vless_ParseAddr ''1.2.3.4:80'' = Inr v" using vless_ParseAddr_socks [OF example_addr(1)] by blast
  then obtain vc rc where vc: "vmess_Dial demo_vcrypto d cl (Some (open_conn [])) 1 ''1.2.3.4:80'' = (Inr vc, Some rc)"
    "vm_respV vc = 9"
    by (simp add: vmess_Dial_def vmess_NewConn_def vmess_ParseAddr_def vmess_Request_def cl_def d_def Let_def)
  have "server_request demo_vcrypto (vu_CmdKey (vc_users cl ! vd_user d)) (open_conn (wr rc @ [7])) =
    (Inr \<lparr>vq_IV = vm_reqIV vc, vq_Key = vm_reqKey vc, vq_V = vm_respV vc, vq_opt = vc_opt cl, vq_security = vc_security cl,
          vq_cmd = 1, vq_target = ''1.2.3.4:80''\<rparr>, open_conn [7])"
    by (rule vmess_request_understood [OF demo_vcrypto_ok _ _ _ _ _ _ vc(1) example_addr])
      (simp_all add: demo_vcrypto_def d_def cl_def)
  then show ?thesis using vc
    by (intro exI [of _ d] exI [of _ cl] exI [of _ vc] exI [of _ rc]) (simp add: d_def cl_def SecurityAES128GCM_def)
qed

section \<open>Nonces\<close>

text \<open>The nonces that a connection's writer uses for its chunks, in turn.\<close>

definition nth_chunk_nonce :: "bytes \<Rightarrow> nat \<Rightarrow> bytes" where
  "nth_chunk_nonce iv i = chunk_nonce iv (of_nat i)"

lemma enc_sealed_nonces:
  "enc_sealed seal iv shake k (of_nat m) bs =
     concat (map (\<lambda>i. size_Encode shake (k + i) (of_nat (length (bs ! i) + Overhead)) @
       seal (nth_chunk_nonce iv (m + i)) (bs ! i)) [0..<length bs])"
proof (induction bs arbitrary: k m)
  case (Cons b bs)
  have "enc_sealed seal iv shake (k + 1) (of_nat (m + 1)) bs =
      concat (map (\<lambda>i. size_Encode shake (k + Suc i) (of_nat (length (bs ! i) + Overhead)) @
        seal (nth_chunk_nonce iv (m + Suc i)) (bs ! i)) [0..<length bs])"
    using Cons.IH [of "k + 1" "m + 1"] by (simp add: add.assoc)
  moreover have "[0..<length (b # bs)] = 0 # map Suc [0..<length bs]" by (simp add: map_Suc_upt upt_conv_Cons del: upt_Suc)
  ultimately show ?case by (simp add: nth_chunk_nonce_def comp_def ac_simps del: upt_Suc)
qed simp

text \<open>Property C17.  The nonces of a VMess connection.  All data of a connection is written as sealed chunks, in order,
  the \<open>i\<close>-th under the nonce that counts \<open>i\<close> in 16 bits: no two of the first 65536 chunks share a nonce, and the
  chunks after that repeat them under the same key.\<close>

theorem vmess_nonces:
  assumes "wleft c = None" "the_writer vc = SealedWriter 0 0"
  shows "\<exists>bs. wr (snd (vmess_writes C ps (vc, c))) = wr c @
      concat (map (\<lambda>i. size_Encode (vc_shake C (vm_reqIV vc)) i (of_nat (length (bs ! i) + Overhead)) @
        body_seal C (vm_security vc) (vm_reqKey vc) (nth_chunk_nonce (vm_reqIV vc) i) (bs ! i)) [0..<length bs]) \<and>
    concat bs = concat ps \<and>
    (\<forall>i<length bs. \<forall>j<length bs. nth_chunk_nonce (vm_reqIV vc) i = nth_chunk_nonce (vm_reqIV vc) j \<longleftrightarrow> i mod 65536 = j mod 65536)"
proof -
  obtain bs where bs: "wr (snd (vmess_writes C ps (vc, c))) = wr c @ body_bytes C vc (the_writer vc) bs" "concat bs = concat ps"
    using vmess_writes_open [OF assms(1)] by blast
  have eq: "nth_chunk_nonce iv i = nth_chunk_nonce iv j \<longleftrightarrow> i mod 65536 = j mod 65536" for iv i j
  proof -
    have "nth_chunk_nonce iv i = nth_chunk_nonce iv j \<longleftrightarrow> put16 (of_nat i) = put16 (of_nat j)"
      by (simp add: nth_chunk_nonce_def chunk_nonce_def)
    also have "\<dots> \<longleftrightarrow> (of_nat i :: u16) = of_nat j" using get16_put16 [of _ "[]"] by (metis append_Nil2 option.inject)
    also have "\<dots> \<longleftrightarrow> i mod 65536 = j mod 65536" by (simp add: word_unat_eq_iff unat_of_nat)
    finally show ?thesis .
  qed
  show ?thesis
    using bs assms(2) eq enc_sealed_nonces [of "body_seal C (vm_security vc) (vm_reqKey vc)" "vm_reqIV vc" "vc_shake C (vm_reqIV vc)" 0 0 bs]
    by (intro exI [of _ bs]) (simp add: body_bytes_def)
qed

theorem vmess_nonces_witness:
  "\<exists>bs. wr (snd (vmess_writes demo_vcrypto [[1, 2]] (demo_vmess SecurityAES128GCM, open_conn []))) =
      concat (map (\<lambda>i. size_Encode (vc_shake demo_vcrypto (replicate 16 3)) i (of_nat (length (bs ! i) + Overhead)) @
        body_seal demo_vcrypto SecurityAES128GCM (replicate 16 4) (nth_chunk_nonce (replicate 16 3) i) (bs ! i)) [0..<length bs]) \<and>
    concat bs = [1, 2]"
proof -
  have "the_writer (demo_vmess SecurityAES128GCM) = SealedWriter 0 0"
    by (simp add: the_writer_def demo_vmess_def new_writer_def OptChunkStream_def SecurityAES128GCM_def SecurityNone_def)
  then show ?thesis
    using vmess_nonces [of "open_conn []" "demo_vmess SecurityAES128GCM" demo_vcrypto "[[1, 2]]"]
    by (auto simp: demo_vmess_def)
qed

end
