(* ===== verification/Anytls_Frame.thy ===== *)
theory Anytls_Frame
  imports Trojan Text_Proto
begin

text \<open>
  The wire format of AnyTLS (\<open>proxy/anytls/protocol.go\<close>, \<open>padding.go\<close>, \<open>settings.go\<close>): the authentication in front of
  a session, frames, the padding scheme and the settings both sides exchange.  Frames are an interpretation of
  \<open>prefix_codec\<close>.  SHA-256 and MD5 are arguments.
\<close>

section \<open>Model\<close>

subsection \<open>Commands and frames\<close>

definition any_cmdWaste :: byte where "any_cmdWaste = 0"
definition any_cmdSYN :: byte where "any_cmdSYN = 1"
definition any_cmdPSH :: byte where "any_cmdPSH = 2"
definition any_cmdFIN :: byte where "any_cmdFIN = 3"
definition any_cmdSettings :: byte where "any_cmdSettings = 4"
definition any_cmdAlert :: byte where "any_cmdAlert = 5"
definition any_cmdUpdatePaddingScheme :: byte where "any_cmdUpdatePaddingScheme = 6"
definition any_cmdSYNACK :: byte where "any_cmdSYNACK = 7"
definition any_cmdHeartRequest :: byte where "any_cmdHeartRequest = 8"
definition any_cmdHeartResponse :: byte where "any_cmdHeartResponse = 9"
definition any_cmdServerSettings :: byte where "any_cmdServerSettings = 10"

lemmas any_cmd_defs = any_cmdWaste_def any_cmdSYN_def any_cmdPSH_def any_cmdFIN_def any_cmdSettings_def
  any_cmdAlert_def any_cmdUpdatePaddingScheme_def any_cmdSYNACK_def any_cmdHeartRequest_def
  any_cmdHeartResponse_def any_cmdServerSettings_def

definition protocolVersion :: nat where "protocolVersion = 2"
definition maxFrameData :: nat where "maxFrameData = 65535"

record any_frame =
  af_command :: byte
  af_streamID :: u32
  af_data :: bytes

definition any_frame_bytes :: "any_frame \<Rightarrow> bytes" where
  "any_frame_bytes f =
     [af_command f] @ put32 (af_streamID f) @ put16 (of_nat (length (af_data f))) @ af_data f"

definition readFrame :: "any_frame io" where
  "readFrame =
     io_bind (read_full 7) (\<lambda>head.
       let n = unat (be16 (head ! 5) (head ! 6));
           f = \<lparr>af_command = head ! 0, af_streamID = be32 (head ! 1) (head ! 2) (head ! 3) (head ! 4), af_data = []\<rparr>
       in if n > 0 then io_bind (read_full n) (\<lambda>data. io_ret (f\<lparr>af_data := data\<rparr>)) else io_ret f)"

definition writeFrame :: "any_frame \<Rightarrow> conn \<Rightarrow> go_error option \<times> conn" where
  "writeFrame f c =
     (if length (af_data f) > maxFrameData then (Some (ErrMsg ''frame data too large''), c)
      else conn_write (any_frame_bytes f) c)"

subsection \<open>Authentication\<close>

definition passwordHash :: "(bytes \<Rightarrow> bytes) \<Rightarrow> string \<Rightarrow> bytes" where
  "passwordHash sha256 password = sha256 (str_bytes password)"

text \<open>\<open>io.CopyN(io.Discard, r, n)\<close>.\<close>

definition copyN_discard :: "nat \<Rightarrow> unit io" where
  "copyN_discard n c = (if n \<le> length (rd c) then Inr () else Inl EOF, c\<lparr>rd := drop n (rd c)\<rparr>)"

definition readAuth :: "(bytes \<Rightarrow> bytes) \<Rightarrow> string \<Rightarrow> unit io" where
  "readAuth sha256 password =
     io_bind (read_full 34) (\<lambda>head.
       if take 32 head \<noteq> passwordHash sha256 password then io_fail (ErrMsg ''authentication failed'')
       else
         let paddingLen = unat (be16 (head ! 32) (head ! 33)) in
         if paddingLen > 0 then copyN_discard paddingLen else io_ret ())"

definition auth_bytes :: "(bytes \<Rightarrow> bytes) \<Rightarrow> string \<Rightarrow> nat \<Rightarrow> bytes" where
  "auth_bytes sha256 password n = passwordHash sha256 password @ put16 (of_nat n) @ replicate n 0"

definition writeAuth :: "(bytes \<Rightarrow> bytes) \<Rightarrow> string \<Rightarrow> int \<Rightarrow> conn \<Rightarrow> go_error option \<times> conn" where
  "writeAuth sha256 password paddingLen c =
     (if paddingLen < 0 \<or> paddingLen > 65535 then (Some (ErrMsg ''invalid auth padding length''), c)
      else conn_write (auth_bytes sha256 password (nat paddingLen)) c)"

subsection \<open>Padding scheme\<close>

definition newline :: char where "newline = CHR 0x0A"

definition defaultPaddingScheme :: string where
  "defaultPaddingScheme =
     join_with [newline]
       [''stop=8'', ''0=30-30'', ''1=100-400'', ''2=400-500,c,500-1000,c,500-1000,c,500-1000,c,500-1000'',
        ''3=9-9,500-1000'', ''4=500-1000'', ''5=500-1000'', ''6=500-1000'', ''7=500-1000'']"

record paddingScheme =
  ps_raw :: string
  ps_authRange :: "int \<times> int"

definition parseRange :: "string \<Rightarrow> (int \<times> int) result" where
  "parseRange s =
     (case cut_byte CHR ''-'' (hd (split_on CHR '','' s)) of
        None \<Rightarrow> Inl (ErrMsg ''invalid range'')
      | Some (lo, hi) \<Rightarrow>
          (case atoi lo of
             None \<Rightarrow> Inl (ErrMsg ''strconv.Atoi'')
           | Some mn \<Rightarrow>
               (case atoi hi of
                  None \<Rightarrow> Inl (ErrMsg ''strconv.Atoi'')
                | Some mx \<Rightarrow>
                    if mn < 0 \<or> mx < mn \<or> mx > 65535 then Inl (ErrMsg ''invalid range'') else Inr (mn, mx))))"

fun padding_lines :: "string list \<Rightarrow> paddingScheme \<Rightarrow> paddingScheme result" where
  "padding_lines [] ps = Inr ps"
| "padding_lines (l # ls) ps =
     (let line = trim_space l in
      if line = [] then padding_lines ls ps
      else
        case cut_byte CHR ''='' line of
          None \<Rightarrow> Inl (ErrMsg ''invalid padding scheme line'')
        | Some (key, val) \<Rightarrow>
            if key = ''0'' then
              (case parseRange val of
                 Inl e \<Rightarrow> Inl e
               | Inr r \<Rightarrow> padding_lines ls (ps\<lparr>ps_authRange := r\<rparr>))
            else padding_lines ls ps)"

definition parsePaddingScheme :: "string \<Rightarrow> paddingScheme result" where
  "parsePaddingScheme raw =
     (let raw = (if trim_space raw = [] then defaultPaddingScheme else raw)
      in padding_lines (split_on newline raw) \<lparr>ps_raw = raw, ps_authRange = (0, 0)\<rparr>)"

definition authPaddingLen :: "paddingScheme \<Rightarrow> int" where
  "authPaddingLen p = fst (ps_authRange p)"

definition scheme_md5 :: "(bytes \<Rightarrow> bytes) \<Rightarrow> paddingScheme \<Rightarrow> string" where
  "scheme_md5 md5 p = bytes_str (hex_encode (md5 (str_bytes (ps_raw p))))"

subsection \<open>Settings\<close>

text \<open>A Go map is given to \<open>encodeSettings\<close> as the list of its entries in the order of the iteration, which the
  language leaves open.\<close>

definition setting_line :: "string \<times> string \<Rightarrow> string" where
  "setting_line kv = fst kv @ ''='' @ snd kv"

definition encodeSettings :: "(string \<times> string) list \<Rightarrow> bytes" where
  "encodeSettings m =
     (let keys = [''v'', ''client'', ''padding-md5''];
          seen = filter (\<lambda>k. map_of m k \<noteq> None) keys;
          first = map (\<lambda>k. setting_line (k, the (map_of m k))) seen;
          others = map setting_line (filter (\<lambda>kv. fst kv \<notin> set seen) m)
      in str_bytes (join_with [newline] (first @ others)))"

fun parse_lines :: "string list \<Rightarrow> (string \<rightharpoonup> string) \<Rightarrow> (string \<rightharpoonup> string)" where
  "parse_lines [] out = out"
| "parse_lines (line # ls) out =
     (if line = [] then parse_lines ls out
      else
        case cut_byte CHR ''='' line of
          None \<Rightarrow> parse_lines ls out
        | Some (k, v) \<Rightarrow> parse_lines ls (out(k \<mapsto> v)))"

definition parseSettings :: "bytes \<Rightarrow> (string \<rightharpoonup> string)" where
  "parseSettings data = parse_lines (split_on newline (bytes_str data)) (\<lambda>_. None)"

definition settingsVersion :: "(string \<rightharpoonup> string) \<Rightarrow> int" where
  "settingsVersion m = (case atoi (case m ''v'' of None \<Rightarrow> [] | Some v \<Rightarrow> v) of None \<Rightarrow> 1 | Some v \<Rightarrow> v)"

definition clientSettings :: "(bytes \<Rightarrow> bytes) \<Rightarrow> paddingScheme \<Rightarrow> bytes" where
  "clientSettings md5 ps =
     encodeSettings [(''v'', show_nat protocolVersion), (''client'', ''glider-anytls''), (''padding-md5'', scheme_md5 md5 ps)]"

definition serverSettings :: bytes where
  "serverSettings = encodeSettings [(''v'', show_nat protocolVersion)]"

section \<open>Frames on the wire\<close>

definition any_frame_ok :: "any_frame \<Rightarrow> bool" where
  "any_frame_ok f = (length (af_data f) \<le> maxFrameData)"

lemma put32_be32: "put32 (be32 a b c d) = [a, b, c, d]"
  unfolding put32_def be32_def by (auto intro!: bit_word_eqI simp: bit_simps)

lemma readFrame_bytes:
  assumes ok: "any_frame_ok f" and c: "rd c = any_frame_bytes f @ rest"
  shows "readFrame c = (Inr f, c\<lparr>rd := rest\<rparr>)"
proof -
  let ?n = "of_nat (length (af_data f)) :: u16"
  define h where "h = [af_command f] @ put32 (af_streamID f) @ put16 ?n"
  have n: "unat ?n = length (af_data f)" using ok by (simp add: any_frame_ok_def maxFrameData_def unat_of_nat)
  have h: "length h = 7" "h ! 0 = af_command f" "be16 (h ! 5) (h ! 6) = ?n"
    "be32 (h ! 1) (h ! 2) (h ! 3) (h ! 4) = af_streamID f"
    by (simp_all add: h_def put32_def put16_def be16_put16)
  have split: "rd c = h @ af_data f @ rest" using c by (simp add: any_frame_bytes_def h_def)
  have hdr: "read_full 7 c = (Inr h, c\<lparr>rd := af_data f @ rest\<rparr>)" using read_full_ok [OF split] h(1) by simp
  have data: "read_full (length (af_data f)) (c\<lparr>rd := af_data f @ rest\<rparr>) = (Inr (af_data f), c\<lparr>rd := rest\<rparr>)"
    using read_full_ok [of "c\<lparr>rd := af_data f @ rest\<rparr>" "af_data f" rest] by simp
  show ?thesis
  proof (cases "af_data f = []")
    case True
    then show ?thesis
      using h n by (cases f) (simp add: readFrame_def io_bind_Inr [where m = "read_full 7", OF hdr] io_ret_def)
  next
    case False
    then show ?thesis
      using h n io_bind_Inr [where m = "read_full (length (af_data f))", OF data]
      by (cases f) (simp add: readFrame_def io_bind_Inr [where m = "read_full 7", OF hdr] io_ret_def Let_def)
  qed
qed

interpretation anyf: prefix_codec any_frame_ok any_frame_bytes readFrame
  by unfold_locales (rule readFrame_bytes)

lemma writeFrame_conn:
  assumes "writeFrame f c = (None, c')"
  shows "any_frame_ok f \<and> rd c' = rd c \<and> wr c' = wr c @ any_frame_bytes f"
  using assms by (auto simp: writeFrame_def any_frame_ok_def conn_write_def split: if_splits option.splits nat.splits)

lemma writeFrame_open: "any_frame_ok f \<Longrightarrow> wleft c = None \<Longrightarrow> writeFrame f c = (None, c\<lparr>wr := wr c @ any_frame_bytes f\<rparr>)"
  by (simp add: writeFrame_def any_frame_ok_def)

section \<open>Authentication\<close>

lemma readAuth_reads:
  assumes len: "length (passwordHash sha256 password) = 32" and n: "n \<le> 65535"
    and c: "rd c = auth_bytes sha256 password n @ rest"
  shows "readAuth sha256 password c = (Inr (), c\<lparr>rd := rest\<rparr>)"
proof -
  let ?h = "passwordHash sha256 password @ put16 (of_nat n)"
  have split: "rd c = ?h @ replicate n 0 @ rest" using c by (simp add: auth_bytes_def)
  have hdr: "read_full 34 c = (Inr ?h, c\<lparr>rd := replicate n 0 @ rest\<rparr>)"
    using read_full_ok [OF split] len by (simp add: put16_def)
  have w: "unat (be16 (?h ! 32) (?h ! 33)) = n"
    using len n by (simp add: nth_append put16_def be16_put16 unat_of_nat)
  show ?thesis
    using len w unfolding readAuth_def io_bind_Inr [where m = "read_full 34", OF hdr]
    by (simp add: Let_def copyN_discard_def io_ret_def)
qed

lemma readAuth_accepts:
  assumes "readAuth sha256 password c = (Inr u, c')"
  shows "take 32 (rd c) = passwordHash sha256 password"
  using assms
  by (auto simp: readAuth_def io_bind_def read_full_def io_fail_def min_def split: prod.splits sum.splits if_splits)

lemma consumes_copyN [intro]: "consumes (copyN_discard n)"
  unfolding consumes_def suffix_of_def
proof
  fix c :: conn
  show "\<exists>u. rd c = u @ rd (snd (copyN_discard n c))"
    by (rule exI [of _ "take n (rd c)"]) (simp add: copyN_discard_def)
qed

lemma consumes_readAuth [intro]: "consumes (readAuth sha256 password)"
  unfolding readAuth_def Let_def by (intro consumes_bind consumes_read_full) auto

section \<open>The padding scheme\<close>

text \<open>A scheme that was parsed asks for a padding that \<open>writeAuth\<close> accepts.\<close>

lemma parseRange_bounds: "parseRange s = Inr (mn, mx) \<Longrightarrow> 0 \<le> mn \<and> mn \<le> mx \<and> mx \<le> 65535"
  by (auto simp: parseRange_def split: option.splits if_splits)

lemma padding_lines_bounds:
  "padding_lines ls ps = Inr ps' \<Longrightarrow> 0 \<le> authPaddingLen ps \<and> authPaddingLen ps \<le> 65535 \<Longrightarrow>
   0 \<le> authPaddingLen ps' \<and> authPaddingLen ps' \<le> 65535"
proof (induction ls ps rule: padding_lines.induct)
  case (2 l ls ps)
  then show ?case
    using parseRange_bounds
    by (fastforce simp: Let_def authPaddingLen_def split: if_splits option.splits prod.splits sum.splits)
qed simp

lemma authPaddingLen_bounds:
  "parsePaddingScheme raw = Inr ps \<Longrightarrow> 0 \<le> authPaddingLen ps \<and> authPaddingLen ps \<le> 65535"
  unfolding parsePaddingScheme_def Let_def by (erule padding_lines_bounds) (simp add: authPaddingLen_def)

section \<open>Settings\<close>

definition setting_ok :: "string \<times> string \<Rightarrow> bool" where
  "setting_ok kv = (CHR ''='' \<notin> set (fst kv) \<and> newline \<notin> set (fst kv) \<and> newline \<notin> set (snd kv))"

lemma setting_line_ok:
  "setting_ok kv \<Longrightarrow> newline \<notin> set (setting_line kv) \<and> setting_line kv \<noteq> [] \<and>
    cut_byte CHR ''='' (setting_line kv) = Some kv"
  using cut_byte_append [of "CHR ''=''" "fst kv" "snd kv"]
  by (auto simp: setting_ok_def setting_line_def newline_def)

lemma parse_lines_settings:
  "list_all setting_ok kvs \<Longrightarrow> parse_lines (map setting_line kvs) out = out ++ map_of (rev kvs)"
proof (induction kvs arbitrary: out)
  case (Cons kv kvs)
  then show ?case
    using setting_line_ok [of kv] by (cases kv) (simp add: map_add_def fun_eq_iff split: option.splits)
qed simp

text \<open>The entries in the order in which they are written.\<close>

definition setting_order :: "(string \<times> string) list \<Rightarrow> (string \<times> string) list" where
  "setting_order m =
     (let seen = filter (\<lambda>k. map_of m k \<noteq> None) [''v'', ''client'', ''padding-md5'']
      in map (\<lambda>k. (k, the (map_of m k))) seen @ filter (\<lambda>kv. fst kv \<notin> set seen) m)"

lemma encodeSettings_order: "encodeSettings m = str_bytes (join_with [newline] (map setting_line (setting_order m)))"
  unfolding encodeSettings_def setting_order_def Let_def map_append map_map comp_def ..

lemma setting_order_entries:
  assumes "distinct (map fst m)"
  shows "distinct (map fst (setting_order m))" "set (setting_order m) = set m"
proof -
  let ?seen = "filter (\<lambda>k. map_of m k \<noteq> None) [''v'', ''client'', ''padding-md5'']"
  have "distinct ?seen" by (rule distinct_filter) simp
  moreover have "distinct (map fst (filter (\<lambda>kv. fst kv \<notin> set ?seen) m))" by (rule distinct_map_filter [OF assms])
  ultimately show "distinct (map fst (setting_order m))"
    unfolding setting_order_def Let_def by (auto simp: comp_def simp del: filter.simps)
  have "(k, v) \<in> set m \<longleftrightarrow> map_of m k = Some v" for k v using assms by (simp add: map_of_eq_Some_iff)
  then show "set (setting_order m) = set m"
    unfolding setting_order_def Let_def by (force simp del: filter.simps)
qed

lemma settings_roundtrip:
  assumes "distinct (map fst m)" "list_all setting_ok m"
  shows "parseSettings (encodeSettings m) = map_of m"
proof (cases "m = []")
  case True
  then show ?thesis by (simp add: parseSettings_def encodeSettings_def byte_simps)
next
  case False
  let ?o = "setting_order m"
  have o: "list_all setting_ok ?o" "?o \<noteq> []"
    using assms False setting_order_entries(2) [OF assms(1)] by (auto simp: list_all_iff)
  have "split_on newline (join_with [newline] (map setting_line ?o)) = map setting_line ?o"
    using o setting_line_ok by (intro split_join) (auto simp: list_all_iff)
  then have "parseSettings (encodeSettings m) = map_of (rev ?o)"
    using parse_lines_settings [OF o(1)] by (simp add: parseSettings_def encodeSettings_order byte_simps)
  also have "\<dots> = map_of m"
    using setting_order_entries [OF assms(1)] assms(1)
    by (intro map_of_inject_set [THEN iffD2]) (simp_all add: rev_map [symmetric])
  finally show ?thesis .
qed

lemma hex_digits_no_newline: "i < 16 \<Longrightarrow> ''0123456789abcdef'' ! i \<noteq> newline"
proof -
  have "newline \<notin> set ''0123456789abcdef''" by (simp add: newline_def)
  moreover assume "i < 16"
  ultimately show ?thesis using nth_mem [of i "''0123456789abcdef''"] by auto
qed

lemma hex_encode_no_newline: "newline \<notin> set (bytes_str (hex_encode b))"
proof -
  have d: "unat (x :: byte) div 16 < 16" for x
    using unsigned_less [of x, where ?'a = nat] by (simp add: less_mult_imp_div_less)
  show ?thesis
    by (auto simp: bytes_str_def hex_encode_def simp del: nth_Cons_numeral)
      (use hex_digits_no_newline [OF d] hex_digits_no_newline in \<open>metis mod_less_divisor zero_less_numeral\<close>)+
qed

text \<open>Both sides read each other's settings as they were meant, whatever the padding scheme.\<close>

lemma settings_agree:
  "settingsVersion (parseSettings (clientSettings md5 ps)) = 2" "settingsVersion (parseSettings serverSettings) = 2"
proof -
  have two: "show_nat protocolVersion = ''2''" by code_simp
  have atoi2: "atoi ''2'' = Some 2" by code_simp
  have "parseSettings (clientSettings md5 ps) =
      map_of [(''v'', ''2''), (''client'', ''glider-anytls''), (''padding-md5'', scheme_md5 md5 ps)]"
    unfolding clientSettings_def two
    by (rule settings_roundtrip) (simp_all add: setting_ok_def newline_def scheme_md5_def hex_encode_no_newline [unfolded newline_def])
  then show "settingsVersion (parseSettings (clientSettings md5 ps)) = 2"
    by (simp add: settingsVersion_def atoi2)
  have "parseSettings serverSettings = map_of [(''v'', ''2'')]"
    unfolding serverSettings_def two by (rule settings_roundtrip) (simp_all add: setting_ok_def newline_def)
  then show "settingsVersion (parseSettings serverSettings) = 2" by (simp add: settingsVersion_def atoi2)
qed

end
