(* ===== verification/Anytls_Session.thy ===== *)
theory Anytls_Session
  imports Anytls_Frame "HOL-Library.AList" "HOL-Library.Sublist"
begin

text \<open>
  Sessions and streams of AnyTLS (\<open>proxy/anytls/session.go\<close>, \<open>stream.go\<close>).  Streams and acknowledgement channels are
  objects in stores that the maps of a session refer to by address, so that a holder of a stream keeps it when the
  map forgets it.  Go channels are queues with a mark for closing; sending to a closed channel and closing twice
  panic.  A critical section is one operation; the receive loop and the users of a session are the rules of a step
  relation, which interleave at every point where the code does not hold the lock.

  Shown: a stream gets the payloads of its own frames in order whatever the interleaving; no channel is closed
  twice; the receive loop can panic only after the session was closed, and there it does.
\<close>

section \<open>Model\<close>

subsection \<open>Channels\<close>

record 'a chan =
  ch_buf :: "'a list"
  ch_closed :: bool

definition make_chan :: "'a chan" where
  "make_chan = \<lparr>ch_buf = [], ch_closed = False\<rparr>"

text \<open>\<open>None\<close> means that the operation blocks.\<close>

definition chan_send :: "nat \<Rightarrow> 'a \<Rightarrow> 'a chan \<Rightarrow> 'a chan result option" where
  "chan_send cap x ch =
     (if ch_closed ch then Some (Inl (Panic ''send on closed channel''))
      else if length (ch_buf ch) < cap then Some (Inr (ch\<lparr>ch_buf := ch_buf ch @ [x]\<rparr>))
      else None)"

definition chan_recv :: "'a chan \<Rightarrow> ('a option \<times> 'a chan) option" where
  "chan_recv ch =
     (case ch_buf ch of
        x # xs \<Rightarrow> Some (Some x, ch\<lparr>ch_buf := xs\<rparr>)
      | [] \<Rightarrow> if ch_closed ch then Some (None, ch) else None)"

definition chan_close :: "'a chan \<Rightarrow> 'a chan result" where
  "chan_close ch =
     (if ch_closed ch then Inl (Panic ''close of closed channel'') else Inr (ch\<lparr>ch_closed := True\<rparr>))"

subsection \<open>State\<close>

record any_stream =
  sm_id :: u32
  sm_in :: "bytes chan"
  sm_readBuf :: bytes
  sm_closeIn :: bool
  sm_closed :: bool

text \<open>How far \<open>Close\<close> is, which runs once: \<open>done\<close> is closed first, then the connection, then under the lock the
  streams, the acknowledgement channels and \<open>incoming\<close>.\<close>

datatype any_closing = CloseIdle | CloseConn | CloseMaps | CloseDone

record any_session =
  an_streams :: "(u32 \<times> nat) list"
  an_objs :: "any_stream list"
  an_synack :: "(u32 \<times> nat) list"
  an_chans :: "bytes chan list"
  an_nextID :: u32
  an_incoming :: "nat chan"
  an_done :: bool
  an_closing :: any_closing
  an_err :: "go_error option"
  an_settingsSeen :: bool

definition streamBacklog :: nat where "streamBacklog = 32"
definition incomingBacklog :: nat where "incomingBacklog = 32"

definition any_newStream :: "u32 \<Rightarrow> any_stream" where
  "any_newStream i = \<lparr>sm_id = i, sm_in = make_chan, sm_readBuf = [], sm_closeIn = False, sm_closed = False\<rparr>"

definition any_newSession :: any_session where
  "any_newSession =
     \<lparr>an_streams = [], an_objs = [], an_synack = [], an_chans = [], an_nextID = 1, an_incoming = make_chan,
      an_done = False, an_closing = CloseIdle, an_err = None, an_settingsSeen = False\<rparr>"

definition on_stream :: "nat \<Rightarrow> (any_stream \<Rightarrow> any_stream) \<Rightarrow> any_session \<Rightarrow> any_session" where
  "on_stream a f s = s\<lparr>an_objs := (an_objs s)[a := f (an_objs s ! a)]\<rparr>"

definition ErrNetClosed :: go_error where
  "ErrNetClosed = ErrMsg ''use of closed network connection''"

definition setErr :: "go_error \<Rightarrow> any_session \<Rightarrow> any_session" where
  "setErr e s = (if an_err s = None then s\<lparr>an_err := Some e\<rparr> else s)"

definition any_Err :: "any_session \<Rightarrow> go_error" where
  "any_Err s = (case an_err s of Some e \<Rightarrow> e | None \<Rightarrow> ErrNetClosed)"

definition conn_shut :: "any_session \<Rightarrow> bool" where
  "conn_shut s = (an_closing s = CloseMaps \<or> an_closing s = CloseDone)"

definition any_writeFrame :: "any_frame \<Rightarrow> any_session \<Rightarrow> conn \<Rightarrow> go_error option \<times> conn" where
  "any_writeFrame f s c = (if conn_shut s then (Some ErrNetClosed, c) else writeFrame f c)"

subsection \<open>Streams\<close>

text \<open>One turn of the loop in \<open>Read\<close>, which waits while the buffer is empty, and the copy after it.\<close>

definition read_wait :: "any_stream \<Rightarrow> (go_error option \<times> any_stream) option" where
  "read_wait st =
     (case chan_recv (sm_in st) of
        None \<Rightarrow> None
      | Some (None, _) \<Rightarrow> Some (Some EOF, st)
      | Some (Some b, ch) \<Rightarrow> Some (None, st\<lparr>sm_in := ch, sm_readBuf := b\<rparr>))"

definition read_copy :: "nat \<Rightarrow> any_stream \<Rightarrow> bytes \<times> any_stream" where
  "read_copy n st = (take n (sm_readBuf st), st\<lparr>sm_readBuf := drop n (sm_readBuf st)\<rparr>)"

function any_Read :: "nat \<Rightarrow> any_stream \<Rightarrow> ((bytes \<times> go_error option) \<times> any_stream) option" where
  "any_Read n st =
     (if sm_readBuf st \<noteq> [] then (case read_copy n st of (b, st') \<Rightarrow> Some ((b, None), st'))
      else
        case read_wait st of
          None \<Rightarrow> None
        | Some (Some e, st') \<Rightarrow> Some (([], Some e), st')
        | Some (None, st') \<Rightarrow> any_Read n st')"
  by pat_completeness auto
termination
  by (relation "measure (\<lambda>(n, st). length (ch_buf (sm_in st)))")
    (auto simp: read_wait_def chan_recv_def split: list.splits if_splits)

declare any_Read.simps [simp del]

text \<open>\<open>Write\<close>: the bytes go out in frames of at most 65535.\<close>

function write_data :: "u32 \<Rightarrow> bytes \<Rightarrow> nat \<Rightarrow> any_session \<Rightarrow> conn \<Rightarrow> (nat \<times> go_error option) \<times> conn" where
  "write_data i p written s c =
     (if p = [] then ((written, None), c)
      else
        let n = min (length p) maxFrameData in
        case any_writeFrame \<lparr>af_command = any_cmdPSH, af_streamID = i, af_data = take n p\<rparr> s c of
          (Some e, c') \<Rightarrow> ((written, Some e), c')
        | (None, c') \<Rightarrow> write_data i (drop n p) (written + n) s c')"
  by pat_completeness auto
termination
  by (relation "measure (\<lambda>(i, p, written, s, c). length p)") (auto simp: maxFrameData_def min_def)

declare write_data.simps [simp del]

definition errStreamClosed :: go_error where "errStreamClosed = ErrMsg ''stream closed''"

definition any_Write :: "bytes \<Rightarrow> any_stream \<Rightarrow> any_session \<Rightarrow> conn \<Rightarrow> (nat \<times> go_error option) \<times> conn" where
  "any_Write p st s c =
     (if sm_closed st then ((0, Some errStreamClosed), c) else write_data (sm_id st) p 0 s c)"

definition closeRead :: "any_stream \<Rightarrow> any_stream result" where
  "closeRead st =
     (if sm_closeIn st then Inr st
      else
        case chan_close (sm_in st) of
          Inl e \<Rightarrow> Inl e
        | Inr ch \<Rightarrow> Inr (st\<lparr>sm_in := ch, sm_closeIn := True\<rparr>))"

subsection \<open>The maps of a session\<close>

definition getStream :: "u32 \<Rightarrow> any_session \<Rightarrow> nat option" where
  "getStream i s = map_of (an_streams s) i"

definition removeStream :: "u32 \<Rightarrow> any_session \<Rightarrow> any_session result" where
  "removeStream i s =
     (let s1 = s\<lparr>an_streams := AList.delete i (an_streams s)\<rparr> in
      case map_of (an_synack s) i of
        None \<Rightarrow> Inr s1
      | Some k \<Rightarrow>
          (case chan_close (an_chans s ! k) of
             Inl e \<Rightarrow> Inl e
           | Inr ch \<Rightarrow>
               Inr (s1\<lparr>an_synack := AList.delete i (an_synack s), an_chans := (an_chans s)[k := ch]\<rparr>)))"

text \<open>\<open>openStream\<close>: taking an id and registering the stream under the lock, then the SYN.\<close>

definition any_register :: "any_session \<Rightarrow> u32 \<times> any_session" where
  "any_register s =
     (let i = an_nextID s in
      (i, s\<lparr>an_nextID := i + 1, an_objs := an_objs s @ [any_newStream i],
            an_streams := AList.update i (length (an_objs s)) (an_streams s),
            an_chans := an_chans s @ [make_chan],
            an_synack := AList.update i (length (an_chans s)) (an_synack s)\<rparr>))"

definition openStream :: "any_session \<Rightarrow> conn \<Rightarrow> ((nat \<times> u32) result \<times> any_session) result \<times> conn" where
  "openStream s c =
     (let a = length (an_objs s) in
      case any_register s of
        (i, s1) \<Rightarrow>
          (case any_writeFrame \<lparr>af_command = any_cmdSYN, af_streamID = i, af_data = []\<rparr> s1 c of
             (None, c') \<Rightarrow> (Inr (Inr (a, i), s1), c')
           | (Some e, c') \<Rightarrow>
               (case removeStream i s1 of
                  Inl p \<Rightarrow> (Inl p, c')
                | Inr s2 \<Rightarrow> (Inr (Inl e, s2), c'))))"

text \<open>\<open>Close\<close> of a stream: the mark, the FIN and the removal; on a stream that is closed already it does
  nothing, which makes the further guard \<open>closeOut\<close> redundant.\<close>

definition close_mark :: "nat \<Rightarrow> any_session \<Rightarrow> conn \<Rightarrow> any_session \<times> conn" where
  "close_mark a s c =
     (let s1 = on_stream a (\<lambda>st. st\<lparr>sm_closed := True\<rparr>) s in
      (s1, snd (any_writeFrame \<lparr>af_command = any_cmdFIN, af_streamID = sm_id (an_objs s ! a), af_data = []\<rparr> s1 c)))"

definition any_stream_Close :: "nat \<Rightarrow> any_session \<Rightarrow> conn \<Rightarrow> any_session result \<times> conn" where
  "any_stream_Close a s c =
     (if sm_closed (an_objs s ! a) then (Inr s, c)
      else case close_mark a s c of (s1, c') \<Rightarrow> (removeStream (sm_id (an_objs s ! a)) s1, c'))"

text \<open>\<open>acceptStream\<close> and \<open>waitSYNACK\<close> select among channels; the argument is the case that is taken.\<close>

datatype any_select = SelChan | SelTimer | SelDone

definition acceptStream :: "any_select \<Rightarrow> any_session \<Rightarrow> (nat result \<times> any_session) option" where
  "acceptStream sel s =
     (case sel of
        SelChan \<Rightarrow>
          (case chan_recv (an_incoming s) of
             None \<Rightarrow> None
           | Some (None, _) \<Rightarrow> Some (Inl (any_Err s), s)
           | Some (Some a, ch) \<Rightarrow> Some (Inr a, s\<lparr>an_incoming := ch\<rparr>))
      | SelTimer \<Rightarrow> None
      | SelDone \<Rightarrow> if an_done s then Some (Inl (any_Err s), s) else None)"

definition wait_lookup :: "u32 \<Rightarrow> any_session \<Rightarrow> nat option" where
  "wait_lookup i s = map_of (an_synack s) i"

definition wait_select :: "bool \<Rightarrow> any_select \<Rightarrow> nat \<Rightarrow> any_session \<Rightarrow> (go_error option \<times> any_session) option" where
  "wait_select hasTimer sel k s =
     (case sel of
        SelChan \<Rightarrow>
          (case chan_recv (an_chans s ! k) of
             None \<Rightarrow> None
           | Some (None, _) \<Rightarrow> Some (Some (any_Err s), s)
           | Some (Some data, ch) \<Rightarrow>
               Some (if data \<noteq> [] then Some (ErrMsg (''stream open failed: '' @ bytes_str data)) else None,
                     s\<lparr>an_chans := (an_chans s)[k := ch]\<rparr>))
      | SelTimer \<Rightarrow> if hasTimer then Some (Some (ErrMsg ''timeout waiting for SYNACK''), s) else None
      | SelDone \<Rightarrow> if an_done s then Some (Some (any_Err s), s) else None)"

subsection \<open>Closing a session\<close>

definition close_begin :: "any_session \<Rightarrow> any_session" where
  "close_begin s = (if an_closing s = CloseIdle then s\<lparr>an_done := True, an_closing := CloseConn\<rparr> else s)"

definition close_conn :: "any_session \<Rightarrow> any_session" where
  "close_conn s = (if an_closing s = CloseConn then s\<lparr>an_closing := CloseMaps\<rparr> else s)"

fun close_reads :: "nat list \<Rightarrow> any_stream list \<Rightarrow> any_stream list result" where
  "close_reads [] objs = Inr objs"
| "close_reads (a # as) objs =
     (case closeRead (objs ! a) of Inl e \<Rightarrow> Inl e | Inr st \<Rightarrow> close_reads as (objs[a := st]))"

fun close_chans :: "nat list \<Rightarrow> bytes chan list \<Rightarrow> bytes chan list result" where
  "close_chans [] chans = Inr chans"
| "close_chans (k # ks) chans =
     (case chan_close (chans ! k) of Inl e \<Rightarrow> Inl e | Inr ch \<Rightarrow> close_chans ks (chans[k := ch]))"

definition close_maps :: "any_session \<Rightarrow> any_session result" where
  "close_maps s =
     (if an_closing s \<noteq> CloseMaps then Inr s
      else
        case close_reads (map snd (an_streams s)) (an_objs s) of
          Inl e \<Rightarrow> Inl e
        | Inr objs \<Rightarrow>
            (case close_chans (map snd (an_synack s)) (an_chans s) of
               Inl e \<Rightarrow> Inl e
             | Inr chans \<Rightarrow>
                 (case chan_close (an_incoming s) of
                    Inl e \<Rightarrow> Inl e
                  | Inr inc \<Rightarrow>
                      Inr (s\<lparr>an_objs := objs, an_streams := [], an_chans := chans, an_synack := [],
                             an_incoming := inc, an_closing := CloseDone\<rparr>))))"

definition any_Close :: "any_session \<Rightarrow> any_session result" where
  "any_Close s = close_maps (close_conn (close_begin s))"

subsection \<open>The receive loop\<close>

text \<open>Where \<open>readLoop\<close> is: about to read, or inside \<open>handleFrame\<close> after its first critical section.\<close>

datatype any_loop =
    LRead
  | LPush nat bytes
  | LSyn nat
  | LAck nat bytes
  | LAckClose nat
  | LFin nat u32
  | LRemove u32
  | LClose
  | LStop

definition any_reply :: "any_frame \<Rightarrow> any_session \<Rightarrow> conn \<Rightarrow> any_loop result \<times> any_session \<times> conn" where
  "any_reply f s c =
     (case any_writeFrame f s c of (None, c') \<Rightarrow> (Inr LRead, s, c') | (Some e, c') \<Rightarrow> (Inl e, s, c'))"

definition handleFrame :: "any_frame \<Rightarrow> any_session \<Rightarrow> conn \<Rightarrow> any_loop result \<times> any_session \<times> conn" where
  "handleFrame f s c =
     (let cmd = af_command f; i = af_streamID f in
      if cmd = any_cmdWaste then (Inr LRead, s, c)
      else if cmd = any_cmdHeartRequest then
        any_reply \<lparr>af_command = any_cmdHeartResponse, af_streamID = i, af_data = []\<rparr> s c
      else if cmd = any_cmdHeartResponse then (Inr LRead, s, c)
      else if cmd = any_cmdSettings then
        let m = parseSettings (af_data f); s1 = s\<lparr>an_settingsSeen := True\<rparr> in
        if settingsVersion m \<ge> 2 then
          any_reply \<lparr>af_command = any_cmdServerSettings, af_streamID = 0, af_data = serverSettings\<rparr> s1 c
        else (Inr LRead, s1, c)
      else if cmd = any_cmdServerSettings then (Inr LRead, s, c)
      else if cmd = any_cmdAlert then (Inl (ErrMsg (''alert: '' @ bytes_str (af_data f))), s, c)
      else if cmd = any_cmdUpdatePaddingScheme then (Inr LRead, s, c)
      else if cmd = any_cmdSYN then
        let msg = ''cmdSYN received before cmdSettings'' in
        if \<not> an_settingsSeen s then
          (Inl (ErrMsg msg), s,
           snd (any_writeFrame \<lparr>af_command = any_cmdAlert, af_streamID = 0, af_data = str_bytes msg\<rparr> s c))
        else
          let a = length (an_objs s) in
          (Inr (LSyn a),
           s\<lparr>an_objs := an_objs s @ [any_newStream i], an_streams := AList.update i a (an_streams s)\<rparr>, c)
      else if cmd = any_cmdSYNACK then
        (case map_of (an_synack s) i of
           None \<Rightarrow> (Inr LRead, s, c)
         | Some k \<Rightarrow> (Inr (LAck k (af_data f)), s\<lparr>an_synack := AList.delete i (an_synack s)\<rparr>, c))
      else if cmd = any_cmdPSH then
        (case getStream i s of
           None \<Rightarrow> (Inr LRead, s, c)
         | Some a \<Rightarrow> (Inr (LPush a (af_data f)), s, c))
      else if cmd = any_cmdFIN then
        (case getStream i s of
           None \<Rightarrow> (Inr LRead, s, c)
         | Some a \<Rightarrow> (Inr (LFin a i), s, c))
      else (Inl (ErrMsg ''unknown command''), s, c))"

text \<open>The rest of \<open>handleFrame\<close>.  In \<open>push\<close> and for a new stream it selects between the channel and \<open>done\<close>.\<close>

fun handle_rest :: "bool \<Rightarrow> any_loop \<Rightarrow> any_session \<Rightarrow> (any_loop \<times> any_session) result option" where
  "handle_rest seldone (LPush a d) s =
     (if seldone then (if an_done s then Some (Inr (LRead, s)) else None)
      else
        map_option (map_sum id (\<lambda>ch. (LRead, on_stream a (\<lambda>st. st\<lparr>sm_in := ch\<rparr>) s)))
          (chan_send streamBacklog d (sm_in (an_objs s ! a))))"
| "handle_rest seldone (LSyn a) s =
     (if seldone then (if an_done s then Some (Inr (LRead, s)) else None)
      else
        map_option (map_sum id (\<lambda>ch. (LRead, s\<lparr>an_incoming := ch\<rparr>))) (chan_send incomingBacklog a (an_incoming s)))"
| "handle_rest seldone (LAck k d) s =
     map_option (map_sum id (\<lambda>ch. (LAckClose k, s\<lparr>an_chans := (an_chans s)[k := ch]\<rparr>)))
       (chan_send 1 d (an_chans s ! k))"
| "handle_rest seldone (LAckClose k) s =
     Some (map_sum id (\<lambda>ch. (LRead, s\<lparr>an_chans := (an_chans s)[k := ch]\<rparr>)) (chan_close (an_chans s ! k)))"
| "handle_rest seldone (LFin a i) s =
     Some (map_sum id (\<lambda>st. (LRemove i, on_stream a (\<lambda>_. st) s)) (closeRead (an_objs s ! a)))"
| "handle_rest seldone (LRemove i) s = Some (map_sum id (\<lambda>s'. (LRead, s')) (removeStream i s))"
| "handle_rest seldone l s = None"

text \<open>The rest of the loop's turn on what \<open>readFrame\<close> returned; the end of the stream is no error.\<close>

definition loop_error :: "go_error \<Rightarrow> any_session \<Rightarrow> any_session" where
  "loop_error e s = (if e = EOF then s else setErr e s)"

definition loop_frame :: "any_frame \<Rightarrow> any_session \<Rightarrow> conn \<Rightarrow> any_loop \<times> any_session \<times> conn" where
  "loop_frame f s c =
     (case handleFrame f s c of
        (Inl e, s', c') \<Rightarrow> (LClose, setErr e s', c')
      | (Inr l, s', c') \<Rightarrow> (l, s', c'))"

subsection \<open>Interleavings\<close>

text \<open>
  The state of one side: the session, its connection, where the loop is, the ids of streams that are being opened
  (their SYN is to be sent) and closed (they are to be removed).  Three fields record history: the frames handled so far, for every
  stream object how many frames had been handled when it was created, and the bytes its readers got.  A run-time
  panic in any goroutine ends the program.
\<close>

record any_sys =
  ay_s :: any_session
  ay_c :: conn
  ay_loop :: any_loop
  ay_opening :: "u32 list"
  ay_removing :: "u32 list"
  ay_frames :: "any_frame list"
  ay_birth :: "nat list"
  ay_got :: "nat \<Rightarrow> bytes"
  ay_panic :: bool

definition any_start :: "conn \<Rightarrow> any_sys" where
  "any_start c =
     \<lparr>ay_s = any_newSession, ay_c = c, ay_loop = LRead, ay_opening = [], ay_removing = [], ay_frames = [],
      ay_birth = [], ay_got = (\<lambda>_. []), ay_panic = False\<rparr>"

inductive any_step :: "any_sys \<Rightarrow> any_sys \<Rightarrow> bool" where
  recv: "ay_loop y = LRead \<Longrightarrow> \<not> conn_shut (ay_s y) \<Longrightarrow> readFrame (ay_c y) = (Inr f, c1) \<Longrightarrow>
    loop_frame f (ay_s y) c1 = (l, s', c') \<Longrightarrow> n = length (an_objs s') - length (an_objs (ay_s y)) \<Longrightarrow>
    any_step y
      (y\<lparr>ay_s := s', ay_c := c', ay_loop := l, ay_frames := ay_frames y @ [f],
         ay_birth := ay_birth y @ replicate n (length (ay_frames y) + 1)\<rparr>)"
| recv_error: "ay_loop y = LRead \<Longrightarrow> \<not> conn_shut (ay_s y) \<Longrightarrow> readFrame (ay_c y) = (Inl e, c') \<Longrightarrow>
    any_step y (y\<lparr>ay_s := loop_error e (ay_s y), ay_c := c', ay_loop := LClose\<rparr>)"
| broken: "ay_loop y = LRead \<Longrightarrow>
    any_step y (y\<lparr>ay_s := loop_error e (ay_s y), ay_loop := LClose\<rparr>)"
| rest: "handle_rest sel (ay_loop y) (ay_s y) = Some (Inr (l, s')) \<Longrightarrow>
    any_step y (y\<lparr>ay_s := s', ay_loop := l\<rparr>)"
| rest_panic: "handle_rest sel (ay_loop y) (ay_s y) = Some (Inl e) \<Longrightarrow> any_step y (y\<lparr>ay_panic := True\<rparr>)"
| close_done: "any_step y (y\<lparr>ay_s := close_begin (ay_s y)\<rparr>)"
| close_net: "any_step y (y\<lparr>ay_s := close_conn (ay_s y)\<rparr>)"
| close_all: "close_maps (ay_s y) = Inr s' \<Longrightarrow> any_step y (y\<lparr>ay_s := s'\<rparr>)"
| close_panic: "close_maps (ay_s y) = Inl e \<Longrightarrow> any_step y (y\<lparr>ay_panic := True\<rparr>)"
| loop_stop: "ay_loop y = LClose \<Longrightarrow> an_closing (ay_s y) = CloseDone \<Longrightarrow> any_step y (y\<lparr>ay_loop := LStop\<rparr>)"
| accept: "acceptStream sel (ay_s y) = Some (r, s') \<Longrightarrow> any_step y (y\<lparr>ay_s := s'\<rparr>)"
| open_new: "any_register (ay_s y) = (i, s') \<Longrightarrow>
    any_step y
      (y\<lparr>ay_s := s', ay_opening := i # ay_opening y, ay_birth := ay_birth y @ [length (ay_frames y)]\<rparr>)"
| open_syn: "i \<in> set (ay_opening y) \<Longrightarrow>
    any_writeFrame \<lparr>af_command = any_cmdSYN, af_streamID = i, af_data = []\<rparr> (ay_s y) (ay_c y) = (e, c') \<Longrightarrow>
    any_step y
      (y\<lparr>ay_c := c', ay_opening := remove1 i (ay_opening y),
         ay_removing := if e = None then ay_removing y else i # ay_removing y\<rparr>)"
| wait: "k < length (an_chans (ay_s y)) \<Longrightarrow> wait_select t sel k (ay_s y) = Some (r, s') \<Longrightarrow>
    any_step y (y\<lparr>ay_s := s'\<rparr>)"
| write_out: "any_writeFrame f (ay_s y) (ay_c y) = (e, c') \<Longrightarrow> any_step y (y\<lparr>ay_c := c'\<rparr>)"
| read_turn: "a < length (an_objs (ay_s y)) \<Longrightarrow> sm_readBuf (an_objs (ay_s y) ! a) = [] \<Longrightarrow>
    read_wait (an_objs (ay_s y) ! a) = Some (e, st) \<Longrightarrow>
    any_step y (y\<lparr>ay_s := on_stream a (\<lambda>_. st) (ay_s y)\<rparr>)"
| read_data: "a < length (an_objs (ay_s y)) \<Longrightarrow> read_copy n (an_objs (ay_s y) ! a) = (b, st) \<Longrightarrow>
    any_step y
      (y\<lparr>ay_s := on_stream a (\<lambda>_. st) (ay_s y), ay_got := (ay_got y)(a := ay_got y a @ b)\<rparr>)"
| stream_close: "a < length (an_objs (ay_s y)) \<Longrightarrow> \<not> sm_closed (an_objs (ay_s y) ! a) \<Longrightarrow>
    close_mark a (ay_s y) (ay_c y) = (s', c') \<Longrightarrow>
    any_step y
      (y\<lparr>ay_s := s', ay_c := c', ay_removing := sm_id (an_objs (ay_s y) ! a) # ay_removing y\<rparr>)"
| remove: "i \<in> set (ay_removing y) \<Longrightarrow> removeStream i (ay_s y) = Inr s' \<Longrightarrow>
    any_step y (y\<lparr>ay_s := s', ay_removing := remove1 i (ay_removing y)\<rparr>)"
| remove_panic: "i \<in> set (ay_removing y) \<Longrightarrow> removeStream i (ay_s y) = Inl e \<Longrightarrow>
    any_step y (y\<lparr>ay_panic := True\<rparr>)"

inductive any_reach :: "conn \<Rightarrow> any_sys \<Rightarrow> bool" for c where
  init: "any_reach c (any_start c)"
| step: "any_reach c y \<Longrightarrow> \<not> ay_panic y \<Longrightarrow> any_step y y' \<Longrightarrow> any_reach c y'"

section \<open>What a stream is to receive\<close>

text \<open>The payloads of the frames for an id, up to the frame that ends the stream or replaces it.\<close>

fun payloads :: "u32 \<Rightarrow> any_frame list \<Rightarrow> bytes list" where
  "payloads i [] = []"
| "payloads i (f # fs) =
     (if af_streamID f \<noteq> i then payloads i fs
      else if af_command f = any_cmdPSH then af_data f # payloads i fs
      else if af_command f = any_cmdFIN \<or> af_command f = any_cmdSYN then []
      else payloads i fs)"

definition ends :: "u32 \<Rightarrow> any_frame list \<Rightarrow> bool" where
  "ends i fs = (\<exists>f \<in> set fs. af_streamID f = i \<and> (af_command f = any_cmdFIN \<or> af_command f = any_cmdSYN))"

lemma payloads_snoc:
  "payloads i (fs @ [f]) =
     payloads i fs @ (if \<not> ends i fs \<and> af_streamID f = i \<and> af_command f = any_cmdPSH then [af_data f] else [])"
  by (induction fs) (auto simp: ends_def any_cmd_defs)

lemma ends_snoc:
  "ends i (fs @ [f]) \<longleftrightarrow> ends i fs \<or> af_streamID f = i \<and> (af_command f = any_cmdFIN \<or> af_command f = any_cmdSYN)"
  by (auto simp: ends_def)

lemma prefix_payloads_snoc: "prefix ds (payloads i fs) \<Longrightarrow> prefix ds (payloads i (fs @ [f]))"
  by (auto simp: payloads_snoc)

lemma subseq_payloads_snoc: "subseq ds (payloads i fs) \<Longrightarrow> subseq ds (payloads i (fs @ [f]))"
  using list_emb_append_mono [of "(=)" ds "payloads i fs" "[]"] by (auto simp: payloads_snoc)

section \<open>The invariants\<close>

text \<open>Every address in the maps is that of an object of its own, and a channel that is not yet answered is fresh.\<close>

definition maps_ok :: "any_session \<Rightarrow> bool" where
  "maps_ok s =
     (distinct (map fst (an_streams s)) \<and>
      (\<forall>(i, a) \<in> set (an_streams s). a < length (an_objs s) \<and> sm_id (an_objs s ! a) = i) \<and>
      distinct (map fst (an_synack s)) \<and> distinct (map snd (an_synack s)) \<and>
      (\<forall>k \<in> snd ` set (an_synack s). k < length (an_chans s) \<and> an_chans s ! k = make_chan))"

definition loop_ok :: "any_session \<Rightarrow> any_loop \<Rightarrow> bool" where
  "loop_ok s l =
     (case l of
        LAck k d \<Rightarrow> k < length (an_chans s) \<and> an_chans s ! k = make_chan \<and> k \<notin> snd ` set (an_synack s)
      | LAckClose k \<Rightarrow> k < length (an_chans s) \<and> \<not> ch_closed (an_chans s ! k) \<and> k \<notin> snd ` set (an_synack s)
      | LPush a d \<Rightarrow> a < length (an_objs s)
      | LSyn a \<Rightarrow> a < length (an_objs s)
      | LFin a i \<Rightarrow> a < length (an_objs s) \<and> sm_id (an_objs s ! a) = i
      | _ \<Rightarrow> True)"

definition map_inv :: "any_session \<Rightarrow> any_loop \<Rightarrow> bool" where
  "map_inv s l = (maps_ok s \<and> loop_ok s l)"

lemmas map_inv_defs = map_inv_def maps_ok_def loop_ok_def

text \<open>What is closed, and when.\<close>

definition close_inv :: "any_session \<Rightarrow> any_loop \<Rightarrow> bool" where
  "close_inv s l =
     ((\<forall>st \<in> set (an_objs s). ch_closed (sm_in st) = sm_closeIn st) \<and>
      (ch_closed (an_incoming s) \<longleftrightarrow> an_closing s = CloseDone) \<and>
      (an_done s \<longleftrightarrow> an_closing s \<noteq> CloseIdle) \<and>
      (\<forall>(i, a) \<in> set (an_streams s). sm_closeIn (an_objs s ! a) \<longrightarrow> l = LRemove i) \<and>
      (\<forall>a d. l = LPush a d \<longrightarrow> sm_closeIn (an_objs s ! a) \<longrightarrow> an_closing s = CloseDone))"

text \<open>The payloads that reached a stream: those its readers got, those it holds, and the one the loop is about to
  push.\<close>

definition pending :: "any_loop \<Rightarrow> nat \<Rightarrow> bytes list" where
  "pending l a = (case l of LPush b d \<Rightarrow> if b = a then [d] else [] | _ \<Rightarrow> [])"

definition held :: "any_stream \<Rightarrow> bytes" where
  "held st = sm_readBuf st @ concat (ch_buf (sm_in st))"

definition stream_inv :: "bool \<Rightarrow> bool \<Rightarrow> bytes list \<Rightarrow> bytes list \<Rightarrow> bytes list \<Rightarrow> bool" where
  "stream_inv dn reg ps pend ds =
     (subseq (ds @ pend) ps \<and> (\<not> dn \<longrightarrow> prefix (ds @ pend) ps \<and> (reg \<longrightarrow> ds @ pend = ps)))"

definition byte_inv :: "any_session \<Rightarrow> any_loop \<Rightarrow> any_frame list \<Rightarrow> nat list \<Rightarrow> (nat \<Rightarrow> bytes) \<Rightarrow> bool" where
  "byte_inv s l fs birth got =
     (length birth = length (an_objs s) \<and> (\<forall>b \<in> set birth. b \<le> length fs) \<and>
      (\<forall>a \<ge> length (an_objs s). got a = []) \<and>
      (\<forall>(i, a) \<in> set (an_streams s). ends i (drop (birth ! a) fs) \<longrightarrow>
         (\<exists>b. l = LFin b i) \<or> l = LRemove i \<or> l = LClose \<or> l = LStop) \<and>
      (\<forall>a < length (an_objs s). \<exists>ds. got a @ held (an_objs s ! a) = concat ds \<and>
         stream_inv (an_done s) (a \<in> snd ` set (an_streams s))
           (payloads (sm_id (an_objs s ! a)) (drop (birth ! a) fs)) (pending l a) ds))"

definition any_inv :: "any_sys \<Rightarrow> bool" where
  "any_inv y =
     (map_inv (ay_s y) (ay_loop y) \<and> close_inv (ay_s y) (ay_loop y) \<and>
      byte_inv (ay_s y) (ay_loop y) (ay_frames y) (ay_birth y) (ay_got y))"

section \<open>Preservation\<close>

text \<open>Sessions that agree on everything the invariants are about.\<close>

definition same :: "any_session \<Rightarrow> any_session \<Rightarrow> bool" where
  "same s s' =
     (an_streams s' = an_streams s \<and> an_objs s' = an_objs s \<and> an_synack s' = an_synack s \<and>
      an_chans s' = an_chans s \<and> ch_closed (an_incoming s') = ch_closed (an_incoming s) \<and>
      an_done s' = an_done s \<and> an_closing s' = an_closing s)"

lemma same_refl [simp]: "same s s"
  by (simp add: same_def)

lemma same_inv:
  assumes "same s s'"
  shows "map_inv s' l = map_inv s l" "close_inv s' l = close_inv s l" "byte_inv s' l fs birth got = byte_inv s l fs birth got"
  proof -
  show "map_inv s' l = map_inv s l" using assms by (cases l) (simp_all add: same_def map_inv_defs)
  show "close_inv s' l = close_inv s l" using assms by (simp add: same_def close_inv_def)
  show "byte_inv s' l fs birth got = byte_inv s l fs birth got" using assms by (simp add: same_def byte_inv_def)
qed

lemma same_loop_error [simp]: "same s (loop_error e s)" "same s (setErr e s)" "same s (setErr e (s\<lparr>an_settingsSeen := x\<rparr>))"
  "same s (s\<lparr>an_settingsSeen := x\<rparr>)"
  by (simp_all add: same_def loop_error_def setErr_def)

lemma reply_same: "any_reply f s c = (r, s', c') \<Longrightarrow> s' = s \<and> (case r of Inl e \<Rightarrow> True | Inr l \<Rightarrow> l = LRead)"
  by (auto simp: any_reply_def split: prod.splits option.splits)

text \<open>What the first critical section of \<open>handleFrame\<close> does.\<close>

lemma loop_frame_cases:
  assumes "loop_frame f s c = (l, s', c')"
  obtains (quiet) "l = LRead \<or> l = LClose" "same s s'"
      "af_command f = any_cmdPSH \<or> af_command f = any_cmdFIN \<Longrightarrow> getStream (af_streamID f) s = None"
      "af_command f = any_cmdSYN \<Longrightarrow> l = LClose"
    | (syn) "l = LSyn (length (an_objs s))" "af_command f = any_cmdSYN"
      "s' = s\<lparr>an_objs := an_objs s @ [any_newStream (af_streamID f)],
             an_streams := AList.update (af_streamID f) (length (an_objs s)) (an_streams s)\<rparr>"
    | (ack) k where "l = LAck k (af_data f)" "af_command f = any_cmdSYNACK" "map_of (an_synack s) (af_streamID f) = Some k"
      "s' = s\<lparr>an_synack := AList.delete (af_streamID f) (an_synack s)\<rparr>"
    | (push) a where "l = LPush a (af_data f)" "af_command f = any_cmdPSH" "getStream (af_streamID f) s = Some a" "s' = s"
    | (fin) a where "l = LFin a (af_streamID f)" "af_command f = any_cmdFIN" "getStream (af_streamID f) s = Some a" "s' = s"
proof -
  let ?cmd = "af_command f"
  consider "?cmd = any_cmdSYN" "an_settingsSeen s" | "?cmd = any_cmdSYNACK" | "?cmd = any_cmdPSH" | "?cmd = any_cmdFIN"
    | "?cmd \<notin> {any_cmdSYN, any_cmdSYNACK, any_cmdPSH, any_cmdFIN} \<or> ?cmd = any_cmdSYN \<and> \<not> an_settingsSeen s" by auto
  then show ?thesis
  proof cases
    case 1
    then show ?thesis using assms by (intro syn) (simp_all add: loop_frame_def handleFrame_def any_cmd_defs Let_def)
  next
    case 2
    then have r: "(l, s', c') = (case map_of (an_synack s) (af_streamID f) of None \<Rightarrow> (LRead, s, c)
        | Some k \<Rightarrow> (LAck k (af_data f), s\<lparr>an_synack := AList.delete (af_streamID f) (an_synack s)\<rparr>, c))"
      using assms by (simp add: loop_frame_def handleFrame_def any_cmd_defs Let_def split: option.splits)
    show ?thesis
    proof (cases "map_of (an_synack s) (af_streamID f)")
      case None
      then show ?thesis using r 2 by (intro quiet) (simp_all add: any_cmd_defs)
    next
      case (Some k)
      then show ?thesis using r 2 by (intro ack) simp_all
    qed
  next
    case 3
    then have r: "(l, s', c') = (case getStream (af_streamID f) s of None \<Rightarrow> (LRead, s, c)
        | Some a \<Rightarrow> (LPush a (af_data f), s, c))"
      using assms by (simp add: loop_frame_def handleFrame_def any_cmd_defs Let_def split: option.splits)
    show ?thesis
    proof (cases "getStream (af_streamID f) s")
      case None
      then show ?thesis using r 3 by (intro quiet) (simp_all add: any_cmd_defs)
    next
      case (Some a)
      then show ?thesis using r 3 by (intro push) simp_all
    qed
  next
    case 4
    then have r: "(l, s', c') = (case getStream (af_streamID f) s of None \<Rightarrow> (LRead, s, c)
        | Some a \<Rightarrow> (LFin a (af_streamID f), s, c))"
      using assms by (simp add: loop_frame_def handleFrame_def any_cmd_defs Let_def split: option.splits)
    show ?thesis
    proof (cases "getStream (af_streamID f) s")
      case None
      then show ?thesis using r 4 by (intro quiet) (simp_all add: any_cmd_defs)
    next
      case (Some a)
      then show ?thesis using r 4 by (intro fin) simp_all
    qed
  next
    case 5
    have "(l = LRead \<or> l = LClose) \<and> same s s' \<and> (?cmd = any_cmdSYN \<longrightarrow> l = LClose)"
      using 5 assms
      by (auto simp: loop_frame_def handleFrame_def any_cmd_defs Let_def split: if_splits prod.splits sum.splits dest!: reply_same)
    then show ?thesis using 5 by (intro quiet) (auto simp: any_cmd_defs)
  qed
qed

lemma mem_update:
  "distinct (map fst al) \<Longrightarrow> (x, v) \<in> set (AList.update k w al) \<longleftrightarrow> (if x = k then v = w else (x, v) \<in> set al)"
  using map_of_eq_Some_iff [of al x v] map_of_eq_Some_iff [of "AList.update k w al" x v] distinct_update [of al k w]
  by (auto simp: update_conv')

lemma mem_delete: "(x, v) \<in> set (AList.delete k al) \<longleftrightarrow> x \<noteq> k \<and> (x, v) \<in> set al"
  by (auto simp: AList.delete_eq)

lemma distinct_snd_delete: "distinct (map snd al) \<Longrightarrow> distinct (map snd (AList.delete k al))"
  by (simp add: AList.delete_eq distinct_map_filter)

lemma registered_unique:
  assumes "map_inv s l" "(i, a) \<in> set (an_streams s)" "b \<in> snd ` set (an_streams s)" "sm_id (an_objs s ! b) = i"
  shows "b = a"
proof -
  have "(i, b) \<in> set (an_streams s)" "distinct (map fst (an_streams s))" using assms by (auto simp: map_inv_defs)
  with assms(2) show ?thesis using eq_key_imp_eq_value by metis
qed

lemma registered_id:
  "map_inv s l \<Longrightarrow> b \<in> snd ` set (an_streams s) \<Longrightarrow> (sm_id (an_objs s ! b), b) \<in> set (an_streams s)"
  by (force simp: map_inv_defs)

lemma getStream_mem: "map_inv s l \<Longrightarrow> getStream i s = Some a \<longleftrightarrow> (i, a) \<in> set (an_streams s)"
  by (simp add: getStream_def map_inv_defs map_of_eq_Some_iff)

lemma drop_birth: "byte_inv s l fs birth got \<Longrightarrow> a < length (an_objs s) \<Longrightarrow> drop (birth ! a) (fs @ [f]) = drop (birth ! a) fs @ [f]"
  by (simp add: byte_inv_def)

lemma stream_inv_more:
  "stream_inv dn reg (payloads i fs) [] ds \<Longrightarrow>
   \<not> reg \<or> payloads i (fs @ [f]) = payloads i fs \<Longrightarrow> stream_inv dn reg (payloads i (fs @ [f])) [] ds"
  by (auto simp: stream_inv_def subseq_payloads_snoc prefix_payloads_snoc)

text \<open>A frame that is not for a registered stream, or ends one, leaves what the streams have to receive.\<close>

lemma byte_frame:
  assumes inv: "byte_inv s LRead fs birth got" "map_inv s LRead"
    and old: "\<And>i a. (i, a) \<in> set (an_streams s) \<Longrightarrow> af_streamID f = i \<Longrightarrow> af_command f \<noteq> any_cmdPSH \<and>
      (af_command f = any_cmdFIN \<or> af_command f = any_cmdSYN \<longrightarrow> (\<exists>b. l = LFin b i) \<or> l = LClose)"
    and l: "\<And>a. pending l a = []"
  shows "byte_inv s l (fs @ [f]) birth got"
  unfolding byte_inv_def
proof (intro conjI allI impI ballI)
  show "length birth = length (an_objs s)" "\<And>a. length (an_objs s) \<le> a \<Longrightarrow> got a = []"
    "\<And>b. b \<in> set birth \<Longrightarrow> b \<le> length (fs @ [f])"
    using inv(1) by (auto simp: byte_inv_def)
next
  fix x assume x: "x \<in> set (an_streams s)"
  obtain i a where ia: "x = (i, a)" by (cases x)
  have a: "a < length (an_objs s)" using x ia inv(2) by (auto simp: map_inv_defs)
  have "\<not> ends i (drop (birth ! a) fs)" using x ia inv(1) by (auto simp: byte_inv_def)
  then show "case x of (i, a) \<Rightarrow> ends i (drop (birth ! a) (fs @ [f])) \<longrightarrow>
      (\<exists>b. l = LFin b i) \<or> l = LRemove i \<or> l = LClose \<or> l = LStop"
    using old x ia drop_birth [OF inv(1) a] by (auto simp: ends_snoc)
next
  fix a assume a: "a < length (an_objs s)"
  let ?i = "sm_id (an_objs s ! a)" and ?fs = "drop (birth ! a) fs" and ?reg = "a \<in> snd ` set (an_streams s)"
  obtain ds where ds: "got a @ held (an_objs s ! a) = concat ds"
    "stream_inv (an_done s) ?reg (payloads ?i ?fs) [] ds"
    using inv(1) a by (auto simp: byte_inv_def pending_def)
  have "\<not> ?reg \<or> payloads ?i (?fs @ [f]) = payloads ?i ?fs"
    using old registered_id [OF inv(2)] by (auto simp: payloads_snoc)
  from stream_inv_more [OF ds(2) this] ds(1)
  show "\<exists>ds. got a @ held (an_objs s ! a) = concat ds \<and>
      stream_inv (an_done s) ?reg (payloads ?i (drop (birth ! a) (fs @ [f]))) (pending l a) ds"
    unfolding drop_birth [OF inv(1) a] l by blast
qed

lemma byte_push:
  assumes inv: "byte_inv s LRead fs birth got" "map_inv s LRead"
    and a: "(af_streamID f, a) \<in> set (an_streams s)" and psh: "af_command f = any_cmdPSH"
  shows "byte_inv s (LPush a (af_data f)) (fs @ [f]) birth got"
  unfolding byte_inv_def
proof (intro conjI allI impI ballI)
  show "length birth = length (an_objs s)" "\<And>a. length (an_objs s) \<le> a \<Longrightarrow> got a = []"
    "\<And>b. b \<in> set birth \<Longrightarrow> b \<le> length (fs @ [f])"
    using inv(1) by (auto simp: byte_inv_def)
next
  fix x assume x: "x \<in> set (an_streams s)"
  obtain i b where ib: "x = (i, b)" by (cases x)
  have "b < length (an_objs s)" using x ib inv(2) by (auto simp: map_inv_defs)
  moreover have "\<not> ends i (drop (birth ! b) fs)" using x ib inv(1) by (auto simp: byte_inv_def)
  ultimately show "case x of (i, a') \<Rightarrow> ends i (drop (birth ! a') (fs @ [f])) \<longrightarrow>
      (\<exists>b. LPush a (af_data f) = LFin b i) \<or> LPush a (af_data f) = LRemove i \<or> LPush a (af_data f) = LClose \<or>
      LPush a (af_data f) = LStop"
    using ib psh drop_birth [OF inv(1)] by (simp add: ends_snoc any_cmd_defs)
next
  fix b assume b: "b < length (an_objs s)"
  let ?i = "sm_id (an_objs s ! b)" and ?fs = "drop (birth ! b) fs" and ?reg = "b \<in> snd ` set (an_streams s)"
  let ?goal = "\<exists>ds. got b @ held (an_objs s ! b) = concat ds \<and>
      stream_inv (an_done s) ?reg (payloads ?i (?fs @ [f])) (pending (LPush a (af_data f)) b) ds"
  obtain ds where ds: "got b @ held (an_objs s ! b) = concat ds"
    "stream_inv (an_done s) ?reg (payloads ?i ?fs) [] ds"
    using inv(1) b by (auto simp: byte_inv_def pending_def)
  have ?goal
  proof (cases "b = a")
    case True
    have i: "?i = af_streamID f" using a True inv(2) by (auto simp: map_inv_defs)
    have r: ?reg using a True by force
    have "\<not> ends ?i ?fs" using i a True inv(1) by (auto simp: byte_inv_def)
    have "stream_inv (an_done s) ?reg (payloads ?i (?fs @ [f])) [af_data f] ds"
      using ds(2) i r psh \<open>\<not> ends ?i ?fs\<close> by (auto simp: stream_inv_def payloads_snoc intro: list_emb_append_mono)
    then show ?thesis using ds(1) True by (auto simp: pending_def)
  next
    case False
    then have "\<not> ?reg \<or> payloads ?i (?fs @ [f]) = payloads ?i ?fs"
      using registered_unique [OF inv(2) a, of b] by (force simp: payloads_snoc)
    from stream_inv_more [OF ds(2) this] show ?thesis using ds(1) False by (auto simp: pending_def)
  qed
  then show "\<exists>ds. got b @ held (an_objs s ! b) = concat ds \<and>
      stream_inv (an_done s) ?reg (payloads ?i (drop (birth ! b) (fs @ [f]))) (pending (LPush a (af_data f)) b) ds"
    unfolding drop_birth [OF inv(1) b] .
qed


lemma held_new [simp]: "held (any_newStream i) = []"
  by (simp add: held_def any_newStream_def make_chan_def)

text \<open>A new stream has nothing to receive yet, and a stream that leaves the map receives no more.\<close>

lemma byte_remove:
  assumes inv: "byte_inv s l fs birth got" and s': "set (an_streams s') \<subseteq> set (an_streams s)" "an_objs s' = an_objs s"
    "an_done s' = an_done s"
  shows "byte_inv s' l fs birth got"
proof -
  have "a \<in> snd ` set (an_streams s') \<Longrightarrow> a \<in> snd ` set (an_streams s)" for a using s'(1) by auto
  then have "stream_inv (an_done s) (a \<in> snd ` set (an_streams s)) ps pend ds \<Longrightarrow>
      stream_inv (an_done s) (a \<in> snd ` set (an_streams s')) ps pend ds" for a ps pend ds
    by (auto simp: stream_inv_def)
  then show ?thesis
    using inv s' unfolding byte_inv_def by simp (meson subsetD)
qed

lemma byte_new:
  assumes inv: "byte_inv s l fs birth got" and fs: "n = length fs"
    and s': "an_objs s' = an_objs s @ [any_newStream i]" "an_done s' = an_done s"
      "set (an_streams s') \<subseteq> insert (i, length (an_objs s)) (set (an_streams s))"
    and adr: "\<And>j a. (j, a) \<in> set (an_streams s) \<Longrightarrow> a < length (an_objs s)"
    and l: "\<And>d. l \<noteq> LPush (length (an_objs s)) d"
  shows "byte_inv s' l fs (birth @ [n]) got"
  unfolding byte_inv_def
proof (intro conjI allI impI ballI)
  have len: "length birth = length (an_objs s)" using inv by (simp add: byte_inv_def)
  then show "length (birth @ [n]) = length (an_objs s')" using s'(1) by simp
  show "\<And>a. length (an_objs s') \<le> a \<Longrightarrow> got a = []" "\<And>b. b \<in> set (birth @ [n]) \<Longrightarrow> b \<le> length fs"
    using inv s'(1) fs by (auto simp: byte_inv_def)
  fix x assume x: "x \<in> set (an_streams s')"
  show "case x of (i, a) \<Rightarrow> ends i (drop ((birth @ [n]) ! a) fs) \<longrightarrow>
      (\<exists>b. l = LFin b i) \<or> l = LRemove i \<or> l = LClose \<or> l = LStop"
  proof (cases "x = (i, length (an_objs s))")
    case True
    then show ?thesis using len fs by (simp add: ends_def nth_append)
  next
    case False
    obtain j a where ja: "x = (j, a)" by (cases x)
    then have "(j, a) \<in> set (an_streams s)" using False x s'(3) by auto
    then show ?thesis using inv ja len adr by (auto simp: byte_inv_def nth_append)
  qed
next
  fix a assume a: "a < length (an_objs s')"
  let ?goal = "\<exists>ds. got a @ held (an_objs s' ! a) = concat ds \<and>
      stream_inv (an_done s') (a \<in> snd ` set (an_streams s'))
        (payloads (sm_id (an_objs s' ! a)) (drop ((birth @ [n]) ! a) fs)) (pending l a) ds"
  have len: "length birth = length (an_objs s)" using inv by (simp add: byte_inv_def)
  show ?goal
  proof (cases "a < length (an_objs s)")
    case True
    obtain ds where ds: "got a @ held (an_objs s ! a) = concat ds"
      "stream_inv (an_done s) (a \<in> snd ` set (an_streams s))
        (payloads (sm_id (an_objs s ! a)) (drop (birth ! a) fs)) (pending l a) ds"
      using inv True by (auto simp: byte_inv_def)
    have "a \<in> snd ` set (an_streams s') \<Longrightarrow> a \<in> snd ` set (an_streams s)" using s'(3) True by auto
    then have "stream_inv (an_done s) (a \<in> snd ` set (an_streams s'))
        (payloads (sm_id (an_objs s ! a)) (drop (birth ! a) fs)) (pending l a) ds"
      using ds(2) by (auto simp: stream_inv_def)
    then show ?thesis using ds(1) True s' len by (auto simp: nth_append)
  next
    case False
    then have "a = length (an_objs s)" using a s'(1) by simp
    moreover have "pending l (length (an_objs s)) = []" using l by (simp add: pending_def split: any_loop.splits)
    moreover have "got (length (an_objs s)) = []" using inv by (simp add: byte_inv_def)
    ultimately show ?thesis
      using s' len fs by (intro exI [of _ "[]"]) (simp add: nth_append stream_inv_def)
  qed
qed

lemma map_inv_quiet: "map_inv s l \<Longrightarrow> l' \<in> {LRead, LClose, LStop, LRemove i} \<Longrightarrow> map_inv s l'"
  by (auto simp: map_inv_defs)

lemma close_inv_quiet: "close_inv s LRead \<Longrightarrow> (\<And>a d. l' \<noteq> LPush a d) \<Longrightarrow> close_inv s l'"
  by (auto simp: close_inv_def)

lemma loop_ok_mono:
  assumes "loop_ok s l" "length (an_objs s) \<le> length (an_objs s')"
    "\<And>a. a < length (an_objs s) \<Longrightarrow> sm_id (an_objs s' ! a) = sm_id (an_objs s ! a)"
    "\<And>k. k < length (an_chans s) \<Longrightarrow> k \<notin> snd ` set (an_synack s) \<Longrightarrow>
      k < length (an_chans s') \<and> an_chans s' ! k = an_chans s ! k \<and> k \<notin> snd ` set (an_synack s')"
  shows "loop_ok s' l"
  using assms by (cases l) (simp_all add: loop_ok_def)

lemma map_inv_new:
  assumes "map_inv s l" "an_objs s' = an_objs s @ [any_newStream i]"
    "an_streams s' = AList.update i (length (an_objs s)) (an_streams s)"
    "an_synack s' = an_synack s" "an_chans s' = an_chans s"
  shows "map_inv s' l"
proof -
  have "distinct (map fst (an_streams s'))" using assms by (simp add: map_inv_defs distinct_update)
  moreover have "\<forall>(j, a) \<in> set (an_streams s'). a < length (an_objs s') \<and> sm_id (an_objs s' ! a) = j"
  proof clarify
    fix j a assume "(j, a) \<in> set (an_streams s')"
    then have "if j = i then a = length (an_objs s) else (j, a) \<in> set (an_streams s)"
      using assms(1) by (simp add: assms(3) mem_update map_inv_defs)
    then show "a < length (an_objs s') \<and> sm_id (an_objs s' ! a) = j"
      using assms(1,2) by (auto simp: map_inv_defs nth_append any_newStream_def split: if_splits)
  qed
  ultimately show ?thesis
    using assms loop_ok_mono [of s l s'] unfolding map_inv_def maps_ok_def by (auto simp: nth_append)
qed

lemma close_inv_new:
  assumes "close_inv s l" "map_inv s l" "an_objs s' = an_objs s @ [any_newStream i]"
    "an_streams s' = AList.update i (length (an_objs s)) (an_streams s)"
    "an_incoming s' = an_incoming s" "an_done s' = an_done s" "an_closing s' = an_closing s"
  shows "close_inv s' l"
proof -
  have "\<forall>(j, a) \<in> set (an_streams s'). sm_closeIn (an_objs s' ! a) \<longrightarrow> l = LRemove j"
  proof clarify
    fix j a assume "(j, a) \<in> set (an_streams s')" "sm_closeIn (an_objs s' ! a)"
    moreover then have "if j = i then a = length (an_objs s) else (j, a) \<in> set (an_streams s)"
      using assms(2) by (simp add: assms(4) mem_update map_inv_defs)
    ultimately show "l = LRemove j"
      using assms(1-3) by (auto simp: close_inv_def map_inv_defs nth_append any_newStream_def split: if_splits)
  qed
  moreover have "l = LPush a d \<Longrightarrow> an_objs s' ! a = an_objs s ! a" for a d
    using assms(2,3) by (simp add: map_inv_defs nth_append)
  ultimately show ?thesis
    using assms unfolding close_inv_def by (auto simp: any_newStream_def make_chan_def)
qed

lemma syn_inv:
  assumes inv: "map_inv s LRead" "close_inv s LRead" "byte_inv s LRead fs birth got" and f: "af_command f = any_cmdSYN"
    and s': "s' = s\<lparr>an_objs := an_objs s @ [any_newStream (af_streamID f)],
             an_streams := AList.update (af_streamID f) (length (an_objs s)) (an_streams s)\<rparr>"
  shows "map_inv s' (LSyn (length (an_objs s)))" "close_inv s' (LSyn (length (an_objs s)))"
    "byte_inv s' (LSyn (length (an_objs s))) (fs @ [f]) (birth @ [length fs + 1]) got"
proof -
  let ?i = "af_streamID f"
  have "map_inv s' LRead" using map_inv_new [OF inv(1)] s' by simp
  then show "map_inv s' (LSyn (length (an_objs s)))" using s' by (simp add: map_inv_defs)
  have "close_inv s' LRead" using close_inv_new [OF inv(2,1)] s' by simp
  then show "close_inv s' (LSyn (length (an_objs s)))" by (rule close_inv_quiet) simp
  let ?s0 = "s\<lparr>an_streams := AList.delete ?i (an_streams s)\<rparr>"
  have sub: "set (an_streams ?s0) \<subseteq> set (an_streams s)" by (auto simp: mem_delete)
  have b0: "byte_inv ?s0 LRead fs birth got" by (rule byte_remove [OF inv(3) sub]) simp_all
  have m0: "map_inv ?s0 LRead" using inv(1) sub by (auto simp: map_inv_defs distinct_delete mem_delete)
  have "byte_inv ?s0 (LSyn (length (an_objs s))) (fs @ [f]) birth got"
    by (rule byte_frame [OF b0 m0]) (auto simp: mem_delete pending_def)
  then show "byte_inv s' (LSyn (length (an_objs s))) (fs @ [f]) (birth @ [length fs + 1]) got"
  proof (rule byte_new)
    show "set (an_streams s') \<subseteq> insert (?i, length (an_objs ?s0)) (set (an_streams ?s0))"
      using s' inv(1) by (auto simp: mem_delete mem_update map_inv_defs split: if_splits)
  qed (use s' inv(1) in \<open>auto simp: mem_delete map_inv_defs\<close>)
qed

lemma recv_inv:
  assumes inv: "map_inv s LRead" "close_inv s LRead" "byte_inv s LRead fs birth got"
    and f: "loop_frame f s c = (l, s', c')" and n: "n = length (an_objs s') - length (an_objs s)"
  shows "map_inv s' l \<and> close_inv s' l \<and> byte_inv s' l (fs @ [f]) (birth @ replicate n (length fs + 1)) got"
  using f
proof (cases rule: loop_frame_cases)
  case quiet
  have "af_command f = any_cmdPSH \<or> af_command f = any_cmdFIN \<Longrightarrow> (af_streamID f, a) \<notin> set (an_streams s)" for a
    using quiet(3) getStream_mem [OF inv(1)] by (metis option.distinct(1))
  then have "byte_inv s l (fs @ [f]) birth got"
    using quiet(1,4) by (intro byte_frame [OF inv(3,1)]) (auto simp: pending_def any_cmd_defs)
  moreover have "map_inv s l" "close_inv s l"
    using quiet(1) inv(1,2) by (auto intro: map_inv_quiet close_inv_quiet)
  ultimately show ?thesis using same_inv [OF quiet(2)] quiet(2) n by (simp add: same_def)
next
  case syn
  then show ?thesis using syn_inv [OF inv syn(2,3)] n by simp
next
  case (ack k)
  have "(af_streamID f, k) \<in> set (an_synack s)" using ack(3) by (rule map_of_SomeD)
  moreover have "distinct (map snd (an_synack s))" using inv(1) by (simp add: map_inv_defs)
  ultimately have "k \<notin> snd ` set (an_synack s')" using ack(4)
    by (fastforce simp: mem_delete distinct_map inj_on_def)
  then have "map_inv s' l"
    using inv(1) ack \<open>(af_streamID f, k) \<in> set (an_synack s)\<close>
    by (auto simp: map_inv_defs distinct_delete distinct_snd_delete mem_delete)
  moreover have "close_inv s' l" using close_inv_quiet [OF inv(2), of l] ack by (simp add: close_inv_def)
  moreover have "byte_inv s l (fs @ [f]) birth got"
    using ack by (intro byte_frame [OF inv(3,1)]) (auto simp: pending_def any_cmd_defs)
  then have "byte_inv s' l (fs @ [f]) birth got" by (rule byte_remove) (simp_all add: ack(4))
  ultimately show ?thesis using ack(4) n by simp
next
  case (push a)
  have a: "(af_streamID f, a) \<in> set (an_streams s)" using push(3) getStream_mem [OF inv(1)] by simp
  have "map_inv s l" "close_inv s l" using a inv(1,2) push(1) by (auto simp: map_inv_defs close_inv_def)
  then show ?thesis using byte_push [OF inv(3,1) a push(2)] push n by simp
next
  case (fin a)
  have a: "(af_streamID f, a) \<in> set (an_streams s)" using fin(3) getStream_mem [OF inv(1)] by simp
  have "map_inv s l" using a inv(1) fin(1) by (auto simp: map_inv_defs)
  moreover have "close_inv s l" using fin(1) by (intro close_inv_quiet [OF inv(2)]) simp
  moreover have "byte_inv s l (fs @ [f]) birth got"
    using fin by (intro byte_frame [OF inv(3,1)]) (auto simp: pending_def any_cmd_defs)
  ultimately show ?thesis using fin n by simp
qed

lemma removeStream_ok:
  assumes "map_inv s l"
  obtains s' where "removeStream i s = Inr s'" "map_inv s' l" "an_streams s' = AList.delete i (an_streams s)"
    "an_objs s' = an_objs s" "an_incoming s' = an_incoming s" "an_done s' = an_done s" "an_closing s' = an_closing s"
proof (cases "map_of (an_synack s) i")
  case None
  then show ?thesis
    using assms by (intro that [of "s\<lparr>an_streams := AList.delete i (an_streams s)\<rparr>"])
      (auto simp: removeStream_def map_inv_defs distinct_delete mem_delete split: any_loop.splits)
next
  case (Some k)
  let ?s = "s\<lparr>an_streams := AList.delete i (an_streams s), an_synack := AList.delete i (an_synack s),
              an_chans := (an_chans s)[k := make_chan\<lparr>ch_closed := True\<rparr>]\<rparr>"
  have m: "(i, k) \<in> set (an_synack s)" using Some by (rule map_of_SomeD)
  then have k: "k < length (an_chans s)" "an_chans s ! k = make_chan" using assms by (force simp: map_inv_defs)+
  have d: "distinct (map snd (an_synack s))" using assms by (simp add: map_inv_defs)
  then have u: "j \<noteq> i \<Longrightarrow> (j, k) \<notin> set (an_synack s)" for j using m by (fastforce simp: distinct_map inj_on_def)
  have "removeStream i s = Inr ?s" using Some k by (simp add: removeStream_def chan_close_def make_chan_def)
  moreover have "\<forall>k' \<in> snd ` set (an_synack ?s). k' < length (an_chans ?s) \<and> an_chans ?s ! k' = make_chan"
  proof clarify
    fix k' j assume "(j, k') \<in> set (an_synack ?s)"
    then have "(j, k') \<in> set (an_synack s)" "k' \<noteq> k" using u by (auto simp: mem_delete)
    then have "k' < length (an_chans s) \<and> an_chans s ! k' = make_chan" using assms by (force simp: map_inv_defs)
    then show "snd (j, k') < length (an_chans ?s) \<and> an_chans ?s ! snd (j, k') = make_chan"
      using \<open>k' \<noteq> k\<close> by simp
  qed
  moreover have "distinct (map fst (an_streams ?s))" "distinct (map fst (an_synack ?s))" "distinct (map snd (an_synack ?s))"
    using assms by (simp_all add: map_inv_defs distinct_delete distinct_snd_delete)
  moreover have "\<forall>(j, a) \<in> set (an_streams ?s). a < length (an_objs ?s) \<and> sm_id (an_objs ?s ! a) = j"
    using assms by (auto simp: map_inv_defs mem_delete)
  moreover have "snd ` set (an_synack ?s) \<subseteq> snd ` set (an_synack s)" "k \<in> snd ` set (an_synack s)"
    using m by (force simp: mem_delete)+
  ultimately have r: "removeStream i s = Inr ?s" "maps_ok ?s" and k': "snd ` set (an_synack ?s) \<subseteq> snd ` set (an_synack s)"
    "k \<in> snd ` set (an_synack s)"
    unfolding maps_ok_def by blast+
  have "loop_ok s l" using assms by (simp add: map_inv_def)
  then have "loop_ok ?s l" by (rule loop_ok_mono) (use k' in \<open>auto intro!: nth_list_update_neq\<close>)
  with r have "removeStream i s = Inr ?s" "map_inv ?s l" by (simp_all add: map_inv_def)
  then show ?thesis by (rule that) simp_all
qed

lemma remove_inv:
  assumes "map_inv s l" "close_inv s l" "byte_inv s l fs birth got" "removeStream i s = Inr s'"
  shows "map_inv s' l \<and> close_inv s' l \<and> byte_inv s' l fs birth got"
  using removeStream_ok [OF assms(1), of i]
proof cases
  case (1 t)
  then have t: "s' = t" using assms(4) by simp
  have "set (an_streams s') \<subseteq> set (an_streams s)" using 1 t by (auto simp: mem_delete)
  then show ?thesis
    using 1 t assms(2) byte_remove [OF assms(3)] by (auto simp: close_inv_def)
qed

lemma nth_chans_update:
  "map_inv s l \<Longrightarrow> k \<notin> snd ` set (an_synack s) \<Longrightarrow> l' \<in> {LRead, LAckClose k} \<Longrightarrow> k < length (an_chans s) \<Longrightarrow>
   (l' = LAckClose k \<longrightarrow> \<not> ch_closed ch) \<Longrightarrow> map_inv (s\<lparr>an_chans := (an_chans s)[k := ch]\<rparr>) l'"
  by (fastforce simp: map_inv_defs nth_list_update)

text \<open>Changing a stream in place keeps the invariant of the bytes when it keeps what was got and is held.\<close>

lemma byte_update:
  assumes inv: "byte_inv s l fs birth got" and a: "a < length (an_objs s)" and st: "sm_id st = sm_id (an_objs s ! a)"
    and got: "got' a @ held st @ concat (pending l' a) = got a @ held (an_objs s ! a) @ concat (pending l a)"
      "\<And>b. b \<noteq> a \<Longrightarrow> got' b = got b \<and> pending l' b = pending l b"
      "pending l' a = pending l a \<or> pending l' a = []"
    and l: "\<And>j. (\<exists>b. l = LFin b j) \<or> l = LRemove j \<or> l = LClose \<or> l = LStop \<Longrightarrow>
      (\<exists>b. l' = LFin b j) \<or> l' = LRemove j \<or> l' = LClose \<or> l' = LStop"
  shows "byte_inv (on_stream a (\<lambda>_. st) s) l' fs birth got'"
  unfolding byte_inv_def
proof (intro conjI allI impI ballI)
  let ?s = "on_stream a (\<lambda>_. st) s"
  show "length birth = length (an_objs ?s)" "\<And>b. b \<in> set birth \<Longrightarrow> b \<le> length fs"
    "\<And>b. length (an_objs ?s) \<le> b \<Longrightarrow> got' b = []"
    using inv got(2) a by (auto simp: byte_inv_def on_stream_def)
  show "case x of (i, a) \<Rightarrow> ends i (drop (birth ! a) fs) \<longrightarrow>
      (\<exists>b. l' = LFin b i) \<or> l' = LRemove i \<or> l' = LClose \<or> l' = LStop" if "x \<in> set (an_streams ?s)" for x
    using inv that l by (fastforce simp: byte_inv_def on_stream_def)
  fix b assume "b < length (an_objs ?s)"
  then have b: "b < length (an_objs s)" by (simp add: on_stream_def)
  let ?P = "stream_inv (an_done s) (b \<in> snd ` set (an_streams s)) (payloads (sm_id (an_objs s ! b)) (drop (birth ! b) fs))"
  obtain ds where ds: "got b @ held (an_objs s ! b) = concat ds" "?P (pending l b) ds"
    using inv b by (auto simp: byte_inv_def)
  have "\<exists>ds. got' b @ held (an_objs ?s ! b) = concat ds \<and> ?P (pending l' b) ds"
  proof (cases "b = a \<and> pending l' a = [] \<and> pending l a \<noteq> []")
    case True
    then show ?thesis
      using ds got(1) a by (intro exI [of _ "ds @ pending l a"]) (auto simp: on_stream_def stream_inv_def)
  next
    case False
    then have "pending l' b = pending l b" using got(2,3) by (cases "b = a") auto
    then have "got' b @ held (an_objs ?s ! b) = concat ds"
      using ds(1) got(1,2) a by (cases "b = a") (auto simp: on_stream_def)
    then show ?thesis using ds(2) \<open>pending l' b = pending l b\<close> by auto
  qed
  then show "\<exists>ds. got' b @ held (an_objs ?s ! b) = concat ds \<and> stream_inv (an_done ?s) (b \<in> snd ` set (an_streams ?s))
      (payloads (sm_id (an_objs ?s ! b)) (drop (birth ! b) fs)) (pending l' b) ds"
    using st a by (cases "b = a") (auto simp: on_stream_def)
qed

lemma map_inv_on:
  assumes "map_inv s l" "sm_id st = sm_id (an_objs s ! a)" "l' = l \<or> l' \<in> {LRead, LRemove i}"
  shows "map_inv (on_stream a (\<lambda>_. st) s) l'"
proof -
  have id: "sm_id ((an_objs s)[a := st] ! b) = sm_id (an_objs s ! b)" for b
    using assms(2) by (cases "b = a"; cases "a < length (an_objs s)") (auto simp: list_update_beyond)
  have "maps_ok (on_stream a (\<lambda>_. st) s)"
    using assms(1) id by (simp add: map_inv_def maps_ok_def on_stream_def)
  moreover have "loop_ok (on_stream a (\<lambda>_. st) s) l"
  proof (rule loop_ok_mono)
    show "loop_ok s l" using assms(1) by (simp add: map_inv_def)
    show "sm_id (an_objs (on_stream a (\<lambda>_. st) s) ! b) = sm_id (an_objs s ! b)" for b by (simp add: on_stream_def id)
  qed (simp_all add: on_stream_def)
  ultimately show ?thesis using assms(3) by (auto simp: map_inv_def loop_ok_def)
qed

lemma close_inv_on:
  assumes inv: "close_inv s l" "map_inv s l" and a: "a < length (an_objs s)" and st: "sm_id st = sm_id (an_objs s ! a)"
    "ch_closed (sm_in st) = sm_closeIn st"
    "sm_closeIn st = sm_closeIn (an_objs s ! a) \<or> l' = LRemove (sm_id st)"
    and l: "l' = l \<or> (\<forall>j. l \<noteq> LRemove j) \<and> (\<forall>b d. l' \<noteq> LPush b d)"
  shows "close_inv (on_stream a (\<lambda>_. st) s) l'"
proof -
  let ?s = "on_stream a (\<lambda>_. st) s"
  have o: "an_objs ?s ! b = (if b = a then st else an_objs s ! b)" for b using a by (simp add: on_stream_def)
  have "\<forall>x \<in> set (an_objs ?s). ch_closed (sm_in x) = sm_closeIn x"
  proof
    fix x assume "x \<in> set (an_objs ?s)"
    then have "x = st \<or> x \<in> set (an_objs s)" using set_update_subset_insert by (fastforce simp: on_stream_def)
    then show "ch_closed (sm_in x) = sm_closeIn x" using inv(1) st(2) by (auto simp: close_inv_def)
  qed
  moreover have "\<forall>(i, b) \<in> set (an_streams ?s). sm_closeIn (an_objs ?s ! b) \<longrightarrow> l' = LRemove i"
  proof clarify
    fix i b assume "(i, b) \<in> set (an_streams ?s)" and c: "sm_closeIn (an_objs ?s ! b)"
    then have m: "(i, b) \<in> set (an_streams s)" by (simp add: on_stream_def)
    then have i: "sm_id (an_objs s ! b) = i" using inv(2) by (auto simp: map_inv_defs)
    show "l' = LRemove i"
    proof (cases "b = a \<and> l' = LRemove (sm_id st)")
      case False
      then have "sm_closeIn (an_objs s ! b)" using c o st(3) by (auto split: if_splits)
      then have "l = LRemove i" using m inv(1) by (auto simp: close_inv_def)
      then show ?thesis using l by auto
    qed (use i st in auto)
  qed
  moreover have "\<forall>b d. l' = LPush b d \<longrightarrow> sm_closeIn (an_objs ?s ! b) \<longrightarrow> an_closing ?s = CloseDone"
  proof clarify
    fix b d assume p: "l' = LPush b d" and "sm_closeIn (an_objs ?s ! b)"
    then have "sm_closeIn (an_objs s ! b)" using o st(3) by (auto split: if_splits)
    then show "an_closing ?s = CloseDone" using p l inv(1) by (auto simp: close_inv_def on_stream_def)
  qed
  ultimately show ?thesis using inv(1) by (simp add: close_inv_def on_stream_def)
qed

lemma obj_closed: "close_inv s l \<Longrightarrow> a < length (an_objs s) \<Longrightarrow> ch_closed (sm_in (an_objs s ! a)) = sm_closeIn (an_objs s ! a)"
  by (simp add: close_inv_def)

lemma rest_push:
  assumes inv: "map_inv s (LPush a d)" "close_inv s (LPush a d)" "byte_inv s (LPush a d) fs birth got"
    and r: "handle_rest sel (LPush a d) s = Some (Inr (l, s'))"
  shows "map_inv s' l \<and> close_inv s' l \<and> byte_inv s' l fs birth got"
proof (cases sel)
  case True
  then have "l = LRead" "s' = s" "an_done s" using r by (auto split: if_splits)
  moreover have "stream_inv True reg ps (pending (LPush a d) b) ds \<Longrightarrow> stream_inv True reg ps [] ds" for reg ps b ds
    by (auto simp: stream_inv_def intro: subseq_order.trans)
  then have "byte_inv s LRead fs birth got"
    using inv(3) \<open>an_done s\<close> unfolding byte_inv_def pending_def [of LRead] by (simp, blast)
  ultimately show ?thesis using inv map_inv_quiet [OF inv(1)] by (auto simp: close_inv_def)
next
  case False
  let ?st = "an_objs s ! a"
  have a: "a < length (an_objs s)" using inv(1) by (simp add: map_inv_defs)
  obtain ch where ch: "\<not> ch_closed (sm_in ?st)" "ch = (sm_in ?st)\<lparr>ch_buf := ch_buf (sm_in ?st) @ [d]\<rparr>"
    "l = LRead" "s' = on_stream a (\<lambda>st. st\<lparr>sm_in := ch\<rparr>) s"
    using r False by (auto simp: chan_send_def split: if_splits)
  have s': "s' = on_stream a (\<lambda>_. ?st\<lparr>sm_in := ch\<rparr>) s" using ch(4) by (simp add: on_stream_def)
  have "byte_inv s' l fs birth got"
    unfolding s' by (rule byte_update [OF inv(3) a]) (auto simp: ch held_def pending_def)
  moreover have "close_inv s' l"
    unfolding s' by (rule close_inv_on [OF inv(2,1) a]) (use ch obj_closed [OF inv(2) a] in auto)
  moreover have "map_inv s' l" unfolding s' by (rule map_inv_on [OF inv(1)]) (simp_all add: ch)
  ultimately show ?thesis by simp
qed

lemma rest_fin:
  assumes inv: "map_inv s (LFin a i)" "close_inv s (LFin a i)" "byte_inv s (LFin a i) fs birth got"
  obtains s' where "handle_rest sel (LFin a i) s = Some (Inr (LRemove i, s'))"
    "map_inv s' (LRemove i) \<and> close_inv s' (LRemove i) \<and> byte_inv s' (LRemove i) fs birth got"
proof -
  let ?st = "an_objs s ! a"
  have a: "a < length (an_objs s)" "sm_id ?st = i" using inv(1) by (simp_all add: map_inv_defs)
  define st where "st = (if sm_closeIn ?st then ?st else ?st\<lparr>sm_in := (sm_in ?st)\<lparr>ch_closed := True\<rparr>, sm_closeIn := True\<rparr>)"
  have c: "closeRead ?st = Inr st"
    using obj_closed [OF inv(2) a(1)] by (simp add: closeRead_def chan_close_def st_def)
  have st: "sm_id st = i" "held st = held ?st" "ch_closed (sm_in st) = sm_closeIn st"
    using a(2) obj_closed [OF inv(2) a(1)] by (simp_all add: st_def held_def)
  have "byte_inv (on_stream a (\<lambda>_. st) s) (LRemove i) fs birth got"
    by (rule byte_update [OF inv(3) a(1)]) (use st a in \<open>auto simp: pending_def\<close>)
  moreover have "close_inv (on_stream a (\<lambda>_. st) s) (LRemove i)"
    by (rule close_inv_on [OF inv(2,1) a(1)]) (use st a in auto)
  moreover have "map_inv (on_stream a (\<lambda>_. st) s) (LRemove i)"
    by (rule map_inv_on [OF inv(1)]) (use st a in auto)
  moreover have "handle_rest sel (LFin a i) s = Some (Inr (LRemove i, on_stream a (\<lambda>_. st) s))" using c by simp
  ultimately show thesis using that by blast
qed

text \<open>The loop's next locked part panics only in a send to a stream or to \<open>incoming\<close>, after the session was closed.\<close>

lemma rest_no_panic:
  assumes "map_inv s l" "close_inv s l" "byte_inv s l fs birth got" "handle_rest sel l s = Some (Inl e)"
  shows "an_closing s = CloseDone \<and> ((\<exists>a d. l = LPush a d) \<or> (\<exists>a. l = LSyn a))"
proof (cases l)
  case (LPush a d)
  then have "ch_closed (sm_in (an_objs s ! a))" using assms(4) by (auto simp: chan_send_def split: if_splits)
  then show ?thesis using assms(1,2) LPush obj_closed [OF assms(2), of a] by (auto simp: map_inv_defs close_inv_def)
next
  case (LSyn a)
  then show ?thesis using assms(2,4) by (auto simp: chan_send_def close_inv_def split: if_splits)
next
  case (LAck k d)
  then show ?thesis using assms(1,4) by (auto simp: chan_send_def map_inv_defs make_chan_def)
next
  case (LAckClose k)
  then show ?thesis using assms(1,4) by (auto simp: chan_close_def map_inv_defs)
next
  case (LFin a i)
  then show ?thesis using rest_fin [of s a i fs birth got sel] assms by auto
next
  case (LRemove i)
  obtain s' where "removeStream i s = Inr s'" using removeStream_ok [OF assms(1), of i] by blast
  then show ?thesis using LRemove assms(4) by simp
qed (use assms(4) in auto)

lemma rest_inv:
  assumes inv: "map_inv s l" "close_inv s l" "byte_inv s l fs birth got"
    and r: "handle_rest sel l s = Some (Inr (l', s'))"
  shows "map_inv s' l' \<and> close_inv s' l' \<and> byte_inv s' l' fs birth got"
proof (cases l)
  case (LPush a d)
  then show ?thesis using rest_push inv r by blast
next
  case (LFin a i)
  then show ?thesis using rest_fin [of s a i fs birth got sel] inv r by auto
next
  case (LRemove i)
  then obtain "l' = LRead" "removeStream i s = Inr s'" using r by (cases "removeStream i s") auto
  moreover obtain t where "removeStream i s = Inr t" "an_streams t = AList.delete i (an_streams s)"
    using removeStream_ok [OF inv(1), of i] by blast
  ultimately have s': "map_inv s' l" "close_inv s' l" "byte_inv s' l fs birth got" "l' = LRead"
    "\<And>j a. (j, a) \<in> set (an_streams s') \<Longrightarrow> j \<noteq> i"
    using remove_inv [OF inv, of i s'] by (auto simp: mem_delete)
  then have "close_inv s' LRead" unfolding close_inv_def LRemove by fastforce
  moreover have "byte_inv s' LRead fs birth got"
    using s'(3,5) unfolding byte_inv_def LRemove pending_def by simp fastforce
  ultimately show ?thesis using map_inv_quiet [OF s'(1)] s'(4) by blast
next
  case (LSyn a)
  then have "l' = LRead" "same s s'" using r by (auto simp: same_def chan_send_def split: if_splits)
  moreover have "close_inv s LRead" "byte_inv s LRead fs birth got"
    using inv LSyn by (auto simp: close_inv_def byte_inv_def pending_def)
  ultimately show ?thesis using same_inv map_inv_quiet [OF inv(1)] by auto
next
  case (LAck k d)
  then obtain ch where "l' = LAckClose k" "s' = s\<lparr>an_chans := (an_chans s)[k := ch]\<rparr>" "\<not> ch_closed ch"
    using r by (auto simp: chan_send_def split: if_splits)
  then show ?thesis
    using inv LAck nth_chans_update [OF inv(1), of k l' ch]
    by (auto simp: close_inv_def byte_inv_def pending_def map_inv_defs)
next
  case (LAckClose k)
  then obtain ch where "l' = LRead" "s' = s\<lparr>an_chans := (an_chans s)[k := ch]\<rparr>"
    using r by (auto simp: chan_close_def split: if_splits)
  then show ?thesis
    using inv LAckClose nth_chans_update [OF inv(1), of k l' ch]
    by (auto simp: close_inv_def byte_inv_def pending_def map_inv_defs)
qed (use r in auto)

text \<open>Closing the session.\<close>

definition shut :: "any_stream \<Rightarrow> any_stream" where
  "shut st = st\<lparr>sm_in := (sm_in st)\<lparr>ch_closed := True\<rparr>, sm_closeIn := True\<rparr>"

lemma shut_simps [simp]: "sm_id (shut st) = sm_id st" "held (shut st) = held st" "sm_closeIn (shut st)" "ch_closed (sm_in (shut st))"
  by (simp_all add: shut_def held_def)

lemma closeRead_shut: "ch_closed (sm_in st) = sm_closeIn st \<Longrightarrow> closeRead st = Inr (if sm_closeIn st then st else shut st)"
  by (simp add: closeRead_def chan_close_def shut_def)

lemma close_reads_ok:
  assumes "\<forall>a \<in> set as. a < length objs" "\<forall>st \<in> set objs. ch_closed (sm_in st) = sm_closeIn st"
  shows "\<exists>objs'. close_reads as objs = Inr objs' \<and> length objs' = length objs \<and>
    (\<forall>b < length objs. objs' ! b = objs ! b \<or> objs' ! b = shut (objs ! b))"
  using assms
proof (induction as arbitrary: objs)
  case (Cons a as)
  let ?st = "if sm_closeIn (objs ! a) then objs ! a else shut (objs ! a)"
  have a: "a < length objs" using Cons.prems(1) by simp
  have c: "closeRead (objs ! a) = Inr ?st" using a Cons.prems(2) by (intro closeRead_shut) simp
  have "\<forall>st \<in> set (objs[a := ?st]). ch_closed (sm_in st) = sm_closeIn st"
    using a Cons.prems(2) set_update_subset_insert [of objs a ?st] by (auto split: if_splits)
  then obtain objs' where o: "close_reads as (objs[a := ?st]) = Inr objs'" "length objs' = length objs"
    "\<forall>b < length objs. objs' ! b = objs[a := ?st] ! b \<or> objs' ! b = shut (objs[a := ?st] ! b)"
    using Cons.IH [of "objs[a := ?st]"] Cons.prems(1) by auto
  have idem: "shut (shut st) = shut st" for st by (simp add: shut_def)
  have "objs' ! b = objs ! b \<or> objs' ! b = shut (objs ! b)" if "b < length objs" for b
    using o(3) [rule_format, OF that] a idem by (cases "b = a") (auto split: if_splits)
  then show ?case using o c by simp
qed simp

lemma close_chans_ok:
  assumes "distinct ks" "\<forall>k \<in> set ks. k < length chans \<and> \<not> ch_closed (chans ! k)"
  shows "\<exists>chans'. close_chans ks chans = Inr chans' \<and> length chans' = length chans \<and>
    (\<forall>k. k \<notin> set ks \<longrightarrow> chans' ! k = chans ! k)"
  using assms
proof (induction ks arbitrary: chans)
  case (Cons k ks)
  let ?chans = "chans[k := (chans ! k)\<lparr>ch_closed := True\<rparr>]"
  have "\<forall>j \<in> set ks. j < length ?chans \<and> \<not> ch_closed (?chans ! j)"
    using Cons.prems by (auto simp: nth_list_update)
  then obtain chans' where "close_chans ks ?chans = Inr chans'" "length chans' = length chans"
    "\<forall>j. j \<notin> set ks \<longrightarrow> chans' ! j = ?chans ! j"
    using Cons.IH [of ?chans] Cons.prems(1) by auto
  then show ?case using Cons.prems by (auto simp: chan_close_def)
qed simp

lemma close_maps_ok:
  assumes inv: "map_inv s l" "close_inv s l" "byte_inv s l fs birth got"
  obtains s' where "close_maps s = Inr s'" "map_inv s' l \<and> close_inv s' l \<and> byte_inv s' l fs birth got"
proof (cases "an_closing s = CloseMaps")
  case False
  then show ?thesis using that [of s] inv by (simp add: close_maps_def)
next
  case True
  have "\<forall>a \<in> set (map snd (an_streams s)). a < length (an_objs s)" using inv(1) by (auto simp: map_inv_defs)
  then obtain objs where objs: "close_reads (map snd (an_streams s)) (an_objs s) = Inr objs" "length objs = length (an_objs s)"
    "\<And>b. b < length (an_objs s) \<Longrightarrow> objs ! b = an_objs s ! b \<or> objs ! b = shut (an_objs s ! b)"
    using close_reads_ok [of "map snd (an_streams s)" "an_objs s"] inv(2) unfolding close_inv_def by blast
  have "distinct (map snd (an_synack s))"
    "\<forall>k \<in> set (map snd (an_synack s)). k < length (an_chans s) \<and> \<not> ch_closed (an_chans s ! k)"
    using inv(1) by (auto simp: map_inv_defs make_chan_def)
  then obtain chans where chans: "close_chans (map snd (an_synack s)) (an_chans s) = Inr chans" "length chans = length (an_chans s)"
    "\<And>k. k \<notin> snd ` set (an_synack s) \<Longrightarrow> chans ! k = an_chans s ! k"
    using close_chans_ok [of "map snd (an_synack s)" "an_chans s"] by auto
  let ?inc = "(an_incoming s)\<lparr>ch_closed := True\<rparr>"
  let ?s = "s\<lparr>an_objs := objs, an_streams := [], an_chans := chans, an_synack := [], an_incoming := ?inc,
              an_closing := CloseDone\<rparr>"
  have c: "close_maps s = Inr ?s"
    using True objs(1) chans(1) inv(2) by (simp add: close_maps_def chan_close_def close_inv_def)
  have id: "b < length (an_objs s) \<Longrightarrow> sm_id (objs ! b) = sm_id (an_objs s ! b) \<and> held (objs ! b) = held (an_objs s ! b)" for b
    using objs(3) [of b] by auto
  have "loop_ok s l" using inv(1) by (simp add: map_inv_def)
  then have "loop_ok ?s l" by (rule loop_ok_mono) (simp_all add: objs(2) chans id)
  then have m: "map_inv ?s l" by (simp add: map_inv_def maps_ok_def)
  have "\<forall>st \<in> set objs. ch_closed (sm_in st) = sm_closeIn st"
    using objs(2,3) obj_closed [OF inv(2)] by (metis in_set_conv_nth shut_simps(3,4))
  then have "close_inv ?s l" using inv(2) True by (simp add: close_inv_def)
  moreover have "stream_inv dn False ps pend ds" if "stream_inv dn reg ps pend ds" for dn reg ps pend ds
    using that by (simp add: stream_inv_def)
  then have "byte_inv ?s l fs birth got"
    using inv(3) id unfolding byte_inv_def by (simp add: objs(2)) blast
  ultimately show ?thesis using that [OF c] m by blast
qed

lemma register_inv:
  assumes inv: "map_inv s l" "close_inv s l" "byte_inv s l fs birth got" and r: "any_register s = (i, s')"
  shows "map_inv s' l \<and> close_inv s' l \<and> byte_inv s' l fs (birth @ [length fs]) got"
proof -
  let ?s = "s\<lparr>an_objs := an_objs s @ [any_newStream i], an_streams := AList.update i (length (an_objs s)) (an_streams s)\<rparr>"
  have s': "s' = ?s\<lparr>an_nextID := i + 1, an_chans := an_chans s @ [make_chan],
      an_synack := AList.update i (length (an_chans s)) (an_synack s)\<rparr>"
    using r by (auto simp: any_register_def Let_def)
  have m: "map_inv ?s l" by (rule map_inv_new [OF inv(1)]) simp_all
  have dk: "distinct (map fst (an_synack s))" using inv(1) by (simp add: map_inv_defs)
  have mem: "(j, k) \<in> set (an_synack s') \<Longrightarrow> k = length (an_chans s) \<and> j = i \<or> (j, k) \<in> set (an_synack s)" for j k
    using dk by (auto simp: s' mem_update split: if_splits)
  have lt: "(j, k) \<in> set (an_synack s) \<Longrightarrow> k < length (an_chans s) \<and> an_chans s ! k = make_chan" for j k
    using inv(1) by (force simp: map_inv_defs)
  have "\<forall>k \<in> snd ` set (an_synack s'). k < length (an_chans s') \<and> an_chans s' ! k = make_chan"
    using mem lt by (fastforce simp: s' nth_append)
  moreover have "distinct (map snd (an_synack s'))"
  proof -
    have "inj_on snd (set (an_synack s'))"
    proof (rule inj_onI)
      fix x y assume "x \<in> set (an_synack s')" "y \<in> set (an_synack s')" "snd x = snd y"
      moreover have "inj_on snd (set (an_synack s))" using inv(1) by (simp add: map_inv_defs distinct_map)
      ultimately show "x = y"
        using mem [of "fst x" "snd x"] mem [of "fst y" "snd y"] lt [of "fst x" "snd x"] lt [of "fst y" "snd y"]
        by (metis inj_onD less_irrefl prod.collapse)
    qed
    moreover have "distinct (an_synack s')"
      using distinct_update [OF dk, of i "length (an_chans s)"] by (simp add: s' distinct_map)
    ultimately show ?thesis by (simp add: distinct_map)
  qed
  moreover have "distinct (map fst (an_synack s'))" using dk by (simp add: s' distinct_update)
  ultimately have "maps_ok s'" using m by (simp add: map_inv_def maps_ok_def s')
  moreover have "loop_ok ?s l" using m by (simp add: map_inv_def)
  then have "loop_ok s' l"
  proof (rule loop_ok_mono)
    fix k assume k: "k < length (an_chans ?s)" "k \<notin> snd ` set (an_synack ?s)"
    then have "k \<notin> snd ` set (an_synack s')" using mem by force
    then show "k < length (an_chans s') \<and> an_chans s' ! k = an_chans ?s ! k \<and> k \<notin> snd ` set (an_synack s')"
      using k(1) by (simp add: s' nth_append)
  qed (simp_all add: s')
  moreover have "close_inv s' l" by (rule close_inv_new [OF inv(2,1)]) (simp_all add: s')
  moreover have "byte_inv s' l fs (birth @ [length fs]) got"
  proof (rule byte_new [OF inv(3)])
    show "set (an_streams s') \<subseteq> insert (i, length (an_objs s)) (set (an_streams s))"
      using inv(1) by (auto simp: s' mem_update map_inv_defs split: if_splits)
    show "a < length (an_objs s)" if "(j, a) \<in> set (an_streams s)" for j a using that inv(1) by (auto simp: map_inv_defs)
    show "l \<noteq> LPush (length (an_objs s)) d" for d using inv(1) by (auto simp: map_inv_defs)
  qed (simp_all add: s')
  ultimately show ?thesis by (simp add: map_inv_def)
qed

lemma wait_inv:
  assumes inv: "map_inv s l" "close_inv s l" "byte_inv s l fs birth got"
    and k: "k < length (an_chans s)" and w: "wait_select t sel k s = Some (r, s')"
  shows "map_inv s' l \<and> close_inv s' l \<and> byte_inv s' l fs birth got"
proof (cases "s' = s")
  case True
  then show ?thesis using inv by simp
next
  case False
  then obtain x xs where x: "ch_buf (an_chans s ! k) = x # xs"
    "s' = s\<lparr>an_chans := (an_chans s)[k := (an_chans s ! k)\<lparr>ch_buf := xs\<rparr>]\<rparr>"
    using w by (auto simp: wait_select_def chan_recv_def split: any_select.splits option.splits list.splits if_splits)
  then have n: "an_chans s ! k \<noteq> make_chan" by (auto simp: make_chan_def)
  then have kn: "k \<notin> snd ` set (an_synack s)" "\<And>d. l \<noteq> LAck k d" using inv(1) by (force simp: map_inv_defs)+
  have eq: "j \<noteq> k \<Longrightarrow> an_chans s' ! j = an_chans s ! j" for j using x(2) by simp
  have "an_chans s' ! j = an_chans s ! j" if "j \<in> snd ` set (an_synack s)" for j using that kn(1) eq by metis
  then have "maps_ok s'" using inv(1) x(2) by (simp add: map_inv_def maps_ok_def)
  moreover have "loop_ok s' l"
    using inv(1) x(2) kn(2) k by (cases l) (auto simp: map_inv_def loop_ok_def nth_list_update)
  ultimately have "map_inv s' l" by (simp add: map_inv_def)
  then show ?thesis using inv x(2) by (simp add: close_inv_def byte_inv_def)
qed

lemma accept_same: "acceptStream sel s = Some (r, s') \<Longrightarrow> same s s'"
  by (auto simp: acceptStream_def chan_recv_def same_def split: any_select.splits option.splits list.splits if_splits)

lemma on_stream_inv:
  assumes inv: "map_inv s l" "close_inv s l" "byte_inv s l fs birth got" and a: "a < length (an_objs s)"
    and st: "sm_id st = sm_id (an_objs s ! a)" "sm_closeIn st = sm_closeIn (an_objs s ! a)"
      "ch_closed (sm_in st) = ch_closed (sm_in (an_objs s ! a))"
      "b @ held st = held (an_objs s ! a)"
  shows "map_inv (on_stream a (\<lambda>_. st) s) l \<and> close_inv (on_stream a (\<lambda>_. st) s) l \<and>
    byte_inv (on_stream a (\<lambda>_. st) s) l fs birth (got(a := got a @ b))"
proof (intro conjI)
  show "map_inv (on_stream a (\<lambda>_. st) s) l" by (rule map_inv_on [OF inv(1) st(1)]) simp
  show "close_inv (on_stream a (\<lambda>_. st) s) l"
    using st obj_closed [OF inv(2) a] by (intro close_inv_on [OF inv(2,1) a]) auto
  show "byte_inv (on_stream a (\<lambda>_. st) s) l fs birth (got(a := got a @ b))"
    using st by (intro byte_update [OF inv(3) a]) auto
qed

lemma read_wait_held:
  "sm_readBuf st = [] \<Longrightarrow> read_wait st = Some (e, st') \<Longrightarrow> sm_id st' = sm_id st \<and> sm_closeIn st' = sm_closeIn st \<and>
    ch_closed (sm_in st') = ch_closed (sm_in st) \<and> held st' = held st"
  by (auto simp: read_wait_def chan_recv_def held_def split: option.splits list.splits if_splits)

lemma read_copy_held:
  "read_copy n st = (b, st') \<Longrightarrow> sm_id st' = sm_id st \<and> sm_closeIn st' = sm_closeIn st \<and>
    ch_closed (sm_in st') = ch_closed (sm_in st) \<and> b @ held st' = held st"
  by (auto simp: read_copy_def held_def)

lemma any_inv_start: "any_inv (any_start c)"
  by (simp add: any_inv_def any_start_def any_newSession_def map_inv_defs close_inv_def byte_inv_def make_chan_def)

lemma stop_inv:
  assumes "map_inv s LRead" "close_inv s LRead" "byte_inv s LRead fs birth got" "same s s'"
  shows "map_inv s' LClose \<and> close_inv s' LClose \<and> byte_inv s' LClose fs birth got"
proof -
  have "byte_inv s LClose fs birth got" using assms(3) by (simp add: byte_inv_def pending_def)
  then show ?thesis
    using assms(1,2) same_inv [OF assms(4)] map_inv_quiet [OF assms(1), of LClose] close_inv_quiet [OF assms(2), of LClose] by simp
qed

lemma close_begin_inv:
  assumes "map_inv s l" "close_inv s l" "byte_inv s l fs birth got"
  shows "map_inv (close_begin s) l \<and> close_inv (close_begin s) l \<and> byte_inv (close_begin s) l fs birth got"
proof -
  have "stream_inv dn reg ps pend ds \<Longrightarrow> stream_inv True reg ps pend ds" for dn reg ps pend ds
    by (simp add: stream_inv_def)
  then have "byte_inv (s\<lparr>an_done := True, an_closing := CloseConn\<rparr>) l fs birth got"
    using assms(3) unfolding byte_inv_def by simp blast
  moreover have "map_inv (s\<lparr>an_done := True, an_closing := CloseConn\<rparr>) l"
    using assms(1) by (cases l) (simp_all add: map_inv_defs)
  ultimately show ?thesis using assms by (auto simp: close_begin_def close_inv_def)
qed

lemma close_conn_inv:
  assumes "map_inv s l" "close_inv s l" "byte_inv s l fs birth got"
  shows "map_inv (close_conn s) l \<and> close_inv (close_conn s) l \<and> byte_inv (close_conn s) l fs birth got"
proof -
  have "map_inv (close_conn s) l" using assms(1) by (cases l) (simp_all add: map_inv_defs close_conn_def)
  then show ?thesis using assms by (auto simp: close_conn_def close_inv_def byte_inv_def)
qed

lemma any_step_inv:
  assumes "any_step y y'" "any_inv y"
  shows "any_inv y'"
proof -
  have inv: "map_inv (ay_s y) (ay_loop y)" "close_inv (ay_s y) (ay_loop y)"
    "byte_inv (ay_s y) (ay_loop y) (ay_frames y) (ay_birth y) (ay_got y)" using assms(2) by (simp_all add: any_inv_def)
  from assms(1) show ?thesis
  proof cases
    case (recv f c1 l s' c' n)
    then show ?thesis using recv_inv [of "ay_s y" "ay_frames y" "ay_birth y" "ay_got y" f c1 l s' c' n] inv by (simp add: any_inv_def)
  next
    case (recv_error e c')
    then show ?thesis using stop_inv inv same_loop_error(1) by (simp add: any_inv_def)
  next
    case (broken e)
    then show ?thesis using stop_inv inv same_loop_error(1) by (simp add: any_inv_def)
  next
    case (rest sel l s')
    then show ?thesis using rest_inv [OF inv] by (simp add: any_inv_def)
  next
    case close_done
    then show ?thesis using close_begin_inv [OF inv] by (simp add: any_inv_def)
  next
    case close_net
    then show ?thesis using close_conn_inv [OF inv] by (simp add: any_inv_def)
  next
    case (close_all s')
    obtain t where "close_maps (ay_s y) = Inr t" "map_inv t (ay_loop y) \<and> close_inv t (ay_loop y) \<and>
        byte_inv t (ay_loop y) (ay_frames y) (ay_birth y) (ay_got y)" by (rule close_maps_ok [OF inv])
    then show ?thesis using close_all by (simp add: any_inv_def)
  next
    case loop_stop
    then show ?thesis using inv by (simp add: any_inv_def map_inv_defs close_inv_def byte_inv_def pending_def)
  next
    case (accept sel r s')
    then show ?thesis using inv same_inv [OF accept_same] by (simp add: any_inv_def)
  next
    case (open_new i s')
    then show ?thesis using register_inv [OF inv] by (simp add: any_inv_def)
  next
    case (wait k t sel r s')
    then show ?thesis using wait_inv [OF inv] by (simp add: any_inv_def)
  next
    case (read_turn a e st)
    then show ?thesis
      using on_stream_inv [OF inv read_turn(2), of st "[]"] read_wait_held [OF read_turn(3,4)] by (simp add: any_inv_def)
  next
    case (read_data a n b st)
    then show ?thesis
      using on_stream_inv [OF inv read_data(2), of st b] read_copy_held [OF read_data(3)] by (simp add: any_inv_def)
  next
    case (stream_close a s' c')
    have "s' = on_stream a (\<lambda>_. (an_objs (ay_s y) ! a)\<lparr>sm_closed := True\<rparr>) (ay_s y)"
      using stream_close by (auto simp: close_mark_def on_stream_def Let_def)
    then show ?thesis
      using on_stream_inv [OF inv stream_close(2), of "(an_objs (ay_s y) ! a)\<lparr>sm_closed := True\<rparr>" "[]"] stream_close(1)
      by (simp add: any_inv_def held_def)
  next
    case (remove i s')
    then show ?thesis using remove_inv [OF inv] by (simp add: any_inv_def)
  qed (use assms(2) in \<open>simp_all add: any_inv_def\<close>)
qed

lemma any_reach_inv: "any_reach c y \<Longrightarrow> any_inv y"
  by (induction rule: any_reach.induct) (auto simp: any_inv_start intro: any_step_inv)

section \<open>Properties\<close>

lemma seven_bytes: "length h = 7 \<Longrightarrow> h = [h ! 0, h ! 1, h ! 2, h ! 3, h ! 4, h ! 5, h ! 6]"
  by (auto simp: numeral_eq_Suc length_Suc_conv)

lemma readFrame_InrD:
  assumes "readFrame c = (Inr f, c')"
  shows "any_frame_ok f \<and> rd c = any_frame_bytes f @ rd c'"
proof -
  obtain h c1 where h: "read_full 7 c = (Inr h, c1)"
    using assms by (auto simp: readFrame_def io_bind_def split: prod.splits sum.splits)
  then have h': "length h = 7" "rd c = h @ rd c1" by (auto simp: read_full_def split: if_splits)
  let ?w = "be16 (h ! 5) (h ! 6)"
  have head: "[h ! 0] @ put32 (be32 (h ! 1) (h ! 2) (h ! 3) (h ! 4)) @ put16 ?w = h"
    using seven_bytes [OF h'(1)] by (simp add: put32_be32)
  have f: "af_command f = h ! 0" "af_streamID f = be32 (h ! 1) (h ! 2) (h ! 3) (h ! 4)"
    "length (af_data f) = unat ?w" "rd c1 = af_data f @ rd c'"
    using assms h
    by (auto simp: readFrame_def io_bind_def io_ret_def read_full_def Let_def split: if_splits)
      (metis append_take_drop_id drop_drop)
  have "unat ?w < 65536" using unsigned_less [of ?w, where ?'a = nat] by simp
  then have "unat ?w \<le> 65535" by linarith
  then have "any_frame_ok f" unfolding any_frame_ok_def maxFrameData_def f(3) .
  moreover have "of_nat (length (af_data f)) = ?w" by (simp add: f(3))
  then have "any_frame_bytes f = h @ af_data f" unfolding any_frame_bytes_def f(1,2) using head by simp
  ultimately show ?thesis using h'(2) f(4) by simp
qed

lemma any_writeFrame_rd: "any_writeFrame f s c = (e, c') \<Longrightarrow> rd c' = rd c"
  by (auto simp: any_writeFrame_def writeFrame_def conn_write_def split: if_splits option.splits nat.splits)

lemma reply_rd: "rd (snd (snd (any_reply f s c))) = rd c"
  by (auto simp: any_reply_def dest: any_writeFrame_rd split: prod.splits option.splits)

lemma write_rd: "rd (snd (any_writeFrame f s c)) = rd c"
  by (metis any_writeFrame_rd prod.collapse)

lemma handleFrame_rd: "rd (snd (snd (handleFrame f s c))) = rd c"
  by (simp add: handleFrame_def Let_def reply_rd write_rd split: option.split)

lemma loop_frame_rd: "loop_frame f s c = (l, s', c') \<Longrightarrow> rd c' = rd c"
  using handleFrame_rd [of f s c] by (auto simp: loop_frame_def split: prod.splits sum.splits)

lemma close_mark_rd: "close_mark a s c = (s', c') \<Longrightarrow> rd c' = rd c"
  by (auto simp: close_mark_def Let_def write_rd)

definition on_wire :: "conn \<Rightarrow> any_sys \<Rightarrow> bool" where
  "on_wire c y =
     (list_all any_frame_ok (ay_frames y) \<and>
      (\<exists>rest. rd c = concat (map any_frame_bytes (ay_frames y)) @ rest \<and>
       (ay_loop y \<noteq> LClose \<and> ay_loop y \<noteq> LStop \<longrightarrow> rest = rd (ay_c y))))"

lemma handle_rest_loop: "handle_rest sel l s = Some (Inr (l', s')) \<Longrightarrow> l \<noteq> LClose \<and> l \<noteq> LStop"
  by auto

lemma any_wire: "any_reach c y \<Longrightarrow> on_wire c y"
proof (induction rule: any_reach.induct)
  case init
  then show ?case by (simp add: on_wire_def any_start_def)
next
  case (step y y')
  from step.hyps(3) step.IH show ?case
    by (induction rule: any_step.induct)
      (auto simp: on_wire_def dest!: readFrame_InrD loop_frame_rd any_writeFrame_rd close_mark_rd handle_rest_loop)
qed

lemma held_prefix: "got @ held st = concat ds \<Longrightarrow> prefix got (concat ds)"
  by (metis prefixI)

lemma concat_prefix: "prefix ds ps \<Longrightarrow> prefix (concat ds) (concat ps)"
  by (auto simp: prefix_def)

text \<open>Property C19.  Streams are kept apart under every interleaving: the frames a session has handled are those at
  the front of its input, and what the readers of a stream got is made of payloads of frames with the stream's id
  that came after its registration and before its end, in their order.  Until the session is closed there are no gaps,
  and for a stream in the map that the loop is not just pushing to, what was got and what is queued is everything.\<close>

theorem anytls_streams_separate:
  assumes "any_reach c y" "a < length (an_objs (ay_s y))"
    and "st = an_objs (ay_s y) ! a" "ps = payloads (sm_id st) (drop (ay_birth y ! a) (ay_frames y))"
  shows "(\<exists>rest. rd c = concat (map any_frame_bytes (ay_frames y)) @ rest) \<and>
    (\<exists>ds. subseq ds ps \<and> prefix (ay_got y a) (concat ds)) \<and>
    (\<not> an_done (ay_s y) \<longrightarrow> prefix (ay_got y a @ held st) (concat ps) \<and>
      (getStream (sm_id st) (ay_s y) = Some a \<and> pending (ay_loop y) a = [] \<longrightarrow> ay_got y a @ held st = concat ps))"
proof -
  have inv: "any_inv y" by (rule any_reach_inv [OF assms(1)])
  then obtain ds where ds: "ay_got y a @ held st = concat ds"
    "stream_inv (an_done (ay_s y)) (a \<in> snd ` set (an_streams (ay_s y))) ps (pending (ay_loop y) a) ds"
    using assms(2-4) by (auto simp: any_inv_def byte_inv_def)
  have sub: "subseq ds ps" using ds(2) by (auto simp: stream_inv_def intro: subseq_order.trans)
  have "getStream (sm_id st) (ay_s y) = Some a \<Longrightarrow> a \<in> snd ` set (an_streams (ay_s y))"
    using inv by (force simp: any_inv_def getStream_mem)
  moreover have "\<not> an_done (ay_s y) \<Longrightarrow> prefix ds ps"
    using ds(2) by (auto simp: stream_inv_def dest: append_prefixD)
  ultimately show ?thesis
    using any_wire [OF assms(1)] sub held_prefix [OF ds(1)] concat_prefix ds by (auto simp: stream_inv_def on_wire_def)
qed

text \<open>The witness: a client that has opened a stream, after a payload for it.\<close>

definition demo_frame :: any_frame where
  "demo_frame = \<lparr>af_command = any_cmdPSH, af_streamID = 1, af_data = [7, 8]\<rparr>"

definition opened :: any_session where
  "opened = snd (any_register any_newSession)"

lemma opened_stream:
  "an_objs opened = [any_newStream 1]" "an_streams opened = [(1, 0)]" "an_synack opened = [(1, 0)]"
  "an_chans opened = [make_chan]" "an_done opened = False" "an_closing opened = CloseIdle" "an_incoming opened = make_chan"
  by (simp_all add: opened_def any_register_def any_newSession_def)

lemma loop_frame_push:
  "af_command f = any_cmdPSH \<Longrightarrow> getStream (af_streamID f) s = Some a \<Longrightarrow> loop_frame f s c = (LPush a (af_data f), s, c)"
  by (simp add: loop_frame_def handleFrame_def any_cmd_defs Let_def)

definition pushing :: "bytes \<Rightarrow> any_frame \<Rightarrow> any_sys" where
  "pushing input f =
     (any_start (open_conn input))\<lparr>ay_s := opened, ay_c := open_conn [], ay_loop := LPush 0 (af_data f),
       ay_opening := [1], ay_frames := [f], ay_birth := [0]\<rparr>"

lemma any_reach_next: "any_reach c y \<Longrightarrow> any_step y y' \<Longrightarrow> \<not> ay_panic y \<Longrightarrow> any_reach c y'"
  by (rule any_reach.step)

lemma any_reach_pushing:
  assumes f: "any_frame_ok f" "af_command f = any_cmdPSH" "af_streamID f = 1"
  shows "any_reach (open_conn (any_frame_bytes f)) (pushing (any_frame_bytes f) f)"
proof -
  let ?c = "open_conn (any_frame_bytes f)"
  let ?y = "(any_start ?c)\<lparr>ay_s := opened, ay_opening := [1], ay_birth := [0]\<rparr>"
  have "any_register (ay_s (any_start ?c)) = (1, opened)"
    by (simp add: any_start_def opened_def any_register_def any_newSession_def Let_def)
  from any_step.open_new [OF this] have "any_step (any_start ?c) ?y" by (simp add: any_start_def)
  then have r: "any_reach ?c ?y" by (rule any_reach_next [OF any_reach.init]) (simp add: any_start_def)
  have rf: "readFrame (ay_c ?y) = (Inr f, open_conn [])"
    using readFrame_bytes [OF f(1), of "ay_c ?y" "[]"] by (simp add: any_start_def open_conn_def)
  have "loop_frame f (ay_s ?y) (open_conn []) = (LPush 0 (af_data f), opened, open_conn [])"
    using f by (simp add: loop_frame_push getStream_def opened_stream)
  from any_step.recv [OF _ _ rf this, of 0]
  have "any_step ?y (pushing (any_frame_bytes f) f)"
    by (simp add: any_start_def conn_shut_def opened_stream pushing_def)
  then show ?thesis by (rule any_reach_next [OF r]) (simp add: any_start_def)
qed

theorem anytls_streams_separate_witness:
  "any_reach (open_conn (any_frame_bytes demo_frame)) (pushing (any_frame_bytes demo_frame) demo_frame) \<and>
   payloads 1 [demo_frame] = [[7, 8]] \<and>
   prefix (ay_got (pushing (any_frame_bytes demo_frame) demo_frame) 0) [7, 8]"
proof -
  let ?y = "pushing (any_frame_bytes demo_frame) demo_frame"
  have r: "any_reach (open_conn (any_frame_bytes demo_frame)) ?y"
    by (rule any_reach_pushing) (simp_all add: demo_frame_def any_frame_ok_def maxFrameData_def)
  have p: "payloads 1 [demo_frame] = [[7, 8]]" by (simp add: demo_frame_def)
  have "0 < length (an_objs (ay_s ?y))" "\<not> an_done (ay_s ?y)" by (simp_all add: pushing_def opened_stream)
  then have "prefix (ay_got ?y 0 @ held (any_newStream 1)) (concat [[7, 8]])"
    using anytls_streams_separate [OF r _ refl refl, of 0] p
    by (simp add: pushing_def opened_stream any_newStream_def)
  then show ?thesis using r p by simp
qed

text \<open>Before a session is closed nothing panics.\<close>

lemma any_panic_closed:
  assumes "any_reach c y" "ay_panic y"
  shows "an_closing (ay_s y) = CloseDone \<and> ((\<exists>a d. ay_loop y = LPush a d) \<or> (\<exists>a. ay_loop y = LSyn a))"
  using assms
proof cases
  case init
  then show ?thesis using assms(2) by (simp add: any_start_def)
next
  case (step x)
  have inv: "map_inv (ay_s x) (ay_loop x)" "close_inv (ay_s x) (ay_loop x)"
    "byte_inv (ay_s x) (ay_loop x) (ay_frames x) (ay_birth x) (ay_got x)"
    using any_reach_inv [OF step(1)] by (simp_all add: any_inv_def)
  from step(3) show ?thesis
  proof cases
    case (rest_panic sel e)
    then show ?thesis using rest_no_panic [OF inv] by simp
  next
    case (close_panic e)
    then show ?thesis using close_maps_ok [OF inv] by (metis Inl_Inr_False)
  next
    case (remove_panic i e)
    then show ?thesis using removeStream_ok [OF inv(1), of i] by (metis Inl_Inr_False)
  qed (use step(2) assms(2) in simp_all)
qed

lemma any_reach_close:
  assumes "any_reach c y" "\<not> ay_panic y" "close_maps (close_conn (close_begin (ay_s y))) = Inr s'"
  shows "any_reach c (y\<lparr>ay_s := s'\<rparr>)"
proof -
  let ?y1 = "y\<lparr>ay_s := close_begin (ay_s y)\<rparr>" and ?y2 = "y\<lparr>ay_s := close_conn (close_begin (ay_s y))\<rparr>"
  have "any_reach c ?y1" by (rule any_reach_next [OF assms(1) any_step.close_done assms(2)])
  moreover have "any_step ?y1 ?y2" using any_step.close_net [of ?y1] by simp
  ultimately have "any_reach c ?y2" by (rule any_reach_next) (simp add: assms(2))
  moreover have "any_step ?y2 (y\<lparr>ay_s := s'\<rparr>)" using any_step.close_all [of ?y2 s'] assms(3) by simp
  ultimately show ?thesis by (rule any_reach_next) (simp add: assms(2))
qed

text \<open>Property C40.  A program that uses AnyTLS can be brought down by closing a connection: the receive loop looks a
  stream up, the session is closed and with it the channel of the stream, and the loop sends to the closed
  channel, which panics.  This can happen with any payload; before the session is closed, no run-time panic can
  happen at all.\<close>

theorem anytls_close_race:
  assumes "any_frame_ok f" "af_command f = any_cmdPSH" "af_streamID f = 1"
  shows "(\<exists>y. any_reach (open_conn (any_frame_bytes f)) y \<and> ay_panic y) \<and>
    (\<forall>c y. any_reach c y \<longrightarrow> ay_panic y \<longrightarrow> an_closing (ay_s y) = CloseDone)"
proof
  let ?y = "pushing (any_frame_bytes f) f"
  let ?s = "(close_conn (close_begin opened))\<lparr>an_objs := [shut (any_newStream 1)], an_streams := [],
      an_chans := [make_chan\<lparr>ch_closed := True\<rparr>], an_synack := [], an_incoming := make_chan\<lparr>ch_closed := True\<rparr>,
      an_closing := CloseDone\<rparr>"
  have "close_maps (close_conn (close_begin opened)) = Inr ?s"
    by (simp add: close_maps_def close_conn_def close_begin_def opened_stream closeRead_shut any_newStream_def
        make_chan_def chan_close_def)
  then have "any_reach (open_conn (any_frame_bytes f)) (?y\<lparr>ay_s := ?s\<rparr>)"
    using any_reach_close [OF any_reach_pushing [OF assms]] by (simp add: pushing_def any_start_def)
  moreover have "handle_rest False (ay_loop (?y\<lparr>ay_s := ?s\<rparr>)) (ay_s (?y\<lparr>ay_s := ?s\<rparr>)) =
      Some (Inl (Panic ''send on closed channel''))"
    by (simp add: pushing_def chan_send_def)
  then have "any_step (?y\<lparr>ay_s := ?s\<rparr>) (?y\<lparr>ay_s := ?s, ay_panic := True\<rparr>)"
    using any_step.rest_panic by fastforce
  ultimately have "any_reach (open_conn (any_frame_bytes f)) (?y\<lparr>ay_s := ?s, ay_panic := True\<rparr>)"
    by (rule any_reach_next) (simp add: pushing_def any_start_def)
  then show "\<exists>y. any_reach (open_conn (any_frame_bytes f)) y \<and> ay_panic y" by fastforce
  show "\<forall>c y. any_reach c y \<longrightarrow> ay_panic y \<longrightarrow> an_closing (ay_s y) = CloseDone" using any_panic_closed by blast
qed

theorem anytls_close_race_witness:
  "\<exists>y. any_reach (open_conn [2, 0, 0, 0, 1, 0, 2, 7, 8]) y \<and> ay_panic y"
proof -
  have "any_frame_bytes demo_frame = [2, 0, 0, 0, 1, 0, 2, 7, 8]"
    by (simp add: any_frame_bytes_def demo_frame_def put32_def put16_def any_cmd_defs)
  then show ?thesis
    using anytls_close_race [of demo_frame] by (simp add: demo_frame_def any_frame_ok_def maxFrameData_def)
qed

text \<open>A stream whose queue is full holds up the loop, and with it every other stream of the session, until its reader
  goes on or the session is closed.\<close>

lemma any_head_of_line:
  assumes "any_reach c y" "ay_loop y = LPush a d" "\<not> an_done (ay_s y)"
    and "length (ch_buf (sm_in (an_objs (ay_s y) ! a))) = streamBacklog"
  shows "handle_rest sel (ay_loop y) (ay_s y) = None"
proof -
  have inv: "map_inv (ay_s y) (ay_loop y)" "close_inv (ay_s y) (ay_loop y)"
    using any_reach_inv [OF assms(1)] by (simp_all add: any_inv_def)
  have "a < length (an_objs (ay_s y))" using inv(1) assms(2) by (simp add: map_inv_defs)
  then have "\<not> ch_closed (sm_in (an_objs (ay_s y) ! a))"
    using obj_closed [OF inv(2)] inv(2) assms(2,3) by (auto simp: close_inv_def)
  then show ?thesis using assms(2-4) by (simp add: chan_send_def)
qed

end
