(* ===== verification/Anytls.thy ===== *)
theory Anytls
  imports Anytls_Session
begin

text \<open>
  The AnyTLS client and server (\<open>proxy/anytls/anytls.go\<close>, \<open>client.go\<close>, \<open>server.go\<close>, \<open>packet.go\<close>): the settings, dialing
  over a session of one's own, the handler with its fallback, the handler of a stream, and datagrams over a
  stream.  A handler sees a stream as a connection: what can be read from it is what the peer sends on it, which
  the theory of sessions shows to be what arrives.  \<open>url.Parse\<close>, \<open>time.ParseDuration\<close>, TLS and the hashes are
  arguments.
\<close>

section \<open>Model\<close>

record anytls =
  at_addr :: string
  at_password :: string
  at_withTLS :: bool
  at_serverName :: string
  at_skipVerify :: bool
  at_certFile :: string
  at_keyFile :: string
  at_fallback :: string
  at_synackTimeout :: int
  at_padding :: paddingScheme

text \<open>\<open>NewAnyTLS\<close> on the parsed url; durations are in nanoseconds.\<close>

definition any_addr :: "string \<Rightarrow> string" where
  "any_addr host =
     (if host = [] then []
      else if snd (split_host_port_or_empty host) = [] then JoinHostPort host ''443'' else host)"

definition NewAnyTLS :: "(string \<Rightarrow> int option) \<Rightarrow> url option \<Rightarrow> anytls result" where
  "NewAnyTLS parseDuration pu =
     (case pu of
        None \<Rightarrow> Inl (ErrMsg ''[anytls] parse url err'')
      | Some u \<Rightarrow>
          if u_User u = [] then Inl (ErrMsg ''[anytls] password must be specified'')
          else
            let addr = any_addr (u_Host u);
                sn = u_Query u ''serverName'';
                name = (if addr = [] \<or> sn \<noteq> [] then Some sn
                        else map_option (\<lambda>i. take i addr) (last_index_byte CHR '':'' addr));
                timeout = u_Query u ''synackTimeout'';
                scheme = u_Query u ''paddingScheme''
            in case name of
                 None \<Rightarrow> Inl (Panic ''slice bounds out of range'')
               | Some serverName \<Rightarrow>
                   (case (if timeout = [] then Some (10 * 10 ^ 9) else parseDuration timeout) of
                      None \<Rightarrow> Inl (ErrMsg ''[anytls] invalid synackTimeout'')
                    | Some d \<Rightarrow>
                        (case parsePaddingScheme (if scheme \<noteq> [] then scheme else defaultPaddingScheme) of
                           Inl e \<Rightarrow> Inl (ErrMsg ''[anytls] invalid padding scheme'')
                         | Inr p \<Rightarrow>
                             Inr \<lparr>at_addr = addr, at_password = u_User u, at_withTLS = True,
                               at_serverName = serverName, at_skipVerify = (u_Query u ''skipVerify'' = ''true''),
                               at_certFile = u_Query u ''cert'', at_keyFile = u_Query u ''key'',
                               at_fallback = u_Query u ''fallback'', at_synackTimeout = d, at_padding = p\<rparr>)))"

text \<open>\<open>readCert\<close> says what becomes of the certificate file: \<open>None\<close> if it cannot be read, else whether it has a certificate.\<close>

definition loadClientTLSConfig :: "(string \<Rightarrow> bool option) \<Rightarrow> string \<Rightarrow> go_error option" where
  "loadClientTLSConfig readCert certFile =
     (if certFile = [] then None
      else
        case readCert certFile of
          None \<Rightarrow> Some (ErrMsg ''[anytls] read cert file error'')
        | Some False \<Rightarrow> Some (ErrMsg ''[anytls] can not append cert file'')
        | Some True \<Rightarrow> None)"

definition NewAnyTLSDialer :: "(string \<Rightarrow> int option) \<Rightarrow> (string \<Rightarrow> bool option) \<Rightarrow> url option \<Rightarrow> anytls result" where
  "NewAnyTLSDialer parseDuration readCert pu =
     (case NewAnyTLS parseDuration pu of
        Inl _ \<Rightarrow> Inl (ErrMsg ''[anytls] create instance error'')
      | Inr a \<Rightarrow> (case loadClientTLSConfig readCert (at_certFile a) of Some e \<Rightarrow> Inl e | None \<Rightarrow> Inr a))"

definition any_NewClearText :: "(string \<Rightarrow> int option) \<Rightarrow> url option \<Rightarrow> anytls result" where
  "any_NewClearText parseDuration pu =
     (case NewAnyTLS parseDuration pu of
        Inl _ \<Rightarrow> Inl (ErrMsg ''[anytlsc] create instance error'')
      | Inr a \<Rightarrow> Inr (a\<lparr>at_withTLS := False\<rparr>))"

definition NewAnyTLSServer :: "(string \<Rightarrow> int option) \<Rightarrow> (string \<Rightarrow> string \<Rightarrow> bool) \<Rightarrow> url option \<Rightarrow> anytls result" where
  "NewAnyTLSServer parseDuration load pu =
     (case NewAnyTLS parseDuration pu of
        Inl _ \<Rightarrow> Inl (ErrMsg ''[anytls] create instance error'')
      | Inr a \<Rightarrow>
          if at_certFile a = [] \<or> at_keyFile a = []
          then Inl (ErrMsg ''[anytls] cert and key file path must be specified'')
          else if \<not> load (at_certFile a) (at_keyFile a) then Inl (ErrMsg ''[anytls] unable to load cert'')
          else Inr a)"

subsection \<open>The receive loop without interruption\<close>

text \<open>A client's loop runs beside \<open>Dial\<close>.  Turns of it, each handling a whole frame: \<open>None\<close> if it blocks, an error for a
  panic.\<close>

definition then_rest :: "(any_loop \<times> any_session) result option \<Rightarrow> (any_loop \<times> any_session) result option" where
  "then_rest r =
     (case r of
        Some (Inr (l, s)) \<Rightarrow> if l \<in> {LRead, LClose, LStop} then r else handle_rest False l s
      | _ \<Rightarrow> r)"

definition handle_complete :: "any_loop \<Rightarrow> any_session \<Rightarrow> (any_loop \<times> any_session) result option" where
  "handle_complete l s = then_rest (then_rest (Some (Inr (l, s))))"

definition loop_end :: "any_session \<Rightarrow> conn \<Rightarrow> ((any_loop \<times> any_session) result \<times> conn) option" where
  "loop_end s c = Some (map_sum id (\<lambda>s'. (LStop, s')) (any_Close s), c)"

fun loop_turns :: "nat \<Rightarrow> any_loop \<Rightarrow> any_session \<Rightarrow> conn \<Rightarrow> ((any_loop \<times> any_session) result \<times> conn) option" where
  "loop_turns 0 l s c = Some (Inr (l, s), c)"
| "loop_turns (Suc n) l s c =
     (if l = LStop then Some (Inr (l, s), c)
      else
        case readFrame c of
          (Inl e, c1) \<Rightarrow> loop_end (loop_error e s) c1
        | (Inr f, c1) \<Rightarrow>
            (case loop_frame f s c1 of
               (l1, s1, c2) \<Rightarrow>
                 if l1 = LClose then loop_end s1 c2
                 else
                   case handle_complete l1 s1 of
                     None \<Rightarrow> None
                   | Some (Inl e) \<Rightarrow> Some (Inl e, c2)
                   | Some (Inr (l2, s2)) \<Rightarrow> loop_turns n l2 s2 c2))"

subsection \<open>Client\<close>

text \<open>\<open>rc\<close> is the connection to the server, when the dialer reaches it, and \<open>tls\<close> the outcome of the handshake.\<close>

definition newClientSession ::
  "(bytes \<Rightarrow> bytes) \<Rightarrow> (bytes \<Rightarrow> bytes) \<Rightarrow> bool \<Rightarrow> conn option \<Rightarrow> anytls \<Rightarrow> any_session result \<times> conn option" where
  "newClientSession sha256 md5 tls rc a =
     (case rc of
        None \<Rightarrow> (Inl (ErrMsg ''dial error''), None)
      | Some c \<Rightarrow>
          if at_withTLS a \<and> \<not> tls then (Inl (ErrMsg ''tls handshake error''), Some c)
          else
            case writeAuth sha256 (at_password a) (authPaddingLen (at_padding a)) c of
              (Some e, c1) \<Rightarrow> (Inl e, Some c1)
            | (None, c1) \<Rightarrow>
                (case any_writeFrame \<lparr>af_command = any_cmdSettings, af_streamID = 0, af_data = clientSettings md5 (at_padding a)\<rparr>
                        any_newSession c1 of
                   (Some e, c2) \<Rightarrow> (Inl e, Some c2)
                 | (None, c2) \<Rightarrow> (Inr any_newSession, Some c2)))"

text \<open>What \<open>Dial\<close> and \<open>DialUDP\<close> do with a session: they open a stream, write the payloads \<open>ps\<close> to it and wait for the
  acknowledgement.  The loop runs \<open>early\<close> turns before \<open>waitSYNACK\<close> looks for the channel and \<open>late\<close> turns before it
  selects the case \<open>sel\<close>.  On an error stream and session are closed.\<close>

fun write_all :: "bytes list \<Rightarrow> any_stream \<Rightarrow> any_session \<Rightarrow> conn \<Rightarrow> go_error option \<times> conn" where
  "write_all [] st s c = (None, c)"
| "write_all (p # ps) st s c =
     (case any_Write p st s c of
        ((_, Some e), c') \<Rightarrow> (Some e, c')
      | ((_, None), c') \<Rightarrow> write_all ps st s c')"

definition dial_close :: "go_error \<Rightarrow> nat \<Rightarrow> any_session \<Rightarrow> conn \<Rightarrow> ((nat \<times> any_session) result \<times> conn) option" where
  "dial_close e k s c =
     (case any_stream_Close k s c of
        (Inl p, c') \<Rightarrow> Some (Inl p, c')
      | (Inr s', c') \<Rightarrow> (case any_Close s' of Inl p \<Rightarrow> Some (Inl p, c') | Inr _ \<Rightarrow> Some (Inl e, c')))"

definition waitSYNACK ::
  "bool \<Rightarrow> nat \<Rightarrow> nat \<Rightarrow> any_select \<Rightarrow> u32 \<Rightarrow> any_session \<Rightarrow> conn \<Rightarrow> ((go_error option \<times> any_session) result \<times> conn) option" where
  "waitSYNACK hasTimer early late sel i s c =
     (case loop_turns early LRead s c of
        None \<Rightarrow> None
      | Some (Inl p, c1) \<Rightarrow> Some (Inl p, c1)
      | Some (Inr (l, s1), c1) \<Rightarrow>
          (case wait_lookup i s1 of
             None \<Rightarrow> Some (Inr (None, s1), c1)
           | Some ch \<Rightarrow>
               (case loop_turns late l s1 c1 of
                  None \<Rightarrow> None
                | Some (Inl p, c2) \<Rightarrow> Some (Inl p, c2)
                | Some (Inr (_, s2), c2) \<Rightarrow>
                    map_option (\<lambda>r. (Inr r, c2)) (wait_select hasTimer sel ch s2))))"

definition dial_stream ::
  "bool \<Rightarrow> nat \<Rightarrow> nat \<Rightarrow> any_select \<Rightarrow> bytes list \<Rightarrow> any_session \<Rightarrow> conn \<Rightarrow> ((nat \<times> any_session) result \<times> conn) option" where
  "dial_stream hasTimer early late sel ps s c =
     (case openStream s c of
        (Inl p, c1) \<Rightarrow> Some (Inl p, c1)
      | (Inr (Inl e, s1), c1) \<Rightarrow> Some (case any_Close s1 of Inl p \<Rightarrow> Inl p | Inr _ \<Rightarrow> Inl e, c1)
      | (Inr (Inr (k, i), s1), c1) \<Rightarrow>
          (case write_all ps (an_objs s1 ! k) s1 c1 of
             (Some e, c2) \<Rightarrow> dial_close e k s1 c2
           | (None, c2) \<Rightarrow>
               (case waitSYNACK hasTimer early late sel i s1 c2 of
                  None \<Rightarrow> None
                | Some (Inl p, c3) \<Rightarrow> Some (Inl p, c3)
                | Some (Inr (Some e, s2), c3) \<Rightarrow> dial_close e k s2 c3
                | Some (Inr (None, s2), c3) \<Rightarrow> Some (Inr (k, s2), c3))))"

definition ErrNotSupported :: go_error where "ErrNotSupported = ErrMsg ''not supported''"

definition any_Dial ::
  "(bytes \<Rightarrow> bytes) \<Rightarrow> (bytes \<Rightarrow> bytes) \<Rightarrow> bool \<Rightarrow> nat \<Rightarrow> nat \<Rightarrow> any_select \<Rightarrow> conn option \<Rightarrow> anytls \<Rightarrow> string \<Rightarrow> string
    \<Rightarrow> ((nat \<times> any_session) result \<times> conn option) option" where
  "any_Dial sha256 md5 tls early late sel rc a network addr =
     (if network \<notin> {''tcp'', ''tcp4'', ''tcp6''} then Some (Inl ErrNotSupported, rc)
      else
        case ParseAddr_socks addr of
          None \<Rightarrow> Some (Inl (ErrMsg ''[anytls] invalid target address''), rc)
        | Some raw \<Rightarrow>
            (case newClientSession sha256 md5 tls rc a of
               (Inr s, Some c) \<Rightarrow>
                 map_option (map_prod id Some) (dial_stream (at_synackTimeout a > 0) early late sel [raw] s c)
             | (Inl e, c) \<Rightarrow> Some (Inl e, c)
             | (Inr s, None) \<Rightarrow> None))"

definition uotV2MagicHost :: string where "uotV2MagicHost = ''sp.v2.udp-over-tcp.arpa''"

definition uot_request :: "socks_addr \<Rightarrow> bytes" where
  "uot_request target = [1] @ target"

definition any_DialUDP ::
  "(bytes \<Rightarrow> bytes) \<Rightarrow> (bytes \<Rightarrow> bytes) \<Rightarrow> bool \<Rightarrow> nat \<Rightarrow> nat \<Rightarrow> any_select \<Rightarrow> conn option \<Rightarrow> anytls \<Rightarrow> string \<Rightarrow> string
    \<Rightarrow> ((nat \<times> any_session) result \<times> conn option) option" where
  "any_DialUDP sha256 md5 tls early late sel rc a network addr =
     (if network \<notin> {''udp'', ''udp4'', ''udp6''} then Some (Inl ErrNotSupported, rc)
      else
        case ParseAddr_socks addr of
          None \<Rightarrow> Some (Inl (ErrMsg ''[anytls] invalid target address''), rc)
        | Some target \<Rightarrow>
            (case ParseAddr_socks (JoinHostPort uotV2MagicHost ''0'') of
               None \<Rightarrow> Some (Inl (ErrMsg ''[anytls] invalid udp-over-tcp target address''), rc)
             | Some raw \<Rightarrow>
                 (case newClientSession sha256 md5 tls rc a of
                    (Inr s, Some c) \<Rightarrow>
                      map_option (map_prod id Some)
                        (dial_stream (at_synackTimeout a > 0) early late sel [raw, uot_request target] s c)
                  | (Inl e, c) \<Rightarrow> Some (Inl e, c)
                  | (Inr s, None) \<Rightarrow> None)))"

text \<open>Closing the connection that \<open>Dial\<close> returns closes its stream and then its session.\<close>

definition clientConn_Close :: "nat \<Rightarrow> any_session \<Rightarrow> conn \<Rightarrow> any_session result \<times> conn" where
  "clientConn_Close k s c =
     (case any_stream_Close k s c of (Inl p, c') \<Rightarrow> (Inl p, c') | (Inr s', c') \<Rightarrow> (any_Close s', c'))"

subsection \<open>Server\<close>

datatype any_event =
    AnyDial string string
  | AnyWrite bytes
  | AnyRelay
  | AnySynack bytes
  | AnyRecord bool
  | AnyClose

definition any_serveFallback :: "(string \<Rightarrow> string \<Rightarrow> bool) \<Rightarrow> bool \<Rightarrow> string \<Rightarrow> bytes \<Rightarrow> any_event list" where
  "any_serveFallback dials writes target headBuf =
     (if \<not> dials ''tcp'' target then [AnyDial ''tcp'' target, AnyClose]
      else if \<not> writes then [AnyDial ''tcp'' target, AnyWrite headBuf, AnyClose]
      else [AnyDial ''tcp'' target, AnyWrite headBuf, AnyRelay, AnyClose])"

text \<open>\<open>Serve\<close> up to the session: the events of a connection that gets none, or the connection the session runs on.
  The handler then starts a \<open>serveStream\<close> for every stream that \<open>acceptStream\<close> returns.\<close>

definition any_Serve ::
  "(bytes \<Rightarrow> bytes) \<Rightarrow> anytls \<Rightarrow> bool \<Rightarrow> (string \<Rightarrow> string \<Rightarrow> bool) \<Rightarrow> bool \<Rightarrow> conn \<Rightarrow> (any_event list \<times> conn) + conn" where
  "any_Serve sha256 a tls dials writes c =
     (if at_withTLS a \<and> \<not> tls then Inl ([AnyClose], c)
      else
        case readAuth sha256 (at_password a) c of
          (Inl _, c') \<Rightarrow>
            Inl (if at_fallback a \<noteq> []
                 then any_serveFallback dials writes (at_fallback a) (take (length (rd c) - length (rd c')) (rd c))
                 else [AnyClose], c')
        | (Inr _, c') \<Rightarrow> Inr c')"

definition readUOTV2Request :: "socks_addr io" where
  "readUOTV2Request =
     io_bind (read_full 1) (\<lambda>connect.
       if connect ! 0 \<noteq> 1 then io_fail (ErrMsg ''udp-over-tcp v2 non-connect format is not supported'')
       else ReadAddr)"

text \<open>What follows a relay: a failure that is not the listener's own is recorded.  \<open>relay\<close> is the text of its error.\<close>

definition after_relay :: "anytls \<Rightarrow> string option \<Rightarrow> any_event list" where
  "after_relay a relay =
     (case relay of None \<Rightarrow> [] | Some err \<Rightarrow> if contains_str err (at_addr a) then [] else [AnyRecord False])"

text \<open>\<open>serveUoT\<close> and \<open>serveStream\<close> on the stream \<open>st\<close>; \<open>dials\<close> gives the text of the error of a dial that fails, \<open>isDialer\<close>
  whether the datagram dialer can be recorded.\<close>

definition serveUoT ::
  "anytls \<Rightarrow> (go_error \<Rightarrow> string) \<Rightarrow> (string \<Rightarrow> string \<Rightarrow> string option) \<Rightarrow> bool \<Rightarrow> string option \<Rightarrow> conn \<Rightarrow> any_event list result \<times> conn" where
  "serveUoT a text dials isDialer relay st =
     (case readUOTV2Request st of
        (Inl e, st') \<Rightarrow> (Inr [AnySynack (str_bytes (text e))], st')
      | (Inr tgt, st') \<Rightarrow>
          (case socks_String tgt of
             Inl p \<Rightarrow> (Inl p, st')
           | Inr target \<Rightarrow>
               (case dials ''udp'' target of
                  Some err \<Rightarrow> (Inr [AnyDial ''udp'' target, AnySynack (str_bytes err)], st')
                | None \<Rightarrow>
                    (Inr ([AnyDial ''udp'' target, AnySynack [], AnyRelay] @
                      (if isDialer then after_relay a relay else [])), st'))))"

definition serveStream ::
  "anytls \<Rightarrow> (go_error \<Rightarrow> string) \<Rightarrow> (string \<Rightarrow> string \<Rightarrow> string option) \<Rightarrow> bool \<Rightarrow> string option \<Rightarrow> conn \<Rightarrow> any_event list result \<times> conn" where
  "serveStream a text dials isDialer relay st =
     (case ReadAddr st of
        (Inl e, st') \<Rightarrow> (Inr [AnySynack (str_bytes (text e)), AnyClose], st')
      | (Inr tgt, st') \<Rightarrow>
          (case socks_String tgt of
             Inl p \<Rightarrow> (Inl p, st')
           | Inr target \<Rightarrow>
               if (case SplitHostPort target of Inr (host, _) \<Rightarrow> host = uotV2MagicHost | Inl _ \<Rightarrow> False)
               then (case serveUoT a text dials isDialer relay st' of
                       (Inl p, st'') \<Rightarrow> (Inl p, st'')
                     | (Inr evs, st'') \<Rightarrow> (Inr (evs @ [AnyClose]), st''))
               else
                 (case dials ''tcp'' target of
                    Some err \<Rightarrow> (Inr [AnyDial ''tcp'' target, AnySynack (str_bytes err), AnyClose], st')
                  | None \<Rightarrow>
                      (Inr ([AnyDial ''tcp'' target, AnySynack [], AnyRelay] @ after_relay a relay @ [AnyClose]), st'))))"

subsection \<open>Datagrams over a stream\<close>

text \<open>\<open>ReadFrom\<close> with a buffer of \<open>blen\<close> bytes.\<close>

definition uot_ReadFrom :: "nat \<Rightarrow> bytes io" where
  "uot_ReadFrom blen =
     (if blen < 2 then io_fail (ErrMsg ''buf size is not enough'')
      else
        io_bind (read_full 2) (\<lambda>h.
          let len = unat (be16 (h ! 0) (h ! 1)) in
          if blen < len then io_fail (ErrMsg ''buf size is not enough'') else read_full len))"

definition uot_bytes :: "bytes \<Rightarrow> bytes" where
  "uot_bytes b = put16 (of_nat (length b)) @ b"

text \<open>\<open>WriteTo\<close>, on the stream \<open>st\<close>: the number of bytes of the datagram that are reported.\<close>

definition uot_WriteTo :: "bytes \<Rightarrow> any_stream \<Rightarrow> any_session \<Rightarrow> conn \<Rightarrow> (nat \<times> go_error option) \<times> conn" where
  "uot_WriteTo b st s c =
     (case any_Write (uot_bytes b) st s c of ((n, e), c') \<Rightarrow> ((if n > 2 then n - 2 else 0, e), c'))"

section \<open>What a client writes\<close>

lemma write_data_frames:
  assumes "wleft c = None" "\<not> conn_shut s"
  shows "\<exists>fs. write_data i p n s c = ((n + length p, None), c\<lparr>wr := wr c @ concat (map any_frame_bytes fs)\<rparr>) \<and>
    list_all any_frame_ok fs \<and> list_all (\<lambda>f. af_command f = any_cmdPSH \<and> af_streamID f = i) fs \<and>
    concat (map af_data fs) = p"
  using assms
proof (induction "length p" arbitrary: p n c rule: less_induct)
  case less
  show ?case
  proof (cases "p = []")
    case True
    then show ?thesis by (intro exI [of _ "[]"]) (simp add: write_data.simps)
  next
    case False
    let ?n = "min (length p) maxFrameData"
    let ?f = "\<lparr>af_command = any_cmdPSH, af_streamID = i, af_data = take ?n p\<rparr>"
    have pos: "0 < ?n" using False by (simp add: maxFrameData_def)
    have ok: "any_frame_ok ?f" by (simp add: any_frame_ok_def)
    have w: "any_writeFrame ?f s c = (None, c\<lparr>wr := wr c @ any_frame_bytes ?f\<rparr>)"
      using less.prems writeFrame_open [OF ok] by (simp add: any_writeFrame_def)
    have "length (drop ?n p) < length p" using pos False by simp
    from less.hyps [OF this, of "c\<lparr>wr := wr c @ any_frame_bytes ?f\<rparr>" "n + ?n"] less.prems
    obtain fs where fs: "write_data i (drop ?n p) (n + ?n) s (c\<lparr>wr := wr c @ any_frame_bytes ?f\<rparr>) =
        ((n + ?n + length (drop ?n p), None), c\<lparr>wr := wr c @ any_frame_bytes ?f @ concat (map any_frame_bytes fs)\<rparr>)"
      "list_all any_frame_ok fs" "list_all (\<lambda>f. af_command f = any_cmdPSH \<and> af_streamID f = i) fs"
      "concat (map af_data fs) = drop ?n p"
      by auto
    have "n + ?n + length (drop ?n p) = n + length p" by simp
    with fs w False ok show ?thesis
      by (subst write_data.simps) (intro exI [of _ "?f # fs"], simp add: Let_def)
  qed
qed

lemma write_all_frames:
  assumes "write_all ps st s c = (None, c')" "wleft c = None" "\<not> conn_shut s"
  shows "\<exists>fs. wr c' = wr c @ concat (map any_frame_bytes fs) \<and> wleft c' = None \<and>
    list_all any_frame_ok fs \<and> list_all (\<lambda>f. af_command f = any_cmdPSH \<and> af_streamID f = sm_id st) fs \<and>
    concat (map af_data fs) = concat ps"
  using assms
proof (induction ps arbitrary: c)
  case Nil
  then show ?case by (intro exI [of _ "[]"]) simp
next
  case (Cons p ps)
  have open_st: "\<not> sm_closed st" using Cons.prems(1) by (auto simp: any_Write_def)
  obtain fs where fs: "write_data (sm_id st) p 0 s c = ((length p, None), c\<lparr>wr := wr c @ concat (map any_frame_bytes fs)\<rparr>)"
    "list_all any_frame_ok fs" "list_all (\<lambda>f. af_command f = any_cmdPSH \<and> af_streamID f = sm_id st) fs"
    "concat (map af_data fs) = p"
    using write_data_frames [OF Cons.prems(2,3), of "sm_id st" p 0] by auto
  let ?c = "c\<lparr>wr := wr c @ concat (map any_frame_bytes fs)\<rparr>"
  have "write_all ps st s ?c = (None, c')" using Cons.prems(1) open_st fs(1) by (simp add: any_Write_def)
  from Cons.IH [OF this] Cons.prems(2,3) obtain gs where
    "wr c' = wr ?c @ concat (map any_frame_bytes gs)" "wleft c' = None" "list_all any_frame_ok gs"
    "list_all (\<lambda>f. af_command f = any_cmdPSH \<and> af_streamID f = sm_id st) gs" "concat (map af_data gs) = concat ps" by auto
  then show ?case using fs by (intro exI [of _ "fs @ gs"]) auto
qed

text \<open>The bytes of a client up to the first payloads: authentication, settings, SYN, data.\<close>

lemma client_bytes:
  assumes "newClientSession sha256 md5 tls (Some (open_conn [])) cl = (Inr s, Some c1)"
    and "openStream s c1 = (Inr (Inr (k, i), s1), c2)" "write_all ps (an_objs s1 ! k) s1 c2 = (None, c3)"
  obtains f1 fs where "i = 1"
    "wr c3 = auth_bytes sha256 (at_password cl) (nat (authPaddingLen (at_padding cl))) @ concat (map any_frame_bytes
      (f1 # \<lparr>af_command = any_cmdSYN, af_streamID = i, af_data = []\<rparr> # fs))"
    "af_command f1 = any_cmdSettings" "any_frame_ok f1" "list_all any_frame_ok fs"
    "list_all (\<lambda>f. af_command f = any_cmdPSH \<and> af_streamID f = i) fs" "concat (map af_data fs) = concat ps"
proof -
  let ?f1 = "\<lparr>af_command = any_cmdSettings, af_streamID = 0, af_data = clientSettings md5 (at_padding cl)\<rparr>"
  let ?syn = "\<lparr>af_command = any_cmdSYN, af_streamID = 1, af_data = []\<rparr> :: any_frame"
  let ?auth = "auth_bytes sha256 (at_password cl) (nat (authPaddingLen (at_padding cl)))"
  have ns: "\<not> conn_shut any_newSession" by (simp add: conn_shut_def any_newSession_def)
  have s: "s = any_newSession" and ok: "any_frame_ok ?f1"
    and c1: "c1 = (open_conn [])\<lparr>wr := ?auth @ any_frame_bytes ?f1\<rparr>"
    using assms(1) ns
    by (auto simp: newClientSession_def writeAuth_def any_writeFrame_def writeFrame_def any_frame_ok_def
        split: if_splits prod.splits option.splits)
  have reg: "any_register any_newSession = (1, opened)"
    by (simp add: opened_def any_register_def any_newSession_def Let_def)
  have sh: "\<not> conn_shut opened" by (simp add: conn_shut_def opened_stream)
  have "any_frame_ok ?syn" by (simp add: any_frame_ok_def)
  then have "any_writeFrame ?syn opened c1 = (None, c1\<lparr>wr := wr c1 @ any_frame_bytes ?syn\<rparr>)"
    using sh c1 by (simp add: any_writeFrame_def writeFrame_open)
  then have o: "k = 0" "i = 1" "s1 = opened" "c2 = c1\<lparr>wr := wr c1 @ any_frame_bytes ?syn\<rparr>"
    using assms(2) s reg by (auto simp: openStream_def any_newSession_def Let_def)
  have "wleft c2 = None" "sm_id (an_objs s1 ! k) = 1" using o c1 by (simp_all add: opened_stream any_newStream_def)
  with write_all_frames [OF assms(3)] sh o(3) obtain fs where fs: "wr c3 = wr c2 @ concat (map any_frame_bytes fs)"
    "list_all any_frame_ok fs" "list_all (\<lambda>f. af_command f = any_cmdPSH \<and> af_streamID f = 1) fs"
    "concat (map af_data fs) = concat ps" by auto
  show thesis by (rule that [of ?f1 fs]) (use fs o c1 ok in simp_all)
qed

section \<open>What the server gets\<close>

lemma any_frame_bytes_nonempty: "any_frame_bytes f \<noteq> []"
  by (simp add: any_frame_bytes_def)

lemma payloads_data:
  "list_all (\<lambda>f. af_command f = any_cmdPSH \<and> af_streamID f = i) fs \<Longrightarrow> payloads i fs = map af_data fs"
  by (induction fs) auto

lemma server_frames:
  assumes reach: "any_reach c y" and c: "rd c = concat (map any_frame_bytes fs)" "list_all any_frame_ok fs"
  shows "prefix (ay_frames y) fs \<and> (ay_loop y = LRead \<and> rd (ay_c y) = [] \<longrightarrow> ay_frames y = fs)"
proof -
  obtain rest where w: "list_all any_frame_ok (ay_frames y)" "rd c = concat (map any_frame_bytes (ay_frames y)) @ rest"
    "ay_loop y = LRead \<longrightarrow> rest = rd (ay_c y)"
    using any_wire [OF reach] by (auto simp: on_wire_def)
  obtain gs where "fs = ay_frames y @ gs" "rest = concat (map any_frame_bytes gs)"
    using anyf.concat_prefix_free [OF any_frame_bytes_nonempty w(1) c(2)] c(1) w(2) by metis
  then show ?thesis using w(3) by (cases gs) (auto simp: any_frame_bytes_nonempty)
qed

lemma server_stream:
  assumes reach: "any_reach c y" and c: "rd c = concat (map any_frame_bytes (f1 # f2 # fs))"
    and ok: "any_frame_ok f1" "any_frame_ok f2" "list_all any_frame_ok fs"
    and fs: "list_all (\<lambda>f. af_command f = any_cmdPSH \<and> af_streamID f = i) fs"
    and a: "a < length (an_objs (ay_s y))" "sm_id (an_objs (ay_s y) ! a) = i" "ay_birth y ! a = 2"
    and d: "\<not> an_done (ay_s y)"
  shows "prefix (ay_got y a @ held (an_objs (ay_s y) ! a)) (concat (map af_data fs)) \<and>
    (getStream i (ay_s y) = Some a \<and> ay_loop y = LRead \<and> rd (ay_c y) = [] \<longrightarrow>
      ay_got y a @ held (an_objs (ay_s y) ! a) = concat (map af_data fs))"
proof -
  have inv: "any_inv y" by (rule any_reach_inv [OF reach])
  let ?ps = "payloads i (drop 2 (ay_frames y))"
  obtain ds where ds: "ay_got y a @ held (an_objs (ay_s y) ! a) = concat ds"
    "stream_inv False (a \<in> snd ` set (an_streams (ay_s y))) ?ps (pending (ay_loop y) a) ds"
    using inv a d by (auto simp: any_inv_def byte_inv_def)
  have fr: "prefix (ay_frames y) (f1 # f2 # fs)" "ay_loop y = LRead \<and> rd (ay_c y) = [] \<longrightarrow> ay_frames y = f1 # f2 # fs"
    using server_frames [OF reach c] ok by auto
  obtain zs where "f1 # f2 # fs = ay_frames y @ zs" using fr(1) by (auto simp: prefix_def)
  then have "fs = drop 2 (ay_frames y) @ drop (2 - length (ay_frames y)) zs"
    by (metis drop_append drop_Cons_numeral drop_Suc_Cons drop0 numeral_2_eq_2)
  then have "prefix (drop 2 (ay_frames y)) fs" by (metis prefixI)
  then obtain gs where gs: "fs = drop 2 (ay_frames y) @ gs" by (auto simp: prefix_def)
  then have ps: "?ps = map af_data (drop 2 (ay_frames y))" using fs by (intro payloads_data) (simp add: gs)
  have "prefix ds ?ps" using ds(2) by (auto simp: stream_inv_def dest: append_prefixD)
  moreover have "map af_data fs = ?ps @ map af_data gs" unfolding ps by (subst gs) simp
  ultimately have "prefix (concat ds) (concat (map af_data fs))" by (intro concat_prefix) (metis prefix_prefix)
  moreover have "a \<in> snd ` set (an_streams (ay_s y))" if "getStream i (ay_s y) = Some a"
    using that inv by (force simp: any_inv_def getStream_mem)
  moreover have "ay_loop y = LRead \<Longrightarrow> pending (ay_loop y) a = []" by (simp add: pending_def)
  ultimately show ?thesis using ds fr(2) ps by (auto simp: stream_inv_def)
qed

text \<open>Property C24.  What a client sends on a stream is what a server with the same password serves: it authenticates the
  client and runs a session on the rest of the connection; in every interleaving of that session, the
  stream of the client's SYN has received a front part of target and data in order, and all of it once the loop
  has nothing more to read; the handler of a stream with these bytes dials exactly the client's target,
  acknowledges the stream and leaves the data for the relay.\<close>

theorem anytls_client_served:
  assumes hash: "length (sha256 (str_bytes (at_password cl))) = 32" and pad: "parsePaddingScheme sch = Inr (at_padding cl)"
    and pw: "at_password srv = at_password cl" and tls: "at_withTLS srv \<longrightarrow> tlss"
    and addr: "ParseAddr_socks addr = Some raw" "socks_String raw = Inr target" "SplitHostPort target = Inr (host, port)"
      "host \<noteq> uotV2MagicHost"
    and client: "newClientSession sha256 md5 tls (Some (open_conn [])) cl = (Inr s, Some c1)"
      "openStream s c1 = (Inr (Inr (k, i), s1), c2)" "write_all (raw # ds) (an_objs s1 ! k) s1 c2 = (None, c3)"
    and dials: "dials ''tcp'' target = None"
  shows "\<exists>c. any_Serve sha256 srv tlss fdials writes (open_conn (wr c3)) = Inr c \<and>
    (\<forall>y a st. any_reach c y \<and> a < length (an_objs (ay_s y)) \<and> st = an_objs (ay_s y) ! a \<and> sm_id st = i \<and>
        ay_birth y ! a = 2 \<and> \<not> an_done (ay_s y) \<longrightarrow>
      prefix (ay_got y a @ held st) (raw @ concat ds) \<and>
      (getStream i (ay_s y) = Some a \<and> ay_loop y = LRead \<and> rd (ay_c y) = [] \<longrightarrow> ay_got y a @ held st = raw @ concat ds)) \<and>
    (\<forall>st. rd st = raw @ concat ds \<longrightarrow>
      serveStream srv text dials isDialer None st =
        (Inr [AnyDial ''tcp'' target, AnySynack [], AnyRelay, AnyClose], st\<lparr>rd := concat ds\<rparr>))"
proof -
  let ?n = "nat (authPaddingLen (at_padding cl))"
  obtain f1 fs where w: "wr c3 = auth_bytes sha256 (at_password cl) ?n @ concat (map any_frame_bytes
      (f1 # \<lparr>af_command = any_cmdSYN, af_streamID = i, af_data = []\<rparr> # fs))" "any_frame_ok f1"
    and fs: "list_all any_frame_ok fs" "list_all (\<lambda>f. af_command f = any_cmdPSH \<and> af_streamID f = i) fs"
      "concat (map af_data fs) = raw @ concat ds"
    by (rule client_bytes [OF client]) auto
  let ?fs = "f1 # \<lparr>af_command = any_cmdSYN, af_streamID = i, af_data = []\<rparr> # fs"
  let ?c = "(open_conn (wr c3))\<lparr>rd := concat (map any_frame_bytes ?fs)\<rparr>"
  have "?n \<le> 65535" using authPaddingLen_bounds [OF pad] by linarith
  then have "readAuth sha256 (at_password srv) (open_conn (wr c3)) = (Inr (), ?c)"
    using hash pw w(1) by (intro readAuth_reads [where n = ?n]) (simp_all add: passwordHash_def)
  then have "any_Serve sha256 srv tlss fdials writes (open_conn (wr c3)) = Inr ?c"
    using tls by (simp add: any_Serve_def)
  moreover have "prefix (ay_got y a @ held st) (raw @ concat ds) \<and>
      (getStream i (ay_s y) = Some a \<and> ay_loop y = LRead \<and> rd (ay_c y) = [] \<longrightarrow> ay_got y a @ held st = raw @ concat ds)"
    if "any_reach ?c y" "a < length (an_objs (ay_s y))" "st = an_objs (ay_s y) ! a" "sm_id st = i" "ay_birth y ! a = 2"
      "\<not> an_done (ay_s y)" for y a st
    using server_stream [OF that(1) _ w(2) _ fs(1,2) that(2)] that fs(3) by (simp add: any_frame_ok_def)
  moreover have "serveStream srv text dials isDialer None st =
        (Inr [AnyDial ''tcp'' target, AnySynack [], AnyRelay, AnyClose], st\<lparr>rd := concat ds\<rparr>)"
    if "rd st = raw @ concat ds" for st
    using saddr.dec_enc [OF ParseAddr_socks_wf [OF addr(1)] that] addr dials
    by (simp add: serveStream_def after_relay_def)
  ultimately show ?thesis by blast
qed

text \<open>The witness: a client without padding, whose hash is 32 zeros and whose digest is 16 zeros.\<close>

definition demo_sha :: "bytes \<Rightarrow> bytes" where "demo_sha b = replicate 32 0"
definition demo_md5 :: "bytes \<Rightarrow> bytes" where "demo_md5 b = replicate 16 0"

definition demo_anytls :: anytls where
  "demo_anytls =
     \<lparr>at_addr = ''h:443'', at_password = ''p'', at_withTLS = False, at_serverName = ''h'', at_skipVerify = False,
      at_certFile = [], at_keyFile = [], at_fallback = ''127.0.0.1:80'', at_synackTimeout = 10 * 10 ^ 9,
      at_padding = \<lparr>ps_raw = ''stop=8'', ps_authRange = (0, 0)\<rparr>\<rparr>"

lemma demo_padding: "parsePaddingScheme ''stop=8'' = Inr (at_padding demo_anytls)"
  by code_simp

lemma clientSettings_length:
  assumes "\<And>b. length (md5 b) = 16"
  shows "length (clientSettings md5 ps) \<le> 65535"
proof -
  have "length (hex_encode b) = 2 * length b" for b by (induction b) (simp_all add: hex_encode_def)
  then have "length (scheme_md5 md5 ps) = 32" using assms by (simp add: scheme_md5_def bytes_str_def)
  moreover have "show_nat protocolVersion = ''2''" by code_simp
  ultimately show ?thesis by (simp add: clientSettings_def encodeSettings_def setting_line_def Let_def str_bytes_def)
qed

lemma newClientSession_open:
  assumes "\<And>b. length (md5 b) = 16" "parsePaddingScheme sch = Inr (at_padding a)" "wleft c = None" "at_withTLS a \<longrightarrow> tls"
  shows "newClientSession sha256 md5 tls (Some c) a =
    (Inr any_newSession, Some (c\<lparr>wr := wr c @ auth_bytes sha256 (at_password a) (nat (authPaddingLen (at_padding a))) @
      any_frame_bytes \<lparr>af_command = any_cmdSettings, af_streamID = 0, af_data = clientSettings md5 (at_padding a)\<rparr>\<rparr>))"
proof -
  have b: "\<not> authPaddingLen (at_padding a) < 0" "\<not> authPaddingLen (at_padding a) > 65535"
    using authPaddingLen_bounds [OF assms(2)] by auto
  have "\<not> conn_shut any_newSession" by (simp add: conn_shut_def any_newSession_def)
  then show ?thesis
    using assms(3,4) b clientSettings_length [OF assms(1)]
    by (simp add: newClientSession_def writeAuth_def any_writeFrame_def writeFrame_open any_frame_ok_def maxFrameData_def)
qed


lemma openStream_new:
  assumes "wleft c = None"
  shows "openStream any_newSession c =
    (Inr (Inr (0, 1), opened), c\<lparr>wr := wr c @ any_frame_bytes \<lparr>af_command = any_cmdSYN, af_streamID = 1, af_data = []\<rparr>\<rparr>)"
proof -
  have reg: "any_register any_newSession = (1, opened)"
    by (simp add: opened_def any_register_def any_newSession_def Let_def)
  have "\<not> conn_shut opened" by (simp add: conn_shut_def opened_stream)
  then show ?thesis
    using assms reg by (simp add: openStream_def any_writeFrame_def writeFrame_open any_frame_ok_def any_newSession_def Let_def)
qed

lemma write_all_open:
  assumes "wleft c = None" "\<not> conn_shut s" "\<not> sm_closed st"
  shows "\<exists>c'. write_all ps st s c = (None, c') \<and> rd c' = rd c \<and> wleft c' = None"
  using assms(1)
proof (induction ps arbitrary: c)
  case (Cons p ps)
  obtain fs where "write_data (sm_id st) p 0 s c = ((length p, None), c\<lparr>wr := wr c @ concat (map any_frame_bytes fs)\<rparr>)"
    using write_data_frames [OF Cons.prems assms(2), of "sm_id st" p 0] by auto
  then show ?case using Cons.IH [of "c\<lparr>wr := wr c @ concat (map any_frame_bytes fs)\<rparr>"] Cons.prems assms(3) by (simp add: any_Write_def)
qed simp

theorem anytls_client_served_witness:
  "\<exists>s c1 k i s1 c2 c3 c. newClientSession demo_sha demo_md5 True (Some (open_conn [])) demo_anytls = (Inr s, Some c1) \<and>
     openStream s c1 = (Inr (Inr (k, i), s1), c2) \<and>
     write_all [[1, 1, 2, 3, 4, 0, 80], [9]] (an_objs s1 ! k) s1 c2 = (None, c3) \<and>
     any_Serve demo_sha demo_anytls True (\<lambda>_ _. True) True (open_conn (wr c3)) = Inr c \<and>
     serveStream demo_anytls (\<lambda>_. []) (\<lambda>_ _. None) True None (open_conn [1, 1, 2, 3, 4, 0, 80, 9]) =
       (Inr [AnyDial ''tcp'' ''1.2.3.4:80'', AnySynack [], AnyRelay, AnyClose], open_conn [9])"
proof -
  obtain c1 where c1: "newClientSession demo_sha demo_md5 True (Some (open_conn [])) demo_anytls = (Inr any_newSession, Some c1)"
    "wleft c1 = None"
    using newClientSession_open [OF _ demo_padding, of demo_md5 "open_conn []" True demo_sha]
    by (simp add: demo_md5_def demo_anytls_def)
  obtain c2 where c2: "openStream any_newSession c1 = (Inr (Inr (0, 1), opened), c2)" "wleft c2 = None"
    using openStream_new [OF c1(2)] c1(2) by simp
  have st: "\<not> sm_closed (an_objs opened ! 0)" "\<not> conn_shut opened"
    by (simp_all add: opened_stream any_newStream_def conn_shut_def)
  obtain c3 where c3: "write_all [[1, 1, 2, 3, 4, 0, 80], [9]] (an_objs opened ! 0) opened c2 = (None, c3)"
    using write_all_open [OF c2(2) st(2,1)] by blast
  have sp: "SplitHostPort ''1.2.3.4:80'' = Inr (''1.2.3.4'', ''80'')" by code_simp
  have h: "''1.2.3.4'' \<noteq> uotV2MagicHost" by (simp add: uotV2MagicHost_def)
  have sha: "length (demo_sha (str_bytes (at_password demo_anytls))) = 32" by (simp add: demo_sha_def)
  have dl: "(\<lambda>_ _. None) ''tcp'' ''1.2.3.4:80'' = (None :: string option)" by simp
  note served = anytls_client_served [OF sha demo_padding refl _ example_addr sp h c1(1) c2(1) c3 dl]
  obtain c where "any_Serve demo_sha demo_anytls True (\<lambda>_ _. True) True (open_conn (wr c3)) = Inr c"
    "\<forall>st. rd st = [1, 1, 2, 3, 4, 0, 80] @ concat [[9]] \<longrightarrow>
      serveStream demo_anytls (\<lambda>_. []) (\<lambda>_ _. None) True None st =
        (Inr [AnyDial ''tcp'' ''1.2.3.4:80'', AnySynack [], AnyRelay, AnyClose], st\<lparr>rd := concat [[9]]\<rparr>)"
    using served [of True "\<lambda>_ _. True" True "\<lambda>_. []" True] by (auto simp: demo_anytls_def)
  then show ?thesis using c1(1) c2(1) c3 by (fastforce simp: open_conn_def)
qed

section \<open>A refusal that is not noticed\<close>

definition refusal :: "bytes \<Rightarrow> bytes" where
  "refusal msg =
     any_frame_bytes \<lparr>af_command = any_cmdServerSettings, af_streamID = 0, af_data = serverSettings\<rparr> @
     any_frame_bytes \<lparr>af_command = any_cmdSYNACK, af_streamID = 1, af_data = msg\<rparr>"

text \<open>The session after its loop has handled the refusal.\<close>

definition answered :: "bytes \<Rightarrow> any_session" where
  "answered msg = opened\<lparr>an_synack := [], an_chans := [\<lparr>ch_buf = [msg], ch_closed = True\<rparr>]\<rparr>"

lemma loop_turns_refusal:
  assumes "length msg \<le> 65535" "rd c = refusal msg"
  shows "loop_turns 2 LRead opened c = Some (Inr (LRead, answered msg), c\<lparr>rd := []\<rparr>)"
proof -
  let ?f = "\<lparr>af_command = any_cmdServerSettings, af_streamID = 0, af_data = serverSettings\<rparr> :: any_frame"
  let ?g = "\<lparr>af_command = any_cmdSYNACK, af_streamID = 1, af_data = msg\<rparr> :: any_frame"
  have "show_nat protocolVersion = ''2''" by code_simp
  then have "length serverSettings \<le> 65535"
    by (simp add: serverSettings_def encodeSettings_def setting_line_def Let_def str_bytes_def)
  then have ok: "any_frame_ok ?f" "any_frame_ok ?g" using assms(1) by (simp_all add: any_frame_ok_def maxFrameData_def)
  have r1: "readFrame c = (Inr ?f, c\<lparr>rd := any_frame_bytes ?g\<rparr>)"
    by (rule readFrame_bytes [OF ok(1)]) (simp add: assms(2) refusal_def)
  have r2: "readFrame (c\<lparr>rd := any_frame_bytes ?g\<rparr>) = (Inr ?g, c\<lparr>rd := []\<rparr>)"
    using readFrame_bytes [OF ok(2), of "c\<lparr>rd := any_frame_bytes ?g\<rparr>" "[]"] by simp
  have f: "loop_frame ?f opened d = (LRead, opened, d)" for d
    by (simp add: loop_frame_def handleFrame_def any_cmd_defs)
  have g: "loop_frame ?g opened d = (LAck 0 msg, opened\<lparr>an_synack := []\<rparr>, d)" for d
    by (simp add: loop_frame_def handleFrame_def any_cmd_defs opened_stream)
  have "handle_complete (LAck 0 msg) (opened\<lparr>an_synack := []\<rparr>) = Some (Inr (LRead, answered msg))"
    by (simp add: handle_complete_def then_rest_def chan_send_def chan_close_def opened_stream make_chan_def answered_def)
  moreover have "handle_complete LRead opened = Some (Inr (LRead, opened))"
    by (simp add: handle_complete_def then_rest_def)
  ultimately show ?thesis using r1 r2 f g by (simp add: numeral_2_eq_2)
qed

lemma dial_close_answered:
  assumes "wleft c = None"
  shows "\<exists>c'. dial_close e 0 (answered msg\<lparr>an_chans := [\<lparr>ch_buf = [], ch_closed = True\<rparr>]\<rparr>) c = Some (Inl e, c')"
  by (simp add: dial_close_def any_stream_Close_def close_mark_def answered_def opened_stream any_newStream_def
      on_stream_def removeStream_def any_Close_def close_begin_def close_conn_def close_maps_def make_chan_def
      closeRead_def chan_close_def Let_def)

text \<open>A refused stream can be reported as open: when the loop has handled the server's refusal before \<open>waitSYNACK\<close> looks for the
  channel, the channel is gone from the map, which \<open>waitSYNACK\<close> takes for success, and \<open>Dial\<close> returns a connection.
  The same answer handled a little later makes \<open>Dial\<close> fail with the server's message.\<close>

lemma anytls_refusal_missed:
  assumes "\<And>b. length (md5 b) = 16" "parsePaddingScheme sch = Inr (at_padding a)" "at_withTLS a \<longrightarrow> tls"
    and "ParseAddr_socks addr = Some raw" "wleft c = None" "rd c = refusal msg" "msg \<noteq> []" "length msg \<le> 65535"
  shows "(\<exists>k s c'. any_Dial sha md5 tls 2 0 sel (Some c) a ''tcp'' addr = Some (Inr (k, s), Some c')) \<and>
    (\<exists>c'. any_Dial sha md5 tls 0 2 SelChan (Some c) a ''tcp'' addr =
      Some (Inl (ErrMsg (''stream open failed: '' @ bytes_str msg)), Some c'))"
proof -
  obtain c1 where c1: "newClientSession sha md5 tls (Some c) a = (Inr any_newSession, Some c1)" "wleft c1 = None" "rd c1 = rd c"
    using newClientSession_open [OF assms(1,2,5,3), of sha] assms(5) by simp
  obtain c2 where c2: "openStream any_newSession c1 = (Inr (Inr (0, 1), opened), c2)" "wleft c2 = None" "rd c2 = rd c"
    using openStream_new [OF c1(2)] c1(2,3) by simp
  have st: "\<not> sm_closed (an_objs opened ! 0)" "\<not> conn_shut opened"
    by (simp_all add: opened_stream any_newStream_def conn_shut_def)
  obtain c3 where c3: "write_all [raw] (an_objs opened ! 0) opened c2 = (None, c3)" "wleft c3 = None" "rd c3 = rd c"
    using write_all_open [OF c2(2) st(2,1), of "[raw]"] c2(3) by auto
  note t = loop_turns_refusal [OF assms(8), of c3]
  have dial: "any_Dial sha md5 tls early late sel (Some c) a ''tcp'' addr =
      map_option (map_prod id Some) (case waitSYNACK (at_synackTimeout a > 0) early late sel 1 opened c3 of
          None \<Rightarrow> None
        | Some (Inl p, c4) \<Rightarrow> Some (Inl p, c4)
        | Some (Inr (Some e, s2), c4) \<Rightarrow> dial_close e 0 s2 c4
        | Some (Inr (None, s2), c4) \<Rightarrow> Some (Inr (0, s2), c4))" for early late sel
    using c1(1) c2(1) c3(1) assms(4) by (simp add: any_Dial_def dial_stream_def)
  have "waitSYNACK (at_synackTimeout a > 0) 2 0 sel 1 opened c3 = Some (Inr (None, answered msg), c3\<lparr>rd := []\<rparr>)"
    using t c3(3) assms(6) by (simp add: waitSYNACK_def wait_lookup_def answered_def)
  moreover have "waitSYNACK (at_synackTimeout a > 0) 0 2 SelChan 1 opened c3 =
      Some (Inr (Some (ErrMsg (''stream open failed: '' @ bytes_str msg)),
        answered msg\<lparr>an_chans := [\<lparr>ch_buf = [], ch_closed = True\<rparr>]\<rparr>), c3\<lparr>rd := []\<rparr>)"
    using t c3(3) assms(6,7)
    by (simp add: waitSYNACK_def wait_lookup_def wait_select_def chan_recv_def answered_def opened_stream)
  moreover obtain c4 where "dial_close (ErrMsg (''stream open failed: '' @ bytes_str msg)) 0
      (answered msg\<lparr>an_chans := [\<lparr>ch_buf = [], ch_closed = True\<rparr>]\<rparr>) (c3\<lparr>rd := []\<rparr>) =
      Some (Inl (ErrMsg (''stream open failed: '' @ bytes_str msg)), c4)"
    using dial_close_answered [of "c3\<lparr>rd := []\<rparr>"] c3(2) by auto
  ultimately show ?thesis unfolding dial by simp
qed

lemma anytls_refusal_missed_witness:
  "\<exists>k s c'. any_Dial demo_sha demo_md5 True 2 0 SelChan (Some (open_conn (refusal (str_bytes ''refused'')))) demo_anytls
     ''tcp'' ''1.2.3.4:80'' = Some (Inr (k, s), Some c')"
proof -
  have "length (demo_md5 b) = 16" for b by (simp add: demo_md5_def)
  from anytls_refusal_missed [OF this demo_padding _ example_addr(1),
      where tls = True and c = "open_conn (refusal (str_bytes ''refused''))" and msg = "str_bytes ''refused''"
        and sha = demo_sha and sel = SelChan]
  show ?thesis by (simp add: demo_anytls_def str_bytes_def)
qed

section \<open>Fallback and datagrams\<close>

text \<open>A connection without the password gets no session; the fallback receives its bytes unchanged.\<close>

lemma anytls_fallback_transparent:
  assumes "take 32 (rd c) \<noteq> passwordHash sha256 (at_password a)"
  shows "\<exists>evs c'. any_Serve sha256 a True dials True c = Inl (evs, c') \<and>
    (at_fallback a = [] \<longrightarrow> evs = [AnyClose]) \<and>
    (at_fallback a \<noteq> [] \<and> dials ''tcp'' (at_fallback a) \<longrightarrow>
      (\<exists>headBuf. evs = [AnyDial ''tcp'' (at_fallback a), AnyWrite headBuf, AnyRelay, AnyClose] \<and> headBuf @ rd c' = rd c))"
proof -
  obtain e c1 where h: "readAuth sha256 (at_password a) c = (Inl e, c1)"
    using readAuth_accepts [of sha256 "at_password a" c] assms by (metis old.prod.exhaust sumE)
  obtain u where "rd c = u @ rd c1" using consumesD [OF consumes_readAuth h] by blast
  with h show ?thesis by (auto simp: any_Serve_def any_serveFallback_def)
qed

text \<open>Datagrams on a stream keep their boundaries.\<close>

interpretation uot: prefix_codec "\<lambda>b. length b < 65536 \<and> length b \<le> blen \<and> 2 \<le> blen" uot_bytes "uot_ReadFrom blen" for blen
proof unfold_locales
  fix m and c :: conn and rest assume m: "length m < 65536 \<and> length m \<le> blen \<and> 2 \<le> blen" and c: "rd c = uot_bytes m @ rest"
  let ?w = "of_nat (length m) :: u16"
  have w: "unat ?w = length m" using m by (simp add: unat_of_nat)
  have h: "read_full 2 c = (Inr (put16 ?w), c\<lparr>rd := m @ rest\<rparr>)"
    using c by (intro read_full_ok) (simp_all add: uot_bytes_def put16_def)
  have "be16 (put16 ?w ! 0) (put16 ?w ! 1) = ?w" by (simp add: put16_def)
  then show "uot_ReadFrom blen c = (Inr m, c\<lparr>rd := rest\<rparr>)"
    using m w read_full_ok [of "c\<lparr>rd := m @ rest\<rparr>" m rest]
    by (simp add: uot_ReadFrom_def io_bind_Inr [where m = "read_full 2", OF h] Let_def)
qed

text \<open>The request of a datagram client reaches the datagram handler with its target.\<close>

lemma uot_client_served:
  assumes "ParseAddr_socks addr = Some target" "rd st = uot_request target @ rest"
  shows "readUOTV2Request st = (Inr target, st\<lparr>rd := rest\<rparr>)"
proof -
  have h: "read_full (Suc 0) st = (Inr [1], st\<lparr>rd := target @ rest\<rparr>)"
    using assms(2) by (intro read_full_ok) (simp_all add: uot_request_def)
  show ?thesis
    using saddr.dec_enc [OF ParseAddr_socks_wf [OF assms(1)], of "st\<lparr>rd := target @ rest\<rparr>" rest]
    by (simp add: readUOTV2Request_def io_bind_Inr [where m = "read_full (Suc 0)", OF h])
qed

end
