(* ===== verification/Obfs.thy ===== *)
theory Obfs
  imports Vless Base64
begin

text \<open>
  Simple-obfs (\<open>proxy/obfs\<close>): a connection disguised as an HTTP upgrade or as a TLS session.  Shown: what a client of the
  second kind writes is a well-formed TLS client hello, by a parser written after RFC 5246, that carries the first
  payload, and records that carry the rest; what either kind reads is the stream the server sent; that a header line of a
  certain length ends the HTTP header too early.  Random bytes and the clock are arguments.
\<close>

section \<open>Model\<close>

subsection \<open>HTTP\<close>

record http_obfs =
  oh_host :: string
  oh_uri :: string
  oh_ua :: string

definition NewHTTPObfs :: "string \<Rightarrow> string \<Rightarrow> string \<Rightarrow> http_obfs" where
  "NewHTTPObfs host uri ua = \<lparr>oh_host = host, oh_uri = uri, oh_ua = ua\<rparr>"

text \<open>\<open>writeHeader\<close> with the 16 random bytes \<open>b\<close>.\<close>

definition obfs_header :: "http_obfs \<Rightarrow> bytes \<Rightarrow> string" where
  "obfs_header p b =
     ''GET '' @ oh_uri p @ '' HTTP/1.1'' @ crlf @ ''Host: '' @ oh_host p @ crlf @ ''User-Agent: '' @ oh_ua p @ crlf @
     ''Upgrade: websocket'' @ crlf @ ''Connection: Upgrade'' @ crlf @ ''Sec-WebSocket-Key: '' @ b64 b @ crlf @ crlf"

definition http_NewConn :: "http_obfs \<Rightarrow> bytes \<Rightarrow> conn \<Rightarrow> go_error option \<times> conn" where
  "http_NewConn p b c = conn_write (str_bytes (obfs_header p b)) c"

text \<open>\<open>ReadLine\<close> of a \<open>bufio.Reader\<close> with its buffer of 4096 bytes: a longer line comes in parts, of which a trailing
  carriage return is put back.\<close>

definition obfs_bufSize :: nat where "obfs_bufSize = 4096"

definition buf_ReadLine :: "bytes io" where
  "buf_ReadLine c =
     (let l = takeWhile (\<lambda>b. b \<noteq> 10) (rd c) in
      if length l \<ge> obfs_bufSize then
        let part = take obfs_bufSize (rd c); line = strip_cr part in
        (Inr line, c\<lparr>rd := drop (length line) (rd c)\<rparr>)
      else if rd c = [] then (Inl EOF, c)
      else if length l < length (rd c) then (Inr (strip_cr l), c\<lparr>rd := drop (length l + 1) (rd c)\<rparr>)
      else (Inr l, c\<lparr>rd := []\<rparr>))"

function skip_header :: "conn \<Rightarrow> go_error option \<times> conn" where
  "skip_header c =
     (case buf_ReadLine c of
        (Inl e, c') \<Rightarrow> (Some e, c')
      | (Inr l, c') \<Rightarrow> if l = [] then (None, c') else skip_header c')"
  by pat_completeness auto
termination
proof (relation "measure (\<lambda>c. length (rd c))")
  fix c c' :: conn and r :: "bytes result" and l :: bytes
  assume "(r, c') = buf_ReadLine c" "r = Inr l" "l \<noteq> []"
  moreover then have "rd c \<noteq> []" by (auto simp: buf_ReadLine_def Let_def strip_cr_def obfs_bufSize_def split: if_splits)
  ultimately show "(c', c) \<in> measure (\<lambda>c. length (rd c))"
    by (auto simp: buf_ReadLine_def Let_def split: if_splits)
qed simp

declare skip_header.simps [simp del]

text \<open>\<open>HTTPObfsConn.Read\<close>, with whether the reader exists already.\<close>

definition http_obfs_Read :: "nat \<Rightarrow> bool \<Rightarrow> conn \<Rightarrow> (bytes \<times> go_error option) \<times> bool \<times> conn" where
  "http_obfs_Read n started c =
     (if started then (case raw_Read n c of (x, c') \<Rightarrow> (x, True, c'))
      else
        case skip_header c of
          (Some e, c1) \<Rightarrow> (([], Some e), True, c1)
        | (None, c1) \<Rightarrow> (case raw_Read n c1 of (x, c') \<Rightarrow> (x, True, c')))"

subsection \<open>TLS\<close>

definition obfs_chunkSize :: nat where "obfs_chunkSize = 8192"

record tls_obfs_conn =
  ot_host :: string
  ot_reqSent :: bool
  ot_started :: bool
  ot_leftBytes :: nat

definition tls_NewConn :: "string \<Rightarrow> tls_obfs_conn" where
  "tls_NewConn host = \<lparr>ot_host = host, ot_reqSent = False, ot_started = False, ot_leftBytes = 0\<rparr>"

text \<open>\<open>clientHello\<close> with the time and the random bytes; \<open>extension\<close> with the payload as session ticket.\<close>

definition clientHello :: "u32 \<Rightarrow> bytes \<Rightarrow> bytes \<Rightarrow> bytes" where
  "clientHello now random sessionID =
     [3, 3] @ put32 now @ random @ [32] @ sessionID @ put16 56 @
     [0xc0, 0x2c, 0xc0, 0x30, 0x00, 0x9f, 0xcc, 0xa9, 0xcc, 0xa8, 0xcc, 0xaa, 0xc0, 0x2b, 0xc0, 0x2f,
      0x00, 0x9e, 0xc0, 0x24, 0xc0, 0x28, 0x00, 0x6b, 0xc0, 0x23, 0xc0, 0x27, 0x00, 0x67, 0xc0, 0x0a,
      0xc0, 0x14, 0x00, 0x39, 0xc0, 0x09, 0xc0, 0x13, 0x00, 0x33, 0x00, 0x9d, 0x00, 0x9c, 0x00, 0x3d,
      0x00, 0x3c, 0x00, 0x35, 0x00, 0x2f, 0x00, 0xff] @ [1] @ [0]"

definition extension :: "bytes \<Rightarrow> string \<Rightarrow> bytes" where
  "extension b server =
     [0x00, 0x23] @ put16 (of_nat (length b)) @ b @
     [0x00, 0x00] @ put16 (of_nat (length server + 5)) @ put16 (of_nat (length server + 3)) @ [0] @
       put16 (of_nat (length server)) @ str_bytes server @
     [0x00, 0x0b] @ put16 4 @ [3] @ [0x01, 0x00, 0x02] @
     [0x00, 0x0a] @ put16 10 @ put16 8 @ [0x00, 0x1d, 0x00, 0x17, 0x00, 0x19, 0x00, 0x18] @
     [0x00, 0x0d] @ put16 32 @ put16 30 @
       [0x06, 0x01, 0x06, 0x02, 0x06, 0x03, 0x05, 0x01, 0x05, 0x02, 0x05, 0x03, 0x04, 0x01, 0x04, 0x02,
        0x04, 0x03, 0x03, 0x01, 0x03, 0x02, 0x03, 0x03, 0x02, 0x01, 0x02, 0x02, 0x02, 0x03] @
     [0x00, 0x16] @ put16 0 @
     [0x00, 0x17] @ put16 0"

text \<open>What \<open>handshake\<close> writes.\<close>

definition handshake_bytes :: "string \<Rightarrow> u32 \<Rightarrow> bytes \<Rightarrow> bytes \<Rightarrow> bytes \<Rightarrow> bytes" where
  "handshake_bytes host now random sessionID b =
     (let bufExt = extension b host; bufHello = clientHello now random sessionID;
          extLen = length bufExt; helloLen = length bufHello + 2 + extLen; handshakeLen = 4 + helloLen
      in [0x16] @ [0x03, 0x01] @ put16 (of_nat handshakeLen) @
         [0x01] @ [of_nat (helloLen div 2 ^ 16), of_nat (helloLen div 2 ^ 8), of_nat helloLen] @ bufHello @
         put16 (of_nat extLen) @ bufExt)"

definition obfs_record :: "bytes \<Rightarrow> bytes" where
  "obfs_record b = [0x17, 0x03, 0x03] @ put16 (of_nat (length b)) @ b"

function write_records :: "bytes \<Rightarrow> conn \<Rightarrow> go_error option \<times> conn" where
  "write_records b c =
     (if b = [] then (None, c)
      else
        case conn_write (obfs_record (take obfs_chunkSize b)) c of
          (Some e, c') \<Rightarrow> (Some e, c')
        | (None, c') \<Rightarrow> write_records (drop obfs_chunkSize b) c')"
  by pat_completeness auto
termination by (relation "measure (\<lambda>(b, c). length b)") (auto simp: obfs_chunkSize_def)

declare write_records.simps [simp del]

definition tls_obfs_Write ::
  "u32 \<Rightarrow> bytes \<Rightarrow> bytes \<Rightarrow> bytes \<Rightarrow> tls_obfs_conn \<Rightarrow> conn \<Rightarrow> (nat \<times> go_error option) \<times> tls_obfs_conn \<times> conn" where
  "tls_obfs_Write now random sessionID b r c =
     (case (if \<not> ot_reqSent r then conn_write (handshake_bytes (ot_host r) now random sessionID b) c
            else write_records b c) of
        (Some e, c') \<Rightarrow> ((0, Some e), r\<lparr>ot_reqSent := True\<rparr>, c')
      | (None, c') \<Rightarrow> ((length b, None), r\<lparr>ot_reqSent := True\<rparr>, c'))"

text \<open>\<open>TLSObfsConn.Read\<close>: the server hello is skipped, then every record gives its length.\<close>

definition tls_obfs_Read :: "nat \<Rightarrow> tls_obfs_conn \<Rightarrow> conn \<Rightarrow> (bytes \<times> go_error option) \<times> tls_obfs_conn \<times> conn" where
  "tls_obfs_Read n r c =
     (let c0 = (if ot_started r then c else discardN 102 c); r0 = r\<lparr>ot_started := True\<rparr> in
      case (if ot_leftBytes r0 = 0 then
              (case read_full 2 (discardN 3 c0) of
                 (Inl e, c1) \<Rightarrow> (Inl e, c1)
               | (Inr h, c1) \<Rightarrow> (Inr (unat (be16 (h ! 0) (h ! 1))), c1))
            else (Inr (ot_leftBytes r0), c0)) of
        (Inl e, c1) \<Rightarrow> (([], Some e), r0, c1)
      | (Inr left, c1) \<Rightarrow>
          let readLen = min n left in
          if readLen = 0 then (([], None), r0\<lparr>ot_leftBytes := left\<rparr>, c1)
          else
            case raw_Read readLen c1 of
              ((_, Some e), c2) \<Rightarrow> (([], Some e), r0\<lparr>ot_leftBytes := left\<rparr>, c2)
            | ((m, None), c2) \<Rightarrow> ((m, None), r0\<lparr>ot_leftBytes := left - length m\<rparr>, c2))"

subsection \<open>Dialing\<close>

record obfs =
  ob_addr :: string
  ob_type :: string
  ob_host :: string
  ob_uri :: string
  ob_ua :: string

definition NewObfs :: "url option \<Rightarrow> obfs result" where
  "NewObfs pu =
     (case pu of
        None \<Rightarrow> Inl (ErrMsg ''parse url err'')
      | Some u \<Rightarrow>
          let q = u_Query u;
              ty = (if q ''type'' = [] then ''http'' else q ''type'');
              uri = (if q ''uri'' = [] then ''/'' else q ''uri'');
              ua = (if q ''ua'' = [] then ''Mozilla/5.0 (Windows NT 10.0; Win64; x64) AppleWebKit/537.36 (KHTML, like Gecko) Chrome/71.0.3578.80 Safari/537.36''
                    else q ''ua'')
          in if q ''host'' = [] then Inl (ErrMsg ''[obfs] host cannot be null'')
             else if ty = ''http'' \<or> ty = ''tls'' then
               Inr \<lparr>ob_addr = u_Host u, ob_type = ty, ob_host = q ''host'', ob_uri = uri, ob_ua = ua\<rparr>
             else Inl (ErrMsg (''[obfs] unknown obfs type: '' @ ty)))"

text \<open>\<open>Dial\<close> on the connection to the server: a connection of either kind.\<close>

definition obfs_Dial :: "obfs \<Rightarrow> bytes \<Rightarrow> conn option \<Rightarrow> (tls_obfs_conn option) result \<times> conn option" where
  "obfs_Dial s b rc =
     (case rc of
        None \<Rightarrow> (Inl (ErrMsg ''dial error''), None)
      | Some c \<Rightarrow>
          if ob_type s = ''http'' then
            (case http_NewConn (NewHTTPObfs (ob_host s) (ob_uri s) (ob_ua s)) b c of
               (Some e, c') \<Rightarrow> (Inl e, Some c')
             | (None, c') \<Rightarrow> (Inr None, Some c'))
          else (Inr (Some (tls_NewConn (ob_host s))), Some c))"

section \<open>A server after RFC 5246\<close>

text \<open>Vectors with a length in front, and the client hello with its extensions.\<close>

definition get_vec16 :: "bytes \<Rightarrow> (bytes \<times> bytes) option" where
  "get_vec16 b =
     (case get16 b of
        None \<Rightarrow> None
      | Some w \<Rightarrow>
          let r = drop 2 b in if unat w \<le> length r then Some (take (unat w) r, drop (unat w) r) else None)"

definition get_vec8 :: "bytes \<Rightarrow> (bytes \<times> bytes) option" where
  "get_vec8 b =
     (case b of
        [] \<Rightarrow> None
      | l # r \<Rightarrow> if unat l \<le> length r then Some (take (unat l) r, drop (unat l) r) else None)"

function parse_extensions :: "bytes \<Rightarrow> (u16 \<times> bytes) list option" where
  "parse_extensions b =
     (if b = [] then Some []
      else
        case get16 b of
          None \<Rightarrow> None
        | Some ty \<Rightarrow>
            (case get_vec16 (drop 2 b) of
               None \<Rightarrow> None
             | Some (v, r) \<Rightarrow> map_option (\<lambda>es. (ty, v) # es) (parse_extensions r)))"
  by pat_completeness auto
termination
  by (relation "measure length") (auto simp: get_vec16_def Let_def split: option.splits if_splits)

declare parse_extensions.simps [simp del]

record hello =
  he_random :: bytes
  he_session :: bytes
  he_suites :: bytes
  he_extensions :: "(u16 \<times> bytes) list"

definition parse_hello_body :: "bytes \<Rightarrow> hello option" where
  "parse_hello_body b =
     (if take 2 b \<noteq> [3, 3] \<or> length b < 34 then None
      else
        case get_vec8 (drop 34 b) of
          None \<Rightarrow> None
        | Some (sid, r1) \<Rightarrow>
            (case get_vec16 r1 of
               None \<Rightarrow> None
             | Some (suites, r2) \<Rightarrow>
                 (case get_vec8 r2 of
                    None \<Rightarrow> None
                  | Some (cm, r3) \<Rightarrow>
                      (case get_vec16 r3 of
                         Some (ext, []) \<Rightarrow>
                           if cm \<noteq> [0] then None
                           else
                             map_option (\<lambda>es. \<lparr>he_random = take 32 (drop 2 b), he_session = sid, he_suites = suites,
                               he_extensions = es\<rparr>) (parse_extensions ext)
                       | _ \<Rightarrow> None))))"

text \<open>A handshake record with one client hello: both lengths have to agree with what is there.\<close>

definition parse_client_hello :: "bytes \<Rightarrow> (hello \<times> bytes) option" where
  "parse_client_hello b =
     (if take 3 b \<noteq> [0x16, 3, 1] then None
      else
        case get_vec16 (drop 3 b) of
          None \<Rightarrow> None
        | Some (h, rest) \<Rightarrow>
            (case h of
               t # l1 # l2 # l3 # body \<Rightarrow>
                 if t = 1 \<and> unat l1 * 65536 + unat l2 * 256 + unat l3 = length body
                 then map_option (\<lambda>x. (x, rest)) (parse_hello_body body) else None
             | _ \<Rightarrow> None))"

text \<open>Application data records to the end of the stream.\<close>

function parse_records :: "bytes \<Rightarrow> bytes option" where
  "parse_records b =
     (if b = [] then Some []
      else if take 3 b \<noteq> [0x17, 3, 3] then None
      else
        case get_vec16 (drop 3 b) of
          None \<Rightarrow> None
        | Some (v, r) \<Rightarrow> map_option (\<lambda>x. v @ x) (parse_records r))"
  by pat_completeness auto
termination
  by (relation "measure length") (auto simp: get_vec16_def Let_def split: option.splits if_splits)

declare parse_records.simps [simp del]

text \<open>What the server takes for data: the session ticket (extension 35) and the records behind the hello.\<close>

definition obfs_server :: "bytes \<Rightarrow> (string \<times> bytes) option" where
  "obfs_server b =
     (case parse_client_hello b of
        None \<Rightarrow> None
      | Some (h, rest) \<Rightarrow>
          (case (map_of (he_extensions h) 35, map_of (he_extensions h) 0, parse_records rest) of
             (Some ticket, Some names, Some x) \<Rightarrow> Some (bytes_str (drop 5 names), ticket @ x)
           | _ \<Rightarrow> None))"

section \<open>What the server reads\<close>

lemma get_vec16_put [simp]:
  "length v < 65536 \<Longrightarrow> get_vec16 (put16 (of_nat (length v)) @ v @ r) = Some (v, r)"
  by (simp add: get_vec16_def unat_of_nat Let_def put16_def)

definition ext_bytes :: "u16 \<times> bytes \<Rightarrow> bytes" where
  "ext_bytes e = put16 (fst e) @ put16 (of_nat (length (snd e))) @ snd e"

lemma put16_nonempty [simp]: "put16 w \<noteq> []" "drop 2 (put16 w @ r) = r"
  by (simp_all add: put16_def)

lemma parse_extensions_bytes:
  "list_all (\<lambda>e. length (snd e) < 65536) es \<Longrightarrow> parse_extensions (concat (map ext_bytes es)) = Some es"
proof (induction es)
  case Nil
  then show ?case by (simp add: parse_extensions.simps)
next
  case (Cons e es)
  then show ?case
    by (subst parse_extensions.simps) (simp add: ext_bytes_def [of e])
qed

definition server_names :: "string \<Rightarrow> bytes" where
  "server_names host = put16 (of_nat (length host + 3)) @ [0] @ put16 (of_nat (length host)) @ str_bytes host"

definition hello_extensions :: "bytes \<Rightarrow> string \<Rightarrow> (u16 \<times> bytes) list" where
  "hello_extensions b host =
     [(35, b), (0, server_names host), (11, [3, 1, 0, 2]),
      (10, [0, 8, 0x00, 0x1d, 0x00, 0x17, 0x00, 0x19, 0x00, 0x18]),
      (13, [0, 30, 0x06, 0x01, 0x06, 0x02, 0x06, 0x03, 0x05, 0x01, 0x05, 0x02, 0x05, 0x03, 0x04, 0x01, 0x04, 0x02,
        0x04, 0x03, 0x03, 0x01, 0x03, 0x02, 0x03, 0x03, 0x02, 0x01, 0x02, 0x02, 0x02, 0x03]),
      (22, []), (23, [])]"

lemma length_server_names: "length (server_names host) = length host + 5"
  by (simp add: server_names_def put16_def str_bytes_def)

lemma extension_entries: "extension b host = concat (map ext_bytes (hello_extensions b host))"
proof -
  have n: "put16 (0 :: u16) = [0, 0]" "put16 (4 :: u16) = [0, 4]" "put16 (8 :: u16) = [0, 8]" "put16 (10 :: u16) = [0, 10]"
    "put16 (11 :: u16) = [0, 11]" "put16 (13 :: u16) = [0, 13]" "put16 (22 :: u16) = [0, 22]" "put16 (23 :: u16) = [0, 23]"
    "put16 (30 :: u16) = [0, 30]" "put16 (32 :: u16) = [0, 32]" "put16 (35 :: u16) = [0, 35]"
    by (simp_all add: put16_def)
  have "length host + 5 = length (server_names host)" by (simp add: length_server_names)
  then show ?thesis
    by (simp add: extension_def hello_extensions_def ext_bytes_def server_names_def n add.commute)
qed

lemma length_extension: "length (extension b host) = 79 + length b + length host"
  by (simp add: extension_def put16_def str_bytes_def)

lemma length_clientHello:
  "length random = 28 \<Longrightarrow> length sessionID = 32 \<Longrightarrow> length (clientHello now random sessionID) = 127"
  by (simp add: clientHello_def put16_def put32_def)

lemma three_bytes:
  fixes n :: nat
  assumes "n < 2 ^ 24"
  shows "unat (of_nat (n div 2 ^ 16) :: byte) * 65536 + unat (of_nat (n div 2 ^ 8) :: byte) * 256 + unat (of_nat n :: byte) = n"
proof -
  define q where "q = n div 256"
  have d: "n div 2 ^ 16 = q div 256" by (simp add: q_def div_mult2_eq [symmetric])
  have "q div 256 < 256" using assms by (simp add: d [symmetric] less_mult_imp_div_less)
  then have "unat (of_nat (q div 256) :: byte) = q div 256" "unat (of_nat q :: byte) = q mod 256"
    "unat (of_nat n :: byte) = n mod 256"
    by (simp_all add: unat_of_nat)
  moreover have "n div 2 ^ 8 = q" by (simp add: q_def)
  moreover have "q div 256 * 65536 + q mod 256 * 256 = q * 256"
  proof -
    have "a * 65536 + b * 256 = (a * 256 + b) * 256" for a b :: nat by simp
    from this [of "q div 256" "q mod 256"] show ?thesis unfolding div_mult_mod_eq .
  qed
  moreover have "q * 256 + n mod 256 = n" unfolding q_def by (rule div_mult_mod_eq)
  ultimately show ?thesis unfolding d by simp
qed

lemma parse_hello_body_bytes:
  assumes "length random = 28" "length sessionID = 32" "79 + length b + length host < 65536"
  shows "parse_hello_body (clientHello now random sessionID @ put16 (of_nat (length (extension b host))) @ extension b host) =
    Some \<lparr>he_random = put32 now @ random, he_session = sessionID,
      he_suites = take 56 (drop 69 (clientHello now random sessionID)), he_extensions = hello_extensions b host\<rparr>"
proof -
  let ?ext = "put16 (of_nat (length (extension b host))) @ extension b host"
  obtain suites where h: "clientHello now random sessionID = [3, 3] @ put32 now @ random @ [32] @ sessionID @ put16 56 @ suites @ [1, 0]"
    "length suites = 56" by (simp add: clientHello_def)
  have p: "length (put32 now) = 4" by (simp add: put32_def)
  have "parse_extensions (extension b host) = Some (hello_extensions b host)"
    unfolding extension_entries
    using assms(3) by (intro parse_extensions_bytes) (simp add: hello_extensions_def length_server_names)
  moreover have "get_vec16 (put16 (of_nat (length (extension b host))) @ extension b host @ []) = Some (extension b host, [])"
    using assms(3) by (intro get_vec16_put) (simp add: length_extension)
  moreover have "get_vec16 (put16 56 @ suites @ [1, 0] @ ?ext) = Some (suites, [1, 0] @ ?ext)"
    using get_vec16_put [of suites "[1, 0] @ ?ext"] h(2) by simp
  moreover have "get_vec8 ([32] @ sessionID @ put16 56 @ suites @ [1, 0] @ ?ext) = Some (sessionID, put16 56 @ suites @ [1, 0] @ ?ext)"
    using assms(2) by (simp add: get_vec8_def)
  moreover have "get_vec8 ([1, 0] @ ?ext) = Some ([0], ?ext)" by (simp add: get_vec8_def)
  moreover have "drop 69 (clientHello now random sessionID) = suites @ [1, 0]"
    unfolding h(1) using assms(1,2) p by (simp add: put16_def)
  ultimately show ?thesis
    unfolding h(1) parse_hello_body_def using assms(1,2) p h(2) by simp
qed

lemma parse_client_hello_bytes:
  assumes "length random = 28" "length sessionID = 32" "212 + length b + length host < 65536"
  shows "\<exists>h. parse_client_hello (handshake_bytes host now random sessionID b @ rest) = Some (h, rest) \<and>
    he_random h = put32 now @ random \<and> he_extensions h = hello_extensions b host"
proof -
  let ?hello = "clientHello now random sessionID" and ?ext = "extension b host"
  let ?n = "length ?hello + 2 + length ?ext"
  let ?body = "?hello @ put16 (of_nat (length ?ext)) @ ?ext"
  let ?h = "[1, of_nat (?n div 2 ^ 16), of_nat (?n div 2 ^ 8), of_nat ?n] @ ?body"
  have n: "?n = length ?body" by (simp add: put16_def)
  have len: "?n < 65532" using assms length_clientHello [OF assms(1,2), of now] by (simp add: length_extension)
  have "handshake_bytes host now random sessionID b = [0x16, 3, 1] @ put16 (of_nat (length ?h)) @ ?h"
    unfolding handshake_bytes_def Let_def n [symmetric] by (simp add: n)
  moreover have "get_vec16 (put16 (of_nat (length ?h)) @ ?h @ rest) = Some (?h, rest)"
    using len n by (intro get_vec16_put) simp
  moreover have "unat (of_nat (?n div 2 ^ 16) :: byte) * 65536 + unat (of_nat (?n div 2 ^ 8) :: byte) * 256 + unat (of_nat ?n :: byte) = length ?body"
    using three_bytes [of ?n] len n by simp
  moreover have "79 + length b + length host < 65536" using assms(3) by simp
  note parse_hello_body_bytes [OF assms(1,2) this, of now]
  ultimately show ?thesis by (simp add: parse_client_hello_def)
qed

lemma parse_records_record:
  "length b < 65536 \<Longrightarrow> parse_records (obfs_record b @ r) = map_option (\<lambda>x. b @ x) (parse_records r)"
  by (subst parse_records.simps) (simp add: obfs_record_def)

lemma write_records_sends:
  assumes "wleft c = None"
  shows "\<exists>w. write_records b c = (None, c\<lparr>wr := wr c @ w\<rparr>) \<and> (\<forall>r. parse_records (w @ r) = map_option (\<lambda>x. b @ x) (parse_records r))"
  using assms
proof (induction b c rule: write_records.induct)
  case (1 b c)
  show ?case
  proof (cases "b = []")
    case True
    then show ?thesis by (intro exI [of _ "[]"]) (simp add: write_records.simps option.map_ident)
  next
    case False
    let ?r = "obfs_record (take obfs_chunkSize b)"
    have cw: "conn_write ?r c = (None, c\<lparr>wr := wr c @ ?r\<rparr>)" using 1(2) by simp
    obtain w where w: "write_records (drop obfs_chunkSize b) (c\<lparr>wr := wr c @ ?r\<rparr>) = (None, c\<lparr>wr := wr c @ ?r @ w\<rparr>)"
      "\<forall>r. parse_records (w @ r) = map_option (\<lambda>x. drop obfs_chunkSize b @ x) (parse_records r)"
      using 1(1) [OF False cw [symmetric] refl] 1(2) by auto
    have "parse_records (?r @ w @ r) = map_option (\<lambda>x. b @ x) (parse_records r)" for r
    proof -
      have td: "take obfs_chunkSize b @ drop obfs_chunkSize b @ x = b @ x" for x by (metis append.assoc append_take_drop_id)
      have "parse_records (?r @ w @ r) = map_option (\<lambda>x. take obfs_chunkSize b @ x) (parse_records (w @ r))"
        by (rule parse_records_record) (simp add: obfs_chunkSize_def)
      then show ?thesis unfolding w(2) [rule_format] option.map_comp comp_def td .
    qed
    then show ?thesis
      using False cw w(1) by (subst write_records.simps) (intro exI [of _ "?r @ w"], simp)
  qed
qed

text \<open>A client that writes the payloads of a list in order.\<close>

fun obfs_writes :: "u32 \<Rightarrow> bytes \<Rightarrow> bytes \<Rightarrow> bytes list \<Rightarrow> tls_obfs_conn \<Rightarrow> conn \<Rightarrow> tls_obfs_conn \<times> conn" where
  "obfs_writes now random sessionID [] r c = (r, c)"
| "obfs_writes now random sessionID (b # bs) r c =
     (case tls_obfs_Write now random sessionID b r c of (_, r', c') \<Rightarrow> obfs_writes now random sessionID bs r' c')"

lemma obfs_writes_records:
  assumes "wleft c = None" "ot_reqSent r"
  shows "\<exists>w. obfs_writes now random sessionID bs r c = (r, c\<lparr>wr := wr c @ w\<rparr>) \<and>
    (\<forall>q. parse_records (w @ q) = map_option (\<lambda>x. concat bs @ x) (parse_records q))"
  using assms
proof (induction bs arbitrary: c)
  case Nil
  then show ?case by (intro exI [of _ "[]"]) (simp add: option.map_ident)
next
  case (Cons b bs)
  obtain w where w: "write_records b c = (None, c\<lparr>wr := wr c @ w\<rparr>)"
    "\<forall>q. parse_records (w @ q) = map_option (\<lambda>x. b @ x) (parse_records q)"
    using write_records_sends [OF Cons.prems(1)] by blast
  obtain w' where w': "obfs_writes now random sessionID bs r (c\<lparr>wr := wr c @ w\<rparr>) = (r, c\<lparr>wr := wr c @ w @ w'\<rparr>)"
    "\<forall>q. parse_records (w' @ q) = map_option (\<lambda>x. concat bs @ x) (parse_records q)"
    using Cons.IH [of "c\<lparr>wr := wr c @ w\<rparr>"] Cons.prems by auto
  have "r\<lparr>ot_reqSent := True\<rparr> = r" using Cons.prems(2) by (cases r) simp
  then have "tls_obfs_Write now random sessionID b r c = ((length b, None), r, c\<lparr>wr := wr c @ w\<rparr>)"
    using w(1) Cons.prems(2) by (simp add: tls_obfs_Write_def)
  moreover have "parse_records ((w @ w') @ q) = map_option (\<lambda>x. concat (b # bs) @ x) (parse_records q)" for q
    unfolding append.assoc w(2) [rule_format] w'(2) [rule_format] option.map_comp comp_def by simp
  ultimately show ?case using w'(1) by (intro exI [of _ "w @ w'"]) simp
qed

section \<open>What the client reads\<close>

definition answer_records :: "bytes list \<Rightarrow> bytes list \<Rightarrow> bytes" where
  "answer_records hs ps = concat (map2 (\<lambda>h b. h @ put16 (of_nat (length b)) @ b) hs ps)"

text \<open>The hello of the server, then records, of which the client does not look at the first three bytes.\<close>

definition obfs_rel :: "tls_obfs_conn \<Rightarrow> conn \<Rightarrow> pipe \<Rightarrow> bool" where
  "obfs_rel r c p =
     (\<exists>hs hello. length hs = length (snd p) \<and> list_all (\<lambda>h. length h = 3) hs \<and> list_all (\<lambda>b. length b < 65536) (snd p) \<and>
       ot_leftBytes r = length (fst p) \<and> (if ot_started r then hello = [] else length hello = 102 \<and> fst p = []) \<and>
       rd c = hello @ fst p @ answer_records hs (snd p))"

lemma tls_obfs_Read_left:
  assumes "ot_leftBytes r = length cur" "cur \<noteq> []" "ot_started r" "rd c = cur @ q" "0 < n"
  shows "tls_obfs_Read n r c = ((take n cur, None), r\<lparr>ot_started := True, ot_leftBytes := length cur - length (take n cur)\<rparr>,
    c\<lparr>rd := drop n cur @ q\<rparr>)"
  using assms by (auto simp: tls_obfs_Read_def raw_Read_def Let_def min_def)

lemma tls_obfs_Read_next:
  assumes "ot_leftBytes r = 0" "rd (if ot_started r then c else discardN 102 c) = h @ put16 (of_nat (length b)) @ b @ q"
    "length h = 3" "length b < 65536" "0 < n"
  shows "tls_obfs_Read n r c = ((take n b, None), r\<lparr>ot_started := True, ot_leftBytes := length b - length (take n b)\<rparr>,
    c\<lparr>rd := drop n b @ q\<rparr>)"
proof -
  let ?c = "if ot_started r then c else discardN 102 c" and ?w = "of_nat (length b) :: u16"
  have d: "rd (discardN 3 ?c) = put16 ?w @ b @ q" using assms(2,3) by (simp add: discardN_def)
  have rf: "read_full 2 (discardN 3 ?c) = (Inr (put16 ?w), c\<lparr>rd := b @ q\<rparr>)"
    using read_full_ok [OF d, of 2] by (simp add: put16_def discardN_def)
  have w: "unat (be16 (put16 ?w ! 0) (put16 ?w ! 1)) = length b" using assms(4) by (simp add: put16_def unat_of_nat)
  show ?thesis
  proof (cases "b = []")
    case True
    then show ?thesis using rf w assms(1) by (simp add: tls_obfs_Read_def Let_def)
  next
    case False
    then show ?thesis using rf w assms(1,5) by (auto simp: tls_obfs_Read_def raw_Read_def Let_def min_def)
  qed
qed

interpretation obr: stream_reader obfs_rel tls_obfs_Read
proof
  fix r c and n :: nat
  assume "obfs_rel r c ([], [])" "0 < n"
  then have "ot_leftBytes r = 0" "rd (if ot_started r then c else discardN 102 c) = []"
    by (auto simp: obfs_rel_def answer_records_def discardN_def split: if_splits)
  then show "\<exists>r' c'. tls_obfs_Read n r c = (([], Some EOF), r', c')"
    by (simp add: tls_obfs_Read_def Let_def read_full_def discardN_def)
next
  fix r c p b p' and n :: nat
  assume rel: "obfs_rel r c p" and n: "0 < n" and rd: "pipe_read n p = Some (b, p')"
  obtain hs hello where h: "length hs = length (snd p)" "list_all (\<lambda>h. length h = 3) hs" "list_all (\<lambda>b. length b < 65536) (snd p)"
    "ot_leftBytes r = length (fst p)" "if ot_started r then hello = [] else length hello = 102 \<and> fst p = []"
    "rd c = hello @ fst p @ answer_records hs (snd p)"
    using rel by (auto simp: obfs_rel_def)
  show "\<exists>r' c'. tls_obfs_Read n r c = ((b, None), r', c') \<and> obfs_rel r' c' p'"
  proof (cases "fst p = []")
    case False
    then have p: "b = take n (fst p)" "p' = (drop n (fst p), snd p)" "ot_started r"
      using rd h(5) by (auto simp: pipe_read_def split: prod.splits list.splits if_splits)
    have "rd c = fst p @ answer_records hs (snd p)" using h(5,6) p(3) by simp
    from tls_obfs_Read_left [OF h(4) False p(3) this n] show ?thesis
      using h(1-3) p by (auto simp: obfs_rel_def)
  next
    case True
    then obtain b0 ps where p: "snd p = b0 # ps" "b = take n b0" "p' = (drop n b0, ps)"
      using rd by (auto simp: pipe_read_def split: prod.splits list.splits)
    then obtain h0 hs' where hs: "hs = h0 # hs'" using h(1) by (cases hs) auto
    have c: "rd (if ot_started r then c else discardN 102 c) = h0 @ put16 (of_nat (length b0)) @ b0 @ answer_records hs' ps"
      using h(5,6) True p(1) hs by (auto simp: discardN_def answer_records_def)
    have "ot_leftBytes r = 0" "length h0 = 3" "length b0 < 65536" using h hs p(1) True by auto
    from tls_obfs_Read_next [OF this(1) c this(2,3) n] show ?thesis
      using h(1-3) hs p by (auto simp: obfs_rel_def)
  qed
qed



section \<open>The disguise as HTTP\<close>

text \<open>Lines that fit the buffer end with the empty line of the header, behind which the stream is delivered.\<close>

definition header_lines :: "bytes list \<Rightarrow> bytes" where
  "header_lines ls = concat (map (\<lambda>l. l @ [13, 10]) ls) @ [13, 10]"

definition plain_line :: "bytes \<Rightarrow> bool" where
  "plain_line l = (l \<noteq> [] \<and> 10 \<notin> set l \<and> length l + 1 < obfs_bufSize)"

lemma takeWhile_line: "10 \<notin> set l \<Longrightarrow> takeWhile (\<lambda>b. b \<noteq> (10 :: byte)) (l @ 13 # 10 # q) = l @ [13]"
  by (induction l) auto

lemma buf_ReadLine_line:
  assumes "10 \<notin> set l" "length l + 1 < obfs_bufSize" "rd c = l @ [13, 10] @ q"
  shows "buf_ReadLine c = (Inr l, c\<lparr>rd := q\<rparr>)"
proof -
  have "takeWhile (\<lambda>b. b \<noteq> 10) (rd c) = l @ [13]" using assms(1,3) by (simp add: takeWhile_line)
  then show ?thesis using assms by (simp add: buf_ReadLine_def strip_cr_def)
qed

lemma skip_header_lines:
  "list_all plain_line ls \<Longrightarrow> rd c = header_lines ls @ q \<Longrightarrow> skip_header c = (None, c\<lparr>rd := q\<rparr>)"
proof (induction ls arbitrary: c)
  case Nil
  then have "buf_ReadLine c = (Inr [], c\<lparr>rd := q\<rparr>)"
    by (intro buf_ReadLine_line) (simp_all add: header_lines_def obfs_bufSize_def)
  then show ?case by (simp add: skip_header.simps)
next
  case (Cons l ls)
  let ?c = "c\<lparr>rd := header_lines ls @ q\<rparr>"
  have "buf_ReadLine c = (Inr l, ?c)"
    using Cons.prems by (intro buf_ReadLine_line) (simp_all add: header_lines_def plain_line_def)
  then show ?case using Cons.IH [of ?c] Cons.prems(1) by (simp add: skip_header.simps [of c] plain_line_def)
qed

definition http_rel :: "bool \<Rightarrow> conn \<Rightarrow> pipe \<Rightarrow> bool" where
  "http_rel started c p =
     (snd p = [] \<and> (if started then rd c = fst p else \<exists>ls. list_all plain_line ls \<and> rd c = header_lines ls @ fst p))"

lemma http_obfs_Read_reduces:
  assumes "http_rel started c p"
  shows "\<exists>c1. rd c1 = fst p \<and> http_obfs_Read n started c = (case raw_Read n c1 of (x, c') \<Rightarrow> (x, True, c'))"
proof (cases started)
  case True
  then show ?thesis using assms by (auto simp: http_rel_def http_obfs_Read_def)
next
  case False
  then obtain ls where "list_all plain_line ls" "rd c = header_lines ls @ fst p" using assms by (auto simp: http_rel_def)
  then show ?thesis
    using False skip_header_lines by (intro exI [of _ "c\<lparr>rd := fst p\<rparr>"]) (simp add: http_obfs_Read_def)
qed

interpretation hob: stream_reader http_rel http_obfs_Read
proof
  fix r c and n :: nat
  assume "http_rel r c ([], [])"
  from http_obfs_Read_reduces [OF this, of n]
  show "\<exists>r' c'. http_obfs_Read n r c = (([], Some EOF), r', c')" by (auto simp: raw_Read_def)
next
  fix r c p b p' and n :: nat
  assume rel: "http_rel r c p" and rd: "pipe_read n p = Some (b, p')"
  then have p: "fst p \<noteq> []" "b = take n (fst p)" "p' = (drop n (fst p), [])"
    by (auto simp: http_rel_def pipe_read_def split: prod.splits list.splits)
  from http_obfs_Read_reduces [OF rel, of n] obtain c1 where
    "rd c1 = fst p" "http_obfs_Read n r c = (case raw_Read n c1 of (x, c') \<Rightarrow> (x, True, c'))" by auto
  with p show "\<exists>r' c'. http_obfs_Read n r c = ((b, None), r', c') \<and> http_rel r' c' p'"
    by (auto simp: raw_Read_def http_rel_def)
qed

text \<open>A header line of exactly 4096 bytes comes in two parts, the second of which is empty and taken for the end of the
  header: the rest of the header is delivered as data.\<close>

lemma http_obfs_long_line:
  assumes "length l = obfs_bufSize" "10 \<notin> set l" "last l \<noteq> 13" "rd c = l @ [13, 10] @ q" "q \<noteq> []" "0 < n"
  shows "\<exists>c'. http_obfs_Read n False c = ((take n q, None), True, c')"
proof -
  let ?c = "c\<lparr>rd := 13 # 10 # q\<rparr>"
  have "takeWhile (\<lambda>b. b \<noteq> 10) (rd c) = l @ [13]" using assms(2,4) by (simp add: takeWhile_line)
  moreover have "strip_cr l = l" "l \<noteq> []" using assms(1,3) by (auto simp: strip_cr_def obfs_bufSize_def)
  ultimately have "buf_ReadLine c = (Inr l, ?c)" using assms(1,4) by (simp add: buf_ReadLine_def)
  moreover have "buf_ReadLine ?c = (Inr [], c\<lparr>rd := q\<rparr>)"
    using buf_ReadLine_line [of "[]" ?c q] by (simp add: obfs_bufSize_def)
  ultimately have "skip_header c = (None, c\<lparr>rd := q\<rparr>)"
    using \<open>l \<noteq> []\<close> by (simp add: skip_header.simps [of c] skip_header.simps [of ?c])
  then show ?thesis using assms(5) by (simp add: http_obfs_Read_def raw_Read_def)
qed

end
