(* ===== verification/Udp_Session.thy ===== *)
theory Udp_Session
  imports Shadow_Socks Socks5
begin

text \<open>
  The sessions of the datagram servers: \<open>proxy/udp\<close>, \<open>proxy/unix\<close>, \<open>proxy/tproxy\<close>, \<open>proxy/socks5\<close> and
  \<open>proxy/ss\<close> have the same structure, a listener that finds or makes the session of a datagram's source and sends
  the datagram to the session's channel, a goroutine of the session that dials and forwards, and one that copies the
  answers back.  The listener and both goroutines of every session interleave in any order; what a server does of its
  own (how a datagram is read, what is dialled, how an answer is sent) is a record of operations, with one value per server.
  Shown: the datagrams of a source are forwarded in order, without loss except at the end of a session and without
  mixing sources; answers go to the source; when the listener is stuck for good, and that a source can bring this about.
\<close>

section \<open>Model\<close>

subsection \<open>Copying answers\<close>

definition UDPBufSize :: nat where "UDPBufSize = 2 * 2 ^ 10"

text \<open>\<open>CopyUDP\<close> over the outcomes of its reads: the deadline of each read, what is written and where.  The deadline
  grows by \<open>step\<close> up to \<open>timeout\<close>.  \<open>None\<close> for the error: the copy still waits for the next outcome.\<close>

definition copy_deadline :: "int \<Rightarrow> int \<Rightarrow> int \<Rightarrow> int" where
  "copy_deadline timeout step t = (let t' = t + step in if t' = 0 \<or> t' > timeout then timeout else t')"

fun CopyUDP ::
  "(bytes \<Rightarrow> string \<Rightarrow> go_error option) \<Rightarrow> string option \<Rightarrow> int \<Rightarrow> int \<Rightarrow> int \<Rightarrow> (bytes \<times> string) result list
    \<Rightarrow> (int \<times> bytes \<times> string) list \<times> go_error option" where
  "CopyUDP send writeTo timeout step t [] = ([], None)"
| "CopyUDP send writeTo timeout step t (r # rs) =
     (let t' = copy_deadline timeout step t in
      case r of
        Inl e \<Rightarrow> ([], Some e)
      | Inr (b, from) \<Rightarrow>
          let addr = (case writeTo of Some a \<Rightarrow> a | None \<Rightarrow> from); b' = take UDPBufSize b in
          (case send b' addr of
             Some e \<Rightarrow> ([], Some e)
           | None \<Rightarrow>
               (case CopyUDP send writeTo timeout step t' rs of (out, e) \<Rightarrow> ((t', b', addr) # out, e))))"

subsection \<open>Servers\<close>

text \<open>\<open>uh_read\<close>: the source of a datagram, the message for the channel, and what a new session keeps of it;
  \<open>uh_target\<close>: what a session dials; \<open>uh_reply\<close>: the datagram with which an answer goes back, and where it is sent, with
  random bytes as first argument.\<close>

record ('m, 'c) udp_handler =
  uh_read :: "string \<times> string \<times> bytes \<Rightarrow> (string \<times> 'm \<times> 'c) result"
  uh_target :: "string \<Rightarrow> 'c \<Rightarrow> string"
  uh_reply :: "bytes \<Rightarrow> string \<Rightarrow> 'c \<Rightarrow> bytes \<Rightarrow> string \<Rightarrow> (bytes \<times> string option) result"

text \<open>A datagram is its source, the destination the socket reports (for \<open>tproxy\<close>) and its bytes.\<close>

definition udp_server :: "(bytes, unit) udp_handler" where
  "udp_server =
     \<lparr>uh_read = (\<lambda>(src, _, b). Inr (src, take UDPBufSize b, ())),
      uh_target = (\<lambda>src _. src),
      uh_reply = (\<lambda>_ src _ b _. Inr (take UDPBufSize b, Some src))\<rparr>"

definition unix_server :: "(bytes, unit) udp_handler" where
  "unix_server =
     \<lparr>uh_read = (\<lambda>(src, _, b). Inr (src, take UDPBufSize b, ())),
      uh_target = (\<lambda>_ _. []),
      uh_reply = (\<lambda>_ src _ b _. Inr (take UDPBufSize b, Some src))\<rparr>"

text \<open>\<open>resolve\<close> is \<open>net.ResolveUDPAddr\<close>, \<open>listen\<close> whether the socket with the answer's address could be opened.\<close>

definition tproxy_server :: "(string \<Rightarrow> string option) \<Rightarrow> (string \<Rightarrow> bool) \<Rightarrow> (string \<times> bytes, string) udp_handler" where
  "tproxy_server resolve listen =
     \<lparr>uh_read = (\<lambda>(src, dst, b). Inr (src, (dst, take UDPBufSize b), dst)),
      uh_target = (\<lambda>_ dst. dst),
      uh_reply = (\<lambda>_ src _ b addr.
        case resolve addr of
          None \<Rightarrow> Inl (ErrMsg ''error in ResolveUDPAddr'')
        | Some tgt \<Rightarrow> if listen tgt then Inr (take UDPBufSize b, Some src) else Inl (ErrMsg ''ListenPacket error''))\<rparr>"

definition socks5_server :: "(string \<Rightarrow> string option) \<Rightarrow> (string \<times> bytes, pktconn) udp_handler" where
  "socks5_server resolve =
     \<lparr>uh_read = (\<lambda>(src, _, b).
        case readFrom resolve UDPBufSize b src \<lparr>pc_writeTo = None, pc_target = None\<rparr> of
          (Inl e, _) \<Rightarrow> Inl e
        | (Inr (m, dst), pc) \<Rightarrow> Inr (src, (dst, m), pc)),
      uh_target = (\<lambda>_ pc. case pc_target pc of
          None \<Rightarrow> []
        | Some t \<Rightarrow> (case socks_String t of Inl _ \<Rightarrow> [] | Inr s \<Rightarrow> s)),
      uh_reply = (\<lambda>_ _ pc b addr. WriteTo (take UDPBufSize b) (Some addr) pc)\<rparr>"

definition ss_server ::
  "(bytes \<Rightarrow> aead option) \<Rightarrow> nat \<Rightarrow> (string \<Rightarrow> string option) \<Rightarrow> (string \<times> bytes, ss_pkt \<times> string) udp_handler" where
  "ss_server derive saltSize resolve =
     \<lparr>uh_read = (\<lambda>(src, _, b).
        case ss_readFrom derive saltSize resolve UDPBufSize src b (NewPktConn None None) of
          (Inl e, _) \<Rightarrow> Inl e
        | (Inr (m, dst), pc) \<Rightarrow> Inr (src, (dst, m), pc, dst)),
      uh_target = (\<lambda>_ c. snd c),
      uh_reply = (\<lambda>salt _ c b addr.
        case ss_WriteTo derive salt (take UDPBufSize b) (Some addr) (fst c) of
          Inl e \<Rightarrow> Inl e
        | Inr (_, d) \<Rightarrow> Inr (d, sp_writeTo (fst c)))\<rparr>"

subsection \<open>Sessions\<close>

text \<open>Where the goroutine of the session is, and where the one that copies answers is.\<close>

datatype serve_phase = Dialing | Forwarding | Returned
datatype copy_phase = NotStarted | Copying | Deleted | FinClosed

record ('m, 'c) udp_session =
  us_key :: string
  us_ctx :: 'c
  us_msgCh :: "'m list"
  us_serve :: serve_phase
  us_copy :: copy_phase
  us_dialled :: "string option"
  us_written :: "'m list"
  us_answers :: "(bytes \<times> string option) list"

definition msgCh_cap :: nat where "msgCh_cap = 32"

definition udp_newSession :: "string \<Rightarrow> 'c \<Rightarrow> ('m, 'c) udp_session" where
  "udp_newSession key ctx =
     \<lparr>us_key = key, us_ctx = ctx, us_msgCh = [], us_serve = Dialing, us_copy = NotStarted, us_dialled = None,
      us_written = [], us_answers = []\<rparr>"

text \<open>The map of sessions, all sessions ever made, and the send in which the listener waits.\<close>

record ('m, 'c) udp_state =
  uv_nm :: "string \<Rightarrow> nat option"
  uv_sessions :: "('m, 'c) udp_session list"
  uv_sending :: "(nat \<times> 'm) option"

definition udp_init :: "('m, 'c) udp_state" where
  "udp_init = \<lparr>uv_nm = (\<lambda>_. None), uv_sessions = [], uv_sending = None\<rparr>"

definition sess :: "('m, 'c) udp_state \<Rightarrow> nat \<Rightarrow> ('m, 'c) udp_session" where
  "sess s i = uv_sessions s ! i"

definition set_sess :: "nat \<Rightarrow> ('m, 'c) udp_session \<Rightarrow> ('m, 'c) udp_state \<Rightarrow> ('m, 'c) udp_state" where
  "set_sess i ss s = s\<lparr>uv_sessions := (uv_sessions s)[i := ss]\<rparr>"

text \<open>The turn of the listener's loop up to the send, and the send, which needs room in the channel.\<close>

definition serve_datagram :: "string \<Rightarrow> 'm \<Rightarrow> 'c \<Rightarrow> ('m, 'c) udp_state \<Rightarrow> ('m, 'c) udp_state" where
  "serve_datagram src m ctx s =
     (case uv_nm s src of
        Some i \<Rightarrow> s\<lparr>uv_sending := Some (i, m)\<rparr>
      | None \<Rightarrow>
          let i = length (uv_sessions s) in
          s\<lparr>uv_nm := (uv_nm s)(src := Some i), uv_sessions := uv_sessions s @ [udp_newSession src ctx],
            uv_sending := Some (i, m)\<rparr>)"

definition msgCh_send :: "('m, 'c) udp_state \<Rightarrow> ('m, 'c) udp_state option" where
  "msgCh_send s =
     (case uv_sending s of
        None \<Rightarrow> None
      | Some (i, m) \<Rightarrow>
          let ss = sess s i in
          if length (us_msgCh ss) < msgCh_cap
          then Some ((set_sess i (ss\<lparr>us_msgCh := us_msgCh ss @ [m]\<rparr>) s)\<lparr>uv_sending := None\<rparr>)
          else None)"

text \<open>\<open>serveSession\<close>: the dial fails and the session is taken from the map, or the copy is started; a message is taken from
  the channel and written; \<open>finCh\<close> is seen closed.\<close>

definition session_dial :: "('m, 'c) udp_handler \<Rightarrow> bool \<Rightarrow> nat \<Rightarrow> ('m, 'c) udp_state \<Rightarrow> ('m, 'c) udp_state option" where
  "session_dial H ok i s =
     (let ss = sess s i; tgt = Some (uh_target H (us_key ss) (us_ctx ss)) in
      if us_serve ss \<noteq> Dialing then None
      else if ok then Some (set_sess i (ss\<lparr>us_serve := Forwarding, us_copy := Copying, us_dialled := tgt\<rparr>) s)
      else Some ((set_sess i (ss\<lparr>us_serve := Returned, us_dialled := tgt\<rparr>) s)\<lparr>uv_nm := (uv_nm s)(us_key ss := None)\<rparr>))"

definition session_take :: "nat \<Rightarrow> ('m, 'c) udp_state \<Rightarrow> ('m, 'c) udp_state option" where
  "session_take i s =
     (let ss = sess s i in
      if us_serve ss \<noteq> Forwarding then None
      else
        case us_msgCh ss of
          [] \<Rightarrow> None
        | m # ms \<Rightarrow> Some (set_sess i (ss\<lparr>us_msgCh := ms, us_written := us_written ss @ [m]\<rparr>) s))"

definition session_fin :: "nat \<Rightarrow> ('m, 'c) udp_state \<Rightarrow> ('m, 'c) udp_state option" where
  "session_fin i s =
     (let ss = sess s i in
      if us_serve ss = Forwarding \<and> us_copy ss = FinClosed then Some (set_sess i (ss\<lparr>us_serve := Returned\<rparr>) s) else None)"

text \<open>The goroutine of the answers: one turn of \<open>CopyUDP\<close>; its end, when the session is taken from the map; \<open>close(finCh)\<close>.\<close>

definition session_answer ::
  "('m, 'c) udp_handler \<Rightarrow> nat \<Rightarrow> bytes \<Rightarrow> bytes \<Rightarrow> string \<Rightarrow> ('m, 'c) udp_state \<Rightarrow> ('m, 'c) udp_state option" where
  "session_answer H i rnd b from s =
     (let ss = sess s i in
      if us_copy ss \<noteq> Copying then None
      else
        case uh_reply H rnd (us_key ss) (us_ctx ss) b from of
          Inl _ \<Rightarrow> None
        | Inr d \<Rightarrow> Some (set_sess i (ss\<lparr>us_answers := us_answers ss @ [d]\<rparr>) s))"

definition copy_return :: "nat \<Rightarrow> ('m, 'c) udp_state \<Rightarrow> ('m, 'c) udp_state option" where
  "copy_return i s =
     (let ss = sess s i in
      if us_copy ss = Copying
      then Some ((set_sess i (ss\<lparr>us_copy := Deleted\<rparr>) s)\<lparr>uv_nm := (uv_nm s)(us_key ss := None)\<rparr>) else None)"

definition close_finCh :: "nat \<Rightarrow> ('m, 'c) udp_state \<Rightarrow> ('m, 'c) udp_state option" where
  "close_finCh i s =
     (let ss = sess s i in
      if us_copy ss = Deleted then Some (set_sess i (ss\<lparr>us_copy := FinClosed\<rparr>) s) else None)"

text \<open>One step of any of them; \<open>None\<close>: it cannot happen.  A datagram that cannot be read is dropped.\<close>

datatype udp_event =
    Datagram "string \<times> string \<times> bytes"
  | Send
  | Dialled nat bool
  | Take nat
  | Fin nat
  | Answer nat bytes bytes string
  | CopyReturns nat
  | CloseFin nat

definition at_session :: "nat \<Rightarrow> ('m, 'c) udp_state \<Rightarrow> ('m, 'c) udp_state option \<Rightarrow> ('m, 'c) udp_state option" where
  "at_session i s r = (if i < length (uv_sessions s) then r else None)"

fun udp_step :: "('m, 'c) udp_handler \<Rightarrow> udp_event \<Rightarrow> ('m, 'c) udp_state \<Rightarrow> ('m, 'c) udp_state option" where
  "udp_step H (Datagram p) s =
     (if uv_sending s \<noteq> None then None
      else case uh_read H p of Inl _ \<Rightarrow> Some s | Inr (src, m, ctx) \<Rightarrow> Some (serve_datagram src m ctx s))"
| "udp_step H Send s = msgCh_send s"
| "udp_step H (Dialled i ok) s = at_session i s (session_dial H ok i s)"
| "udp_step H (Take i) s = at_session i s (session_take i s)"
| "udp_step H (Fin i) s = at_session i s (session_fin i s)"
| "udp_step H (Answer i rnd b from) s = at_session i s (session_answer H i rnd b from s)"
| "udp_step H (CopyReturns i) s = at_session i s (copy_return i s)"
| "udp_step H (CloseFin i) s = at_session i s (close_finCh i s)"

fun udp_run :: "('m, 'c) udp_handler \<Rightarrow> udp_event list \<Rightarrow> ('m, 'c) udp_state \<Rightarrow> ('m, 'c) udp_state option" where
  "udp_run H [] s = Some s"
| "udp_run H (e # es) s = (case udp_step H e s of None \<Rightarrow> None | Some s' \<Rightarrow> udp_run H es s')"

section \<open>Order and separation\<close>

text \<open>The datagrams the listener read from a source, and those that are in the sessions of the source: forwarded, queued or
  about to be sent.\<close>

definition read_of :: "('m, 'c) udp_handler \<Rightarrow> string \<Rightarrow> udp_event \<Rightarrow> 'm list" where
  "read_of H k e =
     (case e of
        Datagram p \<Rightarrow> (case uh_read H p of Inl _ \<Rightarrow> [] | Inr (src, m, _) \<Rightarrow> if src = k then [m] else [])
      | _ \<Rightarrow> [])"

definition received :: "('m, 'c) udp_handler \<Rightarrow> string \<Rightarrow> udp_event list \<Rightarrow> 'm list" where
  "received H k es = concat (map (read_of H k) es)"

definition sess_flow :: "string \<Rightarrow> ('m, 'c) udp_session \<Rightarrow> 'm list" where
  "sess_flow k ss = (if us_key ss = k then us_written ss @ us_msgCh ss else [])"

definition pending :: "string \<Rightarrow> ('m, 'c) udp_state \<Rightarrow> 'm list" where
  "pending k s = (case uv_sending s of None \<Rightarrow> [] | Some (i, m) \<Rightarrow> if us_key (sess s i) = k then [m] else [])"

definition flow :: "string \<Rightarrow> ('m, 'c) udp_state \<Rightarrow> 'm list" where
  "flow k s = concat (map (sess_flow k) (uv_sessions s)) @ pending k s"

text \<open>A session in the map, and the one the listener sends to, is the last of its source.\<close>

definition latest :: "('m, 'c) udp_state \<Rightarrow> nat \<Rightarrow> bool" where
  "latest s i = (i < length (uv_sessions s) \<and>
     (\<forall>j. i < j \<longrightarrow> j < length (uv_sessions s) \<longrightarrow> us_key (sess s j) \<noteq> us_key (sess s i)))"

definition udp_inv :: "('m, 'c) udp_state \<Rightarrow> bool" where
  "udp_inv s =
     ((\<forall>k i. uv_nm s k = Some i \<longrightarrow> latest s i \<and> us_key (sess s i) = k) \<and>
      (\<forall>i m. uv_sending s = Some (i, m) \<longrightarrow> latest s i) \<and>
      (\<forall>ss \<in> set (uv_sessions s). length (us_msgCh ss) \<le> msgCh_cap))"

lemma udp_invD:
  assumes "udp_inv s"
  shows "uv_nm s k = Some i \<Longrightarrow> latest s i \<and> us_key (sess s i) = k" "uv_sending s = Some (i, m) \<Longrightarrow> latest s i"
    "j < length (uv_sessions s) \<Longrightarrow> length (us_msgCh (sess s j)) \<le> msgCh_cap"
  using assms by (auto simp: udp_inv_def sess_def)

lemma set_sess_simps [simp]:
  "uv_nm (set_sess i ss s) = uv_nm s" "uv_sending (set_sess i ss s) = uv_sending s"
  "length (uv_sessions (set_sess i ss s)) = length (uv_sessions s)"
  "i < length (uv_sessions s) \<Longrightarrow> sess (set_sess i ss s) j = (if j = i then ss else sess s j)"
  by (simp_all add: set_sess_def sess_def nth_list_update)

lemma sess_fields [simp]: "sess (s\<lparr>uv_nm := m\<rparr>) i = sess s i" "sess (s\<lparr>uv_sending := x\<rparr>) i = sess s i"
  by (simp_all add: sess_def)

lemma latest_fields [simp]: "latest (s\<lparr>uv_nm := m\<rparr>) i = latest s i" "latest (s\<lparr>uv_sending := x\<rparr>) i = latest s i"
  by (simp_all add: latest_def)

lemma latest_set_sess:
  "i < length (uv_sessions s) \<Longrightarrow> us_key ss = us_key (sess s i) \<Longrightarrow> latest (set_sess i ss s) j = latest s j"
  by (auto simp: latest_def)

lemma set_sess_inv:
  assumes "udp_inv s" "i < length (uv_sessions s)" "us_key ss = us_key (sess s i)" "length (us_msgCh ss) \<le> msgCh_cap"
  shows "udp_inv (set_sess i ss s)"
proof -
  have "length (us_msgCh x) \<le> msgCh_cap" if "x \<in> set (uv_sessions (set_sess i ss s))" for x
    using that assms(1,4) by (auto simp: set_sess_def udp_inv_def dest!: subsetD [OF set_update_subset_insert])
  then show ?thesis using assms(1-3) by (auto simp: udp_inv_def latest_set_sess)
qed

lemma drop_key_inv: "udp_inv s \<Longrightarrow> uv_nm s = m \<Longrightarrow> udp_inv (s\<lparr>uv_nm := m(k := None)\<rparr>)"
  by (auto simp: udp_inv_def)

lemma sent_inv: "udp_inv s \<Longrightarrow> udp_inv (s\<lparr>uv_sending := None\<rparr>)"
  by (auto simp: udp_inv_def)

lemma concat_update_same:
  "i < length xs \<Longrightarrow> g y = g (xs ! i) \<Longrightarrow> concat (map g (xs[i := y])) = concat (map g xs)"
  using list_update_id [of "map g xs" i] by (simp add: map_update)

lemma concat_update_extend:
  assumes "i < length xs" "g y = g (xs ! i) @ ms" "\<And>j. i < j \<Longrightarrow> j < length xs \<Longrightarrow> g (xs ! j) = []"
  shows "concat (map g (xs[i := y])) = concat (map g xs) @ ms"
proof -
  have "\<forall>x \<in> set (drop (Suc i) xs). g x = []" using assms(3) by (auto simp: in_set_conv_nth)
  then have d: "concat (map g (drop (Suc i) xs)) = []" by simp
  have "concat (map g xs) = concat (map g (take i xs)) @ g (xs ! i) @ concat (map g (drop (Suc i) xs))"
    by (subst id_take_nth_drop [OF assms(1)]) simp
  then show ?thesis unfolding d upd_conv_take_nth_drop [OF assms(1)] by (simp add: assms(2) d del: concat_eq_Nil_conv)
qed

text \<open>A step other than one of the listener leaves the flow of every source as it is.\<close>

lemma set_sess_flow:
  assumes "i < length (uv_sessions s)" "us_key ss = us_key (sess s i)"
    "us_written ss @ us_msgCh ss = us_written (sess s i) @ us_msgCh (sess s i)"
  shows "flow k (set_sess i ss s) = flow k s"
proof -
  have "sess_flow k ss = sess_flow k (uv_sessions s ! i)" using assms by (simp add: sess_flow_def sess_def)
  then have "concat (map (sess_flow k) (uv_sessions (set_sess i ss s))) = concat (map (sess_flow k) (uv_sessions s))"
    using assms(1) by (simp add: set_sess_def concat_update_same)
  moreover have "pending k (set_sess i ss s) = pending k s"
    using assms(1,2) by (auto simp: pending_def split: option.splits)
  ultimately show ?thesis by (simp add: flow_def)
qed

lemma flow_nm [simp]: "flow k (s\<lparr>uv_nm := m\<rparr>) = flow k s"
  by (simp add: flow_def pending_def split: option.splits)

lemma serve_datagram_step:
  assumes "udp_inv s" "uv_sending s = None"
  shows "udp_inv (serve_datagram src m ctx s) \<and> flow k (serve_datagram src m ctx s) = flow k s @ (if src = k then [m] else [])"
proof (cases "uv_nm s src")
  case (Some i)
  then have "latest s i" "us_key (sess s i) = src" using udp_invD(1) [OF assms(1) Some] by auto
  then show ?thesis using assms Some by (auto simp: serve_datagram_def udp_inv_def flow_def pending_def)
next
  case None
  let ?n = "length (uv_sessions s)" and ?s = "serve_datagram src m ctx s"
  have s: "sess ?s i = (if i = ?n then udp_newSession src ctx else sess s i)" if "i \<le> ?n" for i
    using None that by (auto simp: serve_datagram_def sess_def nth_append Let_def)
  have l: "length (uv_sessions ?s) = Suc ?n" using None by (simp add: serve_datagram_def Let_def)
  have key: "us_key (udp_newSession src ctx) = src" by (simp add: udp_newSession_def)
  have "latest ?s ?n" by (simp add: latest_def l)
  moreover have "latest ?s i \<and> us_key (sess ?s i) = k'" if "uv_nm s k' = Some i" "k' \<noteq> src" for k' i
  proof -
    have "latest s i" "us_key (sess s i) = k'" using udp_invD(1) [OF assms(1) that(1)] by auto
    then show ?thesis using that(2) by (auto simp: latest_def l s key less_Suc_eq)
  qed
  moreover have "\<forall>ss \<in> set (uv_sessions ?s). length (us_msgCh ss) \<le> msgCh_cap"
    using assms(1) None by (auto simp: serve_datagram_def Let_def udp_inv_def udp_newSession_def)
  moreover have "uv_nm ?s = (uv_nm s)(src := Some ?n)" "uv_sending ?s = Some (?n, m)"
    using None by (auto simp: serve_datagram_def Let_def)
  ultimately have "udp_inv ?s" using s [of ?n] key by (auto simp: udp_inv_def)
  moreover have "flow k ?s = flow k s @ (if src = k then [m] else [])"
    using None assms(2) s [of ?n] by (auto simp: serve_datagram_def Let_def flow_def pending_def udp_newSession_def sess_flow_def sess_def)
  ultimately show ?thesis ..
qed

lemma msgCh_send_step:
  assumes "udp_inv s" "msgCh_send s = Some s'"
  shows "udp_inv s' \<and> flow k s' = flow k s"
proof -
  obtain i m where im: "uv_sending s = Some (i, m)" using assms(2) by (auto simp: msgCh_send_def split: option.splits)
  define ss where "ss = (sess s i)\<lparr>us_msgCh := us_msgCh (sess s i) @ [m]\<rparr>"
  have s': "s' = (set_sess i ss s)\<lparr>uv_sending := None\<rparr>" "length (us_msgCh (sess s i)) < msgCh_cap"
    using assms(2) im by (auto simp: msgCh_send_def Let_def ss_def split: if_splits)
  have i: "latest s i" "i < length (uv_sessions s)" using udp_invD(2) [OF assms(1) im] by (auto simp: latest_def)
  have e: "sess_flow k (sess s j) = []" if "us_key (sess s i) = k" "i < j" "j < length (uv_sessions s)" for j
    using that i(1) by (auto simp: sess_flow_def latest_def)
  have "concat (map (sess_flow k) ((uv_sessions s)[i := ss])) = concat (map (sess_flow k) (uv_sessions s)) @ pending k s"
  proof (cases "us_key (sess s i) = k")
    case True
    then show ?thesis
      using i e [OF True] im by (intro concat_update_extend) (auto simp: sess_flow_def sess_def pending_def ss_def)
  next
    case False
    then show ?thesis
      using i im by (simp add: pending_def concat_update_same sess_flow_def ss_def sess_def)
  qed
  then have "flow k s' = flow k s" by (simp add: s' flow_def set_sess_def pending_def)
  moreover have "udp_inv s'" unfolding s'(1) using s'(2) i(2) by (intro sent_inv set_sess_inv assms(1)) (auto simp: ss_def)
  ultimately show ?thesis by simp
qed

lemma udp_step_flow:
  assumes "udp_inv s" "udp_step H e s = Some s'"
  shows "udp_inv s' \<and> flow k s' = flow k s @ read_of H k e"
proof (cases e)
  case (Datagram p)
  then show ?thesis
    using assms serve_datagram_step [OF assms(1)]
    by (cases "uv_sending s = None") (auto simp: read_of_def split: sum.splits if_splits)
next
  case Send
  then show ?thesis using assms msgCh_send_step [OF assms(1)] by (simp add: read_of_def)
next
  case (Take i)
  then show ?thesis
    using assms udp_invD(3) [OF assms(1), of i]
    by (auto simp: read_of_def at_session_def session_take_def Let_def set_sess_flow intro!: set_sess_inv split: if_splits list.splits)
qed (use assms udp_invD(3) [OF assms(1)] in \<open>auto simp: read_of_def at_session_def session_dial_def session_take_def
  session_fin_def session_answer_def copy_return_def close_finCh_def Let_def set_sess_flow
  intro!: set_sess_inv drop_key_inv split: if_splits list.splits sum.splits\<close>)

lemma udp_run_append: "udp_run H (es @ fs) s = (case udp_run H es s of None \<Rightarrow> None | Some s' \<Rightarrow> udp_run H fs s')"
  by (induction es arbitrary: s) (auto split: option.splits)

lemma udp_init_inv [simp]: "udp_inv udp_init" "flow k udp_init = []"
  by (simp_all add: udp_inv_def udp_init_def flow_def pending_def)

lemma udp_run_flow:
  "udp_inv s \<Longrightarrow> udp_run H es s = Some s' \<Longrightarrow> udp_inv s' \<and> flow k s' = flow k s @ received H k es"
proof (induction es arbitrary: s)
  case Nil
  then show ?case by (simp add: received_def)
next
  case (Cons e es)
  then obtain s1 where s1: "udp_step H e s = Some s1" "udp_run H es s1 = Some s'" by (auto split: option.splits)
  from udp_step_flow [OF Cons.prems(1) s1(1)] Cons.IH [OF _ s1(2)] show ?case by (simp add: received_def)
qed

text \<open>Property C20.  Whatever the order in which the listener and the goroutines of the sessions run, the datagrams the listener has read
  from a source are, in order and each once, those its sessions have forwarded, those waiting in their channels and
  the one the listener is about to send; no channel holds more than its capacity, and the map names a session of the
  source, the last one made for it.\<close>

theorem udp_sessions_fifo:
  assumes "udp_run H es udp_init = Some s"
  shows "received H k es = concat (map (\<lambda>ss. us_written ss @ us_msgCh ss) (filter (\<lambda>ss. us_key ss = k) (uv_sessions s))) @ pending k s \<and>
    (\<forall>ss \<in> set (uv_sessions s). length (us_msgCh ss) \<le> msgCh_cap) \<and>
    (\<forall>i. uv_nm s k = Some i \<longrightarrow> latest s i \<and> us_key (sess s i) = k)"
proof -
  have inv: "udp_inv s" "flow k s = received H k es" using udp_run_flow [OF udp_init_inv(1) assms, of k] by auto
  have "concat (map (sess_flow k) xs) = concat (map (\<lambda>ss. us_written ss @ us_msgCh ss) (filter (\<lambda>ss. us_key ss = k) xs))"
    for xs :: "('a, 'b) udp_session list" by (induction xs) (auto simp: sess_flow_def)
  then show ?thesis using inv by (simp add: flow_def udp_inv_def)
qed

theorem udp_sessions_fifo_witness:
  "\<exists>s. udp_run udp_server [Datagram (''a'', [], [7]), Send, Datagram (''b'', [], [1]), Send, Datagram (''a'', [], [8]),
        Dialled 0 True, Take 0] udp_init = Some s \<and> pending ''a'' s = [[8]] \<and>
    [[7], [8]] = concat (map (\<lambda>ss. us_written ss @ us_msgCh ss) (filter (\<lambda>ss. us_key ss = ''a'') (uv_sessions s))) @ pending ''a'' s"
proof -
  let ?es = "[Datagram (''a'', [], [7]), Send, Datagram (''b'', [], [1]), Send, Datagram (''a'', [], [8]), Dialled 0 True, Take 0]"
  obtain s where s: "udp_run udp_server ?es udp_init = Some s" "pending ''a'' s = [[8]]"
    by (simp add: udp_server_def udp_init_def serve_datagram_def msgCh_send_def session_dial_def session_take_def
      at_session_def Let_def sess_def set_sess_def udp_newSession_def msgCh_cap_def UDPBufSize_def pending_def)
  moreover have "received udp_server ''a'' ?es = [[7], [8]]"
    by (simp add: received_def read_of_def udp_server_def UDPBufSize_def)
  ultimately show ?thesis using udp_sessions_fifo [OF s(1), of "''a''"] by auto
qed

section \<open>Answers go to the source\<close>

locale datagram_handler =
  fixes H :: "('m, 'c) udp_handler"
  assumes reply_to_source: "uh_read H p = Inr (src, m, ctx) \<Longrightarrow> uh_reply H rnd src ctx b addr = Inr (d, a) \<Longrightarrow> a = Some src"
begin

definition answers_ok :: "('m, 'c) udp_session \<Rightarrow> bool" where
  "answers_ok ss = ((\<exists>p m. uh_read H p = Inr (us_key ss, m, us_ctx ss)) \<and> (\<forall>(d, a) \<in> set (us_answers ss). a = Some (us_key ss)))"

definition all_ok :: "('m, 'c) udp_state \<Rightarrow> bool" where
  "all_ok s = (\<forall>ss \<in> set (uv_sessions s). answers_ok ss)"

lemma answers_ok_fields [simp]:
  "answers_ok (ss\<lparr>us_msgCh := q\<rparr>) = answers_ok ss" "answers_ok (ss\<lparr>us_serve := x\<rparr>) = answers_ok ss"
  "answers_ok (ss\<lparr>us_copy := y\<rparr>) = answers_ok ss" "answers_ok (ss\<lparr>us_dialled := z\<rparr>) = answers_ok ss"
  "answers_ok (ss\<lparr>us_written := w\<rparr>) = answers_ok ss"
  by (simp_all add: answers_ok_def)

lemma all_ok_fields [simp]: "all_ok (s\<lparr>uv_nm := n\<rparr>) = all_ok s" "all_ok (s\<lparr>uv_sending := x\<rparr>) = all_ok s"
  by (simp_all add: all_ok_def)

lemma all_ok_set_sess: "all_ok s \<Longrightarrow> answers_ok ss' \<Longrightarrow> all_ok (set_sess i ss' s)"
  by (auto simp: all_ok_def set_sess_def dest!: subsetD [OF set_update_subset_insert])

lemma all_okD: "all_ok s \<Longrightarrow> i < length (uv_sessions s) \<Longrightarrow> answers_ok (sess s i)"
  by (simp add: all_ok_def sess_def)

lemma datagram_answers:
  assumes "all_ok s" "uh_read H p = Inr (src, m, ctx)"
  shows "all_ok (serve_datagram src m ctx s)"
proof -
  have "answers_ok (udp_newSession src ctx)"
    using assms(2) by (auto simp: answers_ok_def udp_newSession_def simp del: split_paired_Ex)
  then show ?thesis using assms(1) by (auto simp: all_ok_def serve_datagram_def Let_def split: option.splits)
qed

lemma step_answers:
  assumes "all_ok s" "udp_step H e s = Some s'" "udp_inv s"
  shows "all_ok s'"
proof (cases e)
  case (Datagram p)
  then show ?thesis using assms(1,2) datagram_answers [OF assms(1), of p] by (auto split: if_splits sum.splits)
next
  case Send
  then obtain i m where im: "uv_sending s = Some (i, m)" using assms(2) by (auto simp: msgCh_send_def split: option.splits)
  then have "i < length (uv_sessions s)" using udp_invD(2) [OF assms(3) im] by (simp add: latest_def)
  then show ?thesis
    using assms(1,2) Send im by (auto simp: msgCh_send_def Let_def split: if_splits intro!: all_ok_set_sess all_okD)
next
  case (Answer i rnd b addr)
  then obtain d where i: "i < length (uv_sessions s)" "uh_reply H rnd (us_key (sess s i)) (us_ctx (sess s i)) b addr = Inr d"
    "s' = set_sess i ((sess s i)\<lparr>us_answers := us_answers (sess s i) @ [d]\<rparr>) s"
    using assms(2) by (auto simp: at_session_def session_answer_def Let_def split: if_splits sum.splits)
  have "answers_ok ((sess s i)\<lparr>us_answers := us_answers (sess s i) @ [d]\<rparr>)"
    using all_okD [OF assms(1) i(1)] i(2) reply_to_source by (cases d) (auto simp: answers_ok_def)
  then show ?thesis unfolding i(3) by (rule all_ok_set_sess [OF assms(1)])
qed (use assms(1,2) in \<open>auto simp: at_session_def session_dial_def session_take_def session_fin_def
    copy_return_def close_finCh_def Let_def split: if_splits list.splits intro!: all_ok_set_sess all_okD\<close>)

lemma run_answers: "all_ok s \<Longrightarrow> udp_inv s \<Longrightarrow> udp_run H es s = Some s' \<Longrightarrow> all_ok s'"
proof (induction es arbitrary: s)
  case (Cons e es)
  then obtain s1 where s1: "udp_step H e s = Some s1" "udp_run H es s1 = Some s'" by (auto split: option.splits)
  show ?case
    using Cons.IH [OF step_answers [OF Cons.prems(1) s1(1) Cons.prems(2)] _ s1(2)] udp_step_flow [OF Cons.prems(2) s1(1)] by blast
qed simp

lemma answers_to_source:
  assumes "udp_run H es udp_init = Some s"
  shows "\<forall>ss \<in> set (uv_sessions s). \<forall>(d, a) \<in> set (us_answers ss). a = Some (us_key ss)"
proof -
  have "all_ok s" by (rule run_answers [OF _ udp_init_inv(1) assms]) (simp add: all_ok_def udp_init_def)
  then show ?thesis by (simp add: all_ok_def answers_ok_def)
qed

end

interpretation udt: datagram_handler udp_server
  by unfold_locales (auto simp: udp_server_def)

interpretation uxt: datagram_handler unix_server
  by unfold_locales (auto simp: unix_server_def)

interpretation tpx: datagram_handler "tproxy_server resolve listen"
  by unfold_locales (auto simp: tproxy_server_def split: option.splits if_splits)

interpretation s5u: datagram_handler "socks5_server resolve"
  by unfold_locales
    (auto simp: socks5_server_def readFrom_def WriteTo_def Let_def split: prod.splits sum.splits option.splits if_splits)

interpretation ssu: datagram_handler "ss_server derive saltSize resolve"
  by unfold_locales
    (auto simp: ss_server_def ss_readFrom_def ss_WriteTo_def NewPktConn_def split: prod.splits sum.splits option.splits if_splits)

text \<open>Property C22.  In every server and whatever the order of the steps, an answer that a session sends goes to the source whose datagrams
  made the session, so no client receives what was meant for another.\<close>

theorem udp_answers_to_source:
  shows "(udp_run udp_server es udp_init = Some s \<longrightarrow> (\<forall>ss \<in> set (uv_sessions s). \<forall>(d, a) \<in> set (us_answers ss). a = Some (us_key ss))) \<and>
    (udp_run unix_server es udp_init = Some s \<longrightarrow> (\<forall>ss \<in> set (uv_sessions s). \<forall>(d, a) \<in> set (us_answers ss). a = Some (us_key ss))) \<and>
    (udp_run (tproxy_server resolve listen) es udp_init = Some s1 \<longrightarrow>
      (\<forall>ss \<in> set (uv_sessions s1). \<forall>(d, a) \<in> set (us_answers ss). a = Some (us_key ss))) \<and>
    (udp_run (socks5_server resolve) es udp_init = Some s2 \<longrightarrow>
      (\<forall>ss \<in> set (uv_sessions s2). \<forall>(d, a) \<in> set (us_answers ss). a = Some (us_key ss))) \<and>
    (udp_run (ss_server derive saltSize resolve) es udp_init = Some s3 \<longrightarrow>
      (\<forall>ss \<in> set (uv_sessions s3). \<forall>(d, a) \<in> set (us_answers ss). a = Some (us_key ss)))"
proof (intro conjI impI)
  show "udp_run udp_server es udp_init = Some s \<Longrightarrow> \<forall>ss \<in> set (uv_sessions s). \<forall>(d, a) \<in> set (us_answers ss). a = Some (us_key ss)"
    by (rule udt.answers_to_source)
  show "udp_run unix_server es udp_init = Some s \<Longrightarrow> \<forall>ss \<in> set (uv_sessions s). \<forall>(d, a) \<in> set (us_answers ss). a = Some (us_key ss)"
    by (rule uxt.answers_to_source)
qed (rule tpx.answers_to_source s5u.answers_to_source ssu.answers_to_source, assumption)+

theorem udp_answers_to_source_witness:
  "\<exists>s. udp_run udp_server [Datagram (''a'', [], [7]), Send, Dialled 0 True, Take 0, Answer 0 [] [8] ''r''] udp_init = Some s \<and>
    us_answers (sess s 0) = [([8], Some (us_key (sess s 0)))]"
proof -
  obtain s where s: "udp_run udp_server [Datagram (''a'', [], [7]), Send, Dialled 0 True, Take 0, Answer 0 [] [8] ''r''] udp_init = Some s"
      "uv_sessions s = [sess s 0]" "map fst (us_answers (sess s 0)) = [[8]]"
    by (simp add: udp_server_def udp_init_def serve_datagram_def msgCh_send_def session_dial_def session_take_def session_answer_def
      at_session_def Let_def sess_def set_sess_def udp_newSession_def msgCh_cap_def UDPBufSize_def)
  have "\<forall>ss \<in> set (uv_sessions s). \<forall>(d, a) \<in> set (us_answers ss). a = Some (us_key ss)"
    using udp_answers_to_source [THEN conjunct1] s(1) by blast
  then have "\<forall>(d, a) \<in> set (us_answers (sess s 0)). a = Some (us_key (sess s 0))" using s(2) by (metis list.set_intros(1))
  then show ?thesis using s(1,3) by auto
qed

section \<open>When the listener is stuck\<close>

text \<open>The listener waits at a full channel that nobody reads any more.\<close>

definition wedged :: "('m, 'c) udp_state \<Rightarrow> bool" where
  "wedged s =
     (case uv_sending s of
        None \<Rightarrow> False
      | Some (i, m) \<Rightarrow>
          i < length (uv_sessions s) \<and> us_serve (sess s i) = Returned \<and> length (us_msgCh (sess s i)) = msgCh_cap)"

lemma wedged_step:
  assumes "wedged s" "udp_step H e s = Some s'"
  shows "wedged s'"
proof -
  obtain i m where im: "uv_sending s = Some (i, m)" "i < length (uv_sessions s)" "us_serve (sess s i) = Returned"
    "length (us_msgCh (sess s i)) = msgCh_cap"
    using assms(1) by (auto simp: wedged_def split: option.splits)
  show ?thesis
  proof (cases e)
    case (Datagram p)
    then show ?thesis using assms(2) im(1) by simp
  next
    case Send
    then show ?thesis using assms(2) im by (simp add: msgCh_send_def Let_def)
  qed (use assms(2) im in \<open>auto simp: at_session_def session_dial_def session_take_def session_fin_def session_answer_def
      copy_return_def close_finCh_def Let_def wedged_def split: if_splits list.splits sum.splits\<close>)
qed

lemma wedged_run: "wedged s \<Longrightarrow> udp_run H es s = Some s' \<Longrightarrow> wedged s'"
  by (induction es arbitrary: s) (auto dest: wedged_step split: option.splits)

lemma wedged_sending: "wedged s \<Longrightarrow> uv_sending s \<noteq> None"
  by (auto simp: wedged_def split: option.splits)

lemma take_and_send:
  assumes "uv_sending s = Some (i, m)" "i < length (uv_sessions s)" "us_serve (sess s i) = Forwarding"
    "0 < length (us_msgCh (sess s i))" "length (us_msgCh (sess s i)) \<le> msgCh_cap"
  shows "\<exists>s'. udp_run H [Take i, Send] s = Some s' \<and> uv_sending s' = None"
  using assms by (auto simp: at_session_def session_take_def msgCh_send_def Let_def split: list.splits)

text \<open>Property C23.  A listener that waits to send to a session can be set free, by steps of the session alone, unless the channel is full
  and the session's goroutine has returned; in that case no run whatever sets it free.\<close>

theorem udp_listener_progress:
  assumes "udp_run H es udp_init = Some s" "uv_sending s = Some (i, m)"
  shows "(\<exists>es' s'. udp_run H es' s = Some s' \<and> uv_sending s' = None) \<longleftrightarrow>
    \<not> (us_serve (sess s i) = Returned \<and> length (us_msgCh (sess s i)) = msgCh_cap)"
proof -
  have inv: "udp_inv s" using udp_run_flow [OF udp_init_inv(1) assms(1)] by blast
  then have i: "i < length (uv_sessions s)" using udp_invD(2) [OF inv assms(2)] by (simp add: latest_def)
  have cap: "length (us_msgCh (sess s i)) \<le> msgCh_cap" using udp_invD(3) [OF inv i] .
  show ?thesis
  proof (cases "length (us_msgCh (sess s i)) < msgCh_cap")
    case True
    then obtain s' where "udp_run H [Send] s = Some s'" "uv_sending s' = None"
      using assms(2) by (simp add: msgCh_send_def Let_def)
    then show ?thesis using True by (metis less_irrefl)
  next
    case full: False
    then have n: "0 < length (us_msgCh (sess s i))" "length (us_msgCh (sess s i)) = msgCh_cap"
      using cap by (auto simp: msgCh_cap_def)
    show ?thesis
    proof (cases "us_serve (sess s i)")
      case Dialing
      define s1 where "s1 = set_sess i ((sess s i)\<lparr>us_serve := Forwarding, us_copy := Copying,
        us_dialled := Some (uh_target H (us_key (sess s i)) (us_ctx (sess s i)))\<rparr>) s"
      have "udp_step H (Dialled i True) s = Some s1" using Dialing i by (simp add: at_session_def session_dial_def Let_def s1_def)
      moreover have "\<exists>s'. udp_run H [Take i, Send] s1 = Some s' \<and> uv_sending s' = None"
        using i n cap assms(2) by (intro take_and_send) (auto simp: s1_def)
      ultimately have "\<exists>s'. udp_run H ([Dialled i True, Take i, Send]) s = Some s' \<and> uv_sending s' = None" by simp
      then have "\<exists>es' s'. udp_run H es' s = Some s' \<and> uv_sending s' = None" by blast
      then show ?thesis using Dialing by simp
    next
      case Forwarding
      then have "\<exists>es' s'. udp_run H es' s = Some s' \<and> uv_sending s' = None"
        using take_and_send [OF assms(2) i Forwarding n(1) cap, of H] by blast
      then show ?thesis using Forwarding by simp
    next
      case Returned
      then have "wedged s" using assms(2) i n by (simp add: wedged_def)
      then show ?thesis using Returned n wedged_run wedged_sending by blast
    qed
  qed
qed

theorem udp_listener_progress_witness:
  "\<exists>s. udp_run udp_server [Datagram (''a'', [], [7])] udp_init = Some s \<and>
    (\<exists>es' s'. udp_run udp_server es' s = Some s' \<and> uv_sending s' = None)"
proof -
  obtain s where s: "udp_run udp_server [Datagram (''a'', [], [7])] udp_init = Some s" "uv_sending s = Some (0, [7])"
    "us_serve (sess s 0) = Dialing"
    by (simp add: udp_server_def udp_init_def serve_datagram_def Let_def sess_def udp_newSession_def UDPBufSize_def)
  then show ?thesis using udp_listener_progress [OF s(1,2)] by simp
qed

text \<open>A source sends to a server whose dial is under way: after \<open>n\<close> datagrams its session holds them.\<close>

definition flooded :: "string \<Rightarrow> 'm \<Rightarrow> 'c \<Rightarrow> nat \<Rightarrow> ('m, 'c) udp_state" where
  "flooded src m ctx n =
     \<lparr>uv_nm = (\<lambda>_. None)(src := Some 0), uv_sessions = [(udp_newSession src ctx)\<lparr>us_msgCh := replicate n m\<rparr>], uv_sending = None\<rparr>"

lemma flood_run:
  assumes "uh_read H p = Inr (src, m, ctx)" "0 < n" "n \<le> msgCh_cap"
  shows "udp_run H (concat (replicate n [Datagram p, Send])) udp_init = Some (flooded src m ctx n)"
  using assms(2,3)
proof (induction n)
  case (Suc n)
  have "concat (replicate (Suc n) [Datagram p, Send]) = concat (replicate n [Datagram p, Send]) @ [Datagram p, Send]"
    by (induction n) simp_all
  note app = this
  have one: "udp_run H [Datagram p, Send] (flooded src m ctx n) = Some (flooded src m ctx (Suc n))"
    using assms(1) Suc.prems
    by (simp add: flooded_def serve_datagram_def msgCh_send_def Let_def sess_def set_sess_def udp_newSession_def replicate_append_same)
  have init: "udp_run H [Datagram p, Send] udp_init = Some (flooded src m ctx (Suc 0))"
    using assms(1) by (simp add: udp_init_def flooded_def serve_datagram_def msgCh_send_def Let_def sess_def set_sess_def udp_newSession_def msgCh_cap_def)
  show ?case
  proof (cases "n = 0")
    case True
    then show ?thesis unfolding app using init by simp
  next
    case False
    then show ?thesis unfolding app udp_run_append using Suc one by simp
  qed
qed simp

text \<open>Property C21.  Thirty-three datagrams of one source while the dial for its session is under way, and then the failure of that
  dial, stop the server for good: the listener waits for room in a channel that nobody reads, and whatever happens
  afterwards no datagram of any source is read again.\<close>

theorem udp_flood_wedges:
  assumes "uh_read H p = Inr (src, m, ctx)"
  shows "\<exists>s. udp_run H (concat (replicate 32 [Datagram p, Send]) @ [Datagram p, Dialled 0 False]) udp_init = Some s \<and>
    (\<forall>es s' q. udp_run H es s = Some s' \<longrightarrow> udp_step H (Datagram q) s' = None)"
proof -
  have "udp_run H (concat (replicate 32 [Datagram p, Send])) udp_init = Some (flooded src m ctx 32)"
    using flood_run [OF assms, of 32] by (simp add: msgCh_cap_def)
  moreover obtain s where s: "udp_run H [Datagram p, Dialled 0 False] (flooded src m ctx 32) = Some s" "wedged s"
    using assms by (auto simp: flooded_def serve_datagram_def at_session_def session_dial_def Let_def sess_def set_sess_def
      udp_newSession_def wedged_def msgCh_cap_def)
  moreover have "udp_step H (Datagram q) s' = None" if "udp_run H es s = Some s'" for es s' q
    using wedged_sending [OF wedged_run [OF s(2) that]] by auto
  ultimately show ?thesis by (auto simp: udp_run_append)
qed

theorem udp_flood_wedges_witness:
  "\<exists>s. udp_run (socks5_server Some) (concat (replicate 32 [Datagram (''c'', [], [0, 0, 0, 1, 9, 9, 9, 9, 0, 53, 7]), Send]) @
        [Datagram (''c'', [], [0, 0, 0, 1, 9, 9, 9, 9, 0, 53, 7]), Dialled 0 False]) udp_init = Some s \<and>
    udp_step (socks5_server Some) (Datagram (''d'', [], [1])) s = None"
proof -
  let ?p = "(''c'', [], [0, 0, 0, 1, 9, 9, 9, 9, 0, 53, 7])"
  have "uh_read (socks5_server Some) ?p =
      Inr (''c'', (''9.9.9.9:53'', [7]), \<lparr>pc_writeTo = Some ''c'', pc_target = Some [1, 9, 9, 9, 9, 0, 53]\<rparr>)"
    by code_simp
  from udp_flood_wedges [OF this] obtain s where
    s: "udp_run (socks5_server Some) (concat (replicate 32 [Datagram ?p, Send]) @ [Datagram ?p, Dialled 0 False]) udp_init = Some s"
      "\<forall>es s' q. udp_run (socks5_server Some) es s = Some s' \<longrightarrow> udp_step (socks5_server Some) (Datagram q) s' = None" by blast
  have "udp_step (socks5_server Some) (Datagram (''d'', [], [1])) s = None"
    using s(2) [rule_format, of "[]" s] by simp
  with s(1) show ?thesis by blast
qed

section \<open>Deadlines of a copy\<close>

text \<open>The deadlines grow by the step from one read to the next, up to the timeout.\<close>

lemma copy_deadline_min: "0 < step \<Longrightarrow> 0 \<le> t \<Longrightarrow> copy_deadline timeout step t = min (t + step) timeout"
  by (simp add: copy_deadline_def Let_def)

lemma CopyUDP_deadlines:
  assumes "0 < step" "step \<le> timeout" "0 \<le> t" "CopyUDP send writeTo timeout step t rs = (out, e)" "j < length out"
  shows "fst (out ! j) = min (t + int (Suc j) * step) timeout"
  using assms(3-5)
proof (induction rs arbitrary: t out e j)
  case (Cons r rs)
  let ?t = "copy_deadline timeout step t"
  have t: "?t = min (t + step) timeout" "0 \<le> ?t" using Cons.prems(1) assms(1,2) by (simp_all add: copy_deadline_min)
  obtain b addr out' where o: "out = (?t, b, addr) # out'" "CopyUDP send writeTo timeout step ?t rs = (out', e)"
    using Cons.prems(2,3) by (auto simp: Let_def split: sum.splits prod.splits option.splits)
  show ?case
  proof (cases j)
    case 0
    then show ?thesis using o(1) t(1) by simp
  next
    case (Suc i)
    then have "fst (out' ! i) = min (?t + int (Suc i) * step) timeout" using Cons.IH [OF t(2) o(2)] Cons.prems(3) o(1) by simp
    moreover have "0 \<le> int (Suc i) * step" using assms(1) by simp
    ultimately show ?thesis using Suc o(1) t(1) by (auto simp: min_def algebra_simps)
  qed
qed simp

end
