(* ===== verification/Spec2Isabelle.thy ===== *)
theory Spec2Isabelle
  imports Socks5 Dns_Client Rule_Proxy Dhcp_Pool Ws_Conn Trojan Shadow_Socks Vless Http_Proxy Socks4 Proxy_Source Gui_App Gui_Manager Smux_Flow Vmess Anytls Obfs Udp_Session
begin

text \<open>
  ProxyPool (the forwarding proxy glider with a local management service): a verification of its
  protocol, routing, DNS, DHCP and management code.

  \<^bold>\<open>The program.\<close>  Listeners (\<open>proxy/socks5\<close>, \<open>proxy/http\<close>, \<open>proxy/ss\<close>, \<open>...\<close>) accept connections and
  ask the rule proxy (\<open>rule/proxy.go\<close>) for a dialer for the destination.  The rule proxy maps domain
  suffixes, addresses and prefixes to groups of forwarders (\<open>rule/group.go\<close>), which schedule among
  the forwarders that their health checks (\<open>rule/check.go\<close>, \<open>rule/forward.go\<close>) leave available; a
  forwarder is a chain of clients of the same protocols.  The DNS server (\<open>dns\<close>) answers from a cache
  or through the groups and tells the rule proxy which addresses a name has, so that rules for names
  also hold for addresses.  A DHCP service leases addresses.  The management service (\<open>gui.go\<close>,
  \<open>internal\<close>) fetches proxies from pool servers, writes a configuration from them and supervises a
  process that runs it, with its output in a rolling log.

  \<^bold>\<open>The theories.\<close>

  \<^item> \<open>Go_Prelude\<close>: bytes, big-endian integers, errors as values (a run-time panic is the error
    \<open>Panic\<close>), connections with their input, output and remaining writes, the functions of \<open>strings\<close>,
    \<open>strconv\<close> and \<open>net/url\<close> used, 64-bit integers, removal of duplicates; the collections
    \<open>byte_simps\<close> and \<open>conn_simps\<close>.
  \<^item> \<open>Net_Addr\<close>: \<open>net.SplitHostPort\<close>, \<open>JoinHostPort\<close> and \<open>net/netip\<close> addresses.
  \<^item> \<open>Codec\<close>: the locale \<open>prefix_codec\<close> of self-delimiting formats, interpreted for SOCKS addresses
    (\<open>saddr\<close>), trojan datagrams (\<open>tpkt\<close>), VLESS datagrams (\<open>vlp\<close>), smux frames (\<open>smux\<close>),
    AnyTLS frames (\<open>anyf\<close>) and datagrams over AnyTLS (\<open>uot\<close>).
  \<^item> \<open>Pipe\<close>: the locale \<open>stream_reader\<close>, the contract of a \<open>Read\<close> that delivers chunks, interpreted for
    websocket frames (\<open>wsr\<close>), sealed chunks (\<open>aer\<close>), Shadowsocks connections (\<open>ssr\<close>), VLESS answers
    (\<open>vlr\<close>), the plain chunks, sealed chunks and answers of VMess (\<open>vch\<close>, \<open>vse\<close>, \<open>vmr\<close>) and both disguises of
    simple-obfs (\<open>obr\<close>, \<open>hob\<close>).  Its lemmas are that any reads deliver the stream without gaps, that \<open>io.ReadFull\<close> reads its
    next bytes and that the relay's copy loop (\<open>CopyBuffer\<close> of \<open>proxy/conn.go\<close>) ends with all of it written.
  \<^item> \<open>Buffer_Pool\<close> (\<open>pkg/pool/buffer.go\<close>): pooled buffers over an explicit memory; the users of the pool are a
    step relation.  Shown: buffers held are within their memory and never overlap.
  \<^item> \<open>Socks_Addr\<close> (\<open>pkg/socks/socks.go\<close>) and \<open>Socks5\<close> (\<open>proxy/socks5\<close>): addresses, the handshake of
    both sides, datagrams.  Shown: client and server agree on the target, no one without the
    credentials passes, two ways of reading addresses agree, texts and bytes of addresses are inverse.
  \<^item> \<open>Dns_Message\<close>, \<open>Dns_Cache\<close>, \<open>Dns_Client\<close> (\<open>dns\<close>): the message codec, the pointer-linked LRU
    cache over an explicit heap, upstream servers, client and server.  Shown: round trip of messages,
    refinement of the cache to a recency list (locale \<open>ttl_cache\<close>, interpretation \<open>lc\<close>), answers
    from custom records, failover, bounds on times to live; that a compression pointer may make the
    parser diverge or panic.
  \<^item> \<open>Domain_Walk\<close>: the walk over the suffixes of a name that DNS client and rule proxy share (locale
    \<open>suffix_lookup\<close>, interpretations \<open>upl\<close> and \<open>dl\<close>).
  \<^item> \<open>Fwdr_Group\<close> (\<open>rule/forward.go\<close>, \<open>group.go\<close>, \<open>check.go\<close>): forwarders, groups, strategies (locale
    \<open>scheduler\<close>, one interpretation per strategy), health checks.  Shown: the available set is exact
    under sequential calls, strategies choose from it, round robin is fair, failures disable at the
    limit; what survives and what does not when status changes interleave.
  \<^item> \<open>Rule_Proxy\<close> (\<open>rule/proxy.go\<close>, \<open>runtime_status.go\<close>): the maps, the choice of a group, learned
    addresses, the snapshot.
  \<^item> \<open>Dhcp_Pool\<close> (\<open>service/dhcpd\<close>): pool, leases, replies with their checksum.
  \<^item> \<open>Ws_Frame\<close>, \<open>Text_Proto\<close>, \<open>Ws_Conn\<close> (\<open>proxy/ws\<close>): frames with their mask, lines and MIME headers
    of \<open>net/textproto\<close>, the HTTP upgrade.  Shown: frames deliver the stream for any sizes of reads and
    writes (refinement of a pipe), both sides of the upgrade agree.
  \<^item> \<open>Trojan\<close> (\<open>proxy/trojan\<close>) and \<open>Vless\<close> (\<open>proxy/vless\<close>): header, handler with fallback, datagrams over
    the stream.  Shown: both sides agree on command and target, a connection without the secret reaches only
    the fallback, which gets every byte.
  \<^item> \<open>Shadow_Aead\<close> (\<open>proxy/ss/cipher/shadowaead\<close>) and \<open>Shadow_Socks\<close> (\<open>proxy/ss\<close>): sealed streams and packets,
    client and handler.  The locale \<open>full_reader\<close> reads addresses through any reader (interpretations \<open>ssf\<close>
    and \<open>cf\<close>).  Shown: streams are delivered, nonces never repeat, and end to end the server dials the
    client's target and copies the client's bytes to it.
  \<^item> \<open>Base64\<close>, \<open>Http_Proxy\<close> (\<open>proxy/http\<close>, \<open>proxy/mixed\<close>): credentials, requests, tunnels, forwarded requests,
    the listener for SOCKS5 and HTTP.  Shown: no dial without the credentials, both sides of a tunnel agree;
    that forwarding drops the header that frames a chunked body.
  \<^item> \<open>Vmess\<close> (\<open>proxy/vmess\<close>): users, the sealed request, chunks in the clear and sealed, connections.  Shown: a
    server that follows the protocol reads the client's request as it was meant, the answer is copied whole
    to its reader, and the nonces of a connection differ up to 65536 chunks and repeat afterwards.
  \<^item> \<open>Smux_Frame\<close>, \<open>Smux_Shaper\<close>, \<open>Smux_Session\<close>, \<open>Smux_Flow\<close> (\<open>pkg/smux\<close>, \<open>proxy/smux\<close>): frames; the shaper's
    binary heap (locale \<open>heap_order\<close>, interpretation \<open>shaper\<close>); sessions with their streams as objects in a store and
    every interleaving of receive loop, readers, writers and closers as a step relation; the windows of
    version 2 between two parties.  Shown: the shaper is a priority queue across wraps of its numbers, tokens are
    neither lost nor invented, readers get the bytes of their stream in order, the window protocol bounds the
    bytes under way and does not deadlock; that data before the registration of a stream is lost.
  \<^item> \<open>Anytls_Frame\<close>, \<open>Anytls_Session\<close>, \<open>Anytls\<close> (\<open>proxy/anytls\<close>): authentication, frames, padding scheme and settings;
    sessions and streams with Go channels and every interleaving of the receive loop, openers, readers and closers as
    a step relation; client, server and datagrams.  Shown: a stream receives its own payloads in order and a server
    serves what its client sent; that closing a session can panic, and that a refusal may go unnoticed.
  \<^item> \<open>Obfs\<close> (\<open>proxy/obfs\<close>): connections disguised as HTTP or TLS, against a parser after RFC 5246.  Shown: the stream
    passes through the disguise in both directions; that a header line of a certain length ends the header early.
  \<^item> \<open>Udp_Session\<close> (\<open>proxy/udp\<close>, and the datagram part of \<open>proxy/unix\<close>, \<open>tproxy\<close>, \<open>socks5\<close> and \<open>ss\<close>): the listener, the map of
    sessions and two goroutines per session, as runs over sequences of events; what differs between the servers is a
    record of operations (locale \<open>datagram_handler\<close>, interpretations \<open>udt\<close>, \<open>uxt\<close>, \<open>tpx\<close>, \<open>s5u\<close> and \<open>ssu\<close>).  Shown:
    datagrams of a source are forwarded in order, answers go to it, and when the listener is stuck for good.
  \<^item> \<open>Socks4\<close> (\<open>proxy/socks4\<close>): the client's request against a decoder of the protocol.
  \<^item> \<open>Proxy_Source\<close> (\<open>internal/proxysource\<close>): fetching and merging, independent of the order in which
    concurrent requests finish.
  \<^item> \<open>Gui_Settings\<close> (\<open>internal/guicore/settings.go\<close>, \<open>config.go\<close>): validation and the generated
    configuration, into which no value can inject a line.
  \<^item> \<open>Rolling_Log\<close> (\<open>filelog.go\<close>) and \<open>Gui_Manager\<close> (\<open>manager.go\<close>): the log over a file system whose
    operations may fail; the supervisor as a step relation with every interleaving of its goroutines.
  \<^item> \<open>Gui_App\<close> (\<open>gui.go\<close>): the handlers; the running process always has the configuration of the pool.
  \<^item> This theory: how the management service's view of the supervisor relates to its model.

  \<^bold>\<open>Conventions.\<close>  Records and functions keep the names of the source, with a prefix or suffix where
  HOL has the name already.  A method with a receiver that it changes returns the changed record.
  The AEAD ciphers, with their derivation from the salt, are the record \<open>aead\<close>, of which \<open>aead_ok\<close> states
  that opening inverts sealing and that sealing adds the overhead.
  Locked sections are atomic; where the source works outside its lock, the steps are separate rules of
  an inductive relation.  Results of dialing, relaying, TLS, hashing, JSON, \<open>url.Parse\<close>, clocks and
  random numbers are arguments.  What a property assumes of an argument is one of its hypotheses, and
  its witness gives a concrete argument.

  \<^bold>\<open>Bounds and fuel.\<close>  \<open>strings.ToLower\<close> and \<open>TrimSpace\<close> are modelled on ASCII.  The parser of IPv6
  addresses is given fuel 8, the number of groups an address can have.  Parsers and loops of the source
  that may run forever are partial functions into \<open>option\<close>, where \<open>None\<close> means that the call does not
  return; properties state that the result is \<open>Some\<close>.  Sizes of log files are natural numbers: they
  never exceed the capacity of 5 MiB.  Lengths of websocket payloads are below \<open>2^63\<close>, as every Go slice
  is.  The counters of smux are words: \<open>VerifyConfig\<close> bounds the buffers below \<open>2^31\<close>, the property of the windows is
  about the first \<open>2^32\<close> bytes of a stream and the one of the shaper about requests whose numbers lie within half
  of the circle.  VMess has tags of 16 and nonces of 12 bytes, as both of its ciphers do; \<open>nextID\<close> of its alternative
  users may loop and is a partial function.

  \<^bold>\<open>Not modelled.\<close>  Sockets, accept loops, deadlines and log lines; the rendering of HTTP responses and
  the set-up of the HTTP server; the searches of the discovery services; the
  stream ciphers of Shadowsocks; the proxy protocol; transports that only wrap a library or system calls (TLS,
  KCP, SSH, unix and vsock sockets, redirection, ipset).
\<close>

section \<open>The supervisor as the handlers see it\<close>

text \<open>
  The handlers of the service see the supervisor through \<open>app_Start\<close>: it succeeds exactly when
  \<open>mgr_Start\<close> does, on a file system that works and for a service whose process is the manager's.
\<close>

lemma app_Start_abstracts_manager:
  assumes "m_running m \<longleftrightarrow> proc a \<noteq> None" "e_start e \<longleftrightarrow> res \<noteq> None"
    and "m_executable m \<noteq> []" "m_configPath m \<noteq> []"
    and "mgr_Start (\<lambda>_. False) line now res m fs = (err, m', fs')"
    and "app_Start e a = (ok, a')" "file_config a \<noteq> None"
  shows "(err = None \<longleftrightarrow> ok) \<and> (m_running m' \<longleftrightarrow> proc a' \<noteq> None)"
proof -
  obtain l fs1 where "log_Open (\<lambda>_. False) (m_logs m) fs = (None, l, fs1)"
    using log_Open_opens by blast
  moreover obtain r l2 fs2 where "log_Write (\<lambda>_. False) line l fs1 = (r, l2, fs2)" by (metis prod.exhaust)
  ultimately show ?thesis
    using assms by (auto simp: mgr_Start_def app_Start_def Let_def split: if_splits option.splits)
qed

text \<open>Likewise for stopping: the locked part of \<open>Stop\<close> finds a command to stop exactly when the handlers
  see a process.\<close>

lemma app_Stop_abstracts_manager:
  assumes "mgr_inv s" "m_running (sy_m s) \<longleftrightarrow> proc a \<noteq> None" "mgr_Stop (sy_m s) = (c, m')"
    and "app_Stop e a = (ok, a')"
  shows "(c = None \<longleftrightarrow> proc a = None) \<and> (c = None \<longrightarrow> ok \<and> a' = a \<and> m' = sy_m s)"
  using assms by (auto simp: mgr_Stop_def app_Stop_def mgr_inv_def split: if_splits)

end
